(* ===== verification/Prelude.thy ===== *)
theory Prelude
  imports Main "HOL-Library.Word" "HOL-Library.Monad_Syntax"
begin

text \<open>
  Shared material of the mini-garnet development: the machine types, byte slices of a buffer
  (read a slice, overwrite a slice), the little-endian codecs \<open>to_le_bytes\<close> and
  \<open>from_le_bytes\<close> of the Rust standard library, signed 64-bit arithmetic written out over
  \<open>int\<close>, and the collections of simplification rules the component theories use.

  Conventions. A byte string \<open>&[u8]\<close> is a list of 8-bit words. A \<open>u64\<close> whose bits
  matter (a record header, a hash bucket entry, a latch) is a 64-bit word; an address, a
  length or an offset is a \<open>nat\<close>; an \<open>i64\<close> is an \<open>int\<close> in the range below. A call
  that may panic returns an \<open>option\<close>, with \<open>None\<close> for the panic.
\<close>

unbundle bit_operations_syntax

type_synonym byte = "8 word"
type_synonym bytes = "8 word list"
type_synonym u32 = "32 word"
type_synonym u64 = "64 word"
type_synonym addr = nat

named_theorems slice_simps \<open>reading a slice of a buffer after overwriting another\<close>
named_theorems info_simps \<open>flag and address reads of a header word after a header update\<close>
named_theorems entry_simps \<open>tag, address and flag reads of a hash bucket entry\<close>

subsection \<open>Byte literals\<close>

definition str :: "string \<Rightarrow> bytes" where
  "str s = map of_char s"

lemma str_Nil [simp]: "str [] = []"
  by (simp add: str_def)

lemma str_Cons [simp]: "str (c # s) = of_char c # str s"
  by (simp add: str_def)

lemma length_str [simp]: "length (str s) = length s"
  by (simp add: str_def)

subsection \<open>Slices of a buffer\<close>

text \<open>\<open>&buf[i..i+n]\<close>, and the buffer after \<open>buf[i..i+ys.len()].copy_from_slice(ys)\<close>.\<close>

definition slice_at :: "'a list \<Rightarrow> nat \<Rightarrow> nat \<Rightarrow> 'a list" where
  "slice_at xs i n = take n (drop i xs)"

definition splice_at :: "'a list \<Rightarrow> nat \<Rightarrow> 'a list \<Rightarrow> 'a list" where
  "splice_at xs i ys = take i xs @ ys @ drop (i + length ys) xs"

lemma length_slice [simp]: "length (slice_at xs i n) = min n (length xs - i)"
  by (simp add: slice_at_def min.commute)

lemma slice_0 [simp]: "slice_at xs i 0 = []"
  by (simp add: slice_at_def)

lemma slice_all [simp]: "slice_at xs 0 (length xs) = xs"
  by (simp add: slice_at_def)

lemma slice_slice: "j + m \<le> n \<Longrightarrow> slice_at (slice_at xs i n) j m = slice_at xs (i + j) m"
  by (simp add: slice_at_def drop_take min_absorb1 add.commute [of j i] le_diff_conv2)

lemma length_splice [simp]:
  "i + length ys \<le> length xs \<Longrightarrow> length (splice_at xs i ys) = length xs"
  by (simp add: splice_at_def)

lemma splice_Nil [simp]: "splice_at xs i [] = xs"
  by (simp add: splice_at_def)

lemma nth_splice:
  assumes "i + length ys \<le> length xs" and "k < length xs"
  shows "splice_at xs i ys ! k = (if i \<le> k \<and> k < i + length ys then ys ! (k - i) else xs ! k)"
  using assms by (auto simp: splice_at_def nth_append)

lemma nth_slice: "i + k < length xs \<Longrightarrow> k < n \<Longrightarrow> slice_at xs i n ! k = xs ! (i + k)"
  by (simp add: slice_at_def)

lemma slice_eqI:
  assumes "length xs = length ys" and "\<And>k. i \<le> k \<Longrightarrow> k < i + n \<Longrightarrow> k < length xs \<Longrightarrow> xs ! k = ys ! k"
  shows "slice_at xs i n = slice_at ys i n"
  using assms by (intro nth_equalityI) (auto simp: nth_slice)

lemma slice_splice_other [slice_simps]:
  assumes "i + length ys \<le> length xs" and "j + n \<le> i \<or> i + length ys \<le> j"
  shows "slice_at (splice_at xs i ys) j n = slice_at xs j n"
  using assms by (intro slice_eqI) (auto simp: nth_splice)

lemma slice_splice_inside:
  assumes "i + length ys \<le> length xs" and "i \<le> j" and "j + n \<le> i + length ys"
  shows "slice_at (splice_at xs i ys) j n = slice_at ys (j - i) n"
  using assms by (intro nth_equalityI) (auto simp: nth_slice nth_splice)

lemma slice_splice_same [slice_simps]:
  "i + length ys \<le> length xs \<Longrightarrow> n = length ys \<Longrightarrow> slice_at (splice_at xs i ys) i n = ys"
  by (simp add: slice_splice_inside)

lemma slice_append_left: "i + n \<le> length xs \<Longrightarrow> slice_at (xs @ ys) i n = slice_at xs i n"
  by (simp add: slice_at_def)

lemma slice_append_right: "length xs \<le> i \<Longrightarrow> slice_at (xs @ ys) i n = slice_at ys (i - length xs) n"
  by (simp add: slice_at_def)

lemma drop_splice: "i + length ys \<le> j \<Longrightarrow> j \<le> length xs \<Longrightarrow> drop j (splice_at xs i ys) = drop j xs"
  by (cases "i \<le> length xs") (auto simp: splice_at_def)

subsection \<open>Naturals as machine words\<close>

lemma unat_of_nat_u64: "n < 2 ^ 64 \<Longrightarrow> unat (of_nat n :: u64) = n"
  by (simp add: unat_of_nat)

lemma unat_of_nat_u32: "n < 2 ^ 32 \<Longrightarrow> unat (of_nat n :: u32) = n"
  by (simp add: unat_of_nat)

lemma take_bit_48_of_nat: "n < 2 ^ 48 \<Longrightarrow> take_bit 48 (of_nat n :: u64) = of_nat n"
  using unsigned_take_bit_eq [of 48 "of_nat n :: u64", where 'a = nat]
  by (simp add: word_unat_eq_iff take_bit_eq_mod unat_of_nat_u64)

subsection \<open>Little-endian codecs\<close>

primrec to_le :: "nat \<Rightarrow> 'a::len word \<Rightarrow> bytes" where
  "to_le 0 w = []"
| "to_le (Suc n) w = ucast w # to_le n (drop_bit 8 w)"

primrec from_le :: "bytes \<Rightarrow> 'a::len word" where
  "from_le [] = 0"
| "from_le (b # bs) = ucast b OR push_bit 8 (from_le bs)"

lemma length_to_le [simp]: "length (to_le n w) = n"
  by (induction n arbitrary: w) auto

lemma from_le_to_le_take_bit: "from_le (to_le n w) = take_bit (8 * n) w"
proof (induction n arbitrary: w)
  case 0
  then show ?case by simp
next
  case (Suc n)
  show ?case
    by (rule bit_word_eqI)
       (auto simp: Suc bit_or_iff bit_push_bit_iff bit_take_bit_iff bit_drop_bit_eq bit_ucast_iff
          not_le not_less dest: bit_imp_le_length)
qed

lemma from_le_to_le_u64 [simp]: "from_le (to_le 8 (w :: u64)) = w"
proof -
  have "from_le (to_le 8 w) = take_bit (8 * 8) w" by (rule from_le_to_le_take_bit)
  then show ?thesis by (simp add: take_bit_word_eq_self)
qed

lemma from_le_to_le_u32 [simp]: "from_le (to_le 4 (w :: u32)) = w"
proof -
  have "from_le (to_le 4 w) = take_bit (8 * 4) w" by (rule from_le_to_le_take_bit)
  then show ?thesis by (simp add: take_bit_word_eq_self)
qed

subsection \<open>Signed 64-bit integers\<close>

definition I64_MIN :: int where "I64_MIN = - (2 ^ 63)"
definition I64_MAX :: int where "I64_MAX = 2 ^ 63 - 1"

definition is_i64 :: "int \<Rightarrow> bool" where
  "is_i64 x \<longleftrightarrow> I64_MIN \<le> x \<and> x \<le> I64_MAX"

definition i64_wrap :: "int \<Rightarrow> int" where
  \<comment> \<open>two's complement wrap-around: \<open>wrapping_add\<close>, and plain arithmetic in a release build\<close>
  "i64_wrap x = signed_take_bit 63 x"

definition i64_checked :: "int \<Rightarrow> int option" where
  \<comment> \<open>\<open>checked_add\<close>, \<open>checked_mul\<close>\<close>
  "i64_checked x = (if is_i64 x then Some x else None)"

lemma is_i64_wrap [simp]: "is_i64 (i64_wrap x)"
  using signed_take_bit_int_greater_eq_minus_exp [of 63 x] signed_take_bit_int_less_exp [of 63 x]
  by (simp add: is_i64_def i64_wrap_def I64_MIN_def I64_MAX_def)

lemma i64_wrap_id [simp]: "is_i64 x \<Longrightarrow> i64_wrap x = x"
  by (auto simp: is_i64_def i64_wrap_def I64_MIN_def I64_MAX_def intro: signed_take_bit_int_eq_self)

lemma sint_word_of_int_i64: "is_i64 x \<Longrightarrow> sint (word_of_int x :: u64) = x"
  using i64_wrap_id [of x] by (simp add: i64_wrap_def sint_sbintrunc')

subsection \<open>Powers of two\<close>

text \<open>\<open>usize::next_power_of_two\<close>: the least power of two that is at least \<open>n\<close>.\<close>

function next_power_of_two_from :: "nat \<Rightarrow> nat \<Rightarrow> nat" where
  "next_power_of_two_from p n = (if p = 0 \<or> n \<le> p then p else next_power_of_two_from (2 * p) n)"
  by pat_completeness auto
termination
  by (relation "measure (\<lambda>(p, n). n - p)") auto

declare next_power_of_two_from.simps [simp del]

definition next_power_of_two :: "nat \<Rightarrow> nat" where
  "next_power_of_two n = next_power_of_two_from 1 n"

lemma next_power_of_two_from_pow:
  "\<exists>k. p = 2 ^ k \<Longrightarrow> \<exists>k. next_power_of_two_from p n = 2 ^ k"
proof (induction p n rule: next_power_of_two_from.induct)
  case (1 p n)
  show ?case
  proof (cases "p = 0 \<or> n \<le> p")
    case True
    with 1 show ?thesis by (simp add: next_power_of_two_from.simps [of p n])
  next
    case False
    moreover from 1 have "\<exists>k. 2 * p = 2 ^ k" by (metis power_Suc)
    ultimately show ?thesis using 1 by (simp add: next_power_of_two_from.simps [of p n])
  qed
qed

lemma next_power_of_two_from_ge: "p \<noteq> 0 \<Longrightarrow> n \<le> next_power_of_two_from p n"
proof (induction p n rule: next_power_of_two_from.induct)
  case (1 p n)
  then show ?case by (cases "n \<le> p") (simp_all add: next_power_of_two_from.simps [of p n])
qed

lemma next_power_of_two_pow: obtains k where "next_power_of_two n = 2 ^ k"
proof -
  have "\<exists>k. (1 :: nat) = 2 ^ k" by (rule exI [of _ 0]) simp
  then have "\<exists>k. next_power_of_two_from 1 n = 2 ^ k" by (rule next_power_of_two_from_pow)
  with that show thesis by (auto simp: next_power_of_two_def)
qed

lemma next_power_of_two_ge: "n \<le> next_power_of_two n"
  by (simp add: next_power_of_two_def next_power_of_two_from_ge)

lemma next_power_of_two_from_le: "p \<noteq> 0 \<Longrightarrow> p = 2 ^ k \<Longrightarrow> p \<le> 2 ^ m \<Longrightarrow> n \<le> 2 ^ m \<Longrightarrow> next_power_of_two_from p n \<le> 2 ^ m"
proof (induction p n arbitrary: k rule: next_power_of_two_from.induct)
  case (1 p n)
  show ?case
  proof (cases "n \<le> p")
    case True
    then have "next_power_of_two_from p n = p" by (simp add: next_power_of_two_from.simps [of p n])
    then show ?thesis using 1(4) by simp
  next
    case False
    then have "k < m" using 1 by (metis le_less_trans linorder_not_le one_less_numeral_iff
        power_less_imp_less_exp semiring_norm(76))
    then have "2 * p \<le> 2 ^ m" using 1 by (metis Suc_leI one_le_numeral power_Suc power_increasing)
    moreover have "2 * p = 2 ^ Suc k" using 1(3) by simp
    ultimately have "next_power_of_two_from (2 * p) n \<le> 2 ^ m" using False 1(2,5) by (intro 1(1) [of "Suc k"]) auto
    moreover have "next_power_of_two_from p n = next_power_of_two_from (2 * p) n"
      using False 1(2) by (subst next_power_of_two_from.simps) simp
    ultimately show ?thesis by simp
  qed
qed

lemma next_power_of_two_le: "n \<le> 2 ^ m \<Longrightarrow> next_power_of_two n \<le> 2 ^ m"
  unfolding next_power_of_two_def by (rule next_power_of_two_from_le [of _ 0]) auto

text \<open>Masking with a power of two less one is the remainder.\<close>

lemma nat_and_mask: "(n :: nat) AND (2 ^ k - 1) = n mod 2 ^ k"
  by (simp only: take_bit_eq_mask [symmetric] mask_eq_exp_minus_1 [symmetric] take_bit_eq_mod)

lemma block_start_le: "push_bit k (drop_bit k a) \<le> (a :: nat)"
  by (simp add: push_bit_eq_mult drop_bit_eq_div)

lemma block_end_gt: "a < push_bit k (drop_bit k a) + 2 ^ k" for a :: nat
proof -
  have "a mod 2 ^ k < 2 ^ k" by simp
  then show ?thesis using div_mult_mod_eq [of a "2 ^ k"] by (simp only: push_bit_eq_mult drop_bit_eq_div)
qed

lemma block_offset: "push_bit k (drop_bit k a) + a mod 2 ^ k = a" for a :: nat
  by (simp only: push_bit_eq_mult drop_bit_eq_div div_mult_mod_eq)

lemma push_bit_or: "off < 2 ^ k \<Longrightarrow> (push_bit k p OR off :: nat) = push_bit k p + off"
proof -
  assume "off < 2 ^ k"
  then have "take_bit k off = off" by (rule take_bit_nat_eq_self)
  then have "bit off n \<Longrightarrow> n < k" for n by (metis bit_take_bit_iff)
  then show ?thesis by (intro disjunctive_add [symmetric]) (fastforce simp: bit_push_bit_iff)
qed

lemma block_of: "off < 2 ^ k \<Longrightarrow> drop_bit k (push_bit k p + off :: nat) = p"
  by (simp add: push_bit_eq_mult drop_bit_eq_div)

end
