(* ===== verification/Epoch.thy ===== *)
theory Epoch
  imports Prelude
begin

text \<open>
  Epoch protection (\<^verbatim>\<open>epoch.rs\<close>): the table of slots, the global counter and the list of
  deferred actions, with each call of \<open>LightEpoch\<close> as a function of the calling thread's identity (the
  thread-local \<open>MY_ID\<close>; \<open>MY_SLOT\<close> is the map \<open>ep_my_slot\<close>). An action is a value; a call that runs actions
  returns them in the order they run, and the caller applies them. The protocol between threads, with the
  scan of the table as separate steps, is in \<open>EpochProtocol\<close>.
\<close>

definition MAX_THREADS :: nat where "MAX_THREADS = 128"
definition UNPROTECTED :: nat where "UNPROTECTED = 0"

record slot =
  s_epoch :: nat
  s_owner :: nat

record 'a drain_action =
  d_epoch :: nat
  d_action :: 'a

record 'a light_epoch =
  ep_current :: nat
  ep_table :: "slot list"
  ep_drain :: "'a drain_action list"
  ep_drain_count :: nat
  ep_my_slot :: "nat \<Rightarrow> nat option" \<comment> \<open>the thread-local \<open>MY_SLOT\<close> of each thread\<close>

definition epoch_new :: "'a light_epoch" where
  "epoch_new = \<lparr>ep_current = 1, ep_table = replicate MAX_THREADS \<lparr>s_epoch = UNPROTECTED, s_owner = 0\<rparr>,
     ep_drain = [], ep_drain_count = 0, ep_my_slot = \<lambda>_. None\<rparr>"

definition owns_slot :: "'a light_epoch \<Rightarrow> nat \<Rightarrow> nat \<Rightarrow> bool" where
  "owns_slot ep tid i \<longleftrightarrow> i < length (ep_table ep) \<and> s_owner (ep_table ep ! i) = tid"

definition probe_order :: "nat \<Rightarrow> nat list" where
  "probe_order tid =
     (let start = (tid * 0x9E3779B9 mod 2 ^ 64) mod MAX_THREADS
      in map (\<lambda>i. (start + i) mod MAX_THREADS) [0..<MAX_THREADS])"

definition claim_slot :: "'a light_epoch \<Rightarrow> nat \<Rightarrow> (nat \<times> 'a light_epoch) option" where
  \<comment> \<open>\<open>None\<close>: \<open>"epoch table full"\<close>\<close>
  "claim_slot ep tid =
     (case List.find (\<lambda>i. s_owner (ep_table ep ! i) = 0) (probe_order tid) of
        None \<Rightarrow> None
      | Some i \<Rightarrow> Some (i, ep\<lparr>ep_table := (ep_table ep)[i := (ep_table ep ! i)\<lparr>s_owner := tid\<rparr>],
                             ep_my_slot := (ep_my_slot ep)(tid := Some i)\<rparr>))"

definition my_slot :: "'a light_epoch \<Rightarrow> nat \<Rightarrow> (nat \<times> 'a light_epoch) option" where
  "my_slot ep tid =
     (case ep_my_slot ep tid of
        Some i \<Rightarrow> if owns_slot ep tid i then Some (i, ep) else claim_slot ep tid
      | None \<Rightarrow> claim_slot ep tid)"

definition is_protected :: "'a light_epoch \<Rightarrow> nat \<Rightarrow> bool" where
  "is_protected ep tid \<longleftrightarrow>
     (case ep_my_slot ep tid of None \<Rightarrow> False
      | Some i \<Rightarrow> owns_slot ep tid i \<and> s_epoch (ep_table ep ! i) \<noteq> UNPROTECTED)"

definition publish_epoch :: "'a light_epoch \<Rightarrow> nat \<Rightarrow> nat \<Rightarrow> 'a light_epoch" where
  \<comment> \<open>\<open>self.table[idx].epoch.store(e)\<close>\<close>
  "publish_epoch ep i e = ep\<lparr>ep_table := (ep_table ep)[i := (ep_table ep ! i)\<lparr>s_epoch := e\<rparr>]\<rparr>"

definition protect :: "'a light_epoch \<Rightarrow> nat \<Rightarrow> (nat \<times> 'a light_epoch) option" where
  "protect ep tid =
     do { (i, ep) \<leftarrow> my_slot ep tid;
          let e = ep_current ep in Some (e, publish_epoch ep i e) }"

fun min_epoch :: "nat \<Rightarrow> slot list \<Rightarrow> nat" where
  "min_epoch m [] = m"
| "min_epoch m (s # ss) = min_epoch (if s_epoch s \<noteq> UNPROTECTED \<and> s_epoch s < m then s_epoch s else m) ss"

definition compute_safe_epoch :: "'a light_epoch \<Rightarrow> nat" where
  "compute_safe_epoch ep = min_epoch (ep_current ep) (ep_table ep) - 1"

definition drain :: "'a light_epoch \<Rightarrow> 'a list \<times> 'a light_epoch" where
  \<comment> \<open>the lock is free: no other call holds it while this one runs\<close>
  "drain ep =
     (let safe = compute_safe_epoch ep in
      if ep_drain ep = [] then ([], ep)
      else
        (let (ready, pending) = partition (\<lambda>a. d_epoch a \<le> safe) (ep_drain ep)
         in (map d_action ready, ep\<lparr>ep_drain := pending, ep_drain_count := length pending\<rparr>)))"

definition drain_if_any :: "'a light_epoch \<Rightarrow> 'a list \<times> 'a light_epoch" where
  "drain_if_any ep = (if ep_drain_count ep > 0 then drain ep else ([], ep))"

definition refresh :: "'a light_epoch \<Rightarrow> nat \<Rightarrow> (nat \<times> 'a list \<times> 'a light_epoch) option" where
  "refresh ep tid =
     do { (i, ep) \<leftarrow> my_slot ep tid;
          let e = ep_current ep; (acts, ep') = drain_if_any (publish_epoch ep i e) in Some (e, acts, ep') }"

definition unprotect :: "'a light_epoch \<Rightarrow> nat \<Rightarrow> 'a light_epoch option" where
  "unprotect ep tid = do { (i, ep) \<leftarrow> my_slot ep tid; Some (publish_epoch ep i UNPROTECTED) }"

definition release_thread :: "'a light_epoch \<Rightarrow> nat \<Rightarrow> 'a light_epoch" where
  "release_thread ep tid =
     (case ep_my_slot ep tid of None \<Rightarrow> ep
      | Some i \<Rightarrow>
          if owns_slot ep tid i
          then ep\<lparr>ep_table := (ep_table ep)[i := \<lparr>s_epoch = UNPROTECTED, s_owner = 0\<rparr>],
                  ep_my_slot := (ep_my_slot ep)(tid := None)\<rparr>
          else ep)"

definition bump_current_epoch :: "'a light_epoch \<Rightarrow> nat \<times> 'a list \<times> 'a light_epoch" where
  "bump_current_epoch ep =
     (let n = ep_current ep + 1; (acts, ep') = drain_if_any (ep\<lparr>ep_current := n\<rparr>) in (n, acts, ep'))"

definition bump_with_action :: "'a light_epoch \<Rightarrow> 'a \<Rightarrow> nat \<times> 'a list \<times> 'a light_epoch" where
  "bump_with_action ep act =
     (let prior = ep_current ep;
          d = ep_drain ep @ [\<lparr>d_epoch = prior, d_action = act\<rparr>];
          ep1 = ep\<lparr>ep_drain := d, ep_drain_count := length d\<rparr>;
          n = ep_current ep1 + 1;
          (acts, ep2) = drain (ep1\<lparr>ep_current := n\<rparr>)
      in (n, acts, ep2))"

fun drain_all_blocking :: "nat \<Rightarrow> 'a light_epoch \<Rightarrow> ('a list \<times> 'a light_epoch) option" where
  \<comment> \<open>the first argument bounds the number of rounds of the \<open>while\<close> loop\<close>
  "drain_all_blocking 0 ep = (if ep_drain_count ep > 0 then None else Some ([], ep))"
| "drain_all_blocking (Suc k) ep =
     (if ep_drain_count ep > 0 then
        (let (n, acts, ep') = bump_current_epoch ep
         in map_option (\<lambda>(acts', ep''). (acts @ acts', ep'')) (drain_all_blocking k ep'))
      else Some ([], ep))"

subsection \<open>The safe epoch\<close>

lemma min_epoch_le: "min_epoch m ss \<le> m"
proof (induction ss arbitrary: m)
  case (Cons s ss)
  from Cons [of m] Cons [of "s_epoch s"] show ?case by auto
qed simp

lemma min_epoch_slot: "s \<in> set ss \<Longrightarrow> s_epoch s \<noteq> UNPROTECTED \<Longrightarrow> min_epoch m ss \<le> s_epoch s"
proof (induction ss arbitrary: m)
  case (Cons a ss)
  then show ?case
    using min_epoch_le [of "if s_epoch a \<noteq> UNPROTECTED \<and> s_epoch a < m then s_epoch a else m" ss]
    by (auto split: if_splits intro: le_trans)
qed simp

lemma min_epoch_cases:
  "min_epoch m ss = m \<or> (\<exists>s \<in> set ss. s_epoch s \<noteq> UNPROTECTED \<and> min_epoch m ss = s_epoch s)"
proof (induction ss arbitrary: m)
  case (Cons a ss)
  from Cons.IH [of "if s_epoch a \<noteq> UNPROTECTED \<and> s_epoch a < m then s_epoch a else m"]
  show ?case by (auto split: if_splits)
qed simp

lemma min_epoch_unprotected: "(\<And>s. s \<in> set ss \<Longrightarrow> s_epoch s = UNPROTECTED) \<Longrightarrow> min_epoch m ss = m"
  using min_epoch_cases [of m ss] by auto

subsection \<open>The invariant of the table\<close>

text \<open>
  Slots hold no epoch from the future, deferred actions are tagged with past epochs, a free slot is
  unprotected, and the count is the length of the list.
\<close>

definition epoch_wf :: "'a light_epoch \<Rightarrow> bool" where
  "epoch_wf ep \<longleftrightarrow>
     1 \<le> ep_current ep \<and> length (ep_table ep) = MAX_THREADS
     \<and> (\<forall>s \<in> set (ep_table ep). s_epoch s \<le> ep_current ep \<and> (s_owner s = 0 \<longrightarrow> s_epoch s = UNPROTECTED))
     \<and> (\<forall>a \<in> set (ep_drain ep). d_epoch a < ep_current ep)
     \<and> ep_drain_count ep = length (ep_drain ep)"

lemma epoch_wf_new: "epoch_wf epoch_new"
  by (simp add: epoch_wf_def epoch_new_def UNPROTECTED_def)

lemma probe_order_lt: "i \<in> set (probe_order tid) \<Longrightarrow> i < MAX_THREADS"
  by (auto simp: probe_order_def Let_def MAX_THREADS_def)

lemma my_slot_wf:
  assumes wf: "epoch_wf ep" and "my_slot ep tid = Some (i, ep')" and "0 < tid"
  shows "epoch_wf ep'" and "owns_slot ep' tid i" and "ep_current ep' = ep_current ep"
    and "ep_drain ep' = ep_drain ep" and "ep_my_slot ep' tid = Some i"
    and "map s_epoch (ep_table ep') = map s_epoch (ep_table ep)"
proof -
  have main: "epoch_wf ep' \<and> owns_slot ep' tid i \<and> ep_current ep' = ep_current ep \<and> ep_drain ep' = ep_drain ep
      \<and> ep_my_slot ep' tid = Some i \<and> map s_epoch (ep_table ep') = map s_epoch (ep_table ep)"
  proof (cases "ep' = ep \<and> ep_my_slot ep tid = Some i \<and> owns_slot ep tid i")
    case True
    then show ?thesis using wf by simp
  next
    case False
    then have "claim_slot ep tid = Some (i, ep')"
      using assms(2) by (auto simp: my_slot_def split: option.splits if_splits)
    then obtain f: "List.find (\<lambda>i. s_owner (ep_table ep ! i) = 0) (probe_order tid) = Some i"
      and ep': "ep' = ep\<lparr>ep_table := (ep_table ep)[i := (ep_table ep ! i)\<lparr>s_owner := tid\<rparr>],
                             ep_my_slot := (ep_my_slot ep)(tid := Some i)\<rparr>"
      by (auto simp: claim_slot_def split: option.splits)
    have i: "i < length (ep_table ep)"
      using f wf probe_order_lt [of i tid] by (auto simp: find_Some_iff epoch_wf_def)
    have "s_epoch (ep_table ep ! i) \<le> ep_current ep" using wf i by (auto simp: epoch_wf_def)
    moreover have "map s_epoch ((ep_table ep)[i := (ep_table ep ! i)\<lparr>s_owner := tid\<rparr>]) = map s_epoch (ep_table ep)"
      using i by (simp add: map_update list_update_same_conv)
    ultimately show ?thesis
      using wf i assms(3) unfolding ep' epoch_wf_def owns_slot_def
      by (auto dest!: set_update_subset_insert [THEN subsetD])
  qed
  then show "epoch_wf ep'" "owns_slot ep' tid i" "ep_current ep' = ep_current ep"
    "ep_drain ep' = ep_drain ep" "ep_my_slot ep' tid = Some i" "map s_epoch (ep_table ep') = map s_epoch (ep_table ep)"
    by auto
qed

lemma publish_wf:
  assumes "epoch_wf ep" and "owns_slot ep tid i" and "0 < tid" and "e \<le> ep_current ep"
  shows "epoch_wf (publish_epoch ep i e)"
  using assms unfolding epoch_wf_def owns_slot_def publish_epoch_def
  by (auto dest!: set_update_subset_insert [THEN subsetD])

lemma drain_eq:
  assumes "epoch_wf ep"
  shows "drain_if_any ep = drain ep"
    and "drain ep = (map d_action (filter (\<lambda>a. d_epoch a \<le> compute_safe_epoch ep) (ep_drain ep)),
      ep\<lparr>ep_drain := filter (\<lambda>a. compute_safe_epoch ep < d_epoch a) (ep_drain ep),
         ep_drain_count := length (filter (\<lambda>a. compute_safe_epoch ep < d_epoch a) (ep_drain ep))\<rparr>)"
proof -
  show "drain ep = (map d_action (filter (\<lambda>a. d_epoch a \<le> compute_safe_epoch ep) (ep_drain ep)),
      ep\<lparr>ep_drain := filter (\<lambda>a. compute_safe_epoch ep < d_epoch a) (ep_drain ep),
         ep_drain_count := length (filter (\<lambda>a. compute_safe_epoch ep < d_epoch a) (ep_drain ep))\<rparr>)"
  proof -
    have n: "Not \<circ> (\<lambda>a. d_epoch a \<le> k) = (\<lambda>a. k < d_epoch a)" for k and a :: "'a drain_action"
      by (auto simp: fun_eq_iff)
    show ?thesis
    proof (cases "ep_drain ep = []")
      case True
      then show ?thesis using assms by (auto simp: drain_def epoch_wf_def Let_def)
    next
      case False
      then show ?thesis by (simp add: drain_def n Let_def)
    qed
  qed
  show "drain_if_any ep = drain ep"
    using assms by (simp add: drain_if_any_def epoch_wf_def) (simp add: drain_def Let_def)
qed

lemma drain_wf: "epoch_wf ep \<Longrightarrow> epoch_wf (snd (drain ep))"
  by (auto simp: drain_eq(2) epoch_wf_def)

lemma safe_below:
  assumes "epoch_wf ep"
  shows "compute_safe_epoch ep < ep_current ep"
    and "s \<in> set (ep_table ep) \<Longrightarrow> s_epoch s \<noteq> UNPROTECTED \<Longrightarrow> compute_safe_epoch ep < s_epoch s"
proof -
  have pos: "0 < min_epoch (ep_current ep) (ep_table ep)"
    using min_epoch_cases [of "ep_current ep" "ep_table ep"] assms by (auto simp: epoch_wf_def UNPROTECTED_def)
  then show "compute_safe_epoch ep < ep_current ep"
    using min_epoch_le [of "ep_current ep" "ep_table ep"] by (simp add: compute_safe_epoch_def)
  show "s \<in> set (ep_table ep) \<Longrightarrow> s_epoch s \<noteq> UNPROTECTED \<Longrightarrow> compute_safe_epoch ep < s_epoch s"
    using pos min_epoch_slot [of s "ep_table ep" "ep_current ep"] by (simp add: compute_safe_epoch_def)
qed

lemma epoch_wf_bump: "epoch_wf ep \<Longrightarrow> epoch_wf (ep\<lparr>ep_current := ep_current ep + 1\<rparr>)"
  by (auto simp: epoch_wf_def le_SucI less_SucI)

lemma epoch_wf_push:
  "epoch_wf ep \<Longrightarrow> d = ep_drain ep @ [\<lparr>d_epoch = ep_current ep, d_action = act\<rparr>] \<Longrightarrow>
     epoch_wf (ep\<lparr>ep_drain := d, ep_drain_count := length d, ep_current := ep_current ep + 1\<rparr>)"
  by (auto simp: epoch_wf_def le_SucI less_SucI)

lemma slot_publish_wf:
  assumes "epoch_wf ep" and "0 < tid" and "my_slot ep tid = Some (i, ep1)" and "e \<le> ep_current ep"
  shows "epoch_wf (publish_epoch ep1 i e)"
  using my_slot_wf [OF assms(1,3,2)] assms(2,4) by (intro publish_wf [of ep1 tid]) auto

lemma protect_wf: "epoch_wf ep \<Longrightarrow> 0 < tid \<Longrightarrow> protect ep tid = Some (e, ep') \<Longrightarrow> epoch_wf ep'"
  unfolding protect_def Let_def
  by (cases "my_slot ep tid") (auto simp: my_slot_wf(3) intro!: slot_publish_wf)

lemma unprotect_wf: "epoch_wf ep \<Longrightarrow> 0 < tid \<Longrightarrow> unprotect ep tid = Some ep' \<Longrightarrow> epoch_wf ep'"
  unfolding unprotect_def
  by (cases "my_slot ep tid") (auto simp: UNPROTECTED_def intro!: slot_publish_wf)

lemma refresh_wf:
  assumes "epoch_wf ep" and "0 < tid" and "refresh ep tid = Some (e, acts, ep')"
  shows "epoch_wf ep'"
proof -
  obtain i ep1 where m: "my_slot ep tid = Some (i, ep1)"
    using assms(3) by (cases "my_slot ep tid") (auto simp: refresh_def)
  then have d: "drain_if_any (publish_epoch ep1 i (ep_current ep1)) = (acts, ep')"
    using assms(3) by (auto simp: refresh_def Let_def split: prod.splits)
  have w: "epoch_wf (publish_epoch ep1 i (ep_current ep1))"
    using my_slot_wf(3) [OF assms(1) m assms(2)] by (intro slot_publish_wf [OF assms(1,2) m]) simp
  show ?thesis using drain_wf [OF w] d drain_eq(1) [OF w] by simp
qed

lemma release_thread_wf: "epoch_wf ep \<Longrightarrow> epoch_wf (release_thread ep tid)"
  unfolding epoch_wf_def release_thread_def
  by (auto simp: UNPROTECTED_def split: option.splits dest!: set_update_subset_insert [THEN subsetD])

lemma bump_wf:
  assumes "epoch_wf ep"
  shows "epoch_wf (snd (snd (bump_current_epoch ep)))" and "epoch_wf (snd (snd (bump_with_action ep act)))"
proof -
  note w = epoch_wf_bump [OF assms]
  show "epoch_wf (snd (snd (bump_current_epoch ep)))"
    using drain_wf [OF w] drain_eq(1) [OF w] by (simp add: bump_current_epoch_def Let_def split_beta)
  show "epoch_wf (snd (snd (bump_with_action ep act)))"
    using drain_wf [OF epoch_wf_push [OF assms refl]] by (simp add: bump_with_action_def Let_def split_beta)
qed

subsection \<open>Properties\<close>

text \<open>Draining runs, in the order of registration, exactly the actions tagged with an epoch that is
  older than the epoch of every protected thread, and keeps the others; a thread that entered the current epoch
  holds back an action registered from then on.\<close>

theorem epoch_drain_safe:
  assumes "epoch_wf ep"
  shows "(let (acts, ep') = drain ep; run = filter (\<lambda>a. d_epoch a \<le> compute_safe_epoch ep) (ep_drain ep) in
      acts = map d_action run
      \<and> ep_drain ep' = filter (\<lambda>a. \<not> d_epoch a \<le> compute_safe_epoch ep) (ep_drain ep)
      \<and> (\<forall>a s. a \<in> set run \<and> s \<in> set (ep_table ep) \<and> s_epoch s \<noteq> UNPROTECTED \<longrightarrow> d_epoch a < s_epoch s)
      \<and> epoch_wf ep')
    \<and> ((\<exists>s \<in> set (ep_table ep). s_epoch s = ep_current ep) \<longrightarrow>
        \<lparr>d_epoch = ep_current ep, d_action = act\<rparr> \<in> set (ep_drain (snd (snd (bump_with_action ep act)))))"
proof -
  have ne: "\<not> d_epoch a \<le> compute_safe_epoch ep \<longleftrightarrow> compute_safe_epoch ep < d_epoch a" for a :: "'a drain_action" by auto
  have "d_epoch a < s_epoch s" if "a \<in> set (ep_drain ep)" "d_epoch a \<le> compute_safe_epoch ep" "s \<in> set (ep_table ep)"
    "s_epoch s \<noteq> UNPROTECTED" for a s
    using safe_below(2) [OF assms that(3,4)] that(2) by simp
  moreover have "\<lparr>d_epoch = ep_current ep, d_action = act\<rparr> \<in> set (ep_drain (snd (snd (bump_with_action ep act))))"
    if "s \<in> set (ep_table ep)" "s_epoch s = ep_current ep" for s
  proof -
    let ?d = "ep_drain ep @ [\<lparr>d_epoch = ep_current ep, d_action = act\<rparr>]"
    let ?ep = "ep\<lparr>ep_drain := ?d, ep_drain_count := length ?d, ep_current := ep_current ep + 1\<rparr>"
    have wf: "epoch_wf ?ep" using assms by (auto simp: epoch_wf_def le_SucI less_SucI)
    have "compute_safe_epoch ?ep < s_epoch s"
      by (rule safe_below(2) [OF wf]) (use that assms in \<open>auto simp: epoch_wf_def UNPROTECTED_def\<close>)
    then show ?thesis
      using that(2) drain_eq(2) [OF wf] by (simp add: bump_with_action_def Let_def)
  qed
  ultimately show ?thesis using drain_wf [OF assms] by (auto simp: drain_eq(2) [OF assms] Let_def ne)
qed

theorem epoch_drain_safe_witness:
  "\<lparr>d_epoch = 1, d_action = ()\<rparr> \<in> set (ep_drain (snd (snd (bump_with_action (snd (the (protect epoch_new 7))) ()))))"
proof -
  let ?i = "hd (probe_order 7)"
  have "[0..<MAX_THREADS] \<noteq> []" by (simp add: MAX_THREADS_def)
  then have ne: "probe_order 7 \<noteq> []" by (simp add: probe_order_def Let_def)
  have i: "?i < MAX_THREADS" using ne by (intro probe_order_lt [of _ 7]) simp
  have f: "List.find (\<lambda>i. s_owner (ep_table (epoch_new :: unit light_epoch) ! i) = 0) (probe_order 7) = Some ?i"
    using ne i by (cases "probe_order 7") (simp_all add: epoch_new_def)
  define ep :: "unit light_epoch" where "ep = snd (the (protect epoch_new 7))"
  have p: "protect (epoch_new :: unit light_epoch) 7 = Some (1, ep)"
    using f by (simp add: ep_def protect_def my_slot_def claim_slot_def Let_def epoch_new_def)
  have wf: "epoch_wf ep" by (rule protect_wf [OF epoch_wf_new _ p]) simp
  have "\<exists>s \<in> set (ep_table ep). s_epoch s = ep_current ep"
    using f i
    by (intro bexI [of _ "ep_table ep ! ?i"])
       (simp_all add: ep_def protect_def my_slot_def claim_slot_def Let_def publish_epoch_def epoch_new_def set_update_memI)
  moreover have "ep_current ep = 1"
    using f by (simp add: ep_def protect_def my_slot_def claim_slot_def Let_def publish_epoch_def epoch_new_def)
  ultimately show ?thesis using epoch_drain_safe [OF wf, of "()"] by (simp add: ep_def)
qed

text \<open>When no thread is protected, waiting for the deferred actions ends after one round, with every
  action run in its order.\<close>

theorem drain_all_terminates:
  assumes "epoch_wf ep" and "\<forall>s \<in> set (ep_table ep). s_epoch s = UNPROTECTED"
  shows "\<exists>ep'. drain_all_blocking 1 ep = Some (map d_action (ep_drain ep), ep') \<and> ep_drain ep' = [] \<and> epoch_wf ep'"
proof (cases "ep_drain_count ep > 0")
  case False
  then show ?thesis using assms(1) by (simp add: epoch_wf_def)
next
  case True
  let ?ep = "ep\<lparr>ep_current := ep_current ep + 1\<rparr>"
  have wf: "epoch_wf ?ep" using assms(1) by (auto simp: epoch_wf_def le_SucI less_SucI)
  have safe: "compute_safe_epoch ?ep = ep_current ep"
    using assms(2) by (simp add: compute_safe_epoch_def min_epoch_unprotected)
  have all: "filter (\<lambda>a. d_epoch a \<le> ep_current ep) (ep_drain ep) = ep_drain ep"
    "filter (\<lambda>a. ep_current ep < d_epoch a) (ep_drain ep) = []"
    using assms(1) by (auto simp: epoch_wf_def filter_id_conv filter_empty_conv less_imp_le)
  have b: "bump_current_epoch ep = (ep_current ep + 1, map d_action (ep_drain ep), ?ep\<lparr>ep_drain := [], ep_drain_count := 0\<rparr>)"
    using drain_eq [OF wf] safe all by (simp add: bump_current_epoch_def Let_def)
  have "epoch_wf (?ep\<lparr>ep_drain := [], ep_drain_count := 0\<rparr>)" using wf by (simp add: epoch_wf_def)
  then show ?thesis using True b by simp
qed

theorem drain_all_terminates_witness:
  "\<exists>ep'. drain_all_blocking 1 (epoch_new\<lparr>ep_current := 2, ep_drain := [\<lparr>d_epoch = 1, d_action = 5\<rparr>], ep_drain_count := 1\<rparr>)
     = Some ([5 :: nat], ep') \<and> ep_drain ep' = []"
  using drain_all_terminates [of "epoch_new\<lparr>ep_current := 2, ep_drain := [\<lparr>d_epoch = 1, d_action = 5 :: nat\<rparr>], ep_drain_count := 1\<rparr>"]
  by (auto simp: epoch_wf_def epoch_new_def UNPROTECTED_def)

end
