(* ===== verification/EpochProtocol.thy ===== *)
theory EpochProtocol
  imports Epoch
begin

text \<open>
  The epoch protocol between threads (\<^verbatim>\<open>epoch.rs\<close> with the boundary shifts of \<^verbatim>\<open>log.rs\<close>), with each atomic
  access as a step: a thread loads the counter and stores it in its slot in two steps, reads the boundary (the
  head or read-only address) while protected and then works under the value it saw, and drops it before it
  refreshes or leaves. A boundary move publishes the new value, loads the counter, registers its action with
  that epoch and then increments the counter. A drain loads the counter, reads the slots one at a time, and runs an
  action whose epoch is below the minimum it saw. Accesses are interleaved in one total order.
\<close>

datatype publisher = NotPublishing | Published nat | Tagged nat nat | Registered

record table_scan =
  sc_min :: nat
  sc_seen :: "nat set"

record proto =
  p_current :: nat
  p_bound :: nat \<comment> \<open>the published boundary\<close>
  p_slot :: "nat \<Rightarrow> nat"
  p_loaded :: "nat \<Rightarrow> nat option" \<comment> \<open>a counter value loaded but not yet stored in the slot\<close>
  p_seen :: "nat \<Rightarrow> nat option" \<comment> \<open>the boundary a protected thread works under\<close>
  p_pub :: "nat \<Rightarrow> publisher"
  p_actions :: "(nat \<times> nat) set" \<comment> \<open>registered actions: epoch and the boundary they retire\<close>
  p_scan :: "nat \<Rightarrow> table_scan option"

definition proto_init :: proto where
  "proto_init = \<lparr>p_current = 1, p_bound = 0, p_slot = \<lambda>_. UNPROTECTED, p_loaded = \<lambda>_. None, p_seen = \<lambda>_. None,
     p_pub = \<lambda>_. NotPublishing, p_actions = {}, p_scan = \<lambda>_. None\<rparr>"

definition may_run :: "proto \<Rightarrow> nat \<Rightarrow> nat \<Rightarrow> nat \<Rightarrow> bool" where
  \<comment> \<open>the scan \<open>d\<close> is complete and its safe epoch covers the action\<close>
  "may_run s d e b \<longleftrightarrow>
     (\<exists>sc. p_scan s d = Some sc \<and> {..<MAX_THREADS} \<subseteq> sc_seen sc \<and> (e, b) \<in> p_actions s \<and> e \<le> sc_min sc - 1)"

inductive proto_step :: "proto \<Rightarrow> proto \<Rightarrow> bool" where
  load: "t < MAX_THREADS \<Longrightarrow> p_seen s t = None \<Longrightarrow> p_loaded s t = None \<Longrightarrow>
    proto_step s (s\<lparr>p_loaded := (p_loaded s)(t := Some (p_current s))\<rparr>)"
| store: "p_loaded s t = Some e \<Longrightarrow>
    proto_step s (s\<lparr>p_slot := (p_slot s)(t := e), p_loaded := (p_loaded s)(t := None)\<rparr>)"
| observe: "p_slot s t \<noteq> UNPROTECTED \<Longrightarrow> p_loaded s t = None \<Longrightarrow>
    proto_step s (s\<lparr>p_seen := (p_seen s)(t := Some (p_bound s))\<rparr>)"
| drop_seen: "proto_step s (s\<lparr>p_seen := (p_seen s)(t := None)\<rparr>)"
| leave: "p_seen s t = None \<Longrightarrow> p_loaded s t = None \<Longrightarrow>
    proto_step s (s\<lparr>p_slot := (p_slot s)(t := UNPROTECTED)\<rparr>)"
| publish: "p_pub s p = NotPublishing \<Longrightarrow> p_bound s < b \<Longrightarrow>
    proto_step s (s\<lparr>p_bound := b, p_pub := (p_pub s)(p := Published b)\<rparr>)"
| tag: "p_pub s p = Published b \<Longrightarrow>
    proto_step s (s\<lparr>p_pub := (p_pub s)(p := Tagged (p_current s) b)\<rparr>)"
| register: "p_pub s p = Tagged e b \<Longrightarrow>
    proto_step s (s\<lparr>p_actions := insert (e, b) (p_actions s), p_pub := (p_pub s)(p := Registered)\<rparr>)"
| bump_action: "p_pub s p = Registered \<Longrightarrow>
    proto_step s (s\<lparr>p_current := p_current s + 1, p_pub := (p_pub s)(p := NotPublishing)\<rparr>)"
| bump: "proto_step s (s\<lparr>p_current := p_current s + 1\<rparr>)"
| scan_start: "proto_step s (s\<lparr>p_scan := (p_scan s)(d := Some \<lparr>sc_min = p_current s, sc_seen = {}\<rparr>)\<rparr>)"
| scan_slot: "p_scan s d = Some sc \<Longrightarrow> t \<notin> sc_seen sc \<Longrightarrow>
    proto_step s (s\<lparr>p_scan := (p_scan s)(d := Some \<lparr>
      sc_min = (if p_slot s t \<noteq> UNPROTECTED \<and> p_slot s t < sc_min sc then p_slot s t else sc_min sc),
      sc_seen = insert t (sc_seen sc)\<rparr>)\<rparr>)"
| run: "may_run s d e b \<Longrightarrow> proto_step s (s\<lparr>p_actions := p_actions s - {(e, b)}\<rparr>)"

definition proto_reachable :: "proto \<Rightarrow> bool" where
  "proto_reachable = proto_step\<^sup>*\<^sup>* proto_init"

subsection \<open>The invariant\<close>

text \<open>Actions that are registered, or whose publisher has already read the epoch it will tag them with.\<close>

definition obligations :: "proto \<Rightarrow> (nat \<times> nat) set" where
  "obligations s = p_actions s \<union> {(e, b). \<exists>p. p_pub s p = Tagged e b}"

definition threads_ok :: "proto \<Rightarrow> bool" where
  "threads_ok s \<longleftrightarrow> 1 \<le> p_current s
     \<and> (\<forall>t. p_slot s t \<le> p_current s) \<and> (\<forall>t e. p_loaded s t = Some e \<longrightarrow> 1 \<le> e \<and> e \<le> p_current s)
     \<and> (\<forall>t. p_seen s t \<noteq> None \<longrightarrow> p_slot s t \<noteq> UNPROTECTED \<and> p_loaded s t = None)
     \<and> (\<forall>t. p_slot s t \<noteq> UNPROTECTED \<or> p_loaded s t \<noteq> None \<longrightarrow> t < MAX_THREADS)"

text \<open>A thread that works under an older boundary entered before the epoch the action is tagged with.\<close>

definition bounds_ok :: "proto \<Rightarrow> bool" where
  "bounds_ok s \<longleftrightarrow> (\<forall>p b. p_pub s p = Published b \<longrightarrow> b \<le> p_bound s)
     \<and> (\<forall>e b. (e, b) \<in> obligations s \<longrightarrow> b \<le> p_bound s)
     \<and> (\<forall>e b t w. (e, b) \<in> obligations s \<longrightarrow> p_seen s t = Some w \<longrightarrow> w < b \<longrightarrow> p_slot s t \<le> e)"

text \<open>A scan whose minimum lies above the epoch of an action has seen no thread under an older boundary.\<close>

definition scans_ok :: "proto \<Rightarrow> bool" where
  "scans_ok s \<longleftrightarrow> (\<forall>d sc. p_scan s d = Some sc \<longrightarrow> 1 \<le> sc_min sc \<and> sc_min sc \<le> p_current s)
     \<and> (\<forall>d sc e b t w. p_scan s d = Some sc \<longrightarrow> (e, b) \<in> obligations s \<longrightarrow> e < sc_min sc \<longrightarrow> t \<in> sc_seen sc \<longrightarrow>
          p_seen s t = Some w \<longrightarrow> b \<le> w)"

lemma threads_ok_step: "proto_step s s' \<Longrightarrow> threads_ok s \<Longrightarrow> threads_ok s'"
  by (cases rule: proto_step.cases, assumption) (auto simp: threads_ok_def UNPROTECTED_def le_SucI)

lemma obligations_same:
  shows "obligations (s\<lparr>p_loaded := x\<rparr>) = obligations s" "obligations (s\<lparr>p_slot := y, p_loaded := x\<rparr>) = obligations s"
    "obligations (s\<lparr>p_seen := z\<rparr>) = obligations s" "obligations (s\<lparr>p_slot := y\<rparr>) = obligations s"
    "obligations (s\<lparr>p_scan := sc\<rparr>) = obligations s" "obligations (s\<lparr>p_current := n\<rparr>) = obligations s"
  by (simp_all add: obligations_def)

lemma obligations_pub:
  "(x \<in> obligations (s\<lparr>p_bound := b, p_pub := (p_pub s)(p := Published b')\<rparr>)) \<Longrightarrow> x \<in> obligations s"
  "x \<in> obligations (s\<lparr>p_pub := (p_pub s)(p := Tagged e b)\<rparr>) \<Longrightarrow> x = (e, b) \<or> x \<in> obligations s"
  "p_pub s p = Tagged e b \<Longrightarrow>
     x \<in> obligations (s\<lparr>p_actions := insert (e, b) (p_actions s), p_pub := (p_pub s)(p := Registered)\<rparr>) \<Longrightarrow> x \<in> obligations s"
  "x \<in> obligations (s\<lparr>p_current := n, p_pub := (p_pub s)(p := NotPublishing)\<rparr>) \<Longrightarrow> x \<in> obligations s"
  "x \<in> obligations (s\<lparr>p_actions := p_actions s - {(e, b)}\<rparr>) \<Longrightarrow> x \<in> obligations s"
  by (auto simp: obligations_def split: if_splits)

lemma threads_okD:
  assumes "threads_ok s"
  shows "p_slot s t \<le> p_current s" and "p_seen s t = Some w \<Longrightarrow> p_slot s t \<noteq> UNPROTECTED"
    and "p_loaded s t = Some e \<Longrightarrow> p_seen s t = None" and "1 \<le> p_current s"
  using assms by (auto simp: threads_ok_def)

lemma bounds_okD:
  assumes "bounds_ok s"
  shows "p_pub s p = Published b \<Longrightarrow> b \<le> p_bound s" and "(e, b) \<in> obligations s \<Longrightarrow> b \<le> p_bound s"
    and "(e, b) \<in> obligations s \<Longrightarrow> p_seen s t = Some w \<Longrightarrow> w < b \<Longrightarrow> p_slot s t \<le> e"
  using assms by (auto simp: bounds_ok_def)

lemma bounds_ok_step:
  assumes "proto_step s s'" and th: "threads_ok s" and b: "bounds_ok s"
  shows "bounds_ok s'"
  using assms(1)
proof cases
  case (store t e)
  have "p_seen s t = None" by (rule threads_okD(3) [OF th store(2)])
  then show ?thesis using b unfolding store bounds_ok_def obligations_same by auto
next
  case (publish p b')
  have *: "x \<le> b'" if "x \<le> p_bound s" for x using that publish(3) by simp
  show ?thesis
    unfolding bounds_ok_def publish
    using bounds_okD [OF b] * by (auto dest!: obligations_pub(1) split: if_splits)
next
  case (tag p b')
  show ?thesis
    unfolding bounds_ok_def tag
    using bounds_okD [OF b] threads_okD(1) [OF th] tag(2) by (auto dest!: obligations_pub(2) split: if_splits)
next
  case (register p e b')
  show ?thesis
    unfolding bounds_ok_def register
    using bounds_okD [OF b] by (auto dest!: obligations_pub(3) [OF register(2)] split: if_splits)
next
  case (bump_action p)
  show ?thesis
    unfolding bounds_ok_def bump_action
    using bounds_okD [OF b] by (auto dest!: obligations_pub(4) split: if_splits)
next
  case (run d e b')
  show ?thesis
    unfolding bounds_ok_def run using bounds_okD [OF b] by (auto dest!: obligations_pub(5))
next
  case (observe t)
  show ?thesis
    unfolding bounds_ok_def observe obligations_same
    using bounds_okD [OF b] leD [OF bounds_okD(2) [OF b]] by auto
qed (use b in \<open>auto simp: bounds_ok_def obligations_same UNPROTECTED_def\<close>)

lemma scans_okD:
  assumes "scans_ok s" and "p_scan s d = Some sc"
  shows "1 \<le> sc_min sc" and "sc_min sc \<le> p_current s"
    and "(e, b) \<in> obligations s \<Longrightarrow> e < sc_min sc \<Longrightarrow> t \<in> sc_seen sc \<Longrightarrow> p_seen s t = Some w \<Longrightarrow> b \<le> w"
  using assms by (auto simp: scans_ok_def)

lemma scans_ok_scan_slot:
  assumes th: "threads_ok s" and b: "bounds_ok s" and sc: "scans_ok s" and d: "p_scan s d = Some c"
  shows "scans_ok (s\<lparr>p_scan := (p_scan s)(d := Some \<lparr>
      sc_min = (if p_slot s t \<noteq> UNPROTECTED \<and> p_slot s t < sc_min c then p_slot s t else sc_min c),
      sc_seen = insert t (sc_seen c)\<rparr>)\<rparr>)"
proof -
  let ?m = "if p_slot s t \<noteq> UNPROTECTED \<and> p_slot s t < sc_min c then p_slot s t else sc_min c"
  note D = scans_okD [OF sc d]
  have m: "1 \<le> ?m" "?m \<le> p_current s" "?m \<le> sc_min c" using D(1,2) by (auto simp: UNPROTECTED_def)
  have "e < ?m \<Longrightarrow> b' \<le> w" if o: "(e, b') \<in> obligations s" and u: "u \<in> insert t (sc_seen c)" and w: "p_seen s u = Some w" for e b' u w
  proof (cases "u \<in> sc_seen c")
    case True
    then show "e < ?m \<Longrightarrow> b' \<le> w" using D(3) [OF o _ True w] m(3) by simp
  next
    case False
    then have "u = t" using u by simp
    assume "e < ?m"
    have "p_slot s t \<noteq> UNPROTECTED" using threads_okD(2) [OF th] w \<open>u = t\<close> by blast
    then have "e < p_slot s t" using \<open>e < ?m\<close> by (auto split: if_splits)
    then show "b' \<le> w" using bounds_okD(3) [OF b o w] \<open>u = t\<close> by (meson not_le)
  qed
  then show ?thesis
    using sc m(1,2) unfolding scans_ok_def obligations_same by auto
qed

lemma scans_ok_step:
  assumes "proto_step s s'" and th: "threads_ok s" and b: "bounds_ok s" and sc: "scans_ok s"
  shows "scans_ok s'"
  using assms(1)
proof cases
  case (observe t)
  show ?thesis
    unfolding scans_ok_def observe obligations_same
    using scans_okD [OF sc] bounds_okD(2) [OF b] by auto
next
  case (publish p b')
  show ?thesis
    unfolding scans_ok_def publish using scans_okD [OF sc] by (auto dest!: obligations_pub(1))
next
  case (tag p b')
  show ?thesis
    unfolding scans_ok_def tag using scans_okD [OF sc] by (fastforce dest!: obligations_pub(2))
next
  case (register p e b')
  show ?thesis
    unfolding scans_ok_def register using scans_okD [OF sc] by (auto dest!: obligations_pub(3) [OF register(2)])
next
  case (bump_action p)
  show ?thesis
    unfolding scans_ok_def bump_action using scans_okD [OF sc] by (auto dest!: obligations_pub(4) intro: le_SucI)
next
  case (run d e b')
  show ?thesis
    unfolding scans_ok_def run using scans_okD [OF sc] by (auto dest!: obligations_pub(5))
next
  case (scan_slot d c t)
  show ?thesis unfolding scan_slot(1) by (rule scans_ok_scan_slot [OF th b sc scan_slot(2)])
next
  case (scan_start d)
  show ?thesis
    unfolding scans_ok_def scan_start obligations_same using sc threads_okD(4) [OF th] by (auto simp: scans_ok_def)
qed (use sc in \<open>auto simp: scans_ok_def obligations_same intro: le_SucI\<close>)

lemma proto_reachable_ok: "proto_reachable s \<Longrightarrow> threads_ok s \<and> bounds_ok s \<and> scans_ok s"
  unfolding proto_reachable_def
proof (induction rule: rtranclp_induct)
  case base
  then show ?case
    by (simp add: threads_ok_def bounds_ok_def scans_ok_def proto_init_def obligations_def UNPROTECTED_def)
next
  case (step s s')
  then show ?case using threads_ok_step bounds_ok_step scans_ok_step by blast
qed

subsection \<open>Properties\<close>

text \<open>C37: Under any interleaving, when the action that retires everything below a boundary (flushing read-only
  pages, freeing evicted ones) may run, no thread still works under an older value of that boundary: the
  new value was published before the action was tagged, and the scan proves that every thread that is still inside has
  entered, and so read the boundary, after that.\<close>

theorem epoch_action_safe:
  assumes "proto_reachable s" and "may_run s d e b"
  shows "\<forall>t w. p_seen s t = Some w \<longrightarrow> b \<le> w"
proof (intro allI impI)
  fix t w assume w: "p_seen s t = Some w"
  note ok = proto_reachable_ok [OF assms(1)]
  obtain sc where sc: "p_scan s d = Some sc" "{..<MAX_THREADS} \<subseteq> sc_seen sc" "(e, b) \<in> p_actions s" "e \<le> sc_min sc - 1"
    using assms(2) by (auto simp: may_run_def)
  have o: "(e, b) \<in> obligations s" using sc(3) by (simp add: obligations_def)
  have "t < MAX_THREADS" using ok w by (auto simp: threads_ok_def)
  then have "t \<in> sc_seen sc" using sc(2) by auto
  moreover have "e < sc_min sc" using sc(4) scans_okD(1) [OF _ sc(1)] ok by fastforce
  ultimately show "b \<le> w" using scans_okD(3) [OF _ sc(1) o _ _ w] ok by blast
qed

lemma proto_reachable_step: "proto_reachable s \<Longrightarrow> proto_step s s' \<Longrightarrow> proto_reachable s'"
  unfolding proto_reachable_def by (rule rtranclp.rtrancl_into_rtrancl)

lemma scan_all:
  assumes "p_scan s d = Some \<lparr>sc_min = m, sc_seen = {}\<rparr>" and "\<And>t. p_slot s t = UNPROTECTED \<or> m \<le> p_slot s t"
  shows "proto_step\<^sup>*\<^sup>* s (s\<lparr>p_scan := (p_scan s)(d := Some \<lparr>sc_min = m, sc_seen = {..<n}\<rparr>)\<rparr>)"
proof (induction n)
  case 0
  have "s\<lparr>p_scan := (p_scan s)(d := Some \<lparr>sc_min = m, sc_seen = {..<0}\<rparr>)\<rparr> = s"
    using assms(1) by (simp add: fun_upd_idem)
  then show ?case by (simp only: rtranclp.rtrancl_refl)
next
  case (Suc n)
  let ?s = "s\<lparr>p_scan := (p_scan s)(d := Some \<lparr>sc_min = m, sc_seen = {..<n}\<rparr>)\<rparr>"
  have "proto_step ?s (?s\<lparr>p_scan := (p_scan ?s)(d := Some \<lparr>
      sc_min = (if p_slot ?s n \<noteq> UNPROTECTED \<and> p_slot ?s n < sc_min \<lparr>sc_min = m, sc_seen = {..<n}\<rparr>
        then p_slot ?s n else sc_min \<lparr>sc_min = m, sc_seen = {..<n}\<rparr>),
      sc_seen = insert n (sc_seen \<lparr>sc_min = m, sc_seen = {..<n}\<rparr>)\<rparr>)\<rparr>)"
    by (rule proto_step.scan_slot) simp_all
  moreover have "\<not> (p_slot s n \<noteq> UNPROTECTED \<and> p_slot s n < m)" using assms(2) [of n] by auto
  ultimately have "proto_step ?s (s\<lparr>p_scan := (p_scan s)(d := Some \<lparr>sc_min = m, sc_seen = {..<Suc n}\<rparr>)\<rparr>)"
    by (simp add: lessThan_Suc)
  with Suc show ?case by (rule rtranclp.rtrancl_into_rtrancl)
qed

definition sample_state :: "nat \<Rightarrow> publisher \<Rightarrow> (nat \<times> nat) set \<Rightarrow> nat \<Rightarrow> nat option \<Rightarrow> nat option \<Rightarrow> table_scan option \<Rightarrow> proto" where
  \<comment> \<open>boundary 5 published by publisher 0, thread 3 the only one inside, drain 0\<close>
  "sample_state cur pub acts slot ld seen sc =
     \<lparr>p_current = cur, p_bound = 5, p_slot = (\<lambda>_. UNPROTECTED)(3 := slot), p_loaded = (\<lambda>_. None)(3 := ld),
      p_seen = (\<lambda>_. None)(3 := seen), p_pub = (\<lambda>_. NotPublishing)(0 := pub), p_actions = acts, p_scan = (\<lambda>_. None)(0 := sc)\<rparr>"

theorem epoch_action_safe_witness:
  "\<exists>s w. proto_reachable s \<and> may_run s 0 1 5 \<and> p_seen s 3 = Some w \<and> 5 \<le> w"
proof -
  note st = sample_state_def and fs = fun_eq_iff
  let ?c = "Some \<lparr>sc_min = 2, sc_seen = {}\<rparr>" and ?s = "sample_state 2 NotPublishing {(1, 5)} 2 None (Some 5)"
  have "proto_reachable proto_init" by (simp add: proto_reachable_def)
  then have "proto_reachable (sample_state 1 (Published 5) {} 0 None None None)"
    by (rule proto_reachable_step) (use proto_step.publish [of proto_init 0 5] in \<open>simp add: st proto_init_def UNPROTECTED_def fun_upd_idem\<close>)
  then have "proto_reachable (sample_state 1 (Tagged 1 5) {} 0 None None None)"
    by (rule proto_reachable_step) (use proto_step.tag [of "sample_state 1 (Published 5) {} 0 None None None" 0 5] in \<open>simp add: st\<close>)
  then have "proto_reachable (sample_state 1 Registered {(1, 5)} 0 None None None)"
    by (rule proto_reachable_step) (use proto_step.register [of "sample_state 1 (Tagged 1 5) {} 0 None None None" 0 1 5] in \<open>simp add: st\<close>)
  then have "proto_reachable (sample_state 2 NotPublishing {(1, 5)} 0 None None None)"
    by (rule proto_reachable_step) (use proto_step.bump_action [of "sample_state 1 Registered {(1, 5)} 0 None None None" 0] in \<open>simp add: st numeral_2_eq_2\<close>)
  then have "proto_reachable (sample_state 2 NotPublishing {(1, 5)} 0 (Some 2) None None)"
    by (rule proto_reachable_step) (use proto_step.load [of 3 "sample_state 2 NotPublishing {(1, 5)} 0 None None None"] in \<open>simp add: st MAX_THREADS_def\<close>)
  then have "proto_reachable (sample_state 2 NotPublishing {(1, 5)} 2 None None None)"
    by (rule proto_reachable_step) (use proto_step.store [of "sample_state 2 NotPublishing {(1, 5)} 0 (Some 2) None None" 3 2] in \<open>simp add: st\<close>)
  then have "proto_reachable (?s None)"
    by (rule proto_reachable_step) (use proto_step.observe [of "sample_state 2 NotPublishing {(1, 5)} 2 None None None" 3] in \<open>simp add: st UNPROTECTED_def\<close>)
  then have r8: "proto_reachable (?s ?c)"
    by (rule proto_reachable_step) (use proto_step.scan_start [of "?s None" 0] in \<open>simp add: st\<close>)
  have "proto_step\<^sup>*\<^sup>* (?s ?c) (?s (Some \<lparr>sc_min = 2, sc_seen = {..<MAX_THREADS}\<rparr>))"
    using scan_all [of "?s ?c" 0 2 MAX_THREADS] by (simp add: st)
  with r8 have r: "proto_reachable (?s (Some \<lparr>sc_min = 2, sc_seen = {..<MAX_THREADS}\<rparr>))"
    unfolding proto_reachable_def by (rule rtranclp_trans)
  have m: "may_run (?s (Some \<lparr>sc_min = 2, sc_seen = {..<MAX_THREADS}\<rparr>)) 0 1 5"
    unfolding may_run_def by (simp add: st)
  have w: "p_seen (?s (Some \<lparr>sc_min = 2, sc_seen = {..<MAX_THREADS}\<rparr>)) 3 = Some 5" by (simp add: st)
  from epoch_action_safe [OF r m] w have "5 \<le> (5 :: nat)" by blast
  with r m w show ?thesis by blast
qed

end
