(* ===== verification/LogRecord.thy ===== *)
theory LogRecord
  imports Prelude
begin

text \<open>
  Records of the hybrid log (\<^verbatim>\<open>record.rs\<close>). The first part is the header word: its five
  flag bits and its 48-bit previous address. The second part is the record layout, in two
  views. The byte view works on a buffer \<open>mem\<close> and an offset \<open>p\<close>, as \<open>RecordPtr\<close> works on
  raw memory. The field view is the record type \<open>rec\<close>, on which the store and its callbacks
  compute. \<open>decode\<close> reads the fields of the bytes, \<open>encode\<close> lays a record out, and the
  lemmas show that the two agree for every accessor and that a write to one record leaves
  every record in a disjoint range as it was.
\<close>

subsection \<open>The header word\<close>

definition ADDRESS_BITS :: nat where "ADDRESS_BITS = 48"
definition ADDRESS_MASK :: u64 where "ADDRESS_MASK = push_bit ADDRESS_BITS 1 - 1"
definition TOMBSTONE_BIT :: u64 where "TOMBSTONE_BIT = push_bit 48 1"
definition VALID_BIT :: u64 where "VALID_BIT = push_bit 49 1"
definition IN_NEW_VERSION_BIT :: u64 where "IN_NEW_VERSION_BIT = push_bit 50 1"
definition MODIFIED_BIT :: u64 where "MODIFIED_BIT = push_bit 51 1"
definition SEALED_BIT :: u64 where "SEALED_BIT = push_bit 52 1"
definition INVALID_ADDRESS :: u64 where "INVALID_ADDRESS = 0"
definition TEMP_INVALID_ADDRESS :: u64 where "TEMP_INVALID_ADDRESS = 1"

definition info_new :: "u64 \<Rightarrow> bool \<Rightarrow> u64" where
  "info_new prev innew =
     (let w = prev AND ADDRESS_MASK in if innew then w OR IN_NEW_VERSION_BIT else w)"

definition previous_address :: "u64 \<Rightarrow> u64" where
  "previous_address w = w AND ADDRESS_MASK"

definition is_valid :: "u64 \<Rightarrow> bool" where
  "is_valid w \<longleftrightarrow> w AND VALID_BIT \<noteq> 0"

definition is_tombstone :: "u64 \<Rightarrow> bool" where
  "is_tombstone w \<longleftrightarrow> w AND TOMBSTONE_BIT \<noteq> 0"

definition is_sealed :: "u64 \<Rightarrow> bool" where
  "is_sealed w \<longleftrightarrow> w AND SEALED_BIT \<noteq> 0"

definition in_new_version :: "u64 \<Rightarrow> bool" where
  "in_new_version w \<longleftrightarrow> w AND IN_NEW_VERSION_BIT \<noteq> 0"

definition is_closed :: "u64 \<Rightarrow> bool" where
  "is_closed w \<longleftrightarrow> \<not> is_valid w \<or> is_sealed w"

text \<open>
  The atomic updates of \<open>RecordInfoRef\<close>. Each is one atomic read-modify-write of the word
  (a compare-exchange loop, \<open>fetch_and\<close>, \<open>fetch_or\<close> or \<open>fetch_update\<close>), so it is a
  function from the word it replaces to the word it installs.
\<close>

definition unseal_and_validate :: "u64 \<Rightarrow> u64" where
  "unseal_and_validate w = (w OR VALID_BIT) AND NOT SEALED_BIT"

definition try_seal :: "u64 \<Rightarrow> bool \<times> u64" where
  "try_seal w =
     (if w AND SEALED_BIT \<noteq> 0 \<or> w AND VALID_BIT = 0 then (False, w) else (True, w OR SEALED_BIT))"

definition seal_and_invalidate :: "u64 \<Rightarrow> u64" where
  "seal_and_invalidate w = (w OR SEALED_BIT) AND NOT VALID_BIT"

definition set_invalid :: "u64 \<Rightarrow> u64" where
  "set_invalid w = w AND NOT VALID_BIT"

definition set_tombstone :: "u64 \<Rightarrow> u64" where
  "set_tombstone w = w OR TOMBSTONE_BIT"

definition set_modified :: "u64 \<Rightarrow> u64" where
  "set_modified w = w OR MODIFIED_BIT"

definition try_update_previous_address :: "u64 \<Rightarrow> u64 \<Rightarrow> u64 \<Rightarrow> bool \<times> u64" where
  "try_update_previous_address expected new w =
     (if w AND ADDRESS_MASK \<noteq> expected AND ADDRESS_MASK then (False, w)
      else (True, (w AND NOT ADDRESS_MASK) OR (new AND ADDRESS_MASK)))"

lemma ADDRESS_MASK_mask: "ADDRESS_MASK = mask 48"
  by (simp add: ADDRESS_MASK_def ADDRESS_BITS_def mask_eq_exp_minus_1 push_bit_eq_mult)

lemma and_single_bit: "(w :: u64) AND push_bit n 1 \<noteq> 0 \<longleftrightarrow> bit w n"
  by (simp add: push_bit_eq_mult and_exp_eq_0_iff_not_bit)

lemmas header_bit_defs =
  TOMBSTONE_BIT_def VALID_BIT_def IN_NEW_VERSION_BIT_def MODIFIED_BIT_def SEALED_BIT_def

lemma flag_bit:
  shows is_valid_bit: "is_valid w \<longleftrightarrow> bit w 49"
    and is_tombstone_bit: "is_tombstone w \<longleftrightarrow> bit w 48"
    and is_sealed_bit: "is_sealed w \<longleftrightarrow> bit w 52"
    and in_new_version_bit: "in_new_version w \<longleftrightarrow> bit w 50"
  by (simp_all only: is_valid_def is_tombstone_def is_sealed_def in_new_version_def
      header_bit_defs and_single_bit)

lemma previous_address_take_bit: "previous_address w = take_bit 48 w"
  by (simp add: previous_address_def ADDRESS_MASK_mask take_bit_eq_mask)

text \<open>
  How each update changes each reading. All of them follow from the bit positions: an update
  of a flag keeps the address and the other flags.
\<close>

lemmas info_update_defs =
  unseal_and_validate_def seal_and_invalidate_def set_invalid_def set_tombstone_def
  set_modified_def

lemma bit_single: "bit (push_bit k (1 :: u64)) n \<longleftrightarrow> n = k \<and> k < 64"
  by (auto simp: bit_exp_iff)

lemma bit_header_bit:
  shows "bit TOMBSTONE_BIT n \<longleftrightarrow> n = 48" and "bit VALID_BIT n \<longleftrightarrow> n = 49"
    and "bit IN_NEW_VERSION_BIT n \<longleftrightarrow> n = 50" and "bit MODIFIED_BIT n \<longleftrightarrow> n = 51"
    and "bit SEALED_BIT n \<longleftrightarrow> n = 52"
  unfolding header_bit_defs bit_single by auto

lemma bit_ADDRESS_MASK: "bit ADDRESS_MASK n \<longleftrightarrow> n < 48"
  by (auto simp: ADDRESS_MASK_mask bit_mask_iff)

lemmas info_bit_simps =
  flag_bit bit_header_bit bit_ADDRESS_MASK bit_and_iff bit_or_iff bit_not_iff

lemma previous_address_eqI:
  "(\<And>n. n < 48 \<Longrightarrow> bit w n = bit w' n) \<Longrightarrow> previous_address w = previous_address w'"
  unfolding previous_address_take_bit by (rule bit_word_eqI) (auto simp: bit_take_bit_iff)

lemma previous_address_update [info_simps]:
  shows "previous_address (unseal_and_validate w) = previous_address w"
    and "previous_address (seal_and_invalidate w) = previous_address w"
    and "previous_address (set_invalid w) = previous_address w"
    and "previous_address (set_tombstone w) = previous_address w"
    and "previous_address (set_modified w) = previous_address w"
    and "previous_address (snd (try_seal w)) = previous_address w"
    and "previous_address (w OR SEALED_BIT) = previous_address w"
    and "previous_address (w AND NOT SEALED_BIT) = previous_address w"
  by (rule previous_address_eqI; auto simp: info_update_defs try_seal_def info_bit_simps)+

lemma is_valid_update [info_simps]:
  shows "is_valid (unseal_and_validate w)"
    and "\<not> is_valid (seal_and_invalidate w)"
    and "\<not> is_valid (set_invalid w)"
    and "is_valid (set_tombstone w) = is_valid w"
    and "is_valid (set_modified w) = is_valid w"
    and "is_valid (snd (try_seal w)) = is_valid w"
    and "is_valid (w OR SEALED_BIT) = is_valid w"
    and "is_valid (w AND NOT SEALED_BIT) = is_valid w"
  by (auto simp: info_update_defs try_seal_def info_bit_simps)

lemma is_tombstone_update [info_simps]:
  shows "is_tombstone (unseal_and_validate w) = is_tombstone w"
    and "is_tombstone (seal_and_invalidate w) = is_tombstone w"
    and "is_tombstone (set_invalid w) = is_tombstone w"
    and "is_tombstone (set_tombstone w)"
    and "is_tombstone (set_modified w) = is_tombstone w"
    and "is_tombstone (snd (try_seal w)) = is_tombstone w"
    and "is_tombstone (w OR SEALED_BIT) = is_tombstone w"
    and "is_tombstone (w AND NOT SEALED_BIT) = is_tombstone w"
  by (auto simp: info_update_defs try_seal_def info_bit_simps)

lemma is_sealed_update [info_simps]:
  shows "\<not> is_sealed (unseal_and_validate w)"
    and "is_sealed (seal_and_invalidate w)"
    and "is_sealed (set_invalid w) = is_sealed w"
    and "is_sealed (set_tombstone w) = is_sealed w"
    and "is_sealed (set_modified w) = is_sealed w"
    and "is_sealed (w OR SEALED_BIT)"
    and "\<not> is_sealed (w AND NOT SEALED_BIT)"
  by (auto simp: info_update_defs info_bit_simps)

lemma in_new_version_update [info_simps]:
  shows "in_new_version (unseal_and_validate w) = in_new_version w"
    and "in_new_version (seal_and_invalidate w) = in_new_version w"
    and "in_new_version (set_invalid w) = in_new_version w"
    and "in_new_version (set_tombstone w) = in_new_version w"
    and "in_new_version (set_modified w) = in_new_version w"
    and "in_new_version (snd (try_seal w)) = in_new_version w"
    and "in_new_version (w OR SEALED_BIT) = in_new_version w"
  by (auto simp: info_update_defs try_seal_def info_bit_simps)

lemma info_new_reads [info_simps]:
  shows "previous_address (info_new prev innew) = previous_address prev"
    and "\<not> is_valid (info_new prev innew)"
    and "\<not> is_tombstone (info_new prev innew)"
    and "\<not> is_sealed (info_new prev innew)"
    and "in_new_version (info_new prev innew) = innew"
proof -
  show "previous_address (info_new prev innew) = previous_address prev"
    by (rule previous_address_eqI) (auto simp: info_new_def Let_def info_bit_simps)
qed (auto simp: info_new_def Let_def info_bit_simps)

text \<open>
  \<open>try_seal\<close> succeeds exactly on an open record, and on success closes it: of two attempts
  on the same record at most one succeeds.
\<close>

lemma try_seal_iff: "fst (try_seal w) \<longleftrightarrow> \<not> is_closed w"
  by (auto simp: try_seal_def is_closed_def is_valid_def is_sealed_def)

lemma try_seal_closes: "is_closed (snd (try_seal w))"
  using try_seal_iff [of w] by (auto simp: try_seal_def is_closed_def info_simps split: if_splits)

lemma try_update_previous_address_reads:
  assumes "try_update_previous_address expected new w = (True, w')"
  shows "previous_address w = previous_address expected" and "previous_address w' = previous_address new"
    and "is_valid w' = is_valid w" and "is_tombstone w' = is_tombstone w"
    and "is_sealed w' = is_sealed w" and "in_new_version w' = in_new_version w"
proof -
  from assms have w': "w' = (w AND NOT ADDRESS_MASK) OR (new AND ADDRESS_MASK)"
    and eq: "w AND ADDRESS_MASK = expected AND ADDRESS_MASK"
    by (auto simp: try_update_previous_address_def split: if_splits)
  show "previous_address w = previous_address expected"
    using eq by (simp add: previous_address_def)
  show "previous_address w' = previous_address new"
    by (rule previous_address_eqI) (auto simp: w' info_bit_simps)
  show "is_valid w' = is_valid w" and "is_tombstone w' = is_tombstone w"
    and "is_sealed w' = is_sealed w" and "in_new_version w' = in_new_version w"
    by (auto simp: w' info_bit_simps)
qed

subsection \<open>Sizes\<close>

definition RECORD_INFO_SIZE :: nat where "RECORD_INFO_SIZE = 8"
definition DATA_HEADER_SIZE :: nat where "DATA_HEADER_SIZE = 16"
definition FIXED_HEADER_SIZE :: nat where "FIXED_HEADER_SIZE = RECORD_INFO_SIZE + DATA_HEADER_SIZE"
definition EXPIRATION_SIZE :: nat where "EXPIRATION_SIZE = 8"
definition FLAG_HAS_EXPIRATION :: u32 where "FLAG_HAS_EXPIRATION = 1"
definition MIN_DISK_READ :: nat where "MIN_DISK_READ = FIXED_HEADER_SIZE"

lemmas layout_sizes =
  RECORD_INFO_SIZE_def DATA_HEADER_SIZE_def FIXED_HEADER_SIZE_def EXPIRATION_SIZE_def
  MIN_DISK_READ_def

record size_info =
  si_key_len :: nat
  si_value_cap :: nat
  si_has_expiration :: bool

definition align8 :: "nat \<Rightarrow> nat" where
  \<comment> \<open>\<open>(n + 7) & !7\<close>; \<open>align8_word\<close> below is the statement about 64-bit words\<close>
  "align8 n = (n + 7) div 8 * 8"

definition si_total_size :: "size_info \<Rightarrow> nat" where
  "si_total_size s =
     align8 (FIXED_HEADER_SIZE + (if si_has_expiration s then EXPIRATION_SIZE else 0)
             + si_key_len s + si_value_cap s)"

lemma align8_ge: "n \<le> align8 n"
  by (simp add: align8_def)

lemma align8_less: "align8 n < n + 8"
  by (simp add: align8_def)

lemma align8_dvd [simp]: "8 dvd align8 n"
  by (simp add: align8_def)

lemma align8_word:
  assumes "n + 7 < 2 ^ 64"
  shows "unat ((of_nat n + 7 :: u64) AND NOT 7) = align8 n"
proof -
  define w :: u64 where "w = of_nat (n + 7)"
  have w: "unat w = n + 7" using assms by (simp add: w_def unat_of_nat_u64 del: of_nat_add)
  have "w AND NOT (mask 3) = push_bit 3 (drop_bit 3 w)"
    by (rule bit_word_eqI)
       (auto simp: bit_and_iff bit_not_iff bit_mask_iff bit_push_bit_iff bit_drop_bit_eq)
  also have "\<dots> = w - take_bit 3 w"
    using bits_ident [of 3 w] by (metis add_diff_cancel_right')
  finally have eq: "w AND NOT (mask 3) = w - take_bit 3 w" .
  have tb: "unat (take_bit 3 w) = (n + 7) mod 8"
    using unsigned_take_bit_eq [of 3 w, where 'a = nat] by (simp add: w take_bit_eq_mod)
  then have "take_bit 3 w \<le> w"
    by (simp add: word_le_nat_alt w)
  then have "unat (w AND NOT (mask 3)) = (n + 7) - (n + 7) mod 8"
    by (simp add: eq unat_sub tb w)
  then show ?thesis
    by (simp add: w_def align8_def mask_eq_exp_minus_1 add.commute minus_mod_eq_div_mult)
qed

subsection \<open>The byte view\<close>

text \<open>
  \<open>RecordPtr\<close>: \<open>mem\<close> is the page or disk buffer, \<open>p\<close> the offset of the record in it. The
  target is little-endian, as the explicit codecs of the disk format are.
\<close>

definition rp_info :: "bytes \<Rightarrow> nat \<Rightarrow> u64" where
  "rp_info mem p = from_le (slice_at mem p RECORD_INFO_SIZE)"

definition rp_store_info :: "bytes \<Rightarrow> nat \<Rightarrow> u64 \<Rightarrow> bytes" where
  "rp_store_info mem p w = splice_at mem p (to_le 8 w)"

definition hdr_u32 :: "bytes \<Rightarrow> nat \<Rightarrow> nat \<Rightarrow> u32" where
  "hdr_u32 mem p i = from_le (slice_at mem (p + RECORD_INFO_SIZE + 4 * i) 4)"

definition set_hdr_u32 :: "bytes \<Rightarrow> nat \<Rightarrow> nat \<Rightarrow> u32 \<Rightarrow> bytes" where
  "set_hdr_u32 mem p i v = splice_at mem (p + RECORD_INFO_SIZE + 4 * i) (to_le 4 v)"

definition rp_key_len :: "bytes \<Rightarrow> nat \<Rightarrow> nat" where
  "rp_key_len mem p = unat (hdr_u32 mem p 0)"

definition rp_value_len :: "bytes \<Rightarrow> nat \<Rightarrow> nat" where
  "rp_value_len mem p = unat (hdr_u32 mem p 1)"

definition rp_value_cap :: "bytes \<Rightarrow> nat \<Rightarrow> nat" where
  "rp_value_cap mem p = unat (hdr_u32 mem p 2)"

definition rp_flags :: "bytes \<Rightarrow> nat \<Rightarrow> u32" where
  "rp_flags mem p = hdr_u32 mem p 3"

definition rp_has_expiration_slot :: "bytes \<Rightarrow> nat \<Rightarrow> bool" where
  "rp_has_expiration_slot mem p \<longleftrightarrow> rp_flags mem p AND FLAG_HAS_EXPIRATION \<noteq> 0"

definition rp_key_offset :: "bytes \<Rightarrow> nat \<Rightarrow> nat" where
  "rp_key_offset mem p =
     FIXED_HEADER_SIZE + (if rp_has_expiration_slot mem p then EXPIRATION_SIZE else 0)"

definition rp_key :: "bytes \<Rightarrow> nat \<Rightarrow> bytes" where
  "rp_key mem p = slice_at mem (p + rp_key_offset mem p) (rp_key_len mem p)"

definition rp_value :: "bytes \<Rightarrow> nat \<Rightarrow> bytes" where
  "rp_value mem p = slice_at mem (p + rp_key_offset mem p + rp_key_len mem p) (rp_value_len mem p)"

definition rp_value_buf :: "bytes \<Rightarrow> nat \<Rightarrow> bytes" where
  "rp_value_buf mem p = slice_at mem (p + rp_key_offset mem p + rp_key_len mem p) (rp_value_cap mem p)"

definition rp_set_value_len :: "bytes \<Rightarrow> nat \<Rightarrow> nat \<Rightarrow> bytes" where
  "rp_set_value_len mem p n = set_hdr_u32 mem p 1 (of_nat n)"

definition rp_write_buf :: "bytes \<Rightarrow> nat \<Rightarrow> nat \<Rightarrow> bytes \<Rightarrow> bytes option" where
  \<comment> \<open>\<open>value_buf_mut()[i..i+v.len()].copy_from_slice(v)\<close>; out of the capacity it panics\<close>
  "rp_write_buf mem p i v =
     (if rp_value_cap mem p < i + length v then None
      else Some (splice_at mem (p + rp_key_offset mem p + rp_key_len mem p + i) v))"

definition rp_expiration :: "bytes \<Rightarrow> nat \<Rightarrow> int" where
  "rp_expiration mem p =
     (if \<not> rp_has_expiration_slot mem p then 0
      else sint (from_le (slice_at mem (p + FIXED_HEADER_SIZE) 8) :: u64))"

definition rp_set_expiration :: "bytes \<Rightarrow> nat \<Rightarrow> int \<Rightarrow> bool \<times> bytes" where
  "rp_set_expiration mem p ts =
     (if \<not> rp_has_expiration_slot mem p then (False, mem)
      else (True, splice_at mem (p + FIXED_HEADER_SIZE) (to_le 8 (word_of_int ts :: u64))))"

definition rp_total_size :: "bytes \<Rightarrow> nat \<Rightarrow> nat" where
  "rp_total_size mem p = align8 (rp_key_offset mem p + rp_key_len mem p + rp_value_cap mem p)"

definition rp_init :: "bytes \<Rightarrow> nat \<Rightarrow> u64 \<Rightarrow> bool \<Rightarrow> size_info \<Rightarrow> bytes \<Rightarrow> bytes" where
  "rp_init mem p prev innew sz key =
     (let mem = rp_store_info mem p (info_new prev innew OR SEALED_BIT);
          mem = set_hdr_u32 mem p 0 (of_nat (length key));
          mem = set_hdr_u32 mem p 1 0;
          mem = set_hdr_u32 mem p 2 (of_nat (si_value_cap sz));
          mem = set_hdr_u32 mem p 3 (if si_has_expiration sz then FLAG_HAS_EXPIRATION else 0);
          mem = (if si_has_expiration sz then snd (rp_set_expiration mem p 0) else mem)
      in splice_at mem (p + rp_key_offset mem p) key)"

definition rp_to_bytes :: "bytes \<Rightarrow> nat \<Rightarrow> bytes" where
  "rp_to_bytes mem p = slice_at mem p (rp_total_size mem p)"

definition total_size_from_header :: "bytes \<Rightarrow> nat" where
  "total_size_from_header hdr =
     (let u = (\<lambda>i. from_le (slice_at hdr (RECORD_INFO_SIZE + 4 * i) 4) :: u32);
          key_len = unat (u 0);
          value_cap = unat (u 2);
          flags = u 3;
          exp = (if flags AND FLAG_HAS_EXPIRATION \<noteq> 0 then EXPIRATION_SIZE else 0)
      in align8 (FIXED_HEADER_SIZE + exp + key_len + value_cap))"

subsection \<open>The field view\<close>

record rec =
  r_info :: u64
  r_key :: bytes
  r_value_len :: nat
  r_buf :: bytes \<comment> \<open>the value capacity: \<open>value_cap\<close> is its length\<close>
  r_exp :: "int option" \<comment> \<open>the expiration slot, when the record has one\<close>

definition decode :: "bytes \<Rightarrow> nat \<Rightarrow> rec" where
  "decode mem p =
     \<lparr>r_info = rp_info mem p, r_key = rp_key mem p, r_value_len = rp_value_len mem p,
      r_buf = rp_value_buf mem p,
      r_exp = (if rp_has_expiration_slot mem p then Some (rp_expiration mem p) else None)\<rparr>"

definition encode :: "rec \<Rightarrow> bytes" where
  "encode r =
     to_le 8 (r_info r) @ to_le 4 (of_nat (length (r_key r)) :: u32)
     @ to_le 4 (of_nat (r_value_len r) :: u32) @ to_le 4 (of_nat (length (r_buf r)) :: u32)
     @ to_le 4 (if r_exp r = None then 0 else FLAG_HAS_EXPIRATION)
     @ (case r_exp r of None \<Rightarrow> [] | Some t \<Rightarrow> to_le 8 (word_of_int t :: u64))
     @ r_key r @ r_buf r"

definition rec_wf :: "rec \<Rightarrow> bool" where
  "rec_wf r \<longleftrightarrow> length (r_key r) < 2 ^ 32 \<and> length (r_buf r) < 2 ^ 32
     \<and> r_value_len r \<le> length (r_buf r) \<and> (\<forall>t. r_exp r = Some t \<longrightarrow> is_i64 t)"

definition rec_size :: "rec \<Rightarrow> nat" where
  "rec_size r = align8 (length (encode r))"

definition r_value :: "rec \<Rightarrow> bytes" where
  "r_value r = take (r_value_len r) (r_buf r)"

definition r_value_cap :: "rec \<Rightarrow> nat" where
  "r_value_cap r = length (r_buf r)"

definition has_expiration_slot :: "rec \<Rightarrow> bool" where
  "has_expiration_slot r \<longleftrightarrow> r_exp r \<noteq> None"

definition expiration :: "rec \<Rightarrow> int" where
  "expiration r = (case r_exp r of None \<Rightarrow> 0 | Some t \<Rightarrow> t)"

definition set_expiration :: "rec \<Rightarrow> int \<Rightarrow> bool \<times> rec" where
  "set_expiration r ts =
     (case r_exp r of None \<Rightarrow> (False, r) | Some _ \<Rightarrow> (True, r\<lparr>r_exp := Some ts\<rparr>))"

definition set_value_len :: "rec \<Rightarrow> nat \<Rightarrow> rec" where
  "set_value_len r n = r\<lparr>r_value_len := n\<rparr>"

definition write_buf :: "rec \<Rightarrow> nat \<Rightarrow> bytes \<Rightarrow> rec option" where
  "write_buf r i v =
     (if r_value_cap r < i + length v then None else Some (r\<lparr>r_buf := splice_at (r_buf r) i v\<rparr>))"

definition set_info :: "rec \<Rightarrow> (u64 \<Rightarrow> u64) \<Rightarrow> rec" where
  "set_info r f = r\<lparr>r_info := f (r_info r)\<rparr>"

definition rec_init :: "u64 \<Rightarrow> bool \<Rightarrow> size_info \<Rightarrow> bytes \<Rightarrow> bytes \<Rightarrow> rec" where
  \<comment> \<open>\<open>buf\<close>: the bytes the value area held before (the page was zeroed when it was opened)\<close>
  "rec_init prev innew sz key buf =
     \<lparr>r_info = info_new prev innew OR SEALED_BIT, r_key = key, r_value_len = 0, r_buf = buf,
      r_exp = (if si_has_expiration sz then Some 0 else None)\<rparr>"

lemma length_encode:
  "length (encode r) = FIXED_HEADER_SIZE + (if r_exp r = None then 0 else EXPIRATION_SIZE)
     + length (r_key r) + length (r_buf r)"
  by (simp add: encode_def layout_sizes split: option.splits)

lemma FLAG_HAS_EXPIRATION_and [simp]:
  "FLAG_HAS_EXPIRATION AND FLAG_HAS_EXPIRATION = 1" "(0 :: u32) AND FLAG_HAS_EXPIRATION = 0"
  by (simp_all add: FLAG_HAS_EXPIRATION_def)

text \<open>The parts of a laid-out record, as slices of its encoding.\<close>

lemma encode_parts:
  shows "slice_at (encode r) 0 8 = to_le 8 (r_info r)"
    and "slice_at (encode r) 8 4 = to_le 4 (of_nat (length (r_key r)) :: u32)"
    and "slice_at (encode r) 12 4 = to_le 4 (of_nat (r_value_len r) :: u32)"
    and "slice_at (encode r) 16 4 = to_le 4 (of_nat (length (r_buf r)) :: u32)"
    and "slice_at (encode r) 20 4 = to_le 4 (if r_exp r = None then 0 else FLAG_HAS_EXPIRATION)"
    and "r_exp r = Some t \<Longrightarrow> slice_at (encode r) 24 8 = to_le 8 (word_of_int t :: u64)"
    and "slice_at (encode r) (24 + (if r_exp r = None then 0 else 8)) (length (r_key r)) = r_key r"
    and "slice_at (encode r) (24 + (if r_exp r = None then 0 else 8) + length (r_key r))
           (length (r_buf r)) = r_buf r"
  by (simp_all add: encode_def slice_at_def split: option.splits)

lemma slice_splice_encode:
  assumes "p + length (encode r) \<le> length mem" and "j + n \<le> length (encode r)"
  shows "slice_at (splice_at mem p (encode r)) (p + j) n = slice_at (encode r) j n"
  using assms by (simp add: slice_splice_inside)

text \<open>
  Round trip: a well-formed record laid out at \<open>p\<close> reads back as itself. The header fields
  come first, since the offsets of the key and the value depend on them.
\<close>

lemma encode_header_reads:
  assumes wf: "rec_wf r" and fits: "p + length (encode r) \<le> length mem"
  defines "m \<equiv> splice_at mem p (encode r)"
  shows "rp_info m p = r_info r" and "rp_key_len m p = length (r_key r)"
    and "rp_value_len m p = r_value_len r" and "rp_value_cap m p = length (r_buf r)"
    and "rp_has_expiration_slot m p \<longleftrightarrow> r_exp r \<noteq> None"
proof -
  have ge: "24 \<le> length (encode r)" by (simp add: length_encode layout_sizes)
  note at = slice_splice_encode [OF fits]
  show "rp_info m p = r_info r"
    using at [of 0 8] ge by (simp add: m_def rp_info_def layout_sizes encode_parts)
  show "rp_key_len m p = length (r_key r)"
    using at [of 8 4] ge wf
    by (simp add: m_def rp_key_len_def hdr_u32_def layout_sizes encode_parts unat_of_nat_u32 rec_wf_def)
  show "rp_value_len m p = r_value_len r"
    using at [of 12 4] ge wf
    by (simp add: m_def rp_value_len_def hdr_u32_def layout_sizes encode_parts unat_of_nat_u32
        rec_wf_def add.commute)
  show "rp_value_cap m p = length (r_buf r)"
    using at [of 16 4] ge wf
    by (simp add: m_def rp_value_cap_def hdr_u32_def layout_sizes encode_parts unat_of_nat_u32
        rec_wf_def add.commute)
  show "rp_has_expiration_slot m p \<longleftrightarrow> r_exp r \<noteq> None"
    using at [of 20 4] ge
    by (simp add: m_def rp_has_expiration_slot_def rp_flags_def hdr_u32_def layout_sizes encode_parts
        FLAG_HAS_EXPIRATION_def add.commute)
qed

lemma decode_encode:
  assumes wf: "rec_wf r" and fits: "p + length (encode r) \<le> length mem"
  shows "decode (splice_at mem p (encode r)) p = r"
proof -
  note hdr = encode_header_reads [OF wf fits]
  note at = slice_splice_encode [OF fits]
  let ?e = "if r_exp r = None then 0 else 8 :: nat"
  have len: "length (encode r) = 24 + ?e + length (r_key r) + length (r_buf r)"
    by (simp add: length_encode layout_sizes)
  have key: "rp_key (splice_at mem p (encode r)) p = r_key r"
    using at [of "24 + ?e" "length (r_key r)"] encode_parts(7) [of r] len
    by (cases "r_exp r") (simp_all add: rp_key_def rp_key_offset_def hdr layout_sizes add.assoc)
  have buf: "rp_value_buf (splice_at mem p (encode r)) p = r_buf r"
    using at [of "24 + ?e + length (r_key r)" "length (r_buf r)"] encode_parts(8) [of r] len
    by (cases "r_exp r") (simp_all add: rp_value_buf_def rp_key_offset_def hdr layout_sizes add.assoc)
  have exp: "rp_expiration (splice_at mem p (encode r)) p = t" if "r_exp r = Some t" for t
    using at [of 24 8] encode_parts(6) [OF that] len that wf
    by (simp add: rp_expiration_def hdr layout_sizes sint_word_of_int_i64 rec_wf_def)
  show ?thesis
    using exp by (auto simp: decode_def hdr key buf)
qed

text \<open>
  Frame: a record reads the same after an overwrite of any range disjoint from its own bytes.
\<close>

definition rp_raw_size :: "bytes \<Rightarrow> nat \<Rightarrow> nat" where
  "rp_raw_size mem p = rp_key_offset mem p + rp_key_len mem p + rp_value_cap mem p"

lemma rp_raw_size_le_total: "rp_raw_size mem p \<le> rp_total_size mem p"
  by (simp add: rp_raw_size_def rp_total_size_def align8_ge)

lemma header_frame:
  assumes "i + length ys \<le> length mem" and "p + 24 \<le> i \<or> i + length ys \<le> p"
  shows "rp_info (splice_at mem i ys) p = rp_info mem p"
    and "k < 4 \<Longrightarrow> hdr_u32 (splice_at mem i ys) p k = hdr_u32 mem p k"
  using assms by (auto simp: rp_info_def hdr_u32_def layout_sizes slice_splice_other)

lemma decode_frame:
  assumes fit: "i + length ys \<le> length mem"
    and disj: "p + rp_raw_size mem p \<le> i \<or> i + length ys \<le> p"
  shows "decode (splice_at mem i ys) p = decode mem p"
    and "rp_total_size (splice_at mem i ys) p = rp_total_size mem p"
proof -
  have ge: "24 \<le> rp_raw_size mem p"
    by (simp add: rp_raw_size_def rp_key_offset_def layout_sizes)
  then have h24: "p + 24 \<le> i \<or> i + length ys \<le> p" using disj by linarith
  note hf = header_frame [OF fit h24]
  have flds: "rp_key_len (splice_at mem i ys) p = rp_key_len mem p"
    "rp_value_len (splice_at mem i ys) p = rp_value_len mem p"
    "rp_value_cap (splice_at mem i ys) p = rp_value_cap mem p"
    "rp_has_expiration_slot (splice_at mem i ys) p = rp_has_expiration_slot mem p"
    by (simp_all add: rp_key_len_def rp_value_len_def rp_value_cap_def
        rp_has_expiration_slot_def rp_flags_def hf)
  then have off: "rp_key_offset (splice_at mem i ys) p = rp_key_offset mem p"
    by (simp add: rp_key_offset_def)
  have parts: "rp_key (splice_at mem i ys) p = rp_key mem p"
    "rp_value_buf (splice_at mem i ys) p = rp_value_buf mem p"
    using fit disj
    by (auto simp: rp_key_def rp_value_buf_def flds off rp_raw_size_def slice_splice_other)
  have exp: "rp_expiration (splice_at mem i ys) p = rp_expiration mem p"
    using fit disj
    by (auto simp: rp_expiration_def flds rp_raw_size_def rp_key_offset_def layout_sizes
        slice_splice_other)
  show "decode (splice_at mem i ys) p = decode mem p"
    by (simp add: decode_def flds parts exp hf)
  show "rp_total_size (splice_at mem i ys) p = rp_total_size mem p"
    by (simp add: rp_total_size_def flds off)
qed

text \<open>
  The byte operations refine the field operations. \<open>rec_at mem p r\<close> says that the bytes at
  \<open>p\<close> are those of \<open>r\<close>; every setter of the byte view keeps it for the record the field
  view computes, and a freshly initialised record is the encoding of \<open>rec_init\<close>.
\<close>

definition rec_at :: "bytes \<Rightarrow> nat \<Rightarrow> rec \<Rightarrow> bool" where
  "rec_at mem p r \<longleftrightarrow>
     rec_wf r \<and> p + length (encode r) \<le> length mem \<and> slice_at mem p (length (encode r)) = encode r"

lemma splice_self: "p + n \<le> length mem \<Longrightarrow> splice_at mem p (slice_at mem p n) = mem"
  by (intro nth_equalityI) (auto simp: nth_splice nth_slice)

lemma splice_inner:
  assumes "p + length a + length b + length c \<le> length mem" and "length b' = length b"
  shows "splice_at (splice_at mem p (a @ b @ c)) (p + length a) b' = splice_at mem p (a @ b' @ c)"
  using assms by (intro nth_equalityI) (auto simp: nth_splice nth_append)

lemma splice_adjacent:
  assumes "p + length a + length b \<le> length mem" and "j = p + length a"
  shows "splice_at (splice_at mem p a) j b = splice_at mem p (a @ b)"
  using assms by (intro nth_equalityI) (auto simp: nth_splice nth_append)

lemma splice_trailing:
  assumes "p + length a + n \<le> length mem"
  shows "splice_at mem p (a @ slice_at mem (p + length a) n) = splice_at mem p a"
  using assms by (intro nth_equalityI) (auto simp: nth_splice nth_append nth_slice)

lemma rec_at_splice:
  assumes "rec_wf r" and "p + length (encode r) \<le> length mem"
  shows "rec_at (splice_at mem p (encode r)) p r"
  using assms by (simp add: rec_at_def slice_splice_same)

lemma rec_at_mem: "rec_at mem p r \<Longrightarrow> splice_at mem p (encode r) = mem"
  unfolding rec_at_def using splice_self by metis

lemma rec_at_decode: "rec_at mem p r \<Longrightarrow> decode mem p = r"
  using decode_encode rec_at_mem unfolding rec_at_def by metis

lemma rec_at_header:
  assumes "rec_at mem p r"
  shows "rp_info mem p = r_info r" and "rp_key_len mem p = length (r_key r)"
    and "rp_value_len mem p = r_value_len r" and "rp_value_cap mem p = length (r_buf r)"
    and "rp_has_expiration_slot mem p \<longleftrightarrow> r_exp r \<noteq> None"
  using encode_header_reads [of r p mem] rec_at_mem [OF assms] assms by (auto simp: rec_at_def)

lemma rec_at_reads:
  assumes "rec_at mem p r"
  shows "rp_key mem p = r_key r" and "rp_value mem p = r_value r"
    and "rp_expiration mem p = expiration r" and "rp_total_size mem p = rec_size r"
    and "rp_raw_size mem p = length (encode r)"
proof -
  note hdr = rec_at_header [OF assms] and dec = rec_at_decode [OF assms]
  show "rp_key mem p = r_key r" using dec by (auto simp: decode_def)
  have buf: "rp_value_buf mem p = r_buf r" using dec by (auto simp: decode_def)
  have "rp_value mem p = take (rp_value_len mem p) (rp_value_buf mem p)"
    using assms by (simp add: rp_value_def rp_value_buf_def slice_at_def hdr rec_at_def rec_wf_def min_def)
  then show "rp_value mem p = r_value r" by (simp add: r_value_def hdr buf)
  show "rp_expiration mem p = expiration r"
    using dec by (auto simp: decode_def expiration_def rp_expiration_def split: option.splits if_splits)
  show raw: "rp_raw_size mem p = length (encode r)"
    by (simp add: rp_raw_size_def rp_key_offset_def hdr length_encode)
  show "rp_total_size mem p = rec_size r"
    using raw by (simp add: rp_total_size_def rp_raw_size_def rec_size_def)
qed

text \<open>
  A setter replaces one field of the encoding by bytes of the same length.
\<close>

lemma rec_at_update:
  assumes at: "rec_at mem p r" and e: "encode r = a @ b @ c" and e': "encode r' = a @ b' @ c"
    and len: "length b' = length b" and wf: "rec_wf r'" and j: "j = p + length a"
  shows "rec_at (splice_at mem j b') p r'"
proof -
  from at e have fit: "p + length a + length b + length c \<le> length mem"
    by (simp add: rec_at_def)
  have "splice_at mem j b' = splice_at (splice_at mem p (a @ b @ c)) (p + length a) b'"
    using rec_at_mem [OF at] by (simp add: e j)
  also have "\<dots> = splice_at mem p (encode r')"
    using splice_inner [OF fit len] by (simp add: e')
  finally show ?thesis
    using rec_at_splice [OF wf, of p mem] fit len by (simp add: e')
qed

lemma rec_at_store_info:
  assumes "rec_at mem p r"
  shows "rec_at (rp_store_info mem p w) p (r\<lparr>r_info := w\<rparr>)"
  unfolding rp_store_info_def using assms
  by (rule rec_at_update [where a = "[]" and b = "to_le 8 (r_info r)" and c = "drop 8 (encode r)"])
     (use assms in \<open>auto simp: encode_def rec_at_def rec_wf_def\<close>)

lemma rec_at_set_value_len:
  assumes "rec_at mem p r" and "n \<le> r_value_cap r"
  shows "rec_at (rp_set_value_len mem p n) p (set_value_len r n)"
  unfolding rp_set_value_len_def set_hdr_u32_def using assms(1)
  by (rule rec_at_update [where a = "take 12 (encode r)" and c = "drop 16 (encode r)"
        and b = "to_le 4 (of_nat (r_value_len r) :: u32)"])
     (use assms in \<open>auto simp: encode_def rec_at_def rec_wf_def set_value_len_def r_value_cap_def
        layout_sizes split: option.splits\<close>)

lemma rec_at_set_expiration:
  assumes "rec_at mem p r" and "is_i64 ts"
  shows "fst (rp_set_expiration mem p ts) = fst (set_expiration r ts)"
    and "rec_at (snd (rp_set_expiration mem p ts)) p (snd (set_expiration r ts))"
proof -
  show "fst (rp_set_expiration mem p ts) = fst (set_expiration r ts)"
    using rec_at_header(5) [OF assms(1)]
    by (auto simp: rp_set_expiration_def set_expiration_def split: option.splits)
  show "rec_at (snd (rp_set_expiration mem p ts)) p (snd (set_expiration r ts))"
  proof (cases "r_exp r")
    case None
    then show ?thesis
      using assms(1) rec_at_header(5) [OF assms(1)]
      by (simp add: rp_set_expiration_def set_expiration_def)
  next
    case (Some t)
    have "rec_at (splice_at mem (p + FIXED_HEADER_SIZE) (to_le 8 (word_of_int ts :: u64))) p
            (r\<lparr>r_exp := Some ts\<rparr>)"
      using assms(1)
      by (rule rec_at_update [where a = "take 24 (encode r)" and c = "drop 32 (encode r)"
            and b = "to_le 8 (word_of_int t :: u64)"])
         (use assms Some in \<open>auto simp: encode_def rec_at_def rec_wf_def layout_sizes\<close>)
    with Some show ?thesis
      using rec_at_header(5) [OF assms(1)] by (simp add: rp_set_expiration_def set_expiration_def)
  qed
qed

lemma rec_at_write_buf:
  assumes "rec_at mem p r"
  shows "rp_write_buf mem p i v = None \<longleftrightarrow> write_buf r i v = None"
    and "rp_write_buf mem p i v = Some mem' \<Longrightarrow> write_buf r i v = Some r' \<Longrightarrow> rec_at mem' p r'"
proof -
  note hdr = rec_at_header [OF assms]
  show "rp_write_buf mem p i v = None \<longleftrightarrow> write_buf r i v = None"
    by (simp add: rp_write_buf_def write_buf_def r_value_cap_def hdr)
  assume s: "rp_write_buf mem p i v = Some mem'" "write_buf r i v = Some r'"
  then have fit: "i + length v \<le> length (r_buf r)" and r': "r' = r\<lparr>r_buf := splice_at (r_buf r) i v\<rparr>"
    by (auto simp: write_buf_def r_value_cap_def split: if_splits)
  let ?k = "length (encode r) - length (r_buf r)"
  have k: "?k = rp_key_offset mem p + rp_key_len mem p"
    by (simp add: rp_key_offset_def hdr length_encode)
  have mem': "mem' = splice_at mem (p + ?k + i) v"
    using s(1) by (simp add: rp_write_buf_def k add.assoc split: if_splits)
  have eb: "encode r = take ?k (encode r) @ r_buf r"
    by (simp add: encode_def split: option.splits)
  have buf: "r_buf r = take i (r_buf r) @ slice_at (r_buf r) i (length v) @ drop (i + length v) (r_buf r)"
    by (metis append_take_drop_id drop_drop add.commute slice_at_def)
  have e: "encode r = (take ?k (encode r) @ take i (r_buf r)) @ slice_at (r_buf r) i (length v)
             @ drop (i + length v) (r_buf r)"
    using eb buf by (metis append.assoc)
  have "encode r' = take ?k (encode r) @ splice_at (r_buf r) i v"
    using fit by (simp add: r' encode_def split: option.splits)
  then have e': "encode r' = (take ?k (encode r) @ take i (r_buf r)) @ v @ drop (i + length v) (r_buf r)"
    by (simp add: splice_at_def)
  show "rec_at mem' p r'"
    unfolding mem' using assms
    by (rule rec_at_update [OF _ e e'])
       (use assms fit in \<open>auto simp: r' rec_at_def rec_wf_def length_encode min_def\<close>)
qed

text \<open>Initialisation writes the header words, the cleared slot and the key in address order.\<close>

lemma rec_at_init:
  fixes prev :: u64 and innew :: bool
  assumes fit: "p + si_total_size sz \<le> length mem" and key: "si_key_len sz = length key"
    and small: "length key < 2 ^ 32" "si_value_cap sz < 2 ^ 32"
  defines "off \<equiv> FIXED_HEADER_SIZE + (if si_has_expiration sz then EXPIRATION_SIZE else 0)"
  defines "r \<equiv> rec_init prev innew sz key (slice_at mem (p + off + length key) (si_value_cap sz))"
  shows "rec_at (rp_init mem p prev innew sz key) p r" and "rec_size r = si_total_size sz"
    and "rp_init mem p prev innew sz key = splice_at mem p (encode r)"
proof -
  have fit': "p + off + length key + si_value_cap sz \<le> length mem"
    using fit align8_ge [of "off + si_key_len sz + si_value_cap sz"]
    by (simp add: si_total_size_def off_def key)
  have len: "length (encode r) = off + length key + si_value_cap sz"
    using fit' by (simp add: length_encode r_def rec_init_def off_def)
  define hdr where "hdr = to_le 8 (info_new prev innew OR SEALED_BIT)
    @ to_le 4 (of_nat (length key) :: u32) @ to_le 4 (0 :: u32)
    @ to_le 4 (of_nat (si_value_cap sz) :: u32)
    @ to_le 4 (if si_has_expiration sz then FLAG_HAS_EXPIRATION else 0)"
  define slot where "slot = (if si_has_expiration sz then to_le 8 (0 :: u64) else [])"
  have e: "encode r = (hdr @ slot @ key) @ slice_at mem (p + off + length key) (si_value_cap sz)"
    using fit' by (simp add: encode_def r_def rec_init_def hdr_def slot_def)
  have lhdr: "length hdr = 24" and lslot: "24 + length slot = off"
    by (simp_all add: hdr_def slot_def off_def layout_sizes)
  have m1: "set_hdr_u32 (set_hdr_u32 (set_hdr_u32 (set_hdr_u32 (rp_store_info mem p
      (info_new prev innew OR SEALED_BIT)) p 0 (of_nat (length key))) p 1 0) p 2
      (of_nat (si_value_cap sz))) p 3 (if si_has_expiration sz then FLAG_HAS_EXPIRATION else 0)
      = splice_at mem p hdr"
    using fit' by (simp add: set_hdr_u32_def rp_store_info_def hdr_def splice_adjacent off_def layout_sizes)
  have slot_bit: "rp_has_expiration_slot (splice_at mem p hdr) p \<longleftrightarrow> si_has_expiration sz"
    using fit' slice_splice_inside [of p hdr mem "p + 20" 4]
    by (simp add: rp_has_expiration_slot_def rp_flags_def hdr_u32_def layout_sizes lhdr off_def
        add.commute) (simp add: hdr_def slice_at_def FLAG_HAS_EXPIRATION_def)
  have m2: "(if si_has_expiration sz then snd (rp_set_expiration (splice_at mem p hdr) p 0)
      else splice_at mem p hdr) = splice_at mem p (hdr @ slot)"
    using fit'
    by (cases "si_has_expiration sz")
       (simp_all add: rp_set_expiration_def slot_bit slot_def splice_adjacent lhdr off_def layout_sizes)
  have "rp_has_expiration_slot (splice_at mem p (hdr @ slot)) p \<longleftrightarrow> si_has_expiration sz"
    using fit' slice_splice_inside [of p "hdr @ slot" mem "p + 20" 4] lslot
    by (simp add: rp_has_expiration_slot_def rp_flags_def hdr_u32_def layout_sizes lhdr
        add.commute slice_append_left) (simp add: hdr_def slice_at_def FLAG_HAS_EXPIRATION_def)
  then have "rp_init mem p prev innew sz key = splice_at (splice_at mem p (hdr @ slot)) (p + off) key"
    unfolding rp_init_def Let_def m1 m2 by (simp only: rp_key_offset_def off_def)
  also have "\<dots> = splice_at mem p (hdr @ slot @ key)"
    using fit' lslot by (simp add: splice_adjacent lhdr)
  also have "\<dots> = splice_at mem p (encode r)"
    unfolding e using splice_trailing [of p "hdr @ slot @ key" "si_value_cap sz" mem] fit'
    by (simp add: lhdr add.assoc lslot [symmetric])
  finally show eq: "rp_init mem p prev innew sz key = splice_at mem p (encode r)" .
  have "rec_wf r"
    using small fit' by (auto simp: rec_wf_def r_def rec_init_def is_i64_def I64_MIN_def I64_MAX_def)
  then show "rec_at (rp_init mem p prev innew sz key) p r"
    unfolding eq using fit' len by (intro rec_at_splice) auto
  show "rec_size r = si_total_size sz"
    by (simp add: rec_size_def len si_total_size_def off_def key)
qed

text \<open>The size computed from a header read off the disk is the record's size.\<close>

lemma total_size_from_header_eq:
  assumes "p + 24 \<le> length mem"
  shows "total_size_from_header (slice_at mem p MIN_DISK_READ) = rp_total_size mem p"
  using assms
  by (simp add: total_size_from_header_def rp_total_size_def rp_key_offset_def rp_key_len_def
      rp_value_cap_def rp_has_expiration_slot_def rp_flags_def hdr_u32_def layout_sizes
      slice_slice add.assoc Let_def)

subsection \<open>Properties\<close>

text \<open>A record initialised in the log and then filled reads back exactly what was written:
  the key, the value (when it fits the capacity), the expiration (when it has the slot); its size
  is the size that was asked for, also as computed from the header alone.\<close>

theorem record_write_read:
  fixes prev :: u64 and innew :: bool
  assumes fit: "p + si_total_size sz \<le> length mem" and key: "si_key_len sz = length key"
    and small: "length key < 2 ^ 32" "si_value_cap sz < 2 ^ 32"
    and v: "length v \<le> si_value_cap sz" and ts: "is_i64 ts"
  defines "mem1 \<equiv> rp_init mem p prev innew sz key"
  shows "\<exists>mem2. rp_write_buf mem1 p 0 v = Some mem2 \<and>
    (let mem3 = snd (rp_set_expiration (rp_set_value_len mem2 p (length v)) p ts) in
      rp_key mem3 p = key \<and> rp_value mem3 p = v
      \<and> rp_expiration mem3 p = (if si_has_expiration sz then ts else 0)
      \<and> rp_total_size mem3 p = si_total_size sz
      \<and> total_size_from_header (slice_at mem3 p MIN_DISK_READ) = si_total_size sz)"
proof -
  let ?r = "rec_init prev innew sz key (slice_at mem (p + (FIXED_HEADER_SIZE +
    (if si_has_expiration sz then EXPIRATION_SIZE else 0)) + length key) (si_value_cap sz))"
  note i = rec_at_init [OF fit key small, of prev innew]
  have at: "rec_at mem1 p ?r" unfolding mem1_def by (rule i(1))
  have len: "length (encode ?r) \<le> si_total_size sz"
    using i(2) align8_ge [of "length (encode ?r)"] by (simp add: rec_size_def)
  have cap: "length (r_buf ?r) = si_value_cap sz"
    using fit align8_ge [of "FIXED_HEADER_SIZE + (if si_has_expiration sz then EXPIRATION_SIZE else 0)
      + si_key_len sz + si_value_cap sz"]
    by (auto simp: rec_init_def key si_total_size_def)
  let ?r1 = "?r\<lparr>r_buf := splice_at (r_buf ?r) 0 v\<rparr>"
  have w: "write_buf ?r 0 v = Some ?r1" using v cap by (simp add: write_buf_def r_value_cap_def)
  then obtain mem2 where m2: "rp_write_buf mem1 p 0 v = Some mem2"
    using rec_at_write_buf(1) [OF at, of 0 v] by fastforce
  have at2: "rec_at mem2 p ?r1" by (rule rec_at_write_buf(2) [OF at m2 w])
  have at3: "rec_at (rp_set_value_len mem2 p (length v)) p (set_value_len ?r1 (length v))"
    by (rule rec_at_set_value_len [OF at2]) (use v cap in \<open>simp add: r_value_cap_def\<close>)
  let ?mem3 = "snd (rp_set_expiration (rp_set_value_len mem2 p (length v)) p ts)"
  let ?r3 = "snd (set_expiration (set_value_len ?r1 (length v)) ts)"
  have at4: "rec_at ?mem3 p ?r3" by (rule rec_at_set_expiration(2) [OF at3 ts])
  have "rec_size ?r3 = rec_size ?r"
    using v cap by (auto simp: rec_size_def length_encode set_expiration_def set_value_len_def split: option.splits)
  moreover have "p + 24 \<le> length ?mem3"
    using at4 by (simp add: rec_at_def length_encode layout_sizes)
  moreover have "r_value ?r3 = v"
    by (auto simp: r_value_def set_expiration_def set_value_len_def splice_at_def split: option.splits)
  moreover have "r_key ?r3 = key" and "expiration ?r3 = (if si_has_expiration sz then ts else 0)"
    by (auto simp: set_expiration_def set_value_len_def rec_init_def expiration_def)
  ultimately show ?thesis
    using m2 i(2) rec_at_reads [OF at4] by (simp add: Let_def total_size_from_header_eq)
qed

theorem record_write_read_witness:
  "let sz = \<lparr>si_key_len = 2, si_value_cap = 8, si_has_expiration = True\<rparr> in
   (\<exists>mem2. rp_write_buf (rp_init (replicate 64 0) 8 0 False sz [1, 2]) 8 0 [7, 9] = Some mem2 \<and>
    rp_value (snd (rp_set_expiration (rp_set_value_len mem2 8 (length [7, 9 :: byte])) 8 77)) 8 = [7, 9])"
  using record_write_read [of 8 "\<lparr>si_key_len = 2, si_value_cap = 8, si_has_expiration = True\<rparr>"
      "replicate 64 0" "[1, 2]" "[7, 9]" 77 0 False]
  by (auto simp: si_total_size_def align8_word layout_sizes is_i64_def I64_MIN_def I64_MAX_def Let_def align8_def)

text \<open>The header word protects a record that is being built or replaced: a new header is
  closed until \<open>unseal_and_validate\<close> opens it; \<open>try_seal\<close> succeeds exactly on an open
  header and leaves it closed, so that of two attempts in a row one succeeds; no flag update moves
  the previous address, and linking changes nothing else.\<close>

theorem header_protocol:
  "is_closed (info_new prev nv OR SEALED_BIT)
   \<and> \<not> is_closed (unseal_and_validate w) \<and> is_closed (seal_and_invalidate w) \<and> is_closed (set_invalid w)
   \<and> fst (try_seal w) = (\<not> is_closed w) \<and> \<not> fst (try_seal (snd (try_seal w)))
   \<and> previous_address (info_new prev nv OR SEALED_BIT) = previous_address prev
   \<and> map (\<lambda>f. previous_address (f w))
       [unseal_and_validate, seal_and_invalidate, set_invalid, set_tombstone, set_modified, \<lambda>w. snd (try_seal w)]
     = replicate 6 (previous_address w)
   \<and> fst (try_update_previous_address w new w)
   \<and> previous_address (snd (try_update_previous_address w new w)) = previous_address new
   \<and> is_closed (snd (try_update_previous_address w new w)) = is_closed w
   \<and> is_tombstone (snd (try_update_previous_address w new w)) = is_tombstone w"
proof -
  obtain w' where u: "try_update_previous_address w new w = (True, w')"
    by (simp add: try_update_previous_address_def)
  have "\<not> fst (try_seal (snd (try_seal w)))" using try_seal_iff try_seal_closes by blast
  moreover have "previous_address (snd (try_seal w)) = previous_address w"
    by (simp add: try_seal_def info_simps)
  ultimately show ?thesis
    using u try_update_previous_address_reads [OF u] try_seal_iff [of w]
    by (simp add: info_simps is_closed_def numeral_eq_Suc)
qed

end
