(* ===== verification/SessionFunctions.thy ===== *)
theory SessionFunctions
  imports LogRecord
begin

text \<open>
  The interface between the store and the data type it holds (\<^verbatim>\<open>store.rs\<close>): the statuses of an operation and the
  callbacks of the trait \<open>SessionFunctions\<close>, as a record of functions on the field view of records. A callback that
  may write gets the record and returns it as it leaves it, \<open>None\<close> where it panics. The \<open>post_\<close> callbacks are empty by
  default and in every implementation here, so they have no field.
\<close>

datatype Status = NotFound | Found | Created | InPlaceUpdated | CopyUpdated | Deleted | Canceled | StatusError

definition is_updated :: "Status \<Rightarrow> bool" where
  "is_updated s \<longleftrightarrow> (case s of Created \<Rightarrow> True | InPlaceUpdated \<Rightarrow> True | CopyUpdated \<Rightarrow> True | Deleted \<Rightarrow> True | _ \<Rightarrow> False)"

datatype InPlaceResult = Updated | NeedCopy | Expired | Cancel | Delete
datatype CopyDecision = CopyRecord | CancelCopy | DeleteRecord

record ('i, 'o) session_functions =
  f_reader :: "bytes \<Rightarrow> 'i \<Rightarrow> rec \<Rightarrow> 'o \<Rightarrow> bool \<times> 'o"
  f_upsert_size :: "bytes \<Rightarrow> 'i \<Rightarrow> size_info"
  f_initial_writer :: "bytes \<Rightarrow> 'i \<Rightarrow> rec \<Rightarrow> 'o \<Rightarrow> (rec \<times> 'o) option"
  f_in_place_writer :: "bytes \<Rightarrow> 'i \<Rightarrow> rec \<Rightarrow> 'o \<Rightarrow> (bool \<times> rec \<times> 'o) option"
  f_need_initial_update :: "bytes \<Rightarrow> 'i \<Rightarrow> 'o \<Rightarrow> bool \<times> 'o"
  f_initial_size :: "bytes \<Rightarrow> 'i \<Rightarrow> size_info"
  f_initial_updater :: "bytes \<Rightarrow> 'i \<Rightarrow> rec \<Rightarrow> 'o \<Rightarrow> (rec \<times> 'o) option"
  f_in_place_updater :: "bytes \<Rightarrow> 'i \<Rightarrow> rec \<Rightarrow> 'o \<Rightarrow> (InPlaceResult \<times> rec \<times> 'o) option"
  f_need_copy_update :: "bytes \<Rightarrow> 'i \<Rightarrow> rec \<Rightarrow> 'o \<Rightarrow> CopyDecision \<times> 'o"
  f_copy_size :: "bytes \<Rightarrow> 'i \<Rightarrow> rec \<Rightarrow> size_info"
  f_copy_updater :: "bytes \<Rightarrow> 'i \<Rightarrow> rec \<Rightarrow> rec \<Rightarrow> 'o \<Rightarrow> (rec \<times> 'o) option"

end
