(* ===== verification/Resp.thy ===== *)
theory Resp
  imports Prelude
begin

text \<open>
  The wire protocol (\<^verbatim>\<open>resp.rs\<close>): the incremental parser over the receive buffer, the
  reply writers, and the conversions between 64-bit integers and decimal text. The parser works
  on absolute offsets into the buffer, as the source does. A result is \<open>Inl\<close> of an error (the
  connection is closed), \<open>Inr None\<close> (incomplete, wait for more bytes), or \<open>Inr (Some (next, args))\<close>.
  The source appends to a caller-owned vector that it clears first; the caller reads it only after a
  complete command, so it is part of that result here.
\<close>

subsection \<open>Parsing commands\<close>

definition CR :: byte where "CR = 13"
definition LF :: byte where "LF = 10"
definition CRLF :: bytes where "CRLF = [CR, LF]"

record ArgSlice =
  a_start :: nat
  a_end :: nat

definition arg_bytes :: "ArgSlice \<Rightarrow> bytes \<Rightarrow> bytes" where
  "arg_bytes a buf = slice_at buf (a_start a) (a_end a - a_start a)"

datatype ProtocolError = Malformed string

type_synonym parse_result = "ProtocolError + (nat \<times> ArgSlice list) option"

function find_crlf :: "bytes \<Rightarrow> nat \<Rightarrow> nat option" where
  "find_crlf buf i =
     (if i + 1 < length buf then
        if buf ! i = CR \<and> buf ! (i + 1) = LF then Some i else find_crlf buf (i + 1)
      else None)"
  by pat_completeness auto
termination
  by (relation "measure (\<lambda>(buf, i). length buf - i)") auto

declare find_crlf.simps [simp del]

definition is_ascii_digit :: "byte \<Rightarrow> bool" where
  "is_ascii_digit c \<longleftrightarrow> 48 \<le> c \<and> c \<le> 57"

fun parse_digits :: "int \<Rightarrow> bytes \<Rightarrow> ProtocolError + int" where
  "parse_digits v [] = Inr v"
| "parse_digits v (c # cs) =
     (if \<not> is_ascii_digit c then Inl (Malformed ''non-digit in integer'')
      else (case Option.bind (i64_checked (v * 10)) (\<lambda>v. i64_checked (v + int (unat (c - 48)))) of
              None \<Rightarrow> Inl (Malformed ''integer overflow'')
            | Some v' \<Rightarrow> parse_digits v' cs))"

definition parse_int :: "bytes \<Rightarrow> ProtocolError + int" where
  "parse_int s =
     (if s = [] then Inl (Malformed ''empty integer'')
      else (let (neg, digits) = (if hd s = 45 then (True, tl s) else (False, s)) in
            if digits = [] then Inl (Malformed ''empty integer'')
            else (case parse_digits 0 digits of
                    Inl e \<Rightarrow> Inl e
                  | Inr v \<Rightarrow> Inr (if neg then - v else v))))"

fun parse_bulks :: "bytes \<Rightarrow> nat \<Rightarrow> nat \<Rightarrow> ArgSlice list \<Rightarrow> parse_result" where
  \<comment> \<open>the \<open>for\<close> loop over the \<open>count\<close> bulk strings that are left, from offset \<open>cur\<close>\<close>
  "parse_bulks buf 0 cur args = Inr (Some (cur, args))"
| "parse_bulks buf (Suc count) cur args =
     (if length buf \<le> cur then Inr None
      else if buf ! cur \<noteq> 36 then Inl (Malformed ''expected bulk string'')
      else (case find_crlf buf (cur + 1) of None \<Rightarrow> Inr None
        | Some cr \<Rightarrow>
          (case parse_int (slice_at buf (cur + 1) (cr - (cur + 1))) of Inl e \<Rightarrow> Inl e
           | Inr len \<Rightarrow>
             if len < 0 then Inl (Malformed ''negative bulk length'')
             else (let start = cr + 2; end = start + nat len in
               if length buf < end + 2 then Inr None
               else if buf ! end \<noteq> CR \<or> buf ! (end + 1) \<noteq> LF
               then Inl (Malformed ''bulk string not CRLF terminated'')
               else parse_bulks buf count (end + 2) (args @ [\<lparr>a_start = start, a_end = end\<rparr>])))))"

definition parse_array :: "bytes \<Rightarrow> nat \<Rightarrow> parse_result" where
  "parse_array buf pos =
     (case find_crlf buf (pos + 1) of None \<Rightarrow> Inr None
      | Some cr \<Rightarrow>
        (case parse_int (slice_at buf (pos + 1) (cr - (pos + 1))) of Inl e \<Rightarrow> Inl e
         | Inr count \<Rightarrow>
           if count < 0 then Inl (Malformed ''negative array length'')
           else if count > 1024 * 1024 then Inl (Malformed ''array too large'')
           else parse_bulks buf (nat count) (cr + 2) []))"

function skip_while :: "(byte \<Rightarrow> bool) \<Rightarrow> bytes \<Rightarrow> nat \<Rightarrow> nat \<Rightarrow> nat" where
  "skip_while P buf i cr = (if i < cr \<and> P (buf ! i) then skip_while P buf (i + 1) cr else i)"
  by pat_completeness auto
termination
  by (relation "measure (\<lambda>(P, buf, i, cr). cr - i)") auto

declare skip_while.simps [simp del]

lemma skip_while_ge: "i \<le> skip_while P buf i cr"
proof (induction P buf i cr rule: skip_while.induct)
  case (1 P buf i cr)
  then show ?case by (subst skip_while.simps) auto
qed

lemma skip_while_le: "i \<le> cr \<Longrightarrow> skip_while P buf i cr \<le> cr"
proof (induction P buf i cr rule: skip_while.induct)
  case (1 P buf i cr)
  then show ?case by (subst skip_while.simps) auto
qed

lemma skip_while_stop: "skip_while P buf i cr < cr \<Longrightarrow> \<not> P (buf ! skip_while P buf i cr)"
proof (induction P buf i cr rule: skip_while.induct)
  case (1 P buf i cr)
  then show ?case by (subst (asm) skip_while.simps, subst skip_while.simps) (auto split: if_splits)
qed

function inline_args :: "bytes \<Rightarrow> nat \<Rightarrow> nat \<Rightarrow> ArgSlice list" where
  "inline_args buf i cr =
     (if i < cr then
        (let start = skip_while (\<lambda>c. c = 32) buf i cr in
         if cr \<le> start then []
         else (let e = skip_while (\<lambda>c. c \<noteq> 32) buf start cr in
               \<lparr>a_start = start, a_end = e\<rparr> # inline_args buf e cr))
      else [])"
  by pat_completeness auto
termination
proof (relation "measure (\<lambda>(buf, i, cr). cr - i)", goal_cases)
  case (2 buf i cr start e)
  have "buf ! start \<noteq> 32" using 2 skip_while_stop [of "\<lambda>c. c = 32" buf i cr] by simp
  then have "start < e"
    using 2 skip_while_ge [of "Suc start" "\<lambda>c. c \<noteq> 32" buf cr]
    by (subst 2(4), subst skip_while.simps) simp
  then show ?case using 2 skip_while_ge [of i "\<lambda>c. c = 32" buf cr] by simp
qed simp

declare inline_args.simps [simp del]

definition parse_inline :: "bytes \<Rightarrow> nat \<Rightarrow> parse_result" where
  "parse_inline buf pos =
     (case find_crlf buf pos of None \<Rightarrow> Inr None | Some cr \<Rightarrow> Inr (Some (cr + 2, inline_args buf pos cr)))"

definition parse_command :: "bytes \<Rightarrow> nat \<Rightarrow> parse_result" where
  "parse_command buf pos =
     (if length buf \<le> pos then Inr None
      else if buf ! pos = 42 then parse_array buf pos else parse_inline buf pos)"

subsection \<open>Writing replies\<close>

fun u64_digits :: "nat \<Rightarrow> bytes \<Rightarrow> bytes" where
  \<comment> \<open>\<open>while u > 0\<close>: digits are put in front of the ones already in the buffer\<close>
  "u64_digits u acc = (if u = 0 then acc else u64_digits (u div 10) (of_nat (48 + u mod 10) # acc))"

declare u64_digits.simps [simp del]

definition i64_fmt :: "int \<Rightarrow> bytes" where
  \<comment> \<open>\<open>I64Buf::fmt\<close>; the buffer has 20 bytes, see \<open>length_i64_fmt\<close>\<close>
  "i64_fmt v =
     (let u = nat \<bar>v\<bar>; ds = (if u = 0 then [48] else u64_digits u []) in if v < 0 then 45 # ds else ds)"

definition write_i64_digits :: "bytes \<Rightarrow> int \<Rightarrow> bytes" where
  "write_i64_digits out v = out @ i64_fmt v"

definition OK :: bytes where "OK = str ''+OK'' @ CRLF"
definition PONG :: bytes where "PONG = str ''+PONG'' @ CRLF"
definition QUEUED :: bytes where "QUEUED = str ''+QUEUED'' @ CRLF"
definition NULL_BULK :: bytes where "NULL_BULK = str ''$-1'' @ CRLF"
definition NULL_ARRAY :: bytes where "NULL_ARRAY = str ''*-1'' @ CRLF"
definition EMPTY_ARRAY :: bytes where "EMPTY_ARRAY = str ''*0'' @ CRLF"

definition write_simple :: "bytes \<Rightarrow> bytes \<Rightarrow> bytes" where
  "write_simple out s = out @ [43] @ s @ CRLF"

definition write_error :: "bytes \<Rightarrow> bytes \<Rightarrow> bytes" where
  "write_error out s = out @ [45] @ s @ CRLF"

definition write_integer :: "bytes \<Rightarrow> int \<Rightarrow> bytes" where
  "write_integer out v = write_i64_digits (out @ [58]) v @ CRLF"

definition write_bulk_header :: "bytes \<Rightarrow> nat \<Rightarrow> bytes" where
  "write_bulk_header out len = write_i64_digits (out @ [36]) (int len) @ CRLF"

definition write_bulk :: "bytes \<Rightarrow> bytes \<Rightarrow> bytes" where
  "write_bulk out data = write_bulk_header out (length data) @ data @ CRLF"

definition write_array_header :: "bytes \<Rightarrow> nat \<Rightarrow> bytes" where
  "write_array_header out n = write_i64_digits (out @ [42]) (int n) @ CRLF"

fun digit_count :: "nat \<Rightarrow> nat" where
  "digit_count u = (if u = 0 then 0 else Suc (digit_count (u div 10)))"

declare digit_count.simps [simp del]

definition i64_digit_len :: "int \<Rightarrow> nat" where
  "i64_digit_len v =
     (let u = nat \<bar>v\<bar> in if u = 0 then 1 else (if v < 0 then 1 else 0) + digit_count u)"

subsection \<open>Integers in arguments\<close>

text \<open>
  \<open>parse_i64\<close> goes through \<open>str::from_utf8\<close>, \<open>str::trim\<close> and \<open>str::parse::<i64>\<close>. The first
  decodes strictly (no overlong forms, no surrogates, at most U+10FFFF), the second drops the code
  points with the Unicode property White_Space at both ends, the third takes an optional sign and at
  least one decimal digit and fails on overflow.
\<close>

definition is_cont :: "byte \<Rightarrow> bool" where
  "is_cont b \<longleftrightarrow> 128 \<le> b \<and> b < 192"

definition cont_bits :: "byte \<Rightarrow> nat" where
  "cont_bits b = unat b - 128"

fun from_utf8 :: "bytes \<Rightarrow> nat list option" where
  "from_utf8 [] = Some []"
| "from_utf8 (a # bs) =
     (if a < 128 then map_option (Cons (unat a)) (from_utf8 bs)
      else if 0xC2 \<le> a \<and> a \<le> 0xDF then
        (case bs of b # rest \<Rightarrow>
           if is_cont b then map_option (Cons ((unat a - 0xC0) * 64 + cont_bits b)) (from_utf8 rest) else None
         | _ \<Rightarrow> None)
      else if 0xE0 \<le> a \<and> a \<le> 0xEF then
        (case bs of b # c # rest \<Rightarrow>
           if is_cont b \<and> is_cont c \<and> (a = 0xE0 \<longrightarrow> 0xA0 \<le> b) \<and> (a = 0xED \<longrightarrow> b < 0xA0)
           then map_option (Cons ((unat a - 0xE0) * 4096 + cont_bits b * 64 + cont_bits c)) (from_utf8 rest)
           else None
         | _ \<Rightarrow> None)
      else if 0xF0 \<le> a \<and> a \<le> 0xF4 then
        (case bs of b # c # d # rest \<Rightarrow>
           if is_cont b \<and> is_cont c \<and> is_cont d \<and> (a = 0xF0 \<longrightarrow> 0x90 \<le> b) \<and> (a = 0xF4 \<longrightarrow> b < 0x90)
           then map_option (Cons ((unat a - 0xF0) * 262144 + cont_bits b * 4096 + cont_bits c * 64 + cont_bits d))
                  (from_utf8 rest)
           else None
         | _ \<Rightarrow> None)
      else None)"

definition is_whitespace :: "nat \<Rightarrow> bool" where
  "is_whitespace c \<longleftrightarrow> (9 \<le> c \<and> c \<le> 13) \<or> (0x2000 \<le> c \<and> c \<le> 0x200A)
     \<or> List.member [32, 0x85, 0xA0, 0x1680, 0x2028, 0x2029, 0x202F, 0x205F, 0x3000] c"

definition trim :: "nat list \<Rightarrow> nat list" where
  "trim s = rev (dropWhile is_whitespace (rev (dropWhile is_whitespace s)))"

fun from_str_digits :: "bool \<Rightarrow> int \<Rightarrow> nat list \<Rightarrow> int option" where
  "from_str_digits neg v [] = Some v"
| "from_str_digits neg v (c # cs) =
     (if c < 48 \<or> 57 < c then None
      else do { v \<leftarrow> i64_checked (v * 10);
                v \<leftarrow> i64_checked (if neg then v - (int c - 48) else v + (int c - 48));
                from_str_digits neg v cs })"

definition i64_from_str :: "nat list \<Rightarrow> int option" where
  "i64_from_str s =
     (case s of [] \<Rightarrow> None
      | c # cs \<Rightarrow>
          if (c = 43 \<or> c = 45) \<and> cs = [] then None
          else if c = 43 then from_str_digits False 0 cs
          else if c = 45 then from_str_digits True 0 cs
          else from_str_digits False 0 s)"

definition parse_i64 :: "bytes \<Rightarrow> int option" where
  "parse_i64 s = do { t \<leftarrow> from_utf8 s; i64_from_str (trim t) }"

subsection \<open>Decimal text\<close>

lemma u64_digits_acc: "u64_digits u acc = u64_digits u [] @ acc"
proof (induction u arbitrary: acc rule: less_induct)
  case (less u)
  show ?case
  proof (cases "u = 0")
    case True
    then show ?thesis by (simp add: u64_digits.simps)
  next
    case False
    then have lt: "u div 10 < u" by simp
    show ?thesis
      using False less [OF lt, of "of_nat (48 + u mod 10) # acc"] less [OF lt, of "[of_nat (48 + u mod 10)]"]
      by (simp add: u64_digits.simps [of u])
  qed
qed

lemma u64_digits_step:
  "0 < u \<Longrightarrow> u64_digits u [] = u64_digits (u div 10) [] @ [of_nat (48 + u mod 10)]"
  by (subst u64_digits.simps) (simp add: u64_digits_acc [of "u div 10" "[_]"])

lemma u64_digits_0 [simp]: "u64_digits 0 acc = acc"
  by (simp add: u64_digits.simps)

lemma length_u64_digits: "length (u64_digits u []) = digit_count u"
proof (induction u rule: less_induct)
  case (less u)
  then show ?case
    by (cases "u = 0") (simp_all add: u64_digits_step digit_count.simps [of u] digit_count.simps [of 0])
qed

lemma digit_count_le: "u < 10 ^ n \<Longrightarrow> digit_count u \<le> n"
proof (induction n arbitrary: u)
  case 0
  then show ?case by (simp add: digit_count.simps)
next
  case (Suc n)
  then have "u div 10 < 10 ^ n" by (simp add: less_mult_imp_div_less mult.commute)
  then show ?case using Suc.IH by (subst digit_count.simps) simp
qed

lemma length_i64_fmt: "is_i64 v \<Longrightarrow> length (i64_fmt v) = i64_digit_len v \<and> length (i64_fmt v) \<le> 20"
proof -
  assume "is_i64 v"
  then have "nat \<bar>v\<bar> < 10 ^ 19" by (auto simp: is_i64_def I64_MIN_def I64_MAX_def)
  then have "digit_count (nat \<bar>v\<bar>) \<le> 19" by (rule digit_count_le)
  then show ?thesis
    by (cases "v < 0") (simp_all add: i64_fmt_def i64_digit_len_def Let_def length_u64_digits)
qed

lemma digit_byte:
  assumes "d < 10"
  shows "unat (of_nat (48 + d) :: byte) = 48 + d" and "is_ascii_digit (of_nat (48 + d))"
    and "unat (of_nat (48 + d) - 48 :: byte) = d"
proof -
  show u: "unat (of_nat (48 + d) :: byte) = 48 + d" using assms by (simp add: unat_of_nat del: of_nat_add)
  show "is_ascii_digit (of_nat (48 + d))"
    using assms u by (simp add: is_ascii_digit_def word_le_nat_alt del: of_nat_add)
  show "unat (of_nat (48 + d) - 48 :: byte) = d" using assms by (simp add: unat_of_nat)
qed

lemma set_u64_digits: "c \<in> set (u64_digits u []) \<Longrightarrow> is_ascii_digit c"
proof (induction u rule: less_induct)
  case (less u)
  show ?case
  proof (cases "u = 0")
    case False
    then have "c \<in> set (u64_digits (u div 10) []) \<or> c = of_nat (48 + u mod 10)"
      using less.prems u64_digits_step [of u] by (auto simp del: of_nat_add)
    then show ?thesis using less.IH [of "u div 10"] False digit_byte(2) [of "u mod 10"] by auto
  qed (use less.prems in simp)
qed

lemma parse_digits_append:
  "parse_digits v (xs @ ys) = (case parse_digits v xs of Inl e \<Rightarrow> Inl e | Inr w \<Rightarrow> parse_digits w ys)"
  by (induction v xs rule: parse_digits.induct) (auto split: option.splits)

lemma i64_checked_Some: "is_i64 x \<Longrightarrow> i64_checked x = Some x"
  by (simp add: i64_checked_def)

lemma i64_small: "0 \<le> x \<Longrightarrow> x \<le> I64_MAX \<Longrightarrow> is_i64 x" "x \<le> 0 \<Longrightarrow> I64_MIN \<le> x \<Longrightarrow> is_i64 x"
  by (auto simp: is_i64_def I64_MIN_def I64_MAX_def)

lemma parse_u64_digits: "int u \<le> I64_MAX \<Longrightarrow> parse_digits 0 (u64_digits u []) = Inr (int u)"
proof (induction u rule: less_induct)
  case (less u)
  show ?case
  proof (cases "u = 0")
    case False
    have u: "int u = int (u div 10) * 10 + int (u mod 10)" by (simp add: zdiv_int zmod_int)
    have "parse_digits 0 (u64_digits (u div 10) []) = Inr (int (u div 10))"
      using False less.prems by (intro less.IH) auto
    moreover have "i64_checked (int (u div 10) * 10) = Some (int (u div 10) * 10)"
      using less.prems u by (intro i64_checked_Some i64_small) auto
    moreover have "i64_checked (int (u div 10) * 10 + int (u mod 10)) = Some (int u)"
      unfolding u [symmetric] using less.prems by (intro i64_checked_Some i64_small) auto
    moreover have "u mod 10 < 10" by simp
    ultimately show ?thesis
      using False digit_byte [of "u mod 10"] u64_digits_step [of u]
      by (simp add: parse_digits_append del: of_nat_add)
  qed simp
qed

lemma u64_digits_nonempty: "0 < u \<Longrightarrow> u64_digits u [] \<noteq> []"
  using u64_digits_step by simp

lemma parse_int_fmt: "0 \<le> v \<Longrightarrow> v \<le> I64_MAX \<Longrightarrow> parse_int (i64_fmt v) = Inr v"
proof (cases "v = 0")
  case False
  assume v: "0 \<le> v" "v \<le> I64_MAX"
  let ?ds = "u64_digits (nat v) []"
  have ne: "?ds \<noteq> []" using False v by (intro u64_digits_nonempty) auto
  then have "is_ascii_digit (hd ?ds)" using set_u64_digits [of "hd ?ds" "nat v"] by simp
  then have "hd ?ds \<noteq> 45" by (auto simp: is_ascii_digit_def)
  then show ?thesis
    using ne v False parse_u64_digits [of "nat v"] by (simp add: parse_int_def i64_fmt_def Let_def)
qed (simp add: i64_fmt_def parse_int_def is_ascii_digit_def i64_checked_def is_i64_def I64_MIN_def I64_MAX_def)

lemma from_utf8_ascii: "(\<And>c. c \<in> set s \<Longrightarrow> c < 128) \<Longrightarrow> from_utf8 s = Some (map unat s)"
  by (induction s) auto

lemma from_str_digits_append:
  "from_str_digits neg v (xs @ ys) = Option.bind (from_str_digits neg v xs) (\<lambda>w. from_str_digits neg w ys)"
  by (induction neg v xs rule: from_str_digits.induct) (auto split: bind_splits)

lemma from_str_u64_digits:
  "is_i64 (if neg then - int u else int u) \<Longrightarrow>
     from_str_digits neg 0 (map unat (u64_digits u [])) = Some (if neg then - int u else int u)"
proof (induction u rule: less_induct)
  case (less u)
  let ?s = "\<lambda>n :: nat. if neg then - int n else int n"
  show ?case
  proof (cases "u = 0")
    case False
    have u: "int u = int (u div 10) * 10 + int (u mod 10)" by (simp add: zdiv_int zmod_int)
    have q: "int (u div 10) \<le> int u" by simp
    have "from_str_digits neg 0 (map unat (u64_digits (u div 10) [])) = Some (?s (u div 10))"
      using False less.prems q
      by (intro less.IH) (auto simp: is_i64_def I64_MIN_def I64_MAX_def split: if_splits)
    moreover have "i64_checked (?s (u div 10) * 10) = Some (?s (u div 10) * 10)"
      using less.prems u by (intro i64_checked_Some) (auto simp: is_i64_def I64_MIN_def I64_MAX_def split: if_splits)
    moreover have "i64_checked (?s u) = Some (?s u)" using less.prems by (rule i64_checked_Some)
    moreover have "(if neg then ?s (u div 10) * 10 - (int (48 + u mod 10) - 48) else ?s (u div 10) * 10 + (int (48 + u mod 10) - 48)) = ?s u"
      using u by auto
    moreover have "unat (of_nat (48 + u mod 10) :: byte) = 48 + u mod 10" by (rule digit_byte) simp
    moreover have "u mod 10 \<le> 9" using mod_less_divisor [of 10 u] by linarith
    ultimately show ?thesis
      using False u64_digits_step [of u]
      by (simp add: from_str_digits_append del: of_nat_add split: if_splits)
  qed simp
qed

lemma ascii_digit_facts: "is_ascii_digit c \<Longrightarrow> c < 128" "is_ascii_digit c \<Longrightarrow> \<not> is_whitespace (unat c)"
  "is_ascii_digit c \<Longrightarrow> 48 \<le> unat c"
proof -
  assume d: "is_ascii_digit c"
  show "c < 128" using d by (simp add: is_ascii_digit_def word_less_nat_alt word_le_nat_alt)
  have "48 \<le> unat c \<and> unat c \<le> 57" using d by (simp add: is_ascii_digit_def word_le_nat_alt)
  then show "\<not> is_whitespace (unat c)" and "48 \<le> unat c" by (auto simp: is_whitespace_def)
qed

lemma dropWhile_none: "(\<And>x. x \<in> set xs \<Longrightarrow> \<not> P x) \<Longrightarrow> dropWhile P xs = xs"
  by (cases xs) auto

lemma parse_i64_fmt: assumes "is_i64 v" shows "parse_i64 (i64_fmt v) = Some v"
proof -
  let ?ds = "if nat \<bar>v\<bar> = 0 then [48] else u64_digits (nat \<bar>v\<bar>) []"
  have dig: "c \<in> set ?ds \<Longrightarrow> is_ascii_digit c" for c
    using set_u64_digits [of c "nat \<bar>v\<bar>"] by (auto simp: is_ascii_digit_def split: if_splits)
  have ne: "?ds \<noteq> []" using u64_digits_nonempty [of "nat \<bar>v\<bar>"] by auto
  have f: "i64_fmt v = (if v < 0 then 45 # ?ds else ?ds)" by (simp add: i64_fmt_def Let_def)
  have all: "c < 128 \<and> \<not> is_whitespace (unat c)" if "c \<in> set (i64_fmt v)" for c
    using that dig [of c] ascii_digit_facts [of c] unfolding f
    by (auto simp: is_whitespace_def split: if_splits)
  then have u: "from_utf8 (i64_fmt v) = Some (map unat (i64_fmt v))" by (intro from_utf8_ascii) blast
  have t: "trim (map unat (i64_fmt v)) = map unat (i64_fmt v)"
  proof -
    have ws: "\<not> is_whitespace x" if "x \<in> set (map unat (i64_fmt v))" for x using that all by auto
    have "dropWhile is_whitespace (map unat (i64_fmt v)) = map unat (i64_fmt v)"
      by (rule dropWhile_none) (rule ws)
    moreover have "dropWhile is_whitespace (rev (map unat (i64_fmt v))) = rev (map unat (i64_fmt v))"
      by (rule dropWhile_none) (use ws in simp)
    ultimately show ?thesis unfolding trim_def by simp
  qed
  have "from_str_digits (v < 0) 0 (map unat ?ds) = Some v"
  proof (cases "v = 0")
    case False
    then have "(if v < 0 then - int (nat \<bar>v\<bar>) else int (nat \<bar>v\<bar>)) = v" by auto
    then show ?thesis using from_str_u64_digits [of "v < 0" "nat \<bar>v\<bar>"] assms False by simp
  qed (simp add: i64_checked_def is_i64_def I64_MIN_def I64_MAX_def)
  moreover obtain c cs where cs: "?ds = c # cs" using ne by (cases ?ds) auto
  moreover have "48 \<le> unat c" using dig [of c] cs ascii_digit_facts(3) [of c] by simp
  ultimately show ?thesis
    unfolding parse_i64_def u using t by (auto simp: i64_from_str_def f)
qed

subsection \<open>The parser on a growing buffer\<close>

lemma find_crlf_Some:
  "find_crlf buf i = Some c \<Longrightarrow> i \<le> c \<and> c + 1 < length buf \<and> buf ! c = CR \<and> buf ! (c + 1) = LF"
proof (induction buf i rule: find_crlf.induct)
  case (1 buf i)
  then show ?case by (subst (asm) find_crlf.simps) (auto split: if_splits)
qed

lemma find_crlf_mono: "find_crlf buf i = Some c \<Longrightarrow> find_crlf (buf @ suf) i = Some c"
proof (induction buf i rule: find_crlf.induct)
  case (1 buf i)
  then show ?case
    by (subst find_crlf.simps, subst (asm) find_crlf.simps) (auto simp: nth_append split: if_splits)
qed

lemma slice_mono: "i + n \<le> length buf \<Longrightarrow> slice_at (buf @ suf) i n = slice_at buf i n"
  by (rule slice_append_left)

lemma parse_bulks_mono:
  "parse_bulks buf n cur args \<noteq> Inr None \<Longrightarrow> parse_bulks (buf @ suf) n cur args = parse_bulks buf n cur args"
proof (induction n arbitrary: cur args)
  case (Suc n)
  show ?case
  proof (cases "find_crlf buf (cur + 1)")
    case None
    with Suc.prems show ?thesis by (auto simp: nth_append split: if_splits)
  next
    case (Some cr)
    note c = find_crlf_Some [OF Some] and m = find_crlf_mono [OF Some, of suf]
    have sl: "slice_at (buf @ suf) (cur + 1) (cr - (cur + 1)) = slice_at buf (cur + 1) (cr - (cur + 1))"
      using c by (intro slice_append_left) auto
    show ?thesis
    proof (cases "parse_int (slice_at buf (cur + 1) (cr - (cur + 1)))")
      case (Inl e)
      with Suc.prems Some m sl c show ?thesis by (auto simp: nth_append split: if_splits)
    next
      case (Inr len)
      let ?e = "cr + 2 + nat len"
      have fits: "len < 0 \<or> buf ! cur \<noteq> 36 \<or> ?e + 2 \<le> length buf"
        using Suc.prems Some Inr c by (auto split: if_splits)
      have rec: "parse_bulks (buf @ suf) n (?e + 2) a = parse_bulks buf n (?e + 2) a"
        if "parse_bulks buf n (?e + 2) a \<noteq> Inr None" for a by (rule Suc.IH [OF that])
      show ?thesis
      proof (cases "len < 0 \<or> buf ! cur \<noteq> 36 \<or> buf ! ?e \<noteq> CR \<or> buf ! (?e + 1) \<noteq> LF")
        case True
        with fits c Some Inr m sl show ?thesis by (auto simp: nth_append Let_def)
      next
        case False
        let ?a = "args @ [\<lparr>a_start = cr + 2, a_end = ?e\<rparr>]"
        have b: "parse_bulks buf (Suc n) cur args = parse_bulks buf n (?e + 2) ?a"
          using False fits c Some Inr by (simp add: Let_def)
        moreover have "parse_bulks (buf @ suf) (Suc n) cur args = parse_bulks (buf @ suf) n (?e + 2) ?a"
          using False fits c m sl Inr by (simp add: Let_def nth_append)
        ultimately show ?thesis using rec [of ?a] Suc.prems by simp
      qed
    qed
  qed
qed simp

lemma parse_array_mono:
  "parse_array buf pos \<noteq> Inr None \<Longrightarrow> parse_array (buf @ suf) pos = parse_array buf pos"
proof (cases "find_crlf buf (pos + 1)")
  case (Some cr)
  assume ne: "parse_array buf pos \<noteq> Inr None"
  note c = find_crlf_Some [OF Some] and m = find_crlf_mono [OF Some, of suf]
  have "slice_at (buf @ suf) (pos + 1) (cr - (pos + 1)) = slice_at buf (pos + 1) (cr - (pos + 1))"
    using c by (intro slice_append_left) auto
  with ne Some m show ?thesis
    by (auto simp: parse_array_def parse_bulks_mono split: sum.splits if_splits)
qed (simp add: parse_array_def)

lemma skip_while_mono:
  "cr \<le> length buf \<Longrightarrow> skip_while P (buf @ suf) i cr = skip_while P buf i cr"
proof (induction P buf i cr rule: skip_while.induct)
  case (1 P buf i cr)
  then show ?case
    by (subst skip_while.simps, subst (2) skip_while.simps) (auto simp: nth_append)
qed

lemma inline_args_mono:
  "cr \<le> length buf \<Longrightarrow> inline_args (buf @ suf) i cr = inline_args buf i cr"
proof (induction buf i cr rule: inline_args.induct)
  case (1 buf i cr)
  then show ?case
    by (subst inline_args.simps, subst (2) inline_args.simps) (auto simp: skip_while_mono Let_def)
qed

lemma parse_command_mono:
  "parse_command buf pos \<noteq> Inr None \<Longrightarrow> parse_command (buf @ suf) pos = parse_command buf pos"
proof -
  assume ne: "parse_command buf pos \<noteq> Inr None"
  then have "pos < length buf" by (auto simp: parse_command_def split: if_splits)
  with ne show ?thesis
  proof (cases "buf ! pos = 42")
    case False
    with ne \<open>pos < length buf\<close> obtain cr where cr: "find_crlf buf pos = Some cr"
      by (auto simp: parse_command_def parse_inline_def split: option.splits)
    with False \<open>pos < length buf\<close> find_crlf_mono [OF cr, of suf] find_crlf_Some [OF cr] show ?thesis
      by (simp add: parse_command_def nth_append parse_inline_def inline_args_mono)
  qed (simp add: parse_command_def nth_append parse_array_mono)
qed

text \<open>A complete command ends after where it started and inside the buffer; so do its arguments.\<close>

definition args_ok :: "bytes \<Rightarrow> nat \<Rightarrow> nat \<Rightarrow> ArgSlice list \<Rightarrow> bool" where
  "args_ok buf pos next args \<longleftrightarrow>
     (\<forall>a \<in> set args. pos \<le> a_start a \<and> a_start a \<le> a_end a \<and> a_end a + 2 \<le> next) \<and> next \<le> length buf"

lemma parse_bulks_ok:
  "parse_bulks buf n cur args = Inr (Some (next, args')) \<Longrightarrow> args_ok buf pos cur args \<Longrightarrow> pos \<le> cur \<Longrightarrow>
     cur \<le> next \<and> args_ok buf pos next args'"
proof (induction n arbitrary: cur args)
  case (Suc n)
  then obtain cr len where cr: "find_crlf buf (cur + 1) = Some cr"
    and r: "parse_bulks buf n (cr + 2 + nat len + 2) (args @ [\<lparr>a_start = cr + 2, a_end = cr + 2 + nat len\<rparr>])
      = Inr (Some (next, args'))" and l: "cr + 2 + nat len + 2 \<le> length buf"
    by (auto simp: Let_def split: if_splits option.splits sum.splits)
  note c = find_crlf_Some [OF cr]
  have "args_ok buf pos (cr + 2 + nat len + 2) (args @ [\<lparr>a_start = cr + 2, a_end = cr + 2 + nat len\<rparr>])"
    using Suc.prems(2,3) c l by (fastforce simp: args_ok_def)
  from Suc.IH [OF r this] Suc.prems(3) c show ?case by auto
qed auto

lemma inline_args_ok:
  "pos \<le> i \<Longrightarrow> a \<in> set (inline_args buf i cr) \<Longrightarrow> pos \<le> a_start a \<and> a_start a \<le> a_end a \<and> a_end a \<le> cr"
proof (induction buf i cr rule: inline_args.induct)
  case (1 buf i cr)
  let ?s = "skip_while (\<lambda>c. c = 32) buf i cr"
  let ?e = "skip_while (\<lambda>c. c \<noteq> 32) buf ?s cr"
  have eq: "inline_args buf i cr = (if i < cr \<and> ?s < cr then \<lparr>a_start = ?s, a_end = ?e\<rparr> # inline_args buf ?e cr else [])"
    by (subst inline_args.simps) (simp add: Let_def)
  have lt: "i < cr \<and> ?s < cr" using 1(3) eq by (metis empty_iff list.set(1))
  then have a: "a = \<lparr>a_start = ?s, a_end = ?e\<rparr> \<or> a \<in> set (inline_args buf ?e cr)" using 1(3) eq by simp
  have b: "i \<le> ?s" "?s \<le> ?e" by (rule skip_while_ge)+
  have "?e \<le> cr" by (rule skip_while_le) (use lt in simp)
  moreover have "a \<in> set (inline_args buf ?e cr) \<Longrightarrow> pos \<le> a_start a \<and> a_start a \<le> a_end a \<and> a_end a \<le> cr"
    by (rule 1(1)) (use lt b 1(2) in auto)
  ultimately show ?case using a b 1(2) by auto
qed

lemma parse_command_ok:
  assumes "parse_command buf pos = Inr (Some (next, args))"
  shows "pos < next \<and> args_ok buf pos next args"
proof -
  have pos: "pos < length buf" using assms by (auto simp: parse_command_def split: if_splits)
  show ?thesis
  proof (cases "buf ! pos = 42")
    case True
    with assms pos obtain cr n where cr: "find_crlf buf (pos + 1) = Some cr"
      and b: "parse_bulks buf n (cr + 2) [] = Inr (Some (next, args))"
      by (auto simp: parse_command_def parse_array_def split: option.splits sum.splits if_splits)
    note c = find_crlf_Some [OF cr]
    have "cr + 2 \<le> next \<and> args_ok buf pos next args"
      by (rule parse_bulks_ok [OF b]) (use c in \<open>auto simp: args_ok_def\<close>)
    with c show ?thesis by auto
  next
    case False
    with assms pos obtain cr where cr: "find_crlf buf pos = Some cr" "next = cr + 2" "args = inline_args buf pos cr"
      by (auto simp: parse_command_def parse_inline_def split: option.splits)
    with find_crlf_Some [OF cr(1)] inline_args_ok [of pos pos _ buf cr] show ?thesis
      by (fastforce simp: args_ok_def)
  qed
qed

subsection \<open>Commands as clients send them\<close>

definition bulk :: "bytes \<Rightarrow> bytes" where
  "bulk d = [36] @ i64_fmt (int (length d)) @ CRLF @ d @ CRLF"

lemma write_bulk_eq: "write_bulk out d = out @ bulk d"
  by (simp add: write_bulk_def write_bulk_header_def write_i64_digits_def bulk_def)

definition encode_command :: "bytes list \<Rightarrow> bytes" where
  \<comment> \<open>an array of bulk strings, as written with \<open>write_array_header\<close> and \<open>write_bulk\<close>\<close>
  "encode_command args = foldl write_bulk (write_array_header [] (length args)) args"

lemma foldl_write_bulk: "foldl write_bulk out args = out @ concat (map bulk args)"
  by (induction args arbitrary: out) (simp_all add: write_bulk_eq)

lemma find_crlf_at:
  "CR \<notin> set x \<Longrightarrow> find_crlf (pre @ x @ CR # LF # post) (length pre) = Some (length pre + length x)"
proof (induction x arbitrary: pre)
  case Nil
  then show ?case by (subst find_crlf.simps) (simp add: nth_append)
next
  case (Cons a x)
  have "find_crlf ((pre @ [a]) @ x @ CR # LF # post) (length (pre @ [a])) = Some (length (pre @ [a]) + length x)"
    using Cons by (intro Cons.IH) simp
  with Cons.prems show ?case by (subst find_crlf.simps) (auto simp: nth_append)
qed

lemma CR_notin_fmt: "0 \<le> v \<Longrightarrow> CR \<notin> set (i64_fmt v)"
  using set_u64_digits [of CR "nat v"] by (auto simp: i64_fmt_def Let_def CR_def is_ascii_digit_def)

lemma parse_bulks_step:
  assumes "find_crlf buf (cur + 1) = Some cr" and "parse_int (slice_at buf (cur + 1) (cr - (cur + 1))) = Inr (int l)"
    and "cur < length buf" and "buf ! cur = 36" and "e = cr + 2 + l" and "e + 2 \<le> length buf"
    and "buf ! e = CR" and "buf ! (e + 1) = LF"
  shows "parse_bulks buf (Suc n) cur args = parse_bulks buf n (e + 2) (args @ [\<lparr>a_start = cr + 2, a_end = e\<rparr>])"
  using assms by (simp add: Let_def)

lemma parse_bulks_encode:
  assumes "\<forall>d \<in> set ds. int (length d) \<le> I64_MAX" and "buf = pre @ concat (map bulk ds) @ post"
  shows "\<exists>as. parse_bulks buf (length ds) (length pre) args =
      Inr (Some (length pre + length (concat (map bulk ds)), args @ as))
    \<and> map (\<lambda>a. arg_bytes a buf) as = ds"
  using assms
proof (induction ds arbitrary: pre args)
  case (Cons d ds)
  let ?n = "i64_fmt (int (length d))" and ?rest = "concat (map bulk ds) @ post"
  define cr where "cr = length pre + 1 + length ?n"
  define e where "e = cr + 2 + length d"
  let ?a = "\<lparr>a_start = cr + 2, a_end = e\<rparr>"
  have b1: "buf = (pre @ [36]) @ ?n @ CR # LF # (d @ CRLF @ ?rest)"
    using Cons.prems(2) by (simp add: bulk_def [of d] CRLF_def)
  have b2: "buf = (pre @ [36] @ ?n @ CRLF) @ d @ CRLF @ ?rest" using Cons.prems(2) by (simp add: bulk_def [of d])
  have b3: "buf = ((pre @ [36] @ ?n @ CRLF) @ d) @ CR # LF # ?rest" using b2 by (simp add: CRLF_def)
  have l1: "length (pre @ [36] @ ?n @ CRLF) = cr + 2" by (simp add: cr_def CRLF_def)
  then have l2: "length ((pre @ [36] @ ?n @ CRLF) @ d) = e" by (simp add: e_def)
  have l3: "length (pre @ bulk d) = e + 2" by (simp add: bulk_def CRLF_def e_def cr_def)
  have "find_crlf buf (length pre + 1) = Some cr"
    using find_crlf_at [OF CR_notin_fmt, of "int (length d)" "pre @ [36]" "d @ CRLF @ ?rest"]
    by (simp add: b1 cr_def)
  moreover have "parse_int (slice_at buf (length pre + 1) (cr - (length pre + 1))) = Inr (int (length d))"
    using Cons.prems(1) parse_int_fmt [of "int (length d)"] by (simp add: b1 cr_def slice_at_def)
  moreover have "length pre < length buf" "buf ! length pre = 36" by (simp_all add: b1 nth_append)
  moreover have "buf ! e = CR" "buf ! (e + 1) = LF" "e + 2 \<le> length buf"
    using nth_append [of "(pre @ [36] @ ?n @ CRLF) @ d" "CR # LF # ?rest"] l2 unfolding b3 by simp_all
  ultimately have st: "parse_bulks buf (Suc (length ds)) (length pre) args =
      parse_bulks buf (length ds) (e + 2) (args @ [?a])"
    by (intro parse_bulks_step) (simp_all add: e_def)
  have "slice_at buf (length (pre @ [36] @ ?n @ CRLF)) (length d) = d" by (simp add: b2 slice_at_def)
  then have arg: "arg_bytes ?a buf = d" unfolding l1 by (simp add: arg_bytes_def e_def)
  obtain as where "parse_bulks buf (length ds) (e + 2) (args @ [?a]) =
      Inr (Some (e + 2 + length (concat (map bulk ds)), (args @ [?a]) @ as))" "map (\<lambda>a. arg_bytes a buf) as = ds"
    using Cons.IH [of "pre @ bulk d" "args @ [?a]"] Cons.prems unfolding l3 by auto
  moreover have "e + 2 + length (concat (map bulk ds)) = length pre + length (concat (map bulk (d # ds)))"
    using l3 by simp
  ultimately show ?case
    using arg st by (intro exI [of _ "?a # as"]) simp
qed simp

lemma encode_command_eq:
  "encode_command args = [42] @ i64_fmt (int (length args)) @ CRLF @ concat (map bulk args)"
  by (simp add: encode_command_def foldl_write_bulk write_array_header_def write_i64_digits_def)

lemma parse_encode_command:
  assumes n: "length ds \<le> 1024 * 1024" and d: "\<forall>d \<in> set ds. int (length d) \<le> I64_MAX"
  shows "\<exists>as. parse_command (pre @ encode_command ds @ post) (length pre) =
      Inr (Some (length pre + length (encode_command ds), as))
    \<and> map (\<lambda>a. arg_bytes a (pre @ encode_command ds @ post)) as = ds"
proof -
  let ?n = "i64_fmt (int (length ds))" and ?buf = "pre @ encode_command ds @ post"
  let ?pre = "pre @ [42] @ ?n @ CRLF"
  have b1: "?buf = (pre @ [42]) @ ?n @ CR # LF # (concat (map bulk ds) @ post)"
    by (simp add: encode_command_eq CRLF_def)
  have b2: "?buf = ?pre @ concat (map bulk ds) @ post" by (simp add: encode_command_eq)
  let ?cr = "length pre + 1 + length ?n"
  have cr: "find_crlf ?buf (length pre + 1) = Some ?cr"
    using find_crlf_at [OF CR_notin_fmt, of "int (length ds)" "pre @ [42]" "concat (map bulk ds) @ post"]
    unfolding b1 [symmetric] by simp
  have sl: "slice_at ?buf (length pre + 1) (?cr - (length pre + 1)) = ?n" unfolding b1 by (simp add: slice_at_def)
  have "int (length ds) \<le> I64_MAX" using n by (simp add: I64_MAX_def)
  then have pi: "parse_int ?n = Inr (int (length ds))" by (intro parse_int_fmt) auto
  have lp: "length ?pre = ?cr + 2" by (simp add: CRLF_def)
  obtain as where as: "parse_bulks ?buf (length ds) (?cr + 2) [] =
      Inr (Some (?cr + 2 + length (concat (map bulk ds)), as))" "map (\<lambda>a. arg_bytes a ?buf) as = ds"
    using parse_bulks_encode [OF d b2, of "[]"] unfolding lp by auto
  have e: "?cr + 2 + length (concat (map bulk ds)) = length pre + length (encode_command ds)"
    by (simp add: encode_command_eq CRLF_def)
  have h: "?buf ! length pre = 42" "\<not> length ?buf \<le> length pre" by (simp_all add: encode_command_eq nth_append)
  have "parse_command ?buf (length pre) = parse_array ?buf (length pre)"
    unfolding parse_command_def by (simp only: h if_True if_False refl)
  also have "\<dots> = parse_bulks ?buf (length ds) (?cr + 2) []"
    unfolding parse_array_def cr option.case sl pi using n by simp
  finally show ?thesis using as unfolding e by metis
qed

subsection \<open>Properties\<close>

text \<open>C28: A verdict of the parser is final: once it accepts a command or reports an error, more
  bytes in the buffer do not change it. An accepted command is not empty, ends inside the buffer, and its
  argument ranges lie inside it in order of their bounds, so slicing them cannot panic.\<close>

theorem parse_command_stable:
  assumes "parse_command buf pos \<noteq> Inr None"
  shows "parse_command (buf @ suf) pos = parse_command buf pos
    \<and> (case parse_command buf pos of Inr (Some (next, args)) \<Rightarrow>
          pos < next \<and> next \<le> length buf
          \<and> list_all (\<lambda>a. pos \<le> a_start a \<and> a_start a \<le> a_end a \<and> a_end a + 2 \<le> next) args
        | _ \<Rightarrow> True)"
  using parse_command_mono [OF assms] parse_command_ok [of buf pos]
  by (auto simp: args_ok_def list_all_iff split: sum.splits option.splits)

theorem parse_command_stable_witness:
  "parse_command (str ''PING'' @ CRLF @ str ''*1'') 0 = parse_command (str ''PING'' @ CRLF) 0
   \<and> parse_command (str ''PING'' @ CRLF) 0 \<noteq> Inr None"
proof -
  have f: "find_crlf (str ''PING'' @ CRLF) 0 = Some 4" by code_simp
  then have "parse_command (str ''PING'' @ CRLF) 0 \<noteq> Inr None"
    by (simp add: parse_command_def parse_inline_def CRLF_def)
  with parse_command_stable [OF this, of "str ''*1''"] show ?thesis by simp
qed

text \<open>C29: Whatever stands before and after it in the buffer, a command written as an array of
  bulk strings parses to exactly its arguments, which may hold any bytes, and ends where its
  encoding ends.\<close>

theorem command_roundtrip:
  assumes "length ds \<le> 1024 * 1024" and "\<forall>d \<in> set ds. int (length d) \<le> I64_MAX"
  shows "\<exists>as. parse_command (pre @ encode_command ds @ post) (length pre) =
      Inr (Some (length pre + length (encode_command ds), as))
    \<and> map (\<lambda>a. arg_bytes a (pre @ encode_command ds @ post)) as = ds"
  by (rule parse_encode_command [OF assms])

theorem command_roundtrip_witness:
  "\<exists>as. parse_command ([1, 2] @ encode_command [str ''GET'', [13, 10, 0]] @ [42]) 2 =
      Inr (Some (2 + length (encode_command [str ''GET'', [13, 10, 0]]), as))
    \<and> map (\<lambda>a. arg_bytes a ([1, 2] @ encode_command [str ''GET'', [13, 10, 0]] @ [42])) as = [str ''GET'', [13, 10, 0]]"
  using command_roundtrip [of "[str ''GET'', [13, 10, 0]]" "[1, 2]" "[42]"]
  by (simp add: I64_MAX_def numeral_2_eq_2)

text \<open>Every 64-bit integer is formatted within the 20-byte buffer, in the length that
  \<open>i64_digit_len\<close> announces, and parses back to itself as a command argument.\<close>

theorem i64_text_roundtrip:
  assumes "is_i64 v"
  shows "length (i64_fmt v) = i64_digit_len v \<and> i64_digit_len v \<le> 20 \<and> parse_i64 (i64_fmt v) = Some v"
  using length_i64_fmt [OF assms] parse_i64_fmt [OF assms] by simp

theorem i64_text_roundtrip_witness:
  "length (i64_fmt (- (2 ^ 63))) \<le> 20 \<and> parse_i64 (i64_fmt (- (2 ^ 63))) = Some (- (2 ^ 63))"
  using i64_text_roundtrip [of "- (2 ^ 63)"] by (simp add: is_i64_def I64_MIN_def I64_MAX_def)

end
