(* ===== verification/StringFunctions.thy ===== *)
theory StringFunctions
  imports SessionFunctions Resp
begin

text \<open>
  The RESP string type as callbacks of the store (\<^verbatim>\<open>functions.rs\<close>). A callback gets the field view of
  the record it may read or write and returns the record it leaves behind; \<open>None\<close> is a panic (a slice
  outside the value area). Results of an in-place update and of the copy decision are the enumerations of
  \<^verbatim>\<open>store.rs\<close>.
\<close>

datatype StringOp =
    Get | GetRange int int | Strlen | Ttl bool
  | Set | SetKeepTtl | SetNx | SetXx | SetGet bool
  | IncrBy | Append | SetRange nat | GetDel | GetEx | Exists | Expire | Persist

record StringInput =
  i_op :: StringOp
  i_operand :: bytes
  i_delta :: int
  i_expiration :: int
  i_now_ms :: int

definition input_simple :: "StringOp \<Rightarrow> bytes \<Rightarrow> int \<Rightarrow> StringInput" where
  "input_simple op operand now = \<lparr>i_op = op, i_operand = operand, i_delta = 0, i_expiration = 0, i_now_ms = now\<rparr>"

definition input_read :: "StringOp \<Rightarrow> int \<Rightarrow> StringInput" where
  "input_read op now = input_simple op [] now"

record StringOutput =
  o_bytes :: bytes
  o_has_bytes :: bool
  o_int :: int
  o_has_int :: bool

definition output_default :: StringOutput where
  "output_default = \<lparr>o_bytes = [], o_has_bytes = False, o_int = 0, o_has_int = False\<rparr>"

definition set_bytes :: "StringOutput \<Rightarrow> bytes \<Rightarrow> StringOutput" where
  "set_bytes out b = out\<lparr>o_bytes := b, o_has_bytes := True\<rparr>"

definition set_int :: "StringOutput \<Rightarrow> int \<Rightarrow> StringOutput" where
  "set_int out v = out\<lparr>o_int := v, o_has_int := True\<rparr>"

definition expired :: "rec \<Rightarrow> int \<Rightarrow> bool" where
  "expired r now \<longleftrightarrow> has_expiration_slot r \<and> expiration r \<noteq> 0 \<and> expiration r \<le> now"

definition range_bounds :: "int \<Rightarrow> int \<Rightarrow> nat \<Rightarrow> nat \<times> nat" where
  "range_bounds start end l =
     (let len = int l;
          norm = (\<lambda>i. if i < 0 then max (len + i) 0 else min i len);
          s = norm start;
          e = (if end < 0 then len + end else min end (len - 1))
      in if len = 0 \<or> s > e \<or> s \<ge> len then (0, 0) else (nat s, nat (min (e + 1) len)))"

definition i64_div :: "int \<Rightarrow> int \<Rightarrow> int" where
  \<comment> \<open>division of signed integers truncates; the divisor here is a positive literal\<close>
  "i64_div x d = (if x < 0 then - ((- x) div d) else x div d)"

subsection \<open>Read\<close>

definition reader :: "StringInput \<Rightarrow> rec \<Rightarrow> StringOutput \<Rightarrow> bool \<times> StringOutput" where
  "reader input r out =
     (if expired r (i_now_ms input) then (False, out)
      else (case i_op input of
          GetRange start end \<Rightarrow>
            (let (s, e) = range_bounds start end (r_value_len r)
             in (True, set_bytes out (slice_at (r_value r) s (e - s))))
        | Exists \<Rightarrow> (True, out)
        | Strlen \<Rightarrow> (True, set_int out (int (r_value_len r)))
        | Ttl ms \<Rightarrow>
            (let v = (if \<not> has_expiration_slot r \<or> expiration r = 0 then -1
                      else (let rem = max (i64_wrap (expiration r - i_now_ms input)) 0
                            in if ms then rem else i64_div (i64_wrap (rem + 999)) 1000))
             in (True, set_int out v))
        | _ \<Rightarrow> (True, set_bytes out (r_value r))))"

subsection \<open>Writing a value\<close>

definition write_val :: "rec \<Rightarrow> bytes \<Rightarrow> rec option" where
  "write_val r v = do { r \<leftarrow> write_buf r 0 v; Some (set_value_len r (length v)) }"

definition apply_ttl_in_place :: "rec \<Rightarrow> StringInput \<Rightarrow> bool \<times> rec" where
  "apply_ttl_in_place r input =
     (let given = (if i_expiration input \<noteq> 0 then set_expiration r (i_expiration input) else (True, r));
          replace = (if i_expiration input \<noteq> 0 then set_expiration r (i_expiration input)
                     else if has_expiration_slot r then set_expiration r 0 else (True, r))
      in case i_op input of
          SetKeepTtl \<Rightarrow> (True, r)
        | Set \<Rightarrow> replace | SetXx \<Rightarrow> replace | GetEx \<Rightarrow> replace
        | SetGet keep_ttl \<Rightarrow> if keep_ttl then (True, r) else replace
        | _ \<Rightarrow> given)"

subsection \<open>Upsert\<close>

definition upsert_size :: "bytes \<Rightarrow> StringInput \<Rightarrow> size_info" where
  "upsert_size key input =
     \<lparr>si_key_len = length key, si_value_cap = length (i_operand input), si_has_expiration = (i_expiration input \<noteq> 0)\<rparr>"

definition initial_writer :: "StringInput \<Rightarrow> rec \<Rightarrow> StringOutput \<Rightarrow> (rec \<times> StringOutput) option" where
  "initial_writer input r out =
     do { r \<leftarrow> write_val r (i_operand input);
          Some (if i_expiration input \<noteq> 0 then snd (set_expiration r (i_expiration input)) else r, out) }"

definition in_place_writer :: "StringInput \<Rightarrow> rec \<Rightarrow> StringOutput \<Rightarrow> (bool \<times> rec \<times> StringOutput) option" where
  "in_place_writer input r out =
     (let v = i_operand input in
      if r_value_cap r < length v then Some (False, r, out)
      else if has_expiration_slot r then
        do { r \<leftarrow> write_val (snd (set_expiration r (i_expiration input))) v; Some (True, r, out) }
      else if i_expiration input \<noteq> 0 then Some (False, r, out)
      else do { r \<leftarrow> write_val r v; Some (True, r, out) })"

subsection \<open>Read-modify-write\<close>

definition need_initial_update :: "StringInput \<Rightarrow> bool" where
  "need_initial_update input \<longleftrightarrow>
     (case i_op input of SetXx \<Rightarrow> False | GetDel \<Rightarrow> False | GetEx \<Rightarrow> False | Expire \<Rightarrow> False | Persist \<Rightarrow> False | _ \<Rightarrow> True)"

definition initial_size :: "bytes \<Rightarrow> StringInput \<Rightarrow> size_info" where
  "initial_size key input =
     \<lparr>si_key_len = length key,
      si_value_cap =
        (case i_op input of
           IncrBy \<Rightarrow> i64_digit_len (i_delta input)
         | SetRange offset \<Rightarrow> offset + length (i_operand input)
         | _ \<Rightarrow> length (i_operand input)),
      si_has_expiration = (i_expiration input \<noteq> 0)\<rparr>"

definition initial_updater :: "StringInput \<Rightarrow> rec \<Rightarrow> StringOutput \<Rightarrow> (rec \<times> StringOutput) option" where
  "initial_updater input r out =
     do { (r, out) \<leftarrow>
            (case i_op input of
               IncrBy \<Rightarrow>
                 do { r \<leftarrow> write_val r (i64_fmt (i_delta input)); Some (r, set_int out (i_delta input)) }
             | SetRange offset \<Rightarrow>
                 (let v = i_operand input in
                  do { r \<leftarrow> write_buf r 0 (replicate offset 0);
                       r \<leftarrow> write_buf r offset v;
                       Some (set_value_len r (offset + length v), set_int out (int (offset + length v))) })
             | Append \<Rightarrow>
                 do { r \<leftarrow> write_val r (i_operand input); Some (r, set_int out (int (length (i_operand input)))) }
             | SetGet _ \<Rightarrow>
                 do { r \<leftarrow> write_val r (i_operand input); Some (r, out\<lparr>o_has_bytes := False\<rparr>) }
             | _ \<Rightarrow> do { r \<leftarrow> write_val r (i_operand input); Some (r, out) });
          Some (if i_expiration input \<noteq> 0 then snd (set_expiration r (i_expiration input)) else r, out) }"

definition in_place_set :: "StringInput \<Rightarrow> rec \<Rightarrow> StringOutput \<Rightarrow> (InPlaceResult \<times> rec \<times> StringOutput) option" where
  \<comment> \<open>the arm for \<open>SetXx\<close>, \<open>Set\<close>, \<open>SetKeepTtl\<close> and \<open>SetGet\<close>\<close>
  "in_place_set input r out =
     (let v = i_operand input in
      if r_value_cap r < length v then Some (NeedCopy, r, out)
      else
        (let out = (case i_op input of SetGet _ \<Rightarrow> set_bytes out (r_value r) | _ \<Rightarrow> out);
             (ok, r) = apply_ttl_in_place r input
         in if \<not> ok then Some (NeedCopy, r, out)
            else do { r \<leftarrow> write_val r v; Some (Updated, r, out) }))"

definition in_place_incr :: "StringInput \<Rightarrow> rec \<Rightarrow> StringOutput \<Rightarrow> (InPlaceResult \<times> rec \<times> StringOutput) option" where
  "in_place_incr input r out =
     (case parse_i64 (r_value r) of None \<Rightarrow> Some (Cancel, r, set_int out I64_MIN)
      | Some cur \<Rightarrow>
        (case i64_checked (cur + i_delta input) of None \<Rightarrow> Some (Cancel, r, set_int out I64_MIN)
         | Some n \<Rightarrow>
             if r_value_cap r < length (i64_fmt n) then Some (NeedCopy, r, out)
             else do { r \<leftarrow> write_val r (i64_fmt n); Some (Updated, r, set_int out n) }))"

definition in_place_updater :: "StringInput \<Rightarrow> rec \<Rightarrow> StringOutput \<Rightarrow> (InPlaceResult \<times> rec \<times> StringOutput) option" where
  "in_place_updater input r out =
     (if expired r (i_now_ms input) then Some (Expired, r, out)
      else (case i_op input of
          SetNx \<Rightarrow> Some (Cancel, r, out)
        | SetXx \<Rightarrow> in_place_set input r out
        | Set \<Rightarrow> in_place_set input r out
        | SetKeepTtl \<Rightarrow> in_place_set input r out
        | SetGet _ \<Rightarrow> in_place_set input r out
        | IncrBy \<Rightarrow> in_place_incr input r out
        | Append \<Rightarrow>
            (let v = i_operand input; n = r_value_len r + length v in
             if r_value_cap r < n then Some (NeedCopy, r, out)
             else do { r' \<leftarrow> write_buf r (r_value_len r) v; Some (Updated, set_value_len r' n, set_int out (int n)) })
        | SetRange offset \<Rightarrow>
            (let v = i_operand input; n = max (offset + length v) (r_value_len r); old_len = r_value_len r in
             if r_value_cap r < n then Some (NeedCopy, r, out)
             else do { r \<leftarrow> (if offset > old_len then write_buf r old_len (replicate (offset - old_len) 0) else Some r);
                       r \<leftarrow> write_buf r offset v;
                       Some (Updated, set_value_len r n, set_int out (int n)) })
        | GetDel \<Rightarrow> Some (Delete, r, set_bytes out (r_value r))
        | GetEx \<Rightarrow>
            (let out = set_bytes out (r_value r); (ok, r) = apply_ttl_in_place r input
             in Some (if ok then Updated else NeedCopy, r, out))
        | Expire \<Rightarrow>
            if has_expiration_slot r
            then Some (Updated, snd (set_expiration r (i_expiration input)), set_int out 1)
            else Some (NeedCopy, r, out)
        | Persist \<Rightarrow>
            if has_expiration_slot r \<and> expiration r \<noteq> 0
            then Some (Updated, snd (set_expiration r 0), set_int out 1)
            else Some (Cancel, r, set_int out 0)
        | _ \<Rightarrow> Some (NeedCopy, r, out)))"

definition need_copy_update :: "StringInput \<Rightarrow> rec \<Rightarrow> StringOutput \<Rightarrow> CopyDecision \<times> StringOutput" where
  "need_copy_update input old out =
     (if expired old (i_now_ms input) then
        (case i_op input of
           Set \<Rightarrow> CopyRecord | SetKeepTtl \<Rightarrow> CopyRecord | SetNx \<Rightarrow> CopyRecord | IncrBy \<Rightarrow> CopyRecord
         | Append \<Rightarrow> CopyRecord | SetRange _ \<Rightarrow> CopyRecord | GetEx \<Rightarrow> CopyRecord | _ \<Rightarrow> CancelCopy, out)
      else (case i_op input of
          SetNx \<Rightarrow> (CancelCopy, out)
        | IncrBy \<Rightarrow>
            (case Option.bind (parse_i64 (r_value old)) (\<lambda>cur. i64_checked (cur + i_delta input)) of
               Some _ \<Rightarrow> (CopyRecord, out) | None \<Rightarrow> (CancelCopy, out))
        | GetDel \<Rightarrow> (DeleteRecord, set_bytes out (r_value old))
        | Expire \<Rightarrow> (CopyRecord, set_int out 1)
        | _ \<Rightarrow> (CopyRecord, out)))"

definition incr_copy_value :: "StringInput \<Rightarrow> rec \<Rightarrow> int" where
  "incr_copy_value input old =
     (let old_expired = expired old (i_now_ms input);
          old_val = (if old_expired then [] else r_value old);
          cur = (if old_expired then 0 else (case parse_i64 old_val of Some c \<Rightarrow> c | None \<Rightarrow> 0))
      in i64_wrap (cur + i_delta input))"

definition copy_size :: "bytes \<Rightarrow> StringInput \<Rightarrow> rec \<Rightarrow> size_info" where
  "copy_size key input old =
     (let old_val = (if expired old (i_now_ms input) then [] else r_value old) in
      \<lparr>si_key_len = length key,
       si_value_cap =
         (case i_op input of
            IncrBy \<Rightarrow> i64_digit_len (incr_copy_value input old)
          | Append \<Rightarrow> length old_val + length (i_operand input)
          | SetRange offset \<Rightarrow> max (offset + length (i_operand input)) (length old_val)
          | GetEx \<Rightarrow> length old_val | Expire \<Rightarrow> length old_val | Persist \<Rightarrow> length old_val
          | _ \<Rightarrow> length (i_operand input)),
       si_has_expiration =
         (case i_op input of
            Persist \<Rightarrow> False
          | Set \<Rightarrow> i_expiration input \<noteq> 0
          | _ \<Rightarrow> i_expiration input \<noteq> 0 \<or> (has_expiration_slot old \<and> expiration old \<noteq> 0))\<rparr>)"

definition copy_ttl :: "StringInput \<Rightarrow> rec \<Rightarrow> int" where
  \<comment> \<open>the expiration of the new record, when it has the slot\<close>
  "copy_ttl input old =
     (let carry_ttl = has_expiration_slot old \<and> expiration old \<noteq> 0 \<and> \<not> expired old (i_now_ms input) in
      case i_op input of
        Set \<Rightarrow> i_expiration input | Expire \<Rightarrow> i_expiration input | GetEx \<Rightarrow> i_expiration input
      | Persist \<Rightarrow> 0
      | _ \<Rightarrow> if i_expiration input \<noteq> 0 then i_expiration input else if carry_ttl then expiration old else 0)"

definition copy_updater :: "StringInput \<Rightarrow> rec \<Rightarrow> rec \<Rightarrow> StringOutput \<Rightarrow> (rec \<times> StringOutput) option" where
  "copy_updater input old new out =
     (let old_val = (if expired old (i_now_ms input) then [] else r_value old) in
      do { (new, out) \<leftarrow>
             (case i_op input of
                IncrBy \<Rightarrow>
                  (let n = incr_copy_value input old in
                   do { new \<leftarrow> write_val new (i64_fmt n); Some (new, set_int out n) })
              | Append \<Rightarrow>
                  (let appended = i_operand input; new_len = length old_val + length appended in
                   do { new \<leftarrow> write_buf new 0 old_val;
                        new \<leftarrow> write_buf new (length old_val) appended;
                        Some (set_value_len new new_len, set_int out (int new_len)) })
              | SetRange offset \<Rightarrow>
                  (let v = i_operand input; n = max (offset + length v) (length old_val) in
                   do { new \<leftarrow> write_buf new 0 (replicate n 0);
                        new \<leftarrow> write_buf new 0 old_val;
                        new \<leftarrow> write_buf new offset v;
                        Some (set_value_len new n, set_int out (int n)) })
              | SetGet _ \<Rightarrow>
                  do { new \<leftarrow> write_val new (i_operand input); Some (new, set_bytes out old_val) }
              | GetEx \<Rightarrow> do { new \<leftarrow> write_val new old_val; Some (new, set_bytes out old_val) }
              | Expire \<Rightarrow> do { new \<leftarrow> write_val new old_val; Some (new, out) }
              | Persist \<Rightarrow> do { new \<leftarrow> write_val new old_val; Some (new, set_int out 1) }
              | _ \<Rightarrow> do { new \<leftarrow> write_val new (i_operand input); Some (new, out) });
           Some (if has_expiration_slot new then snd (set_expiration new (copy_ttl input old)) else new, out) })"

subsection \<open>The callbacks as a record\<close>

definition string_functions :: "(StringInput, StringOutput) session_functions" where
  "string_functions =
     \<lparr>f_reader = \<lambda>key. reader,
      f_upsert_size = upsert_size,
      f_initial_writer = \<lambda>key. initial_writer,
      f_in_place_writer = \<lambda>key. in_place_writer,
      f_need_initial_update = \<lambda>key i out. (need_initial_update i, out),
      f_initial_size = initial_size,
      f_initial_updater = \<lambda>key. initial_updater,
      f_in_place_updater = \<lambda>key. in_place_updater,
      f_need_copy_update = \<lambda>key. need_copy_update,
      f_copy_size = copy_size,
      f_copy_updater = \<lambda>key. copy_updater\<rparr>"

lemma string_functions_simps [simp]:
  "f_reader string_functions key = reader" "f_upsert_size string_functions = upsert_size"
  "f_initial_writer string_functions key = initial_writer" "f_in_place_writer string_functions key = in_place_writer"
  "f_need_initial_update string_functions key i out = (need_initial_update i, out)" "f_initial_size string_functions = initial_size"
  "f_initial_updater string_functions key = initial_updater" "f_in_place_updater string_functions key = in_place_updater"
  "f_need_copy_update string_functions key = need_copy_update" "f_copy_size string_functions = copy_size"
  "f_copy_updater string_functions key = copy_updater"
  by (simp_all add: string_functions_def)

subsection \<open>The value area\<close>

text \<open>What every callback keeps of a record it writes: header, key, capacity and slot.\<close>

definition same_shape :: "rec \<Rightarrow> rec \<Rightarrow> bool" where
  "same_shape r r' \<longleftrightarrow> r_info r' = r_info r \<and> r_key r' = r_key r \<and> r_value_cap r' = r_value_cap r
     \<and> has_expiration_slot r' = has_expiration_slot r"

lemma same_shape_refl [simp]: "same_shape r r"
  by (simp add: same_shape_def)

lemma same_shape_trans: "same_shape r s \<Longrightarrow> same_shape s t \<Longrightarrow> same_shape r t"
  by (simp add: same_shape_def)

lemma write_buf_Some:
  assumes "i + length v \<le> r_value_cap r"
  shows "write_buf r i v = Some (r\<lparr>r_buf := splice_at (r_buf r) i v\<rparr>)"
    and "same_shape r (r\<lparr>r_buf := splice_at (r_buf r) i v\<rparr>)"
    and "r_exp (r\<lparr>r_buf := splice_at (r_buf r) i v\<rparr>) = r_exp r"
  using assms by (auto simp: write_buf_def same_shape_def r_value_cap_def has_expiration_slot_def)

lemma write_val_Some:
  assumes "length v \<le> r_value_cap r"
  obtains r' where "write_val r v = Some r'" and "same_shape r r'" and "r_value r' = v" and "r_exp r' = r_exp r"
    and "r_value_len r' \<le> r_value_cap r'"
proof
  let ?r' = "set_value_len (r\<lparr>r_buf := splice_at (r_buf r) 0 v\<rparr>) (length v)"
  show "write_val r v = Some ?r'" using assms by (simp add: write_val_def write_buf_Some)
  show "same_shape r ?r'" "r_value ?r' = v" "r_exp ?r' = r_exp r" "r_value_len ?r' \<le> r_value_cap ?r'"
    using assms
    by (auto simp: same_shape_def set_value_len_def r_value_cap_def has_expiration_slot_def r_value_def splice_at_def)
qed

lemma set_expiration_shape:
  shows "same_shape r (snd (set_expiration r ts))" and "r_value (snd (set_expiration r ts)) = r_value r"
    and "r_value_len (snd (set_expiration r ts)) = r_value_len r"
    and "fst (set_expiration r ts) = has_expiration_slot r"
    and "\<not> has_expiration_slot r \<Longrightarrow> snd (set_expiration r ts) = r"
    and "has_expiration_slot r \<Longrightarrow> r_exp (snd (set_expiration r ts)) = Some ts"
  by (auto simp: set_expiration_def same_shape_def r_value_cap_def has_expiration_slot_def r_value_def split: option.splits)

lemma apply_ttl_shape:
  shows "same_shape r (snd (apply_ttl_in_place r input))" and "r_value (snd (apply_ttl_in_place r input)) = r_value r"
    and "r_value_len (snd (apply_ttl_in_place r input)) = r_value_len r"
    and "\<not> fst (apply_ttl_in_place r input) \<Longrightarrow> snd (apply_ttl_in_place r input) = r"
    and "r_exp (snd (apply_ttl_in_place r input)) \<in> {r_exp r, Some (i_expiration input), Some 0}"
proof -
  have "apply_ttl_in_place r input \<in> {(True, r), set_expiration r (i_expiration input), set_expiration r 0}
      \<and> (apply_ttl_in_place r input = set_expiration r 0 \<longrightarrow>
          has_expiration_slot r \<or> apply_ttl_in_place r input \<in> {(True, r), set_expiration r (i_expiration input)})"
    by (auto simp: apply_ttl_in_place_def Let_def split: StringOp.splits)
  then consider "apply_ttl_in_place r input = (True, r)"
    | "apply_ttl_in_place r input = set_expiration r (i_expiration input)"
    | "apply_ttl_in_place r input = set_expiration r 0" "has_expiration_slot r" by auto
  then show "same_shape r (snd (apply_ttl_in_place r input))" "r_value (snd (apply_ttl_in_place r input)) = r_value r"
    "r_value_len (snd (apply_ttl_in_place r input)) = r_value_len r"
    "\<not> fst (apply_ttl_in_place r input) \<Longrightarrow> snd (apply_ttl_in_place r input) = r"
    "r_exp (snd (apply_ttl_in_place r input)) \<in> {r_exp r, Some (i_expiration input), Some 0}"
    by (cases; use set_expiration_shape [of r "i_expiration input"] set_expiration_shape [of r 0] in
        \<open>auto simp: has_expiration_slot_def set_expiration_def split: option.splits\<close>)+
qed

subsection \<open>What a modification does to the value\<close>

definition overlay :: "bytes \<Rightarrow> nat \<Rightarrow> bytes \<Rightarrow> bytes" where
  \<comment> \<open>\<open>v\<close> written over \<open>old\<close> from \<open>offset\<close> on, with zeros in a gap\<close>
  "overlay old offset v = take offset (old @ replicate (offset - length old) 0) @ v @ drop (offset + length v) old"

definition incr_base :: "bytes \<Rightarrow> int" where
  "incr_base old = (case parse_i64 old of Some c \<Rightarrow> c | None \<Rightarrow> 0)"

definition rmw_value :: "StringInput \<Rightarrow> bytes \<Rightarrow> bytes" where
  "rmw_value input old =
     (case i_op input of
        IncrBy \<Rightarrow> i64_fmt (i64_wrap (incr_base old + i_delta input))
      | Append \<Rightarrow> old @ i_operand input
      | SetRange offset \<Rightarrow> overlay old offset (i_operand input)
      | GetEx \<Rightarrow> old | Expire \<Rightarrow> old | Persist \<Rightarrow> old
      | _ \<Rightarrow> i_operand input)"

definition rmw_int :: "StringInput \<Rightarrow> bytes \<Rightarrow> int option" where
  \<comment> \<open>the integer reply that goes with it\<close>
  "rmw_int input old =
     (case i_op input of
        IncrBy \<Rightarrow> Some (i64_wrap (incr_base old + i_delta input))
      | Append \<Rightarrow> Some (int (length (rmw_value input old)))
      | SetRange _ \<Rightarrow> Some (int (length (rmw_value input old)))
      | _ \<Rightarrow> None)"

lemma length_overlay: "length (overlay old offset v) = max (offset + length v) (length old)"
  by (auto simp: overlay_def)

lemma overlay_in_place:
  assumes "max (offset + length v) l \<le> length buf" and "l \<le> length buf"
  shows "take (max (offset + length v) l)
      (splice_at (if l < offset then splice_at buf l (replicate (offset - l) 0) else buf) offset v) =
    overlay (take l buf) offset v"
proof (rule nth_equalityI)
  let ?b = "if l < offset then splice_at buf l (replicate (offset - l) 0) else buf"
  have lb: "length ?b = length buf" using assms by auto
  show "length (take (max (offset + length v) l) (splice_at ?b offset v)) = length (overlay (take l buf) offset v)"
    using assms lb by (simp add: length_overlay)
  fix i assume "i < length (take (max (offset + length v) l) (splice_at ?b offset v))"
  then have i: "i < max (offset + length v) l" "i < length buf" using assms lb by auto
  have "splice_at ?b offset v ! i = (if offset \<le> i \<and> i < offset + length v then v ! (i - offset) else ?b ! i)"
    using assms lb i by (intro nth_splice) auto
  moreover have "?b ! i = (if l \<le> i \<and> i < offset then 0 else buf ! i)"
    using assms i by (auto simp: nth_splice)
  ultimately show "take (max (offset + length v) l) (splice_at ?b offset v) ! i = overlay (take l buf) offset v ! i"
    using i assms by (auto simp: overlay_def nth_append min_def)
qed

subsection \<open>The in-place path\<close>

definition in_place_post :: "StringInput \<Rightarrow> rec \<Rightarrow> InPlaceResult \<Rightarrow> rec \<Rightarrow> StringOutput \<Rightarrow> bool" where
  "in_place_post input r res r' out' \<longleftrightarrow>
     (if res = Updated
      then same_shape r r' \<and> r_value r' = rmw_value input (r_value r) \<and> r_value_len r' \<le> r_value_cap r'
        \<and> r_exp r' \<in> {r_exp r, Some (i_expiration input), Some 0}
        \<and> (case rmw_int input (r_value r) of None \<Rightarrow> True | Some n \<Rightarrow> o_int out' = n)
      else r' = r)"

lemma in_place_set_post:
  assumes "i_op input \<in> {Set, SetKeepTtl, SetXx} \<union> range SetGet"
  shows "\<exists>res r' out'. in_place_set input r out = Some (res, r', out') \<and> in_place_post input r res r' out'"
proof (cases "r_value_cap r < length (i_operand input)")
  case True
  then show ?thesis by (simp add: in_place_set_def in_place_post_def)
next
  case False
  obtain ok r1 where t: "apply_ttl_in_place r input = (ok, r1)" by (cases "apply_ttl_in_place r input")
  note sh = apply_ttl_shape [of r input, unfolded t fst_conv snd_conv]
  have "length (i_operand input) \<le> r_value_cap r1" using False sh(1) by (simp add: same_shape_def)
  then obtain r2 where w: "write_val r1 (i_operand input) = Some r2" "same_shape r1 r2" "r_value r2 = i_operand input"
    "r_exp r2 = r_exp r1" "r_value_len r2 \<le> r_value_cap r2" by (rule write_val_Some)
  have "rmw_value input (r_value r) = i_operand input" "rmw_int input (r_value r) = None"
    using assms by (auto simp: rmw_value_def rmw_int_def)
  then show ?thesis
    using False t sh w same_shape_trans [OF sh(1) w(2)]
    by (auto simp: in_place_set_def in_place_post_def Let_def)
qed

lemma in_place_incr_post:
  assumes "i_op input = IncrBy"
  shows "\<exists>res r' out'. in_place_incr input r out = Some (res, r', out') \<and> in_place_post input r res r' out'"
proof (cases "parse_i64 (r_value r)")
  case None
  then show ?thesis by (simp add: in_place_incr_def in_place_post_def)
next
  case (Some cur)
  show ?thesis
  proof (cases "is_i64 (cur + i_delta input) \<and> length (i64_fmt (cur + i_delta input)) \<le> r_value_cap r")
    case True
    from True obtain r' where w: "write_val r (i64_fmt (cur + i_delta input)) = Some r'" "same_shape r r'"
      "r_value r' = i64_fmt (cur + i_delta input)" "r_exp r' = r_exp r" "r_value_len r' \<le> r_value_cap r'"
      using write_val_Some by metis
    with True Some assms show ?thesis
      by (auto simp: in_place_incr_def in_place_post_def i64_checked_def rmw_value_def rmw_int_def incr_base_def set_int_def)
  next
    case False
    with Some show ?thesis by (auto simp: in_place_incr_def in_place_post_def i64_checked_def)
  qed
qed

lemma in_place_append_post:
  assumes wf: "r_value_len r \<le> r_value_cap r" and fits: "r_value_len r + length v \<le> r_value_cap r"
  shows "\<exists>r'. write_buf r (r_value_len r) v = Some r' \<and> same_shape r (set_value_len r' (r_value_len r + length v))
    \<and> r_value (set_value_len r' (r_value_len r + length v)) = r_value r @ v \<and> r_exp r' = r_exp r
    \<and> r_value_cap r' = r_value_cap r"
  using assms write_buf_Some [OF fits]
  by (auto simp: r_value_def set_value_len_def splice_at_def r_value_cap_def same_shape_def has_expiration_slot_def)

lemma in_place_setrange_post:
  assumes wf: "r_value_len r \<le> r_value_cap r" and fits: "max (offset + length v) (r_value_len r) \<le> r_value_cap r"
  shows "\<exists>r'. do { r \<leftarrow> (if offset > r_value_len r then write_buf r (r_value_len r) (replicate (offset - r_value_len r) 0) else Some r);
        write_buf r offset v } = Some r'
    \<and> same_shape r r' \<and> r_value (set_value_len r' (max (offset + length v) (r_value_len r))) = overlay (r_value r) offset v
    \<and> r_exp r' = r_exp r"
proof -
  let ?l = "r_value_len r" and ?b = "r_buf r"
  let ?b1 = "if ?l < offset then splice_at ?b ?l (replicate (offset - ?l) 0) else ?b"
  have l: "length ?b1 = length ?b" using fits by (auto simp: r_value_cap_def)
  have "(if offset > ?l then write_buf r ?l (replicate (offset - ?l) 0) else Some r) = Some (r\<lparr>r_buf := ?b1\<rparr>)"
    using fits by (simp add: write_buf_def r_value_cap_def)
  moreover have "write_buf (r\<lparr>r_buf := ?b1\<rparr>) offset v = Some (r\<lparr>r_buf := splice_at ?b1 offset v\<rparr>)"
    using fits l by (simp add: write_buf_def r_value_cap_def)
  moreover have "r_value (set_value_len (r\<lparr>r_buf := splice_at ?b1 offset v\<rparr>) (max (offset + length v) ?l))
      = overlay (r_value r) offset v"
    using overlay_in_place [of offset v ?l ?b] fits wf by (simp add: r_value_def set_value_len_def r_value_cap_def)
  ultimately show ?thesis
    using fits l by (auto simp: same_shape_def r_value_cap_def has_expiration_slot_def)
qed

lemma in_place_append:
  assumes wf: "r_value_len r \<le> r_value_cap r" and op: "i_op input = Append" and ne: "\<not> expired r (i_now_ms input)"
  shows "\<exists>res r' out'. in_place_updater input r out = Some (res, r', out') \<and> in_place_post input r res r' out'"
proof (cases "r_value_cap r < r_value_len r + length (i_operand input)")
  case True
  then show ?thesis using ne op by (simp add: in_place_updater_def in_place_post_def)
next
  case fits: False
  let ?n = "r_value_len r + length (i_operand input)"
  from fits have "?n \<le> r_value_cap r" by simp
  from in_place_append_post [OF wf this]
  obtain r' where w: "write_buf r (r_value_len r) (i_operand input) = Some r'" "same_shape r (set_value_len r' ?n)"
    "r_value (set_value_len r' ?n) = r_value r @ i_operand input" "r_exp r' = r_exp r" "r_value_cap r' = r_value_cap r"
    by blast
  have up: "in_place_updater input r out = Some (Updated, set_value_len r' ?n, set_int out (int ?n))"
    using ne fits op w(1) by (simp add: in_place_updater_def Let_def)
  have len: "length (r_value r) = r_value_len r" using wf by (simp add: r_value_def r_value_cap_def)
  have "in_place_post input r Updated (set_value_len r' ?n) (set_int out (int ?n))"
    unfolding in_place_post_def using op w fits len
    by (simp add: rmw_value_def rmw_int_def set_int_def) (simp add: set_value_len_def r_value_cap_def)
  with up show ?thesis by blast
qed

lemma in_place_setrange:
  assumes wf: "r_value_len r \<le> r_value_cap r" and op: "i_op input = SetRange offset" and ne: "\<not> expired r (i_now_ms input)"
  shows "\<exists>res r' out'. in_place_updater input r out = Some (res, r', out') \<and> in_place_post input r res r' out'"
proof (cases "r_value_cap r < max (offset + length (i_operand input)) (r_value_len r)")
  case True
  then show ?thesis using ne op by (simp add: in_place_updater_def in_place_post_def)
next
  case fits: False
  let ?n = "max (offset + length (i_operand input)) (r_value_len r)"
  let ?b = "do { r \<leftarrow> (if offset > r_value_len r then write_buf r (r_value_len r) (replicate (offset - r_value_len r) 0) else Some r);
      write_buf r offset (i_operand input) }"
  from fits have n: "?n \<le> r_value_cap r" by linarith
  from in_place_setrange_post [OF wf n] obtain r' where w: "?b = Some r'"
    "same_shape r r'" "r_value (set_value_len r' ?n) = overlay (r_value r) offset (i_operand input)" "r_exp r' = r_exp r"
    by blast
  have "in_place_updater input r out = do { r' \<leftarrow> ?b; Some (Updated, set_value_len r' ?n, set_int out (int ?n)) }"
    using ne fits op by (simp add: in_place_updater_def Let_def Option.bind_assoc)
  then have up: "in_place_updater input r out = Some (Updated, set_value_len r' ?n, set_int out (int ?n))"
    unfolding w(1) by simp
  have sh: "same_shape r (set_value_len r' ?n)"
    using w(2) by (simp add: same_shape_def set_value_len_def r_value_cap_def has_expiration_slot_def)
  have len: "length (overlay (r_value r) offset (i_operand input)) = ?n"
    using wf by (simp add: length_overlay r_value_def r_value_cap_def)
  have "r_value_len (set_value_len r' ?n) \<le> r_value_cap (set_value_len r' ?n)"
    using n sh by (simp add: same_shape_def set_value_len_def)
  moreover have "r_exp (set_value_len r' ?n) = r_exp r" using w(4) by (simp add: set_value_len_def)
  ultimately have "in_place_post input r Updated (set_value_len r' ?n) (set_int out (int ?n))"
    unfolding in_place_post_def using op w(3) sh len by (simp add: rmw_value_def rmw_int_def set_int_def)
  with up show ?thesis by blast
qed

lemma in_place_ttl:
  assumes wf: "r_value_len r \<le> r_value_cap r" and op: "i_op input \<in> {GetEx, Expire, Persist}" and ne: "\<not> expired r (i_now_ms input)"
  shows "\<exists>res r' out'. in_place_updater input r out = Some (res, r', out') \<and> in_place_post input r res r' out'"
proof -
  note exp = set_expiration_shape [of r "i_expiration input"] set_expiration_shape [of r 0]
  have v: "rmw_value input (r_value r) = r_value r" "rmw_int input (r_value r) = None"
    using op by (auto simp: rmw_value_def rmw_int_def)
  have post: "in_place_post input r Updated r' out'" if "same_shape r r'" "r_value r' = r_value r"
    "r_value_len r' = r_value_len r" "r_exp r' \<in> {r_exp r, Some (i_expiration input), Some 0}" for r' out'
    using that wf v by (simp add: in_place_post_def same_shape_def)
  consider "i_op input = GetEx" | "i_op input = Expire" | "i_op input = Persist" using op by blast
  then show ?thesis
  proof cases
    case 1
    obtain ok r1 where t: "apply_ttl_in_place r input = (ok, r1)" by (cases "apply_ttl_in_place r input")
    note sh = apply_ttl_shape [of r input, unfolded t fst_conv snd_conv]
    show ?thesis
      using 1 ne t sh post [of r1] by (cases ok) (simp_all add: in_place_updater_def in_place_post_def)
  next
    case 2
    show ?thesis
    proof (cases "has_expiration_slot r")
      case True
      then show ?thesis using 2 ne exp post [of "snd (set_expiration r (i_expiration input))"] by (simp add: in_place_updater_def)
    qed (use 2 ne in \<open>simp add: in_place_updater_def in_place_post_def\<close>)
  next
    case 3
    show ?thesis
    proof (cases "has_expiration_slot r \<and> expiration r \<noteq> 0")
      case True
      then show ?thesis using 3 ne exp post [of "snd (set_expiration r 0)"] by (simp add: in_place_updater_def)
    next
      case False
      then show ?thesis using 3 ne by (auto simp: in_place_updater_def in_place_post_def)
    qed
  qed
qed

lemma in_place_updater_post:
  assumes wf: "r_value_len r \<le> r_value_cap r"
  shows "\<exists>res r' out'. in_place_updater input r out = Some (res, r', out') \<and> in_place_post input r res r' out'"
proof (cases "expired r (i_now_ms input)")
  case True
  then show ?thesis by (simp add: in_place_updater_def in_place_post_def)
next
  case False
  consider (app) "i_op input = Append" | (rng) offset where "i_op input = SetRange offset"
    | (ttl) "i_op input \<in> {GetEx, Expire, Persist}" | (incr) "i_op input = IncrBy"
    | (set) "i_op input \<in> {Set, SetKeepTtl, SetXx} \<union> range SetGet"
    | (none) "in_place_updater input r out = Some (NeedCopy, r, out) \<or> in_place_updater input r out = Some (Cancel, r, out)
        \<or> in_place_updater input r out = Some (Delete, r, set_bytes out (r_value r))"
    using False by (cases "i_op input") (simp_all add: in_place_updater_def)
  then show ?thesis
  proof cases
    case app then show ?thesis by (rule in_place_append [OF wf _ False])
  next
    case rng then show ?thesis by (rule in_place_setrange [OF wf _ False])
  next
    case ttl then show ?thesis by (rule in_place_ttl [OF wf _ False])
  next
    case incr
    then have "in_place_updater input r out = in_place_incr input r out" using False by (simp add: in_place_updater_def)
    then show ?thesis using in_place_incr_post [OF incr] by simp
  next
    case set
    then have "in_place_updater input r out = in_place_set input r out" using False by (auto simp: in_place_updater_def)
    then show ?thesis using in_place_set_post [OF set] by simp
  next
    case none then show ?thesis by (auto simp: in_place_post_def)
  qed
qed

subsection \<open>The initial and the copy path\<close>

lemma write_val_ttl:
  assumes "length v \<le> r_value_cap r"
  shows "\<exists>r'. write_val r v = Some r' \<and> same_shape r r' \<and> r_value r' = v \<and> r_exp r' = r_exp r
    \<and> r_value_len r' \<le> r_value_cap r'"
  using write_val_Some [OF assms] by metis

lemma write_two:
  assumes "length a \<le> r_value_cap r" and "i + length b \<le> r_value_cap r" and "n \<le> r_value_cap r"
  shows "\<exists>r'. do { r \<leftarrow> write_buf r 0 a; write_buf r i b } = Some r'
    \<and> same_shape r (set_value_len r' n) \<and> r_exp r' = r_exp r
    \<and> r_value (set_value_len r' n) = take n (splice_at (splice_at (r_buf r) 0 a) i b)
    \<and> r_buf r' = splice_at (splice_at (r_buf r) 0 a) i b"
  using assms by (auto simp: write_buf_def r_value_cap_def r_value_def set_value_len_def same_shape_def has_expiration_slot_def)

lemma splice_prefix: "length a \<le> length buf \<Longrightarrow> splice_at buf 0 a = a @ drop (length a) buf"
  by (simp add: splice_at_def)

lemma take_splice_append:
  assumes "length a + length b \<le> length buf"
  shows "take (length a + length b) (splice_at (splice_at buf 0 a) (length a) b) = a @ b"
  using assms by (simp add: splice_at_def)

lemma copy_overlay:
  assumes "n = max (offset + length v) (length old)" and "n \<le> length buf"
  shows "take n (splice_at (splice_at (splice_at buf 0 (replicate n 0)) 0 old) offset v) = overlay old offset v"
proof (rule nth_equalityI)
  let ?z = "splice_at buf 0 (replicate n 0)" let ?y = "splice_at ?z 0 old"
  have lz: "length ?z = length buf" and ly: "length ?y = length buf" using assms by auto
  show "length (take n (splice_at ?y offset v)) = length (overlay old offset v)"
    using assms ly by (simp add: length_overlay)
  fix i assume "i < length (take n (splice_at ?y offset v))"
  then have i: "i < n" "i < length buf" using assms ly by auto
  have "splice_at ?y offset v ! i = (if offset \<le> i \<and> i < offset + length v then v ! (i - offset) else ?y ! i)"
    using assms ly i by (intro nth_splice) auto
  moreover have "?y ! i = (if i < length old then old ! i else ?z ! i)"
    using assms lz i nth_splice [of 0 old ?z i] by auto
  moreover have "?z ! i = 0" using assms i nth_splice [of 0 "replicate n 0" buf i] by auto
  moreover have "min (length old) offset + (offset - length old) = offset" by simp
  ultimately show "take n (splice_at ?y offset v) ! i = overlay old offset v ! i"
    using i assms(1) by (auto simp: overlay_def nth_append)
qed

lemma copy_setrange:
  assumes "n = max (offset + length v) (length old)" and "n \<le> r_value_cap r"
  shows "\<exists>r'. do { r \<leftarrow> write_buf r 0 (replicate n 0); r \<leftarrow> write_buf r 0 old; write_buf r offset v } = Some r'
    \<and> same_shape r (set_value_len r' n) \<and> r_exp r' = r_exp r \<and> r_value (set_value_len r' n) = overlay old offset v"
  using assms copy_overlay [of n offset v old "r_buf r"]
  by (auto simp: write_buf_def r_value_cap_def r_value_def set_value_len_def same_shape_def has_expiration_slot_def)

definition fresh_post :: "StringInput \<Rightarrow> bytes \<Rightarrow> rec \<Rightarrow> rec \<Rightarrow> StringOutput \<Rightarrow> bool" where
  "fresh_post input old_val r r' out' \<longleftrightarrow>
     same_shape r r' \<and> r_value r' = rmw_value input old_val \<and> r_value_len r' \<le> r_value_cap r'
     \<and> (case rmw_int input old_val of None \<Rightarrow> True | Some n \<Rightarrow> o_int out' = n)"

lemma fresh_post_set_expiration:
  "fresh_post input v r r' out' \<Longrightarrow> fresh_post input v r (snd (set_expiration r' ts)) out'"
  using set_expiration_shape [of r' ts] by (auto simp: fresh_post_def same_shape_def)

lemma parse_i64_Nil [simp]: "parse_i64 [] = None"
  by (simp add: parse_i64_def i64_from_str_def trim_def)

text \<open>Operations that just write their operand into a new record.\<close>

fun plain_initial :: "StringOp \<Rightarrow> bool" where
  "plain_initial IncrBy = False"
| "plain_initial Append = False"
| "plain_initial (SetRange _) = False"
| "plain_initial (SetGet _) = False"
| "plain_initial _ = True"

lemma plain_initial_facts:
  assumes "plain_initial (i_op input)"
  shows "initial_updater input r out = do { r \<leftarrow> write_val r (i_operand input);
      Some (if i_expiration input \<noteq> 0 then snd (set_expiration r (i_expiration input)) else r, out) }"
    and "need_initial_update input \<Longrightarrow> rmw_value input old = i_operand input \<and> rmw_int input old = None"
    and "si_value_cap (initial_size key input) = length (i_operand input)"
  using assms
  by (cases "i_op input";
      simp add: initial_updater_def need_initial_update_def rmw_value_def rmw_int_def initial_size_def)+

lemma initial_updater_post:
  assumes need: "need_initial_update input" and cap: "r_value_cap r = si_value_cap (initial_size key input)"
    and delta: "is_i64 (i_delta input)"
  shows "\<exists>r' out'. initial_updater input r out = Some (r', out') \<and> fresh_post input [] r r' out'
    \<and> (has_expiration_slot r \<and> i_expiration input \<noteq> 0 \<longrightarrow> expiration r' = i_expiration input)"
proof -
  let ?body = "\<lambda>q. \<exists>r1 out1. q = Some (r1, out1) \<and> fresh_post input [] r r1 out1"
  have fin: ?thesis if "initial_updater input r out = Some (if i_expiration input \<noteq> 0
      then snd (set_expiration r1 (i_expiration input)) else r1, out1)" and p: "fresh_post input [] r r1 out1" for r1 out1
    using that fresh_post_set_expiration [OF p, of "i_expiration input"] set_expiration_shape(6) [of r1 "i_expiration input"]
    by (auto simp: expiration_def fresh_post_def same_shape_def)
  consider (IncrBy) "i_op input = IncrBy" | (SetRange) offset where "i_op input = SetRange offset"
    | (Append) "i_op input = Append" | (SetGet) k where "i_op input = SetGet k" | (plain) "plain_initial (i_op input)"
    by (cases "i_op input") auto
  then show ?thesis
  proof cases
    case IncrBy
    have "length (i64_fmt (i_delta input)) \<le> r_value_cap r"
      using cap IncrBy length_i64_fmt [OF delta] by (simp add: initial_size_def)
    from write_val_ttl [OF this] obtain r1 where w: "write_val r (i64_fmt (i_delta input)) = Some r1"
      "same_shape r r1" "r_value r1 = i64_fmt (i_delta input)" "r_value_len r1 \<le> r_value_cap r1" by blast
    show ?thesis
      by (rule fin [of r1 "set_int out (i_delta input)"])
         (use w IncrBy delta in \<open>auto simp: initial_updater_def fresh_post_def rmw_value_def rmw_int_def incr_base_def set_int_def\<close>)
  next
    case (SetRange offset)
    let ?v = "i_operand input" and ?n = "offset + length (i_operand input)"
    have c: "length (r_buf r) = ?n" using cap SetRange by (simp add: initial_size_def r_value_cap_def)
    obtain r1 where w: "do { r \<leftarrow> write_buf r 0 (replicate offset 0); write_buf r offset ?v } = Some r1"
      "same_shape r (set_value_len r1 ?n)" "r_value (set_value_len r1 ?n) = take ?n (splice_at (splice_at (r_buf r) 0 (replicate offset 0)) offset ?v)"
      using write_two [of "replicate offset 0" r offset ?v ?n] c by (auto simp: r_value_cap_def)
    have "r_value (set_value_len r1 ?n) = replicate offset 0 @ ?v"
      using w(3) take_splice_append [of "replicate offset 0" ?v "r_buf r"] c by simp
    then show ?thesis
      by (intro fin [of "set_value_len r1 ?n" "set_int out (int ?n)"])
         (use w SetRange c in \<open>auto simp: initial_updater_def fresh_post_def rmw_value_def rmw_int_def overlay_def
            set_int_def Let_def set_value_len_def same_shape_def r_value_cap_def split: bind_splits\<close>)
  next
    case Append
    have "length (i_operand input) \<le> r_value_cap r" using cap Append by (simp add: initial_size_def)
    from write_val_ttl [OF this] obtain r1 where w: "write_val r (i_operand input) = Some r1"
      "same_shape r r1" "r_value r1 = i_operand input" "r_value_len r1 \<le> r_value_cap r1" by blast
    show ?thesis
      by (rule fin [of r1 "set_int out (int (length (i_operand input)))"])
         (use w Append in \<open>auto simp: initial_updater_def fresh_post_def rmw_value_def rmw_int_def set_int_def\<close>)
  next
    case (SetGet k)
    have "length (i_operand input) \<le> r_value_cap r" using cap SetGet by (simp add: initial_size_def)
    from write_val_ttl [OF this] obtain r1 where w: "write_val r (i_operand input) = Some r1"
      "same_shape r r1" "r_value r1 = i_operand input" "r_value_len r1 \<le> r_value_cap r1" by blast
    show ?thesis
      by (rule fin [of r1 "out\<lparr>o_has_bytes := False\<rparr>"])
         (use w SetGet in \<open>auto simp: initial_updater_def fresh_post_def rmw_value_def rmw_int_def\<close>)
  next
    case plain
    note d = plain_initial_facts [OF plain]
    have "length (i_operand input) \<le> r_value_cap r" using cap d(3) by simp
    from write_val_ttl [OF this] obtain r1 where w: "write_val r (i_operand input) = Some r1"
      "same_shape r r1" "r_value r1 = i_operand input" "r_value_len r1 \<le> r_value_cap r1" by blast
    show ?thesis
      by (rule fin [of r1 out]) (use w need d in \<open>simp_all add: fresh_post_def\<close>)
  qed
qed

fun plain_copy :: "StringOp \<Rightarrow> bool" where
  "plain_copy IncrBy = False"
| "plain_copy Append = False"
| "plain_copy (SetRange _) = False"
| "plain_copy _ = True"

definition copy_out :: "StringInput \<Rightarrow> bytes \<Rightarrow> StringOutput \<Rightarrow> StringOutput" where
  "copy_out input old_val out =
     (case i_op input of SetGet _ \<Rightarrow> set_bytes out old_val | GetEx \<Rightarrow> set_bytes out old_val
      | Persist \<Rightarrow> set_int out 1 | _ \<Rightarrow> out)"

lemma copy_updater_plain:
  assumes "plain_copy (i_op input)" and v: "old_val = (if expired old (i_now_ms input) then [] else r_value old)"
  shows "copy_updater input old new out = do { new \<leftarrow> write_val new (rmw_value input old_val);
      Some (if has_expiration_slot new then snd (set_expiration new (copy_ttl input old)) else new, copy_out input old_val out) }"
  unfolding copy_updater_def v [symmetric] using assms(1)
  by (cases "i_op input") (simp_all add: rmw_value_def copy_out_def)

lemma plain_copy_facts:
  assumes "plain_copy (i_op input)"
  shows "rmw_int input old_val = None"
    and "si_value_cap (copy_size key input old) =
      length (rmw_value input (if expired old (i_now_ms input) then [] else r_value old))"
  using assms by (cases "i_op input"; simp add: rmw_value_def rmw_int_def copy_size_def Let_def)+

lemma incr_copy_value_eq:
  "incr_copy_value input old = i64_wrap (incr_base (if expired old (i_now_ms input) then [] else r_value old) + i_delta input)"
  by (simp add: incr_copy_value_def incr_base_def Let_def)

lemma copy_updater_post:
  fixes input old
  defines "old_val \<equiv> (if expired old (i_now_ms input) then [] else r_value old)"
  assumes cap: "r_value_cap new = si_value_cap (copy_size key input old)"
  shows "\<exists>new' out'. copy_updater input old new out = Some (new', out') \<and> fresh_post input old_val new new' out'
    \<and> (has_expiration_slot new \<longrightarrow> expiration new' = copy_ttl input old)"
proof -
  have fin: ?thesis if "copy_updater input old new out = Some (if has_expiration_slot r1
      then snd (set_expiration r1 (copy_ttl input old)) else r1, out1)" and p: "fresh_post input old_val new r1 out1" for r1 out1
    using that fresh_post_set_expiration [OF p, of "copy_ttl input old"] set_expiration_shape(6) [of r1 "copy_ttl input old"]
    by (auto simp: expiration_def fresh_post_def same_shape_def)
  consider (IncrBy) "i_op input = IncrBy" | (SetRange) offset where "i_op input = SetRange offset"
    | (Append) "i_op input = Append" | (plain) "plain_copy (i_op input)"
    by (cases "i_op input") auto
  then show ?thesis
  proof cases
    case IncrBy
    let ?n = "incr_copy_value input old"
    have "length (i64_fmt ?n) \<le> r_value_cap new"
      using cap IncrBy length_i64_fmt [of ?n] by (simp add: copy_size_def Let_def incr_copy_value_eq)
    from write_val_ttl [OF this] obtain r1 where w: "write_val new (i64_fmt ?n) = Some r1"
      "same_shape new r1" "r_value r1 = i64_fmt ?n" "r_value_len r1 \<le> r_value_cap r1" by blast
    show ?thesis
      by (rule fin [of r1 "set_int out ?n"])
         (use w IncrBy in \<open>auto simp: copy_updater_def fresh_post_def rmw_value_def rmw_int_def set_int_def Let_def
            incr_copy_value_eq old_val_def\<close>)
  next
    case (SetRange offset)
    let ?v = "i_operand input" and ?n = "max (offset + length (i_operand input)) (length old_val)"
    have c: "r_value_cap new = ?n" using cap SetRange by (simp add: copy_size_def Let_def old_val_def)
    from copy_setrange [OF refl, of offset ?v old_val new] c obtain r1 where
      w: "do { r \<leftarrow> write_buf new 0 (replicate ?n 0); r \<leftarrow> write_buf r 0 old_val; write_buf r offset ?v } = Some r1"
      "same_shape new (set_value_len r1 ?n)" "r_value (set_value_len r1 ?n) = overlay old_val offset ?v" by auto
    have "copy_updater input old new out = do { r1 \<leftarrow> do { r \<leftarrow> write_buf new 0 (replicate ?n 0); r \<leftarrow> write_buf r 0 old_val; write_buf r offset ?v };
        (let new = set_value_len r1 ?n in
         Some (if has_expiration_slot new then snd (set_expiration new (copy_ttl input old)) else new, set_int out (int ?n))) }"
      using SetRange by (simp add: copy_updater_def Let_def old_val_def Option.bind_assoc)
    then have up: "copy_updater input old new out = Some (if has_expiration_slot (set_value_len r1 ?n)
        then snd (set_expiration (set_value_len r1 ?n) (copy_ttl input old)) else set_value_len r1 ?n, set_int out (int ?n))"
      unfolding w(1) by (simp add: Let_def)
    have "r_value_len (set_value_len r1 ?n) \<le> r_value_cap (set_value_len r1 ?n)"
      using w(2) c by (simp add: same_shape_def set_value_len_def)
    then have "fresh_post input old_val new (set_value_len r1 ?n) (set_int out (int ?n))"
      using w SetRange by (simp add: fresh_post_def rmw_value_def rmw_int_def set_int_def length_overlay)
    with up show ?thesis by (intro fin)
  next
    case Append
    let ?v = "i_operand input" and ?n = "length old_val + length (i_operand input)"
    have c: "r_value_cap new = ?n" using cap Append by (simp add: copy_size_def Let_def old_val_def)
    obtain r1 where w: "do { r \<leftarrow> write_buf new 0 old_val; write_buf r (length old_val) ?v } = Some r1"
      "same_shape new (set_value_len r1 ?n)" "r_value (set_value_len r1 ?n) = take ?n (splice_at (splice_at (r_buf new) 0 old_val) (length old_val) ?v)"
      using write_two [of old_val new "length old_val" ?v ?n] c by auto
    have v: "r_value (set_value_len r1 ?n) = old_val @ ?v"
      using w(3) take_splice_append [of old_val ?v "r_buf new"] c by (simp add: r_value_cap_def)
    have "copy_updater input old new out = do { r1 \<leftarrow> do { r \<leftarrow> write_buf new 0 old_val; write_buf r (length old_val) ?v };
        (let new = set_value_len r1 ?n in
         Some (if has_expiration_slot new then snd (set_expiration new (copy_ttl input old)) else new, set_int out (int ?n))) }"
      using Append by (simp add: copy_updater_def Let_def old_val_def Option.bind_assoc)
    then have up: "copy_updater input old new out = Some (if has_expiration_slot (set_value_len r1 ?n)
        then snd (set_expiration (set_value_len r1 ?n) (copy_ttl input old)) else set_value_len r1 ?n, set_int out (int ?n))"
      unfolding w(1) by (simp add: Let_def)
    have "r_value_len (set_value_len r1 ?n) \<le> r_value_cap (set_value_len r1 ?n)"
      using w(2) c by (simp add: same_shape_def set_value_len_def)
    then have "fresh_post input old_val new (set_value_len r1 ?n) (set_int out (int ?n))"
      using w(2) v Append by (simp add: fresh_post_def rmw_value_def rmw_int_def set_int_def)
    with up show ?thesis by (intro fin)
  next
    case plain
    note d = plain_copy_facts [OF plain] and f = copy_updater_plain [OF plain old_val_def [THEN meta_eq_to_obj_eq], of new out]
    have "length (rmw_value input old_val) \<le> r_value_cap new" using cap d(2) by (simp add: old_val_def)
    from write_val_ttl [OF this] obtain r1 where w: "write_val new (rmw_value input old_val) = Some r1"
      "same_shape new r1" "r_value r1 = rmw_value input old_val" "r_value_len r1 \<le> r_value_cap r1" by blast
    show ?thesis
      by (rule fin [of r1 "copy_out input old_val out"]) (use w f d(1) in \<open>simp_all add: fresh_post_def\<close>)
  qed
qed

subsection \<open>Properties\<close>

definition rmw_reply :: "StringInput \<Rightarrow> bytes \<Rightarrow> StringOutput \<Rightarrow> StringOutput" where
  \<comment> \<open>the whole output of an update of a live value \<open>old\<close>: the new integer or length, the old value, or 1 for a changed TTL\<close>
  "rmw_reply input old out =
     (case i_op input of
        SetGet _ \<Rightarrow> set_bytes out old | GetEx \<Rightarrow> set_bytes out old
      | Expire \<Rightarrow> set_int out 1 | Persist \<Rightarrow> set_int out 1
      | _ \<Rightarrow> (case rmw_int input old of None \<Rightarrow> out | Some n \<Rightarrow> set_int out n))"

lemma length_r_value: "r_value_len r \<le> r_value_cap r \<Longrightarrow> length (r_value r) = r_value_len r"
  by (simp add: r_value_def r_value_cap_def)

lemma in_place_set_out:
  assumes "in_place_set input r out = Some (Updated, r', out')"
  shows "out' = (case i_op input of SetGet _ \<Rightarrow> set_bytes out (r_value r) | _ \<Rightarrow> out)"
  using assms by (auto simp: in_place_set_def Let_def split: if_splits bind_splits prod.splits)

lemma in_place_reply:
  assumes wf: "r_value_len r \<le> r_value_cap r" and up: "in_place_updater input r out = Some (Updated, r', out')"
  shows "out' = rmw_reply input (r_value r) out"
proof -
  have ne: "\<not> expired r (i_now_ms input)" using up by (auto simp: in_place_updater_def split: if_splits)
  note d = in_place_updater_def rmw_reply_def rmw_int_def rmw_value_def length_overlay length_r_value [OF wf]
  show ?thesis
  proof (cases "i_op input \<in> {Set, SetKeepTtl, SetXx} \<union> range SetGet")
    case True
    then have "in_place_set input r out = Some (Updated, r', out')" using up ne by (auto simp: in_place_updater_def)
    from in_place_set_out [OF this] True show ?thesis by (auto simp: d)
  next
    case False
    then show ?thesis
      using up ne by (cases "i_op input")
        (auto simp: d in_place_incr_def i64_checked_def incr_base_def Let_def split: if_splits option.splits bind_splits prod.splits)
  qed
qed

lemma copy_reply:
  assumes ne: "\<not> expired old (i_now_ms input)" and wf: "r_value_len old \<le> r_value_cap old"
    and need: "need_copy_update input old out = (CopyRecord, out1)"
    and up: "copy_updater input old new out1 = Some (new', out')"
  shows "out' = rmw_reply input (r_value old) out"
proof -
  have o1: "out1 = (if i_op input = Expire then set_int out 1 else out)"
    using need ne by (cases "i_op input") (auto simp: need_copy_update_def split: option.splits)
  have gd: "i_op input \<noteq> GetDel" using need ne by (auto simp: need_copy_update_def)
  note d = copy_updater_def rmw_reply_def rmw_int_def rmw_value_def length_overlay incr_copy_value_eq o1
  show ?thesis
    using up ne gd by (cases "i_op input") (auto simp: d Let_def split: bind_splits)
qed

lemma copy_decision_live:
  assumes "\<not> expired r (i_now_ms input)" and "in_place_updater input r out = Some (res, r', out')"
    and "need_copy_update input r out = (dec, out1)"
  shows "res \<noteq> Expired" and "(res = Delete) = (dec = DeleteRecord)"
    and "(res = Cancel) = (dec = CancelCopy \<or> i_op input = Persist \<and> \<not> (has_expiration_slot r \<and> expiration r \<noteq> 0))"
    and "res = Delete \<Longrightarrow> r' = r \<and> out' = set_bytes out (r_value r) \<and> out1 = out'"
proof -
  have "res \<noteq> Expired \<and> (res = Delete) = (dec = DeleteRecord)
      \<and> (res = Cancel) = (dec = CancelCopy \<or> i_op input = Persist \<and> \<not> (has_expiration_slot r \<and> expiration r \<noteq> 0))
      \<and> (res = Delete \<longrightarrow> r' = r \<and> out' = set_bytes out (r_value r) \<and> out1 = out')"
    using assms
    by (cases "i_op input")
       (auto simp: in_place_updater_def need_copy_update_def in_place_set_def in_place_incr_def i64_checked_def Let_def
         split: if_splits option.splits bind_splits prod.splits)
  then show "res \<noteq> Expired" "(res = Delete) = (dec = DeleteRecord)"
    "(res = Cancel) = (dec = CancelCopy \<or> i_op input = Persist \<and> \<not> (has_expiration_slot r \<and> expiration r \<noteq> 0))"
    "res = Delete \<Longrightarrow> r' = r \<and> out' = set_bytes out (r_value r) \<and> out1 = out'" by blast+
qed


definition sample_rec :: rec where
  "sample_rec = \<lparr>r_info = 0, r_key = [107], r_value_len = 2, r_buf = [49, 50, 0, 0], r_exp = Some 0\<rparr>"


text \<open>The record of a new key (first write, or after the old one expired) gets the value the operation
  gives on an empty value and the requested expiration, within the space \<open>initial_size\<close> asked for.\<close>

theorem initial_update_value:
  assumes "need_initial_update input" and "r_value_cap r = si_value_cap (initial_size key input)" and "is_i64 (i_delta input)"
  shows "\<exists>r' out'. initial_updater input r out = Some (r', out') \<and> same_shape r r'
    \<and> r_value r' = rmw_value input []
    \<and> (has_expiration_slot r \<and> i_expiration input \<noteq> 0 \<longrightarrow> expiration r' = i_expiration input)"
  using initial_updater_post [OF assms, of out] by (fastforce simp: fresh_post_def)

theorem initial_update_value_witness:
  "\<exists>r' out'. initial_updater \<lparr>i_op = IncrBy, i_operand = [], i_delta = -7, i_expiration = 0, i_now_ms = 5\<rparr>
     (sample_rec\<lparr>r_buf := [0, 0]\<rparr>) output_default = Some (r', out') \<and> r_value r' = [45, 55]"
proof -
  let ?i = "\<lparr>i_op = IncrBy, i_operand = [], i_delta = -7, i_expiration = 0, i_now_ms = 5\<rparr>"
  have d: "i64_fmt (-7) = [45, 55]" by (simp add: i64_fmt_def u64_digits.simps)
  have l: "i64_digit_len (-7) = 2" by (simp add: i64_digit_len_def digit_count.simps)
  have "rmw_value ?i [] = [45, 55]"
    by (simp add: rmw_value_def incr_base_def d is_i64_def I64_MIN_def I64_MAX_def)
  then show ?thesis
    using initial_update_value [of ?i "sample_rec\<lparr>r_buf := [0, 0]\<rparr>" "[107]" output_default]
    by (auto simp: need_initial_update_def initial_size_def l r_value_cap_def is_i64_def I64_MIN_def I64_MAX_def)
qed

text \<open>C34: GETRANGE returns exactly the bytes whose index lies between the two bounds, where a negative bound
  counts from the end; the slice it takes is in range.\<close>

theorem range_bounds_spec:
  "case range_bounds a b l of (s, e) \<Rightarrow> s \<le> e \<and> e \<le> l
     \<and> {i. s \<le> i \<and> i < e} = {i. i < l \<and> (if a < 0 then int l + a else a) \<le> int i \<and> int i \<le> (if b < 0 then int l + b else b)}"
  unfolding range_bounds_def Let_def by (auto split: if_splits)

text \<open>C35: A replacing write without expiration option clears the expiration in place but carries it forward
  when the record has to be copied: \<open>SET k v XX\<close> answers differently for the same key depending on the log
  region its record has drifted into.\<close>

theorem set_xx_ttl_depends_on_region:
  assumes "i_op input = SetXx" and "i_expiration input = 0"
    and "has_expiration_slot r" and "i_now_ms input < expiration r" and "expiration r \<noteq> 0"
    and "length (i_operand input) \<le> r_value_cap r"
    and "r_value_cap new = si_value_cap (copy_size key input r)" and "has_expiration_slot new"
  shows "\<exists>r' out1 new' out2. in_place_updater input r out = Some (Updated, r', out1) \<and> expiration r' = 0
    \<and> copy_updater input r new out = Some (new', out2) \<and> expiration new' = expiration r"
proof -
  have live: "\<not> expired r (i_now_ms input)" using assms(4) by (simp add: expired_def)
  have t: "apply_ttl_in_place r input = (True, snd (set_expiration r 0))"
    using assms(1-3) set_expiration_shape(4) [of r 0] by (simp add: apply_ttl_in_place_def prod_eq_iff)
  have "length (i_operand input) \<le> r_value_cap (snd (set_expiration r 0))"
    using assms(6) set_expiration_shape(1) [of r 0] by (simp add: same_shape_def)
  from write_val_ttl [OF this] obtain r' where w: "write_val (snd (set_expiration r 0)) (i_operand input) = Some r'"
    "r_exp r' = r_exp (snd (set_expiration r 0))" by blast
  have "in_place_updater input r out = Some (Updated, r', out)"
    using live assms(1,6) t w(1) by (simp add: in_place_updater_def in_place_set_def)
  moreover have "expiration r' = 0" using w(2) set_expiration_shape(6) [OF assms(3), of 0] by (simp add: expiration_def)
  moreover have "copy_ttl input r = expiration r" using assms(1-3,5) live by (simp add: copy_ttl_def)
  ultimately show ?thesis
    using copy_updater_post [OF assms(7), of out] assms(8) by auto
qed

theorem set_xx_ttl_depends_on_region_witness:
  "\<exists>r' out1 new' out2. in_place_updater (input_simple SetXx [1] 5) (sample_rec\<lparr>r_exp := Some 9\<rparr>) output_default = Some (Updated, r', out1)
    \<and> expiration r' = 0
    \<and> copy_updater (input_simple SetXx [1] 5) (sample_rec\<lparr>r_exp := Some 9\<rparr>) (sample_rec\<lparr>r_buf := [0]\<rparr>) output_default = Some (new', out2)
    \<and> expiration new' = 9"
  using set_xx_ttl_depends_on_region [of "input_simple SetXx [1] 5" "sample_rec\<lparr>r_exp := Some 9\<rparr>" "sample_rec\<lparr>r_buf := [0]\<rparr>" "[107]" output_default]
  by (simp add: input_simple_def sample_rec_def has_expiration_slot_def expiration_def r_value_cap_def copy_size_def)

text \<open>C36: GETEX on an expired key. In place the record is reported expired and no record is made for the key. On the
  copy path a record is made for the dead key: its value is empty, its expiration is the one GETEX asked for, so it is
  expired only from that time on (never, for GETEX with PERSIST), and until then a GET finds it and answers the empty
  value.\<close>

theorem getex_revives_expired_key:
  assumes "i_op input = GetEx" and "expired old (i_now_ms input)"
    and "r_value_cap new = si_value_cap (copy_size key input old)"
    and "has_expiration_slot new = si_has_expiration (copy_size key input old)"
  shows "in_place_updater input old out = Some (Expired, old, out) \<and> \<not> need_initial_update input
    \<and> fst (need_copy_update input old out) = CopyRecord
    \<and> (\<exists>new' out'. copy_updater input old new out = Some (new', out') \<and> out' = set_bytes out [] \<and> r_value new' = []
        \<and> expiration new' = i_expiration input
        \<and> (\<forall>t. expired new' t = (i_expiration input \<noteq> 0 \<and> i_expiration input \<le> t)
             \<and> reader (input_read Get t) new' output_default =
                 (if expired new' t then (False, output_default) else (True, set_bytes output_default []))))"
proof -
  obtain new' out' where c: "copy_updater input old new out = Some (new', out')" "fresh_post input [] new new' out'"
    "has_expiration_slot new \<Longrightarrow> expiration new' = copy_ttl input old"
    using copy_updater_post [OF assms(3), of out] assms(2) by auto
  have slot: "has_expiration_slot new'"
    using assms c(2) by (simp add: fresh_post_def same_shape_def copy_size_def expired_def Let_def)
  have "has_expiration_slot new" using slot c(2) by (simp add: fresh_post_def same_shape_def)
  then have ex: "expiration new' = i_expiration input" using c(3) assms(1) by (simp add: copy_ttl_def)
  have v: "r_value new' = []" using c(2) assms(1) by (simp add: fresh_post_def rmw_value_def)
  have o: "out' = set_bytes out []"
    using c(1) assms(1,2) by (auto simp: copy_updater_def Let_def split: bind_splits)
  show ?thesis
    using assms(1,2) c(1) v o ex slot
    by (auto simp: in_place_updater_def need_initial_update_def need_copy_update_def expired_def reader_def input_read_def
          input_simple_def)
qed

theorem getex_revives_expired_key_witness:
  "let input = (input_simple GetEx [] 5)\<lparr>i_expiration := 90\<rparr>; old = sample_rec\<lparr>r_exp := Some 3\<rparr> in
   \<exists>new' out'. copy_updater input old (sample_rec\<lparr>r_buf := []\<rparr>) output_default = Some (new', out')
     \<and> reader (input_read Get 5) old output_default = (False, output_default)
     \<and> expiration new' = 90 \<and> reader (input_read Get 5) new' output_default = (True, set_bytes output_default [])"
proof -
  let ?i = "(input_simple GetEx [] 5)\<lparr>i_expiration := 90\<rparr>" and ?old = "sample_rec\<lparr>r_exp := Some 3\<rparr>"
    and ?new = "sample_rec\<lparr>r_buf := []\<rparr>"
  note d = input_simple_def sample_rec_def expired_def has_expiration_slot_def expiration_def r_value_cap_def copy_size_def
  have "i_op ?i = GetEx" "expired ?old (i_now_ms ?i)" "r_value_cap ?new = si_value_cap (copy_size [107] ?i ?old)"
    "has_expiration_slot ?new = si_has_expiration (copy_size [107] ?i ?old)" by (simp_all add: d)
  from getex_revives_expired_key [OF this, of output_default] obtain new' out'
    where n: "copy_updater ?i ?old ?new output_default = Some (new', out')" "expiration new' = 90"
      "\<not> expired new' 5" "reader (input_read Get 5) new' output_default =
         (if expired new' 5 then (False, output_default) else (True, set_bytes output_default []))"
    by (auto simp: input_simple_def)
  moreover have "reader (input_read Get 5) ?old output_default = (False, output_default)"
    by (simp add: reader_def input_read_def d)
  ultimately show ?thesis by (auto simp: Let_def)
qed

end
