(* ===== verification/HybridLog.thy ===== *)
theory HybridLog
  imports LogRecord Epoch
begin

text \<open>
  The hybrid log (\<^verbatim>\<open>log.rs\<close>) over the in-memory device (\<^verbatim>\<open>device.rs\<close>): the circular buffer of pages as byte
  lists, the packed tail, the seven watermarks, the epoch with the two kinds of deferred actions, and the device as
  a byte list that grows on writes. Each call is a function on the log as one thread runs it; an action that
  becomes safe inside a call runs inside it, as in the source. \<open>None\<close> is a panic, or a loop that waits for another
  thread for ever.
\<close>

subsection \<open>The device\<close>

definition write_at :: "bytes \<Rightarrow> nat \<Rightarrow> bytes \<Rightarrow> bytes" where
  "write_at d addr data =
     (let e = addr + length data; d = (if length d < e then d @ replicate (e - length d) 0 else d)
      in splice_at d addr data)"

definition read_at :: "bytes \<Rightarrow> nat \<Rightarrow> nat \<Rightarrow> bytes option" where
  \<comment> \<open>\<open>None\<close>: \<open>UnexpectedEof\<close>\<close>
  "read_at d addr n = (if length d < addr + n then None else Some (slice_at d addr n))"

subsection \<open>State\<close>

definition PAGE_HEADER_SIZE :: nat where "PAGE_HEADER_SIZE = 64"
definition FIRST_VALID_ADDRESS :: nat where "FIRST_VALID_ADDRESS = PAGE_HEADER_SIZE"

datatype log_action = PagesMarkedReadOnly nat | PagesClosed nat | PhaseObserved
datatype AllocResult = AllocOk nat | RetryNow | RetryLater

record hlog =
  page_bits :: nat
  buffer_size :: nat
  mutable_pages :: nat
  pages :: "bytes list"
  tail :: nat
  begin_address :: nat
  closed_until_address :: nat
  safe_head_address :: nat
  head_address :: nat
  flushed_until_address :: nat
  safe_read_only_address :: nat
  read_only_address :: nat
  log_epoch :: "log_action light_epoch"
  device :: bytes

definition pack :: "nat \<Rightarrow> nat \<Rightarrow> nat" where
  "pack page offset = push_bit 32 page OR offset"

definition unpack :: "nat \<Rightarrow> nat \<times> nat" where
  "unpack w = (drop_bit 32 w, w AND 0xffffffff)"

definition page_size :: "hlog \<Rightarrow> nat" where
  "page_size l = 2 ^ page_bits l"

definition hlog_new :: "nat \<Rightarrow> nat \<Rightarrow> nat \<Rightarrow> log_action light_epoch \<Rightarrow> bytes \<Rightarrow> hlog option" where
  \<comment> \<open>\<open>mutable\<close> is \<open>(buffer_size * mutable_fraction).ceil().max(1.0)\<close>, computed in floating point\<close>
  "hlog_new bits memory_pages mutable ep dev =
     (if bits < 9 \<or> 30 < bits then None
      else
        (let buffer = next_power_of_two (max memory_pages 2) in
         Some \<lparr>page_bits = bits, buffer_size = buffer, mutable_pages = min mutable (buffer - 1),
               pages = replicate buffer (replicate (2 ^ bits) 0), tail = pack 0 FIRST_VALID_ADDRESS,
               begin_address = FIRST_VALID_ADDRESS, closed_until_address = 0,
               safe_head_address = FIRST_VALID_ADDRESS, head_address = FIRST_VALID_ADDRESS,
               flushed_until_address = FIRST_VALID_ADDRESS, safe_read_only_address = FIRST_VALID_ADDRESS,
               read_only_address = FIRST_VALID_ADDRESS, log_epoch = ep, device = dev\<rparr>))"

definition tail_address :: "hlog \<Rightarrow> nat option" where
  \<comment> \<open>\<open>None\<close>: spins until another thread ends its page turn\<close>
  "tail_address l =
     (let (page, off) = unpack (tail l) in
      if off \<le> page_size l then Some (push_bit (page_bits l) page OR off) else None)"

definition page_of :: "hlog \<Rightarrow> nat \<Rightarrow> nat" where
  "page_of l a = drop_bit (page_bits l) a"

definition page_slot :: "hlog \<Rightarrow> nat \<Rightarrow> nat" where
  \<comment> \<open>the index in \<open>page_base_ptr\<close>\<close>
  "page_slot l page = page AND (buffer_size l - 1)"

definition page_data :: "hlog \<Rightarrow> nat \<Rightarrow> bytes" where
  "page_data l page = pages l ! page_slot l page"

definition set_page_data :: "hlog \<Rightarrow> nat \<Rightarrow> bytes \<Rightarrow> hlog" where
  "set_page_data l page b = l\<lparr>pages := (pages l)[page_slot l page := b]\<rparr>"

definition page_offset :: "hlog \<Rightarrow> nat \<Rightarrow> nat" where
  "page_offset l a = a AND (page_size l - 1)"

definition record_at :: "hlog \<Rightarrow> nat \<Rightarrow> rec" where
  \<comment> \<open>the record behind the pointer to \<open>addr\<close>\<close>
  "record_at l a = decode (page_data l (page_of l a)) (page_offset l a)"

definition set_record_at :: "hlog \<Rightarrow> nat \<Rightarrow> rec \<Rightarrow> hlog" where
  \<comment> \<open>writes through that pointer\<close>
  "set_record_at l a r =
     set_page_data l (page_of l a) (splice_at (page_data l (page_of l a)) (page_offset l a) (encode r))"

subsection \<open>Flushing and closing\<close>

function flush_loop :: "hlog \<Rightarrow> nat \<Rightarrow> nat \<Rightarrow> bytes \<Rightarrow> bytes" where
  "flush_loop l addr until dev =
     (if addr < until then
        (let page = page_of l addr; page_start = push_bit (page_bits l) page; start = addr - page_start;
             e = min until (page_start + page_size l) - page_start
         in flush_loop l (page_start + e) until (write_at dev addr (slice_at (page_data l page) start (e - start))))
      else dev)"
  by pat_completeness auto
termination
proof (relation "measure (\<lambda>(l, a, until, dev). until - a)", goal_cases)
  case (2 l addr until dev page page_start start e)
  have "page_start \<le> addr" and "addr < page_start + 2 ^ page_bits l"
    using 2 block_start_le [of "page_bits l" addr] block_end_gt [of addr "page_bits l"]
    by (auto simp: page_of_def)
  with 2 show ?case by (simp add: page_size_def)
qed simp

declare flush_loop.simps [simp del]

definition flush_until :: "hlog \<Rightarrow> nat \<Rightarrow> hlog" where
  \<comment> \<open>\<open>sync\<close> does nothing on this device\<close>
  "flush_until l until =
     (let from = flushed_until_address l in
      if until \<le> from then l
      else l\<lparr>device := flush_loop l from until (device l), flushed_until_address := max from until\<rparr>)"

definition on_pages_marked_read_only :: "hlog \<Rightarrow> nat \<Rightarrow> hlog" where
  "on_pages_marked_read_only l new_ro =
     flush_until (l\<lparr>safe_read_only_address := max (safe_read_only_address l) new_ro\<rparr>) new_ro"

function close_loop :: "nat \<Rightarrow> nat \<Rightarrow> nat \<Rightarrow> nat" where
  "close_loop ps new_head closed = (if 0 < ps \<and> closed + ps \<le> new_head then close_loop ps new_head (closed + ps) else closed)"
  by pat_completeness auto
termination
  by (relation "measure (\<lambda>(ps, new_head, closed). new_head - closed)") auto

declare close_loop.simps [simp del]

definition on_pages_closed :: "hlog \<Rightarrow> nat \<Rightarrow> hlog" where
  "on_pages_closed l new_head =
     l\<lparr>safe_head_address := max (safe_head_address l) new_head,
       closed_until_address := close_loop (page_size l) new_head (closed_until_address l)\<rparr>"

fun run_action :: "log_action \<Rightarrow> hlog \<Rightarrow> hlog" where
  "run_action (PagesMarkedReadOnly a) l = on_pages_marked_read_only l a"
| "run_action (PagesClosed a) l = on_pages_closed l a"
| "run_action PhaseObserved l = l" \<comment> \<open>sets the flag of a checkpoint transition\<close>

definition log_bump_with_action :: "hlog \<Rightarrow> log_action \<Rightarrow> hlog" where
  \<comment> \<open>\<open>self.epoch.bump_with_action(move || ...)\<close>\<close>
  "log_bump_with_action l act =
     (let (n, acts, ep) = bump_with_action (log_epoch l) act in fold run_action acts (l\<lparr>log_epoch := ep\<rparr>))"

definition log_refresh :: "hlog \<Rightarrow> nat \<Rightarrow> hlog option" where
  \<comment> \<open>\<open>epoch.refresh()\<close> by thread \<open>tid\<close>\<close>
  "log_refresh l tid =
     do { (e, acts, ep) \<leftarrow> refresh (log_epoch l) tid; Some (fold run_action acts (l\<lparr>log_epoch := ep\<rparr>)) }"

definition shift_read_only_address :: "hlog \<Rightarrow> nat \<Rightarrow> bool \<times> hlog" where
  "shift_read_only_address l new_ro =
     (if new_ro \<le> read_only_address l then (False, l)
      else (True, log_bump_with_action (l\<lparr>read_only_address := new_ro\<rparr>) (PagesMarkedReadOnly new_ro)))"

definition shift_head_address :: "hlog \<Rightarrow> nat \<Rightarrow> bool \<times> hlog" where
  "shift_head_address l desired =
     (let new_head = min desired (flushed_until_address l) in
      if new_head \<le> head_address l then (False, l)
      else (True, log_bump_with_action (l\<lparr>head_address := new_head\<rparr>) (PagesClosed new_head)))"

definition shift_read_only_to_tail :: "hlog \<Rightarrow> (nat \<times> hlog) option" where
  "shift_read_only_to_tail l =
     do { t \<leftarrow> tail_address l; Some (t, snd (shift_read_only_address l t)) }"

fun wait_flushed :: "nat \<Rightarrow> hlog \<Rightarrow> nat \<Rightarrow> hlog option" where
  \<comment> \<open>the first argument bounds the rounds\<close>
  "wait_flushed 0 l until = (if flushed_until_address l < until then None else Some l)"
| "wait_flushed (Suc k) l until =
     (if flushed_until_address l < until then
        (let (n, acts, ep) = bump_current_epoch (log_epoch l)
         in wait_flushed k (fold run_action acts (l\<lparr>log_epoch := ep\<rparr>)) until)
      else Some l)"

subsection \<open>Allocation\<close>

definition page_is_free :: "hlog \<Rightarrow> nat \<Rightarrow> bool" where
  "page_is_free l page \<longleftrightarrow>
     page < buffer_size l
     \<or> push_bit (page_bits l) (page - buffer_size l + 1) \<le> closed_until_address l"

definition issue_shift_addresses :: "hlog \<Rightarrow> nat \<Rightarrow> hlog" where
  "issue_shift_addresses l next =
     (let ps = int (page_size l);
          dh = max (int next + 2 - int (buffer_size l)) 0 * ps;
          dr = max (int next + 1 - int (mutable_pages l)) 0 * ps;
          desired_ro = nat (max dr dh);
          desired_head = nat dh;
          l1 = (if desired_ro > read_only_address l then snd (shift_read_only_address l desired_ro) else l)
      in if desired_head > head_address l1 then snd (shift_head_address l1 desired_head) else l1)"

definition try_allocate :: "hlog \<Rightarrow> nat \<Rightarrow> (AllocResult \<times> hlog) option" where
  \<comment> \<open>\<open>None\<close>: \<open>"record larger than a page"\<close>\<close>
  "try_allocate l sz =
     (if page_size l < sz + PAGE_HEADER_SIZE then None
      else
        (let old = tail l; l1 = l\<lparr>tail := old + sz\<rparr>; (page, off) = unpack old; new_off = off + sz in
         if new_off \<le> page_size l then Some (AllocOk (push_bit (page_bits l) page OR off), l1)
         else if off > page_size l then Some (RetryNow, l1)
         else
           (let next = page + 1 in
            if \<not> page_is_free l1 next then
              Some (RetryLater, issue_shift_addresses (l1\<lparr>tail := pack page (page_size l)\<rparr>) next)
            else
              (let l2 = set_page_data l1 next (replicate (page_size l) 0);
                   l3 = l2\<lparr>tail := pack next (FIRST_VALID_ADDRESS + sz)\<rparr>
               in Some (AllocOk (push_bit (page_bits l) next OR FIRST_VALID_ADDRESS), issue_shift_addresses l3 next)))))"

definition try_allocate_retry_now :: "hlog \<Rightarrow> nat \<Rightarrow> (nat option \<times> hlog) option" where
  \<comment> \<open>with one thread \<open>RetryNow\<close> would repeat for ever; \<open>try_allocate\<close> gives it only while another
     thread turns the page\<close>
  "try_allocate_retry_now l sz =
     (case try_allocate l sz of
        Some (AllocOk a, l') \<Rightarrow> Some (Some a, l')
      | Some (RetryLater, l') \<Rightarrow> Some (None, l')
      | _ \<Rightarrow> None)"

subsection \<open>Walking records\<close>

function records_in_buf :: "bytes \<Rightarrow> nat \<Rightarrow> nat \<Rightarrow> nat list" where
  \<comment> \<open>the offsets \<open>for_each_record_in_buf\<close> visits, from an offset past the page header\<close>
  "records_in_buf base off limit =
     (if off + MIN_DISK_READ \<le> limit then
        if rp_info base off = 0 \<and> rp_key_len base off = 0 \<and> rp_value_cap base off = 0 then []
        else if limit < off + rp_total_size base off then []
        else off # records_in_buf base (off + rp_total_size base off) limit
      else [])"
  by pat_completeness auto

lemma rp_total_size_pos: "24 \<le> rp_total_size mem p"
  using align8_ge [of "rp_key_offset mem p + rp_key_len mem p + rp_value_cap mem p"]
  by (simp add: rp_total_size_def rp_key_offset_def layout_sizes)

termination records_in_buf
proof (relation "measure (\<lambda>(base, off, limit). limit - off)", goal_cases)
  case (2 base off limit)
  then show ?case using rp_total_size_pos [of base off] by (simp add: layout_sizes MIN_DISK_READ_def)
qed simp

declare records_in_buf.simps [simp del]

definition for_each_record_in_buf :: "bytes \<Rightarrow> nat \<Rightarrow> nat \<Rightarrow> nat list" where
  "for_each_record_in_buf base from_off limit = records_in_buf base (max from_off PAGE_HEADER_SIZE) limit"

definition for_each_record_in_memory_page :: "hlog \<Rightarrow> nat \<Rightarrow> rec list option" where
  "for_each_record_in_memory_page l page =
     do { t \<leftarrow> tail_address l;
          let page_start = push_bit (page_bits l) page;
              limit = (if page_of l t = page then t - page_start else page_size l)
          in Some (map (decode (page_data l page)) (for_each_record_in_buf (page_data l page) PAGE_HEADER_SIZE limit)) }"

definition read_record_from_disk :: "hlog \<Rightarrow> nat \<Rightarrow> bytes option" where
  "read_record_from_disk l a =
     do { hdr \<leftarrow> read_at (device l) a MIN_DISK_READ; read_at (device l) a (total_size_from_header hdr) }"

definition read_page_prefix_from_disk :: "hlog \<Rightarrow> nat \<Rightarrow> nat \<Rightarrow> bytes option" where
  "read_page_prefix_from_disk l page len =
     (if len > 0
      then do { b \<leftarrow> read_at (device l) (push_bit (page_bits l) page) len; Some (splice_at (replicate (page_size l) 0) 0 b) }
      else Some (replicate (page_size l) 0))"

definition scan_page :: "hlog \<Rightarrow> nat \<Rightarrow> nat \<Rightarrow> (nat \<times> rec) list option" where
  \<comment> \<open>one round of the loop of \<open>scan\<close>\<close>
  "scan_page l addr to =
     (let page = page_of l addr; page_start = push_bit (page_bits l) page;
          page_end = min (page_start + page_size l) to;
          disk_limit = (if addr < head_address l then min page_end (flushed_until_address l) - page_start else 0);
          start_off = max (addr - page_start) PAGE_HEADER_SIZE;
          limit = page_end - page_start
      in do {
           dbuf \<leftarrow> (if disk_limit > 0 then read_page_prefix_from_disk l page disk_limit else Some []);
           let doffs = (if start_off < disk_limit then for_each_record_in_buf dbuf start_off disk_limit else []);
               next_off = (if doffs = [] then start_off else last doffs + rp_total_size dbuf (last doffs));
               moffs = (if next_off < limit
                        then for_each_record_in_buf (page_data l page) (max next_off disk_limit) limit else [])
           in Some (map (\<lambda>off. (page_start + off, decode dbuf off)) doffs
                    @ map (\<lambda>off. (page_start + off, decode (page_data l page) off)) moffs) })"

function scan_loop :: "hlog \<Rightarrow> nat \<Rightarrow> nat \<Rightarrow> (nat \<times> rec) list option" where
  "scan_loop l addr to =
     (if addr < to then
        do { xs \<leftarrow> scan_page l addr to;
             ys \<leftarrow> scan_loop l (push_bit (page_bits l) (page_of l addr) + page_size l) to;
             Some (xs @ ys) }
      else Some [])"
  by pat_completeness auto
termination
proof (relation "measure (\<lambda>(l, a, to). to - a)", goal_cases)
  case (2 l addr to x)
  have "addr < push_bit (page_bits l) (page_of l addr) + page_size l"
    using block_end_gt [of addr "page_bits l"] by (simp add: page_of_def page_size_def)
  with 2 show ?case by simp
qed simp

declare scan_loop.simps [simp del]

definition scan :: "hlog \<Rightarrow> nat \<Rightarrow> nat \<Rightarrow> (nat \<times> rec) list option" where
  "scan l from to = scan_loop l (max from FIRST_VALID_ADDRESS) to"

definition recover_addresses :: "hlog \<Rightarrow> nat \<Rightarrow> nat \<Rightarrow> hlog" where
  "recover_addresses l begin t =
     (let page = page_of l t; l = set_page_data l page (replicate (page_size l) 0) in
      l\<lparr>begin_address := begin, closed_until_address := push_bit (page_bits l) page, safe_head_address := t,
        head_address := t, flushed_until_address := t, safe_read_only_address := t, read_only_address := t,
        tail := pack page (page_offset l t)\<rparr>)"

subsection \<open>Addresses\<close>

lemma unpack_pack: "off < 2 ^ 32 \<Longrightarrow> unpack (pack p off) = (p, off)"
proof -
  assume off: "off < 2 ^ 32"
  have m: "(n :: nat) AND 0xffffffff = n mod 2 ^ 32" for n using nat_and_mask [of n 32] by simp
  have "drop_bit 32 (push_bit 32 p + off) = p" using block_of [OF off] .
  moreover have "(push_bit 32 p + off) mod 2 ^ 32 = off" using off by (simp add: push_bit_eq_mult)
  ultimately show ?thesis by (simp add: unpack_def pack_def push_bit_or [OF off] m)
qed

lemma pack_add: "off + n < 2 ^ 32 \<Longrightarrow> pack p off + n = pack p (off + n)"
  by (simp add: pack_def push_bit_or)

text \<open>The tail as an address: the sum, where \<open>tail_address\<close> takes the disjunction.\<close>

definition true_tail :: "hlog \<Rightarrow> nat" where
  "true_tail l = (let (page, off) = unpack (tail l) in page * page_size l + off)"

lemma page_of_bounds:
  shows "page_of l a * page_size l \<le> a" and "a < page_of l a * page_size l + page_size l"
    and "page_offset l a = a - page_of l a * page_size l" and "page_offset l a < page_size l"
    and "page_of l a * page_size l + page_offset l a = a"
proof -
  show b: "page_of l a * page_size l \<le> a" "a < page_of l a * page_size l + page_size l"
    using block_start_le [of "page_bits l" a] block_end_gt [of a "page_bits l"]
    by (simp_all add: page_of_def page_size_def push_bit_eq_mult)
  have o: "page_offset l a = a mod page_size l" unfolding page_offset_def page_size_def by (rule nat_and_mask)
  show "page_offset l a < page_size l" by (simp add: o page_size_def)
  show "page_of l a * page_size l + page_offset l a = a"
    unfolding o by (simp only: page_of_def page_size_def drop_bit_eq_div div_mult_mod_eq)
  then show "page_offset l a = a - page_of l a * page_size l" by simp
qed

lemma page_ofI: "p * page_size l \<le> a \<Longrightarrow> a < (p + 1) * page_size l \<Longrightarrow> page_of l a = p"
  unfolding page_of_def drop_bit_eq_div page_size_def by (simp add: div_nat_eqI mult.commute)

subsection \<open>The watermarks\<close>

text \<open>
  The order the header of the source states, from \<open>ClosedUntil\<close> on (a new log has \<open>Begin\<close> above
  \<open>ClosedUntil\<close>), and the shape of the buffer. A pending action names a boundary that has been published.
\<close>

fun action_ok :: "hlog \<Rightarrow> log_action \<Rightarrow> bool" where
  "action_ok l (PagesMarkedReadOnly a) \<longleftrightarrow> a \<le> read_only_address l"
| "action_ok l (PagesClosed a) \<longleftrightarrow> a \<le> head_address l"
| "action_ok l PhaseObserved \<longleftrightarrow> True"

definition shape_ok :: "hlog \<Rightarrow> bool" where
  "shape_ok l \<longleftrightarrow> 9 \<le> page_bits l \<and> page_bits l \<le> 30
     \<and> (\<exists>k. buffer_size l = 2 ^ k) \<and> 2 \<le> buffer_size l \<and> 1 \<le> mutable_pages l \<and> mutable_pages l < buffer_size l
     \<and> length (pages l) = buffer_size l \<and> (\<forall>b \<in> set (pages l). length b = page_size l)"

definition tail_ok :: "hlog \<Rightarrow> bool" where
  "tail_ok l \<longleftrightarrow> (case unpack (tail l) of (p, off) \<Rightarrow>
     tail l = pack p off \<and> off \<le> page_size l \<and> PAGE_HEADER_SIZE \<le> off)"

definition watermarks_ok :: "hlog \<Rightarrow> bool" where
  "watermarks_ok l \<longleftrightarrow>
     closed_until_address l \<le> safe_head_address l \<and> safe_head_address l \<le> head_address l
     \<and> head_address l \<le> flushed_until_address l \<and> flushed_until_address l \<le> safe_read_only_address l
     \<and> safe_read_only_address l \<le> read_only_address l \<and> read_only_address l \<le> true_tail l"

definition hlog_wf :: "hlog \<Rightarrow> bool" where
  "hlog_wf l \<longleftrightarrow> shape_ok l \<and> tail_ok l \<and> watermarks_ok l \<and> epoch_wf (log_epoch l)
     \<and> list_all (action_ok l) (map d_action (ep_drain (log_epoch l)))"

lemma page_size_range: "shape_ok l \<Longrightarrow> 512 \<le> page_size l \<and> page_size l < 2 ^ 31"
proof -
  assume "shape_ok l"
  then have b: "9 \<le> page_bits l" "page_bits l \<le> 30" by (auto simp: shape_ok_def)
  have "(2 :: nat) ^ 9 \<le> 2 ^ page_bits l" using b by (intro power_increasing) auto
  moreover have "(2 :: nat) ^ page_bits l \<le> 2 ^ 30" using b by (intro power_increasing) auto
  ultimately show ?thesis by (simp add: page_size_def)
qed

lemma close_loop_le: "closed \<le> new_head \<or> closed \<le> b \<Longrightarrow> close_loop ps new_head closed \<le> max new_head b"
proof (induction ps new_head closed rule: close_loop.induct)
  case (1 ps new_head closed)
  then show ?case by (subst close_loop.simps) auto
qed

lemma close_loop_le': "close_loop ps new_head closed \<le> max new_head closed"
  by (rule close_loop_le) simp

text \<open>What a step of the log's bookkeeping keeps: shape, tail, head and read-only address.\<close>

definition log_frame :: "hlog \<Rightarrow> hlog \<Rightarrow> bool" where
  "log_frame l l' \<longleftrightarrow> page_bits l' = page_bits l \<and> buffer_size l' = buffer_size l \<and> mutable_pages l' = mutable_pages l
     \<and> pages l' = pages l \<and> tail l' = tail l \<and> begin_address l' = begin_address l"

lemma log_frame_refl [simp]: "log_frame l l"
  by (simp add: log_frame_def)

lemma log_frame_trans: "log_frame a b \<Longrightarrow> log_frame b c \<Longrightarrow> log_frame a c"
  by (simp add: log_frame_def)

lemma log_frame_shape:
  assumes "log_frame l l'"
  shows "shape_ok l' = shape_ok l" and "tail_ok l' = tail_ok l" and "true_tail l' = true_tail l" and "page_size l' = page_size l"
proof -
  show ps: "page_size l' = page_size l" using assms by (simp add: log_frame_def page_size_def)
  show "shape_ok l' = shape_ok l" "tail_ok l' = tail_ok l" "true_tail l' = true_tail l"
    using assms ps by (simp_all add: shape_ok_def tail_ok_def true_tail_def log_frame_def)
qed

lemma run_action_frame:
  shows "log_frame l (run_action a l)" and "head_address (run_action a l) = head_address l"
    and "read_only_address (run_action a l) = read_only_address l" and "log_epoch (run_action a l) = log_epoch l"
  by (cases a; simp add: log_frame_def on_pages_marked_read_only_def on_pages_closed_def flush_until_def Let_def)+

lemma run_action_watermarks:
  assumes "watermarks_ok l" and "action_ok l a"
  shows "watermarks_ok (run_action a l)"
proof (cases a)
  case (PagesMarkedReadOnly x)
  have "true_tail (run_action a l) = true_tail l" using log_frame_shape(3) run_action_frame(1) by blast
  with assms PagesMarkedReadOnly show ?thesis
    by (auto simp: watermarks_ok_def on_pages_marked_read_only_def flush_until_def Let_def true_tail_def)
next
  case (PagesClosed x)
  have "close_loop (page_size l) x (closed_until_address l) \<le> max x (safe_head_address l)"
    using assms(1) close_loop_le [of "closed_until_address l" x "safe_head_address l" "page_size l"]
    by (simp add: watermarks_ok_def)
  moreover have "true_tail (run_action a l) = true_tail l" using log_frame_shape(3) run_action_frame(1) by blast
  ultimately show ?thesis
    using assms PagesClosed by (auto simp: watermarks_ok_def on_pages_closed_def)
qed (simp add: assms)

lemma fold_run_action:
  assumes "watermarks_ok l" and "list_all (action_ok l) acts"
  shows "watermarks_ok (fold run_action acts l)" and "log_frame l (fold run_action acts l)"
    and "head_address (fold run_action acts l) = head_address l"
    and "read_only_address (fold run_action acts l) = read_only_address l"
    and "log_epoch (fold run_action acts l) = log_epoch l"
proof -
  have "watermarks_ok (fold run_action acts l) \<and> log_frame l (fold run_action acts l)
      \<and> head_address (fold run_action acts l) = head_address l
      \<and> read_only_address (fold run_action acts l) = read_only_address l
      \<and> log_epoch (fold run_action acts l) = log_epoch l"
    using assms
  proof (induction acts arbitrary: l)
    case (Cons a acts)
    have ok: "action_ok (run_action a l) b = action_ok l b" for b
      using run_action_frame [where a = a and l = l] by (cases b) auto
    have "list_all (action_ok (run_action a l)) acts" using Cons.prems(2) by (auto simp: list_all_iff ok)
    moreover have "watermarks_ok (run_action a l)"
      using run_action_watermarks [OF Cons.prems(1)] Cons.prems(2) by simp
    ultimately have ih: "watermarks_ok (fold run_action acts (run_action a l))"
      "log_frame (run_action a l) (fold run_action acts (run_action a l))"
      "head_address (fold run_action acts (run_action a l)) = head_address (run_action a l)"
      "read_only_address (fold run_action acts (run_action a l)) = read_only_address (run_action a l)"
      "log_epoch (fold run_action acts (run_action a l)) = log_epoch (run_action a l)"
      using Cons.IH by blast+
    show ?case
      using ih log_frame_trans [OF run_action_frame(1) ih(2)] run_action_frame [where a = a and l = l] by simp
  qed simp
  then show "watermarks_ok (fold run_action acts l)" "log_frame l (fold run_action acts l)"
    "head_address (fold run_action acts l) = head_address l"
    "read_only_address (fold run_action acts l) = read_only_address l"
    "log_epoch (fold run_action acts l) = log_epoch l" by auto
qed

text \<open>Running the actions that a new epoch state releases.\<close>

lemma run_released:
  assumes wf: "hlog_wf l" and ew: "epoch_wf ep"
    and acts: "\<forall>a \<in> set acts. action_ok l a" and rest: "\<forall>a \<in> set (ep_drain ep). action_ok l (d_action a)"
  shows "hlog_wf (fold run_action acts (l\<lparr>log_epoch := ep\<rparr>))"
    and "log_frame l (fold run_action acts (l\<lparr>log_epoch := ep\<rparr>))"
    and "head_address (fold run_action acts (l\<lparr>log_epoch := ep\<rparr>)) = head_address l"
    and "read_only_address (fold run_action acts (l\<lparr>log_epoch := ep\<rparr>)) = read_only_address l"
proof -
  let ?l = "l\<lparr>log_epoch := ep\<rparr>"
  have fr: "log_frame l ?l" by (simp add: log_frame_def)
  have w: "watermarks_ok ?l" using wf log_frame_shape(3) [OF fr] by (simp add: hlog_wf_def watermarks_ok_def)
  have ok: "action_ok ?l b = action_ok l b" for b by (cases b) auto
  have "list_all (action_ok ?l) acts" using acts by (simp add: list_all_iff ok)
  note f = fold_run_action [OF w this]
  show "head_address (fold run_action acts ?l) = head_address l"
    and ro: "read_only_address (fold run_action acts ?l) = read_only_address l" using f by auto
  show fr': "log_frame l (fold run_action acts ?l)" by (rule log_frame_trans [OF fr f(2)])
  have ok': "action_ok (fold run_action acts ?l) b = action_ok l b" for b using f by (cases b) auto
  show "hlog_wf (fold run_action acts ?l)"
    using wf f ew rest log_frame_shape [OF fr'] by (auto simp: hlog_wf_def list_all_iff ok')
qed

lemma released_subset:
  assumes "epoch_wf ep"
  shows "bump_with_action ep act = (n, acts, ep') \<Longrightarrow>
      epoch_wf ep' \<and> set acts \<union> d_action ` set (ep_drain ep') \<subseteq> insert act (d_action ` set (ep_drain ep))"
    and "bump_current_epoch ep = (n, acts, ep') \<Longrightarrow>
      epoch_wf ep' \<and> set acts \<union> d_action ` set (ep_drain ep') \<subseteq> d_action ` set (ep_drain ep)"
    and "0 < tid \<Longrightarrow> refresh ep tid = Some (e, acts, ep') \<Longrightarrow>
      epoch_wf ep' \<and> set acts \<union> d_action ` set (ep_drain ep') \<subseteq> d_action ` set (ep_drain ep)"
proof -
  have dr: "set (fst (drain x)) \<union> d_action ` set (ep_drain (snd (drain x))) \<subseteq> d_action ` set (ep_drain x)"
    if "epoch_wf x" for x :: "'a light_epoch" by (auto simp: drain_eq(2) [OF that])
  show "bump_with_action ep act = (n, acts, ep') \<Longrightarrow>
      epoch_wf ep' \<and> set acts \<union> d_action ` set (ep_drain ep') \<subseteq> insert act (d_action ` set (ep_drain ep))"
  proof -
    assume b: "bump_with_action ep act = (n, acts, ep')"
    let ?d = "ep_drain ep @ [\<lparr>d_epoch = ep_current ep, d_action = act\<rparr>]"
    let ?x = "ep\<lparr>ep_drain := ?d, ep_drain_count := length ?d, ep_current := ep_current ep + 1\<rparr>"
    have "drain ?x = (acts, ep')" using b by (auto simp: bump_with_action_def Let_def split: prod.splits)
    moreover have "d_action ` set (ep_drain ?x) = insert act (d_action ` set (ep_drain ep))" by simp
    ultimately show ?thesis
      using dr [OF epoch_wf_push [OF assms refl, of act]] drain_wf [OF epoch_wf_push [OF assms refl, of act]] by simp
  qed
  show "bump_current_epoch ep = (n, acts, ep') \<Longrightarrow>
      epoch_wf ep' \<and> set acts \<union> d_action ` set (ep_drain ep') \<subseteq> d_action ` set (ep_drain ep)"
  proof -
    assume b: "bump_current_epoch ep = (n, acts, ep')"
    let ?x = "ep\<lparr>ep_current := ep_current ep + 1\<rparr>"
    have w: "epoch_wf ?x" by (rule epoch_wf_bump [OF assms])
    have "drain_if_any ?x = (acts, ep')" using b by (auto simp: bump_current_epoch_def Let_def split: prod.splits)
    then have d: "acts = fst (drain ?x)" "ep' = snd (drain ?x)" 
      unfolding drain_eq(1) [OF w] by (metis fst_conv, metis snd_conv)
    show ?thesis unfolding d using dr [OF w] drain_wf [OF w] by simp
  qed
  show "0 < tid \<Longrightarrow> refresh ep tid = Some (e, acts, ep') \<Longrightarrow>
      epoch_wf ep' \<and> set acts \<union> d_action ` set (ep_drain ep') \<subseteq> d_action ` set (ep_drain ep)"
  proof -
    assume t: "0 < tid" and r: "refresh ep tid = Some (e, acts, ep')"
    obtain i ep1 where m: "my_slot ep tid = Some (i, ep1)"
      using r by (cases "my_slot ep tid") (auto simp: refresh_def)
    let ?x = "publish_epoch ep1 i (ep_current ep1)"
    have d: "drain_if_any ?x = (acts, ep')" using r m by (auto simp: refresh_def Let_def split: prod.splits)
    have w: "epoch_wf ?x"
      using my_slot_wf(3) [OF assms m t] by (intro slot_publish_wf [OF assms t m]) simp
    have "ep_drain ?x = ep_drain ep" using my_slot_wf(4) [OF assms m t] by (simp add: publish_epoch_def)
    then show ?thesis using dr [OF w] d drain_eq(1) [OF w] drain_wf [OF w] by simp
  qed
qed

lemma hlog_wf_actions: "hlog_wf l \<Longrightarrow> a \<in> set (ep_drain (log_epoch l)) \<Longrightarrow> action_ok l (d_action a)"
  by (simp add: hlog_wf_def list_all_iff)

lemma bump_action_wf:
  assumes wf: "hlog_wf l" and a: "action_ok l act"
  shows "hlog_wf (log_bump_with_action l act)" and "log_frame l (log_bump_with_action l act)"
    and "head_address (log_bump_with_action l act) = head_address l"
    and "read_only_address (log_bump_with_action l act) = read_only_address l"
proof -
  obtain n acts ep where b: "bump_with_action (log_epoch l) act = (n, acts, ep)" by (metis prod_cases3)
  have ew: "epoch_wf (log_epoch l)" using wf by (simp add: hlog_wf_def)
  note r = released_subset(1) [OF ew b]
  have "\<forall>x \<in> set acts. action_ok l x" "\<forall>x \<in> set (ep_drain ep). action_ok l (d_action x)"
    using r hlog_wf_actions [OF wf] a by auto
  note rr = run_released [OF wf r [THEN conjunct1] this]
  have e: "log_bump_with_action l act = fold run_action acts (l\<lparr>log_epoch := ep\<rparr>)"
    by (simp add: log_bump_with_action_def b)
  show "hlog_wf (log_bump_with_action l act)" "log_frame l (log_bump_with_action l act)"
    "head_address (log_bump_with_action l act) = head_address l"
    "read_only_address (log_bump_with_action l act) = read_only_address l"
    unfolding e using rr by auto
qed

lemma log_refresh_wf:
  assumes wf: "hlog_wf l" and t: "0 < tid" and r: "log_refresh l tid = Some l'"
  shows "hlog_wf l'" and "log_frame l l'"
proof -
  obtain e acts ep where b: "refresh (log_epoch l) tid = Some (e, acts, ep)"
    and l': "l' = fold run_action acts (l\<lparr>log_epoch := ep\<rparr>)"
    using r by (auto simp: log_refresh_def split: bind_splits)
  have ew: "epoch_wf (log_epoch l)" using wf by (simp add: hlog_wf_def)
  note s = released_subset(3) [OF ew t b]
  have "\<forall>x \<in> set acts. action_ok l x" "\<forall>x \<in> set (ep_drain ep). action_ok l (d_action x)"
    using s hlog_wf_actions [OF wf] by auto
  from run_released [OF wf s [THEN conjunct1] this] show "hlog_wf l'" "log_frame l l'" unfolding l' by auto
qed

lemma shift_read_only_wf:
  assumes wf: "hlog_wf l" and le: "new_ro \<le> true_tail l"
  shows "hlog_wf (snd (shift_read_only_address l new_ro))" and "log_frame l (snd (shift_read_only_address l new_ro))"
    and "head_address (snd (shift_read_only_address l new_ro)) = head_address l"
    and "read_only_address (snd (shift_read_only_address l new_ro)) = max (read_only_address l) new_ro"
proof -
  let ?l = "l\<lparr>read_only_address := new_ro\<rparr>"
  have fr: "log_frame l ?l" by (simp add: log_frame_def)
  have w: "hlog_wf ?l" if "read_only_address l < new_ro"
  proof -
    have "action_ok ?l b" if "action_ok l b" for b using that \<open>read_only_address l < new_ro\<close> by (cases b) auto
    then show ?thesis
      using wf le that log_frame_shape [OF fr] by (auto simp: hlog_wf_def watermarks_ok_def list_all_iff)
  qed
  have a: "action_ok ?l (PagesMarkedReadOnly new_ro)" by simp
  show "hlog_wf (snd (shift_read_only_address l new_ro))" "log_frame l (snd (shift_read_only_address l new_ro))"
    "head_address (snd (shift_read_only_address l new_ro)) = head_address l"
    "read_only_address (snd (shift_read_only_address l new_ro)) = max (read_only_address l) new_ro"
    using wf bump_action_wf [OF w a] log_frame_trans [OF fr] by (auto simp: shift_read_only_address_def)
qed

lemma shift_head_wf:
  assumes wf: "hlog_wf l"
  shows "hlog_wf (snd (shift_head_address l desired))" and "log_frame l (snd (shift_head_address l desired))"
    and "read_only_address (snd (shift_head_address l desired)) = read_only_address l"
proof -
  let ?h = "min desired (flushed_until_address l)"
  let ?l = "l\<lparr>head_address := ?h\<rparr>"
  have fr: "log_frame l ?l" by (simp add: log_frame_def)
  have w: "hlog_wf ?l" if "head_address l < ?h"
  proof -
    have "action_ok ?l b" if "action_ok l b" for b using that \<open>head_address l < ?h\<close> by (cases b) auto
    then show ?thesis
      using wf that log_frame_shape [OF fr] by (auto simp: hlog_wf_def watermarks_ok_def list_all_iff)
  qed
  have a: "action_ok ?l (PagesClosed ?h)" by simp
  show "hlog_wf (snd (shift_head_address l desired))" "log_frame l (snd (shift_head_address l desired))"
    "read_only_address (snd (shift_head_address l desired)) = read_only_address l"
    using wf bump_action_wf [OF w a] log_frame_trans [OF fr]
    by (cases "?h \<le> head_address l"; simp only: shift_head_address_def Let_def if_True if_False snd_conv not_le; simp)+
qed

lemma issue_shift_wf:
  assumes wf: "hlog_wf l" and t: "next * page_size l \<le> true_tail l"
  shows "hlog_wf (issue_shift_addresses l next)" and "log_frame l (issue_shift_addresses l next)"
proof -
  let ?dh = "max (int next + 2 - int (buffer_size l)) 0 * int (page_size l)"
  let ?dr = "max (int next + 1 - int (mutable_pages l)) 0 * int (page_size l)"
  let ?ro = "nat (max ?dr ?dh)"
  have sh: "2 \<le> buffer_size l" "1 \<le> mutable_pages l" using wf by (auto simp: hlog_wf_def shape_ok_def)
  have "max (int next + 2 - int (buffer_size l)) 0 \<le> int next" "max (int next + 1 - int (mutable_pages l)) 0 \<le> int next"
    using sh by auto
  then have "max ?dr ?dh \<le> int next * int (page_size l)" by (simp add: mult_right_mono)
  then have "?ro \<le> next * page_size l" by (simp add: nat_le_iff)
  then have ro: "?ro \<le> true_tail l" using t by (rule order_trans)
  define l1 where "l1 = (if ?ro > read_only_address l then snd (shift_read_only_address l ?ro) else l)"
  have l1: "hlog_wf l1" "log_frame l l1" unfolding l1_def using wf shift_read_only_wf(1,2) [OF wf ro] by simp_all
  have e: "issue_shift_addresses l next =
      (if nat ?dh > head_address l1 then snd (shift_head_address l1 (nat ?dh)) else l1)"
    unfolding issue_shift_addresses_def Let_def l1_def by simp
  show "hlog_wf (issue_shift_addresses l next)" "log_frame l (issue_shift_addresses l next)"
    unfolding e using l1 shift_head_wf(1) [OF l1(1)] log_frame_trans [OF l1(2) shift_head_wf(2) [OF l1(1)]] by simp_all
qed

subsection \<open>Allocating\<close>

lemma page_slot_mod: "shape_ok l \<Longrightarrow> page_slot l p = p mod buffer_size l"
  unfolding shape_ok_def page_slot_def using nat_and_mask by auto

lemma page_slot_lt: "shape_ok l \<Longrightarrow> page_slot l p < length (pages l)"
  using page_slot_mod [of l p] by (auto simp: shape_ok_def)

lemma set_page_data_wf:
  assumes wf: "hlog_wf l" and len: "length b = page_size l"
  shows "hlog_wf (set_page_data l p b)" and "true_tail (set_page_data l p b) = true_tail l"
    and "page_size (set_page_data l p b) = page_size l"
proof -
  let ?l = "set_page_data l p b"
  show ps: "page_size ?l = page_size l" by (simp add: set_page_data_def page_size_def)
  then show tt: "true_tail ?l = true_tail l" by (simp add: true_tail_def set_page_data_def)
  have ok: "action_ok ?l x = action_ok l x" for x by (cases x) (simp_all add: set_page_data_def)
  have "shape_ok ?l"
    using wf len ps by (auto simp: hlog_wf_def shape_ok_def set_page_data_def dest!: set_update_subset_insert [THEN subsetD])
  moreover have "tail_ok ?l" using wf ps by (simp add: hlog_wf_def tail_ok_def set_page_data_def)
  moreover have "watermarks_ok ?l" using wf tt by (simp add: hlog_wf_def watermarks_ok_def) (simp add: set_page_data_def)
  moreover have "log_epoch ?l = log_epoch l" by (simp add: set_page_data_def)
  ultimately show "hlog_wf ?l" using wf by (simp add: hlog_wf_def list_all_iff ok)
qed

lemma set_tail_wf:
  assumes wf: "hlog_wf l" and off: "PAGE_HEADER_SIZE \<le> off" "off \<le> page_size l"
    and grow: "true_tail l \<le> p * page_size l + off"
  shows "hlog_wf (l\<lparr>tail := pack p off\<rparr>)" and "true_tail (l\<lparr>tail := pack p off\<rparr>) = p * page_size l + off"
proof -
  let ?l = "l\<lparr>tail := pack p off\<rparr>"
  have sh: "shape_ok l" using wf by (simp add: hlog_wf_def)
  have u: "unpack (pack p off) = (p, off)" using off page_size_range [OF sh] by (intro unpack_pack) simp
  have ps: "page_size ?l = page_size l" by (simp add: page_size_def)
  show tt: "true_tail ?l = p * page_size l + off" using u ps by (simp add: true_tail_def)
  have ok: "action_ok ?l x = action_ok l x" for x by (cases x) simp_all
  have "tail_ok ?l" using u off ps by (simp add: tail_ok_def)
  moreover have "watermarks_ok ?l" using wf grow tt by (simp add: hlog_wf_def watermarks_ok_def)
  moreover have "shape_ok ?l" using sh ps by (simp add: shape_ok_def)
  ultimately show "hlog_wf ?l" using wf by (simp add: hlog_wf_def list_all_iff ok)
qed

text \<open>What an allocation gives: a region of one page at the old tail, past the page header.\<close>

definition allocated :: "hlog \<Rightarrow> nat \<Rightarrow> nat \<Rightarrow> hlog \<Rightarrow> bool" where
  "allocated l sz a l' \<longleftrightarrow>
     true_tail l \<le> a \<and> true_tail l' = a + sz
     \<and> page_of l a * page_size l + PAGE_HEADER_SIZE \<le> a \<and> a + sz \<le> page_of l a * page_size l + page_size l"

lemma try_allocate_cases:
  assumes wf: "hlog_wf l" and sz: "0 < sz" "sz + PAGE_HEADER_SIZE \<le> page_size l"
  obtains
    (here) p off where "unpack (tail l) = (p, off)" "off + sz \<le> page_size l"
      "try_allocate l sz = Some (AllocOk (p * page_size l + off), l\<lparr>tail := pack p (off + sz)\<rparr>)"
      "true_tail l = p * page_size l + off" "PAGE_HEADER_SIZE \<le> off"
  | (turn) p off where "unpack (tail l) = (p, off)" "off \<le> page_size l" "page_size l < off + sz" "page_is_free l (p + 1)"
      "try_allocate l sz = Some (AllocOk ((p + 1) * page_size l + PAGE_HEADER_SIZE),
         issue_shift_addresses ((set_page_data l (p + 1) (replicate (page_size l) 0))\<lparr>tail := pack (p + 1) (PAGE_HEADER_SIZE + sz)\<rparr>) (p + 1))"
      "true_tail l = p * page_size l + off"
  | (full) p off where "unpack (tail l) = (p, off)" "off \<le> page_size l" "page_size l < off + sz" "\<not> page_is_free l (p + 1)"
      "try_allocate l sz = Some (RetryLater, issue_shift_addresses (l\<lparr>tail := pack p (page_size l)\<rparr>) (p + 1))"
      "true_tail l = p * page_size l + off"
proof -
  obtain p off where u: "unpack (tail l) = (p, off)" by (cases "unpack (tail l)")
  have t: "tail l = pack p off" "off \<le> page_size l" "PAGE_HEADER_SIZE \<le> off"
    using wf u by (auto simp: hlog_wf_def tail_ok_def)
  have sh: "shape_ok l" using wf by (simp add: hlog_wf_def)
  note ps = page_size_range [OF sh]
  have tt: "true_tail l = p * page_size l + off" using u by (simp add: true_tail_def)
  have orp: "push_bit (page_bits l) q OR x = q * page_size l + x" if "x < page_size l" for q x
    using that push_bit_or [of x "page_bits l" q] by (simp add: page_size_def push_bit_eq_mult)
  have fr: "page_is_free (l\<lparr>tail := x\<rparr>) q = page_is_free l q" for x q by (simp add: page_is_free_def)
  show thesis
  proof (cases "off + sz \<le> page_size l")
    case True
    have "pack p off + sz = pack p (off + sz)" using True ps by (intro pack_add) simp
    then show thesis
      using True sz t orp [of off p] u tt by (intro here [of p off]) (simp_all add: try_allocate_def Let_def)
  next
    case False
    have h: "push_bit (page_bits l) (p + 1) OR FIRST_VALID_ADDRESS = (p + 1) * page_size l + PAGE_HEADER_SIZE"
      using orp [of PAGE_HEADER_SIZE "p + 1"] ps by (simp add: FIRST_VALID_ADDRESS_def PAGE_HEADER_SIZE_def)
    have e: "try_allocate l sz = (if \<not> page_is_free l (p + 1)
        then Some (RetryLater, issue_shift_addresses (l\<lparr>tail := pack p (page_size l)\<rparr>) (p + 1))
        else Some (AllocOk (push_bit (page_bits l) (p + 1) OR FIRST_VALID_ADDRESS),
           issue_shift_addresses ((set_page_data l (p + 1) (replicate (page_size l) 0))\<lparr>tail := pack (p + 1) (FIRST_VALID_ADDRESS + sz)\<rparr>) (p + 1)))"
      unfolding try_allocate_def Let_def u prod.case fr
      using False sz t by (simp add: set_page_data_def page_slot_def)
    show thesis
    proof (cases "page_is_free l (p + 1)")
      case True
      show thesis
        by (rule turn [of p off]) (use True False e h u t tt in \<open>simp_all add: FIRST_VALID_ADDRESS_def\<close>)
    next
      case nf: False
      show thesis by (rule full [of p off]) (use nf False e u t tt in simp_all)
    qed
  qed
qed

lemma try_allocate_wf:
  assumes wf: "hlog_wf l" and sz: "0 < sz" "sz + PAGE_HEADER_SIZE \<le> page_size l"
  shows "\<exists>res l'. try_allocate l sz = Some (res, l') \<and> hlog_wf l' \<and> res \<noteq> RetryNow
    \<and> (\<forall>a. res = AllocOk a \<longrightarrow> allocated l sz a l')
    \<and> (res = RetryLater \<longrightarrow> pages l' = pages l \<and> true_tail l \<le> true_tail l')"
  using wf sz
proof (cases rule: try_allocate_cases)
  case (here p off)
  have po: "page_of l (p * page_size l + off) = p" by (rule page_ofI) (use here(2) sz(1) in auto)
  have g: "true_tail l \<le> p * page_size l + (off + sz)" using here(4) by simp
  note st = set_tail_wf [OF wf _ _ g]
  show ?thesis
    using here st po sz by (auto simp: allocated_def)
next
  case (turn p off)
  let ?z = "set_page_data l (p + 1) (replicate (page_size l) 0)"
  let ?l = "?z\<lparr>tail := pack (p + 1) (PAGE_HEADER_SIZE + sz)\<rparr>"
  let ?a = "(p + 1) * page_size l + PAGE_HEADER_SIZE"
  note z = set_page_data_wf [OF wf, of "replicate (page_size l) 0" "p + 1"]
  have wz: "hlog_wf ?z" by (rule z(1)) simp
  have g: "true_tail ?z \<le> (p + 1) * page_size ?z + (PAGE_HEADER_SIZE + sz)" using turn(2,6) z(2,3) by simp
  note st = set_tail_wf [OF wz _ _ g]
  have wl: "hlog_wf ?l" and tl: "true_tail ?l = ?a + sz" using st sz(2) z(3) by (simp_all add: add.assoc)
  have pl: "page_size ?l = page_size l" by (simp add: page_size_def set_page_data_def)
  have n: "(p + 1) * page_size ?l \<le> true_tail ?l" using tl pl by simp
  note iss = issue_shift_wf [OF wl n]
  have "page_of l ?a = p + 1" by (rule page_ofI) (use sz in auto)
  then have "allocated l sz ?a (issue_shift_addresses ?l (p + 1))"
    using tl log_frame_shape(3) [OF iss(2)] sz(2) turn(2,6) by (simp add: allocated_def)
  with turn(5) iss(1) show ?thesis by (intro exI [of _ "AllocOk ?a"] exI [of _ "issue_shift_addresses ?l (p + 1)"]) simp
next
  case (full p off)
  let ?l = "l\<lparr>tail := pack p (page_size l)\<rparr>"
  have g: "true_tail l \<le> p * page_size l + page_size l" using full(2,6) by simp
  have h: "PAGE_HEADER_SIZE \<le> page_size l" using sz(2) by simp
  note st = set_tail_wf [OF wf h order_refl g]
  have "(p + 1) * page_size ?l \<le> true_tail ?l" using st(2) by (simp add: page_size_def)
  note iss = issue_shift_wf [OF st(1) this]
  have "pages (issue_shift_addresses ?l (p + 1)) = pages l" using iss(2) by (simp add: log_frame_def)
  moreover have "true_tail l \<le> true_tail (issue_shift_addresses ?l (p + 1))"
    using g st(2) log_frame_shape(3) [OF iss(2)] by simp
  ultimately show ?thesis using full(5) iss(1) by simp
qed

end
