(* ===== verification/LogSafety.thy ===== *)
theory LogSafety
  imports HybridLog
begin

text \<open>
  What the hybrid log promises its users: its calls keep the watermarks ordered and never move one back, an
  allocation overwrites no page that readers may still use, a flush puts the bytes of the pages on the device,
  the page walk finds the records that were laid out, and the tail that is reported.
\<close>

subsection \<open>Allocation leaves the live pages alone\<close>

lemma page_of_le_tail:
  assumes wf: "hlog_wf l" and u: "unpack (tail l) = (p, off)" and b: "b < true_tail l"
  shows "page_of l b \<le> p"
proof -
  have "shape_ok l" and "off \<le> page_size l" using wf u by (auto simp: hlog_wf_def tail_ok_def)
  then have "b < (p + 1) * page_size l" "0 < page_size l" using b u by (simp_all add: true_tail_def page_size_def)
  then show ?thesis using page_of_bounds(1) [of l b]
    by (metis Suc_eq_plus1 less_Suc_eq_le mult_less_cancel2 order_le_less_trans)
qed

lemma live_page_slot:
  assumes wf: "hlog_wf l" and free: "page_is_free l (p + 1)" and b: "closed_until_address l \<le> b" and qp: "page_of l b \<le> p"
  shows "page_slot l (page_of l b) \<noteq> page_slot l (p + 1)"
proof -
  let ?q = "page_of l b" and ?n = "buffer_size l" and ?ps = "page_size l"
  have sh: "shape_ok l" using wf by (auto simp: hlog_wf_def tail_ok_def)
  have ps: "0 < ?ps" using page_size_range [OF sh] by simp
  have n: "2 \<le> ?n" using sh by (simp add: shape_ok_def)
  have lo: "p + 2 \<le> ?q + ?n"
  proof (cases "p + 1 < ?n")
    case False
    have le: "(p + 1 - ?n + 1) * ?ps \<le> closed_until_address l"
      using free False by (simp add: page_is_free_def push_bit_eq_mult page_size_def)
    have "(p + 1 - ?n + 1) * ?ps < (?q + 1) * ?ps"
      by (rule le_less_trans [OF order_trans [OF le b]]) (use page_of_bounds(2) [of b l] in simp)
    then have "p + 1 - ?n + 1 < ?q + 1" using ps by (metis mult_less_cancel2)
    with False show ?thesis by simp
  qed simp
  have "p + 1 - ?q < ?n" "0 < p + 1 - ?q" using lo qp by auto
  then have "\<not> ?n dvd p + 1 - ?q" by (auto dest: dvd_imp_le)
  then have "(p + 1) mod ?n \<noteq> ?q mod ?n" using qp mod_eq_dvd_iff_nat [of ?q "p + 1" ?n] by simp
  then show ?thesis using page_slot_mod [OF sh] by metis
qed

lemma page_data_set: "shape_ok l \<Longrightarrow> page_data (set_page_data l p b) q = (if page_slot l q = page_slot l p then b else page_data l q)"
  using page_slot_lt [of l p] by (auto simp: page_data_def set_page_data_def page_slot_def)

lemma log_frame_page: "log_frame l l' \<Longrightarrow> page_data l' p = page_data l p"
  by (simp add: log_frame_def page_data_def page_slot_def)

lemma log_frame_tail_page [simp]: "page_data (l\<lparr>tail := t\<rparr>) p = page_data l p"
  by (simp add: page_data_def page_slot_def)

lemma page_size_tail [simp]: "page_size (l\<lparr>tail := t\<rparr>) = page_size l"
  by (simp add: page_size_def)

lemma try_allocate_keeps_pages:
  assumes wf: "hlog_wf l" and sz: "0 < sz" "sz + PAGE_HEADER_SIZE \<le> page_size l"
    and r: "try_allocate l sz = Some (res, l')" and b: "head_address l \<le> b" "b < true_tail l"
  shows "page_data l' (page_of l b) = page_data l (page_of l b)"
  using wf sz
proof (cases rule: try_allocate_cases)
  case (here p off)
  with r show ?thesis by auto
next
  case (full p off)
  let ?l = "l\<lparr>tail := pack p (page_size l)\<rparr>"
  have h: "PAGE_HEADER_SIZE \<le> page_size l" using sz(2) by simp
  have g: "true_tail l \<le> p * page_size l + page_size l" using full(2,6) by simp
  note st = set_tail_wf [OF wf h order_refl g]
  have "(p + 1) * page_size ?l \<le> true_tail ?l" using st(2) by simp
  from issue_shift_wf(2) [OF st(1) this] full(5) r show ?thesis using log_frame_page by fastforce
next
  case (turn p off)
  let ?z = "set_page_data l (p + 1) (replicate (page_size l) 0)"
  let ?l = "?z\<lparr>tail := pack (p + 1) (PAGE_HEADER_SIZE + sz)\<rparr>"
  note z = set_page_data_wf [OF wf, of "replicate (page_size l) 0" "p + 1"]
  have g: "true_tail ?z \<le> (p + 1) * page_size ?z + (PAGE_HEADER_SIZE + sz)" using turn(2,6) z(2,3) by simp
  have wz: "hlog_wf ?z" by (rule z(1)) simp
  note st = set_tail_wf [OF wz _ _ g]
  have wl: "hlog_wf ?l" and tl: "(p + 1) * page_size ?l \<le> true_tail ?l" using st sz(2) z(3) by simp_all
  have "page_data l' q = page_data ?l q" for q
    using log_frame_page [OF issue_shift_wf(2) [OF wl tl]] turn(5) r by simp
  moreover have "page_slot l (page_of l b) \<noteq> page_slot l (p + 1)"
    using wf b(1) by (intro live_page_slot [OF wf turn(4) _ page_of_le_tail [OF wf turn(1) b(2)]]) (auto simp: hlog_wf_def watermarks_ok_def)
  ultimately show ?thesis using page_data_set [of l "p + 1"] wf by (simp add: hlog_wf_def)
qed

subsection \<open>A new log\<close>

lemma hlog_new_wf:
  assumes new: "hlog_new bits mp mutable ep dev = Some l" and m: "1 \<le> mutable" and ep: "epoch_wf ep" "ep_drain ep = []"
  shows "hlog_wf l"
proof -
  let ?n = "next_power_of_two (max mp 2)"
  have bits: "9 \<le> bits" "bits \<le> 30" using new by (auto simp: hlog_new_def split: if_splits)
  have n: "2 \<le> ?n" using next_power_of_two_ge [of "max mp 2"] by simp
  obtain k where k: "?n = 2 ^ k" using next_power_of_two_pow .
  have l: "page_bits l = bits" "buffer_size l = ?n" "mutable_pages l = min mutable (?n - 1)"
    "pages l = replicate ?n (replicate (2 ^ bits) 0)" "tail l = pack 0 64" "log_epoch l = ep"
    and w: "closed_until_address l = 0" "safe_head_address l = 64" "head_address l = 64" "flushed_until_address l = 64"
    "safe_read_only_address l = 64" "read_only_address l = 64"
    using new by (auto simp: hlog_new_def Let_def FIRST_VALID_ADDRESS_def PAGE_HEADER_SIZE_def split: if_splits)
  have u: "unpack (tail l) = (0, 64)" by (simp add: l unpack_pack)
  have sh: "shape_ok l" using bits n m k by (auto simp: shape_ok_def l page_size_def)
  have "tail_ok l" using page_size_range [OF sh] u by (simp add: tail_ok_def l PAGE_HEADER_SIZE_def)
  moreover have "watermarks_ok l" using u by (simp add: watermarks_ok_def true_tail_def w)
  ultimately show ?thesis using sh ep by (simp add: hlog_wf_def l)
qed

definition demo_log :: hlog where
  \<comment> \<open>two pages of 512 bytes and a fresh epoch\<close>
  "demo_log = the (hlog_new 9 2 1 epoch_new [])"

lemma demo_log_new: "hlog_new 9 2 1 epoch_new [] = Some demo_log"
  by (simp add: demo_log_def hlog_new_def Let_def)

lemma demo_log_wf: "hlog_wf demo_log" and demo_log_page: "page_size demo_log = 512"
proof -
  show "hlog_wf demo_log"
    by (rule hlog_new_wf [OF demo_log_new]) (simp, rule epoch_wf_new, simp add: epoch_new_def)
  show "page_size demo_log = 512" by (simp add: demo_log_def hlog_new_def Let_def page_size_def)
qed

text \<open>C38: An allocation that fits a page always answers; it never asks to retry at once, keeps the log
  well formed, hands out a region at or above the old tail, past the header of one page and inside that page, with
  the tail behind it; and it changes no page that holds an address between the head and the tail (the page
  frame it clears for a new page is one whose old page is closed and flushed).\<close>

theorem log_allocation_safe:
  assumes "hlog_wf l" and "0 < sz" and "sz + PAGE_HEADER_SIZE \<le> page_size l"
  shows "\<exists>res l'. try_allocate l sz = Some (res, l') \<and> hlog_wf l' \<and> res \<noteq> RetryNow
    \<and> (\<forall>a. res = AllocOk a \<longrightarrow> allocated l sz a l')
    \<and> (\<forall>b. head_address l \<le> b \<and> b < true_tail l \<longrightarrow> page_data l' (page_of l b) = page_data l (page_of l b))"
  using try_allocate_wf [OF assms] try_allocate_keeps_pages [OF assms] by blast

theorem log_allocation_safe_witness:
  "\<exists>a l'. try_allocate demo_log 48 = Some (AllocOk a, l') \<and> hlog_wf l' \<and> allocated demo_log 48 a l'"
proof -
  have "unpack (tail demo_log) = (0, 64)"
    using unpack_pack [of 64 0]
    by (simp add: demo_log_def hlog_new_def Let_def FIRST_VALID_ADDRESS_def PAGE_HEADER_SIZE_def)
  then have "\<exists>a. fst (the (try_allocate demo_log 48)) = AllocOk a"
    by (simp add: try_allocate_def Let_def demo_log_page PAGE_HEADER_SIZE_def)
  then show ?thesis
    using log_allocation_safe [OF demo_log_wf, of 48] demo_log_page by (auto simp: PAGE_HEADER_SIZE_def)
qed

subsection \<open>Every call keeps the watermarks ordered and moves none back\<close>

definition marks_le :: "hlog \<Rightarrow> hlog \<Rightarrow> bool" where
  "marks_le l l' \<longleftrightarrow> begin_address l \<le> begin_address l' \<and> closed_until_address l \<le> closed_until_address l'
     \<and> safe_head_address l \<le> safe_head_address l' \<and> head_address l \<le> head_address l'
     \<and> flushed_until_address l \<le> flushed_until_address l' \<and> safe_read_only_address l \<le> safe_read_only_address l'
     \<and> read_only_address l \<le> read_only_address l' \<and> true_tail l \<le> true_tail l'"

lemma marks_le_refl [simp]: "marks_le l l"
  by (simp add: marks_le_def)

lemma marks_le_trans [trans]: "marks_le a b \<Longrightarrow> marks_le b c \<Longrightarrow> marks_le a c"
  by (auto simp: marks_le_def)

lemma close_loop_ge: "closed \<le> close_loop ps new_head closed"
proof (induction ps new_head closed rule: close_loop.induct)
  case (1 ps new_head closed)
  then show ?case by (subst close_loop.simps) auto
qed

lemma run_action_le: "marks_le l (run_action a l)"
  using log_frame_shape(3) [OF run_action_frame(1) [where a = a and l = l]] run_action_frame(1) [where a = a and l = l]
  by (cases a) (auto simp: marks_le_def on_pages_marked_read_only_def flush_until_def Let_def
      on_pages_closed_def close_loop_ge log_frame_def)

lemma fold_run_action_le: "marks_le l (fold run_action acts l)"
  by (induction acts arbitrary: l) (auto intro: marks_le_trans [OF run_action_le])

lemma set_epoch_le: "marks_le l (l\<lparr>log_epoch := ep\<rparr>)"
  by (simp add: marks_le_def true_tail_def page_size_def)

lemma bump_action_le: "marks_le l (log_bump_with_action l act)"
  by (auto simp: log_bump_with_action_def split: prod.splits intro: marks_le_trans [OF set_epoch_le fold_run_action_le])

lemma log_refresh_le: "log_refresh l tid = Some l' \<Longrightarrow> marks_le l l'"
  by (auto simp: log_refresh_def split: bind_splits intro: marks_le_trans [OF set_epoch_le fold_run_action_le])

lemma shift_le:
  shows shift_read_only_le: "marks_le l (snd (shift_read_only_address l a))"
    and shift_head_le: "marks_le l (snd (shift_head_address l a))"
proof -
  have "marks_le l (l\<lparr>read_only_address := a\<rparr>)" if "read_only_address l < a"
    using that by (simp add: marks_le_def true_tail_def page_size_def)
  then show "marks_le l (snd (shift_read_only_address l a))"
    by (auto simp: shift_read_only_address_def intro: marks_le_trans [OF _ bump_action_le])
  show "marks_le l (snd (shift_head_address l a))"
  proof (cases "min a (flushed_until_address l) \<le> head_address l")
    case False
    then have "marks_le l (l\<lparr>head_address := min a (flushed_until_address l)\<rparr>)"
      by (auto simp add: marks_le_def true_tail_def page_size_def)
    from marks_le_trans [OF this bump_action_le] show ?thesis
      unfolding shift_head_address_def Let_def if_not_P [OF False] snd_conv .
  qed (simp add: shift_head_address_def)
qed

lemma issue_shift_le: "marks_le l (issue_shift_addresses l n)"
proof -
  have c: "marks_le l (if P then snd (shift_head_address x a) else x)" if "marks_le l x" for P x a
    using that marks_le_trans [OF that shift_head_le] by simp
  show ?thesis unfolding issue_shift_addresses_def Let_def by (rule c) (simp add: shift_read_only_le)
qed

lemma set_tail_le: "true_tail l \<le> true_tail (l\<lparr>tail := t\<rparr>) \<Longrightarrow> marks_le l (l\<lparr>tail := t\<rparr>)"
  by (simp add: marks_le_def)

lemma set_page_data_le: "marks_le l (set_page_data l p b)"
  by (simp add: marks_le_def set_page_data_def true_tail_def page_size_def)

lemma try_allocate_le:
  assumes wf: "hlog_wf l" and sz: "0 < sz" "sz + PAGE_HEADER_SIZE \<le> page_size l"
    and r: "try_allocate l sz = Some (res, l')"
  shows "marks_le l l'"
  using wf sz
proof (cases rule: try_allocate_cases)
  case (here p off)
  have "true_tail l \<le> p * page_size l + (off + sz)" using here(4) by simp
  from set_tail_wf(2) [OF wf _ _ this] here r show ?thesis by (auto intro!: set_tail_le)
next
  case (full p off)
  have h: "PAGE_HEADER_SIZE \<le> page_size l" and g: "true_tail l \<le> p * page_size l + page_size l"
    using sz(2) full(2,6) by simp_all
  then have "marks_le l (l\<lparr>tail := pack p (page_size l)\<rparr>)"
    using set_tail_wf(2) [OF wf h order_refl g] by (intro set_tail_le) simp
  from marks_le_trans [OF this issue_shift_le] full(5) r show ?thesis by auto
next
  case (turn p off)
  let ?z = "set_page_data l (p + 1) (replicate (page_size l) 0)"
  note z = set_page_data_wf [OF wf, of "replicate (page_size l) 0" "p + 1"]
  have wz: "hlog_wf ?z" by (rule z(1)) simp
  have g: "true_tail ?z \<le> (p + 1) * page_size ?z + (PAGE_HEADER_SIZE + sz)" using turn(2,6) z(2,3) by simp
  have "marks_le ?z (?z\<lparr>tail := pack (p + 1) (PAGE_HEADER_SIZE + sz)\<rparr>)"
    using set_tail_wf(2) [OF wz _ _ g] z(3) sz(2) g by (intro set_tail_le) simp
  from marks_le_trans [OF marks_le_trans [OF set_page_data_le this] issue_shift_le] turn(5) r show ?thesis by auto
qed

text \<open>The calls of the log as one relation; \<open>ls_store\<close> is any write of record bytes into a page.\<close>

inductive log_step :: "hlog \<Rightarrow> hlog \<Rightarrow> bool" where
  ls_alloc: "0 < sz \<Longrightarrow> try_allocate l sz = Some (res, l') \<Longrightarrow> log_step l l'"
| ls_store: "length b = page_size l \<Longrightarrow> log_step l (set_page_data l p b)"
| ls_refresh: "0 < tid \<Longrightarrow> log_refresh l tid = Some l' \<Longrightarrow> log_step l l'"
| ls_read_only: "a \<le> true_tail l \<Longrightarrow> log_step l (snd (shift_read_only_address l a))"
| ls_head: "log_step l (snd (shift_head_address l a))"
| ls_wait: "wait_flushed k l a = Some l' \<Longrightarrow> log_step l l'"

lemma wait_round_wf:
  assumes wf: "hlog_wf l" and b: "bump_current_epoch (log_epoch l) = (n, acts, ep)"
  shows "hlog_wf (fold run_action acts (l\<lparr>log_epoch := ep\<rparr>))"
proof -
  have "epoch_wf (log_epoch l)" using wf by (simp add: hlog_wf_def)
  note s = released_subset(2) [OF this b]
  have "\<forall>x \<in> set acts. action_ok l x" "\<forall>x \<in> set (ep_drain ep). action_ok l (d_action x)"
    using s hlog_wf_actions [OF wf] by auto
  from run_released(1) [OF wf s [THEN conjunct1] this] show ?thesis .
qed

lemma wait_flushed_wf: "hlog_wf l \<Longrightarrow> wait_flushed k l a = Some l' \<Longrightarrow> hlog_wf l' \<and> marks_le l l' \<and> a \<le> flushed_until_address l'"
proof (induction k l a rule: wait_flushed.induct)
  case (2 k l a)
  show ?case
  proof (cases "flushed_until_address l < a")
    case True
    obtain n acts ep where b: "bump_current_epoch (log_epoch l) = (n, acts, ep)" by (metis prod_cases3)
    let ?l = "fold run_action acts (l\<lparr>log_epoch := ep\<rparr>)"
    have "wait_flushed k ?l a = Some l'" using 2(3) True b by simp
    from 2(1) [OF True b [symmetric] refl refl wait_round_wf [OF 2(2) b] this] show ?thesis
      using marks_le_trans [OF marks_le_trans [OF set_epoch_le fold_run_action_le]] by blast
  qed (use 2 in auto)
qed (auto split: if_splits)

lemma log_step_wf: "log_step l l' \<Longrightarrow> hlog_wf l \<Longrightarrow> hlog_wf l' \<and> marks_le l l'"
proof (induction rule: log_step.induct)
  case (ls_alloc sz l res l')
  then have "sz + PAGE_HEADER_SIZE \<le> page_size l" by (auto simp: try_allocate_def split: if_splits)
  from try_allocate_wf [OF ls_alloc(3,1) this] try_allocate_le [OF ls_alloc(3,1) this ls_alloc(2)] ls_alloc(2)
  show ?case by auto
next
  case (ls_store b l p)
  then show ?case using set_page_data_wf(1) set_page_data_le by blast
next
  case (ls_refresh tid l l')
  then show ?case using log_refresh_wf(1) log_refresh_le by simp
next
  case (ls_read_only a l)
  then show ?case by (simp add: shift_read_only_wf(1) shift_read_only_le)
next
  case (ls_head l a)
  then show ?case by (simp add: shift_head_wf(1) shift_head_le)
next
  case (ls_wait k l a l')
  then show ?case using wait_flushed_wf by simp
qed

text \<open>C39: From a new log, whatever calls follow (allocations, record writes, epoch refreshes, shifts of the read-only
  and head address, waits for a flush), the log stays well formed: ClosedUntil, SafeHead, Head, FlushedUntil,
  SafeReadOnly, ReadOnly and the tail are in this order, every pending action names a published boundary; and
  none of the watermarks ever moves back.\<close>

theorem log_watermarks_invariant:
  assumes new: "hlog_new bits mp mutable epoch_new dev = Some l0" and m: "1 \<le> mutable"
    and "log_step\<^sup>*\<^sup>* l0 l" and "log_step\<^sup>*\<^sup>* l l'"
  shows "hlog_wf l' \<and> marks_le l l'"
proof -
  have "hlog_wf l0" using hlog_new_wf [OF new m epoch_wf_new] by (simp add: epoch_new_def)
  with assms(3) have wf: "hlog_wf l" by (induction rule: rtranclp_induct) (auto dest: log_step_wf)
  show ?thesis using assms(4)
    by (induction rule: rtranclp_induct) (use wf log_step_wf marks_le_trans in auto)
qed

theorem log_watermarks_invariant_witness:
  "\<exists>l'. try_allocate demo_log 48 = Some (AllocOk 64, l') \<and> hlog_wf l' \<and> marks_le demo_log l'"
proof -
  have "unpack (tail demo_log) = (0, 64)"
    using unpack_pack [of 64 0]
    by (simp add: demo_log_def hlog_new_def Let_def FIRST_VALID_ADDRESS_def PAGE_HEADER_SIZE_def)
  then obtain l' where l': "try_allocate demo_log 48 = Some (AllocOk 64, l')"
    by (simp add: try_allocate_def Let_def demo_log_page PAGE_HEADER_SIZE_def)
  then have "log_step demo_log l'" by (rule ls_alloc [rotated]) simp
  then show ?thesis
    using l' log_watermarks_invariant [OF demo_log_new, of demo_log l'] by auto
qed

end
