(* ===== verification/LogFlush.thy ===== *)
theory LogFlush
  imports LogSafety
begin

text \<open>
  The hybrid log and its device: a flush copies exactly the bytes of the pages, the flush of a checkpoint reaches the
  tail, the tail that \<open>tail_address\<close> reports, and the walk over the records of a page.
\<close>

subsection \<open>The device\<close>

lemma length_write_at: "length (write_at d a x) = max (length d) (a + length x)"
  by (auto simp: write_at_def Let_def)

lemma nth_write_at:
  "i < length (write_at d a x) \<Longrightarrow> write_at d a x ! i =
     (if a \<le> i \<and> i < a + length x then x ! (i - a) else if i < length d then d ! i else 0)"
  by (auto simp: write_at_def Let_def nth_splice nth_append)

lemma read_at_write_at: "read_at (write_at d a x) a (length x) = Some x"
  unfolding read_at_def length_write_at
  by (auto intro!: nth_equalityI simp: nth_slice length_write_at nth_write_at)

definition log_byte :: "hlog \<Rightarrow> nat \<Rightarrow> byte" where
  \<comment> \<open>the byte of the log at an address, in its page frame\<close>
  "log_byte l a = page_data l (page_of l a) ! page_offset l a"

lemma page_data_length: "shape_ok l \<Longrightarrow> length (page_data l p) = page_size l"
  using page_slot_lt [of l p] by (auto simp: page_data_def shape_ok_def)

lemma flush_loop_spec:
  assumes sh: "shape_ok l"
  shows "addr < until \<Longrightarrow> until \<le> length (flush_loop l addr until d)"
    and "length d \<le> length (flush_loop l addr until d)"
    and "i < length d \<Longrightarrow> i < addr \<Longrightarrow> flush_loop l addr until d ! i = d ! i"
    and "addr \<le> i \<Longrightarrow> i < until \<Longrightarrow> flush_loop l addr until d ! i = log_byte l i"
proof -
  have "(addr < until \<longrightarrow> until \<le> length (flush_loop l addr until d)) \<and> length d \<le> length (flush_loop l addr until d)
    \<and> (\<forall>i. i < length d \<longrightarrow> i < addr \<longrightarrow> flush_loop l addr until d ! i = d ! i)
    \<and> (\<forall>i. addr \<le> i \<longrightarrow> i < until \<longrightarrow> flush_loop l addr until d ! i = log_byte l i)"
    using sh
  proof (induction l addr until d rule: flush_loop.induct)
    case (1 l addr until d)
    show ?case
    proof (cases "addr < until")
      case True
      define p where "p = page_of l addr"
      define e where "e = min until (p * page_size l + page_size l)"
      define x where "x = slice_at (page_data l p) (addr - p * page_size l) (e - addr)"
      have b: "p * page_size l \<le> addr" "addr < p * page_size l + page_size l"
        using page_of_bounds(1) [of l addr] page_of_bounds(2) [of addr l] by (simp_all add: p_def)
      have e: "addr < e" "e \<le> until" "e \<le> p * page_size l + page_size l" using b True by (auto simp: e_def)
      have sb: "push_bit (page_bits l) p = p * page_size l"
        by (simp add: page_size_def push_bit_eq_mult)
      have ee: "p * page_size l + (e - p * page_size l) = e" "e - p * page_size l - (addr - p * page_size l) = e - addr"
        using e b by auto
      have f: "flush_loop l addr until d = flush_loop l e until (write_at d addr x)"
        by (subst flush_loop.simps) (simp only: True if_True Let_def p_def [symmetric] sb e_def [symmetric] ee x_def [symmetric])
      have ih: "(e < until \<longrightarrow> until \<le> length (flush_loop l e until (write_at d addr x)))
        \<and> length (write_at d addr x) \<le> length (flush_loop l e until (write_at d addr x))
        \<and> (\<forall>i. i < length (write_at d addr x) \<longrightarrow> i < e \<longrightarrow> flush_loop l e until (write_at d addr x) ! i = write_at d addr x ! i)
        \<and> (\<forall>i. e \<le> i \<longrightarrow> i < until \<longrightarrow> flush_loop l e until (write_at d addr x) ! i = log_byte l i)"
        using 1(1) [OF True refl refl refl refl 1(2)]
        unfolding Let_def p_def [symmetric] sb e_def [symmetric] ee x_def [symmetric] .
      have lx: "length x = e - addr"
        using page_data_length [OF 1(2)] e b by (simp add: x_def)
      have xb: "x ! (i - addr) = log_byte l i" if "addr \<le> i" "i < e" for i
      proof -
        have "page_of l i = p" by (rule page_ofI) (use that e b in auto)
        then have "log_byte l i = page_data l p ! (i - p * page_size l)"
          using page_of_bounds(3) [of l i] by (simp add: log_byte_def)
        moreover have "x ! (i - addr) = page_data l p ! (addr - p * page_size l + (i - addr))"
          unfolding x_def using that e b page_data_length [OF 1(2)] by (intro nth_slice) auto
        ultimately show ?thesis using that b by simp
      qed
      have lw: "length (write_at d addr x) = max (length d) e" using e lx by (simp add: length_write_at)
      have w: "write_at d addr x ! i = (if addr \<le> i then log_byte l i else d ! i)"
        if "i < e" "addr \<le> i \<or> i < length d" for i
        using that nth_write_at [of i d addr x] lw lx e xb by auto
      have m: "flush_loop l addr until d ! i = (if addr \<le> i then log_byte l i else d ! i)"
        if "i < e" "addr \<le> i \<or> i < length d" for i
        using w [OF that] ih that lw f by auto
      show ?thesis
      proof (intro conjI allI impI)
        show "until \<le> length (flush_loop l addr until d)" using ih f lw e by (cases "e < until") auto
        show "length d \<le> length (flush_loop l addr until d)" using ih f lw by auto
        fix i
        show "i < length d \<Longrightarrow> i < addr \<Longrightarrow> flush_loop l addr until d ! i = d ! i" using m [of i] e by simp
        show "addr \<le> i \<Longrightarrow> i < until \<Longrightarrow> flush_loop l addr until d ! i = log_byte l i"
          using m [of i] ih f by (cases "i < e") auto
      qed
    qed (simp add: flush_loop.simps)
  qed
  then show "addr < until \<Longrightarrow> until \<le> length (flush_loop l addr until d)"
    "length d \<le> length (flush_loop l addr until d)"
    "i < length d \<Longrightarrow> i < addr \<Longrightarrow> flush_loop l addr until d ! i = d ! i"
    "addr \<le> i \<Longrightarrow> i < until \<Longrightarrow> flush_loop l addr until d ! i = log_byte l i" by auto
qed


text \<open>What a run of log steps has put on the device: the bytes of the pages, from the old flush mark to the new one.\<close>

definition flushed_bytes :: "hlog \<Rightarrow> hlog \<Rightarrow> bool" where
  "flushed_bytes l l' \<longleftrightarrow> flushed_until_address l \<le> flushed_until_address l' \<and> length (device l) \<le> length (device l')
     \<and> (\<forall>i < length (device l). i < flushed_until_address l \<longrightarrow> device l' ! i = device l ! i)
     \<and> (\<forall>i. flushed_until_address l \<le> i \<and> i < flushed_until_address l' \<longrightarrow>
          i < length (device l') \<and> device l' ! i = log_byte l i)"

lemma flushed_bytes_refl: "device l' = device l \<Longrightarrow> flushed_until_address l' = flushed_until_address l \<Longrightarrow> flushed_bytes l l'"
  by (auto simp add: flushed_bytes_def)

lemma log_frame_byte: "log_frame l l' \<Longrightarrow> log_byte l' a = log_byte l a"
  by (simp add: log_byte_def page_data_def page_slot_def page_of_def page_offset_def page_size_def log_frame_def)

lemma flushed_bytes_trans:
  assumes "flushed_bytes a b" and "flushed_bytes b c" and "log_frame a b"
  shows "flushed_bytes a c"
  unfolding flushed_bytes_def
proof (intro conjI allI impI)
  show "flushed_until_address a \<le> flushed_until_address c" "length (device a) \<le> length (device c)"
    using assms(1,2) by (auto simp: flushed_bytes_def)
  fix i
  show "device c ! i = device a ! i" if "i < length (device a)" "i < flushed_until_address a"
    using that assms(1,2) by (auto simp: flushed_bytes_def)
  assume i: "flushed_until_address a \<le> i \<and> i < flushed_until_address c"
  have "i < length (device c) \<and> device c ! i = log_byte a i"
  proof (cases "i < flushed_until_address b")
    case True
    then have "i < length (device b)" "device b ! i = log_byte a i" using i assms(1) by (auto simp: flushed_bytes_def)
    with True assms(2) show ?thesis by (auto simp: flushed_bytes_def)
  next
    case False
    with i assms(2) log_frame_byte [OF assms(3)] show ?thesis by (auto simp: flushed_bytes_def)
  qed
  then show "i < length (device c)" "device c ! i = log_byte a i" by auto
qed

lemma flush_until_flushed:
  assumes sh: "shape_ok l"
  shows "flushed_bytes l (flush_until l a)" and "a \<le> flushed_until_address (flush_until l a)"
proof -
  show "a \<le> flushed_until_address (flush_until l a)" by (simp add: flush_until_def Let_def)
  let ?f = "flushed_until_address l"
  show "flushed_bytes l (flush_until l a)"
  proof (cases "a \<le> ?f")
    case False
    then have "?f < a" by simp
    note f = flush_loop_spec(1,2) [OF sh, where addr = ?f and until = a and d = "device l"]
    have "flush_until l a = l\<lparr>device := flush_loop l ?f a (device l), flushed_until_address := a\<rparr>"
      using \<open>?f < a\<close> by (simp add: flush_until_def Let_def)
    then show ?thesis
      using f(1) [OF \<open>?f < a\<close>] f(2) flush_loop_spec(3,4) [OF sh] \<open>?f < a\<close> by (auto simp: flushed_bytes_def)
  qed (simp add: flush_until_def flushed_bytes_refl)
qed

lemma run_action_flushed:
  assumes sh: "shape_ok l"
  shows "flushed_bytes l (run_action a l)" and "a = PagesMarkedReadOnly x \<Longrightarrow> x \<le> flushed_until_address (run_action a l)"
proof -
  have "flushed_bytes l (run_action a l) \<and> (a = PagesMarkedReadOnly x \<longrightarrow> x \<le> flushed_until_address (run_action a l))" for x
  proof (cases a)
    case (PagesMarkedReadOnly y)
    let ?l = "l\<lparr>safe_read_only_address := max (safe_read_only_address l) y\<rparr>"
    have fr: "log_frame l ?l" by (simp add: log_frame_def)
    have sh': "shape_ok ?l" using sh log_frame_shape(1) [OF fr] by simp
    have "flushed_bytes l ?l" by (rule flushed_bytes_refl) simp_all
    from flushed_bytes_trans [OF this flush_until_flushed(1) [OF sh', of y] fr] flush_until_flushed(2) [OF sh', of y]
    show ?thesis by (auto simp add: PagesMarkedReadOnly on_pages_marked_read_only_def)
  next
    case (PagesClosed y)
    then show ?thesis by (auto intro!: flushed_bytes_refl simp: on_pages_closed_def)
  qed (auto intro!: flushed_bytes_refl)
  then show "flushed_bytes l (run_action a l)" "a = PagesMarkedReadOnly x \<Longrightarrow> x \<le> flushed_until_address (run_action a l)"
    by auto
qed

lemma fold_run_action_flushed:
  "shape_ok l \<Longrightarrow> flushed_bytes l (fold run_action acts l)
     \<and> (PagesMarkedReadOnly x \<in> set acts \<longrightarrow> x \<le> flushed_until_address (fold run_action acts l))"
proof (induction acts arbitrary: l)
  case (Cons a acts)
  have fr: "log_frame l (run_action a l)" by (rule run_action_frame(1))
  have sh: "shape_ok (run_action a l)" using Cons.prems log_frame_shape(1) [OF fr] by simp
  note ih = Cons.IH [OF sh]
  have "flushed_bytes l (fold run_action (a # acts) l)"
    using flushed_bytes_trans [OF run_action_flushed(1) [OF Cons.prems] _ fr] ih by simp
  moreover have "flushed_until_address (run_action a l) \<le> flushed_until_address (fold run_action acts (run_action a l))"
    using ih by (simp add: flushed_bytes_def)
  ultimately show ?case using ih run_action_flushed(2) [OF Cons.prems, of a x] by auto
qed (simp add: flushed_bytes_refl)

lemma released_flushed:
  assumes "shape_ok l"
  shows "flushed_bytes l (fold run_action acts (l\<lparr>log_epoch := ep\<rparr>))"
    and "log_frame l (fold run_action acts (l\<lparr>log_epoch := ep\<rparr>))"
    and "PagesMarkedReadOnly x \<in> set acts \<Longrightarrow> x \<le> flushed_until_address (fold run_action acts (l\<lparr>log_epoch := ep\<rparr>))"
proof -
  have fr: "log_frame l (l\<lparr>log_epoch := ep\<rparr>)" by (simp add: log_frame_def)
  have sh: "shape_ok (l\<lparr>log_epoch := ep\<rparr>)" using assms log_frame_shape(1) [OF fr] by simp
  note f = fold_run_action_flushed [OF sh, of acts]
  have "flushed_bytes l (l\<lparr>log_epoch := ep\<rparr>)" by (simp add: flushed_bytes_refl)
  from flushed_bytes_trans [OF this _ fr] f show "flushed_bytes l (fold run_action acts (l\<lparr>log_epoch := ep\<rparr>))" by blast
  have "log_frame k (fold run_action acts k)" for k
    by (induction acts arbitrary: k) (auto intro: log_frame_trans [OF run_action_frame(1)])
  from log_frame_trans [OF fr this] show "log_frame l (fold run_action acts (l\<lparr>log_epoch := ep\<rparr>))" .
  show "x \<le> flushed_until_address (fold run_action acts (l\<lparr>log_epoch := ep\<rparr>))" if "PagesMarkedReadOnly x \<in> set acts"
    using f that by blast
qed

lemma shift_read_only_flushed:
  assumes "shape_ok l"
  shows "flushed_bytes l (snd (shift_read_only_address l a)) \<and> log_frame l (snd (shift_read_only_address l a))"
proof -
  let ?l = "l\<lparr>read_only_address := a\<rparr>"
  obtain n acts ep where b: "bump_with_action (log_epoch ?l) (PagesMarkedReadOnly a) = (n, acts, ep)" by (metis prod_cases3)
  have fr: "log_frame l ?l" by (simp add: log_frame_def)
  have sh: "shape_ok ?l" using assms log_frame_shape(1) [OF fr] by simp
  have "flushed_bytes l ?l" by (simp add: flushed_bytes_refl)
  from flushed_bytes_trans [OF this released_flushed(1) [OF sh] fr] log_frame_trans [OF fr released_flushed(2) [OF sh]] b
  show ?thesis by (simp add: shift_read_only_address_def log_bump_with_action_def flushed_bytes_refl)
qed

lemma wait_flushed_flushed:
  "shape_ok l \<Longrightarrow> wait_flushed k l a = Some l' \<Longrightarrow> flushed_bytes l l' \<and> log_frame l l' \<and> a \<le> flushed_until_address l'"
proof (induction k l a rule: wait_flushed.induct)
  case (2 k l a)
  show ?case
  proof (cases "flushed_until_address l < a")
    case True
    obtain n acts ep where b: "bump_current_epoch (log_epoch l) = (n, acts, ep)" by (metis prod_cases3)
    let ?l = "fold run_action acts (l\<lparr>log_epoch := ep\<rparr>)"
    note r = released_flushed(1,2) [OF 2(2), where acts = acts and ep = ep]
    have w: "wait_flushed k ?l a = Some l'" using 2(3) True b by simp
    have sh: "shape_ok ?l" using 2(2) log_frame_shape(1) [OF r(2)] by simp
    from 2(1) [OF True b [symmetric] refl refl sh w] show ?thesis
      using flushed_bytes_trans [OF r(1) _ r(2)] log_frame_trans [OF r(2)] by blast
  qed (use 2 in \<open>auto simp: flushed_bytes_refl\<close>)
qed (auto simp: flushed_bytes_refl split: if_splits)

subsection \<open>The tail that is reported\<close>

lemma or_page_size:
  fixes p k :: nat
  shows "push_bit k p OR 2 ^ k = (if even p then push_bit k p + 2 ^ k else push_bit k p)"
proof -
  have s: "push_bit (Suc k) q OR 2 ^ k = push_bit (Suc k) q + 2 ^ k" for q :: nat by (rule push_bit_or) simp
  show ?thesis
  proof (cases "even p")
    case True
    then obtain q where "p = 2 * q" by blast
    then have "push_bit k p = push_bit (Suc k) q" by (simp add: push_bit_eq_mult)
    with True s show ?thesis by simp
  next
    case False
    then obtain q where "p = 2 * q + 1" using oddE by blast
    then have e: "push_bit k p = push_bit (Suc k) q OR 2 ^ k" using s [of q] by (simp add: push_bit_eq_mult algebra_simps)
    have "push_bit k p OR 2 ^ k = push_bit k p" unfolding e by (simp add: or.assoc)
    with False show ?thesis by simp
  qed
qed

lemma tail_address_eq:
  assumes wf: "hlog_wf l" and u: "unpack (tail l) = (p, off)"
  shows "tail_address l = Some (if off = page_size l \<and> odd p then true_tail l - page_size l else true_tail l)"
proof -
  have off: "off \<le> page_size l" using wf u by (simp add: hlog_wf_def tail_ok_def)
  have pb: "push_bit (page_bits l) p = p * page_size l" by (simp add: page_size_def push_bit_eq_mult)
  show ?thesis
  proof (cases "off = page_size l")
    case True
    then show ?thesis
      using u or_page_size [of "page_bits l" p]
      by (simp add: tail_address_def true_tail_def pb) (simp add: page_size_def push_bit_eq_mult)
  next
    case False
    with off have "off < 2 ^ page_bits l" by (simp add: page_size_def)
    with push_bit_or [OF this, of p] False off u show ?thesis by (simp add: tail_address_def true_tail_def pb)
  qed
qed

text \<open>C40: The tail that \<open>tail_address\<close> reports is the true one, page start plus offset, except when an odd page is
  exactly full: then the disjunction with the offset is lost and the start of that page is reported, a whole page
  too low.\<close>

theorem tail_address_reported:
  assumes "hlog_wf l" and "unpack (tail l) = (p, off)"
  shows "tail_address l = Some (if off = page_size l \<and> odd p then true_tail l - page_size l else true_tail l)"
  by (rule tail_address_eq [OF assms])

definition full_log :: hlog where
  \<comment> \<open>page 1 exactly full\<close>
  "full_log = demo_log\<lparr>tail := pack 1 512\<rparr>"

theorem tail_address_reported_witness: "hlog_wf full_log \<and> true_tail full_log = 1024 \<and> tail_address full_log = Some 512"
proof -
  have u: "unpack (pack 1 512) = (1, 512)" by (rule unpack_pack) simp
  have "true_tail demo_log = 64"
    using unpack_pack [of 64 0]
    by (simp add: demo_log_def hlog_new_def Let_def FIRST_VALID_ADDRESS_def PAGE_HEADER_SIZE_def true_tail_def)
  then have g: "true_tail demo_log \<le> 1 * page_size demo_log + 512" by (simp add: demo_log_page)
  note st = set_tail_wf [OF demo_log_wf _ _ g, folded full_log_def]
  have wf: "hlog_wf full_log" and tt: "true_tail full_log = 1024"
    using st by (simp_all add: PAGE_HEADER_SIZE_def demo_log_page)
  have "unpack (tail full_log) = (1, 512)" "page_size full_log = 512" using u demo_log_page by (simp_all add: full_log_def)
  with tail_address_reported [OF wf this(1)] wf tt show ?thesis by simp
qed

subsection \<open>Flushing to the tail\<close>

definition used_log :: hlog where
  \<comment> \<open>48 bytes allocated\<close>
  "used_log = demo_log\<lparr>tail := pack 0 112\<rparr>"

lemma used_log:
  shows "hlog_wf used_log" and "tail_address used_log = Some 112" and "read_only_address used_log = 64"
    and "\<forall>s \<in> set (ep_table (log_epoch used_log)). s_epoch s = UNPROTECTED"
proof -
  have u: "unpack (pack 0 112) = (0, 112)" by (rule unpack_pack) simp
  have "true_tail demo_log = 64"
    using unpack_pack [of 64 0]
    by (simp add: demo_log_def hlog_new_def Let_def FIRST_VALID_ADDRESS_def PAGE_HEADER_SIZE_def true_tail_def)
  then have g: "true_tail demo_log \<le> 0 * page_size demo_log + 112" by (simp add: demo_log_page)
  note st = set_tail_wf [OF demo_log_wf _ _ g, folded used_log_def]
  show wf: "hlog_wf used_log" using st by (simp add: PAGE_HEADER_SIZE_def demo_log_page)
  have tt: "true_tail used_log = 112" using st by (simp add: PAGE_HEADER_SIZE_def demo_log_page)
  have "unpack (tail used_log) = (0, 112)" using u by (simp add: used_log_def)
  from tail_address_eq [OF wf this] tt show "tail_address used_log = Some 112" by simp
  show "read_only_address used_log = 64" "\<forall>s \<in> set (ep_table (log_epoch used_log)). s_epoch s = UNPROTECTED"
    by (auto simp: used_log_def demo_log_def hlog_new_def Let_def FIRST_VALID_ADDRESS_def PAGE_HEADER_SIZE_def epoch_new_def)
qed

text \<open>With no thread inside the epoch, one bump runs every pending action.\<close>

lemma bump_with_action_idle:
  assumes wf: "epoch_wf ep" and idle: "\<forall>s \<in> set (ep_table ep). s_epoch s = UNPROTECTED"
  shows "\<exists>ep'. bump_with_action ep act = (ep_current ep + 1, map d_action (ep_drain ep) @ [act], ep')"
proof -
  let ?d = "ep_drain ep @ [\<lparr>d_epoch = ep_current ep, d_action = act\<rparr>]"
  let ?x = "ep\<lparr>ep_drain := ?d, ep_drain_count := length ?d, ep_current := ep_current ep + 1\<rparr>"
  have "compute_safe_epoch ?x = ep_current ep" using idle by (simp add: compute_safe_epoch_def min_epoch_unprotected)
  moreover have "filter (\<lambda>a. d_epoch a \<le> ep_current ep) ?d = ?d"
    using wf by (auto simp: epoch_wf_def filter_id_conv less_imp_le)
  ultimately show ?thesis
    using drain_eq(2) [OF epoch_wf_push [OF wf refl, of act]] by (simp add: bump_with_action_def Let_def)
qed

lemma flush_to_tail_idle:
  assumes wf: "hlog_wf l" and idle: "\<forall>s \<in> set (ep_table (log_epoch l)). s_epoch s = UNPROTECTED"
    and t: "tail_address l = Some t" "read_only_address l < t"
  shows "\<exists>l'. shift_read_only_to_tail l = Some (t, l') \<and> wait_flushed 0 l' t = Some l'"
proof -
  let ?l = "l\<lparr>read_only_address := t\<rparr>"
  have sh: "shape_ok l" and ew: "epoch_wf (log_epoch l)" using wf by (simp_all add: hlog_wf_def)
  have fr: "log_frame l ?l" by (simp add: log_frame_def)
  have sh': "shape_ok ?l" using sh log_frame_shape(1) [OF fr] by simp
  obtain ep where b: "bump_with_action (log_epoch l) (PagesMarkedReadOnly t) =
      (ep_current (log_epoch l) + 1, map d_action (ep_drain (log_epoch l)) @ [PagesMarkedReadOnly t], ep)"
    using bump_with_action_idle [OF ew idle] by blast
  let ?acts = "map d_action (ep_drain (log_epoch l)) @ [PagesMarkedReadOnly t]"
  have "t \<le> flushed_until_address (fold run_action ?acts (?l\<lparr>log_epoch := ep\<rparr>))"
    by (rule released_flushed(3) [OF sh']) simp
  moreover have "shift_read_only_to_tail l = Some (t, fold run_action ?acts (?l\<lparr>log_epoch := ep\<rparr>))"
    using t b by (simp add: shift_read_only_to_tail_def shift_read_only_address_def log_bump_with_action_def)
  ultimately show ?thesis by simp
qed

lemma flush_to_tail_bytes:
  assumes wf: "hlog_wf l" and s: "shift_read_only_to_tail l = Some (t, l1)" and w: "wait_flushed k l1 t = Some l2"
  shows "t \<le> flushed_until_address l2
    \<and> (\<forall>i. flushed_until_address l \<le> i \<and> i < t \<longrightarrow>
         i < length (device l2) \<and> device l2 ! i = page_data l (page_of l i) ! page_offset l i)
    \<and> (\<forall>i < length (device l). i < flushed_until_address l \<longrightarrow> device l2 ! i = device l ! i)
    \<and> pages l2 = pages l \<and> tail l2 = tail l"
proof -
  have sh: "shape_ok l" using wf by (simp add: hlog_wf_def)
  have l1: "l1 = snd (shift_read_only_address l t)" using s by (auto simp: shift_read_only_to_tail_def split: bind_splits)
  note f = shift_read_only_flushed [OF sh, of t, folded l1]
  have sh1: "shape_ok l1" using sh log_frame_shape(1) f by blast
  note g = wait_flushed_flushed [OF sh1 w]
  have "flushed_bytes l l2" using flushed_bytes_trans f g by blast
  moreover have "log_frame l l2" using log_frame_trans f g by blast
  ultimately show ?thesis using g unfolding flushed_bytes_def log_byte_def log_frame_def by auto
qed

text \<open>The flush of a checkpoint: after \<open>shift_read_only_to_tail\<close> and \<open>wait_flushed\<close>, every byte of the log from the
  old flush mark up to the tail is on the device, equal to the byte in its page; the bytes below the mark are
  untouched, and the pages and the tail are as before.\<close>

theorem flush_to_tail_durable:
  assumes "hlog_wf l" and "shift_read_only_to_tail l = Some (t, l1)" and "wait_flushed k l1 t = Some l2"
  shows "t \<le> flushed_until_address l2
    \<and> (\<forall>i. flushed_until_address l \<le> i \<and> i < t \<longrightarrow>
         i < length (device l2) \<and> device l2 ! i = page_data l (page_of l i) ! page_offset l i)
    \<and> (\<forall>i < length (device l). i < flushed_until_address l \<longrightarrow> device l2 ! i = device l ! i)
    \<and> pages l2 = pages l \<and> tail l2 = tail l"
  by (rule flush_to_tail_bytes [OF assms])

theorem flush_to_tail_durable_witness:
  "\<exists>l1 l2. shift_read_only_to_tail used_log = Some (112, l1) \<and> wait_flushed 0 l1 112 = Some l2
     \<and> 112 \<le> flushed_until_address l2 \<and> pages l2 = pages used_log"
proof -
  obtain l1 where l1: "shift_read_only_to_tail used_log = Some (112, l1)" "wait_flushed 0 l1 112 = Some l1"
    using flush_to_tail_idle [OF used_log(1,4,2)] used_log(3) by auto
  with flush_to_tail_durable [OF used_log(1) l1] show ?thesis by blast
qed

text \<open>When no thread is inside the epoch and the tail has moved past the read-only mark, that flush does not
  wait: the shift itself runs the deferred flush and \<open>wait_flushed\<close> returns at once.\<close>

theorem flush_to_tail_returns:
  assumes "hlog_wf l" and "\<forall>s \<in> set (ep_table (log_epoch l)). s_epoch s = UNPROTECTED"
    and "tail_address l = Some t" "read_only_address l < t"
  shows "\<exists>l'. shift_read_only_to_tail l = Some (t, l') \<and> wait_flushed 0 l' t = Some l'"
  by (rule flush_to_tail_idle [OF assms])

theorem flush_to_tail_returns_witness:
  "\<exists>l'. shift_read_only_to_tail used_log = Some (112, l') \<and> wait_flushed 0 l' 112 = Some l'"
  using flush_to_tail_returns [OF used_log(1,4,2)] used_log(3) by simp

subsection \<open>Walking the records of a page\<close>

text \<open>Records laid out one behind the other, each at the place the one before it leaves.\<close>

fun laid_out :: "bytes \<Rightarrow> nat \<Rightarrow> rec list \<Rightarrow> bool" where
  "laid_out base off [] \<longleftrightarrow> True"
| "laid_out base off (r # rs) \<longleftrightarrow> rec_at base off r \<and> laid_out base (off + rec_size r) rs"

fun rec_offsets :: "nat \<Rightarrow> rec list \<Rightarrow> nat list" where
  "rec_offsets off [] = []"
| "rec_offsets off (r # rs) = off # rec_offsets (off + rec_size r) rs"

definition recs_end :: "nat \<Rightarrow> rec list \<Rightarrow> nat" where
  "recs_end off rs = off + sum_list (map rec_size rs)"

definition has_header :: "rec \<Rightarrow> bool" where
  "has_header r \<longleftrightarrow> r_info r \<noteq> 0 \<or> r_key r \<noteq> [] \<or> r_buf r \<noteq> []"

lemma rec_size_ge: "24 \<le> rec_size r" "length (encode r) \<le> rec_size r"
  using align8_ge [of "length (encode r)"] by (simp_all add: rec_size_def length_encode layout_sizes)

lemma walk_laid_out:
  assumes "laid_out base off rs" and "list_all has_header rs" and "recs_end off rs \<le> limit"
  shows "records_in_buf base off limit = rec_offsets off rs @ records_in_buf base (recs_end off rs) limit
    \<and> map (decode base) (rec_offsets off rs) = rs"
  using assms
proof (induction rs arbitrary: off)
  case (Cons r rs)
  have at: "rec_at base off r" using Cons.prems(1) by simp
  note h = rec_at_header [OF at]
  have e: "recs_end off (r # rs) = recs_end (off + rec_size r) rs" by (simp add: recs_end_def)
  have fit: "off + rec_size r \<le> limit" using Cons.prems(3) by (simp add: recs_end_def)
  have "rp_info base off \<noteq> 0 \<or> rp_key_len base off \<noteq> 0 \<or> rp_value_cap base off \<noteq> 0"
    using Cons.prems(2) h by (auto simp: has_header_def)
  then have "records_in_buf base off limit = off # records_in_buf base (off + rec_size r) limit"
    using fit rec_size_ge(1) [of r] rec_at_reads(4) [OF at]
    by (subst records_in_buf.simps) (auto simp: layout_sizes)
  then show ?case
    using Cons.IH [of "off + rec_size r"] Cons.prems e rec_at_decode [OF at] by simp
qed (simp add: recs_end_def)

lemma walk_stops:
  "limit < off + MIN_DISK_READ \<or> (rp_info base off = 0 \<and> rp_key_len base off = 0 \<and> rp_value_cap base off = 0) \<Longrightarrow>
     records_in_buf base off limit = []"
  by (subst records_in_buf.simps) auto

text \<open>The walk over a page visits exactly the records that were laid out in it, each at its own offset and
  decoding to itself, and stops at the end of the used part: where fewer bytes than a header are left or the
  header is still zero.\<close>

theorem page_walk_complete:
  assumes "laid_out base PAGE_HEADER_SIZE rs" and "list_all has_header rs"
    and "recs_end PAGE_HEADER_SIZE rs \<le> limit"
    and "limit < recs_end PAGE_HEADER_SIZE rs + MIN_DISK_READ
      \<or> (rp_info base (recs_end PAGE_HEADER_SIZE rs) = 0 \<and> rp_key_len base (recs_end PAGE_HEADER_SIZE rs) = 0
         \<and> rp_value_cap base (recs_end PAGE_HEADER_SIZE rs) = 0)"
  shows "for_each_record_in_buf base PAGE_HEADER_SIZE limit = rec_offsets PAGE_HEADER_SIZE rs
    \<and> map (decode base) (for_each_record_in_buf base PAGE_HEADER_SIZE limit) = rs"
  using walk_laid_out [OF assms(1-3)] walk_stops [OF assms(4)] by (simp add: for_each_record_in_buf_def)

definition demo_rec :: rec where
  "demo_rec = \<lparr>r_info = VALID_BIT, r_key = [107], r_value_len = 3, r_buf = [1, 2, 3], r_exp = None\<rparr>"

theorem page_walk_complete_witness:
  "map (decode (splice_at (replicate 128 0) 64 (encode demo_rec))) (for_each_record_in_buf (splice_at (replicate 128 0) 64 (encode demo_rec)) 64 96)
     = [demo_rec]"
proof -
  let ?b = "splice_at (replicate 128 (0 :: byte)) 64 (encode demo_rec)"
  have len: "length (encode demo_rec) = 28" by (simp add: length_encode demo_rec_def layout_sizes)
  have "rec_wf demo_rec" by (simp add: rec_wf_def demo_rec_def)
  then have at: "rec_at ?b 64 demo_rec" by (rule rec_at_splice) (simp add: len)
  have sz: "rec_size demo_rec = 32" using len by (simp add: rec_size_def align8_def)
  have "has_header demo_rec" by (simp add: has_header_def demo_rec_def)
  with page_walk_complete [of ?b "[demo_rec]" 96] at sz
  have "map (decode ?b) (for_each_record_in_buf ?b PAGE_HEADER_SIZE 96) = [demo_rec]"
    by (auto simp: PAGE_HEADER_SIZE_def recs_end_def layout_sizes)
  then show ?thesis by (simp only: PAGE_HEADER_SIZE_def)
qed

subsection \<open>Records in pages and on the device\<close>

lemma record_at_set:
  assumes wf: "hlog_wf l" and r: "rec_wf r" and fit: "page_offset l a + length (encode r) \<le> page_size l"
  shows "record_at (set_record_at l a r) a = r"
proof -
  have sh: "shape_ok l" using wf by (simp add: hlog_wf_def)
  let ?b = "splice_at (page_data l (page_of l a)) (page_offset l a) (encode r)"
  have "page_data (set_record_at l a r) (page_of l a) = ?b" by (simp add: set_record_at_def page_data_set [OF sh])
  moreover have "page_of (set_record_at l a r) a = page_of l a" "page_offset (set_record_at l a r) a = page_offset l a"
    by (simp_all add: set_record_at_def set_page_data_def page_of_def page_offset_def page_size_def)
  moreover have "decode ?b (page_offset l a) = r"
    using page_data_length [OF sh] fit by (intro decode_encode [OF r]) simp
  ultimately show ?thesis by (simp add: record_at_def)
qed

lemma slice_log_bytes:
  assumes sh: "shape_ok l" and fit: "page_offset l a + n \<le> page_size l"
  shows "slice_at (page_data l (page_of l a)) (page_offset l a) n = map (log_byte l) [a..<a + n]"
proof (rule nth_equalityI)
  show "length (slice_at (page_data l (page_of l a)) (page_offset l a) n) = length (map (log_byte l) [a..<a + n])"
    using page_data_length [OF sh] fit by simp
  fix i assume "i < length (slice_at (page_data l (page_of l a)) (page_offset l a) n)"
  then have i: "i < n" by simp
  note pb = page_of_bounds(5) [of l a] page_of_bounds(1) [of l a]
  have po: "page_of l (a + i) = page_of l a"
    by (rule page_ofI) (use pb i fit in \<open>auto simp: algebra_simps\<close>)
  then have "page_offset l (a + i) = page_offset l a + i"
    using page_of_bounds(3) [of l "a + i"] page_of_bounds(3) [of l a] pb by simp
  then show "slice_at (page_data l (page_of l a)) (page_offset l a) n ! i = map (log_byte l) [a..<a + n] ! i"
    using i po fit page_data_length [OF sh] by (simp add: nth_slice log_byte_def)
qed

lemma rec_at_slice:
  assumes "rec_at mem p r" and "p + rec_size r \<le> length mem"
  shows "rec_at (slice_at mem p (rec_size r)) 0 r"
  using assms rec_size_ge(2) [of r] by (auto simp: rec_at_def slice_slice)

lemma device_slice:
  assumes "\<forall>i. a \<le> i \<and> i < a + n \<longrightarrow> i < length d \<and> d ! i = f i" and "0 < n"
  shows "read_at d a n = Some (map f [a..<a + n])"
proof -
  have "a + (n - 1) < length d" using assms by simp
  then have len: "a + n \<le> length d" using assms(2) by simp
  have "slice_at d a n = map f [a..<a + n]" using assms len by (intro nth_equalityI) (auto simp: nth_slice)
  with len show ?thesis by (simp add: read_at_def)
qed

lemma read_record_flushed:
  assumes sh: "shape_ok l" and at: "rec_at (page_data l (page_of l a)) (page_offset l a) r"
    and fit: "page_offset l a + rec_size r \<le> page_size l"
    and dev: "\<forall>i. a \<le> i \<and> i < a + rec_size r \<longrightarrow> i < length (device l') \<and> device l' ! i = log_byte l i"
  shows "\<exists>buf. read_record_from_disk l' a = Some buf \<and> decode buf 0 = r"
proof -
  let ?m = "page_data l (page_of l a)" and ?o = "page_offset l a"
  have len: "length ?m = page_size l" by (rule page_data_length [OF sh])
  note sz = rec_size_ge(1) [of r]
  have rd: "read_at (device l') a n = Some (slice_at ?m ?o n)" if "0 < n" "n \<le> rec_size r" for n
  proof -
    have "read_at (device l') a n = Some (map (log_byte l) [a..<a + n])" using dev that by (intro device_slice) auto
    moreover have "slice_at ?m ?o n = map (log_byte l) [a..<a + n]" using fit that by (intro slice_log_bytes [OF sh]) simp
    ultimately show ?thesis by simp
  qed
  have "total_size_from_header (slice_at ?m ?o MIN_DISK_READ) = rec_size r"
    using total_size_from_header_eq [of ?o ?m] rec_at_reads(4) [OF at] fit sz len by simp
  then have "read_record_from_disk l' a = Some (slice_at ?m ?o (rec_size r))"
    using rd [of MIN_DISK_READ] rd [of "rec_size r"] sz by (simp add: read_record_from_disk_def layout_sizes)
  moreover have "decode (slice_at ?m ?o (rec_size r)) 0 = r"
    using rec_at_decode [OF rec_at_slice [OF at]] fit len by simp
  ultimately show ?thesis by blast
qed

text \<open>A record that lies in its page above the old flush mark and below the tail reads back from the device
  as itself once the log has been flushed to the tail.\<close>

theorem record_disk_roundtrip:
  assumes wf: "hlog_wf l" and s: "shift_read_only_to_tail l = Some (t, l1)" and w: "wait_flushed k l1 t = Some l2"
    and at: "rec_at (page_data l (page_of l a)) (page_offset l a) r" and fit: "page_offset l a + rec_size r \<le> page_size l"
    and rng: "flushed_until_address l \<le> a" "a + rec_size r \<le> t"
  shows "\<exists>buf. read_record_from_disk l2 a = Some buf \<and> decode buf 0 = r"
proof (rule read_record_flushed [OF _ at fit])
  show "shape_ok l" using wf by (simp add: hlog_wf_def)
  show "\<forall>i. a \<le> i \<and> i < a + rec_size r \<longrightarrow> i < length (device l2) \<and> device l2 ! i = log_byte l i"
    using flush_to_tail_bytes [OF wf s w] rng by (auto simp: log_byte_def)
qed

theorem record_disk_roundtrip_witness:
  "\<exists>l1 l2 buf. shift_read_only_to_tail (set_record_at used_log 64 demo_rec) = Some (112, l1)
     \<and> wait_flushed 0 l1 112 = Some l2 \<and> read_record_from_disk l2 64 = Some buf \<and> decode buf 0 = demo_rec"
proof -
  let ?l = "set_record_at used_log 64 demo_rec"
  have ps: "page_size used_log = 512" using demo_log_page by (simp add: used_log_def)
  have len: "length (encode demo_rec) = 28" by (simp add: length_encode demo_rec_def layout_sizes)
  have sz: "rec_size demo_rec = 32" using len by (simp add: rec_size_def align8_def)
  have sh: "shape_ok used_log" using used_log(1) by (simp add: hlog_wf_def)
  have p: "page_of used_log 64 = 0" "page_offset used_log 64 = 64"
  proof -
    show "page_of used_log 64 = 0" by (rule page_ofI) (simp_all add: ps)
    then show "page_offset used_log 64 = 64" by (simp add: page_of_bounds(3))
  qed
  have eq: "page_of ?l x = page_of used_log x" "page_offset ?l x = page_offset used_log x" "page_size ?l = page_size used_log"
    "tail_address ?l = tail_address used_log" "read_only_address ?l = read_only_address used_log"
    "flushed_until_address ?l = flushed_until_address used_log" "log_epoch ?l = log_epoch used_log" for x
    by (simp_all add: set_record_at_def set_page_data_def page_of_def page_offset_def page_size_def tail_address_def
        split: prod.splits)
  have wf: "hlog_wf ?l"
    unfolding set_record_at_def
    by (rule set_page_data_wf(1) [OF used_log(1)]) (use page_data_length [OF sh] p len ps in simp)
  have "rec_wf demo_rec" by (simp add: rec_wf_def demo_rec_def)
  then have at: "rec_at (page_data ?l 0) 64 demo_rec"
    using page_data_length [OF sh] p len ps
    by (simp add: set_record_at_def page_data_set [OF sh]) (rule rec_at_splice, simp_all)
  have fl: "flushed_until_address used_log = 64"
    by (simp add: used_log_def demo_log_def hlog_new_def Let_def FIRST_VALID_ADDRESS_def PAGE_HEADER_SIZE_def)
  have idle: "\<forall>s \<in> set (ep_table (log_epoch ?l)). s_epoch s = UNPROTECTED" using used_log(4) by (simp add: eq)
  obtain l1 where l1: "shift_read_only_to_tail ?l = Some (112, l1)" "wait_flushed 0 l1 112 = Some l1"
    using flush_to_tail_idle [OF wf idle, of 112] used_log(2,3) by (auto simp: eq)
  from record_disk_roundtrip [OF wf l1, of 64 demo_rec] at sz p fl ps
  have "\<exists>buf. read_record_from_disk l1 64 = Some buf \<and> decode buf 0 = demo_rec" by (simp add: eq)
  with l1 show ?thesis by blast
qed

end
