(* ===== verification/LogHeap.thy ===== *)
theory LogHeap
  imports LogFlush
begin

text \<open>
  The hybrid log as a heap of records. \<open>log_inv l R\<close> says that the log \<open>l\<close> holds exactly the records of the map \<open>R\<close>
  from addresses to records: placed in pages without overlap, in their page frame from the head address on,
  and on the device below the flush mark (there up to the seal bit, which may be set after the flush). Allocation,
  boundary shifts, the deferred actions and in-place writes keep it.
\<close>

type_synonym reclog = "nat \<rightharpoonup> rec"

definition unsealed :: "rec \<Rightarrow> rec" where
  "unsealed r = set_info r (\<lambda>w. w AND NOT SEALED_BIT)"

definition rec_placed :: "hlog \<Rightarrow> nat \<Rightarrow> rec \<Rightarrow> bool" where
  "rec_placed l a r \<longleftrightarrow> rec_wf r \<and> PAGE_HEADER_SIZE \<le> page_offset l a \<and> page_offset l a + rec_size r \<le> page_size l
     \<and> a + rec_size r \<le> true_tail l"

definition in_memory :: "hlog \<Rightarrow> nat \<Rightarrow> rec \<Rightarrow> bool" where
  "in_memory l a r \<longleftrightarrow> rec_at (page_data l (page_of l a)) (page_offset l a) r"

definition on_device :: "hlog \<Rightarrow> nat \<Rightarrow> rec \<Rightarrow> bool" where
  "on_device l a r \<longleftrightarrow> a + rec_size r \<le> length (device l) \<and> (\<exists>r'. rec_at (device l) a r' \<and> unsealed r' = unsealed r)"

definition no_straddle :: "reclog \<Rightarrow> nat \<Rightarrow> bool" where
  "no_straddle R m \<longleftrightarrow> (\<forall>a r. R a = Some r \<longrightarrow> a < m \<longrightarrow> a + rec_size r \<le> m)"

fun action_mark :: "log_action \<Rightarrow> nat" where
  "action_mark (PagesMarkedReadOnly a) = a"
| "action_mark (PagesClosed a) = a"
| "action_mark PhaseObserved = 0"

definition tail_page :: "hlog \<Rightarrow> nat" where
  "tail_page l = fst (unpack (tail l))"

definition uncovered :: "reclog \<Rightarrow> nat \<Rightarrow> bool" where
  "uncovered R x \<longleftrightarrow> (\<forall>a r. R a = Some r \<longrightarrow> x < a \<or> a + rec_size r \<le> x)"

definition blank :: "hlog \<Rightarrow> reclog \<Rightarrow> bool" where
  \<comment> \<open>behind the records of a page there are zero bytes, in the page frame and on the device\<close>
  "blank l R \<longleftrightarrow>
     (\<forall>x. flushed_until_address l \<le> x \<longrightarrow> page_of l x \<le> tail_page l \<longrightarrow> PAGE_HEADER_SIZE \<le> page_offset l x \<longrightarrow> uncovered R x \<longrightarrow>
        log_byte l x = 0)
     \<and> (\<forall>x < flushed_until_address l. PAGE_HEADER_SIZE \<le> page_offset l x \<longrightarrow> uncovered R x \<longrightarrow>
        x < length (device l) \<and> device l ! x = 0)"

definition log_inv :: "hlog \<Rightarrow> reclog \<Rightarrow> bool" where
  "log_inv l R \<longleftrightarrow> hlog_wf l \<and> page_is_free l (tail_page l)
     \<and> (\<forall>a r. R a = Some r \<longrightarrow> rec_placed l a r)
     \<and> (\<forall>a b r. R a = Some r \<longrightarrow> b \<in> dom R \<longrightarrow> a < b \<longrightarrow> a + rec_size r \<le> b)
     \<and> (\<forall>a r. R a = Some r \<longrightarrow> head_address l \<le> a \<longrightarrow> in_memory l a r)
     \<and> (\<forall>a r. R a = Some r \<longrightarrow> a < flushed_until_address l \<longrightarrow> on_device l a r)
     \<and> no_straddle R (flushed_until_address l) \<and> no_straddle R (read_only_address l)
     \<and> (\<forall>x \<in> set (ep_drain (log_epoch l)). no_straddle R (action_mark (d_action x))) \<and> blank l R"

lemma log_invD:
  assumes "log_inv l R"
  shows "hlog_wf l" and "page_is_free l (tail_page l)" and "R a = Some r \<Longrightarrow> rec_placed l a r"
    and "R a = Some r \<Longrightarrow> b \<in> dom R \<Longrightarrow> a < b \<Longrightarrow> a + rec_size r \<le> b"
    and "R a = Some r \<Longrightarrow> head_address l \<le> a \<Longrightarrow> in_memory l a r"
    and "R a = Some r \<Longrightarrow> a < flushed_until_address l \<Longrightarrow> on_device l a r"
    and "no_straddle R (flushed_until_address l)" and "no_straddle R (read_only_address l)"
    and "x \<in> set (ep_drain (log_epoch l)) \<Longrightarrow> no_straddle R (action_mark (d_action x))"
    and "shape_ok l" and "blank l R"
  using assms by (auto simp: log_inv_def hlog_wf_def)

lemma unsealed_fields [simp]:
  "r_key (unsealed r) = r_key r" "r_value_len (unsealed r) = r_value_len r" "r_buf (unsealed r) = r_buf r"
  "r_exp (unsealed r) = r_exp r" "r_info (unsealed r) = r_info r AND NOT SEALED_BIT"
  by (simp_all add: unsealed_def set_info_def)

lemma length_encode_layout:
  "length (r_key r') = length (r_key r) \<Longrightarrow> length (r_buf r') = length (r_buf r) \<Longrightarrow> (r_exp r' = None) = (r_exp r = None) \<Longrightarrow>
     length (encode r') = length (encode r)"
  by (simp add: length_encode)

lemma unsealed_eqD:
  assumes "unsealed r' = unsealed r"
  shows "r_key r' = r_key r" "r_value_len r' = r_value_len r" "r_buf r' = r_buf r" "r_exp r' = r_exp r"
    "r_info r' AND NOT SEALED_BIT = r_info r AND NOT SEALED_BIT" "length (encode r') = length (encode r)"
    "rec_size r' = rec_size r"
proof -
  show k: "r_key r' = r_key r" and b: "r_buf r' = r_buf r" and e: "r_exp r' = r_exp r"
    and "r_value_len r' = r_value_len r" "r_info r' AND NOT SEALED_BIT = r_info r AND NOT SEALED_BIT"
    using arg_cong [OF assms, of r_key] arg_cong [OF assms, of r_buf] arg_cong [OF assms, of r_exp]
      arg_cong [OF assms, of r_value_len] arg_cong [OF assms, of r_info] by (simp_all only: unsealed_fields)
  show "length (encode r') = length (encode r)" using k b e by (simp add: length_encode)
  then show "rec_size r' = rec_size r" by (simp add: rec_size_def)
qed

subsection \<open>Live pages\<close>

lemma closed_le_head: "log_inv l R \<Longrightarrow> closed_until_address l \<le> head_address l"
  using log_invD(1) by (fastforce simp: hlog_wf_def watermarks_ok_def)

lemma live_pages_distinct:
  assumes inv: "log_inv l R" and a: "closed_until_address l \<le> a" "page_of l a \<le> tail_page l"
    and b: "closed_until_address l \<le> b" "page_of l b \<le> tail_page l" and s: "page_slot l (page_of l a) = page_slot l (page_of l b)"
  shows "page_of l a = page_of l b"
proof -
  let ?n = "buffer_size l" and ?ps = "page_size l" and ?p = "tail_page l"
  have sh: "shape_ok l" and free: "page_is_free l ?p" using log_invD [OF inv] by auto
  have ps: "0 < ?ps" and n: "2 \<le> ?n" using page_size_range [OF sh] sh by (auto simp: shape_ok_def)
  have rng: "?p < page_of l x + ?n" if "closed_until_address l \<le> x" for x
  proof (cases "?p < ?n")
    case False
    have "(?p - ?n + 1) * ?ps \<le> closed_until_address l"
      using free False by (simp add: page_is_free_def push_bit_eq_mult page_size_def)
    also have "closed_until_address l \<le> x" by (rule that)
    finally have "(?p - ?n + 1) * ?ps < (page_of l x + 1) * ?ps"
      by (rule le_less_trans) (use page_of_bounds(2) [of x l] in simp)
    then have "?p - ?n + 1 < page_of l x + 1" using ps by (metis mult_less_cancel2)
    with False show ?thesis by simp
  qed simp
  have eq: "x = y" if "x mod ?n = y mod ?n" "x \<le> y" "y < x + ?n" for x y
  proof -
    have "?n dvd y - x" using that mod_eq_dvd_iff_nat [of x y ?n] by metis
    moreover have "y - x < ?n" using that by simp
    ultimately show ?thesis using that(2) by (auto dest: dvd_imp_le)
  qed
  have m: "page_of l a mod ?n = page_of l b mod ?n" using s page_slot_mod [OF sh] by metis
  have r: "?p < page_of l a + ?n" "?p < page_of l b + ?n" using rng a(1) b(1) by auto
  show ?thesis
  proof (cases "page_of l a \<le> page_of l b")
    case True
    with r a b show ?thesis by (intro eq [OF m]) auto
  next
    case False
    with r a b show ?thesis by (intro eq [OF m [symmetric], symmetric]) auto
  qed
qed

lemma page_le_tail: "log_inv l R \<Longrightarrow> x < true_tail l \<Longrightarrow> page_of l x \<le> tail_page l"
  using page_of_le_tail [OF log_invD(1), of l R "tail_page l"] by (metis tail_page_def prod.collapse)

lemma rec_at_other:
  assumes at: "rec_at mem p r" and fit: "i + length ys \<le> length mem"
    and disj: "p + rec_size r \<le> i \<or> i + length ys \<le> p"
  shows "rec_at (splice_at mem i ys) p r"
  using assms rec_size_ge(2) [of r] by (auto simp: rec_at_def slice_splice_other)


subsection \<open>Writing a page\<close>

text \<open>
  A page write inside the bytes of one record. \<open>log_bytes_only\<close> collects what such a write leaves alone.
\<close>

lemma set_page_simps [simp]:
  "page_bits (set_page_data l p b) = page_bits l" "buffer_size (set_page_data l p b) = buffer_size l"
  "tail (set_page_data l p b) = tail l" "begin_address (set_page_data l p b) = begin_address l"
  "closed_until_address (set_page_data l p b) = closed_until_address l" "head_address (set_page_data l p b) = head_address l"
  "safe_head_address (set_page_data l p b) = safe_head_address l"
  "flushed_until_address (set_page_data l p b) = flushed_until_address l"
  "safe_read_only_address (set_page_data l p b) = safe_read_only_address l"
  "read_only_address (set_page_data l p b) = read_only_address l" "log_epoch (set_page_data l p b) = log_epoch l"
  "device (set_page_data l p b) = device l" "mutable_pages (set_page_data l p b) = mutable_pages l"
  "page_size (set_page_data l p b) = page_size l" "page_of (set_page_data l p b) a = page_of l a"
  "page_offset (set_page_data l p b) a = page_offset l a" "page_slot (set_page_data l p b) q = page_slot l q"
  "true_tail (set_page_data l p b) = true_tail l" "page_is_free (set_page_data l p b) q = page_is_free l q"
  "tail_page (set_page_data l p b) = tail_page l" "rec_placed (set_page_data l p b) a r = rec_placed l a r"
  "on_device (set_page_data l p b) a r = on_device l a r"
  by (simp_all add: set_page_data_def page_size_def page_of_def page_offset_def page_slot_def true_tail_def
      page_is_free_def tail_page_def rec_placed_def on_device_def)

lemma page_write_other:
  assumes inv: "log_inv l R" and r: "R a = Some r" "head_address l \<le> a" and b: "closed_until_address l \<le> b" "b < true_tail l"
    and fit: "page_offset l b + length ys \<le> page_size l" and disj: "a + rec_size r \<le> b \<or> b + length ys \<le> a"
  shows "in_memory (set_page_data l (page_of l b) (splice_at (page_data l (page_of l b)) (page_offset l b) ys)) a r"
proof -
  let ?m = "page_data l (page_of l b)"
  have sh: "shape_ok l" and im: "in_memory l a r" and pl: "rec_placed l a r"
    using log_invD(10) [OF inv] log_invD(5) [OF inv r] log_invD(3) [OF inv r(1)] by auto
  have a: "a < true_tail l" using pl rec_size_ge(1) [of r] by (auto simp: rec_placed_def)
  show ?thesis
  proof (cases "page_of l a = page_of l b")
    case True
    have "page_offset l a + (b - a) = page_offset l b" if "a \<le> b"
      using that True page_of_bounds(5) [of l a] page_of_bounds(5) [of l b] by simp
    moreover have "page_offset l b + (a - b) = page_offset l a" if "b \<le> a"
      using that True page_of_bounds(5) [of l a] page_of_bounds(5) [of l b] by simp
    ultimately have "page_offset l a + rec_size r \<le> page_offset l b \<or> page_offset l b + length ys \<le> page_offset l a"
      using disj by linarith
    then have "rec_at (splice_at ?m (page_offset l b) ys) (page_offset l a) r"
      using im True fit page_data_length [OF sh] by (intro rec_at_other) (auto simp: in_memory_def)
    then show ?thesis using True by (simp add: in_memory_def page_data_set [OF sh])
  next
    case False
    then have "page_slot l (page_of l a) \<noteq> page_slot l (page_of l b)"
      using live_pages_distinct [OF inv order_trans [OF closed_le_head [OF inv] r(2)] page_le_tail [OF inv a] b(1) page_le_tail [OF inv b(2)]]
      by blast
    then show ?thesis using im by (simp add: in_memory_def page_data_set [OF sh])
  qed
qed

lemma page_write_byte:
  assumes inv: "log_inv l R" and x: "closed_until_address l \<le> x" "page_of l x \<le> tail_page l"
    and b: "closed_until_address l \<le> b" "page_of l b \<le> tail_page l"
    and fit: "page_offset l b + length ys \<le> page_size l" and disj: "x < b \<or> b + length ys \<le> x"
  shows "log_byte (set_page_data l (page_of l b) (splice_at (page_data l (page_of l b)) (page_offset l b) ys)) x = log_byte l x"
proof -
  have sh: "shape_ok l" by (rule log_invD(10) [OF inv])
  show ?thesis
  proof (cases "page_of l x = page_of l b")
    case True
    have "page_offset l x < page_offset l b \<or> page_offset l b + length ys \<le> page_offset l x"
      using disj page_of_bounds(5) [of l x] page_of_bounds(5) [of l b] unfolding True by linarith
    then have "splice_at (page_data l (page_of l b)) (page_offset l b) ys ! page_offset l x = page_data l (page_of l b) ! page_offset l x"
      using fit page_data_length [OF sh, of "page_of l b"] page_of_bounds(4) [of l x] by (subst nth_splice) auto
    then show ?thesis using True by (simp add: log_byte_def page_data_set [OF sh])
  next
    case False
    then have "page_slot l (page_of l x) \<noteq> page_slot l (page_of l b)" using live_pages_distinct [OF inv x b] by blast
    then show ?thesis by (simp add: log_byte_def page_data_set [OF sh])
  qed
qed

text \<open>A write inside the bytes of one record leaves the rest blank.\<close>

lemma blank_write:
  assumes inv: "log_inv l R" and b: "closed_until_address l \<le> b" "page_of l b \<le> tail_page l"
    and fit: "page_offset l b + length ys \<le> page_size l" and S: "S b = Some r" "length ys \<le> rec_size r"
    and un: "\<And>x. uncovered S x \<Longrightarrow> uncovered R x"
  shows "blank (set_page_data l (page_of l b) (splice_at (page_data l (page_of l b)) (page_offset l b) ys)) S"
proof -
  have wf: "closed_until_address l \<le> flushed_until_address l" using log_invD(1) [OF inv] by (auto simp: hlog_wf_def watermarks_ok_def)
  have "log_byte (set_page_data l (page_of l b) (splice_at (page_data l (page_of l b)) (page_offset l b) ys)) x = log_byte l x"
    if "flushed_until_address l \<le> x" "page_of l x \<le> tail_page l" "uncovered S x" for x
  proof -
    have "x < b \<or> b + length ys \<le> x" using that(3) S by (fastforce simp: uncovered_def)
    then show ?thesis using that wf by (intro page_write_byte [OF inv _ _ b fit]) auto
  qed
  then show ?thesis using log_invD(11) [OF inv] un by (simp add: blank_def)
qed

lemma page_write_same:
  assumes sh: "shape_ok l" and r: "rec_wf r" and fit: "page_offset l a + length (encode r) \<le> page_size l"
  shows "in_memory (set_page_data l (page_of l a) (splice_at (page_data l (page_of l a)) (page_offset l a) (encode r))) a r"
  using page_data_length [OF sh] fit rec_at_splice [OF r, of "page_offset l a" "page_data l (page_of l a)"]
  by (simp add: in_memory_def page_data_set [OF sh])

lemma no_straddle_update: "no_straddle R m \<Longrightarrow> R a = Some r \<Longrightarrow> rec_size r' = rec_size r \<Longrightarrow> no_straddle (R(a \<mapsto> r')) m"
  by (auto simp: no_straddle_def)

lemma no_straddle_insert: "no_straddle R m \<Longrightarrow> m \<le> a \<Longrightarrow> no_straddle (R(a \<mapsto> r)) m"
  by (auto simp: no_straddle_def)

text \<open>In-place update of a record: anywhere above the flush mark, and below it for the seal bit only.\<close>

lemma log_inv_update:
  assumes inv: "log_inv l R" and r: "R a = Some r" and h: "head_address l \<le> a" and wf: "rec_wf r'"
    and len: "length (encode r') = length (encode r)"
    and dev: "a < flushed_until_address l \<Longrightarrow> unsealed r' = unsealed r"
  shows "log_inv (set_record_at l a r') (R(a \<mapsto> r'))"
proof -
  have sz: "rec_size r' = rec_size r" using len by (simp add: rec_size_def)
  note pl = log_invD(3) [OF inv r]
  have sh: "shape_ok l" by (rule log_invD(10) [OF inv])
  have at: "a < true_tail l" using pl rec_size_ge(1) [of r] by (auto simp: rec_placed_def)
  have fit: "page_offset l a + length (encode r') \<le> page_size l"
    using pl rec_size_ge(2) [of r] len by (auto simp: rec_placed_def)
  let ?b = "splice_at (page_data l (page_of l a)) (page_offset l a) (encode r')"
  let ?l = "set_page_data l (page_of l a) ?b"
  have wf': "hlog_wf ?l"
    by (rule set_page_data_wf(1) [OF log_invD(1) [OF inv]]) (use page_data_length [OF sh] fit in simp)
  have mem: "in_memory ?l x y" if "(R(a \<mapsto> r')) x = Some y" "head_address l \<le> x" for x y
  proof (cases "x = a")
    case True
    with that page_write_same [OF sh wf fit] show ?thesis by simp
  next
    case False
    then have x: "R x = Some y" using that(1) by simp
    have "x + rec_size y \<le> a \<or> a + length (encode r') \<le> x"
    proof (cases "x < a")
      case True
      then show ?thesis using log_invD(4) [OF inv x, of a] r by auto
    next
      case False
      then have "a + rec_size r \<le> x" using \<open>x \<noteq> a\<close> log_invD(4) [OF inv r, of x] x by auto
      then show ?thesis using rec_size_ge(2) [of r'] sz by simp
    qed
    then show ?thesis by (rule page_write_other [OF inv x that(2) order_trans [OF closed_le_head [OF inv] h] at fit])
  qed
  have dev': "on_device l x y" if "(R(a \<mapsto> r')) x = Some y" "x < flushed_until_address l" for x y
  proof (cases "x = a")
    case True
    with that log_invD(6) [OF inv r] dev sz show ?thesis by (auto simp: on_device_def)
  next
    case False
    with that log_invD(6) [OF inv] show ?thesis by simp
  qed
  have plc: "rec_placed l x y" if "(R(a \<mapsto> r')) x = Some y" for x y
    using that log_invD(3) [OF inv, of x y] pl wf sz by (auto simp: rec_placed_def split: if_splits)
  have sep: "x + rec_size y \<le> z" if "(R(a \<mapsto> r')) x = Some y" "z \<in> dom (R(a \<mapsto> r'))" "x < z" for x y z
    using that log_invD(4) [OF inv, of x _ z] r sz by (auto split: if_splits)
  have "uncovered R x" if "uncovered (R(a \<mapsto> r')) x" for x using that r sz by (auto simp: uncovered_def split: if_splits)
  then have bl: "blank ?l (R(a \<mapsto> r'))"
    using rec_size_ge(2) [of r']
    by (intro blank_write [where r = r', OF inv order_trans [OF closed_le_head [OF inv] h] page_le_tail [OF inv at] fit]) simp_all
  show ?thesis
    unfolding set_record_at_def log_inv_def
    using wf' log_invD(2) [OF inv] plc sep mem dev' log_invD(7-9) [OF inv] no_straddle_update [where R = R and a = a and r = r and r' = r', OF _ r sz] bl
    by auto
qed

text \<open>A new record, at or above every mark and behind every other record.\<close>

lemma log_inv_insert:
  assumes inv: "log_inv l R" and pl: "rec_placed l a r" and h: "read_only_address l \<le> a"
    and top: "\<And>x y. R x = Some y \<Longrightarrow> x + rec_size y \<le> a"
  shows "log_inv (set_record_at l a r) (R(a \<mapsto> r))"
proof -
  have sh: "shape_ok l" and wm: "watermarks_ok l" and aok: "\<And>x. x \<in> set (ep_drain (log_epoch l)) \<Longrightarrow> action_ok l (d_action x)"
    using log_invD(1,10) [OF inv] hlog_wf_actions by (auto simp: hlog_wf_def)
  have hd: "head_address l \<le> a" "flushed_until_address l \<le> a" using h wm by (auto simp: watermarks_ok_def)
  have at: "a < true_tail l" using pl rec_size_ge(1) [of r] by (auto simp: rec_placed_def)
  have wf: "rec_wf r" and fit: "page_offset l a + length (encode r) \<le> page_size l"
    using pl rec_size_ge(2) [of r] by (auto simp: rec_placed_def)
  let ?b = "splice_at (page_data l (page_of l a)) (page_offset l a) (encode r)"
  let ?l = "set_page_data l (page_of l a) ?b"
  have wf': "hlog_wf ?l"
    by (rule set_page_data_wf(1) [OF log_invD(1) [OF inv]]) (use page_data_length [OF sh] fit in simp)
  have lt: "x < a" if "R x = Some y" for x y using top [OF that] rec_size_ge(1) [of y] by simp
  have mem: "in_memory ?l x y" if "(R(a \<mapsto> r)) x = Some y" "head_address l \<le> x" for x y
  proof (cases "x = a")
    case True
    with that page_write_same [OF sh wf fit] show ?thesis by simp
  next
    case False
    then have x: "R x = Some y" using that(1) by simp
    show ?thesis by (rule page_write_other [OF inv x that(2) order_trans [OF closed_le_head [OF inv] hd(1)] at fit]) (use top [OF x] in simp)
  qed
  have mk: "action_mark (d_action x) \<le> a" if "x \<in> set (ep_drain (log_epoch l))" for x
    using aok [OF that] h wm by (cases "d_action x") (auto simp: watermarks_ok_def)
  have sep: "x + rec_size y \<le> z" if "(R(a \<mapsto> r)) x = Some y" "z \<in> dom (R(a \<mapsto> r))" "x < z" for x y z
  proof (cases "x = a")
    case True
    with that lt show ?thesis by fastforce
  next
    case False
    with that top log_invD(4) [OF inv, of x y z] show ?thesis by (auto split: if_splits)
  qed
  have dev: "on_device l x y" if "(R(a \<mapsto> r)) x = Some y" "x < flushed_until_address l" for x y
    using that hd log_invD(6) [OF inv, of x y] by (auto split: if_splits)
  have plc: "rec_placed l x y" if "(R(a \<mapsto> r)) x = Some y" for x y
    using that pl log_invD(3) [OF inv, of x y] by (auto split: if_splits)
  have "R a = None" using lt [of a] by (cases "R a") auto
  then have "uncovered R x" if "uncovered (R(a \<mapsto> r)) x" for x using that by (auto simp: uncovered_def split: if_splits)
  then have bl: "blank ?l (R(a \<mapsto> r))"
    using rec_size_ge(2) [of r]
    by (intro blank_write [where r = r, OF inv order_trans [OF closed_le_head [OF inv] hd(1)] page_le_tail [OF inv at] fit]) simp_all
  show ?thesis
    unfolding set_record_at_def log_inv_def
    using wf' log_invD(2) [OF inv] plc sep mem dev no_straddle_insert log_invD(7-9) [OF inv] hd h mk bl
    by (auto simp del: fun_upd_apply)
qed

subsection \<open>Boundary shifts and deferred actions\<close>

lemma rec_at_bytes:
  assumes "rec_at m p r" and "q + length (encode r) \<le> length d"
    and "\<And>i. i < length (encode r) \<Longrightarrow> d ! (q + i) = m ! (p + i)"
  shows "rec_at d q r"
proof -
  have "slice_at d q (length (encode r)) = slice_at m p (length (encode r))"
  proof (rule nth_equalityI)
    have "p + length (encode r) \<le> length m" using assms(1) by (simp add: rec_at_def)
    then show "length (slice_at d q (length (encode r))) = length (slice_at m p (length (encode r)))"
      and "i < length (slice_at d q (length (encode r))) \<Longrightarrow>
        slice_at d q (length (encode r)) ! i = slice_at m p (length (encode r)) ! i" for i
      using assms(2,3) by (simp_all add: nth_slice)
  qed
  with assms show ?thesis by (simp add: rec_at_def)
qed

lemma on_device_flushed:
  assumes inv: "log_inv l R" and r: "R a = Some r" and fb: "flushed_bytes l l'"
    and lt: "a < flushed_until_address l'" and ns: "no_straddle R (flushed_until_address l')"
  shows "on_device l' a r"
proof (cases "a < flushed_until_address l")
  case True
  have e: "a + rec_size r \<le> flushed_until_address l" using log_invD(7) [OF inv] r True by (simp add: no_straddle_def)
  obtain r' where r': "a + rec_size r \<le> length (device l)" "rec_at (device l) a r'" "unsealed r' = unsealed r"
    using log_invD(6) [OF inv r True] by (auto simp: on_device_def)
  have n: "length (encode r') \<le> rec_size r" using rec_size_ge(2) [of r'] unsealed_eqD(7) [OF r'(3)] by simp
  have len: "length (device l) \<le> length (device l')" using fb by (simp add: flushed_bytes_def)
  have "rec_at (device l') a r'"
    using fb n e r'(1) len by (intro rec_at_bytes [OF r'(2)]) (auto simp: flushed_bytes_def)
  with r' len show ?thesis by (auto simp: on_device_def)
next
  case False
  then have f: "flushed_until_address l \<le> a" by simp
  have sh: "shape_ok l" and wf: "hlog_wf l" and pl: "rec_placed l a r" using log_invD(1,3,10) [OF inv] r by auto
  have e: "a + rec_size r \<le> flushed_until_address l'" using ns r lt by (simp add: no_straddle_def)
  have dev: "i < length (device l') \<and> device l' ! i = log_byte l i" if "a \<le> i" "i < a + rec_size r" for i
    using that f e fb by (auto simp: flushed_bytes_def)
  have im: "in_memory l a r" using f wf by (intro log_invD(5) [OF inv r]) (auto simp: hlog_wf_def watermarks_ok_def)
  have "a + (rec_size r - 1) < length (device l')" using dev [of "a + (rec_size r - 1)"] rec_size_ge(1) [of r] by linarith
  then have len: "a + rec_size r \<le> length (device l')" using rec_size_ge(1) [of r] by linarith
  have "page_offset l a + rec_size r \<le> page_size l" using pl by (simp add: rec_placed_def)
  note sl = slice_log_bytes [OF sh this]
  have pd: "page_data l (page_of l a) ! (page_offset l a + i) = log_byte l (a + i)" if "i < rec_size r" for i
  proof -
    have "slice_at (page_data l (page_of l a)) (page_offset l a) (rec_size r) ! i = log_byte l (a + i)"
      unfolding sl using that by simp
    then show ?thesis using that pl page_data_length [OF sh] by (simp add: nth_slice rec_placed_def)
  qed
  have "rec_at (device l') a r"
    using im dev pd len rec_size_ge(2) [of r] unfolding in_memory_def by (elim rec_at_bytes) auto
  with len show ?thesis by (auto simp: on_device_def)
qed

lemma blank_flushed:
  assumes inv: "log_inv l R" and fr: "log_frame l l'" and wf: "hlog_wf l'" and fb: "flushed_bytes l l'"
  shows "blank l' R"
proof -
  have eq: "page_of l' x = page_of l x" "page_offset l' x = page_offset l x" "tail_page l' = tail_page l" "log_byte l' x = log_byte l x" for x
    using fr log_frame_byte [OF fr] by (simp_all add: page_of_def page_offset_def page_size_def tail_page_def log_frame_def)
  have tt: "flushed_until_address l' \<le> true_tail l"
    using wf log_frame_shape(3) [OF fr] by (auto simp: hlog_wf_def watermarks_ok_def)
  have bl: "blank l R" by (rule log_invD(11) [OF inv])
  have "x < length (device l') \<and> device l' ! x = 0"
    if x: "x < flushed_until_address l'" "PAGE_HEADER_SIZE \<le> page_offset l x" "uncovered R x" for x
  proof (cases "x < flushed_until_address l")
    case True
    then have "x < length (device l) \<and> device l ! x = 0" using bl x by (auto simp: blank_def)
    then show ?thesis using fb True by (auto simp: flushed_bytes_def)
  next
    case False
    then have "x < length (device l') \<and> device l' ! x = log_byte l x" using fb x(1) by (simp add: flushed_bytes_def)
    moreover have "log_byte l x = 0"
      using bl False x page_le_tail [OF inv, of x] tt by (auto simp: blank_def)
    ultimately show ?thesis by simp
  qed
  moreover have "flushed_until_address l \<le> flushed_until_address l'" using fb by (simp add: flushed_bytes_def)
  ultimately show ?thesis using bl by (auto simp: blank_def eq)
qed

lemma log_inv_frame:
  assumes inv: "log_inv l R" and fr: "log_frame l l'" and wf: "hlog_wf l'" and ml: "marks_le l l'" and fb: "flushed_bytes l l'"
    and ns: "no_straddle R (flushed_until_address l')" "no_straddle R (read_only_address l')"
      "\<forall>x \<in> set (ep_drain (log_epoch l')). no_straddle R (action_mark (d_action x))"
  shows "log_inv l' R"
proof -
  have eq: "page_of l' a = page_of l a" "page_offset l' a = page_offset l a" "page_size l' = page_size l"
    "page_data l' q = page_data l q" "true_tail l' = true_tail l" "tail_page l' = tail_page l" for a q
    using fr log_frame_page [OF fr] log_frame_shape [OF fr]
    by (simp_all add: page_of_def page_offset_def page_size_def tail_page_def log_frame_def)
  have "page_is_free l' (tail_page l')"
    using log_invD(2) [OF inv] fr ml by (auto simp: page_is_free_def eq log_frame_def marks_le_def)
  moreover have "rec_placed l' a r" "head_address l' \<le> a \<Longrightarrow> in_memory l' a r" if "R a = Some r" for a r
    using log_invD(3,5) [OF inv that] ml by (auto simp: rec_placed_def in_memory_def eq marks_le_def)
  ultimately show ?thesis
    unfolding log_inv_def using wf ns log_invD(4) [OF inv] on_device_flushed [OF inv _ fb _ ns(1)] blank_flushed [OF inv fr wf fb] by blast
qed

lemma fold_run_action_flushed_mark:
  "flushed_until_address (fold run_action acts l) = flushed_until_address l
     \<or> (\<exists>x. PagesMarkedReadOnly x \<in> set acts \<and> flushed_until_address (fold run_action acts l) = x)"
proof (induction acts arbitrary: l)
  case (Cons a acts)
  have "flushed_until_address (run_action a l) = flushed_until_address l
      \<or> (\<exists>x. a = PagesMarkedReadOnly x \<and> flushed_until_address (run_action a l) = x)"
    by (cases a) (auto simp: on_pages_marked_read_only_def on_pages_closed_def flush_until_def Let_def)
  with Cons.IH [of "run_action a l"] show ?case by auto
qed simp

lemma log_inv_released:
  assumes inv: "log_inv l R" and ew: "epoch_wf ep"
    and acts: "\<forall>a \<in> set acts. action_ok l a \<and> no_straddle R (action_mark a)"
    and rest: "\<forall>x \<in> set (ep_drain ep). action_ok l (d_action x) \<and> no_straddle R (action_mark (d_action x))"
  shows "log_inv (fold run_action acts (l\<lparr>log_epoch := ep\<rparr>)) R"
proof -
  let ?l = "fold run_action acts (l\<lparr>log_epoch := ep\<rparr>)"
  have a: "\<forall>a \<in> set acts. action_ok l a" and r: "\<forall>x \<in> set (ep_drain ep). action_ok l (d_action x)"
    using acts rest by auto
  note rr = run_released [OF log_invD(1) [OF inv] ew a r]
  have fl: "no_straddle R (flushed_until_address ?l)"
    using fold_run_action_flushed_mark [of acts "l\<lparr>log_epoch := ep\<rparr>"] log_invD(7) [OF inv] acts by auto
  have w: "watermarks_ok (l\<lparr>log_epoch := ep\<rparr>)"
    using log_invD(1) [OF inv] by (simp add: hlog_wf_def watermarks_ok_def true_tail_def page_size_def)
  have ok: "action_ok (l\<lparr>log_epoch := ep\<rparr>) b = action_ok l b" for b by (cases b) auto
  have "list_all (action_ok (l\<lparr>log_epoch := ep\<rparr>)) acts" using a by (simp add: list_all_iff ok)
  from fold_run_action(5) [OF w this] have ep: "log_epoch ?l = ep" by simp
  show ?thesis
    using released_flushed(1) [OF log_invD(10) [OF inv], of acts ep]
      marks_le_trans [OF set_epoch_le fold_run_action_le] log_invD(8) [OF inv] rr rest fl
    by (intro log_inv_frame [OF inv rr(2,1)]) (auto simp: ep)
qed

lemma pending_ok: "log_inv l R \<Longrightarrow> x \<in> set (ep_drain (log_epoch l)) \<Longrightarrow> action_ok l (d_action x) \<and> no_straddle R (action_mark (d_action x))"
  using hlog_wf_actions log_invD(1,9) by blast

lemma log_inv_bump_action:
  assumes inv: "log_inv l R" and a: "action_ok l act" "no_straddle R (action_mark act)"
  shows "log_inv (log_bump_with_action l act) R"
proof -
  obtain n acts ep where b: "bump_with_action (log_epoch l) act = (n, acts, ep)" by (metis prod_cases3)
  have "epoch_wf (log_epoch l)" using log_invD(1) [OF inv] by (simp add: hlog_wf_def)
  note s = released_subset(1) [OF this b]
  have "\<forall>x \<in> set acts. action_ok l x \<and> no_straddle R (action_mark x)"
    "\<forall>x \<in> set (ep_drain ep). action_ok l (d_action x) \<and> no_straddle R (action_mark (d_action x))"
    using s pending_ok [OF inv] a by auto
  from log_inv_released [OF inv s [THEN conjunct1] this] b show ?thesis by (simp add: log_bump_with_action_def)
qed

lemma log_inv_refresh:
  assumes inv: "log_inv l R" and t: "0 < tid" and r: "log_refresh l tid = Some l'"
  shows "log_inv l' R"
proof -
  obtain e acts ep where b: "refresh (log_epoch l) tid = Some (e, acts, ep)"
    and l': "l' = fold run_action acts (l\<lparr>log_epoch := ep\<rparr>)"
    using r by (auto simp: log_refresh_def split: bind_splits)
  have "epoch_wf (log_epoch l)" using log_invD(1) [OF inv] by (simp add: hlog_wf_def)
  note s = released_subset(3) [OF this t b]
  have "\<forall>x \<in> set acts. action_ok l x \<and> no_straddle R (action_mark x)"
    "\<forall>x \<in> set (ep_drain ep). action_ok l (d_action x) \<and> no_straddle R (action_mark (d_action x))"
    using s pending_ok [OF inv] by auto
  from log_inv_released [OF inv s [THEN conjunct1] this] show ?thesis by (simp add: l')
qed

lemma log_inv_bump:
  assumes inv: "log_inv l R" and b: "bump_current_epoch (log_epoch l) = (n, acts, ep)"
  shows "log_inv (fold run_action acts (l\<lparr>log_epoch := ep\<rparr>)) R"
proof -
  have "epoch_wf (log_epoch l)" using log_invD(1) [OF inv] by (simp add: hlog_wf_def)
  note s = released_subset(2) [OF this b]
  have "\<forall>x \<in> set acts. action_ok l x \<and> no_straddle R (action_mark x)"
    "\<forall>x \<in> set (ep_drain ep). action_ok l (d_action x) \<and> no_straddle R (action_mark (d_action x))"
    using s pending_ok [OF inv] by auto
  from log_inv_released [OF inv s [THEN conjunct1] this] show ?thesis .
qed

lemma log_inv_epoch:
  assumes inv: "log_inv l R" and ew: "epoch_wf ep" and d: "ep_drain ep = ep_drain (log_epoch l)"
  shows "log_inv (l\<lparr>log_epoch := ep\<rparr>) R"
  using log_inv_released [OF inv ew, of "[]"] pending_ok [OF inv] d by simp

text \<open>The two boundaries.\<close>

lemma log_inv_shift_read_only:
  assumes inv: "log_inv l R" and le: "x \<le> true_tail l" and ns: "no_straddle R x"
  shows "log_inv (snd (shift_read_only_address l x)) R"
proof (cases "x \<le> read_only_address l")
  case False
  let ?l = "l\<lparr>read_only_address := x\<rparr>"
  have fr: "log_frame l ?l" by (simp add: log_frame_def)
  have ok: "action_ok ?l b" if "action_ok l b" for b using that False by (cases b) auto
  have wf: "hlog_wf ?l"
    using log_invD(1) [OF inv] le False ok log_frame_shape [OF fr] by (auto simp: hlog_wf_def watermarks_ok_def list_all_iff)
  have "log_inv ?l R"
    using False ns log_invD(7-9) [OF inv] log_frame_shape [OF fr]
    by (intro log_inv_frame [OF inv fr wf]) (auto simp: marks_le_def flushed_bytes_refl)
  from log_inv_bump_action [OF this, of "PagesMarkedReadOnly x"] ns False show ?thesis
    by (simp add: shift_read_only_address_def)
qed (simp add: shift_read_only_address_def inv)

lemma log_inv_shift_head:
  assumes inv: "log_inv l R" and ns: "no_straddle R x"
  shows "log_inv (snd (shift_head_address l x)) R"
proof (cases "min x (flushed_until_address l) \<le> head_address l")
  case False
  let ?h = "min x (flushed_until_address l)"
  let ?l = "l\<lparr>head_address := ?h\<rparr>"
  have fr: "log_frame l ?l" by (simp add: log_frame_def)
  have ok: "action_ok ?l b" if "action_ok l b" for b using that False by (cases b) auto
  have wf: "hlog_wf ?l"
    using log_invD(1) [OF inv] False ok log_frame_shape [OF fr] by (auto simp: hlog_wf_def watermarks_ok_def list_all_iff)
  have "log_inv ?l R"
    using False log_invD(7-9) [OF inv] log_frame_shape [OF fr]
    by (intro log_inv_frame [OF inv fr wf]) (auto simp: marks_le_def flushed_bytes_refl)
  moreover have "no_straddle R ?h" using ns log_invD(7) [OF inv] by (simp add: min_def)
  ultimately have "log_inv (log_bump_with_action ?l (PagesClosed ?h)) R" by (intro log_inv_bump_action) simp_all
  with False show ?thesis by (simp add: shift_head_address_def Let_def)
qed (simp add: shift_head_address_def inv)

lemma no_straddle_page:
  assumes inv: "log_inv l R"
  shows "no_straddle R (k * page_size l)"
  unfolding no_straddle_def
proof (intro allI impI)
  fix a r assume r: "R a = Some r" and lt: "a < k * page_size l"
  have ps: "0 < page_size l" using page_size_range [OF log_invD(10) [OF inv]] by simp
  have "page_of l a * page_size l < k * page_size l" by (rule le_less_trans [OF page_of_bounds(1) lt])
  then have "page_of l a + 1 \<le> k" using ps by (simp only: mult_less_cancel2) simp
  then have "(page_of l a + 1) * page_size l \<le> k * page_size l" by (rule mult_right_mono) simp
  moreover have "a + rec_size r \<le> (page_of l a + 1) * page_size l"
    using log_invD(3) [OF inv r] page_of_bounds(5) [of l a] by (simp add: rec_placed_def)
  ultimately show "a + rec_size r \<le> k * page_size l" by simp
qed

lemma log_inv_issue_shift:
  assumes inv: "log_inv l R" and t: "next * page_size l \<le> true_tail l"
  shows "log_inv (issue_shift_addresses l next) R"
    and "read_only_address (issue_shift_addresses l next) \<le> max (read_only_address l) (next * page_size l)"
proof -
  let ?kh = "max (int next + 2 - int (buffer_size l)) 0" and ?kr = "max (int next + 1 - int (mutable_pages l)) 0"
  let ?dh = "?kh * int (page_size l)" and ?dr = "?kr * int (page_size l)"
  have sh: "2 \<le> buffer_size l" "1 \<le> mutable_pages l" using log_invD(10) [OF inv] by (auto simp: shape_ok_def)
  let ?ro = "nat (max ?dr ?dh)"
  have k: "?kh \<le> int next" "?kr \<le> int next" using sh by auto
  then have "max ?dr ?dh \<le> int next * int (page_size l)" by (simp add: mult_right_mono)
  then have ro: "?ro \<le> next * page_size l" by (simp add: nat_le_iff)
  have "max ?dr ?dh = max ?kr ?kh * int (page_size l)" 
    using max_mult_distrib_right [of ?kr ?kh "int (page_size l)"] by simp
  then have rk: "?ro = nat (max ?kr ?kh) * page_size l" by (simp add: nat_mult_distrib)
  have hk: "nat ?dh = nat ?kh * page_size l" by (simp add: nat_mult_distrib)
  define l1 where "l1 = (if ?ro > read_only_address l then snd (shift_read_only_address l ?ro) else l)"
  have ns: "no_straddle R ?ro" unfolding rk by (rule no_straddle_page [OF inv])
  have le: "?ro \<le> true_tail l" using ro t by simp
  have l1: "log_inv l1 R"
    unfolding l1_def using inv log_inv_shift_read_only [OF inv le ns] by simp
  have r1: "read_only_address l1 \<le> max (read_only_address l) (next * page_size l)"
  proof -
    have "read_only_address (if x > read_only_address l then snd (shift_read_only_address l x) else l) \<le> max (read_only_address l) y"
      if "x \<le> true_tail l" "x \<le> y" for x y
      using shift_read_only_wf(4) [OF log_invD(1) [OF inv] that(1)] that(2) by simp
    from this [OF le ro] show ?thesis unfolding l1_def .
  qed
  have e: "issue_shift_addresses l next =
      (if nat ?dh > head_address l1 then snd (shift_head_address l1 (nat ?dh)) else l1)"
    unfolding issue_shift_addresses_def Let_def l1_def by simp
  have nh: "no_straddle R (nat ?dh)" unfolding hk by (rule no_straddle_page [OF inv])
  show "log_inv (issue_shift_addresses l next) R" 
    unfolding e by (cases "nat ?dh > head_address l1") (simp_all only: if_True if_False l1 log_inv_shift_head [OF l1 nh])
  show "read_only_address (issue_shift_addresses l next) \<le> max (read_only_address l) (next * page_size l)"
    unfolding e using r1 shift_head_wf(3) [OF log_invD(1) [OF l1]]
    by (cases "nat ?dh > head_address l1") (simp_all only: if_True if_False)
qed

subsection \<open>What every step keeps\<close>

text \<open>
  A boundary that has moved is either acted upon or its action is still registered: no flush and no close is lost. This is
  why a writer that waits for a page gets it in the end.
\<close>

definition pending :: "hlog \<Rightarrow> log_action set" where
  "pending l = d_action ` set (ep_drain (log_epoch l))"

definition covered_by :: "log_action set \<Rightarrow> hlog \<Rightarrow> bool" where
  "covered_by A l \<longleftrightarrow> page_size l dvd closed_until_address l
     \<and> (read_only_address l \<le> flushed_until_address l \<or> (\<exists>y. PagesMarkedReadOnly y \<in> A \<and> read_only_address l \<le> y))
     \<and> (page_of l (head_address l) * page_size l \<le> closed_until_address l \<or> (\<exists>y. PagesClosed y \<in> A \<and> head_address l \<le> y))"

definition shifts_covered :: "hlog \<Rightarrow> bool" where
  "shifts_covered l \<longleftrightarrow> covered_by (pending l) l"

lemma covered_by_mono: "covered_by A l \<Longrightarrow> A \<subseteq> B \<Longrightarrow> covered_by B l"
  by (auto simp: covered_by_def)

lemma page_of_mono: "a \<le> b \<Longrightarrow> page_of l a \<le> page_of l b"
  by (simp add: page_of_def drop_bit_eq_div div_le_mono)

lemma close_loop_reaches:
  "0 < ps \<Longrightarrow> ps dvd closed \<Longrightarrow> ps dvd close_loop ps y closed \<and> y < close_loop ps y closed + ps"
proof (induction ps y closed rule: close_loop.induct)
  case (1 ps y closed)
  then show ?case by (subst (1 2) close_loop.simps) auto
qed

lemma run_action_covered:
  assumes c: "covered_by (insert a A) l"
  shows "covered_by A (run_action a l)"
proof -
  have eq: "page_size (run_action a l) = page_size l" "page_of (run_action a l) x = page_of l x" for x
    using run_action_frame(1) [where a = a and l = l] by (simp_all add: log_frame_def page_size_def page_of_def)
  show ?thesis
  proof (cases a)
    case (PagesMarkedReadOnly y)
    then show ?thesis using c unfolding covered_by_def eq
      by (auto simp: on_pages_marked_read_only_def flush_until_def Let_def)
  next
    case (PagesClosed y)
    let ?c = "close_loop (page_size l) y (closed_until_address l)"
    have d: "page_size l dvd closed_until_address l" using c by (simp add: covered_by_def)
    have r: "page_size l dvd ?c" "y < ?c + page_size l" "closed_until_address l \<le> ?c"
      using close_loop_reaches [OF _ d, of y] close_loop_ge by (simp_all add: page_size_def)
    have "page_of l h * page_size l \<le> ?c" if "h \<le> y" for h
    proof -
      obtain k where k: "?c = k * page_size l" using r(1) by (metis dvdE mult.commute)
      have "page_of l h * page_size l < (k + 1) * page_size l"
        using page_of_bounds(1) [of l h] that r(2) k by simp
      then have "page_of l h < k + 1" using mult_less_cancel2 by blast
      then show ?thesis unfolding k by simp
    qed
    then show ?thesis using c r PagesClosed unfolding covered_by_def eq by (auto simp: on_pages_closed_def)
  next
    case PhaseObserved
    then show ?thesis using c by (simp add: covered_by_def)
  qed
qed

lemma fold_run_action_covered: "covered_by (set acts \<union> A) l \<Longrightarrow> covered_by A (fold run_action acts l)"
  by (induction acts arbitrary: l) (simp_all add: run_action_covered)

lemma released_all:
  assumes "epoch_wf ep"
  shows "bump_with_action ep act = (n, acts, ep') \<Longrightarrow> set acts \<union> d_action ` set (ep_drain ep') = insert act (d_action ` set (ep_drain ep))"
    and "bump_current_epoch ep = (n, acts, ep') \<Longrightarrow> set acts \<union> d_action ` set (ep_drain ep') = d_action ` set (ep_drain ep)"
proof -
  have dr: "set (fst (drain x)) \<union> d_action ` set (ep_drain (snd (drain x))) = d_action ` set (ep_drain x)"
    if "epoch_wf x" for x :: "'a light_epoch" proof -
    have "set (ep_drain x) = {a \<in> set (ep_drain x). d_epoch a \<le> compute_safe_epoch x} \<union> {a \<in> set (ep_drain x). compute_safe_epoch x < d_epoch a}"
      by auto
    then show ?thesis unfolding drain_eq(2) [OF that] by (simp flip: image_Un)
  qed
  show "bump_with_action ep act = (n, acts, ep') \<Longrightarrow> set acts \<union> d_action ` set (ep_drain ep') = insert act (d_action ` set (ep_drain ep))"
    using dr [OF epoch_wf_push [OF assms refl, of act]] by (simp add: bump_with_action_def Let_def split: prod.splits) (elim conjE, simp)
  show "bump_current_epoch ep = (n, acts, ep') \<Longrightarrow> set acts \<union> d_action ` set (ep_drain ep') = d_action ` set (ep_drain ep)"
  proof -
    assume b: "bump_current_epoch ep = (n, acts, ep')"
    note w = epoch_wf_bump [OF assms]
    have "drain (ep\<lparr>ep_current := ep_current ep + 1\<rparr>) = (acts, ep')"
      using b by (simp add: bump_current_epoch_def Let_def drain_eq(1) [OF w, simplified] split: prod.splits) auto
    with dr [OF w] show ?thesis by simp
  qed
qed

lemma released_covered:
  assumes "covered_by (set acts \<union> d_action ` set (ep_drain ep)) l"
  shows "shifts_covered (fold run_action acts (l\<lparr>log_epoch := ep\<rparr>))"
proof -
  have e: "log_epoch (fold run_action acts (l\<lparr>log_epoch := ep\<rparr>)) = ep"
    by (induction acts arbitrary: l rule: rev_induct) (simp_all add: run_action_frame)
  have "covered_by (set acts \<union> d_action ` set (ep_drain ep)) (l\<lparr>log_epoch := ep\<rparr>)"
    using assms by (simp add: covered_by_def page_size_def page_of_def)
  from fold_run_action_covered [OF this] show ?thesis by (simp add: shifts_covered_def pending_def e)
qed

text \<open>The fixed geometry, the begin address and the epoch slots stay, no watermark moves back and no shift is lost.\<close>

definition log_ext :: "hlog \<Rightarrow> hlog \<Rightarrow> bool" where
  "log_ext l l' \<longleftrightarrow> page_bits l' = page_bits l \<and> buffer_size l' = buffer_size l \<and> mutable_pages l' = mutable_pages l
     \<and> begin_address l' = begin_address l \<and> marks_le l l'
     \<and> ep_table (log_epoch l') = ep_table (log_epoch l) \<and> ep_my_slot (log_epoch l') = ep_my_slot (log_epoch l)
     \<and> (shifts_covered l \<longrightarrow> shifts_covered l')"

lemma covered_same [simp]:
  "shifts_covered (l\<lparr>tail := t\<rparr>) = shifts_covered l" "shifts_covered (set_page_data l q b) = shifts_covered l"
  by (simp_all add: shifts_covered_def covered_by_def pending_def page_size_def page_of_def set_page_data_def)

lemma log_ext_refl [simp]: "log_ext l l"
  by (simp add: log_ext_def)

lemma log_ext_trans [trans]: "log_ext a b \<Longrightarrow> log_ext b c \<Longrightarrow> log_ext a c"
  unfolding log_ext_def using marks_le_trans by auto

lemma log_ext_geometry: "log_ext l l' \<Longrightarrow> page_of l' a = page_of l a \<and> page_offset l' a = page_offset l a \<and> page_size l' = page_size l"
  by (simp add: log_ext_def page_of_def page_offset_def page_size_def)

lemma bump_slots:
  assumes "epoch_wf ep"
  shows "bump_with_action ep act = (n, acts, ep') \<Longrightarrow> ep_table ep' = ep_table ep \<and> ep_my_slot ep' = ep_my_slot ep"
    and "bump_current_epoch ep = (n, acts, ep') \<Longrightarrow> ep_table ep' = ep_table ep \<and> ep_my_slot ep' = ep_my_slot ep"
  using drain_eq(2) [OF epoch_wf_push [OF assms refl, of act]] drain_eq [OF epoch_wf_bump [OF assms]]
  by (auto simp: bump_with_action_def bump_current_epoch_def Let_def)

lemma fold_run_action_epoch: "log_epoch (fold run_action acts l) = log_epoch l" and fold_run_action_frame: "log_frame l (fold run_action acts l)"
  by (induction acts arbitrary: l) (auto simp: run_action_frame intro: log_frame_trans [OF run_action_frame(1)])

lemma released_ext:
  "ep_table ep = ep_table (log_epoch l) \<Longrightarrow> ep_my_slot ep = ep_my_slot (log_epoch l) \<Longrightarrow>
     pending l \<subseteq> set acts \<union> d_action ` set (ep_drain ep) \<Longrightarrow> log_ext l (fold run_action acts (l\<lparr>log_epoch := ep\<rparr>))"
  using fold_run_action_frame [of "l\<lparr>log_epoch := ep\<rparr>" acts] marks_le_trans [OF set_epoch_le fold_run_action_le, of l acts ep]
    released_covered [OF covered_by_mono, of "pending l" l acts ep]
  by (simp add: log_ext_def log_frame_def fold_run_action_epoch shifts_covered_def [of l])

lemma bump_action_ext:
  assumes "hlog_wf l"
  shows "log_ext l (log_bump_with_action l act)"
proof -
  have w: "epoch_wf (log_epoch l)" using assms by (simp add: hlog_wf_def)
  obtain n acts ep where b: "bump_with_action (log_epoch l) act = (n, acts, ep)" by (metis prod_cases3)
  have "pending l \<subseteq> set acts \<union> d_action ` set (ep_drain ep)" using released_all(1) [OF w b] by (auto simp: pending_def)
  with bump_slots(1) [OF w b] released_ext [of ep l acts] b show ?thesis by (simp add: log_bump_with_action_def)
qed

text \<open>A boundary is moved together with the registration of its action.\<close>

lemma moved_ext:
  assumes wf: "epoch_wf (log_epoch l)" and same: "log_epoch l2 = log_epoch l" "page_bits l2 = page_bits l" "buffer_size l2 = buffer_size l"
      "mutable_pages l2 = mutable_pages l" "begin_address l2 = begin_address l"
    and ml: "marks_le l l2" and cov: "covered_by (pending l) l \<Longrightarrow> covered_by (insert act (pending l)) l2"
  shows "log_ext l (log_bump_with_action l2 act)"
proof -
  obtain n acts ep where b: "bump_with_action (log_epoch l) act = (n, acts, ep)" by (metis prod_cases3)
  let ?l = "fold run_action acts (l2\<lparr>log_epoch := ep\<rparr>)"
  have e: "log_bump_with_action l2 act = ?l" using b same(1) by (simp add: log_bump_with_action_def)
  have "shifts_covered ?l" if "shifts_covered l"
    using released_covered [of acts ep l2] cov that released_all(1) [OF wf b] by (simp add: shifts_covered_def pending_def)
  moreover have "marks_le l ?l" using marks_le_trans [OF ml marks_le_trans [OF set_epoch_le fold_run_action_le]] by blast
  ultimately show ?thesis
    unfolding e log_ext_def using same bump_slots(1) [OF wf b] fold_run_action_frame [of "l2\<lparr>log_epoch := ep\<rparr>" acts]
    by (simp add: log_frame_def fold_run_action_epoch)
qed

lemma shift_read_only_ext: "hlog_wf l \<Longrightarrow> log_ext l (snd (shift_read_only_address l x))"
proof (cases "x \<le> read_only_address l")
  case False
  assume wf: "hlog_wf l"
  have "log_ext l (log_bump_with_action (l\<lparr>read_only_address := x\<rparr>) (PagesMarkedReadOnly x))"
    by (rule moved_ext) (use wf False in \<open>auto simp: hlog_wf_def marks_le_def true_tail_def page_size_def covered_by_def page_of_def\<close>)
  then show ?thesis using False by (simp add: shift_read_only_address_def)
qed (simp add: shift_read_only_address_def)

lemma shift_head_ext: "hlog_wf l \<Longrightarrow> log_ext l (snd (shift_head_address l x))"
proof (cases "min x (flushed_until_address l) \<le> head_address l")
  case False
  assume wf: "hlog_wf l"
  let ?h = "min x (flushed_until_address l)"
  have "log_ext l (log_bump_with_action (l\<lparr>head_address := ?h\<rparr>) (PagesClosed ?h))"
    by (rule moved_ext) (use wf False in \<open>auto simp: hlog_wf_def marks_le_def true_tail_def page_size_def covered_by_def page_of_def\<close>)
  moreover have "snd (shift_head_address l x) = log_bump_with_action (l\<lparr>head_address := ?h\<rparr>) (PagesClosed ?h)"
    unfolding shift_head_address_def Let_def if_not_P [OF False] by (rule snd_conv)
  ultimately show ?thesis by simp
qed (simp add: shift_head_address_def)

lemma issue_shift_ext:
  assumes wf: "hlog_wf l" and t: "next * page_size l \<le> true_tail l"
  shows "log_ext l (issue_shift_addresses l next)"
proof -
  have c: "log_ext l (if P then snd (shift_head_address x a) else x)" if "log_ext l x" "hlog_wf x" for P x a
    using that log_ext_trans [OF that(1) shift_head_ext [OF that(2)]] by simp
  have ro: "nat (max (max (int next + 1 - int (mutable_pages l)) 0 * int (page_size l))
       (max (int next + 2 - int (buffer_size l)) 0 * int (page_size l))) \<le> true_tail l" (is "?ro \<le> _")
  proof -
    have sh: "2 \<le> buffer_size l" "1 \<le> mutable_pages l" using wf by (auto simp: hlog_wf_def shape_ok_def)
    have "max (int next + 2 - int (buffer_size l)) 0 \<le> int next" "max (int next + 1 - int (mutable_pages l)) 0 \<le> int next"
      using sh by auto
    then have "?ro \<le> nat (int next * int (page_size l))" by (intro nat_mono) (simp add: mult_right_mono)
    also have "\<dots> = next * page_size l" by (simp add: nat_mult_distrib)
    finally show ?thesis using t by simp
  qed
  show ?thesis
    unfolding issue_shift_addresses_def Let_def
    by (rule c) (use wf shift_read_only_ext [OF wf] shift_read_only_wf(1) [OF wf ro] in simp_all)
qed

text \<open>Where an allocation that finds no page pushes the boundaries: the pages that have to be free are closed up to \<open>page_goal\<close>.\<close>

definition page_goal :: "hlog \<Rightarrow> nat" where
  "page_goal l = (tail_page l + 3 - buffer_size l) * page_size l"

definition pushed :: "hlog \<Rightarrow> hlog \<Rightarrow> bool" where
  "pushed l l' \<longleftrightarrow> \<not> page_is_free l (tail_page l + 1) \<and> page_goal l \<le> read_only_address l'
     \<and> min (page_goal l) (flushed_until_address l) \<le> head_address l'"

lemma issue_shift_pushes:
  assumes wf: "hlog_wf l" and t: "next * page_size l \<le> true_tail l" and g: "goal = (next + 2 - buffer_size l) * page_size l"
  shows "goal \<le> read_only_address (issue_shift_addresses l next)"
    and "min goal (flushed_until_address l) \<le> head_address (issue_shift_addresses l next)"
proof -
  let ?dh = "max (int next + 2 - int (buffer_size l)) 0 * int (page_size l)"
  let ?ro = "nat (max (max (int next + 1 - int (mutable_pages l)) 0 * int (page_size l)) ?dh)"
  have sh: "2 \<le> buffer_size l" "1 \<le> mutable_pages l" using wf by (auto simp: hlog_wf_def shape_ok_def)
  have "nat (max (int next + 2 - int (buffer_size l)) 0) = next + 2 - buffer_size l" by linarith
  then have dh: "nat ?dh = goal" unfolding g by (simp add: nat_mult_distrib)
  have "max (int next + 2 - int (buffer_size l)) 0 \<le> int next" "max (int next + 1 - int (mutable_pages l)) 0 \<le> int next"
    using sh by auto
  then have "?ro \<le> nat (int next * int (page_size l))" by (intro nat_mono) (simp add: mult_right_mono)
  then have ro: "?ro \<le> true_tail l" using t by (simp add: nat_mult_distrib)
  have "goal \<le> ?ro" using dh by simp
  define l1 where "l1 = (if ?ro > read_only_address l then snd (shift_read_only_address l ?ro) else l)"
  have w1: "hlog_wf l1" unfolding l1_def using wf shift_read_only_wf(1) [OF wf ro] by simp
  have r1: "goal \<le> read_only_address l1"
  proof -
    have "y \<le> read_only_address (if x > read_only_address l then snd (shift_read_only_address l x) else l)"
      if "x \<le> true_tail l" "y \<le> x" for x y
      using shift_read_only_wf(4) [OF wf that(1)] that(2) by simp
    from this [OF ro \<open>goal \<le> ?ro\<close>] show ?thesis unfolding l1_def .
  qed
  have f1: "flushed_until_address l \<le> flushed_until_address l1"
    unfolding l1_def using shift_read_only_le [of l ?ro] by (simp add: marks_le_def)
  have e: "issue_shift_addresses l next = (if goal > head_address l1 then snd (shift_head_address l1 goal) else l1)"
    unfolding issue_shift_addresses_def Let_def l1_def dh ..
  show "goal \<le> read_only_address (issue_shift_addresses l next)" unfolding e using r1 shift_head_wf(3) [OF w1] by simp
  have "min goal (flushed_until_address l1) \<le> head_address (snd (shift_head_address l1 goal))"
  proof (cases "min goal (flushed_until_address l1) \<le> head_address l1")
    case False
    show ?thesis
      unfolding shift_head_address_def Let_def if_not_P [OF False] snd_conv using bump_action_le [of "l1\<lparr>head_address := min goal (flushed_until_address l1)\<rparr>"]
      by (simp add: marks_le_def)
  qed (use shift_head_le [of l1 goal] in \<open>auto simp: marks_le_def\<close>)
  then show "min goal (flushed_until_address l) \<le> head_address (issue_shift_addresses l next)" unfolding e using f1 by auto
qed

text \<open>
  The rounds an operation may have to wait: one until the pages to evict are flushed, one until they are closed, and one until
  the read-only boundary has been seen by all threads. \<open>blocked\<close> is why an attempt asks for another round.
\<close>

definition waits :: "hlog \<Rightarrow> nat" where
  "waits l = (if page_is_free l (tail_page l + 1) then 0 else if page_goal l \<le> flushed_until_address l then 1 else 2)
     + (if safe_read_only_address l < read_only_address l then 1 else 0)"

definition blocked :: "hlog \<Rightarrow> hlog \<Rightarrow> bool" where
  "blocked l l' \<longleftrightarrow> pushed l l' \<or> safe_read_only_address l < read_only_address l"

definition settled :: "hlog \<Rightarrow> bool" where
  "settled l \<longleftrightarrow> read_only_address l \<le> flushed_until_address l \<and> page_of l (head_address l) * page_size l \<le> closed_until_address l"

lemma waits_same [simp]:
  "waits (l\<lparr>log_epoch := ep\<rparr>) = waits l" "waits (set_page_data l q b) = waits l"
  "blocked (l\<lparr>log_epoch := ep\<rparr>) l' = blocked l l'" "blocked l (l'\<lparr>log_epoch := ep\<rparr>) = blocked l l'"
  "blocked (set_page_data l q b) l' = blocked l l'"
  by (simp_all add: waits_def blocked_def pushed_def page_goal_def tail_page_def page_is_free_def page_size_def set_page_data_def)

lemma waits_le: "waits l \<le> 3"
  by (simp add: waits_def)

lemma idle_bump:
  assumes wf: "epoch_wf ep" and idle: "\<forall>s \<in> set (ep_table ep). s_epoch s = UNPROTECTED" and b: "bump_current_epoch ep = (n, acts, ep')"
  shows "ep_drain ep' = []"
proof -
  let ?x = "ep\<lparr>ep_current := ep_current ep + 1\<rparr>"
  have w: "epoch_wf ?x" by (rule epoch_wf_bump [OF wf])
  have safe: "compute_safe_epoch ?x = ep_current ep" using idle by (simp add: compute_safe_epoch_def min_epoch_unprotected)
  have "drain_if_any ?x = (acts, ep')" using b by (auto simp: bump_current_epoch_def Let_def split: prod.splits)
  then show ?thesis
    using wf unfolding drain_eq(1) [OF w] drain_eq(2) [OF w] safe by (auto simp: epoch_wf_def filter_empty_conv not_less less_imp_le)
qed

lemma settled_bump:
  assumes wf: "hlog_wf l" and idle: "\<forall>s \<in> set (ep_table (log_epoch l)). s_epoch s = UNPROTECTED" and cov: "shifts_covered l"
    and b: "bump_current_epoch (log_epoch l) = (n, acts, ep)"
  shows "settled (fold run_action acts (l\<lparr>log_epoch := ep\<rparr>))"
proof -
  have ew: "epoch_wf (log_epoch l)" using wf by (simp add: hlog_wf_def)
  have "shifts_covered (fold run_action acts (l\<lparr>log_epoch := ep\<rparr>))"
    using cov released_all(2) [OF ew b] by (intro released_covered) (simp add: shifts_covered_def pending_def)
  then show ?thesis
    using idle_bump [OF ew idle b] by (simp add: shifts_covered_def covered_by_def settled_def pending_def fold_run_action_epoch)
qed

lemma waits_decrease:
  assumes bl: "blocked l l'" and s: "settled l2" "hlog_wf l2" and m: "marks_le l l'" "marks_le l' l2"
    and g: "page_bits l2 = page_bits l" "buffer_size l2 = buffer_size l" "tail_page l2 = tail_page l"
  shows "waits l2 < waits l"
proof -
  have sr: "\<not> safe_read_only_address l2 < read_only_address l2"
    using s by (auto simp: settled_def hlog_wf_def watermarks_ok_def)
  have e: "page_size l2 = page_size l" "page_goal l2 = page_goal l" using g by (simp_all add: page_size_def page_goal_def)
  have free: "page_is_free l2 (tail_page l + 1)" if f: "page_goal l \<le> closed_until_address l2 \<or> page_is_free l (tail_page l + 1)"
  proof (cases "tail_page l + 1 < buffer_size l")
    case False
    then have "(tail_page l + 1 - buffer_size l + 1) * page_size l \<le> page_goal l"
      unfolding page_goal_def by (intro mult_right_mono) simp_all
    moreover have "closed_until_address l \<le> closed_until_address l2" using m by (simp add: marks_le_def)
    ultimately have "(tail_page l + 1 - buffer_size l + 1) * page_size l \<le> closed_until_address l2"
      using f False by (auto simp: page_is_free_def push_bit_eq_mult page_size_def)
    then show ?thesis by (simp add: page_is_free_def push_bit_eq_mult page_size_def g)
  qed (simp add: page_is_free_def g)
  have fl: "flushed_until_address l \<le> flushed_until_address l2" using m by (simp add: marks_le_def)
  show ?thesis
  proof (cases "pushed l l'")
    case False
    then have "safe_read_only_address l < read_only_address l" using bl by (simp add: blocked_def)
    then show ?thesis using sr free fl unfolding waits_def g(3) e by auto
  next
    case True
    then have p: "\<not> page_is_free l (tail_page l + 1)" "page_goal l \<le> read_only_address l'"
      "min (page_goal l) (flushed_until_address l) \<le> head_address l'" by (auto simp: pushed_def)
    have "page_goal l \<le> flushed_until_address l2" using p(2) m(2) s(1) by (auto simp: marks_le_def settled_def)
    moreover have "page_goal l \<le> closed_until_address l2" if "page_goal l \<le> flushed_until_address l"
    proof -
      have "page_goal l \<le> head_address l2" using p(3) that m(2) by (simp add: marks_le_def)
      moreover have "page_of l2 (page_goal l) * page_size l2 = page_goal l"
        using page_ofI [of "tail_page l + 3 - buffer_size l" l2 "page_goal l"] e(1) by (simp add: page_goal_def page_size_def)
      ultimately show ?thesis
        using page_of_mono [of "page_goal l" "head_address l2" l2] s(1) by (metis le_trans mult_le_mono1 settled_def)
    qed
    ultimately show ?thesis using p(1) sr free unfolding waits_def g(3) e by auto
  qed
qed

text \<open>While some thread is inside its epoch no page that was open is closed.\<close>

definition guarded :: "hlog \<Rightarrow> bool" where
  "guarded l \<longleftrightarrow> (\<exists>s \<in> set (ep_table (log_epoch l)). s_epoch s \<noteq> UNPROTECTED)"

definition closes_upto :: "hlog \<Rightarrow> nat \<Rightarrow> bool" where
  \<comment> \<open>the pages that are closed or may close while the guard stays\<close>
  "closes_upto l c \<longleftrightarrow> closed_until_address l \<le> c
     \<and> (\<forall>x \<in> set (ep_drain (log_epoch l)). \<forall>y. d_action x = PagesClosed y \<longrightarrow> y \<le> c)"

lemma guarded_ext: "log_ext l l' \<Longrightarrow> guarded l' = guarded l"
  by (simp add: log_ext_def guarded_def)

lemma bump_guarded:
  assumes wf: "epoch_wf ep" and g: "\<exists>s \<in> set (ep_table ep). s_epoch s \<noteq> UNPROTECTED"
    and b: "bump_with_action ep act = (n, acts, ep')"
  shows "set acts \<subseteq> d_action ` set (ep_drain ep)"
proof -
  let ?d = "ep_drain ep @ [\<lparr>d_epoch = ep_current ep, d_action = act\<rparr>]"
  let ?x = "ep\<lparr>ep_drain := ?d, ep_drain_count := length ?d, ep_current := ep_current ep + 1\<rparr>"
  have w: "epoch_wf ?x" by (rule epoch_wf_push [OF wf refl])
  from g obtain s where s: "s \<in> set (ep_table ep)" "s_epoch s \<noteq> UNPROTECTED" by blast
  have "compute_safe_epoch ?x < s_epoch s" using safe_below(2) [OF w] s by simp
  also have "s_epoch s \<le> ep_current ep" using wf s(1) by (simp add: epoch_wf_def)
  finally have "compute_safe_epoch ?x < ep_current ep" .
  moreover have "drain ?x = (acts, ep')" using b by (auto simp: bump_with_action_def Let_def split: prod.splits)
  ultimately show ?thesis unfolding drain_eq(2) [OF w] by auto
qed

lemma fold_run_action_closed:
  "closed_until_address l \<le> c \<Longrightarrow> (\<And>y. PagesClosed y \<in> set acts \<Longrightarrow> y \<le> c) \<Longrightarrow>
     closed_until_address (fold run_action acts l) \<le> c"
proof (induction acts arbitrary: l)
  case (Cons a acts)
  have "closed_until_address (run_action a l) \<le> c"
    using Cons.prems close_loop_le' by (cases a) (auto simp: on_pages_marked_read_only_def on_pages_closed_def flush_until_def
        Let_def intro: order_trans [OF close_loop_le'])
  then show ?case using Cons by simp
qed simp

lemma bump_closes:
  assumes wf: "epoch_wf (log_epoch l)" and g: "guarded l" and c: "closes_upto l c"
  shows "closed_until_address (log_bump_with_action l act) \<le> c"
    and "(\<And>y. act \<noteq> PagesClosed y) \<Longrightarrow> closes_upto (log_bump_with_action l act) c"
proof -
  obtain n acts ep where b: "bump_with_action (log_epoch l) act = (n, acts, ep)" by (metis prod_cases3)
  have s: "set acts \<subseteq> d_action ` set (ep_drain (log_epoch l))" using g bump_guarded [OF wf _ b] by (simp add: guarded_def)
  show cl: "closed_until_address (log_bump_with_action l act) \<le> c"
    using c s b by (auto simp: log_bump_with_action_def closes_upto_def intro!: fold_run_action_closed)
  show "closes_upto (log_bump_with_action l act) c" if n: "\<And>y. act \<noteq> PagesClosed y"
  proof -
    have ep: "log_epoch (log_bump_with_action l act) = ep" using b by (simp add: log_bump_with_action_def fold_run_action_epoch)
    have "y \<le> c" if x: "x \<in> set (ep_drain ep)" "d_action x = PagesClosed y" for x y
    proof -
      have "d_action x \<in> insert act (d_action ` set (ep_drain (log_epoch l)))"
        using released_subset(1) [OF wf b] x(1) by blast
      then show ?thesis using x(2) n [of y] c by (auto simp: closes_upto_def)
    qed
    with cl ep show ?thesis by (simp add: closes_upto_def)
  qed
qed

lemma issue_shift_closes:
  assumes wf: "hlog_wf l" and t: "next * page_size l \<le> true_tail l" and g: "guarded l"
  shows "closed_until_address (issue_shift_addresses l next) \<le> head_address l"
proof -
  let ?ro = "nat (max (max (int next + 1 - int (mutable_pages l)) 0 * int (page_size l))
       (max (int next + 2 - int (buffer_size l)) 0 * int (page_size l)))"
  have ew: "epoch_wf (log_epoch l)" using wf by (simp add: hlog_wf_def)
  have c0: "closes_upto (l\<lparr>read_only_address := x\<rparr>) (head_address l)" for x
    using wf hlog_wf_actions [OF wf] by (fastforce simp: closes_upto_def hlog_wf_def watermarks_ok_def)
  have c0': "closes_upto l (head_address l)" using c0 [of 0] by (simp add: closes_upto_def)
  define l1 where "l1 = (if ?ro > read_only_address l then snd (shift_read_only_address l ?ro) else l)"
  have "closes_upto (snd (shift_read_only_address l x)) (head_address l)" for x
    using c0' bump_closes(2) [OF _ _ c0, where act = "PagesMarkedReadOnly x"] ew g
    by (simp add: shift_read_only_address_def guarded_def)
  then have c1: "closes_upto l1 (head_address l)" unfolding l1_def using c0' by (simp only: split: if_splits) simp
  have x1: "log_ext l l1" unfolding l1_def using shift_read_only_ext [OF wf] by simp
  have "epoch_wf (log_epoch (snd (shift_read_only_address l x)))" for x
    using ew released_subset(1) [OF ew] by (cases "bump_with_action (log_epoch l) (PagesMarkedReadOnly x)")
       (auto simp: shift_read_only_address_def log_bump_with_action_def fold_run_action_epoch)
  then have w1: "epoch_wf (log_epoch l1)" unfolding l1_def using ew by (simp only: split: if_splits) simp
  have g1: "guarded (l1\<lparr>head_address := h\<rparr>)" for h using g guarded_ext [OF x1] by (simp add: guarded_def)
  have c2: "closes_upto (l1\<lparr>head_address := h\<rparr>) (head_address l)" for h using c1 by (simp add: closes_upto_def)
  have "closed_until_address (snd (shift_head_address l1 h)) \<le> head_address l" for h
    using c1 bump_closes(1) [OF _ g1 c2] w1 by (simp add: shift_head_address_def Let_def closes_upto_def del: min_le_iff_disj)
  then show ?thesis
    unfolding issue_shift_addresses_def Let_def l1_def [symmetric] using c1 unfolding closes_upto_def by (simp split: if_split)
qed

subsection \<open>Allocation\<close>

lemma log_inv_set_tail:
  assumes inv: "log_inv l R" and wf: "hlog_wf (l\<lparr>tail := t\<rparr>)" and g: "true_tail l \<le> true_tail (l\<lparr>tail := t\<rparr>)"
    and free: "page_is_free l (fst (unpack t))"
    and z: "\<And>x. tail_page l < page_of l x \<Longrightarrow> page_of l x \<le> fst (unpack t) \<Longrightarrow> log_byte l x = 0"
  shows "log_inv (l\<lparr>tail := t\<rparr>) R"
proof -
  let ?l = "l\<lparr>tail := t\<rparr>"
  have eq: "page_of ?l a = page_of l a" "page_offset ?l a = page_offset l a" "page_size ?l = page_size l"
    "page_data ?l q = page_data l q" "page_is_free ?l q = page_is_free l q" "tail_page ?l = fst (unpack t)" for a q
    by (simp_all add: page_of_def page_offset_def page_size_def page_is_free_def tail_page_def)
  have "rec_placed ?l a r" "head_address l \<le> a \<Longrightarrow> in_memory ?l a r" "a < flushed_until_address l \<Longrightarrow> on_device ?l a r"
    if "R a = Some r" for a r
    using log_invD(3,5,6) [OF inv that] g by (auto simp: rec_placed_def in_memory_def on_device_def eq)
  moreover have "blank ?l R"
  proof -
    have "log_byte ?l x = log_byte l x" for x by (simp add: log_byte_def eq)
    moreover have "log_byte l x = 0"
      if "flushed_until_address l \<le> x" "page_of l x \<le> fst (unpack t)" "PAGE_HEADER_SIZE \<le> page_offset l x" "uncovered R x" for x
      using log_invD(11) [OF inv] that z [of x] by (cases "page_of l x \<le> tail_page l") (auto simp: blank_def)
    ultimately show ?thesis using log_invD(11) [OF inv] by (simp add: blank_def eq)
  qed
  ultimately show ?thesis
    unfolding log_inv_def using wf free eq log_invD(4,7-9) [OF inv] by (simp add: eq)
qed

lemma log_inv_clear_page:
  assumes inv: "log_inv l R" and u: "unpack (tail l) = (p, off)" and free: "page_is_free l (p + 1)"
  shows "log_inv (set_page_data l (p + 1) (replicate (page_size l) 0)) R"
proof -
  have wf: "hlog_wf l" and sh: "shape_ok l" using log_invD [OF inv] by auto
  have mem: "in_memory (set_page_data l (p + 1) (replicate (page_size l) 0)) a r" if r: "R a = Some r" "head_address l \<le> a" for a r
  proof -
    have "a < true_tail l" using log_invD(3) [OF inv r(1)] rec_size_ge(1) [of r] by (auto simp: rec_placed_def)
    from live_page_slot [OF wf free order_trans [OF closed_le_head [OF inv] r(2)] page_of_le_tail [OF wf u this]] log_invD(5) [OF inv r]
    show ?thesis by (simp add: in_memory_def page_data_set [OF sh])
  qed
  have "log_byte (set_page_data l (p + 1) (replicate (page_size l) 0)) x = log_byte l x"
    if "flushed_until_address l \<le> x" "page_of l x \<le> tail_page l" for x
  proof -
    have "closed_until_address l \<le> x" using that(1) wf by (auto simp: hlog_wf_def watermarks_ok_def)
    moreover have "page_of l x \<le> p" using that(2) u by (simp add: tail_page_def)
    ultimately show ?thesis using live_page_slot [OF wf free] by (simp add: log_byte_def page_data_set [OF sh])
  qed
  then have "blank (set_page_data l (p + 1) (replicate (page_size l) 0)) R" using log_invD(11) [OF inv] by (simp add: blank_def)
  then show ?thesis
    unfolding log_inv_def using set_page_data_wf(1) [OF wf, of "replicate (page_size l) 0" "p + 1"] mem log_invD [OF inv]
    by simp
qed

lemma log_inv_allocate:
  assumes inv: "log_inv l R" and sz: "0 < sz" "sz + PAGE_HEADER_SIZE \<le> page_size l"
  obtains (ok) a l' where "try_allocate l sz = Some (AllocOk a, l')" "log_inv l' R" "log_ext l l'" "allocated l sz a l'"
      "read_only_address l' \<le> a" "a \<le> true_tail l + page_size l" "guarded l \<Longrightarrow> closed_until_address l' \<le> head_address l"
      "tail_page l' = page_of l a" "page_offset l a = PAGE_HEADER_SIZE \<or> a = true_tail l \<and> page_of l a = tail_page l"
  | (later) l' where "try_allocate l sz = Some (RetryLater, l')" "log_inv l' R" "log_ext l l'" "tail_page l' = tail_page l"
      "snd (unpack (tail l')) = page_size l'" "pushed l l'"
proof -
  have wf: "hlog_wf l" by (rule log_invD(1) [OF inv])
  have ps: "512 \<le> page_size l" "page_size l < 2 ^ 31" using page_size_range [OF log_invD(10) [OF inv]] by auto
  have up: "fst (unpack (pack q x)) = q" if "x \<le> page_size l" for q x using that ps by (simp add: unpack_pack)
  from wf sz show thesis
  proof (cases rule: try_allocate_cases)
    case (here p off)
    let ?l = "l\<lparr>tail := pack p (off + sz)\<rparr>"
    have g: "true_tail l \<le> p * page_size l + (off + sz)" using here(4) by simp
    have st: "hlog_wf ?l" "true_tail ?l = p * page_size l + (off + sz)" using set_tail_wf [OF wf _ _ g] here sz by auto
    have "log_inv ?l R"
      using st g here(1,2) log_invD(2) [OF inv] by (intro log_inv_set_tail [OF inv]) (auto simp: up tail_page_def)
    moreover have "log_ext l ?l" using st(2) g by (auto simp: log_ext_def intro!: set_tail_le)
    moreover have "allocated l sz (p * page_size l + off) ?l"
      using try_allocate_wf [OF wf sz] here(3) by auto
    moreover have "read_only_address ?l \<le> p * page_size l + off"
      using wf here(4) by (simp add: hlog_wf_def watermarks_ok_def)
    moreover have "p * page_size l + off \<le> true_tail l + page_size l" using here(4) by simp
    moreover have "closed_until_address ?l \<le> head_address l" using closed_le_head [OF inv] by simp
    moreover have "page_of l (p * page_size l + off) = p" using here(2) sz(1) by (intro page_ofI) simp_all
    moreover have "tail_page ?l = p" "tail_page l = p" using up [OF here(2), of p] here(1) by (simp_all add: tail_page_def)
    ultimately show thesis using ok here(3,4) by (metis (no_types))
  next
    case (full p off)
    let ?l = "l\<lparr>tail := pack p (page_size l)\<rparr>"
    have h: "PAGE_HEADER_SIZE \<le> page_size l" and g: "true_tail l \<le> p * page_size l + page_size l"
      using sz(2) full(2,6) by simp_all
    note st = set_tail_wf [OF wf h order_refl g]
    have i: "log_inv ?l R"
      using st g full(1) log_invD(2) [OF inv] by (intro log_inv_set_tail [OF inv]) (auto simp: up tail_page_def)
    have t: "(p + 1) * page_size ?l \<le> true_tail ?l" using st(2) by simp
    have "log_ext l ?l" using st(2) g by (auto simp: log_ext_def intro!: set_tail_le)
    note e = log_ext_trans [OF this issue_shift_ext [OF st(1) t]]
    have "tail_page (issue_shift_addresses ?l (p + 1)) = tail_page l"
      using issue_shift_wf(2) [OF st(1) t] up [OF order_refl, of p] full(1) by (simp add: log_frame_def tail_page_def)
    moreover have "snd (unpack (tail (issue_shift_addresses ?l (p + 1)))) = page_size (issue_shift_addresses ?l (p + 1))"
      using issue_shift_wf(2) [OF st(1) t] ps by (simp add: log_frame_def page_size_def unpack_pack)
    moreover have "pushed l (issue_shift_addresses ?l (p + 1))"
      using issue_shift_pushes [OF st(1) t refl] full(1,4)
      by (simp add: pushed_def page_goal_def tail_page_def page_size_def numeral_3_eq_3)
    ultimately show thesis by (rule later [OF full(5) log_inv_issue_shift(1) [OF i t] e])
  next
    case (turn p off)
    let ?z = "set_page_data l (p + 1) (replicate (page_size l) 0)"
    let ?l = "?z\<lparr>tail := pack (p + 1) (PAGE_HEADER_SIZE + sz)\<rparr>"
    have zi: "log_inv ?z R" by (rule log_inv_clear_page [OF inv turn(1,4)])
    have g: "true_tail ?z \<le> (p + 1) * page_size ?z + (PAGE_HEADER_SIZE + sz)" using turn(2,6) by simp
    have st: "hlog_wf ?l" "true_tail ?l = (p + 1) * page_size l + (PAGE_HEADER_SIZE + sz)"
      using set_tail_wf [OF log_invD(1) [OF zi] _ _ g] sz(2) by simp_all
    have zb: "log_byte ?z x = 0" if "tail_page ?z < page_of ?z x" "page_of ?z x \<le> p + 1" for x
    proof -
      have "page_of l x = p + 1" using that turn(1) by (simp add: tail_page_def)
      then show ?thesis using page_of_bounds(4) [of l x] by (simp add: log_byte_def page_data_set [OF log_invD(10) [OF inv]])
    qed
    have i: "log_inv ?l R"
      using st g turn(4) sz(2) zb by (intro log_inv_set_tail [OF zi]) (auto simp: up)
    have t: "(p + 1) * page_size ?l \<le> true_tail ?l" using st(2) by simp
    have "marks_le l ?l"
      using marks_le_trans [OF set_page_data_le set_tail_le] st(2) g by simp
    then have "log_ext l ?l" by (simp add: log_ext_def)
    note e = log_ext_trans [OF this issue_shift_ext [OF st(1) t]]
    have "allocated l sz ((p + 1) * page_size l + PAGE_HEADER_SIZE) (issue_shift_addresses ?l (p + 1))"
      using try_allocate_wf [OF wf sz] turn(5) by auto
    moreover have "read_only_address (issue_shift_addresses ?l (p + 1)) \<le> (p + 1) * page_size l + PAGE_HEADER_SIZE"
    proof -
      have "read_only_address l \<le> true_tail l" using wf by (simp add: hlog_wf_def watermarks_ok_def)
      then have "read_only_address ?l \<le> (p + 1) * page_size l" using turn(2,6) by simp
      with log_inv_issue_shift(2) [OF i t] show ?thesis by simp
    qed
    moreover have "(p + 1) * page_size l + PAGE_HEADER_SIZE \<le> true_tail l + page_size l"
      using turn(1,6) wf by (simp add: hlog_wf_def tail_ok_def)
    moreover have "closed_until_address (issue_shift_addresses ?l (p + 1)) \<le> head_address l" if "guarded l"
      using issue_shift_closes [OF st(1) t] that by (simp add: guarded_def)
    moreover have pg: "page_of l ((p + 1) * page_size l + PAGE_HEADER_SIZE) = p + 1"
      using ps by (intro page_ofI) (simp_all add: PAGE_HEADER_SIZE_def)
    moreover have "page_offset l ((p + 1) * page_size l + PAGE_HEADER_SIZE) = PAGE_HEADER_SIZE" unfolding page_of_bounds(3) pg by simp
    moreover have "tail_page (issue_shift_addresses ?l (p + 1)) = p + 1"
      using issue_shift_wf(2) [OF st(1) t] up [of "PAGE_HEADER_SIZE + sz" "p + 1"] sz(2) by (simp add: log_frame_def tail_page_def)
    ultimately show thesis using ok [OF turn(5) log_inv_issue_shift(1) [OF i t] e] by (metis (no_types))
  qed
qed

subsection \<open>A write below the head address\<close>

text \<open>
  A record that was evicted while the writer is inside its epoch still has its page frame; a write to it there touches no
  live record.
\<close>

lemma log_inv_evicted_write:
  assumes inv: "log_inv l R" and b: "closed_until_address l \<le> b" "R b = Some r" "b < head_address l"
    and fit: "length ys \<le> rec_size r"
  shows "log_inv (set_page_data l (page_of l b) (splice_at (page_data l (page_of l b)) (page_offset l b) ys)) R"
proof -
  let ?b = "splice_at (page_data l (page_of l b)) (page_offset l b) ys"
  have sh: "shape_ok l" by (rule log_invD(10) [OF inv])
  note pl = log_invD(3) [OF inv b(2)]
  have ft: "page_offset l b + length ys \<le> page_size l" and bt: "b < true_tail l"
    using pl fit rec_size_ge(1) [of r] by (auto simp: rec_placed_def)
  have wf': "hlog_wf (set_page_data l (page_of l b) ?b)"
    by (rule set_page_data_wf(1) [OF log_invD(1) [OF inv]]) (use page_data_length [OF sh] ft in simp)
  have "in_memory (set_page_data l (page_of l b) ?b) x y" if x: "R x = Some y" "head_address l \<le> x" for x y
  proof (rule page_write_other [OF inv x b(1) bt ft])
    have "b + rec_size r \<le> x" using log_invD(4) [OF inv b(2), of x] x b(3) by auto
    then show "x + rec_size y \<le> b \<or> b + length ys \<le> x" using fit by simp
  qed
  moreover have "blank (set_page_data l (page_of l b) ?b) R"
    by (rule blank_write [where r = r and S = R, OF inv b(1) page_le_tail [OF inv bt] ft b(2) fit])
  ultimately show ?thesis unfolding log_inv_def using wf' log_invD [OF inv] by simp
qed

subsection \<open>Reading\<close>

lemma record_at_inv: "log_inv l R \<Longrightarrow> R a = Some r \<Longrightarrow> head_address l \<le> a \<Longrightarrow> record_at l a = r"
  using log_invD(5) rec_at_decode by (auto simp: in_memory_def record_at_def)

lemma read_record_inv:
  assumes inv: "log_inv l R" and r: "R a = Some r" and lt: "a < flushed_until_address l"
  shows "\<exists>buf. read_record_from_disk l a = Some buf \<and> unsealed (decode buf 0) = unsealed r"
proof -
  obtain r' where r': "a + rec_size r \<le> length (device l)" "rec_at (device l) a r'" "unsealed r' = unsealed r"
    using log_invD(6) [OF inv r lt] by (auto simp: on_device_def)
  have sz: "rec_size r' = rec_size r" by (rule unsealed_eqD(7) [OF r'(3)])
  note ge = rec_size_ge(1) [of r']
  have "total_size_from_header (slice_at (device l) a MIN_DISK_READ) = rec_size r'"
    using total_size_from_header_eq [of a "device l"] rec_at_reads(4) [OF r'(2)] r'(1) sz ge by simp
  then have "read_record_from_disk l a = Some (slice_at (device l) a (rec_size r'))"
    using r'(1) sz ge by (simp add: read_record_from_disk_def read_at_def layout_sizes)
  moreover have "decode (slice_at (device l) a (rec_size r')) 0 = r'"
    using rec_at_decode [OF rec_at_slice [OF r'(2)]] r'(1) sz by simp
  ultimately show ?thesis using r'(3) by auto
qed

end
