(* ===== verification/KeyHash.thy ===== *)
theory KeyHash
  imports Prelude
begin

text \<open>
  The 64-bit key hash of \<^verbatim>\<open>hash.rs\<close>: a multiply-and-fold mixer over 16-byte blocks and a
  tail of at most 15 bytes. The store and the watch table use it as a plain function of the
  key, so the development computes with it and otherwise relies on nothing but its being one.
\<close>

definition mum :: "u64 \<Rightarrow> u64 \<Rightarrow> u64" where
  "mum a b = (let r = (ucast a :: 128 word) * ucast b in ucast r XOR ucast (drop_bit 64 r))"

definition P0 :: u64 where "P0 = 0xa0761d6478bd642f"
definition P1 :: u64 where "P1 = 0xe7037ed1a0b428db"
definition P2 :: u64 where "P2 = 0x8ebc6af09c88c6e3"

definition read_u64 :: "bytes \<Rightarrow> u64" where
  "read_u64 b = from_le (take 8 b)"

definition read_u32 :: "bytes \<Rightarrow> u64" where
  "read_u32 b = ucast (from_le (take 4 b) :: u32)"

text \<open>The \<open>while p.len() >= 16\<close> loop; returns the tail and the seed.\<close>

fun hash_blocks :: "bytes \<Rightarrow> u64 \<Rightarrow> bytes \<times> u64" where
  "hash_blocks p seed =
     (if 16 \<le> length p
      then hash_blocks (drop 16 p) (mum (read_u64 p XOR P1) (read_u64 (drop 8 p) XOR seed))
      else (p, seed))"

declare hash_blocks.simps [simp del]

definition hash_tail :: "bytes \<Rightarrow> u64 \<times> u64" where
  "hash_tail p =
     (let n = length p in
      if n = 0 then (0, 0)
      else if n \<le> 3 then
        (push_bit 16 (ucast (p ! 0)) OR push_bit 8 (ucast (p ! (n div 2))) OR ucast (p ! (n - 1)), 0)
      else if n \<le> 7 then (read_u32 p, read_u32 (drop (n - 4) p))
      else (read_u64 p, read_u64 (drop (n - 8) p)))"

definition hash64 :: "bytes \<Rightarrow> u64" where
  "hash64 key =
     (let len = of_nat (length key);
          (p, seed) = hash_blocks key (P0 XOR (len * P1));
          (a, b) = hash_tail p;
          h = mum (a XOR P1) (b XOR seed)
      in mum (h XOR P2) (word_rotl 29 h XOR len))"

text \<open>The block loop leaves a tail shorter than a block, so every read of the tail is in range.\<close>

lemma hash_blocks_tail: "length (fst (hash_blocks p seed)) < 16"
proof (induction p seed rule: hash_blocks.induct)
  case (1 p seed)
  then show ?case by (cases "16 \<le> length p") (simp_all add: hash_blocks.simps [of p seed])
qed

lemma hash_blocks_length: "length (fst (hash_blocks p seed)) = length p mod 16"
proof (induction p seed rule: hash_blocks.induct)
  case (1 p seed)
  then show ?case
    by (cases "16 \<le> length p") (simp_all add: hash_blocks.simps [of p seed] mod_if)
qed

end
