(* ===== verification/HashIndex.thy ===== *)
theory HashIndex
  imports LogRecord KeyHash
begin

text \<open>
  The hash index (\<^verbatim>\<open>index.rs\<close>) as one thread sees it when no other runs: entry words,
  buckets with their overflow chains, lookup and the claim of a new tag. A walk along
  overflow pointers is a \<^theory_text>\<open>partial_function\<close>: \<open>None\<close> means that it does not return or
  panics (a pointer outside the arena, an exhausted arena). On a well-formed index every walk
  returns, and the index behaves as a map from (bucket, tag) to an entry. The latch protocol
  under interleaving is in \<open>IndexLatch\<close>; the tentative insert is modelled for one thread only, its races
  with other inserts are not.
\<close>

subsection \<open>Entry words\<close>

definition ENTRIES_PER_BUCKET :: nat where "ENTRIES_PER_BUCKET = 7"
definition OVERFLOW_ENTRY :: nat where "OVERFLOW_ENTRY = 7"
definition TAG_BITS :: nat where "TAG_BITS = 15"
definition TAG_SHIFT :: nat where "TAG_SHIFT = 48"
definition TAG_MASK :: u64 where "TAG_MASK = push_bit TAG_SHIFT (push_bit TAG_BITS 1 - 1)"
definition TENTATIVE_BIT :: u64 where "TENTATIVE_BIT = push_bit 63 1"

definition he_make :: "u64 \<Rightarrow> u64 \<Rightarrow> bool \<Rightarrow> u64" where
  "he_make tag address tentative =
     (let w = (push_bit TAG_SHIFT tag AND TAG_MASK) OR (address AND ADDRESS_MASK)
      in if tentative then w OR TENTATIVE_BIT else w)"

definition he_address :: "u64 \<Rightarrow> u64" where
  "he_address w = w AND ADDRESS_MASK"

definition he_tag :: "u64 \<Rightarrow> u64" where
  "he_tag w = drop_bit TAG_SHIFT (w AND TAG_MASK)"

definition he_is_tentative :: "u64 \<Rightarrow> bool" where
  "he_is_tentative w \<longleftrightarrow> w AND TENTATIVE_BIT \<noteq> 0"

definition he_is_empty :: "u64 \<Rightarrow> bool" where
  "he_is_empty w \<longleftrightarrow> w = 0"

subsection \<open>The table\<close>

text \<open>A reference to a bucket: \<open>Main i\<close> is \<open>&buckets[i]\<close>, \<open>Ovf j\<close> is \<open>&overflow[j]\<close>.\<close>

datatype bucket_ref = Main nat | Ovf nat

record hash_index =
  buckets :: "u64 list list"
  ix_mask :: u64
  overflow :: "u64 list list"
  overflow_next :: nat

record slot_ref =
  sr_bref :: bucket_ref \<comment> \<open>with \<open>sr_entry\<close>: the pointer \<open>entry\<close>\<close>
  sr_entry :: nat
  sr_bucket :: nat
  sr_tag :: u64

definition bucket_new :: "u64 list" where
  "bucket_new = replicate 8 0"

definition index_new :: "nat \<Rightarrow> hash_index" where
  "index_new sz =
     (let sz = next_power_of_two (max sz 2) in
      \<lparr>buckets = replicate sz bucket_new, ix_mask = of_nat (sz - 1),
       overflow = replicate (max (sz * 2) 1024) bucket_new, overflow_next = 1\<rparr>)"

definition bucket_index :: "hash_index \<Rightarrow> u64 \<Rightarrow> nat" where
  "bucket_index ix hash = unat (hash AND ix_mask ix)"

definition tag_of :: "u64 \<Rightarrow> u64" where
  "tag_of hash = drop_bit (64 - TAG_BITS) hash"

fun bucket_at :: "hash_index \<Rightarrow> bucket_ref \<Rightarrow> u64 list" where
  "bucket_at ix (Main i) = buckets ix ! i"
| "bucket_at ix (Ovf j) = overflow ix ! j"

fun set_bucket :: "hash_index \<Rightarrow> bucket_ref \<Rightarrow> u64 list \<Rightarrow> hash_index" where
  "set_bucket ix (Main i) b = ix\<lparr>buckets := (buckets ix)[i := b]\<rparr>"
| "set_bucket ix (Ovf j) b = ix\<lparr>overflow := (overflow ix)[j := b]\<rparr>"

definition entry_at :: "hash_index \<Rightarrow> bucket_ref \<Rightarrow> nat \<Rightarrow> u64" where
  "entry_at ix b i = bucket_at ix b ! i"

definition set_entry :: "hash_index \<Rightarrow> bucket_ref \<Rightarrow> nat \<Rightarrow> u64 \<Rightarrow> hash_index" where
  "set_entry ix b i w = set_bucket ix b ((bucket_at ix b)[i := w])"

definition slot_load :: "hash_index \<Rightarrow> slot_ref \<Rightarrow> u64" where
  "slot_load ix s = entry_at ix (sr_bref s) (sr_entry s)"

definition slot_store :: "hash_index \<Rightarrow> slot_ref \<Rightarrow> u64 \<Rightarrow> hash_index" where
  "slot_store ix s w = set_entry ix (sr_bref s) (sr_entry s) w"

definition try_cas :: "hash_index \<Rightarrow> slot_ref \<Rightarrow> u64 \<Rightarrow> u64 \<Rightarrow> bool \<times> hash_index" where
  "try_cas ix s expected new_address =
     (if slot_load ix s = expected
      then (True, slot_store ix s (he_make (sr_tag s) new_address False)) else (False, ix))"

definition try_elide :: "hash_index \<Rightarrow> slot_ref \<Rightarrow> u64 \<Rightarrow> bool \<times> hash_index" where
  "try_elide ix s expected =
     (if slot_load ix s = expected then (True, slot_store ix s 0) else (False, ix))"

definition overflow_bucket :: "hash_index \<Rightarrow> u64 \<Rightarrow> bucket_ref option" where
  \<comment> \<open>\<open>&self.overflow[(addr - 1) as usize]\<close>: out of range it panics\<close>
  "overflow_bucket ix a =
     (if 1 \<le> unat a \<and> unat a \<le> length (overflow ix) then Some (Ovf (unat a - 1)) else None)"

definition alloc_overflow_bucket :: "hash_index \<Rightarrow> (u64 \<times> hash_index) option" where
  "alloc_overflow_bucket ix =
     (let a = overflow_next ix in
      if a \<le> length (overflow ix) then Some (of_nat a, ix\<lparr>overflow_next := a + 1\<rparr>) else None)"

definition next_link :: "hash_index \<Rightarrow> bucket_ref \<Rightarrow> u64" where
  "next_link ix b = entry_at ix b OVERFLOW_ENTRY AND ADDRESS_MASK"

partial_function (option) walk_chain ::
    "hash_index \<Rightarrow> (bucket_ref \<Rightarrow> 'a option) \<Rightarrow> bucket_ref \<Rightarrow> 'a option option" where
  \<comment> \<open>\<open>visit\<close> returns \<open>Some\<close> where the closure returns true, and the walk stops there\<close>
  "walk_chain ix visit b =
     (case visit b of Some r \<Rightarrow> Some (Some r)
      | None \<Rightarrow>
        (let nxt = next_link ix b in
         if nxt = 0 then Some None
         else (case overflow_bucket ix nxt of None \<Rightarrow> None | Some b' \<Rightarrow> walk_chain ix visit b')))"

text \<open>The loop over the seven entries of a bucket, stopping at the first that satisfies \<open>P\<close>.\<close>

definition scan_entries :: "hash_index \<Rightarrow> (bucket_ref \<Rightarrow> nat \<Rightarrow> bool) \<Rightarrow> bucket_ref \<Rightarrow> (bucket_ref \<times> nat) option" where
  "scan_entries ix P b = map_option (\<lambda>i. (b, i)) (List.find (P b) [0..<ENTRIES_PER_BUCKET])"

definition live_with_tag :: "hash_index \<Rightarrow> u64 \<Rightarrow> bucket_ref \<Rightarrow> nat \<Rightarrow> bool" where
  "live_with_tag ix tag b i \<longleftrightarrow>
     (let e = entry_at ix b i in \<not> he_is_empty e \<and> he_tag e = tag \<and> \<not> he_is_tentative e)"

definition mk_slot :: "nat \<Rightarrow> u64 \<Rightarrow> bucket_ref \<times> nat \<Rightarrow> slot_ref" where
  "mk_slot bi tag bi_i = \<lparr>sr_bref = fst bi_i, sr_entry = snd bi_i, sr_bucket = bi, sr_tag = tag\<rparr>"

definition find_tag :: "hash_index \<Rightarrow> u64 \<Rightarrow> slot_ref option option" where
  "find_tag ix hash =
     (let bi = bucket_index ix hash; tag = tag_of hash in
      map_option (map_option (mk_slot bi tag))
        (walk_chain ix (scan_entries ix (live_with_tag ix tag)) (Main bi)))"

partial_function (option) find_tag_or_free_loop ::
    "hash_index \<Rightarrow> nat \<Rightarrow> u64 \<Rightarrow> bucket_ref \<Rightarrow> slot_ref option \<Rightarrow> ((slot_ref + slot_ref) \<times> hash_index) option" where
  \<comment> \<open>\<open>Inr\<close> is the \<open>Ok\<close> of the source (an entry with the tag), \<open>Inl\<close> its \<open>Err\<close> (a free slot)\<close>
  "find_tag_or_free_loop ix bi tag b free =
     (case scan_entries ix (live_with_tag ix tag) b of
        Some bi_i \<Rightarrow> Some (Inr (mk_slot bi tag bi_i), ix)
      | None \<Rightarrow>
        (let free = (case free of Some f \<Rightarrow> Some f
                     | None \<Rightarrow> map_option (mk_slot bi tag)
                         (scan_entries ix (\<lambda>b i. he_is_empty (entry_at ix b i)) b));
             w = entry_at ix b OVERFLOW_ENTRY;
             nxt = w AND ADDRESS_MASK
         in if nxt \<noteq> 0 then
              (case overflow_bucket ix nxt of None \<Rightarrow> None
               | Some b' \<Rightarrow> find_tag_or_free_loop ix bi tag b' free)
            else (case free of Some f \<Rightarrow> Some (Inl f, ix)
              | None \<Rightarrow>
                (case alloc_overflow_bucket ix of None \<Rightarrow> None
                 | Some (new_addr, ix1) \<Rightarrow>
                     find_tag_or_free_loop
                       (set_entry ix1 b OVERFLOW_ENTRY ((w AND NOT ADDRESS_MASK) OR new_addr))
                       bi tag b None))))"

definition find_tag_or_free :: "hash_index \<Rightarrow> nat \<Rightarrow> u64 \<Rightarrow> ((slot_ref + slot_ref) \<times> hash_index) option" where
  "find_tag_or_free ix bi tag = find_tag_or_free_loop ix bi tag (Main bi) None"

definition other_slot_with_tag :: "hash_index \<Rightarrow> nat \<Rightarrow> u64 \<Rightarrow> slot_ref \<Rightarrow> bool option" where
  "other_slot_with_tag ix bi tag mine =
     map_option (\<lambda>r. r \<noteq> None)
       (walk_chain ix
          (scan_entries ix
             (\<lambda>b i. (b, i) \<noteq> (sr_bref mine, sr_entry mine)
                \<and> \<not> he_is_empty (entry_at ix b i) \<and> he_tag (entry_at ix b i) = tag))
          (Main bi))"

partial_function (option) find_or_create_loop ::
    "hash_index \<Rightarrow> nat \<Rightarrow> u64 \<Rightarrow> (slot_ref \<times> hash_index) option" where
  "find_or_create_loop ix bi tag =
     (case find_tag_or_free ix bi tag of None \<Rightarrow> None
      | Some (Inr found, ix1) \<Rightarrow> Some (found, ix1)
      | Some (Inl free, ix1) \<Rightarrow>
          (if slot_load ix1 free \<noteq> 0 then find_or_create_loop ix1 bi tag
           else
             (let ix2 = slot_store ix1 free (he_make tag TEMP_INVALID_ADDRESS True) in
              (case other_slot_with_tag ix2 bi tag free of None \<Rightarrow> None
               | Some other \<Rightarrow>
                   if other then find_or_create_loop (slot_store ix2 free 0) bi tag
                   else Some (free, slot_store ix2 free (he_make tag TEMP_INVALID_ADDRESS False))))))"

definition find_or_create_tag :: "hash_index \<Rightarrow> u64 \<Rightarrow> (slot_ref \<times> hash_index) option" where
  "find_or_create_tag ix hash = find_or_create_loop ix (bucket_index ix hash) (tag_of hash)"

text \<open>
  \<open>for_each_entry\<close>: the (bucket, tag, address) triples in the order of the visits, and
  \<open>clear\<close>, which zeroes every word, the latches in entry 7 included.
\<close>

definition bucket_triples :: "hash_index \<Rightarrow> nat \<Rightarrow> bucket_ref \<Rightarrow> (nat \<times> u64 \<times> u64) list" where
  "bucket_triples ix bi b =
     map (\<lambda>i. (bi, he_tag (entry_at ix b i), he_address (entry_at ix b i)))
       (filter (\<lambda>i. \<not> he_is_empty (entry_at ix b i) \<and> \<not> he_is_tentative (entry_at ix b i))
          [0..<ENTRIES_PER_BUCKET])"

partial_function (option) chain_triples ::
    "hash_index \<Rightarrow> nat \<Rightarrow> bucket_ref \<Rightarrow> (nat \<times> u64 \<times> u64) list option" where
  "chain_triples ix bi b =
     (let nxt = next_link ix b in
      if nxt = 0 then Some (bucket_triples ix bi b)
      else (case overflow_bucket ix nxt of None \<Rightarrow> None
            | Some b' \<Rightarrow> do { ts \<leftarrow> chain_triples ix bi b'; Some (bucket_triples ix bi b @ ts) }))"

fun all_triples :: "hash_index \<Rightarrow> nat list \<Rightarrow> (nat \<times> u64 \<times> u64) list option" where
  "all_triples ix [] = Some []"
| "all_triples ix (bi # bis) =
     do { ts \<leftarrow> chain_triples ix bi (Main bi); us \<leftarrow> all_triples ix bis; Some (ts @ us) }"

definition for_each_entry :: "hash_index \<Rightarrow> (nat \<times> u64 \<times> u64) list option" where
  "for_each_entry ix = all_triples ix [0..<length (buckets ix)]"

definition index_clear :: "hash_index \<Rightarrow> hash_index" where
  "index_clear ix =
     ix\<lparr>buckets := map (\<lambda>b. map (\<lambda>_. 0) b) (buckets ix),
        overflow := map (\<lambda>b. map (\<lambda>_. 0) b) (overflow ix), overflow_next := 1\<rparr>"

subsection \<open>Reading an entry word\<close>

lemma bit_TAG_MASK: "bit TAG_MASK n \<longleftrightarrow> 48 \<le> n \<and> n < 63"
proof -
  have eq: "TAG_MASK = push_bit 48 (mask 15)"
    by (simp add: TAG_MASK_def TAG_SHIFT_def TAG_BITS_def mask_eq_exp_minus_1)
  show ?thesis unfolding eq by (auto simp only: bit_push_bit_iff bit_mask_iff) auto
qed

lemma bit_TENTATIVE_BIT: "bit TENTATIVE_BIT n \<longleftrightarrow> n = 63"
  unfolding TENTATIVE_BIT_def bit_single by auto

lemma he_is_tentative_bit: "he_is_tentative w \<longleftrightarrow> bit w 63"
  by (simp only: he_is_tentative_def TENTATIVE_BIT_def and_single_bit)

lemmas entry_bit_simps =
  bit_TAG_MASK bit_TENTATIVE_BIT bit_ADDRESS_MASK bit_and_iff bit_or_iff bit_not_iff

lemma he_make_reads [entry_simps]:
  shows "he_address (he_make tag a t) = take_bit 48 a"
    and "he_tag (he_make tag a t) = take_bit 15 tag"
    and "he_is_tentative (he_make tag a t) \<longleftrightarrow> t"
proof -
  show "he_address (he_make tag a t) = take_bit 48 a"
    by (rule bit_word_eqI)
       (auto simp: he_address_def he_make_def Let_def entry_bit_simps bit_take_bit_iff)
  show "he_tag (he_make tag a t) = take_bit 15 tag"
    by (rule bit_word_eqI)
       (auto simp: he_tag_def he_make_def Let_def entry_bit_simps bit_take_bit_iff bit_drop_bit_eq
          bit_push_bit_iff TAG_SHIFT_def)
  show "he_is_tentative (he_make tag a t) \<longleftrightarrow> t"
    by (auto simp: he_is_tentative_bit he_make_def Let_def entry_bit_simps)
qed

lemma he_address_take_bit: "he_address w = take_bit 48 w"
  by (simp add: he_address_def ADDRESS_MASK_mask take_bit_eq_mask)

lemma he_make_nonempty: "take_bit 48 a \<noteq> 0 \<Longrightarrow> \<not> he_is_empty (he_make tag a t)"
  using he_make_reads(1) [of tag a t] by (auto simp: he_is_empty_def he_address_def)

lemma TEMP_INVALID_nonempty [simp]: "\<not> he_is_empty (he_make tag TEMP_INVALID_ADDRESS t)"
  by (rule he_make_nonempty) (simp add: TEMP_INVALID_ADDRESS_def)

lemma tag_of_lt: "tag_of hash = take_bit 15 (tag_of hash)"
  by (rule bit_word_eqI) (auto simp: tag_of_def TAG_BITS_def bit_take_bit_iff bit_drop_bit_eq
      dest: bit_imp_le_length)

lemma he_tag_lt: "take_bit 15 (he_tag w) = he_tag w"
  by (rule bit_word_eqI) (auto simp: he_tag_def TAG_SHIFT_def bit_take_bit_iff bit_drop_bit_eq
      entry_bit_simps)

subsection \<open>Chains\<close>

fun own :: "bucket_ref \<Rightarrow> nat" where
  "own (Main i) = 0"
| "own (Ovf j) = Suc j"

fun valid_ref :: "hash_index \<Rightarrow> bucket_ref \<Rightarrow> bool" where
  "valid_ref ix (Main i) \<longleftrightarrow> i < length (buckets ix)"
| "valid_ref ix (Ovf j) \<longleftrightarrow> j < length (overflow ix)"

definition follow :: "hash_index \<Rightarrow> bucket_ref \<Rightarrow> bucket_ref" where
  "follow ix b = Ovf (unat (next_link ix b) - 1)"

fun chain_fuel :: "nat \<Rightarrow> hash_index \<Rightarrow> bucket_ref \<Rightarrow> bucket_ref list" where
  "chain_fuel 0 ix b = [b]"
| "chain_fuel (Suc n) ix b = b # (if next_link ix b = 0 then [] else chain_fuel n ix (follow ix b))"

definition chain :: "hash_index \<Rightarrow> bucket_ref \<Rightarrow> bucket_ref list" where
  "chain ix b = chain_fuel (length (overflow ix)) ix b"

text \<open>
  Overflow pointers lead upwards in the arena, to allocated buckets, and no two buckets share
  one; buckets not yet allocated are zero.
\<close>

definition links_wf :: "hash_index \<Rightarrow> bool" where
  "links_wf ix \<longleftrightarrow>
     (\<forall>b. valid_ref ix b \<longrightarrow> length (bucket_at ix b) = 8)
     \<and> 1 \<le> overflow_next ix \<and> overflow_next ix \<le> length (overflow ix) + 1
     \<and> length (overflow ix) < 2 ^ 48
     \<and> (\<forall>b. valid_ref ix b \<longrightarrow> next_link ix b \<noteq> 0 \<longrightarrow>
          own b < unat (next_link ix b) \<and> unat (next_link ix b) < overflow_next ix)
     \<and> (\<forall>b c. valid_ref ix b \<longrightarrow> valid_ref ix c \<longrightarrow> next_link ix b \<noteq> 0 \<longrightarrow>
          next_link ix b = next_link ix c \<longrightarrow> b = c)
     \<and> (\<forall>j. overflow_next ix \<le> Suc j \<longrightarrow> j < length (overflow ix) \<longrightarrow> overflow ix ! j = bucket_new)"

lemma links_wfD:
  assumes "links_wf ix" and "valid_ref ix b"
  shows "length (bucket_at ix b) = 8"
    and "next_link ix b \<noteq> 0 \<Longrightarrow> own b < unat (next_link ix b)"
    and "next_link ix b \<noteq> 0 \<Longrightarrow> unat (next_link ix b) < overflow_next ix"
    and "next_link ix b \<noteq> 0 \<Longrightarrow> valid_ref ix (follow ix b)"
    and "next_link ix b \<noteq> 0 \<Longrightarrow> own (follow ix b) = unat (next_link ix b)"
    and "next_link ix b \<noteq> 0 \<Longrightarrow> overflow_bucket ix (next_link ix b) = Some (follow ix b)"
proof -
  show len: "length (bucket_at ix b) = 8"
    and up: "next_link ix b \<noteq> 0 \<Longrightarrow> own b < unat (next_link ix b)"
    and lt: "next_link ix b \<noteq> 0 \<Longrightarrow> unat (next_link ix b) < overflow_next ix"
    using assms by (auto simp: links_wf_def)
  assume nz: "next_link ix b \<noteq> 0"
  have "overflow_next ix \<le> length (overflow ix) + 1" using assms by (simp add: links_wf_def)
  with up [OF nz] lt [OF nz]
  show "valid_ref ix (follow ix b)" and "own (follow ix b) = unat (next_link ix b)"
    and "overflow_bucket ix (next_link ix b) = Some (follow ix b)"
    by (auto simp: follow_def overflow_bucket_def)
qed

lemma links_wf_inj:
  "links_wf ix \<Longrightarrow> valid_ref ix b \<Longrightarrow> valid_ref ix c \<Longrightarrow> next_link ix b \<noteq> 0 \<Longrightarrow>
     next_link ix b = next_link ix c \<Longrightarrow> b = c"
  unfolding links_wf_def by blast

lemma own_le: "valid_ref ix b \<Longrightarrow> own b \<le> length (overflow ix)"
  by (cases b) auto

text \<open>Induction along a chain: the distance to the end of the arena decreases.\<close>

lemma chain_induct [consumes 2, case_names link]:
  assumes wf: "links_wf ix" and "valid_ref ix b"
    and step: "\<And>b. valid_ref ix b \<Longrightarrow> (next_link ix b \<noteq> 0 \<Longrightarrow> P (follow ix b)) \<Longrightarrow> P b"
  shows "P b"
  using assms(2)
proof (induction "length (overflow ix) - own b" arbitrary: b rule: less_induct)
  case less
  show ?case
  proof (rule step [OF less.prems])
    assume nz: "next_link ix b \<noteq> 0"
    note f = links_wfD [OF wf less.prems]
    have "valid_ref ix (follow ix b)" and "own b < own (follow ix b)" using f nz by auto
    moreover from this have "own b < length (overflow ix)" using own_le by fastforce
    ultimately show "P (follow ix b)" by (intro less.hyps) auto
  qed
qed

lemma chain_fuel_eq:
  assumes "links_wf ix" and "valid_ref ix b"
    and "length (overflow ix) - own b \<le> n" and "length (overflow ix) - own b \<le> m"
  shows "chain_fuel n ix b = chain_fuel m ix b"
  using assms
proof (induction n arbitrary: b m)
  case 0
  then have "length (overflow ix) \<le> own b" by simp
  then have "next_link ix b = 0"
    using links_wfD(4,5) [OF 0(1,2)] own_le links_wfD(2) [OF 0(1,2)]
    by (metis not_le order_trans order.strict_iff_not)
  then show ?case by (cases m) auto
next
  case (Suc n)
  show ?case
  proof (cases "next_link ix b = 0")
    case True
    then show ?thesis by (cases m) auto
  next
    case False
    note f = links_wfD [OF Suc.prems(1,2)]
    from False f have v: "valid_ref ix (follow ix b)" and lt: "own b < own (follow ix b)" by auto
    from own_le [OF v] lt Suc.prems obtain m' where m: "m = Suc m'" by (cases m) auto
    have "chain_fuel n ix (follow ix b) = chain_fuel m' ix (follow ix b)"
      using Suc.prems lt v m by (intro Suc.IH) auto
    then show ?thesis using False m by simp
  qed
qed

lemma chain_unfold:
  assumes "links_wf ix" and "valid_ref ix b"
  shows "chain ix b = b # (if next_link ix b = 0 then [] else chain ix (follow ix b))"
proof (cases "next_link ix b = 0")
  case True
  then show ?thesis by (cases "length (overflow ix)") (auto simp: chain_def)
next
  case False
  note f = links_wfD [OF assms]
  from False f have v: "valid_ref ix (follow ix b)" and lt: "own b < own (follow ix b)" by auto
  from own_le [OF v] lt obtain n where n: "length (overflow ix) = Suc n"
    by (cases "length (overflow ix)") auto
  have "chain_fuel n ix (follow ix b) = chain_fuel (Suc n) ix (follow ix b)"
    using assms(1) v lt by (intro chain_fuel_eq) (auto simp: n)
  then show ?thesis using False by (simp add: chain_def n)
qed

lemma chain_valid:
  assumes "links_wf ix" and "valid_ref ix b"
  shows "\<forall>c \<in> set (chain ix b). valid_ref ix c \<and> own b \<le> own c"
  using assms
proof (induction rule: chain_induct)
  case (link b)
  then show ?case
    using chain_unfold [OF assms(1) link(1)] links_wfD(2,5) [OF assms(1) link(1)]
    by (auto split: if_splits)
qed

lemma chain_pred:
  assumes "links_wf ix" and "valid_ref ix b"
  shows "c \<in> set (chain ix b) \<Longrightarrow> c = b \<or> (\<exists>d \<in> set (chain ix b). next_link ix d \<noteq> 0 \<and> c = follow ix d)"
  using assms
proof (induction arbitrary: c rule: chain_induct)
  case (link b)
  show ?case
  proof (cases "next_link ix b = 0 \<or> c = b")
    case True
    then show ?thesis using link.prems chain_unfold [OF assms(1) link.hyps] by auto
  next
    case False
    then have nz: "next_link ix b \<noteq> 0" and "c \<in> set (chain ix (follow ix b))"
      using link.prems chain_unfold [OF assms(1) link.hyps] by auto
    then have "c = follow ix b \<or>
       (\<exists>d \<in> set (chain ix (follow ix b)). next_link ix d \<noteq> 0 \<and> c = follow ix d)"
      by (intro link.IH)
    with nz show ?thesis using chain_unfold [OF assms(1) link.hyps] by auto
  qed
qed

text \<open>Chains of different main buckets share no bucket.\<close>

lemma chain_disjoint:
  assumes wf: "links_wf ix" and i: "i < length (buckets ix)" and j: "j < length (buckets ix)"
  shows "c \<in> set (chain ix (Main i)) \<Longrightarrow> c \<in> set (chain ix (Main j)) \<Longrightarrow> i = j"
proof (induction "own c" arbitrary: c rule: less_induct)
  case less
  have vi: "valid_ref ix (Main i)" and vj: "valid_ref ix (Main j)" using i j by auto
  have vc: "valid_ref ix c" using chain_valid [OF wf vi] less.prems by blast
  consider k where "c = Main k" | m where "c = Ovf m" by (cases c) auto
  then show ?case
  proof cases
    case 1
    have "c = Main i"
      using chain_pred [OF wf vi less.prems(1)] 1 by (auto simp: follow_def)
    moreover have "c = Main j"
      using chain_pred [OF wf vj less.prems(2)] 1 by (auto simp: follow_def)
    ultimately show ?thesis by simp
  next
    case 2
    obtain d where d: "d \<in> set (chain ix (Main i))" "next_link ix d \<noteq> 0" "c = follow ix d"
      using chain_pred [OF wf vi less.prems(1)] 2 by auto
    obtain e where e: "e \<in> set (chain ix (Main j))" "next_link ix e \<noteq> 0" "c = follow ix e"
      using chain_pred [OF wf vj less.prems(2)] 2 by auto
    have vd: "valid_ref ix d" and ve: "valid_ref ix e"
      using chain_valid [OF wf vi] chain_valid [OF wf vj] d e by auto
    have "unat (next_link ix d) = unat (next_link ix e)"
      using links_wfD(5) [OF wf vd] links_wfD(5) [OF wf ve] d e by metis
    then have "d = e"
      using links_wf_inj [OF wf vd ve] d(2) by (simp add: word_unat_eq_iff)
    moreover have "own d < own c"
      using links_wfD(2,5) [OF wf vd] d by simp
    ultimately show ?thesis using less.hyps d(1) e(1) by blast
  qed
qed

subsection \<open>Walks over chains\<close>

fun first_some :: "('a \<Rightarrow> 'b option) \<Rightarrow> 'a list \<Rightarrow> 'b option" where
  "first_some f [] = None"
| "first_some f (x # xs) = (case f x of Some r \<Rightarrow> Some r | None \<Rightarrow> first_some f xs)"

lemma walk_chain_eq:
  assumes "links_wf ix" and "valid_ref ix b"
  shows "walk_chain ix visit b = Some (first_some visit (chain ix b))"
  using assms
proof (induction rule: chain_induct)
  case (link b)
  then show ?case
    using chain_unfold [OF assms(1) link.hyps] links_wfD(6) [OF assms(1) link.hyps]
    by (subst walk_chain.simps) (auto simp: Let_def split: option.splits)
qed

lemma scan_entries_Some:
  "scan_entries ix P b = Some bi_i \<Longrightarrow> fst bi_i = b \<and> snd bi_i < 7 \<and> P b (snd bi_i)"
  by (auto simp: scan_entries_def find_Some_iff ENTRIES_PER_BUCKET_def)

lemma scan_entries_None: "scan_entries ix P b = None \<longleftrightarrow> (\<forall>i < 7. \<not> P b i)"
  by (auto simp: scan_entries_def find_None_iff ENTRIES_PER_BUCKET_def)

lemma first_scan_Some:
  "first_some (scan_entries ix P) bs = Some (b, i) \<Longrightarrow> b \<in> set bs \<and> i < 7 \<and> P b i"
  by (induction bs) (auto split: option.splits dest: scan_entries_Some)

lemma first_scan_None:
  "first_some (scan_entries ix P) bs = None \<longleftrightarrow> (\<forall>b \<in> set bs. \<forall>i < 7. \<not> P b i)"
  by (induction bs) (auto split: option.splits simp: scan_entries_None dest: scan_entries_Some)

text \<open>Where at most one slot satisfies \<open>P\<close>, the scan finds exactly it.\<close>

lemma first_scan_unique:
  assumes "b \<in> set bs" and "i < 7" and "P b i"
    and "\<And>c k. c \<in> set bs \<Longrightarrow> k < 7 \<Longrightarrow> P c k \<Longrightarrow> (c, k) = (b, i)"
  shows "first_some (scan_entries ix P) bs = Some (b, i)"
proof (cases "first_some (scan_entries ix P) bs")
  case None
  then show ?thesis using assms by (auto simp: first_scan_None)
next
  case (Some s)
  obtain c k where "s = (c, k)" by (cases s)
  with Some assms(4) show ?thesis using first_scan_Some by blast
qed

lemma bucket_index_lt:
  assumes "length (buckets ix) = 2 ^ k" and "k < 64" and "ix_mask ix = of_nat (2 ^ k - 1)"
  shows "bucket_index ix hash < length (buckets ix)"
proof -
  have "ix_mask ix = mask k"
    using assms by (simp add: mask_eq_exp_minus_1)
  then have "hash AND ix_mask ix = take_bit k hash"
    by (simp add: take_bit_eq_mask)
  moreover have "unat (take_bit k hash) < 2 ^ k"
    by (metis unsigned_take_bit_eq take_bit_nat_less_exp)
  ultimately show ?thesis using assms by (simp add: bucket_index_def)
qed

subsection \<open>The index invariant\<close>

text \<open>
  At rest no entry is tentative, and a chain holds at most one entry per tag: the invariant
  the header of the source states.
\<close>

definition tags_wf :: "hash_index \<Rightarrow> bool" where
  "tags_wf ix \<longleftrightarrow>
     (\<forall>b i. valid_ref ix b \<longrightarrow> i < 7 \<longrightarrow> \<not> he_is_tentative (entry_at ix b i))
     \<and> (\<forall>bi < length (buckets ix). \<forall>b \<in> set (chain ix (Main bi)). \<forall>c \<in> set (chain ix (Main bi)).
          \<forall>i < 7. \<forall>k < 7. \<not> he_is_empty (entry_at ix b i) \<longrightarrow> \<not> he_is_empty (entry_at ix c k) \<longrightarrow>
          he_tag (entry_at ix b i) = he_tag (entry_at ix c k) \<longrightarrow> (b, i) = (c, k))"

definition index_wf :: "hash_index \<Rightarrow> bool" where
  "index_wf ix \<longleftrightarrow>
     (\<exists>k < 64. length (buckets ix) = 2 ^ k \<and> ix_mask ix = of_nat (2 ^ k - 1))
     \<and> links_wf ix \<and> tags_wf ix"

lemma index_wf_links: "index_wf ix \<Longrightarrow> links_wf ix"
  and index_wf_tags: "index_wf ix \<Longrightarrow> tags_wf ix"
  by (auto simp: index_wf_def)

lemma index_wf_bucket_index: "index_wf ix \<Longrightarrow> bucket_index ix hash < length (buckets ix)"
  using bucket_index_lt by (auto simp: index_wf_def)

text \<open>The index as a map: the address stored for a hash, if its tag has an entry.\<close>

definition index_lookup :: "hash_index \<Rightarrow> u64 \<Rightarrow> u64 option" where
  "index_lookup ix hash =
     (case find_tag ix hash of Some (Some s) \<Rightarrow> Some (he_address (slot_load ix s)) | _ \<Rightarrow> None)"

definition same_entry :: "hash_index \<Rightarrow> u64 \<Rightarrow> u64 \<Rightarrow> bool" where
  "same_entry ix h h' \<longleftrightarrow> bucket_index ix h = bucket_index ix h' \<and> tag_of h = tag_of h'"

lemma find_tag_eq:
  assumes "index_wf ix"
  shows "find_tag ix hash =
    Some (map_option (mk_slot (bucket_index ix hash) (tag_of hash))
      (first_some (scan_entries ix (live_with_tag ix (tag_of hash))) (chain ix (Main (bucket_index ix hash)))))"
  using assms
  by (simp add: find_tag_def Let_def walk_chain_eq index_wf_links index_wf_bucket_index)

lemma live_unique:
  assumes "index_wf ix" and "bi < length (buckets ix)"
    and "b \<in> set (chain ix (Main bi))" and "i < 7" and "live_with_tag ix tag b i"
    and "c \<in> set (chain ix (Main bi))" and "k < 7" and "live_with_tag ix tag c k"
  shows "(c, k) = (b, i)"
  using assms unfolding index_wf_def tags_wf_def live_with_tag_def Let_def by blast

subsection \<open>Storing an entry\<close>

lemma set_entry_shape [simp]:
  shows "length (buckets (set_entry ix b i w)) = length (buckets ix)"
    and "length (overflow (set_entry ix b i w)) = length (overflow ix)"
    and "ix_mask (set_entry ix b i w) = ix_mask ix"
    and "overflow_next (set_entry ix b i w) = overflow_next ix"
    and "valid_ref (set_entry ix b i w) c = valid_ref ix c"
    and "bucket_index (set_entry ix b i w) h = bucket_index ix h"
proof -
  show "length (buckets (set_entry ix b i w)) = length (buckets ix)"
    and "length (overflow (set_entry ix b i w)) = length (overflow ix)"
    and "ix_mask (set_entry ix b i w) = ix_mask ix"
    and "overflow_next (set_entry ix b i w) = overflow_next ix"
    and "bucket_index (set_entry ix b i w) h = bucket_index ix h"
    by (cases b; simp add: set_entry_def bucket_index_def)+
  then show "valid_ref (set_entry ix b i w) c = valid_ref ix c"
    by (cases c) auto
qed

lemma bucket_at_set_entry:
  assumes "valid_ref ix b"
  shows "bucket_at (set_entry ix b i w) c = (if c = b then (bucket_at ix b)[i := w] else bucket_at ix c)"
  using assms by (cases b; cases c) (auto simp: set_entry_def)

lemma entry_at_set_entry:
  assumes "valid_ref ix b" and "i < length (bucket_at ix b)"
  shows "entry_at (set_entry ix b i w) c k = (if (c, k) = (b, i) then w else entry_at ix c k)"
  using assms by (auto simp: entry_at_def bucket_at_set_entry nth_list_update)

lemma chain_allocated:
  assumes wf: "links_wf ix" and i: "i < length (buckets ix)" and c: "c \<in> set (chain ix (Main i))"
  shows "own c < overflow_next ix"
proof -
  have v: "valid_ref ix (Main i)" using i by simp
  from chain_pred [OF wf v c] show ?thesis
  proof
    assume "c = Main i"
    then show ?thesis using wf by (simp add: links_wf_def)
  next
    assume "\<exists>d \<in> set (chain ix (Main i)). next_link ix d \<noteq> 0 \<and> c = follow ix d"
    then obtain d where "d \<in> set (chain ix (Main i))" "next_link ix d \<noteq> 0" "c = follow ix d" by blast
    then show ?thesis using chain_valid [OF wf v] links_wfD(3,5) [OF wf] by metis
  qed
qed

lemma chain_cong:
  assumes wf: "links_wf ix" and "valid_ref ix b" and wf': "links_wf ix'"
    and v: "\<And>c. valid_ref ix c \<Longrightarrow> valid_ref ix' c"
    and nl: "\<And>c. valid_ref ix c \<Longrightarrow> next_link ix' c = next_link ix c"
  shows "chain ix' b = chain ix b"
  using wf assms(2)
proof (induction rule: chain_induct)
  case (link b)
  have "follow ix' b = follow ix b" using nl [OF link.hyps] by (simp add: follow_def)
  then show ?case
    using link chain_unfold [OF wf link.hyps] chain_unfold [OF wf' v [OF link.hyps]] nl [OF link.hyps]
    by auto
qed

lemma links_wf_store:
  assumes wf: "links_wf ix" and v: "valid_ref ix b" and i: "i < 7" and al: "own b < overflow_next ix"
  shows "links_wf (set_entry ix b i w)"
    and "valid_ref ix c \<Longrightarrow> chain (set_entry ix b i w) c = chain ix c"
proof -
  have len: "length (bucket_at ix b) = 8" by (rule links_wfD(1) [OF wf v])
  have nl: "next_link (set_entry ix b i w) c = next_link ix c" for c
    using v i len by (simp add: next_link_def entry_at_set_entry OVERFLOW_ENTRY_def)
  have "length (bucket_at (set_entry ix b i w) c) = 8" if "valid_ref ix c" for c
    using links_wfD(1) [OF wf that] v by (simp add: bucket_at_set_entry len)
  moreover have "overflow (set_entry ix b i w) ! j = bucket_new"
    if "overflow_next ix \<le> Suc j" "j < length (overflow ix)" for j
    using wf that bucket_at_set_entry [OF v, of i w "Ovf j"] al by (auto simp: links_wf_def)
  ultimately show wf': "links_wf (set_entry ix b i w)"
    using wf unfolding links_wf_def by (simp add: nl)
  show "valid_ref ix c \<Longrightarrow> chain (set_entry ix b i w) c = chain ix c"
    by (rule chain_cong [OF wf _ wf']) (simp_all add: nl)
qed

text \<open>
  Storing an entry in a slot of a chain keeps the index well formed when no other entry of the
  chain has its tag.
\<close>

lemma index_wf_store:
  assumes wf: "index_wf ix" and bi: "bi < length (buckets ix)" and b: "b \<in> set (chain ix (Main bi))"
    and i: "i < 7" and nt: "\<not> he_is_tentative w"
    and uniq: "\<And>c k. c \<in> set (chain ix (Main bi)) \<Longrightarrow> k < 7 \<Longrightarrow> (c, k) \<noteq> (b, i) \<Longrightarrow>
        \<not> he_is_empty (entry_at ix c k) \<Longrightarrow> \<not> he_is_empty w \<Longrightarrow> he_tag (entry_at ix c k) \<noteq> he_tag w"
  shows "index_wf (set_entry ix b i w)"
proof -
  have lw: "links_wf ix" using wf by (rule index_wf_links)
  have v: "valid_ref ix b" using chain_valid [OF lw, of "Main bi"] bi b by simp
  have al: "own b < overflow_next ix" by (rule chain_allocated [OF lw bi b])
  have len: "length (bucket_at ix b) = 8" by (rule links_wfD(1) [OF lw v])
  note e = entry_at_set_entry [OF v, of i w] and st = links_wf_store [OF lw v i al]
  have ch: "chain (set_entry ix b i w) (Main bj) = chain ix (Main bj)" if "bj < length (buckets ix)" for bj
    using st(2) [of "Main bj" w] that by simp
  have "tags_wf (set_entry ix b i w)"
    unfolding tags_wf_def
  proof (intro conjI allI impI ballI)
    fix c :: bucket_ref and k :: nat
    assume "valid_ref (set_entry ix b i w) c" "k < 7"
    then show "\<not> he_is_tentative (entry_at (set_entry ix b i w) c k)"
      using index_wf_tags [OF wf] nt i len by (auto simp: e tags_wf_def)
  next
    fix bj :: nat and c d :: bucket_ref and k m :: nat
    assume bj: "bj < length (buckets (set_entry ix b i w))"
      and c: "c \<in> set (chain (set_entry ix b i w) (Main bj))" "k < 7"
      and d: "d \<in> set (chain (set_entry ix b i w) (Main bj))" "m < 7"
      and ne: "\<not> he_is_empty (entry_at (set_entry ix b i w) c k)"
        "\<not> he_is_empty (entry_at (set_entry ix b i w) d m)"
      and tg: "he_tag (entry_at (set_entry ix b i w) c k) = he_tag (entry_at (set_entry ix b i w) d m)"
    have cd: "c \<in> set (chain ix (Main bj))" "d \<in> set (chain ix (Main bj))" and bj': "bj < length (buckets ix)"
      using c d bj ch by auto
    have same: "bj = bi" if "b = c \<or> b = d"
      using chain_disjoint [OF lw bj' bi] cd b that by blast
    show "(c, k) = (d, m)"
    proof (cases "(c, k) = (b, i) \<or> (d, m) = (b, i)")
      case True
      with same have "bj = bi" by auto
      then show ?thesis
        using True ne tg uniq [of c k] uniq [of d m] cd c(2) d(2) i len
        by (auto simp: e split: if_splits)
    next
      case False
      then show ?thesis
        using index_wf_tags [OF wf] ne tg cd c(2) d(2) bj' i len
        unfolding tags_wf_def by (auto simp: e)
    qed
  qed
  with wf st(1) show ?thesis by (simp add: index_wf_def)
qed

subsection \<open>Linking an overflow bucket\<close>

definition link_new :: "hash_index \<Rightarrow> bucket_ref \<Rightarrow> hash_index" where
  \<comment> \<open>the index after the chain ending in \<open>l\<close> got the next bucket of the arena\<close>
  "link_new ix l =
     set_entry (ix\<lparr>overflow_next := overflow_next ix + 1\<rparr>) l OVERFLOW_ENTRY
       ((entry_at ix l OVERFLOW_ENTRY AND NOT ADDRESS_MASK) OR of_nat (overflow_next ix))"

lemma link_new_shape [simp]:
  shows "length (buckets (link_new ix l)) = length (buckets ix)"
    and "length (overflow (link_new ix l)) = length (overflow ix)"
    and "ix_mask (link_new ix l) = ix_mask ix"
    and "overflow_next (link_new ix l) = overflow_next ix + 1"
    and "valid_ref (link_new ix l) c = valid_ref ix c"
    and "bucket_index (link_new ix l) h = bucket_index ix h"
proof -
  show "valid_ref (link_new ix l) c = valid_ref ix c"
    by (cases c) (simp_all add: link_new_def)
qed (simp_all add: link_new_def bucket_index_def)

lemma bucket_at_overflow_next [simp]: "bucket_at (ix\<lparr>overflow_next := n\<rparr>) b = bucket_at ix b"
  by (cases b) auto

lemma valid_ref_overflow_next [simp]: "valid_ref (ix\<lparr>overflow_next := n\<rparr>) b = valid_ref ix b"
  by (cases b) auto

lemma or_addr_mask: "((w AND NOT ADDRESS_MASK) OR a) AND ADDRESS_MASK = take_bit 48 a"
  by (rule bit_word_eqI) (auto simp: entry_bit_simps bit_take_bit_iff)

lemma link_new_entries:
  assumes wf: "links_wf ix" and v: "valid_ref ix l" and room: "overflow_next ix \<le> length (overflow ix)"
  shows "k < 7 \<Longrightarrow> entry_at (link_new ix l) c k = entry_at ix c k"
    and "next_link (link_new ix l) c = (if c = l then of_nat (overflow_next ix) else next_link ix c)"
    and "entry_at (link_new ix l) c OVERFLOW_ENTRY AND NOT ADDRESS_MASK
      = entry_at ix c OVERFLOW_ENTRY AND NOT ADDRESS_MASK"
    and "length (bucket_at (link_new ix l) c) = length (bucket_at ix c)"
proof -
  have len: "length (bucket_at ix l) = 8" by (rule links_wfD(1) [OF wf v])
  let ?a = "of_nat (overflow_next ix) :: u64"
  have e: "entry_at (link_new ix l) c k = (if (c, k) = (l, 7)
      then (entry_at ix l 7 AND NOT ADDRESS_MASK) OR ?a else entry_at ix c k)" for c k
    unfolding link_new_def using v len
    by (subst entry_at_set_entry) (auto simp: OVERFLOW_ENTRY_def entry_at_def)
  show "k < 7 \<Longrightarrow> entry_at (link_new ix l) c k = entry_at ix c k" by (simp add: e)
  from room have "overflow_next ix < 2 ^ 48" using wf by (simp add: links_wf_def)
  then have a: "take_bit 48 ?a = ?a" by (rule take_bit_48_of_nat)
  then show "next_link (link_new ix l) c = (if c = l then ?a else next_link ix c)"
    by (simp add: next_link_def e OVERFLOW_ENTRY_def or_addr_mask)
  have "bit ?a n \<Longrightarrow> n < 48" for n
    using a by (metis bit_take_bit_iff)
  then show "entry_at (link_new ix l) c OVERFLOW_ENTRY AND NOT ADDRESS_MASK
      = entry_at ix c OVERFLOW_ENTRY AND NOT ADDRESS_MASK"
    by (intro bit_word_eqI) (auto simp: e OVERFLOW_ENTRY_def entry_bit_simps)
  show "length (bucket_at (link_new ix l) c) = length (bucket_at ix c)"
    unfolding link_new_def using v by (subst bucket_at_set_entry) auto
qed

lemma links_wf_link:
  assumes wf: "links_wf ix" and v: "valid_ref ix l" and al: "own l < overflow_next ix"
    and room: "overflow_next ix \<le> length (overflow ix)" and z: "next_link ix l = 0"
  shows "links_wf (link_new ix l)"
proof -
  let ?a = "overflow_next ix"
  note e = link_new_entries [OF wf v room]
  have ua: "unat (of_nat ?a :: u64) = ?a"
    using room wf by (simp add: links_wf_def unat_of_nat_u64)
  have nz: "(of_nat ?a :: u64) \<noteq> 0" using ua al by (metis gr_implies_not0 unat_0)
  have lt: "unat (next_link ix b) < ?a" if "valid_ref ix b" "next_link ix b \<noteq> 0" for b
    using links_wfD(3) [OF wf that(1)] that(2) .
  have "overflow (link_new ix l) ! j = bucket_new" if "Suc ?a \<le> Suc j" "j < length (overflow ix)" for j
  proof -
    have "l \<noteq> Ovf j" using al that by auto
    then have "bucket_at (link_new ix l) (Ovf j) = bucket_at ix (Ovf j)"
      unfolding link_new_def using v by (subst bucket_at_set_entry) auto
    then show ?thesis using wf that by (simp add: links_wf_def)
  qed
  moreover have "own b < unat (next_link (link_new ix l) b) \<and> unat (next_link (link_new ix l) b) < ?a + 1"
    if "valid_ref ix b" "next_link (link_new ix l) b \<noteq> 0" for b
    using that links_wfD(2) [OF wf that(1)] lt [OF that(1)] al
    by (auto simp: e ua split: if_splits)
  moreover have "b = c" if "valid_ref ix b" "valid_ref ix c" "next_link (link_new ix l) b \<noteq> 0"
    "next_link (link_new ix l) b = next_link (link_new ix l) c" for b c
    using that links_wf_inj [OF wf that(1,2)] lt [OF that(1)] lt [OF that(2)] ua nz
    by (auto simp: e split: if_splits)
  ultimately show ?thesis
    using wf room links_wfD(1) [OF wf] unfolding links_wf_def by (simp add: e)
qed

lemma chain_link:
  assumes wf: "links_wf ix" and v: "valid_ref ix l" and al: "own l < overflow_next ix"
    and room: "overflow_next ix \<le> length (overflow ix)" and z: "next_link ix l = 0"
    and b: "valid_ref ix b"
  shows "chain (link_new ix l) b =
    chain ix b @ (if l \<in> set (chain ix b) then [Ovf (overflow_next ix - 1)] else [])"
  using wf b
proof (induction rule: chain_induct)
  case (link b)
  note e = link_new_entries [OF wf v room] and wf' = links_wf_link [OF wf v al room z]
  let ?n = "Ovf (overflow_next ix - 1)"
  have ua: "unat (of_nat (overflow_next ix) :: u64) = overflow_next ix"
    using room wf by (simp add: links_wf_def unat_of_nat_u64)
  have nz: "(of_nat (overflow_next ix) :: u64) \<noteq> 0" using ua al by (metis gr_implies_not0 unat_0)
  have u: "chain ix b = b # (if next_link ix b = 0 then [] else chain ix (follow ix b))"
    by (rule chain_unfold [OF wf link.hyps])
  have u': "chain (link_new ix l) b = b # (if next_link (link_new ix l) b = 0 then []
      else chain (link_new ix l) (follow (link_new ix l) b))"
    using link.hyps by (intro chain_unfold [OF wf']) simp
  show ?case
  proof (cases "b = l")
    case True
    have f: "follow (link_new ix l) l = ?n" by (simp add: follow_def e ua)
    have vn: "valid_ref ix ?n" using room al by auto
    have "overflow ix ! (overflow_next ix - 1) = bucket_new" using wf room al by (auto simp: links_wf_def)
    then have "next_link ix ?n = 0" by (simp add: next_link_def entry_at_def bucket_new_def OVERFLOW_ENTRY_def)
    moreover have "?n \<noteq> l" using al by (cases l) auto
    ultimately have "chain (link_new ix l) ?n = [?n]"
      using vn chain_unfold [OF wf', of ?n] by (simp add: e)
    then show ?thesis using True u u' z f nz by (simp add: e)
  next
    case False
    then have nl: "next_link (link_new ix l) b = next_link ix b" by (simp add: e)
    then have f: "follow (link_new ix l) b = follow ix b" by (simp add: follow_def)
    show ?thesis
    proof (cases "next_link ix b = 0")
      case True
      then show ?thesis using u u' nl False by auto
    next
      case nz: False
      show ?thesis using u u' nl f nz link.IH [OF nz] \<open>b \<noteq> l\<close> by auto
    qed
  qed
qed

subsection \<open>Lookup and creation of a tag\<close>

lemma index_lookup_iff:
  assumes wf: "index_wf ix"
  shows "index_lookup ix h = Some a \<longleftrightarrow>
    (\<exists>b \<in> set (chain ix (Main (bucket_index ix h))). \<exists>i < 7.
       live_with_tag ix (tag_of h) b i \<and> he_address (entry_at ix b i) = a)" (is "?l = ?r")
proof -
  let ?c = "chain ix (Main (bucket_index ix h))" and ?P = "live_with_tag ix (tag_of h)"
  have lk: "index_lookup ix h = map_option (\<lambda>s. he_address (entry_at ix (fst s) (snd s)))
      (first_some (scan_entries ix ?P) ?c)"
    unfolding index_lookup_def find_tag_eq [OF wf]
    by (cases "first_some (scan_entries ix ?P) ?c") (simp_all add: slot_load_def mk_slot_def)
  show ?thesis
  proof
    assume ?l
    with lk obtain b i where s: "first_some (scan_entries ix ?P) ?c = Some (b, i)"
      "a = he_address (entry_at ix b i)" by (cases "first_some (scan_entries ix ?P) ?c") auto
    from first_scan_Some [OF s(1)] s(2) show ?r by blast
  next
    assume ?r
    then obtain b i where bi: "b \<in> set ?c" "i < 7" "?P b i" "he_address (entry_at ix b i) = a" by blast
    have "first_some (scan_entries ix ?P) ?c = Some (b, i)"
      by (rule first_scan_unique [where P = ?P, OF bi(1-3)])
         (rule live_unique [OF wf index_wf_bucket_index [OF wf] bi(1-3)])
    then show ?l by (simp add: lk bi(4))
  qed
qed

lemma index_lookup_cong:
  assumes "index_wf ix" and "index_wf ix'" and "bucket_index ix' h = bucket_index ix h"
    and "\<And>a. (\<exists>b \<in> set (chain ix' (Main (bucket_index ix h))). \<exists>i < 7.
        live_with_tag ix' (tag_of h) b i \<and> he_address (entry_at ix' b i) = a)
      \<longleftrightarrow> (\<exists>b \<in> set (chain ix (Main (bucket_index ix h))). \<exists>i < 7.
        live_with_tag ix (tag_of h) b i \<and> he_address (entry_at ix b i) = a)"
  shows "index_lookup ix' h = index_lookup ix h"
proof -
  have "index_lookup ix' h = Some a \<longleftrightarrow> index_lookup ix h = Some a" for a
    using assms by (simp add: index_lookup_iff)
  then show ?thesis by (metis option.exhaust)
qed

lemma find_tag_or_free_loop_eq:
  assumes wf: "links_wf ix" and b: "valid_ref ix b"
  shows "find_tag_or_free_loop ix bi tag b free =
    (case first_some (scan_entries ix (live_with_tag ix tag)) (chain ix b) of
       Some s \<Rightarrow> Some (Inr (mk_slot bi tag s), ix)
     | None \<Rightarrow>
       (case (case free of Some f \<Rightarrow> Some f
              | None \<Rightarrow> map_option (mk_slot bi tag)
                  (first_some (scan_entries ix (\<lambda>b i. he_is_empty (entry_at ix b i))) (chain ix b))) of
          Some f \<Rightarrow> Some (Inl f, ix)
        | None \<Rightarrow>
            if overflow_next ix \<le> length (overflow ix)
            then find_tag_or_free_loop (link_new ix (last (chain ix b))) bi tag (last (chain ix b)) None
            else None))"
  using wf b
proof (induction arbitrary: free rule: chain_induct)
  case (link b)
  have u: "chain ix b = b # (if next_link ix b = 0 then [] else chain ix (follow ix b))"
    by (rule chain_unfold [OF wf link.hyps])
  have nonempty: "chain ix c \<noteq> []" for c by (simp add: chain_def) (cases "length (overflow ix)", auto)
  show ?case
  proof (cases "next_link ix b = 0")
    case True
    then show ?thesis
      using u
      by (subst find_tag_or_free_loop.simps)
         (auto simp: Let_def next_link_def alloc_overflow_bucket_def link_new_def split: option.splits)
  next
    case False
    have ov: "overflow_bucket ix (next_link ix b) = Some (follow ix b)"
      by (rule links_wfD(6) [OF wf link.hyps False])
    show ?thesis
      using u False nonempty [of "follow ix b"]
      by (subst find_tag_or_free_loop.simps)
         (simp add: Let_def ov link.IH [OF False] next_link_def [symmetric] split: option.splits)
  qed
qed

text \<open>
  With room in the arena, the scan returns the live entry of the tag, or else a free slot of
  the chain; then the index holds the same entries, extended at most by an empty bucket.
\<close>

definition same_contents :: "hash_index \<Rightarrow> hash_index \<Rightarrow> bool" where
  "same_contents ix ix' \<longleftrightarrow>
     length (buckets ix') = length (buckets ix) \<and> length (overflow ix') = length (overflow ix)
     \<and> (\<forall>h. bucket_index ix' h = bucket_index ix h \<and> index_lookup ix' h = index_lookup ix h)
     \<and> (\<forall>b. entry_at ix' b OVERFLOW_ENTRY AND NOT ADDRESS_MASK
           = entry_at ix b OVERFLOW_ENTRY AND NOT ADDRESS_MASK)
     \<and> overflow_next ix' \<le> Suc (overflow_next ix)"

lemma link_new_wf:
  assumes wf: "index_wf ix" and bi: "bi < length (buckets ix)" and room: "overflow_next ix \<le> length (overflow ix)"
    and l: "l \<in> set (chain ix (Main bi))" and z: "next_link ix l = 0"
  shows "index_wf (link_new ix l)" and "same_contents ix (link_new ix l)"
    and "chain (link_new ix l) (Main bi) = chain ix (Main bi) @ [Ovf (overflow_next ix - 1)]"
    and "k < 7 \<Longrightarrow> entry_at (link_new ix l) (Ovf (overflow_next ix - 1)) k = 0"
proof -
  have lw: "links_wf ix" using wf by (rule index_wf_links)
  have v: "valid_ref ix l" using chain_valid [OF lw, of "Main bi"] bi l by simp
  have al: "own l < overflow_next ix" by (rule chain_allocated [OF lw bi l])
  note e = link_new_entries [OF lw v room] and ch = chain_link [OF lw v al room z]
  let ?n = "Ovf (overflow_next ix - 1)"
  show "chain (link_new ix l) (Main bi) = chain ix (Main bi) @ [?n]"
    using ch [of "Main bi"] bi l by simp
  have "overflow ix ! (overflow_next ix - 1) = bucket_new" using lw room al by (auto simp: links_wf_def)
  then have zero: "entry_at ix ?n k = 0" if "k < 7" for k
    using that by (simp add: entry_at_def bucket_new_def)
  then show "k < 7 \<Longrightarrow> entry_at (link_new ix l) ?n k = 0" by (simp add: e)
  have sub: "c \<in> set (chain ix (Main bj)) \<or> c = ?n" if "bj < length (buckets ix)"
    "c \<in> set (chain (link_new ix l) (Main bj))" for bj c
    using that ch [of "Main bj"] by (auto split: if_splits)
  have "tags_wf (link_new ix l)"
    unfolding tags_wf_def
  proof (intro conjI allI impI ballI)
    fix c :: bucket_ref and k :: nat
    assume "valid_ref (link_new ix l) c" "k < 7"
    then show "\<not> he_is_tentative (entry_at (link_new ix l) c k)"
      using index_wf_tags [OF wf] by (simp add: e tags_wf_def)
  next
    fix bj :: nat and c d :: bucket_ref and k m :: nat
    assume bj: "bj < length (buckets (link_new ix l))"
      and c: "c \<in> set (chain (link_new ix l) (Main bj))" "k < 7"
      and d: "d \<in> set (chain (link_new ix l) (Main bj))" "m < 7"
      and ne: "\<not> he_is_empty (entry_at (link_new ix l) c k)" "\<not> he_is_empty (entry_at (link_new ix l) d m)"
      and tg: "he_tag (entry_at (link_new ix l) c k) = he_tag (entry_at (link_new ix l) d m)"
    have "c \<noteq> ?n" "d \<noteq> ?n" using ne zero c(2) d(2) by (auto simp: e he_is_empty_def)
    then have "c \<in> set (chain ix (Main bj))" "d \<in> set (chain ix (Main bj))"
      using sub c(1) d(1) bj by auto
    then show "(c, k) = (d, m)"
      using index_wf_tags [OF wf] bj ne tg c(2) d(2) unfolding tags_wf_def by (simp add: e)
  qed
  then show wf': "index_wf (link_new ix l)"
    using wf links_wf_link [OF lw v al room z] by (simp add: index_wf_def)
  have "index_lookup (link_new ix l) h = index_lookup ix h" for h
  proof (rule index_lookup_cong [OF wf wf'])
    fix a
    have lv: "live_with_tag (link_new ix l) t c k = live_with_tag ix t c k" if "k < 7" for t c k
      using that by (simp add: live_with_tag_def e)
    have nl: "\<not> live_with_tag ix t ?n k" if "k < 7" for t k
      using zero [OF that] by (simp add: live_with_tag_def he_is_empty_def)
    show "(\<exists>b \<in> set (chain (link_new ix l) (Main (bucket_index ix h))). \<exists>i < 7.
        live_with_tag (link_new ix l) (tag_of h) b i \<and> he_address (entry_at (link_new ix l) b i) = a)
      \<longleftrightarrow> (\<exists>b \<in> set (chain ix (Main (bucket_index ix h))). \<exists>i < 7.
        live_with_tag ix (tag_of h) b i \<and> he_address (entry_at ix b i) = a)"
      (is "(\<exists>b \<in> set ?c'. \<exists>i < 7. ?Q' b i) \<longleftrightarrow> (\<exists>b \<in> set ?c. \<exists>i < 7. ?Q b i)")
    proof -
      have Q: "?Q' b i = ?Q b i" and N: "\<not> ?Q ?n i" if "i < 7" for b i
        using that nl by (simp_all add: lv e)
      have "set ?c' = set ?c \<or> set ?c' = insert ?n (set ?c)"
        using ch [of "Main (bucket_index ix h)"] index_wf_bucket_index [OF wf, of h]
        by (cases "l \<in> set ?c") simp_all
      then show ?thesis using Q N by (metis insert_iff)
    qed
  qed simp
  then show "same_contents ix (link_new ix l)"
    by (simp add: same_contents_def e)
qed

lemma chain_last:
  assumes wf: "links_wf ix" and v: "valid_ref ix b"
  shows "last (chain ix b) \<in> set (chain ix b) \<and> next_link ix (last (chain ix b)) = 0"
  using wf v
proof (induction rule: chain_induct)
  case (link b)
  then show ?case
    using chain_unfold [OF wf link.hyps] by (cases "next_link ix b = 0") auto
qed

lemma live_scan_iff:
  assumes wf: "index_wf ix" and bi: "bi < length (buckets ix)" and b: "b \<in> set (chain ix (Main bi))" and i: "i < 7"
  shows "live_with_tag ix tag b i \<longleftrightarrow> \<not> he_is_empty (entry_at ix b i) \<and> he_tag (entry_at ix b i) = tag"
proof -
  have "valid_ref ix b" using chain_valid [OF index_wf_links [OF wf], of "Main bi"] bi b by simp
  then show ?thesis using index_wf_tags [OF wf] i by (auto simp: tags_wf_def live_with_tag_def Let_def)
qed

text \<open>A chain that is full gets the next bucket of the arena, and its first slot is returned.\<close>

lemma find_tag_or_free_full:
  assumes wf: "index_wf ix" and bi: "bi < length (buckets ix)" and room: "overflow_next ix \<le> length (overflow ix)"
    and nf: "first_some (scan_entries ix (live_with_tag ix tag)) (chain ix (Main bi)) = None"
    and full: "first_some (scan_entries ix (\<lambda>b i. he_is_empty (entry_at ix b i))) (chain ix (Main bi)) = None"
  shows "find_tag_or_free ix bi tag =
    Some (Inl (mk_slot bi tag (Ovf (overflow_next ix - 1), 0)), link_new ix (last (chain ix (Main bi))))"
proof -
  let ?l = "last (chain ix (Main bi))" and ?n = "Ovf (overflow_next ix - 1)"
  let ?ix = "link_new ix ?l"
  have lw: "links_wf ix" using wf by (rule index_wf_links)
  have v: "valid_ref ix (Main bi)" using bi by simp
  note l = chain_last [OF lw v]
  have vl: "valid_ref ix ?l" using chain_valid [OF lw v] l by blast
  have al: "own ?l < overflow_next ix" by (rule chain_allocated [OF lw bi l [THEN conjunct1]])
  note e = link_new_entries [OF lw vl room] and w = link_new_wf [OF wf bi room l [THEN conjunct1] l [THEN conjunct2]]
  have lw': "links_wf ?ix" using w(1) by (rule index_wf_links)
  have "chain ix ?l = [?l]" using chain_unfold [OF lw vl] l by simp
  then have ch: "chain ?ix ?l = [?l, ?n]"
    using chain_link [OF lw vl al room l [THEN conjunct2] vl] by simp
  have live: "\<not> live_with_tag ?ix tag ?l i" and ful: "\<not> he_is_empty (entry_at ?ix ?l i)" if "i < 7" for i
    using nf full l that by (simp_all add: first_scan_None live_with_tag_def e)
  have zero: "entry_at ?ix ?n i = 0" if "i < 7" for i using w(4) that .
  have "first_some (scan_entries ?ix (live_with_tag ?ix tag)) [?l, ?n] = None"
    unfolding first_scan_None using live zero by (auto simp: live_with_tag_def he_is_empty_def)
  moreover have "scan_entries ?ix (\<lambda>b i. he_is_empty (entry_at ?ix b i)) ?l = None"
    unfolding scan_entries_None using ful by simp
  moreover have "scan_entries ?ix (\<lambda>b i. he_is_empty (entry_at ?ix b i)) ?n = Some (?n, 0)"
    using zero [of 0] by (simp add: scan_entries_def ENTRIES_PER_BUCKET_def upt_rec he_is_empty_def)
  ultimately have "find_tag_or_free_loop ?ix bi tag ?l None = Some (Inl (mk_slot bi tag (?n, 0)), ?ix)"
    using vl by (subst find_tag_or_free_loop_eq [OF lw']) (simp_all add: ch)
  then show ?thesis
    unfolding find_tag_or_free_def using nf full room
    by (subst find_tag_or_free_loop_eq [OF lw v]) simp
qed

lemma same_contents_refl [simp]: "same_contents ix ix"
  by (simp add: same_contents_def)

lemma find_tag_or_free_cases:
  assumes wf: "index_wf ix" and bi: "bi < length (buckets ix)" and room: "overflow_next ix \<le> length (overflow ix)"
  obtains
    (found) s where "first_some (scan_entries ix (live_with_tag ix tag)) (chain ix (Main bi)) = Some s"
      and "find_tag_or_free ix bi tag = Some (Inr (mk_slot bi tag s), ix)"
  | (free) b i ix1 where "first_some (scan_entries ix (live_with_tag ix tag)) (chain ix (Main bi)) = None"
      and "find_tag_or_free ix bi tag = Some (Inl (mk_slot bi tag (b, i)), ix1)"
      and "index_wf ix1" and "same_contents ix ix1" and "b \<in> set (chain ix1 (Main bi))" and "i < 7"
      and "entry_at ix1 b i = 0"
      and "\<And>c k. c \<in> set (chain ix1 (Main bi)) \<Longrightarrow> k < 7 \<Longrightarrow> \<not> live_with_tag ix1 tag c k"
proof (cases "first_some (scan_entries ix (live_with_tag ix tag)) (chain ix (Main bi))")
  case (Some s)
  have lw: "links_wf ix" and v: "valid_ref ix (Main bi)" using wf bi index_wf_links by auto
  show thesis
    using Some by (intro found [OF Some])
      (simp add: find_tag_or_free_def find_tag_or_free_loop_eq [OF lw v])
next
  case None
  have lw: "links_wf ix" and v: "valid_ref ix (Main bi)" using wf bi index_wf_links by auto
  note no = None [unfolded first_scan_None]
  show thesis
  proof (cases "first_some (scan_entries ix (\<lambda>b i. he_is_empty (entry_at ix b i))) (chain ix (Main bi))")
    case (Some s)
    obtain b i where s: "s = (b, i)" by (cases s)
    note f = first_scan_Some [OF Some [unfolded s]]
    show thesis
    proof (rule free [OF None, of b i ix])
      show "find_tag_or_free ix bi tag = Some (Inl (mk_slot bi tag (b, i)), ix)"
        unfolding find_tag_or_free_def
        by (subst find_tag_or_free_loop_eq [OF lw v]) (simp add: None Some s)
    qed (use wf f no in \<open>simp_all add: he_is_empty_def\<close>)
  next
    case full: None
    let ?ix = "link_new ix (last (chain ix (Main bi)))" and ?n = "Ovf (overflow_next ix - 1)"
    note l = chain_last [OF lw v]
    note w = link_new_wf [OF wf bi room l [THEN conjunct1] l [THEN conjunct2]]
    have vl: "valid_ref ix (last (chain ix (Main bi)))" using chain_valid [OF lw v] l by blast
    have "\<not> live_with_tag ?ix tag c k" if "c \<in> set (chain ?ix (Main bi))" "k < 7" for c k
    proof (cases "c = ?n")
      case True
      then show ?thesis using w(4) [OF that(2)] by (simp add: live_with_tag_def he_is_empty_def)
    next
      case False
      then have "c \<in> set (chain ix (Main bi))" using that(1) w(3) by simp
      with no that(2) have "\<not> live_with_tag ix tag c k" by blast
      then show ?thesis using link_new_entries(1) [OF lw vl room that(2)] by (simp add: live_with_tag_def)
    qed
    then show thesis
      using find_tag_or_free_full [OF wf bi room None full] w by (intro free [OF None]) auto
  qed
qed

text \<open>
  Storing an entry with a tag in a slot that is empty or already has that tag: the lookup of
  the hashes with that bucket and tag reads the new address, every other lookup is unchanged.
\<close>

lemma index_lookup_store:
  assumes wf: "index_wf ix" and bi: "bi < length (buckets ix)" and b: "b \<in> set (chain ix (Main bi))"
    and i: "i < 7" and nt: "\<not> he_is_tentative w" and ne: "\<not> he_is_empty w"
    and old: "he_is_empty (entry_at ix b i) \<or> he_tag (entry_at ix b i) = he_tag w"
    and uniq: "\<forall>c \<in> set (chain ix (Main bi)). \<forall>k < 7. (c, k) \<noteq> (b, i) \<longrightarrow> \<not> live_with_tag ix (he_tag w) c k"
  shows "index_wf (set_entry ix b i w)"
    and "index_lookup (set_entry ix b i w) h =
      (if bucket_index ix h = bi \<and> tag_of h = he_tag w then Some (he_address w) else index_lookup ix h)"
proof -
  have lw: "links_wf ix" using wf by (rule index_wf_links)
  have v: "valid_ref ix b" using chain_valid [OF lw, of "Main bi"] bi b by simp
  have al: "own b < overflow_next ix" by (rule chain_allocated [OF lw bi b])
  have len: "i < length (bucket_at ix b)" using links_wfD(1) [OF lw v] i by simp
  note e = entry_at_set_entry [OF v len, of w]
  let ?ix = "set_entry ix b i w" and ?bh = "bucket_index ix h"
  show wf': "index_wf ?ix"
  proof (rule index_wf_store [OF wf bi b i nt])
    fix c k assume c: "c \<in> set (chain ix (Main bi))" "k < 7" "(c, k) \<noteq> (b, i)" "\<not> he_is_empty (entry_at ix c k)"
    have "\<not> live_with_tag ix (he_tag w) c k" using uniq [rule_format, OF c(1-3)] .
    with c(4) show "he_tag (entry_at ix c k) \<noteq> he_tag w"
      by (simp add: live_scan_iff [OF wf bi c(1,2)])
  qed
  have bh: "?bh < length (buckets ix)" by (rule index_wf_bucket_index [OF wf])
  have ch: "chain ?ix (Main ?bh) = chain ix (Main ?bh)"
    using links_wf_store(2) [OF lw v i al, of "Main ?bh" w] bh by simp
  have lv: "live_with_tag ?ix t c k \<longleftrightarrow>
      (if (c, k) = (b, i) then he_tag w = t else live_with_tag ix t c k)" for t c k
    using nt ne by (auto simp: live_with_tag_def e)
  show "index_lookup ?ix h =
      (if ?bh = bi \<and> tag_of h = he_tag w then Some (he_address w) else index_lookup ix h)"
  proof (cases "?bh = bi \<and> tag_of h = he_tag w")
    case True
    have "index_lookup ?ix h = Some (he_address w)"
      unfolding index_lookup_iff [OF wf']
      using True b i by (intro bexI [of _ b] exI [of _ i]) (auto simp: ch [simplified True] lv e True)
    then show ?thesis using True by simp
  next
    case False
    have other: "\<not> live_with_tag ix (tag_of h) b i \<and> tag_of h \<noteq> he_tag w" if "b \<in> set (chain ix (Main ?bh))"
    proof -
      have "?bh = bi" using chain_disjoint [OF lw bh bi that b] .
      with False old show ?thesis by (auto simp: live_with_tag_def Let_def)
    qed
    have eq: "live_with_tag ?ix (tag_of h) c k \<and> he_address (entry_at ?ix c k) = a \<longleftrightarrow>
        live_with_tag ix (tag_of h) c k \<and> he_address (entry_at ix c k) = a"
      if "c \<in> set (chain ix (Main ?bh))" for c k a
      using other that by (cases "(c, k) = (b, i)") (auto simp: lv e)
    have "index_lookup ?ix h = index_lookup ix h"
      by (rule index_lookup_cong [OF wf wf']) (simp_all add: ch eq)
    then show ?thesis using False by auto
  qed
qed

lemma find_tag_slot:
  assumes wf: "index_wf ix" and b: "b \<in> set (chain ix (Main (bucket_index ix h)))" and i: "i < 7"
    and l: "live_with_tag ix (tag_of h) b i"
  shows "find_tag ix h = Some (Some (mk_slot (bucket_index ix h) (tag_of h) (b, i)))"
proof -
  have "first_some (scan_entries ix (live_with_tag ix (tag_of h))) (chain ix (Main (bucket_index ix h))) = Some (b, i)"
    by (rule first_scan_unique [where P = "live_with_tag ix (tag_of h)", OF b i l])
       (rule live_unique [OF wf index_wf_bucket_index [OF wf] b i l])
  then show ?thesis by (simp add: find_tag_eq [OF wf])
qed

lemma find_tagD:
  assumes wf: "index_wf ix" and f: "find_tag ix h = Some (Some s)"
  shows "sr_bref s \<in> set (chain ix (Main (bucket_index ix h)))" and "sr_entry s < 7"
    and "live_with_tag ix (tag_of h) (sr_bref s) (sr_entry s)" and "sr_tag s = tag_of h"
    and "sr_bucket s = bucket_index ix h"
proof -
  obtain b i where "first_some (scan_entries ix (live_with_tag ix (tag_of h))) (chain ix (Main (bucket_index ix h))) = Some (b, i)"
    and s: "s = mk_slot (bucket_index ix h) (tag_of h) (b, i)"
    using f find_tag_eq [OF wf, of h] by auto
  from first_scan_Some [OF this(1)] s
  show "sr_bref s \<in> set (chain ix (Main (bucket_index ix h)))" and "sr_entry s < 7"
    and "live_with_tag ix (tag_of h) (sr_bref s) (sr_entry s)" and "sr_tag s = tag_of h"
    and "sr_bucket s = bucket_index ix h"
    by (simp_all add: mk_slot_def)
qed

text \<open>The upper 16 bits of entry 7 of every bucket: the latch of a main bucket.\<close>

definition latch_bits :: "hash_index \<Rightarrow> bucket_ref \<Rightarrow> u64" where
  "latch_bits ix b = entry_at ix b OVERFLOW_ENTRY AND NOT ADDRESS_MASK"

lemma latch_bits_store:
  assumes "links_wf ix" and "valid_ref ix b" and "i < 7"
  shows "latch_bits (set_entry ix b i w) c = latch_bits ix c"
  using assms links_wfD(1) [OF assms(1,2)]
  by (simp add: latch_bits_def entry_at_set_entry OVERFLOW_ENTRY_def)

text \<open>What a creation promises: the slot of the tag, and every other lookup kept.\<close>

definition tag_created :: "hash_index \<Rightarrow> u64 \<Rightarrow> slot_ref \<Rightarrow> hash_index \<Rightarrow> bool" where
  "tag_created ix h s ix' \<longleftrightarrow>
     index_wf ix' \<and> find_tag ix' h = Some (Some s)
     \<and> (\<forall>h'. bucket_index ix' h' = bucket_index ix h')
     \<and> (\<forall>h'. index_lookup ix' h' =
          (if same_entry ix h h' \<and> index_lookup ix h = None then Some TEMP_INVALID_ADDRESS
           else index_lookup ix h'))
     \<and> (\<forall>b. latch_bits ix' b = latch_bits ix b) \<and> length (buckets ix') = length (buckets ix)
     \<and> (index_lookup ix h \<noteq> None \<longrightarrow> ix' = ix)
     \<and> length (overflow ix') = length (overflow ix) \<and> overflow_next ix' \<le> Suc (overflow_next ix)"

lemma update_twice: "xs[j := (xs[j := (xs ! j)[i := w]] ! j)[i := w']] = xs[j := (xs ! j)[i := w']]"
  by (cases "j < length xs") (auto simp: list_update_beyond not_less)

lemma set_entry_twice: "set_entry (set_entry ix b i w) b i w' = set_entry ix b i w'"
  by (cases b) (simp_all add: set_entry_def update_twice)

text \<open>With room for one more bucket in the arena, a creation returns and does what it promises.\<close>

lemma find_or_create_tag_created:
  assumes wf: "index_wf ix" and room: "overflow_next ix \<le> length (overflow ix)"
  shows "\<exists>s ix'. find_or_create_tag ix h = Some (s, ix') \<and> tag_created ix h s ix'"
proof -
  let ?bi = "bucket_index ix h" and ?tag = "tag_of h"
  have bi: "?bi < length (buckets ix)" by (rule index_wf_bucket_index [OF wf])
  from wf bi room show ?thesis
  proof (cases rule: find_tag_or_free_cases [of ix ?bi ?tag])
    case (found s)
    let ?s = "mk_slot ?bi ?tag s"
    have f: "find_tag ix h = Some (Some ?s)" by (simp add: find_tag_eq [OF wf] found(1))
    then have "index_lookup ix h \<noteq> None" by (simp add: index_lookup_def)
    then have "tag_created ix h ?s ix" using f wf by (auto simp: tag_created_def)
    moreover have "find_or_create_tag ix h = Some (?s, ix)"
      unfolding find_or_create_tag_def by (subst find_or_create_loop.simps) (simp add: found(2))
    ultimately show ?thesis by blast
  next
    case (free b i ix1)
    let ?s = "mk_slot ?bi ?tag (b, i)" and ?w = "he_make ?tag TEMP_INVALID_ADDRESS False"
    let ?ix2 = "set_entry ix1 b i (he_make ?tag TEMP_INVALID_ADDRESS True)" and ?ix3 = "set_entry ix1 b i ?w"
    note sc = free(4) [unfolded same_contents_def]
    have lw: "links_wf ix1" by (rule index_wf_links [OF free(3)])
    have bi1: "?bi < length (buckets ix1)" using sc bi by simp
    have v: "valid_ref ix1 b" using chain_valid [OF lw, of "Main ?bi"] bi1 free(5) by simp
    have al: "own b < overflow_next ix1" by (rule chain_allocated [OF lw bi1 free(5)])
    have len: "i < length (bucket_at ix1 b)" using links_wfD(1) [OF lw v] free(6) by simp
    note st = links_wf_store [OF lw v free(6) al]
    have ch2: "chain ?ix2 (Main ?bi) = chain ix1 (Main ?bi)" using st(2) [of "Main ?bi"] bi1 by simp
    have "other_slot_with_tag ?ix2 ?bi ?tag ?s = Some False"
    proof -
      have "first_some (scan_entries ?ix2 (\<lambda>c k. (c, k) \<noteq> (b, i) \<and> \<not> he_is_empty (entry_at ?ix2 c k)
          \<and> he_tag (entry_at ?ix2 c k) = ?tag)) (chain ix1 (Main ?bi)) = None"
        unfolding first_scan_None
        using free(8) live_scan_iff [OF free(3) bi1] by (auto simp: entry_at_set_entry [OF v len])
      then show ?thesis
        using bi1 by (simp add: other_slot_with_tag_def walk_chain_eq [OF st(1)] ch2 mk_slot_def)
    qed
    then have ret: "find_or_create_tag ix h = Some (?s, ?ix3)"
      unfolding find_or_create_tag_def
      by (subst find_or_create_loop.simps)
         (simp add: free(2,7) slot_load_def slot_store_def mk_slot_def set_entry_twice Let_def)
    have tg: "he_tag ?w = ?tag" using tag_of_lt [of h] by (simp add: entry_simps)
    have ad: "he_address ?w = TEMP_INVALID_ADDRESS" by (simp add: entry_simps TEMP_INVALID_ADDRESS_def)
    have nt: "\<not> he_is_tentative ?w" by (simp add: entry_simps)
    have old: "he_is_empty (entry_at ix1 b i) \<or> he_tag (entry_at ix1 b i) = he_tag ?w"
      using free(7) by (simp add: he_is_empty_def)
    have uniq: "\<forall>c \<in> set (chain ix1 (Main ?bi)). \<forall>k < 7. (c, k) \<noteq> (b, i) \<longrightarrow> \<not> live_with_tag ix1 (he_tag ?w) c k"
      unfolding tg using free(8) by blast
    note lk = index_lookup_store [OF free(3) bi1 free(5,6) nt TEMP_INVALID_nonempty old uniq]
    have ch3: "chain ?ix3 (Main ?bi) = chain ix1 (Main ?bi)" using st(2) [of "Main ?bi"] bi1 by simp
    have none: "index_lookup ix h = None"
      unfolding index_lookup_def find_tag_eq [OF wf] by (simp add: free(1))
    have bx: "bucket_index ix1 h' = bucket_index ix h'" "index_lookup ix1 h' = index_lookup ix h'" for h'
      using sc by auto
    have "live_with_tag ?ix3 ?tag b i"
      using nt tg TEMP_INVALID_nonempty [of ?tag False] by (simp add: live_with_tag_def entry_at_set_entry [OF v len])
    then have "find_tag ?ix3 h = Some (Some ?s)"
      using find_tag_slot [OF lk(1), of b h i] free(5,6) ch3 by (simp add: bx)
    moreover have "index_lookup ?ix3 h' =
        (if same_entry ix h h' \<and> index_lookup ix h = None then Some TEMP_INVALID_ADDRESS else index_lookup ix h')" for h'
      unfolding lk(2) by (auto simp: bx same_entry_def none ad tg)
    moreover have "latch_bits ?ix3 c = latch_bits ix c" for c
      using latch_bits_store [OF lw v free(6)] sc by (simp add: latch_bits_def)
    ultimately have "tag_created ix h ?s ?ix3"
      using lk(1) sc by (simp add: tag_created_def none bx)
    with ret show ?thesis by blast
  qed
qed

text \<open>An entry that exists needs no room.\<close>

lemma find_or_create_existing:
  assumes wf: "index_wf ix" and ex: "index_lookup ix h \<noteq> None"
  shows "\<exists>s. find_or_create_tag ix h = Some (s, ix) \<and> find_tag ix h = Some (Some s)"
proof -
  let ?bi = "bucket_index ix h" and ?tag = "tag_of h"
  have bi: "?bi < length (buckets ix)" by (rule index_wf_bucket_index [OF wf])
  have lw: "links_wf ix" and v: "valid_ref ix (Main ?bi)" using wf bi index_wf_links by auto
  from ex obtain s where s: "first_some (scan_entries ix (live_with_tag ix ?tag)) (chain ix (Main ?bi)) = Some s"
    by (auto simp: index_lookup_def find_tag_eq [OF wf] split: option.splits)
  then have "find_tag_or_free ix ?bi ?tag = Some (Inr (mk_slot ?bi ?tag s), ix)"
    by (simp add: find_tag_or_free_def find_tag_or_free_loop_eq [OF lw v])
  then have "find_or_create_tag ix h = Some (mk_slot ?bi ?tag s, ix)"
    unfolding find_or_create_tag_def by (subst find_or_create_loop.simps) simp
  then show ?thesis using s by (simp add: find_tag_eq [OF wf])
qed

lemma find_tag_store:
  assumes wf: "index_wf ix" and f: "find_tag ix h = Some (Some s)"
    and nt: "\<not> he_is_tentative w" and ne: "\<not> he_is_empty w" and tg: "he_tag w = tag_of h"
  shows "index_wf (slot_store ix s w)" and "find_tag (slot_store ix s w) h = Some (Some s)"
    and "index_lookup (slot_store ix s w) h' =
      (if same_entry ix h h' then Some (he_address w) else index_lookup ix h')"
    and "latch_bits (slot_store ix s w) b = latch_bits ix b"
    and "bucket_index (slot_store ix s w) h' = bucket_index ix h'"
proof -
  let ?b = "sr_bref s" and ?i = "sr_entry s" and ?bi = "bucket_index ix h"
  note d = find_tagD [OF wf f]
  have lw: "links_wf ix" by (rule index_wf_links [OF wf])
  have bi: "?bi < length (buckets ix)" by (rule index_wf_bucket_index [OF wf])
  have v: "valid_ref ix ?b" using chain_valid [OF lw, of "Main ?bi"] bi d(1) by simp
  have len: "?i < length (bucket_at ix ?b)" using links_wfD(1) [OF lw v] d(2) by simp
  have al: "own ?b < overflow_next ix" by (rule chain_allocated [OF lw bi d(1)])
  have old: "he_is_empty (entry_at ix ?b ?i) \<or> he_tag (entry_at ix ?b ?i) = he_tag w"
    using d(3) tg by (simp add: live_with_tag_def Let_def)
  have uniq: "\<forall>c \<in> set (chain ix (Main ?bi)). \<forall>k < 7. (c, k) \<noteq> (?b, ?i) \<longrightarrow> \<not> live_with_tag ix (he_tag w) c k"
    unfolding tg using live_unique [OF wf bi d(1-3)] by blast
  note lk = index_lookup_store [OF wf bi d(1,2) nt ne old uniq]
  show "index_wf (slot_store ix s w)" unfolding slot_store_def by (rule lk(1))
  show "index_lookup (slot_store ix s w) h' =
      (if same_entry ix h h' then Some (he_address w) else index_lookup ix h')"
    unfolding slot_store_def lk(2) by (auto simp: same_entry_def tg)
  show "latch_bits (slot_store ix s w) b = latch_bits ix b"
    unfolding slot_store_def by (rule latch_bits_store [OF lw v d(2)])
  show bx: "bucket_index (slot_store ix s w) h' = bucket_index ix h'" for h' by (simp add: slot_store_def)
  have "live_with_tag (slot_store ix s w) (tag_of h) ?b ?i"
    using nt ne tg by (simp add: live_with_tag_def slot_store_def entry_at_set_entry [OF v len])
  moreover have "chain (slot_store ix s w) (Main ?bi) = chain ix (Main ?bi)"
    using links_wf_store(2) [OF lw v d(2) al, of "Main ?bi"] bi by (simp add: slot_store_def)
  ultimately have "find_tag (slot_store ix s w) h = Some (Some (mk_slot ?bi (tag_of h) (?b, ?i)))"
    using find_tag_slot [of "slot_store ix s w" ?b h ?i] lk(1) d(1,2) by (simp add: bx slot_store_def)
  moreover have "mk_slot ?bi (tag_of h) (?b, ?i) = s" using d(4,5) by (simp add: mk_slot_def)
  ultimately show "find_tag (slot_store ix s w) h = Some (Some s)" by simp
qed

lemma he_make_wf:
  assumes "take_bit 48 a \<noteq> 0"
  shows "\<not> he_is_tentative (he_make (tag_of h) a False)" and "\<not> he_is_empty (he_make (tag_of h) a False)"
    and "he_tag (he_make (tag_of h) a False) = tag_of h"
  using he_make_nonempty [OF assms] tag_of_lt [of h] by (simp_all add: entry_simps)

subsection \<open>The whole table\<close>

lemma chain_zero:
  assumes "\<And>b. valid_ref ix b \<Longrightarrow> next_link ix b = 0" and "valid_ref ix b"
  shows "chain ix b = [b]"
  using assms(1) [OF assms(2)] by (cases "length (overflow ix)") (simp_all add: chain_def)

lemma zeroed_index_wf:
  assumes k: "k < 64" "length (buckets ix) = 2 ^ k" "ix_mask ix = of_nat (2 ^ k - 1)"
    and z: "\<And>b. valid_ref ix b \<Longrightarrow> bucket_at ix b = bucket_new"
    and n: "overflow_next ix = 1" and sz: "length (overflow ix) < 2 ^ 48"
  shows "index_wf ix" and "index_lookup ix h = None"
proof -
  have e: "entry_at ix b i = 0" if "valid_ref ix b" "i < 8" for b i
    using that z by (simp add: entry_at_def bucket_new_def)
  then have nl: "next_link ix b = 0" if "valid_ref ix b" for b
    using that by (simp add: next_link_def OVERFLOW_ENTRY_def)
  have "overflow ix ! j = bucket_new" if "j < length (overflow ix)" for j using z [of "Ovf j"] that by simp
  then have "links_wf ix"
    using sz z by (auto simp: links_wf_def nl n bucket_new_def)
  moreover have ch: "chain ix (Main bi) = [Main bi]" if "bi < length (buckets ix)" for bi
    by (rule chain_zero) (use nl that in auto)
  ultimately show wf: "index_wf ix"
    using k e by (auto simp: index_wf_def tags_wf_def he_is_empty_def he_is_tentative_def)
  have "\<not> live_with_tag ix (tag_of h) b i" if "b \<in> set (chain ix (Main (bucket_index ix h)))" "i < 7" for b i
    using that e [of b i] ch [OF index_wf_bucket_index [OF wf, of h]] index_wf_bucket_index [OF wf, of h]
    by (simp add: live_with_tag_def he_is_empty_def)
  then have "first_some (scan_entries ix (live_with_tag ix (tag_of h))) (chain ix (Main (bucket_index ix h))) = None"
    unfolding first_scan_None by blast
  then show "index_lookup ix h = None" by (simp add: index_lookup_def find_tag_eq [OF wf])
qed

lemma index_new_wf:
  assumes "sz \<le> 2 ^ 40"
  shows "index_wf (index_new sz)" and "index_lookup (index_new sz) h = None"
proof -
  let ?n = "next_power_of_two (max sz 2)"
  obtain k where k: "?n = 2 ^ k" by (rule next_power_of_two_pow)
  have le: "?n \<le> 2 ^ 40" using assms by (intro next_power_of_two_le) auto
  then have "k \<le> 40" using k by (metis one_less_numeral_iff power_le_imp_le_exp semiring_norm(76))
  have "max (?n * 2) 1024 \<le> 2 ^ 42" using le by simp
  then have sz: "length (overflow (index_new sz)) < 2 ^ 48" by (simp add: index_new_def Let_def)
  have z: "bucket_at (index_new sz) b = bucket_new" if "valid_ref (index_new sz) b" for b
    using that by (cases b) (auto simp: index_new_def Let_def)
  show "index_wf (index_new sz)" and "index_lookup (index_new sz) h = None"
    using zeroed_index_wf [of k "index_new sz", OF _ _ _ z _ sz] \<open>k \<le> 40\<close> k
    by (simp_all add: index_new_def Let_def)
qed

lemma map_zero_bucket: "length b = 8 \<Longrightarrow> map (\<lambda>_. 0) b = bucket_new"
  by (simp add: map_replicate_const bucket_new_def)

lemma index_clear_wf:
  assumes wf: "index_wf ix"
  shows "index_wf (index_clear ix)" and "index_lookup (index_clear ix) h = None"
    and "overflow_next (index_clear ix) \<le> length (overflow ix) + 1"
proof -
  obtain k where k: "k < 64" "length (buckets ix) = 2 ^ k" "ix_mask ix = of_nat (2 ^ k - 1)"
    using wf by (auto simp: index_wf_def)
  have lw: "links_wf ix" by (rule index_wf_links [OF wf])
  have z: "bucket_at (index_clear ix) b = bucket_new" if "valid_ref (index_clear ix) b" for b
    using that links_wfD(1) [OF lw, of b] by (cases b) (auto simp: index_clear_def map_zero_bucket)
  have "length (overflow ix) < 2 ^ 48" using lw by (simp add: links_wf_def)
  then show "index_wf (index_clear ix)" and "index_lookup (index_clear ix) h = None"
    and "overflow_next (index_clear ix) \<le> length (overflow ix) + 1"
    using zeroed_index_wf [of k "index_clear ix", OF _ _ _ z] k by (simp_all add: index_clear_def)
qed

lemma chain_triples_eq:
  assumes wf: "links_wf ix" and v: "valid_ref ix b"
  shows "chain_triples ix bi b = Some (concat (map (bucket_triples ix bi) (chain ix b)))"
  using wf v
proof (induction rule: chain_induct)
  case (link b)
  then show ?case
    using chain_unfold [OF wf link.hyps] links_wfD(6) [OF wf link.hyps]
    by (subst chain_triples.simps) (auto simp: Let_def)
qed

lemma all_triples_eq:
  assumes "links_wf ix" and "\<forall>bi \<in> set bis. bi < length (buckets ix)"
  shows "all_triples ix bis =
    Some (concat (map (\<lambda>bi. concat (map (bucket_triples ix bi) (chain ix (Main bi)))) bis))"
  using assms(2) by (induction bis) (simp_all add: chain_triples_eq [OF assms(1)])

lemma for_each_entry_iff:
  assumes wf: "index_wf ix"
  obtains ts where "for_each_entry ix = Some ts"
    and "\<And>h a. (bucket_index ix h, tag_of h, a) \<in> set ts \<longleftrightarrow> index_lookup ix h = Some a"
proof
  let ?ts = "concat (map (\<lambda>bi. concat (map (bucket_triples ix bi) (chain ix (Main bi)))) [0..<length (buckets ix)])"
  have lw: "links_wf ix" by (rule index_wf_links [OF wf])
  show "for_each_entry ix = Some ?ts"
    unfolding for_each_entry_def by (rule all_triples_eq [OF lw]) auto
  fix h a
  let ?bi = "bucket_index ix h"
  have bi: "?bi < length (buckets ix)" by (rule index_wf_bucket_index [OF wf])
  have "(?bi, tag_of h, a) \<in> set ?ts \<longleftrightarrow>
      (\<exists>b \<in> set (chain ix (Main ?bi)). (?bi, tag_of h, a) \<in> set (bucket_triples ix ?bi b))"
  proof -
    have "bi = ?bi" if "(?bi, t, x) \<in> set (bucket_triples ix bi b)" for t x bi b
      using that by (auto simp: bucket_triples_def)
    then show ?thesis using bi by fastforce
  qed
  also have "\<dots> \<longleftrightarrow> (\<exists>b \<in> set (chain ix (Main ?bi)). \<exists>i < 7.
       live_with_tag ix (tag_of h) b i \<and> he_address (entry_at ix b i) = a)"
    by (intro bex_cong refl)
       (auto simp: bucket_triples_def live_with_tag_def Let_def ENTRIES_PER_BUCKET_def image_iff)
  finally show "(?bi, tag_of h, a) \<in> set ?ts \<longleftrightarrow> index_lookup ix h = Some a"
    unfolding index_lookup_iff [OF wf] .
qed

subsection \<open>The index as a tag map\<close>

text \<open>
  What the store relies on: a creation returns a slot that owns the tag, a publish through an
  owned slot changes the lookup of that tag only.
\<close>

locale tag_index =
  fixes inv :: "'i \<Rightarrow> bool" and room :: "'i \<Rightarrow> bool" and lookup :: "'i \<Rightarrow> 'h \<Rightarrow> 'a option"
    and same :: "'i \<Rightarrow> 'h \<Rightarrow> 'h \<Rightarrow> bool" and owns :: "'i \<Rightarrow> 'h \<Rightarrow> 's \<Rightarrow> bool"
    and create :: "'i \<Rightarrow> 'h \<Rightarrow> ('s \<times> 'i) option" and publish :: "'i \<Rightarrow> 's \<Rightarrow> 'a \<Rightarrow> 'i"
    and fresh :: 'a and ok :: "'a \<Rightarrow> bool"
  assumes create: "inv ix \<Longrightarrow> room ix \<Longrightarrow> \<exists>s ix'. create ix h = Some (s, ix') \<and> inv ix' \<and> owns ix' h s
        \<and> same ix' = same ix
        \<and> (\<forall>h'. lookup ix' h' = (if same ix h h' \<and> lookup ix h = None then Some fresh else lookup ix h'))"
    and publish: "inv ix \<Longrightarrow> owns ix h s \<Longrightarrow> ok a \<Longrightarrow> inv (publish ix s a) \<and> owns (publish ix s a) h s
        \<and> same (publish ix s a) = same ix
        \<and> (\<forall>h'. lookup (publish ix s a) h' = (if same ix h h' then Some a else lookup ix h'))"
begin

lemma create_publish:
  assumes "inv ix" and "room ix" and "ok a"
  shows "\<exists>s ix1. create ix h = Some (s, ix1) \<and> inv (publish ix1 s a) \<and> owns (publish ix1 s a) h s \<and>
    (\<forall>h'. lookup (publish ix1 s a) h' = (if same ix h h' then Some a else lookup ix h'))"
proof -
  from create [OF assms(1,2), of h] obtain s ix1 where c: "create ix h = Some (s, ix1)" "inv ix1" "owns ix1 h s"
    "same ix1 = same ix"
    "\<forall>h'. lookup ix1 h' = (if same ix h h' \<and> lookup ix h = None then Some fresh else lookup ix h')" by blast
  from publish [OF c(2,3) assms(3)] c show ?thesis by (intro exI [of _ s] exI [of _ ix1]) auto
qed

end

definition index_publish :: "hash_index \<Rightarrow> slot_ref \<Rightarrow> u64 \<Rightarrow> hash_index" where
  \<comment> \<open>the index after the compare-and-swap of a slot that nobody else changed\<close>
  "index_publish ix s a = snd (try_cas ix s (slot_load ix s) a)"

interpretation tix: tag_index index_wf "\<lambda>ix. overflow_next ix \<le> length (overflow ix)" index_lookup same_entry
  "\<lambda>ix h s. find_tag ix h = Some (Some s)" find_or_create_tag index_publish TEMP_INVALID_ADDRESS
  "\<lambda>a. a \<noteq> 0 \<and> take_bit 48 a = a"
proof unfold_locales
  fix ix h assume "index_wf ix" "overflow_next ix \<le> length (overflow ix)"
  from find_or_create_tag_created [OF this, of h] obtain s ix' where
    "find_or_create_tag ix h = Some (s, ix')" "tag_created ix h s ix'" by blast
  then show "\<exists>s ix'. find_or_create_tag ix h = Some (s, ix') \<and> index_wf ix' \<and> find_tag ix' h = Some (Some s)
        \<and> same_entry ix' = same_entry ix
        \<and> (\<forall>h'. index_lookup ix' h' = (if same_entry ix h h' \<and> index_lookup ix h = None
            then Some TEMP_INVALID_ADDRESS else index_lookup ix h'))"
    by (intro exI [of _ s] exI [of _ ix']) (auto simp: tag_created_def same_entry_def fun_eq_iff)
next
  fix ix h s and a :: u64 assume wf: "index_wf ix" and f: "find_tag ix h = Some (Some s)" and a: "a \<noteq> 0 \<and> take_bit 48 a = a"
  have tg: "sr_tag s = tag_of h" by (rule find_tagD [OF wf f])
  have p: "index_publish ix s a = slot_store ix s (he_make (tag_of h) a False)"
    by (simp add: index_publish_def try_cas_def tg)
  have ad: "he_address (he_make (tag_of h) a False) = a" using a by (simp add: entry_simps)
  have "take_bit 48 a \<noteq> 0" using a by simp
  note w = find_tag_store [OF wf f he_make_wf [OF this]]
  show "index_wf (index_publish ix s a) \<and> find_tag (index_publish ix s a) h = Some (Some s)
        \<and> same_entry (index_publish ix s a) = same_entry ix
        \<and> (\<forall>h'. index_lookup (index_publish ix s a) h' = (if same_entry ix h h' then Some a else index_lookup ix h'))"
    unfolding p using w(1,2) w(3) [unfolded ad] w(5) by (simp add: same_entry_def [abs_def])
qed

subsection \<open>Properties\<close>

text \<open>On a well-formed index with one overflow bucket left, \<open>find_or_create_tag\<close> returns;
  \<open>find_tag\<close> then finds the slot it returned. An entry that existed is returned with the
  table unchanged; otherwise the tag gets a new entry that points nowhere yet. The lookup of every
  other (bucket, tag), every latch and the invariant of at most one entry per tag are kept, whether
  or not the chain had to grow.\<close>

theorem find_or_create_tag_spec:
  assumes "index_wf ix" and "overflow_next ix \<le> length (overflow ix)"
  shows "\<exists>s ix'. find_or_create_tag ix h = Some (s, ix')
    \<and> index_wf ix' \<and> find_tag ix' h = Some (Some s)
    \<and> (case index_lookup ix h of Some a \<Rightarrow> ix' = ix | None \<Rightarrow> index_lookup ix' h = Some TEMP_INVALID_ADDRESS)
    \<and> (\<forall>h'. \<not> same_entry ix h h' \<longrightarrow> index_lookup ix' h' = index_lookup ix h')
    \<and> (\<forall>b. latch_bits ix' b = latch_bits ix b)"
proof -
  from find_or_create_tag_created [OF assms, of h] obtain s ix' where
    "find_or_create_tag ix h = Some (s, ix')" "tag_created ix h s ix'" by blast
  then show ?thesis
    by (intro exI [of _ s] exI [of _ ix']) (auto simp: tag_created_def same_entry_def split: option.splits)
qed

theorem find_or_create_tag_spec_witness:
  "\<exists>s ix'. find_or_create_tag (index_new 2) 5 = Some (s, ix') \<and> find_tag ix' 5 = Some (Some s)
     \<and> index_lookup ix' 5 = Some TEMP_INVALID_ADDRESS"
proof -
  have "overflow_next (index_new 2) \<le> length (overflow (index_new 2))" by (simp add: index_new_def Let_def)
  with find_or_create_tag_spec [OF index_new_wf(1), of 2 5] index_new_wf(2) [of 2 5] show ?thesis by auto
qed

text \<open>C25: Creating the slot of a hash and publishing an address through it sets the address of
  exactly the hashes with that bucket and tag: the index is a map from (bucket, tag) to addresses.\<close>

theorem index_create_publish:
  assumes "index_wf ix" and "overflow_next ix \<le> length (overflow ix)" and "a \<noteq> 0" and "take_bit 48 a = a"
  shows "\<exists>s ix1. find_or_create_tag ix h = Some (s, ix1)
    \<and> fst (try_cas ix1 s (slot_load ix1 s) a)
    \<and> index_wf (index_publish ix1 s a)
    \<and> (\<forall>h'. index_lookup (index_publish ix1 s a) h' =
          (if same_entry ix h h' then Some a else index_lookup ix h'))"
  using tix.create_publish [OF assms(1,2), of a h] assms(3,4) by (auto simp: try_cas_def)

theorem index_create_publish_witness:
  "\<exists>s ix1. find_or_create_tag (index_new 2) 9 = Some (s, ix1) \<and> index_lookup (index_publish ix1 s 64) 9 = Some 64"
proof -
  have "overflow_next (index_new 2) \<le> length (overflow (index_new 2))" by (simp add: index_new_def Let_def)
  with index_create_publish [OF index_new_wf(1), of 2 64 9] show ?thesis by (auto simp: same_entry_def)
qed

text \<open>The visit of all entries (checkpoints, rehashing) returns on a well-formed index and
  reports for every hash exactly the address its lookup gives; a cleared or a new index is
  well formed and empty.\<close>

theorem index_visit_and_clear:
  assumes "index_wf ix"
  shows "(\<exists>ts. for_each_entry ix = Some ts \<and>
      (\<forall>h a. (bucket_index ix h, tag_of h, a) \<in> set ts \<longleftrightarrow> index_lookup ix h = Some a))
    \<and> index_wf (index_clear ix) \<and> (\<forall>h. index_lookup (index_clear ix) h = None)"
  using for_each_entry_iff [OF assms] index_clear_wf [OF assms] by metis

theorem index_visit_and_clear_witness: "index_wf (index_clear (index_new 4)) \<and> for_each_entry (index_new 4) \<noteq> None"
  using index_visit_and_clear [OF index_new_wf(1), of 4] by auto

end
