(* ===== verification/IndexLatch.thy ===== *)
theory IndexLatch
  imports HashIndex
begin

text \<open>
  The bucket latch of \<^verbatim>\<open>index.rs\<close>: the upper 16 bits of entry 7 of a main bucket hold a
  count of readers and an exclusive bit, beside the overflow pointer in the low 48 bits. The
  operations first as one thread runs them with no other in between (then a load followed by a
  compare-and-swap of the loaded word succeeds; the spins end in failure when the word stays
  blocked), then as steps of any number of threads, with the mutual exclusion of the latch as
  an invariant of the reachable states.
\<close>

definition SHARED_ONE :: u64 where "SHARED_ONE = push_bit 48 1"
definition SHARED_MASK :: u64 where "SHARED_MASK = push_bit 48 (push_bit 15 1 - 1)"
definition EXCLUSIVE_BIT :: u64 where "EXCLUSIVE_BIT = push_bit 63 1"
definition MAX_LOCK_SPINS :: nat where "MAX_LOCK_SPINS = 10"
definition MAX_READER_DRAIN_SPINS :: nat where "MAX_READER_DRAIN_SPINS = 100"

definition latch_word :: "hash_index \<Rightarrow> nat \<Rightarrow> u64" where
  "latch_word ix bucket = entry_at ix (Main bucket) OVERFLOW_ENTRY"

definition set_latch_word :: "hash_index \<Rightarrow> nat \<Rightarrow> u64 \<Rightarrow> hash_index" where
  "set_latch_word ix bucket w = set_entry ix (Main bucket) OVERFLOW_ENTRY w"

definition shared_blocked :: "u64 \<Rightarrow> bool" where
  "shared_blocked cur \<longleftrightarrow> cur AND EXCLUSIVE_BIT \<noteq> 0 \<or> cur AND SHARED_MASK = SHARED_MASK"

fun spin_shared :: "nat \<Rightarrow> u64 \<Rightarrow> bool \<times> u64" where
  "spin_shared 0 cur = (False, cur)"
| "spin_shared (Suc n) cur =
     (if shared_blocked cur then spin_shared n cur else (True, cur + SHARED_ONE))"

definition try_lock_shared :: "hash_index \<Rightarrow> nat \<Rightarrow> bool \<times> hash_index" where
  "try_lock_shared ix bucket =
     (let (ok, w) = spin_shared MAX_LOCK_SPINS (latch_word ix bucket)
      in (ok, set_latch_word ix bucket w))"

definition unlock_shared :: "hash_index \<Rightarrow> nat \<Rightarrow> hash_index" where
  "unlock_shared ix bucket = set_latch_word ix bucket (latch_word ix bucket - SHARED_ONE)"

fun spin_exclusive :: "nat \<Rightarrow> u64 \<Rightarrow> bool \<times> u64" where
  "spin_exclusive 0 cur = (False, cur)"
| "spin_exclusive (Suc n) cur =
     (if cur AND EXCLUSIVE_BIT \<noteq> 0 then spin_exclusive n cur else (True, cur OR EXCLUSIVE_BIT))"

fun drain_readers :: "nat \<Rightarrow> u64 \<Rightarrow> bool" where
  "drain_readers 0 cur = False"
| "drain_readers (Suc n) cur = (if cur AND SHARED_MASK = 0 then True else drain_readers n cur)"

definition try_lock_exclusive :: "hash_index \<Rightarrow> nat \<Rightarrow> bool \<times> hash_index" where
  "try_lock_exclusive ix bucket =
     (let (acquired_bit, w) = spin_exclusive MAX_LOCK_SPINS (latch_word ix bucket) in
      if \<not> acquired_bit then (False, set_latch_word ix bucket w)
      else if drain_readers MAX_READER_DRAIN_SPINS w then (True, set_latch_word ix bucket w)
      else (False, set_latch_word ix bucket (w AND NOT EXCLUSIVE_BIT)))"

definition unlock_exclusive :: "hash_index \<Rightarrow> nat \<Rightarrow> hash_index" where
  "unlock_exclusive ix bucket = set_latch_word ix bucket (latch_word ix bucket AND NOT EXCLUSIVE_BIT)"

definition is_locked_exclusive :: "hash_index \<Rightarrow> nat \<Rightarrow> bool" where
  "is_locked_exclusive ix bucket \<longleftrightarrow> latch_word ix bucket AND EXCLUSIVE_BIT \<noteq> 0"

subsection \<open>The fields of the word\<close>

definition readers :: "u64 \<Rightarrow> nat" where
  "readers w = unat w div 2 ^ 48 mod 2 ^ 15"

definition writer :: "u64 \<Rightarrow> bool" where
  "writer w \<longleftrightarrow> 2 ^ 63 \<le> unat w"

definition link :: "u64 \<Rightarrow> nat" where
  "link w = unat w mod 2 ^ 48"

lemma word_fields: "unat w = link w + readers w * 2 ^ 48 + (if writer w then 2 ^ 63 else 0)"
proof -
  have "unat w < 2 ^ 64" using unsigned_less [of w] by simp
  then have q: "unat w div 2 ^ 48 < 2 ^ 16" and wr: "writer w \<longleftrightarrow> 2 ^ 15 \<le> unat w div 2 ^ 48"
    by (auto simp: writer_def)
  have "readers w = unat w div 2 ^ 48 - (if writer w then 2 ^ 15 else 0)"
    unfolding readers_def wr using q by (simp add: mod_if)
  moreover have "unat w = link w + unat w div 2 ^ 48 * 2 ^ 48" by (simp add: link_def)
  ultimately show ?thesis using wr by (auto simp: algebra_simps)
qed

lemma fields_bound: "link w < 2 ^ 48" "readers w < 2 ^ 15"
  by (simp_all add: link_def readers_def)

lemma fields_unique:
  assumes "l < 2 ^ 48" and "r < 2 ^ 15" and "unat w = l + r * 2 ^ 48 + (if x then 2 ^ 63 else 0)"
  shows "link w = l" and "readers w = r" and "writer w = x"
proof -
  have u: "unat w = l + (r + (if x then 2 ^ 15 else 0)) * 2 ^ 48" using assms(3) by simp
  show "link w = l" unfolding link_def u mod_mult_self1 using assms(1) by simp
  have "unat w div 2 ^ 48 = (r + (if x then 2 ^ 15 else 0)) + l div 2 ^ 48"
    unfolding u by (rule div_mult_self1) simp
  then have "unat w div 2 ^ 48 = r + (if x then 2 ^ 15 else 0)" using assms(1) by simp
  then show "readers w = r" unfolding readers_def using assms(2) by (cases x) (simp_all add: mod_if)
  show "writer w = x" using assms by (cases x) (auto simp: writer_def)
qed

lemma writer_bit: "writer w \<longleftrightarrow> bit w 63"
proof -
  have "unat w < 2 ^ 64" using unsigned_less [of w] by simp
  then have "unat w div 2 ^ 63 = (if writer w then 1 else 0)"
    unfolding writer_def by (auto simp: div_eq_0_iff)
  then have "bit (unat w) 63 \<longleftrightarrow> writer w" by (simp add: bit_iff_odd)
  then show ?thesis by (simp add: bit_unsigned_iff)
qed

lemma exclusive_bit: "w AND EXCLUSIVE_BIT \<noteq> 0 \<longleftrightarrow> writer w"
  unfolding EXCLUSIVE_BIT_def and_single_bit writer_bit ..

lemma unat_readers: "unat (take_bit 15 (drop_bit 48 w)) = readers w"
proof -
  have "unat w < 2 ^ 64" using unsigned_less [of w, where 'a = nat] by simp
  then have "unat w mod 2 ^ 64 = unat w" by simp
  then show ?thesis
    unfolding unsigned_take_bit_eq unsigned_drop_bit_eq readers_def
    by (simp add: take_bit_eq_mod drop_bit_eq_div)
qed

lemma SHARED_MASK_mask: "SHARED_MASK = push_bit 48 (mask 15)"
  by (simp add: SHARED_MASK_def mask_eq_exp_minus_1)

lemma shared_mask: "w AND SHARED_MASK = push_bit 48 (take_bit 15 (drop_bit 48 w))"
  unfolding SHARED_MASK_mask
  by (rule bit_word_eqI) (auto simp: bit_and_iff bit_push_bit_iff bit_mask_iff bit_take_bit_iff bit_drop_bit_eq)

lemma push_take_inj: "push_bit 48 (take_bit 15 a) = push_bit 48 (take_bit 15 b) \<Longrightarrow> take_bit 15 a = take_bit 15 (b :: u64)"
proof (rule bit_word_eqI)
  fix n assume eq: "push_bit 48 (take_bit 15 a) = push_bit 48 (take_bit 15 b)"
  have "bit (push_bit 48 (take_bit 15 a)) (n + 48) = bit (push_bit 48 (take_bit 15 b)) (n + 48)" by (simp only: eq)
  then show "bit (take_bit 15 a) n = bit (take_bit 15 b) n"
    by (auto simp: bit_push_bit_iff bit_take_bit_iff)
qed

lemma shared_none: "w AND SHARED_MASK = 0 \<longleftrightarrow> readers w = 0"
proof
  assume "w AND SHARED_MASK = 0"
  then have "take_bit 15 (drop_bit 48 w) = take_bit 15 0"
    by (intro push_take_inj) (simp add: shared_mask)
  then show "readers w = 0" using unat_readers [of w] by simp
next
  assume "readers w = 0"
  then have "take_bit 15 (drop_bit 48 w) = 0" using unat_readers [of w] by (metis unsigned_0 word_unat_eq_iff)
  then show "w AND SHARED_MASK = 0" by (simp add: shared_mask)
qed

lemma shared_full: "w AND SHARED_MASK = SHARED_MASK \<longleftrightarrow> readers w = 2 ^ 15 - 1"
proof -
  have m: "SHARED_MASK = push_bit 48 (take_bit 15 (mask 15))" by (simp add: SHARED_MASK_mask)
  have u: "unat (take_bit 15 (mask 15) :: u64) = 2 ^ 15 - 1" by (simp add: mask_eq_exp_minus_1)
  show ?thesis
  proof
    assume "w AND SHARED_MASK = SHARED_MASK"
    then have "push_bit 48 (take_bit 15 (drop_bit 48 w)) = push_bit 48 (take_bit 15 (mask 15))"
      using shared_mask [of w] m by simp
    then have "take_bit 15 (drop_bit 48 w) = take_bit 15 (mask 15)" by (rule push_take_inj)
    then show "readers w = 2 ^ 15 - 1" using unat_readers [of w] u by metis
  next
    assume "readers w = 2 ^ 15 - 1"
    then have "take_bit 15 (drop_bit 48 w) = take_bit 15 (mask 15)"
      using unat_readers [of w] u by (metis word_unat_eq_iff)
    then show "w AND SHARED_MASK = SHARED_MASK" using shared_mask [of w] m by simp
  qed
qed

text \<open>Each update of the word, as an update of its fields.\<close>

lemma shared_blocked_iff: "shared_blocked w \<longleftrightarrow> writer w \<or> readers w = 2 ^ 15 - 1"
  by (simp add: shared_blocked_def exclusive_bit shared_full)

lemma unat_SHARED_ONE: "unat SHARED_ONE = 2 ^ 48"
  by (simp add: SHARED_ONE_def)

lemma add_shared:
  assumes "readers w < 2 ^ 15 - 1"
  shows "link (w + SHARED_ONE) = link w" and "readers (w + SHARED_ONE) = readers w + 1"
    and "writer (w + SHARED_ONE) = writer w"
proof -
  have "unat w + unat SHARED_ONE = link w + (readers w + 1) * 2 ^ 48 + (if writer w then 2 ^ 63 else 0)"
    unfolding unat_SHARED_ONE by (subst word_fields) simp
  moreover from this have "unat w + unat SHARED_ONE < 2 ^ 64"
    using assms fields_bound [of w] by (auto split: if_splits)
  ultimately have "unat (w + SHARED_ONE) = link w + (readers w + 1) * 2 ^ 48 + (if writer w then 2 ^ 63 else 0)"
    by (simp add: unat_word_ariths)
  from fields_unique [OF _ _ this] assms fields_bound [of w]
  show "link (w + SHARED_ONE) = link w" and "readers (w + SHARED_ONE) = readers w + 1"
    and "writer (w + SHARED_ONE) = writer w" by auto
qed

lemma sub_shared:
  assumes "0 < readers w"
  shows "link (w - SHARED_ONE) = link w" and "readers (w - SHARED_ONE) = readers w - 1"
    and "writer (w - SHARED_ONE) = writer w"
proof -
  have "unat w - unat SHARED_ONE = link w + (readers w - 1) * 2 ^ 48 + (if writer w then 2 ^ 63 else 0)"
    unfolding unat_SHARED_ONE using assms by (subst word_fields) (simp add: diff_mult_distrib)
  moreover have "unat SHARED_ONE \<le> unat w"
    unfolding unat_SHARED_ONE using assms by (subst word_fields) simp
  then have "unat (w - SHARED_ONE) = unat w - unat SHARED_ONE" by (intro unat_sub) (simp add: word_le_nat_alt)
  ultimately have "unat (w - SHARED_ONE) = link w + (readers w - 1) * 2 ^ 48 + (if writer w then 2 ^ 63 else 0)"
    by simp
  from fields_unique [OF _ _ this] assms fields_bound [of w]
  show "link (w - SHARED_ONE) = link w" and "readers (w - SHARED_ONE) = readers w - 1"
    and "writer (w - SHARED_ONE) = writer w" by auto
qed

lemma fields_by_bits:
  assumes "\<And>n. n < 63 \<Longrightarrow> bit v n = bit w n"
  shows "link v = link w" and "readers v = readers w"
proof -
  have "take_bit 63 v = take_bit 63 w"
    by (rule bit_word_eqI) (use assms in \<open>auto simp: bit_take_bit_iff\<close>)
  then have "unat (take_bit 63 v) = unat (take_bit 63 w)" by simp
  then have m: "unat v mod 2 ^ 63 = unat w mod 2 ^ 63"
    unfolding unsigned_take_bit_eq by (simp only: take_bit_eq_mod)
  have "link u = (unat u mod 2 ^ 63) mod 2 ^ 48" for u
    unfolding link_def by (rule mod_mod_cancel [symmetric]) simp
  then show "link v = link w" by (simp only: m)
  have "readers u = (unat u mod 2 ^ 63) div 2 ^ 48" for u
  proof -
    have "unat u mod (2 ^ 48 * 2 ^ 15) div 2 ^ 48 = readers u"
      unfolding readers_def mod_mult2_eq by simp
    then show ?thesis by simp
  qed
  then show "readers v = readers w" by (simp only: m)
qed

lemma bit_EXCLUSIVE: "bit EXCLUSIVE_BIT n \<longleftrightarrow> n = 63"
  unfolding EXCLUSIVE_BIT_def bit_single by auto

lemma or_exclusive:
  shows "link (w OR EXCLUSIVE_BIT) = link w" and "readers (w OR EXCLUSIVE_BIT) = readers w"
    and "writer (w OR EXCLUSIVE_BIT)"
  by (intro fields_by_bits; simp add: bit_or_iff bit_EXCLUSIVE)+
     (simp add: writer_bit bit_or_iff bit_EXCLUSIVE)

lemma and_not_exclusive:
  shows "link (w AND NOT EXCLUSIVE_BIT) = link w" and "readers (w AND NOT EXCLUSIVE_BIT) = readers w"
    and "\<not> writer (w AND NOT EXCLUSIVE_BIT)"
  by (intro fields_by_bits; simp add: bit_and_iff bit_not_iff bit_EXCLUSIVE)+
     (simp add: writer_bit bit_and_iff bit_not_iff bit_EXCLUSIVE)

lemma fields_eqI: "link v = link w \<Longrightarrow> readers v = readers w \<Longrightarrow> writer v = writer w \<Longrightarrow> v = w"
  using word_fields [of v] word_fields [of w] by (simp add: word_unat_eq_iff)

subsection \<open>One thread\<close>

lemma spin_shared_eq:
  "0 < n \<Longrightarrow> spin_shared n w = (if shared_blocked w then (False, w) else (True, w + SHARED_ONE))"
proof (induction n)
  case (Suc n)
  then show ?case by (cases n) auto
qed simp

lemma spin_exclusive_eq:
  "0 < n \<Longrightarrow> spin_exclusive n w = (if writer w then (False, w) else (True, w OR EXCLUSIVE_BIT))"
proof (induction n)
  case (Suc n)
  then show ?case by (cases n) (auto simp: exclusive_bit)
qed simp

lemma drain_readers_eq: "0 < n \<Longrightarrow> drain_readers n w \<longleftrightarrow> readers w = 0"
proof (induction n)
  case (Suc n)
  then show ?case by (cases n) (auto simp: shared_none)
qed simp

lemma set_latch_read:
  assumes "links_wf ix" and "b < length (buckets ix)"
  shows "latch_word (set_latch_word ix b w) b = w"
    and "set_latch_word ix b (latch_word ix b) = ix"
    and "set_latch_word (set_latch_word ix b w) b w' = set_latch_word ix b w'"
proof -
  have "7 < length (bucket_at ix (Main b))" using links_wfD(1) [OF assms(1), of "Main b"] assms(2) by simp
  then show "latch_word (set_latch_word ix b w) b = w"
    using assms(2) by (simp add: latch_word_def set_latch_word_def entry_at_set_entry OVERFLOW_ENTRY_def)
  show "set_latch_word ix b (latch_word ix b) = ix"
    by (simp add: latch_word_def set_latch_word_def set_entry_def entry_at_def)
  show "set_latch_word (set_latch_word ix b w) b w' = set_latch_word ix b w'"
    by (simp add: set_latch_word_def set_entry_twice)
qed

lemma try_lock_shared_eq:
  assumes "links_wf ix" and "b < length (buckets ix)"
  shows "try_lock_shared ix b =
    (if writer (latch_word ix b) \<or> readers (latch_word ix b) = 2 ^ 15 - 1 then (False, ix)
     else (True, set_latch_word ix b (latch_word ix b + SHARED_ONE)))"
  using set_latch_read [OF assms]
  by (simp add: try_lock_shared_def spin_shared_eq MAX_LOCK_SPINS_def shared_blocked_iff Let_def)

lemma try_lock_exclusive_eq:
  assumes "links_wf ix" and "b < length (buckets ix)"
  shows "try_lock_exclusive ix b =
    (if writer (latch_word ix b) \<or> readers (latch_word ix b) \<noteq> 0 then (False, ix)
     else (True, set_latch_word ix b (latch_word ix b OR EXCLUSIVE_BIT)))"
proof -
  have "(w OR EXCLUSIVE_BIT) AND NOT EXCLUSIVE_BIT = w" if "\<not> writer w" for w
    by (rule fields_eqI) (use that in \<open>simp_all add: and_not_exclusive or_exclusive\<close>)
  then show ?thesis
    using set_latch_read [OF assms]
    by (simp add: try_lock_exclusive_def spin_exclusive_eq drain_readers_eq MAX_LOCK_SPINS_def
        MAX_READER_DRAIN_SPINS_def Let_def or_exclusive)
qed

subsection \<open>Any number of threads\<close>

text \<open>
  Each step is one atomic access to the word. The loaded word is compared by the swap in full,
  so a successful load and swap count as one step; a failed swap changes nothing. A thread is
  idle, a reader, draining (it set the exclusive bit and waits for the readers) or the writer.
  \<open>link\<close> is the swap in \<open>find_tag_or_free\<close> that hangs an overflow bucket on the chain.
\<close>

datatype latch_phase = Idle | Reading | Draining | Writing

record latch_state =
  l_word :: u64
  l_phase :: "nat \<Rightarrow> latch_phase"

inductive latch_step :: "latch_state \<Rightarrow> latch_state \<Rightarrow> bool" where
  lock_shared: "l_phase s t = Idle \<Longrightarrow> \<not> shared_blocked (l_word s) \<Longrightarrow>
    latch_step s (s\<lparr>l_word := l_word s + SHARED_ONE, l_phase := (l_phase s)(t := Reading)\<rparr>)"
| unlock_shared: "l_phase s t = Reading \<Longrightarrow>
    latch_step s (s\<lparr>l_word := l_word s - SHARED_ONE, l_phase := (l_phase s)(t := Idle)\<rparr>)"
| set_exclusive: "l_phase s t = Idle \<Longrightarrow> l_word s AND EXCLUSIVE_BIT = 0 \<Longrightarrow>
    latch_step s (s\<lparr>l_word := l_word s OR EXCLUSIVE_BIT, l_phase := (l_phase s)(t := Draining)\<rparr>)"
| drained: "l_phase s t = Draining \<Longrightarrow> l_word s AND SHARED_MASK = 0 \<Longrightarrow>
    latch_step s (s\<lparr>l_phase := (l_phase s)(t := Writing)\<rparr>)"
| give_up: "l_phase s t = Draining \<Longrightarrow>
    latch_step s (s\<lparr>l_word := l_word s AND NOT EXCLUSIVE_BIT, l_phase := (l_phase s)(t := Idle)\<rparr>)"
| unlock_exclusive: "l_phase s t = Writing \<Longrightarrow>
    latch_step s (s\<lparr>l_word := l_word s AND NOT EXCLUSIVE_BIT, l_phase := (l_phase s)(t := Idle)\<rparr>)"
| link_overflow: "l_word s AND ADDRESS_MASK = 0 \<Longrightarrow> a AND NOT ADDRESS_MASK = 0 \<Longrightarrow>
    latch_step s (s\<lparr>l_word := (l_word s AND NOT ADDRESS_MASK) OR a\<rparr>)"

definition latch_init :: "u64 \<Rightarrow> latch_state" where
  "latch_init a = \<lparr>l_word = a AND ADDRESS_MASK, l_phase = \<lambda>_. Idle\<rparr>"

definition latch_reachable :: "u64 \<Rightarrow> latch_state \<Rightarrow> bool" where
  "latch_reachable a = latch_step\<^sup>*\<^sup>* (latch_init a)"

definition reading :: "latch_state \<Rightarrow> nat set" where
  "reading s = {t. l_phase s t = Reading}"

definition holding_bit :: "latch_state \<Rightarrow> nat set" where
  "holding_bit s = {t. l_phase s t = Draining \<or> l_phase s t = Writing}"

text \<open>
  The count is the number of readers; the bit is set exactly when one thread drains or writes;
  there is no reader beside a writer.
\<close>

definition latch_inv :: "latch_state \<Rightarrow> bool" where
  "latch_inv s \<longleftrightarrow>
     finite (reading s) \<and> readers (l_word s) = card (reading s)
     \<and> (\<not> writer (l_word s) \<longrightarrow> holding_bit s = {})
     \<and> (writer (l_word s) \<longrightarrow> (\<exists>t. holding_bit s = {t}))
     \<and> (\<forall>t. l_phase s t = Writing \<longrightarrow> reading s = {})"

lemma phase_sets:
  shows "reading (s\<lparr>l_word := w, l_phase := (l_phase s)(t := p)\<rparr>) =
      (if p = Reading then insert t (reading s) else reading s - {t})"
    and "holding_bit (s\<lparr>l_word := w, l_phase := (l_phase s)(t := p)\<rparr>) =
      (if p = Draining \<or> p = Writing then insert t (holding_bit s) else holding_bit s - {t})"
    and "reading (s\<lparr>l_phase := (l_phase s)(t := p)\<rparr>) =
      (if p = Reading then insert t (reading s) else reading s - {t})"
    and "holding_bit (s\<lparr>l_phase := (l_phase s)(t := p)\<rparr>) =
      (if p = Draining \<or> p = Writing then insert t (holding_bit s) else holding_bit s - {t})"
    and "reading (s\<lparr>l_word := w\<rparr>) = reading s" and "holding_bit (s\<lparr>l_word := w\<rparr>) = holding_bit s"
  by (auto simp: reading_def holding_bit_def)

lemma link_overflow_fields:
  assumes "a AND NOT ADDRESS_MASK = 0"
  shows "readers ((w AND NOT ADDRESS_MASK) OR a) = readers w" and "writer ((w AND NOT ADDRESS_MASK) OR a) = writer w"
proof -
  have a: "bit a n \<Longrightarrow> n < 48" for n
    using assms bit_imp_le_length [of a n] by (auto simp: bit_eq_iff bit_and_iff bit_not_iff bit_ADDRESS_MASK)
  have "take_bit 15 (drop_bit 48 ((w AND NOT ADDRESS_MASK) OR a)) = take_bit 15 (drop_bit 48 w)"
    by (rule bit_word_eqI)
       (use a in \<open>auto simp: bit_take_bit_iff bit_drop_bit_eq bit_or_iff bit_and_iff bit_not_iff bit_ADDRESS_MASK\<close>)
  then show "readers ((w AND NOT ADDRESS_MASK) OR a) = readers w" by (simp only: unat_readers [symmetric])
  show "writer ((w AND NOT ADDRESS_MASK) OR a) = writer w"
    using a [of 63] by (auto simp: writer_bit bit_or_iff bit_and_iff bit_not_iff bit_ADDRESS_MASK)
qed

lemma latch_inv_init: "latch_inv (latch_init a)"
proof -
  have "readers (a AND ADDRESS_MASK) = 0" and "\<not> writer (a AND ADDRESS_MASK)"
    using link_overflow_fields [of "a AND ADDRESS_MASK" 0]
    by (simp_all add: readers_def writer_def) (metis and.assoc and.right_idem bit.conj_cancel_right and_zero_eq)+
  then show ?thesis by (simp add: latch_inv_def latch_init_def reading_def holding_bit_def)
qed

lemma latch_inv_step:
  assumes "latch_step s s'" and inv: "latch_inv s"
  shows "latch_inv s'"
  using assms(1)
proof cases
  case (lock_shared t)
  have "readers (l_word s) < 2 ^ 15 - 1"
    using lock_shared(3) fields_bound(2) [of "l_word s"] by (simp add: shared_blocked_iff)
  moreover have "t \<notin> reading s" "t \<notin> holding_bit s" using lock_shared(2) by (auto simp: reading_def holding_bit_def)
  moreover have "holding_bit s = {}" using inv lock_shared(3) by (simp add: latch_inv_def shared_blocked_iff)
  ultimately show ?thesis
    using inv lock_shared by (auto simp: latch_inv_def phase_sets add_shared shared_blocked_iff holding_bit_def)
next
  case (unlock_shared t)
  have t: "t \<in> reading s" "t \<notin> holding_bit s" using unlock_shared(2) by (auto simp: reading_def holding_bit_def)
  then have "0 < readers (l_word s)" using inv by (auto simp: latch_inv_def card_gt_0_iff)
  then show ?thesis
    using inv t unlock_shared by (auto simp: latch_inv_def phase_sets sub_shared)
next
  case (set_exclusive t)
  have "\<not> writer (l_word s)" using set_exclusive(3) exclusive_bit by blast
  then have "holding_bit s = {}" "t \<notin> reading s" using inv set_exclusive(2) by (auto simp: latch_inv_def reading_def)
  then show ?thesis
    using inv set_exclusive
    by (auto simp: latch_inv_def phase_sets or_exclusive holding_bit_def)
next
  case (drained t)
  have "reading s = {}" using inv drained(3) by (simp add: latch_inv_def shared_none)
  moreover have "t \<in> holding_bit s" using drained(2) by (simp add: holding_bit_def)
  ultimately show ?thesis using inv drained by (auto simp: latch_inv_def phase_sets insert_absorb)
next
  case (give_up t)
  have t: "t \<in> holding_bit s" "t \<notin> reading s" using give_up(2) by (auto simp: holding_bit_def reading_def)
  then have "holding_bit s = {t}" using inv by (auto simp: latch_inv_def)
  then show ?thesis using inv give_up t by (auto simp: latch_inv_def phase_sets and_not_exclusive)
next
  case (unlock_exclusive t)
  have t: "t \<in> holding_bit s" "t \<notin> reading s" using unlock_exclusive(2) by (auto simp: holding_bit_def reading_def)
  then have "holding_bit s = {t}" using inv by (auto simp: latch_inv_def)
  then show ?thesis using inv unlock_exclusive t by (auto simp: latch_inv_def phase_sets and_not_exclusive)
next
  case (link_overflow a)
  then show ?thesis using inv by (auto simp: latch_inv_def phase_sets link_overflow_fields)
qed

lemma latch_reachable_inv: "latch_reachable a s \<Longrightarrow> latch_inv s"
  unfolding latch_reachable_def
  by (induction rule: rtranclp_induct) (auto intro: latch_inv_init latch_inv_step)

inductive_cases latch_stepE: "latch_step s s'"

subsection \<open>Properties\<close>

text \<open>C24: Under any interleaving of the latch operations, a writer excludes every other writer
  and every reader, and the shared count is exact, whatever the overflow pointer in the word.\<close>

theorem latch_mutual_exclusion:
  assumes "latch_reachable a s"
  shows "(\<forall>t u. l_phase s t = Writing \<longrightarrow> u \<noteq> t \<longrightarrow> l_phase s u = Idle)
    \<and> readers (l_word s) = card {t. l_phase s t = Reading}
    \<and> (writer (l_word s) \<longleftrightarrow> (\<exists>t. l_phase s t = Draining \<or> l_phase s t = Writing))"
proof -
  note inv = latch_reachable_inv [OF assms, unfolded latch_inv_def]
  have "l_phase s u = Idle" if t: "l_phase s t = Writing" and u: "u \<noteq> t" for t u
  proof -
    have "t \<in> holding_bit s" using t by (simp add: holding_bit_def)
    then have "holding_bit s = {t}" "reading s = {}" using inv t by auto
    then show ?thesis using u by (cases "l_phase s u") (auto simp: holding_bit_def reading_def)
  qed
  then show ?thesis using inv by (auto simp: holding_bit_def reading_def)
qed

theorem latch_mutual_exclusion_witness:
  "\<exists>s. latch_reachable 5 s \<and> l_phase s 0 = Writing \<and> l_phase s 1 = Idle \<and> writer (l_word s)"
proof -
  let ?s0 = "latch_init 5"
  let ?s1 = "?s0\<lparr>l_word := l_word ?s0 OR EXCLUSIVE_BIT, l_phase := (l_phase ?s0)(0 := Draining)\<rparr>"
  let ?s2 = "?s1\<lparr>l_phase := (l_phase ?s1)(0 := Writing)\<rparr>"
  have "latch_step ?s0 ?s1"
    by (rule latch_step.set_exclusive)
       (simp_all add: latch_init_def ADDRESS_MASK_def ADDRESS_BITS_def EXCLUSIVE_BIT_def)
  moreover have "latch_step ?s1 ?s2"
    by (rule latch_step.drained)
       (simp_all add: latch_init_def ADDRESS_MASK_def ADDRESS_BITS_def EXCLUSIVE_BIT_def SHARED_MASK_def)
  ultimately have r: "latch_reachable 5 ?s2"
    unfolding latch_reachable_def by (meson rtranclp.rtrancl_into_rtrancl rtranclp.rtrancl_refl)
  have w: "l_phase ?s2 0 = Writing" by simp
  note p = latch_mutual_exclusion [OF r]
  have "l_phase ?s2 1 = Idle" by (rule p [THEN conjunct1, rule_format, OF w]) simp
  moreover have "writer (l_word ?s2)" using p w by blast
  ultimately show ?thesis using r w by blast
qed

text \<open>With no other thread in between, taking a bucket latch succeeds exactly when no writer
  (for a reader: and no full count; for a writer: and no reader) holds it; releasing what was
  taken restores the table, the overflow pointer in the same word included.\<close>

theorem latch_roundtrip:
  assumes "links_wf ix" and "b < length (buckets ix)"
  shows "(case try_lock_shared ix b of (ok, ix') \<Rightarrow>
        ok = (\<not> is_locked_exclusive ix b \<and> readers (latch_word ix b) < 2 ^ 15 - 1)
        \<and> (if ok then unlock_shared ix' b = ix else ix' = ix))
    \<and> (case try_lock_exclusive ix b of (ok, ix') \<Rightarrow>
        ok = (\<not> is_locked_exclusive ix b \<and> readers (latch_word ix b) = 0)
        \<and> (if ok then unlock_exclusive ix' b = ix else ix' = ix))"
proof -
  note st = set_latch_read [OF assms]
  have x: "(w OR EXCLUSIVE_BIT) AND NOT EXCLUSIVE_BIT = w" if "\<not> writer w" for w
    by (rule fields_eqI) (use that in \<open>simp_all add: and_not_exclusive or_exclusive\<close>)
  have "readers (latch_word ix b) < 2 ^ 15" by (rule fields_bound)
  then show ?thesis
    by (auto simp: try_lock_shared_eq [OF assms] try_lock_exclusive_eq [OF assms] is_locked_exclusive_def
        exclusive_bit unlock_shared_def unlock_exclusive_def st x)
qed

theorem latch_roundtrip_witness:
  "fst (try_lock_shared (index_new 2) 1) \<and> unlock_shared (snd (try_lock_shared (index_new 2) 1)) 1 = index_new 2"
proof -
  have wf: "links_wf (index_new 2)" by (intro index_wf_links index_new_wf) simp
  have n: "next_power_of_two 2 = 2"
    by (simp add: next_power_of_two_def next_power_of_two_from.simps)
  have "1 < length (buckets (index_new 2))" by (simp add: index_new_def n)
  note p = latch_roundtrip [OF wf this]
  have "latch_word (index_new 2) 1 = 0"
    by (simp add: latch_word_def entry_at_def index_new_def n bucket_new_def OVERFLOW_ENTRY_def)
  then have "\<not> is_locked_exclusive (index_new 2) 1" "readers (latch_word (index_new 2) 1) < 2 ^ 15 - 1"
    by (simp_all add: is_locked_exclusive_def readers_def)
  with p show ?thesis by (auto split: prod.splits)
qed

text \<open>C26: \<open>clear\<close> (run by FLUSHALL) also zeroes the latch words. When a reader holds a bucket
  at that moment, its release wraps around and leaves the bucket locked: neither kind of lock
  can be taken on it any more.\<close>

theorem clear_under_reader_locks_bucket:
  assumes "index_wf ix" and "b < length (buckets ix)"
  shows "let ix' = unlock_shared (index_clear (snd (try_lock_shared ix b))) b in
    \<not> fst (try_lock_shared ix' b) \<and> \<not> fst (try_lock_exclusive ix' b)"
proof -
  let ?ix1 = "snd (try_lock_shared ix b)"
  let ?ix2 = "index_clear ?ix1"
  let ?ix3 = "unlock_shared ?ix2 b"
  have lw: "links_wf ix" by (rule index_wf_links [OF assms(1)])
  have len: "length (bucket_at ?ix1 c) = length (bucket_at ix c)" "length (buckets ?ix1) = length (buckets ix)" for c
    using assms(2) by (auto simp: try_lock_shared_eq [OF lw assms(2)] set_latch_word_def bucket_at_set_entry)
  have l8: "length (buckets ix ! b) = 8" using links_wfD(1) [OF lw, of "Main b"] assms(2) by simp
  then have "length (buckets ?ix1 ! b) = 8" using len(1) [of "Main b"] by simp
  then have z: "latch_word ?ix2 b = 0" and b8: "length (bucket_at ?ix2 (Main b)) = 8"
    using assms(2) len(2) by (simp_all add: latch_word_def entry_at_def index_clear_def OVERFLOW_ENTRY_def)
  have b2: "b < length (buckets ?ix2)" using assms(2) len(2) by (simp add: index_clear_def)
  have "latch_word ?ix3 b = 0 - SHARED_ONE"
    using b2 b8 unfolding unlock_shared_def z
    by (simp add: latch_word_def set_latch_word_def entry_at_set_entry OVERFLOW_ENTRY_def)
  then have "latch_word ?ix3 b AND EXCLUSIVE_BIT \<noteq> 0" by (simp add: SHARED_ONE_def EXCLUSIVE_BIT_def)
  then show ?thesis
    by (simp add: Let_def try_lock_shared_def try_lock_exclusive_def MAX_LOCK_SPINS_def
        spin_shared_eq spin_exclusive_eq shared_blocked_def exclusive_bit)
qed

theorem clear_under_reader_locks_bucket_witness:
  "\<not> fst (try_lock_shared (unlock_shared (index_clear (snd (try_lock_shared (index_new 2) 0))) 0) 0)"
proof -
  have "0 < length (buckets (index_new 2))"
    by (simp add: index_new_def next_power_of_two_def next_power_of_two_from.simps)
  from clear_under_reader_locks_bucket [OF index_new_wf(1) this] show ?thesis by (simp add: Let_def)
qed

end
