(* ===== verification/Store.thy ===== *)
theory Store
  imports SessionFunctions HybridLog IndexLatch KeyHash "HOL-Library.Product_Lexorder"
begin

text \<open>
  The store (\<^verbatim>\<open>store.rs\<close>): index, hybrid log with its epoch, and the (phase, version) word, with the operations
  Read, Upsert, RMW and Delete of a session, generic in the callbacks. Each operation is the source's loop of
  attempts; an attempt runs inside epoch protection, takes the bucket latch, walks the chain and branches on the region of
  the record it finds. \<open>None\<close> is a panic or a wait that never ends. The functions run one operation at a time.
\<close>

subsection \<open>Phase and version\<close>

datatype Phase = Rest | Prepare | InProgress | WaitFlush

record SystemState =
  phase :: Phase
  version :: nat

fun phase_code :: "Phase \<Rightarrow> nat" where
  "phase_code Rest = 0"
| "phase_code Prepare = 1"
| "phase_code InProgress = 2"
| "phase_code WaitFlush = 3"

definition ss_pack :: "SystemState \<Rightarrow> u64" where
  "ss_pack s = push_bit 56 (of_nat (phase_code (phase s))) OR (of_nat (version s) AND (push_bit 56 1 - 1))"

definition ss_unpack :: "u64 \<Rightarrow> SystemState" where
  "ss_unpack w =
     (let c = unat (drop_bit 56 w) in
      \<lparr>phase = (if c = 0 then Rest else if c = 1 then Prepare else if c = 2 then InProgress else WaitFlush),
       version = unat (w AND (push_bit 56 1 - 1))\<rparr>)"

definition ss_in_new_version :: "SystemState \<Rightarrow> bool" where
  "ss_in_new_version s \<longleftrightarrow> phase s = InProgress \<or> phase s = WaitFlush"

subsection \<open>State\<close>

record store =
  st_index :: hash_index
  st_log :: hlog \<comment> \<open>with the epoch\<close>
  st_system_state :: u64
  st_checkpoint_start :: nat

definition store_new :: "nat \<Rightarrow> nat \<Rightarrow> nat \<Rightarrow> nat \<Rightarrow> bytes \<Rightarrow> store option" where
  "store_new index_buckets bits memory_pages mutable dev =
     do { l \<leftarrow> hlog_new bits memory_pages mutable epoch_new dev;
          Some \<lparr>st_index = index_new index_buckets, st_log = l,
                st_system_state = ss_pack \<lparr>phase = Rest, version = 1\<rparr>, st_checkpoint_start = 2 ^ 64 - 1\<rparr> }"

definition system_state :: "store \<Rightarrow> SystemState" where
  "system_state st = ss_unpack (st_system_state st)"

definition current_version :: "store \<Rightarrow> nat" where
  "current_version st = version (system_state st)"

definition try_set_system_state :: "store \<Rightarrow> SystemState \<Rightarrow> SystemState \<Rightarrow> bool \<times> store" where
  "try_set_system_state st expected new =
     (if st_system_state st = ss_pack expected then (True, st\<lparr>st_system_state := ss_pack new\<rparr>) else (False, st))"

definition set_system_state :: "store \<Rightarrow> SystemState \<Rightarrow> store" where
  "set_system_state st s = st\<lparr>st_system_state := ss_pack s\<rparr>"

definition record_in_new_version :: "store \<Rightarrow> nat \<Rightarrow> u64 \<Rightarrow> bool" where
  "record_in_new_version st a info \<longleftrightarrow> in_new_version info \<and> st_checkpoint_start st \<le> a"

datatype LockType = Shared | Exclusive

record session =
  s_txn_mode :: bool
  s_txn_locks :: "(nat \<times> LockType) list"
  s_state :: SystemState
  s_tid :: nat \<comment> \<open>the thread the session runs on\<close>

definition new_session :: "store \<Rightarrow> nat \<Rightarrow> session" where
  "new_session st tid = \<lparr>s_txn_mode = False, s_txn_locks = [], s_state = system_state st, s_tid = tid\<rparr>"

datatype Op = Done Status | OpRetryNow | OpRetryLater | RecordOnDisk nat nat | CprShift
datatype Trace = TraceFound nat | TraceStopped nat

definition is_stopped :: "Trace \<Rightarrow> bool" where
  "is_stopped t \<longleftrightarrow> (case t of TraceStopped _ \<Rightarrow> True | _ \<Rightarrow> False)"

definition MAX_RETRIES :: nat where "MAX_RETRIES = 1000000"

text \<open>Writes to the header word of a record, and its initialisation, in the page.\<close>

definition modify_info :: "hlog \<Rightarrow> nat \<Rightarrow> (u64 \<Rightarrow> u64) \<Rightarrow> hlog" where
  "modify_info l a f =
     (let page = page_of l a; off = page_offset l a; m = page_data l page
      in set_page_data l page (rp_store_info m off (f (rp_info m off))))"

definition init_record :: "hlog \<Rightarrow> nat \<Rightarrow> nat \<Rightarrow> bool \<Rightarrow> size_info \<Rightarrow> bytes \<Rightarrow> hlog" where
  "init_record l a prev innew sz key =
     (let page = page_of l a
      in set_page_data l page (rp_init (page_data l page) (page_offset l a) (of_nat prev) innew sz key))"

subsection \<open>Latches\<close>

definition latch :: "hash_index \<Rightarrow> bool \<Rightarrow> nat \<Rightarrow> bool \<Rightarrow> bool option \<times> hash_index" where
  \<comment> \<open>\<open>Some held\<close>: the latch object; \<open>None\<close>: not acquired\<close>
  "latch ix txn_mode bucket exclusive =
     (if txn_mode then (Some False, ix)
      else (let (ok, ix') = (if exclusive then try_lock_exclusive ix bucket else try_lock_shared ix bucket)
            in (if ok then Some True else None, ix')))"

definition latch_drop :: "hash_index \<Rightarrow> nat \<Rightarrow> bool \<Rightarrow> bool \<Rightarrow> hash_index" where
  "latch_drop ix bucket exclusive held =
     (if held then if exclusive then unlock_exclusive ix bucket else unlock_shared ix bucket else ix)"

subsection \<open>Chains\<close>

partial_function (option) trace_back :: "hlog \<Rightarrow> nat \<Rightarrow> bytes \<Rightarrow> nat \<Rightarrow> Trace option" where
  "trace_back l addr key lo =
     (if lo \<le> addr \<and> FIRST_VALID_ADDRESS \<le> addr then
        (let r = record_at l addr in
         if r_key r = key then Some (TraceFound addr)
         else trace_back l (unat (previous_address (r_info r))) key lo)
      else Some (TraceStopped addr))"

partial_function (option) find_on_disk :: "hlog \<Rightarrow> nat \<Rightarrow> bytes \<Rightarrow> rec option option" where
  "find_on_disk l addr key =
     (if begin_address l \<le> addr \<and> FIRST_VALID_ADDRESS \<le> addr then
        (case read_record_from_disk l addr of None \<Rightarrow> Some None
         | Some buf \<Rightarrow>
           (let r = set_info (decode buf 0) (\<lambda>w. w AND NOT SEALED_BIT) in
            if r_key r = key then Some (Some r)
            else find_on_disk l (unat (previous_address (r_info r))) key))
      else Some None)"

partial_function (option) allocate_record ::
    "store \<Rightarrow> session \<Rightarrow> size_info \<Rightarrow> bytes \<Rightarrow> nat \<Rightarrow> (nat option \<times> store) option" where
  \<comment> \<open>\<open>None\<close> inside: the \<open>Err\<close> of the source, the log is full for now\<close>
  "allocate_record st s sz key prev =
     (case try_allocate_retry_now (st_log st) (si_total_size sz) of
        None \<Rightarrow> None
      | Some (None, l) \<Rightarrow> Some (None, st\<lparr>st_log := l\<rparr>)
      | Some (Some addr, l) \<Rightarrow>
          if addr \<le> prev then allocate_record (st\<lparr>st_log := modify_info l addr (\<lambda>_. 0)\<rparr>) s sz key prev
          else Some (Some addr, st\<lparr>st_log := init_record l addr prev (ss_in_new_version (s_state s)) sz key\<rparr>))"

definition cas_into_chain :: "store \<Rightarrow> slot_ref \<Rightarrow> u64 \<Rightarrow> nat \<Rightarrow> bool \<times> store" where
  "cas_into_chain st slot expected new_addr =
     (let (ok, ix) = try_cas (st_index st) slot expected (of_nat new_addr) in
      if ok then (True, st\<lparr>st_index := ix, st_log := modify_info (st_log st) new_addr unseal_and_validate\<rparr>)
      else (False, st\<lparr>st_log := modify_info (st_log st) new_addr seal_and_invalidate\<rparr>))"

definition cpr_gate :: "store \<Rightarrow> session \<Rightarrow> nat \<Rightarrow> u64 \<Rightarrow> Op option" where
  "cpr_gate st s a info =
     (if phase (s_state s) = Prepare \<and> record_in_new_version st a info then Some CprShift
      else if is_closed info then Some OpRetryLater else None)"

definition cpr_blocks_in_place :: "store \<Rightarrow> session \<Rightarrow> nat \<Rightarrow> u64 \<Rightarrow> bool" where
  "cpr_blocks_in_place st s a info \<longleftrightarrow> ss_in_new_version (s_state s) \<and> \<not> record_in_new_version st a info"

definition log_bump :: "hlog \<Rightarrow> hlog" where
  \<comment> \<open>\<open>epoch.bump_current_epoch()\<close>\<close>
  "log_bump l = (let (n, acts, ep) = bump_current_epoch (log_epoch l) in fold run_action acts (l\<lparr>log_epoch := ep\<rparr>))"

definition handle_retry :: "store \<Rightarrow> Op \<Rightarrow> nat \<Rightarrow> (nat \<times> store) option" where
  \<comment> \<open>\<open>left\<close>: the retries that are left; \<open>None\<close>: give up\<close>
  "handle_retry st outcome left =
     (if left = 0 then None
      else Some (left - 1, if outcome = OpRetryLater then st\<lparr>st_log := log_bump (st_log st)\<rparr> else st))"

definition protected :: "store \<Rightarrow> session \<Rightarrow> (store \<Rightarrow> session \<Rightarrow> ('r \<times> store) option) \<Rightarrow> ('r \<times> store \<times> session) option" where
  "protected st s body =
     do { (e, ep) \<leftarrow> protect (log_epoch (st_log st)) (s_tid s);
          let st = st\<lparr>st_log := (st_log st)\<lparr>log_epoch := ep\<rparr>\<rparr>;
              s = s\<lparr>s_state := system_state st\<rparr>
          in do { (r, st) \<leftarrow> body st s;
                  ep \<leftarrow> unprotect (log_epoch (st_log st)) (s_tid s);
                  Some (r, st\<lparr>st_log := (st_log st)\<lparr>log_epoch := ep\<rparr>\<rparr>, s) } }"

definition with_latch :: "store \<Rightarrow> session \<Rightarrow> slot_ref \<Rightarrow> bool \<Rightarrow> 'o \<Rightarrow> (store \<Rightarrow> ((Op \<times> 'o) \<times> store) option)
    \<Rightarrow> ((Op \<times> 'o) \<times> store) option" where
  \<comment> \<open>\<open>let Some(_latch) = latch(..) else { return RetryLater }\<close>, the body, and the drop at its end\<close>
  "with_latch st s slot exclusive out body =
     (case latch (st_index st) (s_txn_mode s) (sr_bucket slot) exclusive of
        (None, ix) \<Rightarrow> Some ((OpRetryLater, out), st\<lparr>st_index := ix\<rparr>)
      | (Some held, ix) \<Rightarrow>
          do { (r, st) \<leftarrow> body (st\<lparr>st_index := ix\<rparr>);
               Some (r, st\<lparr>st_index := latch_drop (st_index st) (sr_bucket slot) exclusive held\<rparr>) })"

subsection \<open>Read\<close>

definition read_locked ::
    "('i, 'o) session_functions \<Rightarrow> store \<Rightarrow> session \<Rightarrow> slot_ref \<Rightarrow> bytes \<Rightarrow> 'i \<Rightarrow> 'o \<Rightarrow> ((Op \<times> 'o) \<times> store) option" where
  "read_locked fns st s slot key input out =
     (let l = st_log st; latest = unat (he_address (slot_load (st_index st) slot)) in
      do { t \<leftarrow> trace_back l latest key (head_address l);
           case t of
             TraceFound addr \<Rightarrow>
               (let r = record_at l addr in
                case cpr_gate st s addr (r_info r) of
                  Some op \<Rightarrow> Some ((op, out), st)
                | None \<Rightarrow>
                    if is_tombstone (r_info r) then Some ((Done NotFound, out), st)
                    else (let (ok, out') = f_reader fns key input r out
                          in Some ((Done (if ok then Found else NotFound), out'), st)))
           | TraceStopped addr \<Rightarrow>
               Some ((if begin_address l \<le> addr \<and> FIRST_VALID_ADDRESS \<le> addr
                      then RecordOnDisk addr latest else Done NotFound, out), st) })"

definition internal_read ::
    "('i, 'o) session_functions \<Rightarrow> bytes \<Rightarrow> u64 \<Rightarrow> 'i \<Rightarrow> 'o \<Rightarrow> store \<Rightarrow> session \<Rightarrow> ((Op \<times> 'o) \<times> store) option" where
  "internal_read fns key hash input out st s =
     do { slot \<leftarrow> find_tag (st_index st) hash;
          case slot of None \<Rightarrow> Some ((Done NotFound, out), st)
          | Some slot \<Rightarrow> with_latch st s slot False out (\<lambda>st. read_locked fns st s slot key input out) }"

definition read_from_disk ::
    "('i, 'o) session_functions \<Rightarrow> store \<Rightarrow> nat \<Rightarrow> bytes \<Rightarrow> 'i \<Rightarrow> 'o \<Rightarrow> (Status \<times> 'o) option" where
  "read_from_disk fns st addr key input out =
     do { r \<leftarrow> find_on_disk (st_log st) addr key;
          case r of None \<Rightarrow> Some (NotFound, out)
          | Some r \<Rightarrow>
              if is_tombstone (r_info r) then Some (NotFound, out)
              else (let (ok, out') = f_reader fns key input r out in Some (if ok then Found else NotFound, out')) }"

partial_function (option) read_loop ::
    "('i, 'o) session_functions \<Rightarrow> nat \<Rightarrow> store \<Rightarrow> session \<Rightarrow> bytes \<Rightarrow> 'i \<Rightarrow> 'o \<Rightarrow> (Status \<times> 'o \<times> store \<times> session) option" where
  "read_loop fns left st s key input out =
     do { ((op, out), st, s) \<leftarrow> protected st s (internal_read fns key (hash64 key) input out);
          case op of
            Done status \<Rightarrow> Some (status, out, st, s)
          | RecordOnDisk addr latest \<Rightarrow>
              do { (status, out) \<leftarrow> read_from_disk fns st addr key input out; Some (status, out, st, s) }
          | _ \<Rightarrow>
              (case handle_retry st op left of None \<Rightarrow> Some (StatusError, out, st, s)
               | Some (left, st) \<Rightarrow> read_loop fns left st s key input out) }"

definition store_read ::
    "('i, 'o) session_functions \<Rightarrow> store \<Rightarrow> session \<Rightarrow> bytes \<Rightarrow> 'i \<Rightarrow> 'o \<Rightarrow> (Status \<times> 'o \<times> store \<times> session) option" where
  "store_read fns st s key input out = read_loop fns MAX_RETRIES st s key input out"

subsection \<open>Upsert\<close>

definition seal_old :: "store \<Rightarrow> nat option \<Rightarrow> store" where
  \<comment> \<open>\<open>if let Some(old) = old { old.info().try_seal(); }\<close>\<close>
  "seal_old st old = (case old of None \<Rightarrow> st | Some a \<Rightarrow> st\<lparr>st_log := modify_info (st_log st) a (\<lambda>w. snd (try_seal w))\<rparr>)"

definition append_record ::
    "store \<Rightarrow> session \<Rightarrow> slot_ref \<Rightarrow> u64 \<Rightarrow> bytes \<Rightarrow> size_info \<Rightarrow> (rec \<Rightarrow> (rec \<times> 'o) option) \<Rightarrow> nat option \<Rightarrow> Status \<Rightarrow> 'o
     \<Rightarrow> ((Op \<times> 'o) \<times> store) option" where
  \<comment> \<open>what the copying paths share: allocate and initialise, fill, publish, seal the old record\<close>
  "append_record st s slot entry key sz fill old status out =
     do { (a, st) \<leftarrow> allocate_record st s sz key (unat (he_address entry));
          case a of None \<Rightarrow> Some ((OpRetryLater, out), st)
          | Some a \<Rightarrow>
              do { (r, out') \<leftarrow> fill (record_at (st_log st) a);
                   let (ok, st) = cas_into_chain (st\<lparr>st_log := set_record_at (st_log st) a r\<rparr>) slot entry a
                   in if \<not> ok then Some ((OpRetryNow, out'), st)
                      else Some ((Done status, out'), seal_old st old) } }"

definition upsert_locked ::
    "('i, 'o) session_functions \<Rightarrow> store \<Rightarrow> session \<Rightarrow> slot_ref \<Rightarrow> bytes \<Rightarrow> 'i \<Rightarrow> 'o \<Rightarrow> ((Op \<times> 'o) \<times> store) option" where
  "upsert_locked fns st s slot key input out =
     (let l = st_log st; entry = slot_load (st_index st) slot; latest = unat (he_address entry);
          create = (\<lambda>st out old. append_record st s slot entry key (f_upsert_size fns key input)
                      (\<lambda>r. f_initial_writer fns key input r out) old Created out)
      in do { t \<leftarrow> trace_back l latest key (read_only_address l);
              case t of
                TraceStopped _ \<Rightarrow> create st out None
              | TraceFound addr \<Rightarrow>
                  (let r = record_at l addr; info = r_info r in
                   case cpr_gate st s addr info of Some op \<Rightarrow> Some ((op, out), st)
                   | None \<Rightarrow>
                       if is_tombstone info then create st out None
                       else if cpr_blocks_in_place st s addr info then create st out (Some addr)
                       else do { (ok, r', out') \<leftarrow> f_in_place_writer fns key input r out;
                                 let l' = set_record_at l addr r'
                                 in if ok then Some ((Done InPlaceUpdated, out'), st\<lparr>st_log := modify_info l' addr set_modified\<rparr>)
                                    else create (st\<lparr>st_log := l'\<rparr>) out' (Some addr) }) })"

definition internal_upsert ::
    "('i, 'o) session_functions \<Rightarrow> bytes \<Rightarrow> u64 \<Rightarrow> 'i \<Rightarrow> 'o \<Rightarrow> store \<Rightarrow> session \<Rightarrow> ((Op \<times> 'o) \<times> store) option" where
  "internal_upsert fns key hash input out st s =
     do { (slot, ix) \<leftarrow> find_or_create_tag (st_index st) hash;
          with_latch (st\<lparr>st_index := ix\<rparr>) s slot True out (\<lambda>st. upsert_locked fns st s slot key input out) }"

partial_function (option) upsert_loop ::
    "('i, 'o) session_functions \<Rightarrow> nat \<Rightarrow> store \<Rightarrow> session \<Rightarrow> bytes \<Rightarrow> 'i \<Rightarrow> 'o \<Rightarrow> (Status \<times> 'o \<times> store \<times> session) option" where
  "upsert_loop fns left st s key input out =
     do { ((op, out), st, s) \<leftarrow> protected st s (internal_upsert fns key (hash64 key) input out);
          case op of
            Done status \<Rightarrow> Some (status, out, st, s)
          | RecordOnDisk _ _ \<Rightarrow> None \<comment> \<open>\<open>unreachable!\<close>\<close>
          | _ \<Rightarrow>
              (case handle_retry st op left of None \<Rightarrow> Some (StatusError, out, st, s)
               | Some (left, st) \<Rightarrow> upsert_loop fns left st s key input out) }"

definition store_upsert ::
    "('i, 'o) session_functions \<Rightarrow> store \<Rightarrow> session \<Rightarrow> bytes \<Rightarrow> 'i \<Rightarrow> 'o \<Rightarrow> (Status \<times> 'o \<times> store \<times> session) option" where
  "store_upsert fns st s key input out = upsert_loop fns MAX_RETRIES st s key input out"

subsection \<open>Delete and read-modify-write\<close>

definition delete_rcu ::
    "store \<Rightarrow> session \<Rightarrow> slot_ref \<Rightarrow> u64 \<Rightarrow> bytes \<Rightarrow> nat option \<Rightarrow> 'o \<Rightarrow> ((Op \<times> 'o) \<times> store) option" where
  "delete_rcu st s slot entry key old out =
     append_record st s slot entry key \<lparr>si_key_len = length key, si_value_cap = 0, si_has_expiration = False\<rparr>
       (\<lambda>r. Some (set_info r set_tombstone, out)) old Deleted out"

definition rmw_initial ::
    "('i, 'o) session_functions \<Rightarrow> store \<Rightarrow> session \<Rightarrow> slot_ref \<Rightarrow> u64 \<Rightarrow> bytes \<Rightarrow> 'i \<Rightarrow> 'o \<Rightarrow> ((Op \<times> 'o) \<times> store) option" where
  "rmw_initial fns st s slot entry key input out =
     (let (need, out) = f_need_initial_update fns key input out in
      if \<not> need then Some ((Done NotFound, out), st)
      else append_record st s slot entry key (f_initial_size fns key input)
             (\<lambda>r. f_initial_updater fns key input r out) None Created out)"

definition rmw_copy ::
    "('i, 'o) session_functions \<Rightarrow> store \<Rightarrow> session \<Rightarrow> slot_ref \<Rightarrow> u64 \<Rightarrow> bytes \<Rightarrow> 'i \<Rightarrow> 'o \<Rightarrow> nat \<Rightarrow> rec \<Rightarrow> bool
     \<Rightarrow> ((Op \<times> 'o) \<times> store) option" where
  "rmw_copy fns st s slot entry key input out old_addr old seal =
     (let sealed = (if seal \<and> old_addr \<noteq> 0 then Some old_addr else None);
          (decision, out) = f_need_copy_update fns key input old out
      in case decision of
           CancelCopy \<Rightarrow> Some ((Done Canceled, out), st)
         | DeleteRecord \<Rightarrow> delete_rcu st s slot entry key sealed out
         | CopyRecord \<Rightarrow>
             append_record st s slot entry key (f_copy_size fns key input old)
               (\<lambda>r. f_copy_updater fns key input old r out) sealed CopyUpdated out)"

definition rmw_found ::
    "('i, 'o) session_functions \<Rightarrow> store \<Rightarrow> session \<Rightarrow> slot_ref \<Rightarrow> u64 \<Rightarrow> bytes \<Rightarrow> 'i \<Rightarrow> 'o \<Rightarrow> nat \<Rightarrow> ((Op \<times> 'o) \<times> store) option" where
  \<comment> \<open>the arm for a record found in memory at \<open>addr\<close>\<close>
  "rmw_found fns st s slot entry key input out addr =
     (let l = st_log st; r = record_at l addr; info = r_info r in
      case cpr_gate st s addr info of Some op \<Rightarrow> Some ((op, out), st)
      | None \<Rightarrow>
          if is_tombstone info then rmw_initial fns st s slot entry key input out
          else if read_only_address l \<le> addr then
            if cpr_blocks_in_place st s addr info then rmw_copy fns st s slot entry key input out addr r True
            else do { (res, r', out') \<leftarrow> f_in_place_updater fns key input r out;
                      let l' = set_record_at l addr r'; st' = st\<lparr>st_log := l'\<rparr> in
                      case res of
                        Updated \<Rightarrow> Some ((Done InPlaceUpdated, out'), st\<lparr>st_log := modify_info l' addr set_modified\<rparr>)
                      | Cancel \<Rightarrow> Some ((Done Found, out'), st')
                      | Expired \<Rightarrow>
                          rmw_initial fns (st\<lparr>st_log := modify_info l' addr set_tombstone\<rparr>) s slot entry key input out'
                      | Delete \<Rightarrow> Some ((Done Deleted, out'), st\<lparr>st_log := modify_info l' addr set_tombstone\<rparr>)
                      | NeedCopy \<Rightarrow> rmw_copy fns st' s slot entry key input out' addr (record_at l' addr) True }
          else if safe_read_only_address l \<le> addr then Some ((OpRetryLater, out), st)
          else rmw_copy fns st s slot entry key input out addr r False)"

definition no_newer :: "hlog \<Rightarrow> nat \<Rightarrow> bytes \<Rightarrow> nat \<Rightarrow> bool option" where
  \<comment> \<open>the guard of the disk arms: no record of the key in memory above the chain head seen before the read\<close>
  "no_newer l latest key seen_latest =
     (if seen_latest = latest then Some True
      else map_option is_stopped (trace_back l latest key (max (seen_latest + 1) (head_address l))))"

definition rmw_locked ::
    "('i, 'o) session_functions \<Rightarrow> store \<Rightarrow> session \<Rightarrow> slot_ref \<Rightarrow> bytes \<Rightarrow> 'i \<Rightarrow> (rec option \<times> nat) option \<Rightarrow> 'o
     \<Rightarrow> ((Op \<times> 'o) \<times> store) option" where
  "rmw_locked fns st s slot key input disk_src out =
     (let l = st_log st; entry = slot_load (st_index st) slot; latest = unat (he_address entry) in
      do { t \<leftarrow> trace_back l latest key (head_address l);
           case t of
             TraceFound addr \<Rightarrow> rmw_found fns st s slot entry key input out addr
           | TraceStopped addr \<Rightarrow>
               if begin_address l \<le> addr \<and> FIRST_VALID_ADDRESS \<le> addr then
                 (case disk_src of
                    None \<Rightarrow> Some ((RecordOnDisk addr latest, out), st)
                  | Some (src, seen_latest) \<Rightarrow>
                      do { ok \<leftarrow> no_newer l latest key seen_latest;
                           if \<not> ok then Some ((OpRetryNow, out), st)
                           else (case src of
                                   Some old \<Rightarrow>
                                     if \<not> is_tombstone (r_info old)
                                     then rmw_copy fns st s slot entry key input out 0 old False
                                     else rmw_initial fns st s slot entry key input out
                                 | None \<Rightarrow> rmw_initial fns st s slot entry key input out) })
               else rmw_initial fns st s slot entry key input out })"

definition internal_rmw ::
    "('i, 'o) session_functions \<Rightarrow> bytes \<Rightarrow> u64 \<Rightarrow> 'i \<Rightarrow> (rec option \<times> nat) option \<Rightarrow> 'o \<Rightarrow> store \<Rightarrow> session
     \<Rightarrow> ((Op \<times> 'o) \<times> store) option" where
  "internal_rmw fns key hash input disk_src out st s =
     do { (slot, ix) \<leftarrow> find_or_create_tag (st_index st) hash;
          with_latch (st\<lparr>st_index := ix\<rparr>) s slot True out (\<lambda>st. rmw_locked fns st s slot key input disk_src out) }"

partial_function (option) rmw_loop ::
    "('i, 'o) session_functions \<Rightarrow> nat \<Rightarrow> (rec option \<times> nat) option \<Rightarrow> store \<Rightarrow> session \<Rightarrow> bytes \<Rightarrow> 'i \<Rightarrow> 'o
     \<Rightarrow> (Status \<times> 'o \<times> store \<times> session) option" where
  "rmw_loop fns left disk_src st s key input out =
     do { ((op, out), st, s) \<leftarrow> protected st s (internal_rmw fns key (hash64 key) input disk_src out);
          case op of
            Done status \<Rightarrow> Some (status, out, st, s)
          | RecordOnDisk addr latest \<Rightarrow>
              do { r \<leftarrow> find_on_disk (st_log st) addr key; rmw_loop fns left (Some (r, latest)) st s key input out }
          | _ \<Rightarrow>
              (case handle_retry st op left of None \<Rightarrow> Some (StatusError, out, st, s)
               | Some (left, st) \<Rightarrow> rmw_loop fns left disk_src st s key input out) }"

definition store_rmw ::
    "('i, 'o) session_functions \<Rightarrow> store \<Rightarrow> session \<Rightarrow> bytes \<Rightarrow> 'i \<Rightarrow> 'o \<Rightarrow> (Status \<times> 'o \<times> store \<times> session) option" where
  "store_rmw fns st s key input out = rmw_loop fns MAX_RETRIES None st s key input out"

definition delete_locked ::
    "store \<Rightarrow> session \<Rightarrow> slot_ref \<Rightarrow> bytes \<Rightarrow> (bool \<times> nat) option \<Rightarrow> ((Op \<times> unit) \<times> store) option" where
  "delete_locked st s slot key disk_checked =
     (let l = st_log st; entry = slot_load (st_index st) slot; latest = unat (he_address entry) in
      do { t \<leftarrow> trace_back l latest key (head_address l);
           case t of
             TraceFound addr \<Rightarrow>
               (let info = r_info (record_at l addr) in
                case cpr_gate st s addr info of Some op \<Rightarrow> Some ((op, ()), st)
                | None \<Rightarrow>
                    if is_tombstone info then Some ((Done NotFound, ()), st)
                    else if read_only_address l \<le> addr \<and> \<not> cpr_blocks_in_place st s addr info
                    then Some ((Done Deleted, ()),
                           st\<lparr>st_log := modify_info (modify_info l addr set_tombstone) addr set_modified\<rparr>)
                    else delete_rcu st s slot entry key (Some addr) ())
           | TraceStopped addr \<Rightarrow>
               if begin_address l \<le> addr \<and> FIRST_VALID_ADDRESS \<le> addr then
                 (case disk_checked of
                    None \<Rightarrow> Some ((RecordOnDisk addr latest, ()), st)
                  | Some (exists, seen_latest) \<Rightarrow>
                      do { ok \<leftarrow> no_newer l latest key seen_latest;
                           if \<not> ok then Some ((OpRetryNow, ()), st)
                           else if exists then delete_rcu st s slot entry key None ()
                           else Some ((Done NotFound, ()), st) })
               else Some ((Done NotFound, ()), st) })"

definition internal_delete ::
    "bytes \<Rightarrow> u64 \<Rightarrow> (bool \<times> nat) option \<Rightarrow> store \<Rightarrow> session \<Rightarrow> ((Op \<times> unit) \<times> store) option" where
  "internal_delete key hash disk_checked st s =
     do { slot \<leftarrow> find_tag (st_index st) hash;
          case slot of None \<Rightarrow> Some ((Done NotFound, ()), st)
          | Some slot \<Rightarrow> with_latch st s slot True () (\<lambda>st. delete_locked st s slot key disk_checked) }"

partial_function (option) delete_loop ::
    "nat \<Rightarrow> (bool \<times> nat) option \<Rightarrow> store \<Rightarrow> session \<Rightarrow> bytes \<Rightarrow> (Status \<times> store \<times> session) option" where
  "delete_loop left disk_checked st s key =
     do { ((op, out), st, s) \<leftarrow> protected st s (internal_delete key (hash64 key) disk_checked);
          case op of
            Done status \<Rightarrow> Some (status, st, s)
          | RecordOnDisk addr latest \<Rightarrow>
              do { r \<leftarrow> find_on_disk (st_log st) addr key;
                   let exists = (case r of Some r \<Rightarrow> \<not> is_tombstone (r_info r) | None \<Rightarrow> False)
                   in delete_loop left (Some (exists, latest)) st s key }
          | _ \<Rightarrow>
              (case handle_retry st op left of None \<Rightarrow> Some (StatusError, st, s)
               | Some (left, st) \<Rightarrow> delete_loop left disk_checked st s key) }"

definition store_delete :: "store \<Rightarrow> session \<Rightarrow> bytes \<Rightarrow> (Status \<times> store \<times> session) option" where
  "store_delete st s key = delete_loop MAX_RETRIES None st s key"

subsection \<open>Transactions\<close>

fun dedup_by_key :: "('a \<Rightarrow> 'b) \<Rightarrow> 'a list \<Rightarrow> 'a list" where
  "dedup_by_key f (x # y # xs) = (if f x = f y then dedup_by_key f (x # xs) else x # dedup_by_key f (y # xs))"
| "dedup_by_key f xs = xs"

definition lock_order :: "nat \<times> LockType \<Rightarrow> nat \<times> nat" where
  "lock_order = (\<lambda>(b, t). (b, if t = Exclusive then 0 else 1))"

definition wanted_locks :: "hash_index \<Rightarrow> (bytes \<times> LockType) list \<Rightarrow> (nat \<times> LockType) list" where
  "wanted_locks ix keys = dedup_by_key fst (sort_key lock_order (map (\<lambda>(k, t). (bucket_index ix (hash64 k), t)) keys))"

definition lock_bucket :: "hash_index \<Rightarrow> nat \<times> LockType \<Rightarrow> bool \<times> hash_index" where
  "lock_bucket ix = (\<lambda>(b, t). case t of Exclusive \<Rightarrow> try_lock_exclusive ix b | Shared \<Rightarrow> try_lock_shared ix b)"

fun lock_all :: "hash_index \<Rightarrow> (nat \<times> LockType) list \<Rightarrow> hash_index option" where
  \<comment> \<open>a lock that another thread holds is tried for ever: \<open>None\<close>\<close>
  "lock_all ix [] = Some ix"
| "lock_all ix (w # ws) = (case lock_bucket ix w of (True, ix') \<Rightarrow> lock_all ix' ws | (False, _) \<Rightarrow> None)"

definition txn_lock :: "store \<Rightarrow> session \<Rightarrow> (bytes \<times> LockType) list \<Rightarrow> (store \<times> session) option" where
  "txn_lock st s keys =
     (if s_txn_mode s then None
      else (let ws = wanted_locks (st_index st) keys in
            do { ix \<leftarrow> lock_all (st_index st) ws;
                 Some (st\<lparr>st_index := ix\<rparr>, s\<lparr>s_txn_locks := s_txn_locks s @ ws, s_txn_mode := True\<rparr>) }))"

definition unlock_bucket :: "nat \<times> LockType \<Rightarrow> hash_index \<Rightarrow> hash_index" where
  "unlock_bucket = (\<lambda>(b, t) ix. case t of Exclusive \<Rightarrow> unlock_exclusive ix b | Shared \<Rightarrow> unlock_shared ix b)"

definition txn_unlock :: "store \<Rightarrow> session \<Rightarrow> store \<times> session" where
  "txn_unlock st s =
     (st\<lparr>st_index := fold unlock_bucket (s_txn_locks s) (st_index st)\<rparr>, s\<lparr>s_txn_locks := [], s_txn_mode := False\<rparr>)"

definition session_drop :: "store \<Rightarrow> session \<Rightarrow> store" where
  "session_drop st s =
     (let st = (if s_txn_mode s then fst (txn_unlock st s) else st); l = st_log st
      in st\<lparr>st_log := l\<lparr>log_epoch := release_thread (log_epoch l) (s_tid s)\<rparr>\<rparr>)"

subsection \<open>Scan\<close>

partial_function (option) latest_loop :: "hlog \<Rightarrow> nat \<Rightarrow> nat \<Rightarrow> bytes \<Rightarrow> bool option" where
  "latest_loop l cur addr key =
     (if addr < cur \<and> begin_address l \<le> cur then
        if head_address l \<le> cur then
          (let r = record_at l cur in
           if r_key r = key \<and> is_valid (r_info r) then Some False
           else latest_loop l (unat (previous_address (r_info r))) addr key)
        else (case read_record_from_disk l cur of None \<Rightarrow> Some False
              | Some buf \<Rightarrow>
                  if r_key (decode buf 0) = key then Some False
                  else latest_loop l (unat (previous_address (r_info (decode buf 0)))) addr key)
      else Some (cur = addr))"

definition is_latest :: "store \<Rightarrow> nat \<Rightarrow> bytes \<Rightarrow> bool option" where
  "is_latest st addr key =
     do { slot \<leftarrow> find_tag (st_index st) (hash64 key);
          case slot of None \<Rightarrow> Some False
          | Some slot \<Rightarrow> latest_loop (st_log st) (unat (he_address (slot_load (st_index st) slot))) addr key }"

fun visit_live :: "store \<Rightarrow> nat \<Rightarrow> nat option \<Rightarrow> (nat \<times> rec) list \<Rightarrow> ((nat \<times> rec) list \<times> nat option \<times> store) option" where
  \<comment> \<open>the closure of \<open>scan_live\<close> over the records of a page: the epoch is refreshed at each new page\<close>
  "visit_live st tid last_page [] = Some ([], last_page, st)"
| "visit_live st tid last_page ((a, r) # rs) =
     (let page = page_of (st_log st) a in
      do { l \<leftarrow> (if Some page \<noteq> last_page then log_refresh (st_log st) tid else Some (st_log st));
           let st = st\<lparr>st_log := l\<rparr> in
           do { live \<leftarrow> (if \<not> is_valid (r_info r) \<or> is_tombstone (r_info r) then Some False else is_latest st a (r_key r));
                (xs, last_page, st) \<leftarrow> visit_live st tid (Some page) rs;
                Some ((if live then (a, r) # xs else xs), last_page, st) } })"

partial_function (option) scan_live_loop ::
    "store \<Rightarrow> nat \<Rightarrow> nat option \<Rightarrow> nat \<Rightarrow> nat \<Rightarrow> ((nat \<times> rec) list \<times> store) option" where
  \<comment> \<open>the loop of \<open>HybridLog::scan\<close> with that closure; a read error ends the scan with what was visited\<close>
  "scan_live_loop st tid last_page addr to =
     (if addr < to then
        (case scan_page (st_log st) addr to of None \<Rightarrow> Some ([], st)
         | Some rs \<Rightarrow>
             do { (xs, last_page, st) \<leftarrow> visit_live st tid last_page rs;
                  (ys, st) \<leftarrow> scan_live_loop st tid last_page
                     (push_bit (page_bits (st_log st)) (page_of (st_log st) addr) + page_size (st_log st)) to;
                  Some (xs @ ys, st) })
      else Some ([], st))"

definition scan_live :: "store \<Rightarrow> nat \<Rightarrow> ((nat \<times> rec) list \<times> store) option" where
  "scan_live st tid =
     do { (e, ep) \<leftarrow> protect (log_epoch (st_log st)) tid;
          let st = st\<lparr>st_log := (st_log st)\<lparr>log_epoch := ep\<rparr>\<rparr> in
          do { to \<leftarrow> tail_address (st_log st);
               (xs, st) \<leftarrow> scan_live_loop st tid None (max (begin_address (st_log st)) FIRST_VALID_ADDRESS) to;
               ep \<leftarrow> unprotect (log_epoch (st_log st)) tid;
               Some (xs, st\<lparr>st_log := (st_log st)\<lparr>log_epoch := ep\<rparr>\<rparr>) } }"

definition count_live :: "store \<Rightarrow> nat \<Rightarrow> (nat \<times> store) option" where
  "count_live st tid = map_option (\<lambda>(xs, st). (length xs, st)) (scan_live st tid)"

end
