(* ===== verification/RecordChain.thy ===== *)
theory RecordChain
  imports LogHeap Store
begin

text \<open>
  The chains of records that hang off the index entries. \<open>newest R a key\<close> walks the logical log from address \<open>a\<close> to the
  newest record of the key; the walks of the store, in memory (\<open>trace_back\<close>) and on the device (\<open>find_on_disk\<close>), compute
  it.
\<close>

definition prev_addr :: "rec \<Rightarrow> nat" where
  "prev_addr r = unat (previous_address (r_info r))"

function newest :: "reclog \<Rightarrow> nat \<Rightarrow> bytes \<Rightarrow> nat option" where
  "newest R a key =
     (case R a of None \<Rightarrow> None
      | Some r \<Rightarrow>
          if r_key r = key then Some a
          else if prev_addr r < a then newest R (prev_addr r) key else None)"
  by pat_completeness auto
termination
  by (relation "measure (\<lambda>(R, a, key). a)") auto

declare newest.simps [simp del]

definition chain_ok :: "reclog \<Rightarrow> bool" where
  "chain_ok R \<longleftrightarrow> (\<forall>a r. R a = Some r \<longrightarrow> FIRST_VALID_ADDRESS \<le> a
     \<and> (prev_addr r < FIRST_VALID_ADDRESS \<or> prev_addr r \<in> dom R \<and> prev_addr r < a))"

definition chain_start :: "reclog \<Rightarrow> nat \<Rightarrow> bool" where
  "chain_start R a \<longleftrightarrow> a < FIRST_VALID_ADDRESS \<or> a \<in> dom R"

lemma chain_okD: "chain_ok R \<Longrightarrow> R a = Some r \<Longrightarrow> FIRST_VALID_ADDRESS \<le> a \<and> prev_addr r < a \<and> chain_start R (prev_addr r)"
  by (fastforce simp: chain_ok_def chain_start_def)

lemma newest_low: "chain_ok R \<Longrightarrow> a < FIRST_VALID_ADDRESS \<Longrightarrow> newest R a key = None"
  using chain_okD [of R a] by (subst newest.simps) (fastforce split: option.splits)

lemma newest_step:
  "chain_ok R \<Longrightarrow> R a = Some r \<Longrightarrow> newest R a key = (if r_key r = key then Some a else newest R (prev_addr r) key)"
  using chain_okD by (subst newest.simps) auto

lemma newest_SomeD: "newest R a key = Some b \<Longrightarrow> b \<le> a \<and> (\<exists>r. R b = Some r \<and> r_key r = key)"
proof (induction R a key rule: newest.induct)
  case (1 R a key)
  from 1(2) 1(1) show ?case
    by (subst (asm) newest.simps) (fastforce split: option.splits if_splits)
qed

text \<open>Frames: an update that keeps keys and links, and a record added above.\<close>

definition same_links :: "rec \<Rightarrow> rec \<Rightarrow> bool" where
  "same_links r r' \<longleftrightarrow> r_key r' = r_key r \<and> previous_address (r_info r') = previous_address (r_info r)"

lemma newest_cong:
  assumes "\<And>x. x \<le> b \<Longrightarrow> rel_option same_links (R x) (S x)"
  shows "newest S b key = newest R b key"
  using assms
proof (induction b rule: less_induct)
  case (less b)
  have ih: "newest S y key = newest R y key" if "y < b" for y using less that by simp
  show ?case
  proof (cases "R b")
    case None
    then have "S b = None" using less.prems [of b] by simp
    with None show ?thesis by (simp add: newest.simps)
  next
    case (Some r)
    then obtain r' where r': "S b = Some r'" "same_links r r'" using less.prems [of b] by (auto simp: option_rel_Some1)
    then have "prev_addr r' = prev_addr r" "r_key r' = r_key r" by (simp_all add: same_links_def prev_addr_def)
    with Some r'(1) ih show ?thesis by (subst (1 2) newest.simps) simp
  qed
qed

lemma same_links_refl [simp]: "same_links r r"
  by (simp add: same_links_def)

lemma newest_update: "R a = Some r \<Longrightarrow> same_links r r' \<Longrightarrow> newest (R(a \<mapsto> r')) b key = newest R b key"
  by (rule newest_cong) (auto simp: option.rel_refl)

lemma newest_insert: "b < n \<Longrightarrow> newest (R(n \<mapsto> r)) b key = newest R b key"
  by (rule newest_cong) (auto simp: option.rel_refl)

lemma chain_ok_update: "chain_ok R \<Longrightarrow> R a = Some r \<Longrightarrow> same_links r r' \<Longrightarrow> chain_ok (R(a \<mapsto> r'))"
  by (auto simp: chain_ok_def same_links_def prev_addr_def dom_def split: if_splits)

lemma chain_ok_insert:
  "chain_ok R \<Longrightarrow> FIRST_VALID_ADDRESS \<le> n \<Longrightarrow> R n = None \<Longrightarrow> chain_start R (prev_addr r) \<Longrightarrow> prev_addr r < n \<Longrightarrow>
     chain_ok (R(n \<mapsto> r))"
  unfolding chain_ok_def chain_start_def by (auto simp: domIff split: if_splits)

subsection \<open>The walks of the store\<close>

text \<open>The walk in memory stops at the newest record of the key or below its floor, with nothing skipped.\<close>

lemma trace_back_newest:
  assumes inv: "log_inv l R" and ch: "chain_ok R" and st: "chain_start R a" and lo: "head_address l \<le> lo"
  shows "(case newest R a key of
      Some b \<Rightarrow> if lo \<le> b then trace_back l a key lo = Some (TraceFound b)
                else \<exists>c. trace_back l a key lo = Some (TraceStopped c) \<and> c < lo \<and> c \<in> dom R \<and> newest R c key = Some b
    | None \<Rightarrow> \<exists>c. trace_back l a key lo = Some (TraceStopped c) \<and> chain_start R c
                \<and> (FIRST_VALID_ADDRESS \<le> c \<longrightarrow> c < lo) \<and> newest R c key = None)"
  using st
proof (induction a rule: less_induct)
  case (less a)
  show ?case
  proof (cases "lo \<le> a \<and> FIRST_VALID_ADDRESS \<le> a")
    case False
    then have t: "trace_back l a key lo = Some (TraceStopped a)" by (subst trace_back.simps) auto
    show ?thesis
    proof (cases "newest R a key")
      case None
      with t less.prems False show ?thesis by auto
    next
      case (Some b)
      then have "FIRST_VALID_ADDRESS \<le> a" using newest_low [OF ch, of a key] by fastforce
      moreover have "b \<le> a" using newest_SomeD [OF Some] by simp
      ultimately show ?thesis using Some t False less.prems by (auto simp: chain_start_def)
    qed
  next
    case True
    then obtain r where r: "R a = Some r" using less.prems by (auto simp: chain_start_def)
    have ra: "record_at l a = r" using True lo by (intro record_at_inv [OF inv r]) simp
    note n = newest_step [OF ch r, of key]
    show ?thesis
    proof (cases "r_key r = key")
      case True': True
      have "trace_back l a key lo = Some (TraceFound a)" using True True' ra by (subst trace_back.simps) (simp add: Let_def)
      then show ?thesis using n True' True by simp
    next
      case False
      have t: "trace_back l a key lo = trace_back l (prev_addr r) key lo"
        using True False ra by (subst trace_back.simps) (simp add: Let_def prev_addr_def)
      show ?thesis unfolding t n if_not_P [OF False] using less.IH [of "prev_addr r"] chain_okD [OF ch r] by blast
    qed
  qed
qed

text \<open>The walk on the device finds the same record, with the seal bit cleared.\<close>

lemma find_on_disk_newest:
  assumes inv: "log_inv l R" and ch: "chain_ok R" and bg: "\<forall>x \<in> dom R. begin_address l \<le> x"
    and st: "chain_start R a" and lt: "a < flushed_until_address l \<or> a < FIRST_VALID_ADDRESS"
  shows "find_on_disk l a key = Some (map_option (\<lambda>b. unsealed (the (R b))) (newest R a key))"
  using st lt
proof (induction a rule: less_induct)
  case (less a)
  show ?case
  proof (cases "FIRST_VALID_ADDRESS \<le> a")
    case False
    then show ?thesis using newest_low [OF ch, of a key] by (subst find_on_disk.simps) simp
  next
    case True
    then obtain r where r: "R a = Some r" using less.prems by (auto simp: chain_start_def)
    have "a < flushed_until_address l" using less.prems(2) True by simp
    from read_record_inv [OF inv r this] obtain buf where buf: "read_record_from_disk l a = Some buf"
      "unsealed (decode buf 0) = unsealed r" by blast
    have b: "begin_address l \<le> a" using bg r by auto
    have k: "r_key (unsealed r) = r_key r" "prev_addr (unsealed r) = prev_addr r"
      by (simp_all add: prev_addr_def info_simps)
    note n = newest_step [OF ch r, of key]
    have step: "find_on_disk l a key =
        (if r_key r = key then Some (Some (unsealed r)) else find_on_disk l (prev_addr r) key)"
      using True b buf k by (subst find_on_disk.simps) (simp add: Let_def prev_addr_def flip: unsealed_def)
    note p = chain_okD [OF ch r]
    show ?thesis
    proof (cases "r_key r = key")
      case False
      have "prev_addr r < flushed_until_address l \<or> prev_addr r < FIRST_VALID_ADDRESS" using p \<open>a < flushed_until_address l\<close> by simp
      with less.IH [of "prev_addr r"] p step n False show ?thesis by simp
    qed (use step n r in simp)
  qed
qed

end
