(* ===== verification/LatchedIndex.thy ===== *)
theory LatchedIndex
  imports IndexLatch
begin

text \<open>
  The index under latches. A bucket latch lives in the upper bits of the overflow word, so taking and releasing it
  changes the table but none of its contents; with all latches free, a latch that is taken and dropped around an
  update leaves them free again.
\<close>

definition same_index :: "hash_index \<Rightarrow> hash_index \<Rightarrow> bool" where
  "same_index ix ix' \<longleftrightarrow> index_wf ix' \<and> find_tag ix' = find_tag ix \<and> bucket_index ix' = bucket_index ix
     \<and> (\<forall>h s. find_tag ix h = Some (Some s) \<longrightarrow> slot_load ix' s = slot_load ix s)
     \<and> length (buckets ix') = length (buckets ix) \<and> overflow_next ix' = overflow_next ix
     \<and> length (overflow ix') = length (overflow ix)"

lemma same_index_lookup: "same_index ix ix' \<Longrightarrow> index_lookup ix' h = index_lookup ix h"
  by (auto simp: same_index_def index_lookup_def split: option.splits)

lemma same_index_entry: "same_index ix ix' \<Longrightarrow> same_entry ix' h h' = same_entry ix h h'"
  by (simp add: same_index_def same_entry_def)

lemma same_index_refl [simp]: "index_wf ix \<Longrightarrow> same_index ix ix"
  by (simp add: same_index_def)

lemma link_mask: "link v = link w \<longleftrightarrow> v AND ADDRESS_MASK = w AND ADDRESS_MASK"
proof -
  have "unat (v AND ADDRESS_MASK) = link v" for v
  proof -
    have "unat (v AND ADDRESS_MASK) = take_bit 48 (unat v)"
      unfolding ADDRESS_MASK_mask take_bit_eq_mask [symmetric] by (rule unsigned_take_bit_eq)
    then show ?thesis by (simp only: link_def take_bit_eq_mod)
  qed
  then show ?thesis by (metis word_unat_eq_iff)
qed

lemma set_latch_same:
  assumes wf: "index_wf ix" and b: "b < length (buckets ix)" and w: "link w = link (latch_word ix b)"
  shows "same_index ix (set_latch_word ix b w)"
proof -
  let ?ix = "set_latch_word ix b w"
  have lw: "links_wf ix" by (rule index_wf_links [OF wf])
  have v: "valid_ref ix (Main b)" using b by simp
  have len: "7 < length (bucket_at ix (Main b))" using links_wfD(1) [OF lw v] by simp
  have en: "entry_at ?ix c k = (if (c, k) = (Main b, 7) then w else entry_at ix c k)" for c k
    using entry_at_set_entry [OF v len] by (simp add: set_latch_word_def OVERFLOW_ENTRY_def)
  have nl: "next_link ?ix c = next_link ix c" for c
    using w by (auto simp: next_link_def en OVERFLOW_ENTRY_def link_mask latch_word_def)
  have st: "length (buckets ?ix) = length (buckets ix)" "overflow ?ix = overflow ix" "overflow_next ?ix = overflow_next ix"
    "ix_mask ?ix = ix_mask ix" by (simp_all add: set_latch_word_def set_entry_def)
  have vr: "valid_ref ?ix c = valid_ref ix c" for c by (cases c) (simp_all add: st)
  have ln: "length (bucket_at ?ix c) = length (bucket_at ix c)" for c
    using bucket_at_set_entry [OF v] by (simp add: set_latch_word_def)
  have lw': "links_wf ?ix" using lw by (simp add: links_wf_def vr ln nl st)
  have ch: "chain ?ix c = chain ix c" if "valid_ref ix c" for c
    by (rule chain_cong [OF lw that lw']) (simp_all add: vr nl)
  have e7: "entry_at ?ix c k = entry_at ix c k" if "k < 7" for c k using that by (simp add: en)
  have "tags_wf ?ix"
    using index_wf_tags [OF wf] unfolding tags_wf_def vr st using ch e7 by simp
  with lw' have wf': "index_wf ?ix" using wf by (simp add: index_wf_def st)
  have bi: "bucket_index ?ix = bucket_index ix" by (simp add: bucket_index_def [abs_def] st)
  have lv: "scan_entries ?ix (live_with_tag ?ix t) = scan_entries ix (live_with_tag ix t)" for t
  proof
    fix c
    have "List.find (live_with_tag ?ix t c) [0..<7] = List.find (live_with_tag ix t c) [0..<7]"
      by (rule find_cong) (auto simp: live_with_tag_def e7)
    then show "scan_entries ?ix (live_with_tag ?ix t) c = scan_entries ix (live_with_tag ix t) c"
      by (simp add: scan_entries_def ENTRIES_PER_BUCKET_def)
  qed
  have ft: "find_tag ?ix = find_tag ix"
  proof
    fix h
    have "valid_ref ix (Main (bucket_index ix h))" using index_wf_bucket_index [OF wf] by simp
    then show "find_tag ?ix h = find_tag ix h"
      by (simp add: find_tag_eq [OF wf] find_tag_eq [OF wf'] bi lv ch)
  qed
  have "slot_load ?ix s = slot_load ix s" if "find_tag ix h = Some (Some s)" for h s
    using find_tagD(2) [OF wf that] by (simp add: slot_load_def e7)
  with wf' bi ft st show ?thesis by (simp add: same_index_def)
qed

subsection \<open>Free latches\<close>

definition latch_free :: "hash_index \<Rightarrow> nat \<Rightarrow> bool" where
  "latch_free ix b \<longleftrightarrow> \<not> writer (latch_word ix b) \<and> readers (latch_word ix b) = 0"

definition all_free :: "hash_index \<Rightarrow> bool" where
  "all_free ix \<longleftrightarrow> (\<forall>b < length (buckets ix). latch_free ix b)"

definition same_latches :: "hash_index \<Rightarrow> hash_index \<Rightarrow> bool" where
  "same_latches ix ix' \<longleftrightarrow> length (buckets ix') = length (buckets ix)
     \<and> (\<forall>b < length (buckets ix). readers (latch_word ix' b) = readers (latch_word ix b)
          \<and> writer (latch_word ix' b) = writer (latch_word ix b))"

lemma same_latches_refl [simp]: "same_latches ix ix"
  by (simp add: same_latches_def)

lemma same_latches_trans: "same_latches a b \<Longrightarrow> same_latches b c \<Longrightarrow> same_latches a c"
  by (simp add: same_latches_def)

lemma same_latches_free: "same_latches ix ix' \<Longrightarrow> all_free ix' = all_free ix"
  by (simp add: same_latches_def all_free_def latch_free_def)

lemma latch_bits_fields:
  assumes "v AND NOT ADDRESS_MASK = w AND NOT ADDRESS_MASK"
  shows "readers v = readers w" and "writer v = writer w"
proof -
  have b: "bit v n = bit w n" if "48 \<le> n" "n < 64" for n
  proof -
    have "bit (v AND NOT ADDRESS_MASK) n = bit (w AND NOT ADDRESS_MASK) n" using assms by simp
    then show ?thesis using that by (auto simp: bit_and_iff bit_not_iff bit_ADDRESS_MASK)
  qed
  have "drop_bit 48 v = drop_bit 48 w"
  proof (rule bit_word_eqI)
    fix n
    have "bit u (48 + n) \<Longrightarrow> 48 + n < 64" for u :: u64 using bit_imp_le_length [of u "48 + n"] by simp
    then show "bit (drop_bit 48 v) n = bit (drop_bit 48 w) n" using b [of "48 + n"] by (auto simp: bit_drop_bit_eq)
  qed
  then have "unat (drop_bit 48 v) = unat (drop_bit 48 w)" by simp
  then have "unat v div 2 ^ 48 = unat w div 2 ^ 48" by (simp add: drop_bit_eq_div unat_div_distrib)
  then show "readers v = readers w" by (simp add: readers_def)
  show "writer v = writer w" using b [of 63] by (simp add: writer_bit)
qed

lemma same_latchesI:
  "length (buckets ix') = length (buckets ix) \<Longrightarrow> (\<And>b. latch_bits ix' b = latch_bits ix b) \<Longrightarrow> same_latches ix ix'"
  unfolding same_latches_def latch_word_def latch_bits_def using latch_bits_fields by blast

lemma set_latch_word_latches:
  assumes "links_wf ix" and "b < length (buckets ix)" and "c < length (buckets ix)"
  shows "latch_word (set_latch_word ix b w) c = (if c = b then w else latch_word ix c)"
proof -
  have "7 < length (bucket_at ix (Main b))" using links_wfD(1) [OF assms(1), of "Main b"] assms(2) by simp
  then show ?thesis
    using assms(2) entry_at_set_entry [of ix "Main b" 7 w "Main c" 7]
    by (auto simp: latch_word_def set_latch_word_def OVERFLOW_ENTRY_def)
qed

subsection \<open>Taking and dropping a latch\<close>

lemma lock_exclusive_free:
  assumes wf: "index_wf ix" and b: "b < length (buckets ix)" and free: "latch_free ix b"
  shows "fst (try_lock_exclusive ix b)" and "same_index ix (snd (try_lock_exclusive ix b))"
    and "index_wf ix2 \<Longrightarrow> same_latches (snd (try_lock_exclusive ix b)) ix2 \<Longrightarrow>
      same_index ix2 (unlock_exclusive ix2 b) \<and> same_latches ix (unlock_exclusive ix2 b)"
proof -
  have lw: "links_wf ix" by (rule index_wf_links [OF wf])
  have e: "try_lock_exclusive ix b = (True, set_latch_word ix b (latch_word ix b OR EXCLUSIVE_BIT))"
    using free by (simp add: try_lock_exclusive_eq [OF lw b] latch_free_def)
  show "fst (try_lock_exclusive ix b)" by (simp add: e)
  show s: "same_index ix (snd (try_lock_exclusive ix b))" unfolding e snd_conv by (rule set_latch_same [OF wf b]) (simp add: or_exclusive)
  assume wf2: "index_wf ix2" and sl: "same_latches (snd (try_lock_exclusive ix b)) ix2"
  have len: "length (buckets ix2) = length (buckets ix)" using sl s by (simp add: same_latches_def same_index_def)
  have b2: "b < length (buckets ix2)" using b len by simp
  note lw2 = index_wf_links [OF wf2]
  have "same_index ix2 (unlock_exclusive ix2 b)"
    unfolding unlock_exclusive_def by (rule set_latch_same [OF wf2 b2]) (simp add: and_not_exclusive)
  moreover have "same_latches ix (unlock_exclusive ix2 b)"
    unfolding same_latches_def
  proof (intro conjI allI impI)
    show "length (buckets (unlock_exclusive ix2 b)) = length (buckets ix)"
      using len by (simp add: unlock_exclusive_def set_latch_word_def set_entry_def)
    fix c assume c: "c < length (buckets ix)"
    have "readers (latch_word ix2 c) = readers (latch_word ix c) \<and> (c \<noteq> b \<longrightarrow> writer (latch_word ix2 c) = writer (latch_word ix c))"
      using sl c s by (auto simp: same_latches_def e set_latch_word_latches [OF lw b] or_exclusive same_index_def split: if_splits)
    then show "readers (latch_word (unlock_exclusive ix2 b) c) = readers (latch_word ix c)"
      and "writer (latch_word (unlock_exclusive ix2 b) c) = writer (latch_word ix c)"
      using c len free by (auto simp add: unlock_exclusive_def set_latch_word_latches [OF lw2 b2] and_not_exclusive latch_free_def)
  qed
  ultimately show "same_index ix2 (unlock_exclusive ix2 b) \<and> same_latches ix (unlock_exclusive ix2 b)" by blast
qed

lemma lock_shared_free:
  assumes wf: "index_wf ix" and b: "b < length (buckets ix)" and free: "latch_free ix b"
  shows "fst (try_lock_shared ix b)" and "same_index ix (snd (try_lock_shared ix b))"
    and "unlock_shared (snd (try_lock_shared ix b)) b = ix"
proof -
  have lw: "links_wf ix" by (rule index_wf_links [OF wf])
  have r: "readers (latch_word ix b) = 0" using free by (simp add: latch_free_def)
  have e: "try_lock_shared ix b = (True, set_latch_word ix b (latch_word ix b + SHARED_ONE))"
    using free by (simp add: try_lock_shared_eq [OF lw b] latch_free_def)
  show "fst (try_lock_shared ix b)" by (simp add: e)
  show "same_index ix (snd (try_lock_shared ix b))"
    unfolding e snd_conv by (rule set_latch_same [OF wf b]) (simp add: add_shared r)
  show "unlock_shared (snd (try_lock_shared ix b)) b = ix"
    using set_latch_read [OF lw b] by (simp add: e unlock_shared_def)
qed

end
