(* ===== verification/StoreInv.thy ===== *)
theory StoreInv
  imports RecordChain LatchedIndex
begin

text \<open>
  The invariant that ties index, chains and logical log together, and the steps the operations of the store are made of:
  an in-place write, the append of a record at the head of its chain, the sealing of the record it replaces.
  \<open>cur ix R key\<close> is the newest record of a key: what the store holds for it.
\<close>

definition cur :: "hash_index \<Rightarrow> reclog \<Rightarrow> bytes \<Rightarrow> rec option" where
  "cur ix R key =
     (case index_lookup ix (hash64 key) of None \<Rightarrow> None
      | Some a \<Rightarrow> Option.bind (newest R (unat a) key) R)"

definition cur_addr :: "hash_index \<Rightarrow> reclog \<Rightarrow> bytes \<Rightarrow> nat option" where
  "cur_addr ix R key = Option.bind (index_lookup ix (hash64 key)) (\<lambda>a. newest R (unat a) key)"

definition heads_ok :: "hash_index \<Rightarrow> reclog \<Rightarrow> bool" where
  "heads_ok ix R \<longleftrightarrow> index_wf ix \<and> chain_ok R \<and> (\<forall>h a. index_lookup ix h = Some a \<longrightarrow> chain_start R (unat a))
     \<and> (\<forall>key r. cur ix R key = Some r \<longrightarrow> \<not> is_closed (r_info r))"

definition tiled :: "hlog \<Rightarrow> reclog \<Rightarrow> bool" where
  \<comment> \<open>the records of a page follow each other without a gap, from the page header up to the tail\<close>
  "tiled l R \<longleftrightarrow> begin_address l = FIRST_VALID_ADDRESS
     \<and> (\<forall>a \<in> dom R. page_offset l a = PAGE_HEADER_SIZE \<or> (\<exists>b r. R b = Some r \<and> b + rec_size r = a \<and> page_of l b = page_of l a))
     \<and> (true_tail l = FIRST_VALID_ADDRESS \<or> snd (unpack (tail l)) = page_size l
        \<or> (\<exists>b r. R b = Some r \<and> b + rec_size r = true_tail l \<and> page_of l b = tail_page l))"

definition published :: "hash_index \<Rightarrow> reclog \<Rightarrow> bool" where
  \<comment> \<open>every record is valid and at or below the head of its chain, and a head is a record of its own chain\<close>
  "published ix R \<longleftrightarrow> (\<forall>a r. R a = Some r \<longrightarrow> is_valid (r_info r) \<and> (\<exists>h. index_lookup ix (hash64 (r_key r)) = Some h \<and> a \<le> unat h))
     \<and> (\<forall>h a r. index_lookup ix h = Some a \<longrightarrow> R (unat a) = Some r \<longrightarrow> same_entry ix h (hash64 (r_key r)))"

definition data_base :: "hash_index \<Rightarrow> hlog \<Rightarrow> reclog \<Rightarrow> bool" where
  "data_base ix l R \<longleftrightarrow> heads_ok ix R \<and> log_inv l R \<and> (\<forall>a \<in> dom R. begin_address l \<le> a)
     \<and> begin_address l \<le> head_address l \<and> tiled l R"

definition data_ok :: "hash_index \<Rightarrow> hlog \<Rightarrow> reclog \<Rightarrow> bool" where
  \<comment> \<open>between the steps of an operation the record under construction is not published\<close>
  "data_ok ix l R \<longleftrightarrow> data_base ix l R \<and> published ix R"

definition store_inv :: "store \<Rightarrow> reclog \<Rightarrow> bool" where
  \<comment> \<open>no checkpoint is under way\<close>
  "store_inv st R \<longleftrightarrow> data_ok (st_index st) (st_log st) R \<and> phase (system_state st) = Rest"

lemma cur_addr_cur: "cur ix R key = Option.bind (cur_addr ix R key) R"
  by (simp add: cur_def cur_addr_def split: option.splits)

lemma cur_addrD:
  assumes "cur_addr ix R key = Some a"
  shows "\<exists>r. R a = Some r \<and> r_key r = key \<and> cur ix R key = Some r"
  using assms newest_SomeD by (fastforce simp: cur_addr_def cur_addr_cur bind_eq_Some_conv)

lemma heads_same: "heads_ok ix R \<Longrightarrow> same_index ix ix' \<Longrightarrow> heads_ok ix' R"
  by (simp add: heads_ok_def cur_def same_index_lookup) (simp add: same_index_def)

lemma published_same: "published ix R \<Longrightarrow> same_index ix ix' \<Longrightarrow> published ix' R"
  by (simp add: published_def same_index_lookup) (simp add: same_index_def same_entry_def)

lemma data_same: "data_ok ix l R \<Longrightarrow> same_index ix ix' \<Longrightarrow> data_ok ix' l R"
  using heads_same published_same by (auto simp: data_ok_def data_base_def)

lemma cur_same: "same_index ix ix' \<Longrightarrow> cur ix' R key = cur ix R key"
  by (simp add: cur_def same_index_lookup)

lemma cur_addr_same: "same_index ix ix' \<Longrightarrow> cur_addr ix' R key = cur_addr ix R key"
  by (simp add: cur_addr_def same_index_lookup)

lemma tiled_frame:
  assumes "page_bits l' = page_bits l" "tail l' = tail l" "begin_address l' = begin_address l"
  shows "tiled l' R = tiled l R"
  using assms by (simp add: tiled_def page_offset_def page_of_def page_size_def true_tail_def tail_page_def)

lemma tiled_update:
  assumes r: "R a = Some r" and sz: "rec_size r' = rec_size r" and t: "tiled l R"
  shows "tiled l (R(a \<mapsto> r'))"
proof -
  have e: "(\<exists>b s. (R(a \<mapsto> r')) b = Some s \<and> b + rec_size s = x \<and> page_of l b = q) \<longleftrightarrow> (\<exists>b s. R b = Some s \<and> b + rec_size s = x \<and> page_of l b = q)"
    for x q using r sz by (metis fun_upd_apply option.sel)
  have d: "dom (R(a \<mapsto> r')) = dom R" using r by auto
  show ?thesis unfolding tiled_def e d using t by (simp add: tiled_def)
qed

text \<open>A record placed where the log allocates next.\<close>

lemma tiled_insert:
  assumes t: "tiled l R" and wf: "hlog_wf l" and g: "page_bits l' = page_bits l" "begin_address l' = begin_address l"
    and new: "R a = None" and a: "page_offset l a = PAGE_HEADER_SIZE \<or> a = true_tail l \<and> page_of l a = tail_page l"
    and tl: "true_tail l' = a + rec_size r" "tail_page l' = page_of l a"
  shows "tiled l' (R(a \<mapsto> r))"
proof -
  have eq: "page_offset l' x = page_offset l x" "page_of l' x = page_of l x" "page_size l' = page_size l" for x
    using g by (simp_all add: page_offset_def page_of_def page_size_def)
  have at: "page_offset l a = PAGE_HEADER_SIZE \<or> (\<exists>b s. R b = Some s \<and> b + rec_size s = a \<and> page_of l b = page_of l a)"
  proof (cases "page_offset l a = PAGE_HEADER_SIZE")
    case False
    then have tt: "a = true_tail l" "page_of l a = tail_page l" using a by auto
    obtain p off where u: "unpack (tail l) = (p, off)" by (cases "unpack (tail l)")
    have "a = p * page_size l + off" "page_of l a = p" using tt u by (simp_all add: true_tail_def tail_page_def)
    then have "page_offset l a = off" "off < page_size l" using page_of_bounds(3,4) [of l a] by simp_all
    moreover have "a \<noteq> FIRST_VALID_ADDRESS"
    proof
      assume "a = FIRST_VALID_ADDRESS"
      moreover have "512 \<le> page_size l" using wf page_size_range by (simp add: hlog_wf_def)
      ultimately have "page_of l a = 0" by (intro page_ofI) (simp_all add: FIRST_VALID_ADDRESS_def PAGE_HEADER_SIZE_def)
      then show False using False page_of_bounds(3) [of l a] \<open>a = FIRST_VALID_ADDRESS\<close> by (simp add: FIRST_VALID_ADDRESS_def)
    qed
    ultimately show ?thesis using t tt False u by (auto simp: tiled_def)
  qed simp
  have "page_offset l x = PAGE_HEADER_SIZE \<or> (\<exists>b s. (R(a \<mapsto> r)) b = Some s \<and> b + rec_size s = x \<and> page_of l b = page_of l x)"
    if "x \<in> dom (R(a \<mapsto> r))" for x
  proof (cases "x = a")
    case True
    with at new show ?thesis by (metis fun_upd_other option.distinct(1))
  next
    case False
    then have "x \<in> dom R" using that by simp
    then show ?thesis using t new by (metis (no_types) fun_upd_other option.distinct(1) tiled_def)
  qed
  moreover have "\<exists>b s. (R(a \<mapsto> r)) b = Some s \<and> b + rec_size s = true_tail l' \<and> page_of l b = tail_page l'" using tl by (intro exI [of _ a]) simp
  ultimately show ?thesis using t g(2) by (simp add: tiled_def eq del: fun_upd_apply)
qed

subsection \<open>In-place writes\<close>

definition rec_keeps :: "rec \<Rightarrow> rec \<Rightarrow> bool" where
  \<comment> \<open>what a callback that may write a record has to leave alone\<close>
  "rec_keeps r r' \<longleftrightarrow> rec_wf r' \<and> r_info r' = r_info r \<and> r_key r' = r_key r \<and> length (r_buf r') = length (r_buf r)
     \<and> (r_exp r' = None) = (r_exp r = None)"

lemma rec_keeps_refl: "rec_wf r \<Longrightarrow> rec_keeps r r"
  by (simp add: rec_keeps_def)

lemma rec_keeps_links: "rec_keeps r r' \<Longrightarrow> same_links r r' \<and> length (encode r') = length (encode r) \<and> rec_wf r'"
  by (simp add: rec_keeps_def same_links_def length_encode)

lemma set_info_layout: "length (encode (set_info r f)) = length (encode r)" "rec_wf (set_info r f) = rec_wf r"
  "r_key (set_info r f) = r_key r" "r_info (set_info r f) = f (r_info r)" "r_value (set_info r f) = r_value r"
  "expiration (set_info r f) = expiration r" "rec_size (set_info r f) = rec_size r"
  by (simp_all add: set_info_def length_encode rec_wf_def r_value_def expiration_def rec_size_def)

lemma modify_info_inv:
  assumes inv: "log_inv l R" and r: "R a = Some r" and h: "head_address l \<le> a"
  shows "modify_info l a f = set_record_at l a (set_info r f)"
proof -
  let ?m = "page_data l (page_of l a)" and ?o = "page_offset l a"
  have at: "rec_at ?m ?o r" using log_invD(5) [OF inv r h] by (simp add: in_memory_def)
  have "rec_at (rp_store_info ?m ?o w) ?o (r\<lparr>r_info := w\<rparr>)" for w by (rule rec_at_store_info [OF at])
  from rec_at_mem [OF this]
  have "rp_store_info ?m ?o w = splice_at ?m ?o (encode (r\<lparr>r_info := w\<rparr>))" for w
  proof -
    have fit: "?o + length (encode r) \<le> length ?m" using at by (simp add: rec_at_def)
    have e: "encode (r\<lparr>r_info := w\<rparr>) = to_le 8 w @ drop 8 (encode r)" by (simp add: encode_def)
    have "splice_at ?m ?o (encode (r\<lparr>r_info := w\<rparr>)) = splice_at (splice_at ?m ?o (encode r)) ?o (to_le 8 w)"
      using splice_inner [of ?o "[]" "to_le 8 (r_info r)" "drop 8 (encode r)" ?m "to_le 8 w"] fit e
      by (simp add: encode_def)
    then show ?thesis using rec_at_mem [OF at] by (simp add: rp_store_info_def)
  qed
  then show ?thesis
    using rec_at_header(1) [OF at] by (simp add: modify_info_def set_record_at_def Let_def set_info_def)
qed

lemma log_ext_set_record: "log_ext l (set_record_at l a r)"
  by (simp add: set_record_at_def log_ext_def set_page_data_le)

lemma cur_addr_update:
  "R a = Some r \<Longrightarrow> same_links r r' \<Longrightarrow> cur_addr ix (R(a \<mapsto> r')) key = cur_addr ix R key"
  by (simp add: cur_addr_def newest_update)

lemma cur_update:
  assumes "R a = Some r" and "same_links r r'"
  shows "cur ix (R(a \<mapsto> r')) key = (if cur_addr ix R key = Some a then Some r' else cur ix R key)"
  using assms by (auto simp: cur_addr_cur cur_addr_update split: bind_splits)

text \<open>Every key's own record: the address determines the key.\<close>

lemma cur_addr_key: "cur_addr ix R key = Some a \<Longrightarrow> R a = Some r \<Longrightarrow> r_key r = key"
  using cur_addrD by fastforce

lemma data_update:
  assumes ok: "data_base ix l R" and r: "R a = Some r" and h: "head_address l \<le> a"
    and k: "same_links r r'" "length (encode r') = length (encode r)" "rec_wf r'"
    and cl: "cur_addr ix R (r_key r) = Some a \<Longrightarrow> \<not> is_closed (r_info r')"
    and dev: "a < flushed_until_address l \<Longrightarrow> unsealed r' = unsealed r"
  shows "data_base ix (set_record_at l a r') (R(a \<mapsto> r'))"
    and "cur ix (R(a \<mapsto> r')) key = (if cur_addr ix R key = Some a then Some r' else cur ix R key)"
    and "cur_addr ix (R(a \<mapsto> r')) key = cur_addr ix R key"
proof -
  have rs: "rec_size r' = rec_size r" using k(2) by (simp add: rec_size_def)
  have inv: "log_inv l R" and hd: "heads_ok ix R" and td: "tiled l R" and bg: "\<forall>a \<in> dom R. begin_address l \<le> a" "begin_address l \<le> head_address l"
    using ok by (auto simp: data_base_def)
  show c: "cur ix (R(a \<mapsto> r')) key = (if cur_addr ix R key = Some a then Some r' else cur ix R key)" for key
    by (rule cur_update [where R = R and a = a, OF r k(1)])
  show "cur_addr ix (R(a \<mapsto> r')) key = cur_addr ix R key" by (rule cur_addr_update [where R = R and a = a, OF r k(1)])
  have "log_inv (set_record_at l a r') (R(a \<mapsto> r'))" using dev by (intro log_inv_update [OF inv r h k(3,2)])
  moreover have "heads_ok ix (R(a \<mapsto> r'))"
  proof -
    have op: "\<not> is_closed (r_info x)" if "cur ix (R(a \<mapsto> r')) key = Some x" for key x
      using that c [of key] cl cur_addr_key [of ix R key a r] r hd by (auto simp: heads_ok_def split: if_splits)
    show ?thesis
      unfolding heads_ok_def using hd chain_ok_update [where R = R and a = a, OF _ r k(1)] op
      by (auto simp: heads_ok_def chain_start_def)
  qed
  ultimately show "data_base ix (set_record_at l a r') (R(a \<mapsto> r'))"
    using bg r tiled_update [where R = R and a = a, OF r _ td, of r'] rs by (auto simp: data_base_def set_record_at_def tiled_frame [of "set_page_data l _ _"])
qed

lemma data_update_ok:
  assumes ok: "data_ok ix l R" and r: "R a = Some r" and h: "head_address l \<le> a"
    and k: "same_links r r'" "length (encode r') = length (encode r)" "rec_wf r'" and v: "is_valid (r_info r')"
    and cl: "cur_addr ix R (r_key r) = Some a \<Longrightarrow> \<not> is_closed (r_info r')"
    and dev: "a < flushed_until_address l \<Longrightarrow> unsealed r' = unsealed r"
  shows "data_ok ix (set_record_at l a r') (R(a \<mapsto> r'))"
proof -
  have b: "data_base ix l R" and p: "published ix R" using ok by (auto simp: data_ok_def)
  have "published ix (R(a \<mapsto> r'))" using p r v k(1) by (auto simp: published_def same_links_def)
  with data_update(1) [where R = R and a = a, OF b r h k cl dev] show ?thesis by (simp add: data_ok_def)
qed

subsection \<open>Appending a record\<close>

lemma chain_start_below: "log_inv l R \<Longrightarrow> chain_start R a \<Longrightarrow> a < max FIRST_VALID_ADDRESS (true_tail l)"
proof (cases "a < FIRST_VALID_ADDRESS")
  case False
  assume inv: "log_inv l R" and "chain_start R a"
  with False obtain r where "R a = Some r" by (auto simp: chain_start_def)
  from log_invD(3) [OF inv this] rec_size_ge(1) [of r] show ?thesis by (auto simp: rec_placed_def)
qed simp

lemma true_tail_ge: "hlog_wf l \<Longrightarrow> FIRST_VALID_ADDRESS \<le> true_tail l"
  by (auto simp: hlog_wf_def tail_ok_def true_tail_def FIRST_VALID_ADDRESS_def)

lemma cur_insert:
  assumes ok: "data_base ix l R" and n: "true_tail l \<le> n"
  shows "cur_addr ix (R(n \<mapsto> r)) key = cur_addr ix R key" and "cur ix (R(n \<mapsto> r)) key = cur ix R key"
proof -
  have inv: "log_inv l R" and st: "\<And>h a. index_lookup ix h = Some a \<Longrightarrow> chain_start R (unat a)"
    using ok by (auto simp: data_base_def heads_ok_def)
  have lt: "unat a < n" if "index_lookup ix h = Some a" for h a
    using chain_start_below [OF inv st [OF that]] n true_tail_ge [OF log_invD(1) [OF inv]] by simp
  then show a: "cur_addr ix (R(n \<mapsto> r)) key = cur_addr ix R key"
    by (auto simp: cur_addr_def newest_insert split: bind_splits option.splits)
  have "b < n" if "cur_addr ix R key = Some b" for b
    using that lt newest_SomeD by (fastforce simp: cur_addr_def bind_eq_Some_conv)
  then show "cur ix (R(n \<mapsto> r)) key = cur ix R key"
    unfolding cur_addr_cur a by (cases "cur_addr ix R key") auto
qed

lemma init_record_inv:
  assumes inv: "log_inv l R" and ro: "read_only_address l \<le> a" and top: "\<And>x y. R x = Some y \<Longrightarrow> x + rec_size y \<le> a"
    and reg: "page_of l a * page_size l + PAGE_HEADER_SIZE \<le> a"
      "a + si_total_size sz \<le> page_of l a * page_size l + page_size l" "a + si_total_size sz \<le> true_tail l"
    and key: "si_key_len sz = length key" "length key < 2 ^ 32" "si_value_cap sz < 2 ^ 32"
  shows "\<exists>buf. length buf = si_value_cap sz
    \<and> (let r0 = rec_init (of_nat prev) innew sz key buf in
       init_record l a prev innew sz key = set_record_at l a r0 \<and> log_inv (set_record_at l a r0) (R(a \<mapsto> r0))
       \<and> rec_wf r0 \<and> rec_size r0 = si_total_size sz)"
proof -
  let ?m = "page_data l (page_of l a)" and ?o = "page_offset l a"
  let ?buf = "slice_at ?m (?o + (FIXED_HEADER_SIZE + (if si_has_expiration sz then EXPIRATION_SIZE else 0)) + length key) (si_value_cap sz)"
  let ?r = "rec_init (of_nat prev) innew sz key ?buf"
  have sh: "shape_ok l" by (rule log_invD(10) [OF inv])
  have o: "?o + si_total_size sz \<le> length ?m" "PAGE_HEADER_SIZE \<le> ?o"
    using reg page_of_bounds(3) [of l a] page_data_length [OF sh] by auto
  note ri = rec_at_init [OF o(1) key(1,2,3), of "of_nat prev" innew]
  have wf: "rec_wf ?r" using ri(1) by (simp add: rec_at_def)
  have "FIXED_HEADER_SIZE + (if si_has_expiration sz then EXPIRATION_SIZE else 0) + length key + si_value_cap sz \<le> si_total_size sz"
    using align8_ge key(1) by (simp add: si_total_size_def)
  then have "length ?buf = si_value_cap sz" unfolding length_slice using o(1) by simp
  moreover have "init_record l a prev innew sz key = set_record_at l a ?r"
    using ri(3) by (simp add: init_record_def set_record_at_def Let_def)
  moreover have "rec_placed l a ?r"
    using wf ri(2) o reg(3) page_data_length [OF sh] by (simp add: rec_placed_def)
  then have "log_inv (set_record_at l a ?r) (R(a \<mapsto> ?r))" by (rule log_inv_insert [OF inv _ ro top])
  ultimately show ?thesis using wf ri(2) unfolding Let_def by blast
qed

lemma rec_init_reads:
  "r_key (rec_init p innew sz key buf) = key" "r_buf (rec_init p innew sz key buf) = buf"
  "prev_addr (rec_init p innew sz key buf) = unat (take_bit 48 p)"
  "\<not> is_valid (r_info (rec_init p innew sz key buf))"
  using previous_address_update(7) [of "info_new p innew"] info_new_reads(1) [of p innew]
  by (simp_all add: rec_init_def prev_addr_def info_simps) (simp add: previous_address_take_bit)

lemma allocate_record_inv:
  assumes dok: "data_ok (st_index st) (st_log st) R" and p: "chain_start R prev" "prev < 2 ^ 48"
    and sz: "si_key_len sz = length key" "length key < 2 ^ 32" "si_value_cap sz < 2 ^ 32"
      "si_total_size sz + PAGE_HEADER_SIZE \<le> page_size (st_log st)"
  obtains (later) l' where "allocate_record st s sz key prev = Some (None, st\<lparr>st_log := l'\<rparr>)"
      "data_ok (st_index st) l' R" "log_ext (st_log st) l'" "tail_page l' = tail_page (st_log st)" "pushed (st_log st) l'"
  | (ok) a l' buf r0 where "r0 = rec_init (of_nat prev) (ss_in_new_version (s_state s)) sz key buf"
      "length buf = si_value_cap sz" "allocate_record st s sz key prev = Some (Some a, st\<lparr>st_log := l'\<rparr>)"
      "data_base (st_index st) l' (R(a \<mapsto> r0))" "log_ext (st_log st) l'" "R a = None"
      "true_tail (st_log st) \<le> a" "a \<le> true_tail (st_log st) + page_size (st_log st)" "read_only_address l' \<le> a"
      "rec_wf r0" "prev_addr r0 = prev" "\<forall>k. cur (st_index st) (R(a \<mapsto> r0)) k = cur (st_index st) R k"
      "\<forall>k. cur_addr (st_index st) (R(a \<mapsto> r0)) k = cur_addr (st_index st) R k"
      "guarded (st_log st) \<Longrightarrow> closed_until_address l' \<le> head_address (st_log st)"
proof -
  let ?l = "st_log st" and ?sz = "si_total_size sz"
  have inv: "log_inv ?l R" and hd: "heads_ok (st_index st) R"
    and bg: "\<forall>a \<in> dom R. begin_address ?l \<le> a" "begin_address ?l \<le> head_address ?l"
    and td: "tiled ?l R" and pb: "published (st_index st) R" and db: "data_base (st_index st) ?l R"
    using dok by (auto simp: data_ok_def data_base_def)
  have wf: "hlog_wf ?l" by (rule log_invD(1) [OF inv])
  have pos: "0 < ?sz" using align8_ge [of "FIXED_HEADER_SIZE + (if si_has_expiration sz then EXPIRATION_SIZE else 0) + si_key_len sz + si_value_cap sz"]
    by (simp add: si_total_size_def layout_sizes)
  from inv pos sz(4) show thesis
  proof (cases rule: log_inv_allocate)
    case (later l')
    have "allocate_record st s sz key prev = Some (None, st\<lparr>st_log := l'\<rparr>)"
      using later(1) by (subst allocate_record.simps) (simp add: try_allocate_retry_now_def)
    moreover have "data_ok (st_index st) l' R"
    proof -
      have "tiled l' R" using td later(3,5) by (simp add: tiled_def log_ext_def page_offset_def page_of_def page_size_def)
      then show ?thesis using hd later(2,3) bg pb by (auto simp: data_ok_def data_base_def log_ext_def marks_le_def)
    qed
    ultimately show thesis using that(1) later(3,4,6) by blast
  next
    case (ok a l')
    note al = ok(4) [unfolded allocated_def]
    have ge: "page_of l' a = page_of ?l a" "page_size l' = page_size ?l" using log_ext_geometry [OF ok(3)] by auto
    have lo: "prev < a" using chain_start_below [OF inv p(1)] al true_tail_ge [OF wf] by auto
    have top: "x + rec_size y \<le> a" if "R x = Some y" for x y
      using log_invD(3) [OF inv that] al by (auto simp: rec_placed_def)
    have "\<exists>buf. length buf = si_value_cap sz \<and> (let r0 = rec_init (of_nat prev) (ss_in_new_version (s_state s)) sz key buf in
       init_record l' a prev (ss_in_new_version (s_state s)) sz key = set_record_at l' a r0
       \<and> log_inv (set_record_at l' a r0) (R(a \<mapsto> r0)) \<and> rec_wf r0 \<and> rec_size r0 = ?sz)"
      by (rule init_record_inv [OF ok(2,5) top]) (use al ge sz in auto)
    then obtain buf r0 where r0: "r0 = rec_init (of_nat prev) (ss_in_new_version (s_state s)) sz key buf" "length buf = si_value_cap sz"
      "init_record l' a prev (ss_in_new_version (s_state s)) sz key = set_record_at l' a r0"
      "log_inv (set_record_at l' a r0) (R(a \<mapsto> r0))" "rec_wf r0" "rec_size r0 = ?sz" unfolding Let_def by blast
    have none: "R a = None"
    proof (rule ccontr)
      assume "R a \<noteq> None"
      then obtain y where "R a = Some y" by auto
      from top [OF this] rec_size_ge(1) [of y] show False by simp
    qed
    have pr: "prev_addr r0 = prev" using p(2) by (simp add: r0(1) rec_init_reads take_bit_48_of_nat unat_of_nat_u64)
    note ci = cur_insert [OF db, of a r0]
    have fv: "FIRST_VALID_ADDRESS \<le> a" using al true_tail_ge [OF wf] by simp
    have ch: "chain_ok (R(a \<mapsto> r0))" using hd fv none lo pr p(1) by (intro chain_ok_insert) (auto simp: heads_ok_def)
    have hd': "heads_ok (st_index st) (R(a \<mapsto> r0))"
      unfolding heads_ok_def using hd ci(2) al ch by (auto simp: heads_ok_def chain_start_def)
    let ?l' = "set_record_at l' a r0"
    have bl: "begin_address ?l' = begin_address ?l" "head_address ?l \<le> head_address ?l'"
      using ok(3) log_ext_set_record [of l' a r0] by (auto simp: log_ext_def marks_le_def)
    have "head_address ?l \<le> true_tail ?l" using wf by (auto simp: hlog_wf_def watermarks_ok_def)
    have "tiled ?l' (R(a \<mapsto> r0))"
      using al r0(6) ok(3,8,9) by (intro tiled_insert [OF td wf _ bl(1) none]) (simp_all add: set_record_at_def log_ext_def)
    then have d: "data_base (st_index st) ?l' (R(a \<mapsto> r0))"
      using hd' r0(4) bg bl al \<open>head_address ?l \<le> true_tail ?l\<close> by (auto simp: data_base_def)
    have "allocate_record st s sz key prev = Some (Some a, st\<lparr>st_log := ?l'\<rparr>)"
      using ok(1) lo r0(3) by (subst allocate_record.simps) (simp add: try_allocate_retry_now_def)
    moreover have "a \<le> true_tail ?l + page_size ?l" by (rule ok(6))
    moreover have "read_only_address ?l' \<le> a" using ok(5) by (simp add: set_record_at_def)
    moreover have "guarded ?l \<Longrightarrow> closed_until_address ?l' \<le> head_address ?l" using ok(7) by (simp add: set_record_at_def)
    ultimately show thesis
      using that(2) [OF r0(1,2) _ d log_ext_trans [OF ok(3) log_ext_set_record] none] al r0(5) pr ci by blast
  qed
qed

end
