(* ===== verification/StorePublish.thy ===== *)
theory StorePublish
  imports StoreInv
begin

text \<open>
  Publishing a record: the compare-and-swap of the index entry puts it at the head of its chain, so it becomes the newest
  record of its key and every other key, also one that shares the chain, keeps its own. Around it the append of
  the copying paths: allocate, fill, publish, seal the record it replaces.
\<close>

definition fresh_rec :: "bytes \<Rightarrow> size_info \<Rightarrow> rec \<Rightarrow> bool" where
  \<comment> \<open>the record a callback gets to fill: no value yet, room as asked for\<close>
  "fresh_rec key sz r \<longleftrightarrow> rec_wf r \<and> r_key r = key \<and> length (r_buf r) = si_value_cap sz \<and> r_value_len r = 0
     \<and> r_exp r = (if si_has_expiration sz then Some 0 else None) \<and> \<not> is_tombstone (r_info r)"

definition fills :: "rec \<Rightarrow> rec \<Rightarrow> bool" where
  "fills r r' \<longleftrightarrow> same_links r r' \<and> length (encode r') = length (encode r) \<and> rec_wf r'"

definition addr_room :: "hlog \<Rightarrow> bool" where
  \<comment> \<open>addresses of this page and the next fit the 48 bits of an index entry\<close>
  "addr_room l \<longleftrightarrow> (tail_page l + 2) * page_size l < 2 ^ 48"

lemma true_tail_page: "hlog_wf l \<Longrightarrow> true_tail l \<le> (tail_page l + 1) * page_size l"
  by (auto simp: hlog_wf_def tail_ok_def true_tail_def tail_page_def split: prod.splits)

lemma index_lookup_slot: "find_tag ix h = Some (Some s) \<Longrightarrow> index_lookup ix h = Some (he_address (slot_load ix s))"
  by (simp add: index_lookup_def)

lemma unat_he_address: "unat (he_address w) < 2 ^ 48"
proof -
  have "unat (take_bit 48 w) = take_bit 48 (unat w)" by (rule unsigned_take_bit_eq)
  then show ?thesis by (simp add: he_address_take_bit take_bit_eq_mod)
qed

lemma publish_latches:
  assumes wf: "index_wf ix" and f: "find_tag ix h = Some (Some s)" and a: "a \<noteq> 0" "take_bit 48 a = a"
  shows "same_latches ix (index_publish ix s a)"
proof -
  have tg: "sr_tag s = tag_of h" by (rule find_tagD [OF wf f])
  have p: "index_publish ix s a = slot_store ix s (he_make (tag_of h) a False)"
    by (simp add: index_publish_def try_cas_def tg)
  have "take_bit 48 a \<noteq> 0" using a by simp
  from find_tag_store(4) [OF wf f he_make_wf [OF this]] show ?thesis
    unfolding p by (intro same_latchesI) (simp_all add: slot_store_def)
qed

lemma publish_cur:
  assumes wf: "index_wf ix" and f: "find_tag ix (hash64 key) = Some (Some s)"
    and ch: "chain_ok R" and r: "R a = Some r" "r_key r = key" "prev_addr r = unat (he_address (slot_load ix s))"
    and a: "a \<noteq> 0" "a < 2 ^ 48"
  shows "cur_addr (index_publish ix s (of_nat a)) R k = (if k = key then Some a else cur_addr ix R k)"
proof -
  let ?a = "of_nat a :: u64"
  have u: "unat ?a = a" using a(2) by (simp add: unat_of_nat_u64)
  have ok: "?a \<noteq> 0 \<and> take_bit 48 ?a = ?a" using a u by (auto simp: take_bit_48_of_nat)
  from tix.publish [OF wf f ok] have lk: "index_lookup (index_publish ix s ?a) h' =
      (if same_entry ix (hash64 key) h' then Some ?a else index_lookup ix h')" for h' by blast
  have se: "index_lookup ix (hash64 k) = Some (he_address (slot_load ix s))" if "same_entry ix (hash64 key) (hash64 k)"
  proof -
    have "find_tag ix (hash64 k) = find_tag ix (hash64 key)"
      using that by (simp add: find_tag_eq [OF wf] same_entry_def)
    then show ?thesis using f by (simp add: index_lookup_slot)
  qed
  show ?thesis
  proof (cases "same_entry ix (hash64 key) (hash64 k)")
    case True
    then show ?thesis
      using lk [of "hash64 k"] se [OF True] newest_step [OF ch r(1), of k] r(2,3) u by (auto simp: cur_addr_def)
  next
    case False
    then have "k \<noteq> key" by (auto simp: same_entry_def)
    then show ?thesis using lk [of "hash64 k"] False by (simp add: cur_addr_def)
  qed
qed

lemma publish_heads:
  assumes hd: "heads_ok ix R" and f: "find_tag ix (hash64 key) = Some (Some s)"
    and r: "R a = Some r" "r_key r = key" "prev_addr r = unat (he_address (slot_load ix s))" "\<not> is_closed (r_info r)"
    and a: "a \<noteq> 0" "a < 2 ^ 48"
  shows "heads_ok (index_publish ix s (of_nat a)) R"
proof -
  let ?a = "of_nat a :: u64" and ?ix = "index_publish ix s (of_nat a)"
  have wf: "index_wf ix" and ch: "chain_ok R" using hd by (auto simp: heads_ok_def)
  have u: "unat ?a = a" using a(2) by (simp add: unat_of_nat_u64)
  have ok: "?a \<noteq> 0 \<and> take_bit 48 ?a = ?a" using a u by (auto simp: take_bit_48_of_nat)
  note p = tix.publish [OF wf f ok]
  have st: "chain_start R (unat b)" if "index_lookup ?ix h = Some b" for h b
    using p that hd u r(1) by (fastforce simp: heads_ok_def chain_start_def split: if_splits)
  have "\<not> is_closed (r_info x)" if c: "cur ?ix R k = Some x" for k x
  proof (cases "k = key")
    case True
    then show ?thesis using c publish_cur [OF wf f ch r(1-3) a, of k] r(1,4) by (simp add: cur_addr_cur)
  next
    case False
    then have "cur ix R k = Some x" using c publish_cur [OF wf f ch r(1-3) a, of k] by (simp add: cur_addr_cur)
    then show ?thesis using hd by (auto simp: heads_ok_def)
  qed
  with p ch st show ?thesis unfolding heads_ok_def by blast
qed

lemma publish_published:
  assumes wf: "index_wf ix" and f: "find_tag ix (hash64 key) = Some (Some s)"
    and a: "a \<noteq> 0" "a < 2 ^ 48" and r: "r_key r = key" "is_valid (r_info r)"
    and old: "published ix R" and top: "\<And>x. x \<in> dom R \<Longrightarrow> x \<le> a" and low: "\<And>h b. index_lookup ix h = Some b \<Longrightarrow> unat b < a"
  shows "published (index_publish ix s (of_nat a)) (R(a \<mapsto> r))"
proof -
  let ?a = "of_nat a :: u64"
  have u: "unat ?a = a" using a(2) by (simp add: unat_of_nat_u64)
  have ok: "?a \<noteq> 0 \<and> take_bit 48 ?a = ?a" using a u by (auto simp: take_bit_48_of_nat)
  from tix.publish [OF wf f ok] have lk: "index_lookup (index_publish ix s ?a) h' =
      (if same_entry ix (hash64 key) h' then Some ?a else index_lookup ix h')" for h' by blast
  have se: "same_entry (index_publish ix s ?a) = same_entry ix" using tix.publish [OF wf f ok] by blast
  show ?thesis
    unfolding published_def se
  proof (intro conjI allI impI)
    fix h b y assume h: "index_lookup (index_publish ix s ?a) h = Some b" and y: "(R(a \<mapsto> r)) (unat b) = Some y"
    show "same_entry ix h (hash64 (r_key y))"
    proof (cases "same_entry ix (hash64 key) h")
      case True
      then have "y = r" using h y lk [of h] u by simp
      with True r(1) show ?thesis by (simp add: same_entry_def)
    next
      case False
      then have b: "index_lookup ix h = Some b" using h lk [of h] by simp
      then have "R (unat b) = Some y" using low [OF b] y by (simp split: if_splits)
      with b old show ?thesis by (auto simp: published_def)
    qed
  next
    fix x y assume xy: "(R(a \<mapsto> r)) x = Some y"
    have "x \<le> a" using xy top by (auto split: if_splits)
    moreover have "is_valid (r_info y)" using xy old r(2) by (auto simp: published_def split: if_splits)
    moreover have "\<exists>h. index_lookup ix (hash64 (r_key y)) = Some h \<and> x \<le> unat h" if "\<not> same_entry ix (hash64 key) (hash64 (r_key y))"
    proof -
      have "x \<noteq> a" using that xy r(1) by (auto simp: same_entry_def)
      then show ?thesis using xy old by (auto simp: published_def)
    qed
    ultimately have "is_valid (r_info y) \<and> (\<exists>h. index_lookup (index_publish ix s ?a) (hash64 (r_key y)) = Some h \<and> x \<le> unat h)"
      using lk [of "hash64 (r_key y)"] u by simp
    then show "is_valid (r_info y)" "\<exists>h. index_lookup (index_publish ix s ?a) (hash64 (r_key y)) = Some h \<and> x \<le> unat h" by auto
  qed
qed

subsection \<open>Append\<close>

lemma try_seal_unsealed: "unsealed (set_info r (\<lambda>w. snd (try_seal w))) = unsealed r"
proof -
  have "snd (try_seal w) AND NOT SEALED_BIT = w AND NOT SEALED_BIT" for w
    by (auto simp: try_seal_def intro!: bit_word_eqI simp: bit_simps)
  then show ?thesis by (simp add: unsealed_def set_info_def)
qed

lemma set_info_links:
  "previous_address (f (r_info r)) = previous_address (r_info r) \<Longrightarrow> same_links r (set_info r f)"
  by (simp add: same_links_def set_info_layout)

lemma modify_info_ext: "log_ext l (modify_info l a f)"
  by (simp add: modify_info_def Let_def log_ext_def set_page_data_le)

lemma seal_data:
  assumes dok: "data_ok ix l R" and r: "R b = Some r" and h: "head_address l \<le> b" and n: "cur_addr ix R (r_key r) \<noteq> Some b"
  shows "\<exists>R'. data_ok ix (modify_info l b (\<lambda>w. snd (try_seal w))) R' \<and> (\<forall>k. cur ix R' k = cur ix R k)"
proof -
  let ?r = "set_info r (\<lambda>w. snd (try_seal w))"
  have m: "modify_info l b (\<lambda>w. snd (try_seal w)) = set_record_at l b ?r"
    using dok by (intro modify_info_inv [where R = R and a = b, OF _ r h]) (simp add: data_ok_def data_base_def)
  have wf: "rec_wf ?r" using dok log_invD(3) [where R = R and a = b, OF _ r, of l] by (simp add: data_ok_def data_base_def rec_placed_def set_info_layout)
  have sl: "same_links r ?r" by (rule set_info_links) (simp add: info_simps)
  have "is_valid (r_info r)" using dok r by (auto simp: data_ok_def published_def)
  then have vl: "is_valid (r_info ?r)" by (simp add: set_info_layout info_simps)
  note u = data_update_ok [where R = R and a = b, OF dok r h sl set_info_layout(1) wf vl]
  have c: "cur ix (R(b \<mapsto> ?r)) k = (if cur_addr ix R k = Some b then Some ?r else cur ix R k)" for k
    by (rule cur_update [where R = R and a = b, OF r sl])
  have "cur_addr ix R k \<noteq> Some b" for k using n cur_addr_key [where R = R and a = b, OF _ r, of ix k] by blast
  then show ?thesis using u c n try_seal_unsealed unfolding m by (intro exI [of _ "R(b \<mapsto> ?r)"]) simp
qed

lemma seal_evicted:
  assumes dok: "data_ok ix l R" and r: "R b = Some r" and b: "closed_until_address l \<le> b" "b < head_address l"
  shows "data_ok ix (modify_info l b f) R"
proof -
  have inv: "log_inv l R" using dok by (simp add: data_ok_def data_base_def)
  have "log_inv (modify_info l b f) R"
    unfolding modify_info_def Let_def rp_store_info_def
    by (rule log_inv_evicted_write [OF inv b(1) r b(2)]) (use rec_size_ge(1) [of r] in simp)
  then show ?thesis using dok by (simp add: data_ok_def data_base_def modify_info_def Let_def tiled_frame [of "set_page_data l _ _"])
qed

lemma fill_data:
  assumes dok: "data_base ix l R" and r: "R a = Some r0" and ro: "read_only_address l \<le> a"
    and fl: "fills r0 r" and n: "\<And>k. cur_addr ix R k \<noteq> Some a"
    and pv: "previous_address (f (r_info r)) = previous_address (r_info r)"
  shows "data_base ix (modify_info (set_record_at l a r) a f) (R(a \<mapsto> set_info r f))"
    and "cur ix (R(a \<mapsto> set_info r f)) k = cur ix R k"
    and "cur_addr ix (R(a \<mapsto> set_info r f)) k = cur_addr ix R k"
    and "log_ext l (modify_info (set_record_at l a r) a f)"
proof -
  have w: "hlog_wf l" using dok log_invD(1) by (auto simp: data_base_def)
  then have h: "head_address l \<le> a" "flushed_until_address l \<le> a" using ro by (auto simp: hlog_wf_def watermarks_ok_def)
  note u = data_update [where R = R and a = a, OF dok r h(1) fl [unfolded fills_def, THEN conjunct1]]
  have d1: "data_base ix (set_record_at l a r) (R(a \<mapsto> r))"
    using u(1) fl n h(2) by (simp add: fills_def)
  have i1: "log_inv (set_record_at l a r) (R(a \<mapsto> r))" using d1 by (simp add: data_base_def)
  have h1: "head_address (set_record_at l a r) \<le> a" "flushed_until_address (set_record_at l a r) \<le> a" "(R(a \<mapsto> r)) a = Some r"
    using h by (simp_all add: set_record_at_def)
  have sl: "same_links r (set_info r f)" by (rule set_info_links [where f = f, OF pv])
  have wf: "rec_wf (set_info r f)" using fl by (simp add: fills_def set_info_layout)
  note v = data_update [where R = "R(a \<mapsto> r)" and a = a, OF d1 h1(3,1) sl set_info_layout(1) wf]
  have c1: "cur_addr ix (R(a \<mapsto> r)) k = cur_addr ix R k" for k
    using cur_addr_update [where R = R and a = a, OF r] fl by (simp add: fills_def)
  show "data_base ix (modify_info (set_record_at l a r) a f) (R(a \<mapsto> set_info r f))"
    unfolding modify_info_inv [OF i1 h1(3,1)] using v(1) h1(2) n c1 by simp
  show "cur ix (R(a \<mapsto> set_info r f)) k = cur ix R k"
    using v(2) [of k] h1(2) n c1 cur_update [where R = R and a = a, OF r, of r ix k] fl by (simp add: fills_def)
  show "cur_addr ix (R(a \<mapsto> set_info r f)) k = cur_addr ix R k" using v(3) [of k] h1(2) n c1 by simp
  show "log_ext l (modify_info (set_record_at l a r) a f)" by (rule log_ext_trans [OF log_ext_set_record modify_info_ext])
qed

text \<open>The record of a full append is the newest of its key; a log that is full for now changes nothing.\<close>

lemma append_record_inv:
  assumes dok: "data_ok (st_index st) (st_log st) R" and f: "find_tag (st_index st) (hash64 key) = Some (Some slot)"
    and en: "entry = slot_load (st_index st) slot" and room: "addr_room (st_log st)"
    and sz: "si_key_len sz = length key" "length key < 2 ^ 32" "si_value_cap sz < 2 ^ 32"
      "si_total_size sz + PAGE_HEADER_SIZE \<le> page_size (st_log st)"
    and fill: "\<And>r0. fresh_rec key sz r0 \<Longrightarrow> \<exists>r out'. fill r0 = Some (r, out') \<and> fills r0 r"
    and g: "guarded (st_log st)"
    and old: "\<And>b. old = Some b \<Longrightarrow> cur_addr (st_index st) R key = Some b \<and> head_address (st_log st) \<le> b"
  obtains (later) l' where "append_record st s slot entry key sz fill old status out = Some ((OpRetryLater, out), st\<lparr>st_log := l'\<rparr>)"
      "data_ok (st_index st) l' R" "log_ext (st_log st) l'" "tail_page l' = tail_page (st_log st)" "pushed (st_log st) l'"
  | (ok) ix' l' R' r0 r out' where
      "append_record st s slot entry key sz fill old status out = Some ((Done status, out'), st\<lparr>st_index := ix', st_log := l'\<rparr>)"
      "fresh_rec key sz r0" "fill r0 = Some (r, out')" "data_ok ix' l' R'" "log_ext (st_log st) l'"
      "same_latches (st_index st) ix'"
      "\<And>k. cur ix' R' k = (if k = key then Some (set_info r unseal_and_validate) else cur (st_index st) R k)"
proof -
  let ?ix = "st_index st"
  have hd: "heads_ok ?ix R" and inv: "log_inv (st_log st) R" and pb: "published ?ix R" using dok by (auto simp: data_ok_def data_base_def)
  have iwf: "index_wf ?ix" using hd by (simp add: heads_ok_def)
  have cs: "chain_start R (unat (he_address entry))"
    using hd index_lookup_slot [OF f] en by (auto simp: heads_ok_def)
  show thesis
  proof (cases rule: allocate_record_inv [where st = st and R = R and s = s, OF dok cs unat_he_address sz])
    case (1 l')
    then show thesis using later [of l'] by (simp add: append_record_def)
  next
    case (2 a l' buf r0)
    note al = this
    have i1: "log_inv l' (R(a \<mapsto> r0))" using al(4) by (simp add: data_base_def)
    have "hlog_wf l'" by (rule log_invD(1) [OF i1])
    then have h: "head_address l' \<le> a" using al(9) by (auto simp: hlog_wf_def watermarks_ok_def)
    have ra: "record_at l' a = r0" by (rule record_at_inv [OF i1 _ h]) simp
    have fr: "fresh_rec key sz r0"
      using al(1,2,10) by (simp add: fresh_rec_def rec_init_def info_simps)
    from fill [OF fr] obtain r out' where fl: "fill r0 = Some (r, out')" "fills r0 r" by blast
    have nc: "cur_addr ?ix (R(a \<mapsto> r0)) k \<noteq> Some a" for k
      using al(13) al(6) cur_addrD [of ?ix R k a] by auto
    let ?r = "set_info r unseal_and_validate"
    let ?R = "R(a \<mapsto> ?r)" and ?l = "modify_info (set_record_at l' a r) a unseal_and_validate"
    have ra1: "(R(a \<mapsto> r0)) a = Some r0" by simp
    note fd = fill_data [where R = "R(a \<mapsto> r0)" and a = a, OF al(4) ra1 al(9) fl(2) nc, of unseal_and_validate]
    have fd1: "data_base ?ix ?l ?R" "\<And>k. cur ?ix ?R k = cur ?ix R k" "\<And>k. cur_addr ?ix ?R k = cur_addr ?ix R k" "log_ext l' ?l"
      using fd al(12,13) by (simp_all add: info_simps)
    have a: "a \<noteq> 0" "a < 2 ^ 48"
    proof -
      have w: "hlog_wf (st_log st)" by (rule log_invD(1) [OF inv])
      show "a \<noteq> 0" using al(7) true_tail_ge [OF w] by (auto simp: FIRST_VALID_ADDRESS_def PAGE_HEADER_SIZE_def)
      show "a < 2 ^ 48" using al(8) true_tail_page [OF w] room by (auto simp: addr_room_def algebra_simps)
    qed
    have key: "r_key ?r = key" "prev_addr ?r = unat (he_address (slot_load ?ix slot))" "\<not> is_closed (r_info ?r)"
      using fl(2) al(11) fr en
      by (simp_all add: fills_def same_links_def set_info_layout fresh_rec_def prev_addr_def info_simps is_closed_def)
    let ?ix' = "index_publish ?ix slot (of_nat a)"
    have hd1: "heads_ok ?ix ?R" using fd1(1) by (simp add: data_base_def)
    have ch1: "chain_ok ?R" using hd1 by (simp add: heads_ok_def)
    have ap: "?R a = Some ?r" by simp
    have top: "x \<le> a" if "x \<in> dom R" for x
      using that log_invD(3) [OF inv, of x] al(7) by (fastforce simp: rec_placed_def)
    have low: "unat b < a" if "index_lookup ?ix h = Some b" for h b
      using chain_start_below [OF inv, of "unat b"] that hd al(7) true_tail_ge [OF log_invD(1) [OF inv]] by (auto simp: heads_ok_def)
    have vl: "is_valid (r_info ?r)" using key(3) by (simp add: is_closed_def)
    have pb': "published ?ix' ?R" by (rule publish_published [where r = ?r, OF iwf f a key(1) vl pb]) (use top low in auto)
    have d2: "data_ok ?ix' ?l ?R"
      using fd1(1) publish_heads [where R = ?R and a = a, OF hd1 f ap key a] pb'
      unfolding data_ok_def data_base_def by blast
    have c2: "cur_addr ?ix' ?R k = (if k = key then Some a else cur_addr ?ix R k)" for k
      using publish_cur [where R = ?R and a = a, OF iwf f ch1 ap key(1,2) a, of k] fd1(3) by simp
    have c3: "cur ?ix' ?R k = (if k = key then Some ?r else cur ?ix R k)" for k
      using c2 [of k] fd1(2,3) by (simp add: cur_addr_cur)
    have u: "unat (of_nat a :: u64) = a" using a(2) by (simp add: unat_of_nat_u64)
    have sl: "same_latches ?ix ?ix'"
      using a u by (intro publish_latches [OF iwf f]) (auto simp: take_bit_48_of_nat)
    have cas: "cas_into_chain (st\<lparr>st_log := set_record_at l' a r\<rparr>) slot entry a =
        (True, st\<lparr>st_index := ?ix', st_log := ?l\<rparr>)"
      by (simp add: cas_into_chain_def en index_publish_def try_cas_def)
    have e: "append_record st s slot entry key sz fill old status out =
        Some ((Done status, out'), seal_old (st\<lparr>st_index := ?ix', st_log := ?l\<rparr>) old)"
      using al(3) ra fl(1) cas by (simp add: append_record_def)
    have x: "log_ext (st_log st) ?l" by (rule log_ext_trans [OF al(5) fd1(4)])
    show thesis
    proof (cases old)
      case None
      with ok [where ix' = ?ix' and l' = ?l and out' = out' and ?r0.0 = r0 and r = r and R' = ?R] e fr fl(1) d2 x sl c3 show thesis by (simp add: seal_old_def)
    next
      case (Some b)
      obtain rb where rb: "R b = Some rb" "r_key rb = key" using cur_addrD old [OF Some] by blast
      have ne: "b \<noteq> a" using rb al(6) by auto
      have cb: "closed_until_address ?l \<le> b"
        using al(14) [OF g] old [OF Some] by (simp add: modify_info_def Let_def set_record_at_def)
      have rb': "?R b = Some rb" using rb ne by simp
      have nb: "cur_addr ?ix' ?R (r_key rb) \<noteq> Some b" using c2 [of key] rb(2) ne by simp
      have "\<exists>R'. data_ok ?ix' (modify_info ?l b (\<lambda>w. snd (try_seal w))) R' \<and> (\<forall>k. cur ?ix' R' k = cur ?ix' ?R k)"
      proof (cases "head_address ?l \<le> b")
        case True
        then show ?thesis by (rule seal_data [where R = ?R and b = b, OF d2 rb' _ nb])
      next
        case False
        then show ?thesis using seal_evicted [where R = ?R and b = b, OF d2 rb' cb] by auto
      qed
      then obtain R' where
        R': "data_ok ?ix' (modify_info ?l b (\<lambda>w. snd (try_seal w))) R'" "\<forall>k. cur ?ix' R' k = cur ?ix' ?R k" by blast
      show thesis
        by (rule ok [where ix' = ?ix' and l' = "modify_info ?l b (\<lambda>w. snd (try_seal w))" and out' = out' and ?r0.0 = r0 and r = r and R' = R'])
           (use e Some fr fl(1) R' c3 sl log_ext_trans [OF x modify_info_ext] in \<open>simp_all add: seal_old_def\<close>)
    qed
  qed
qed

end
