(* ===== verification/StoreAttempt.thy ===== *)
theory StoreAttempt
  imports StorePublish
begin

text \<open>
  One attempt of an operation of the store. \<open>attempt st R key Q res\<close> says that an attempt from the store \<open>st\<close> with the
  records \<open>R\<close> returned, kept the invariant, the latches and every other key, and left the key's record as \<open>Q\<close> says. The
  latch, the creation of the index entry and the epoch protection around the attempt carry it through.
\<close>

definition store_frame :: "store \<Rightarrow> store \<Rightarrow> bool" where
  "store_frame st st' \<longleftrightarrow> log_ext (st_log st) (st_log st') \<and> same_latches (st_index st) (st_index st')
     \<and> st_system_state st' = st_system_state st \<and> st_checkpoint_start st' = st_checkpoint_start st"

definition entry_room :: "hash_index \<Rightarrow> bytes \<Rightarrow> bool" where
  \<comment> \<open>the entry exists or there is a bucket left for it\<close>
  "entry_room ix key \<longleftrightarrow> index_lookup ix (hash64 key) \<noteq> None \<or> overflow_next ix \<le> length (overflow ix)"

definition disk_from :: "hash_index \<Rightarrow> hlog \<Rightarrow> reclog \<Rightarrow> bytes \<Rightarrow> nat \<Rightarrow> nat \<Rightarrow> bool" where
  \<comment> \<open>the walk left memory at \<open>a\<close>, from the chain head \<open>latest\<close>\<close>
  "disk_from ix l R key a latest \<longleftrightarrow> chain_start R a \<and> FIRST_VALID_ADDRESS \<le> a \<and> a < head_address l
     \<and> newest R a key = cur_addr ix R key \<and> map_option unat (index_lookup ix (hash64 key)) = Some latest"

definition disk_ok :: "hash_index \<Rightarrow> hlog \<Rightarrow> reclog \<Rightarrow> bytes \<Rightarrow> (rec option \<times> nat) option \<Rightarrow> bool" where
  \<comment> \<open>a record read from the device that is still the newest of its key\<close>
  "disk_ok ix l R key src \<longleftrightarrow> (\<forall>c seen. src = Some (c, seen) \<longrightarrow> c = cur ix R key
     \<and> map_option unat (index_lookup ix (hash64 key)) = Some seen \<and> (\<forall>b. cur_addr ix R key = Some b \<longrightarrow> b < head_address l))"

definition retry_frame :: "store \<Rightarrow> reclog \<Rightarrow> store \<Rightarrow> reclog \<Rightarrow> bytes \<Rightarrow> bool" where
  \<comment> \<open>what the next attempt needs\<close>
  "retry_frame st R st' R' key \<longleftrightarrow> tail_page (st_log st') = tail_page (st_log st)
     \<and> (entry_room (st_index st) key \<longrightarrow> entry_room (st_index st') key)
     \<and> (\<forall>src. disk_ok (st_index st) (st_log st) R key src \<longrightarrow> disk_ok (st_index st') (st_log st') R' key src)"

definition op_cond :: "store \<Rightarrow> reclog \<Rightarrow> bytes \<Rightarrow> Op \<Rightarrow> store \<Rightarrow> reclog \<Rightarrow> bool" where
  "op_cond st R key op st' R' \<longleftrightarrow> ((\<forall>status. op \<noteq> Done status) \<longrightarrow> retry_frame st R st' R' key)
     \<and> (\<forall>a latest. op = RecordOnDisk a latest \<longrightarrow> disk_from (st_index st') (st_log st') R' key a latest
          \<and> waits (st_log st') \<le> waits (st_log st))
     \<and> (op = OpRetryLater \<longrightarrow> blocked (st_log st) (st_log st'))"

definition attempt :: "store \<Rightarrow> reclog \<Rightarrow> bytes \<Rightarrow> (Op \<Rightarrow> 'o \<Rightarrow> rec option \<Rightarrow> bool) \<Rightarrow> ((Op \<times> 'o) \<times> store) option \<Rightarrow> bool" where
  "attempt st R key Q res \<longleftrightarrow> (\<exists>op out st' R'. res = Some ((op, out), st')
     \<and> data_ok (st_index st') (st_log st') R' \<and> store_frame st st'
     \<and> (\<forall>k. k \<noteq> key \<longrightarrow> cur (st_index st') R' k = cur (st_index st) R k)
     \<and> Q op out (cur (st_index st') R' key)
     \<and> op_cond st R key op st' R')"

lemma store_frame_refl [simp]: "store_frame st st"
  by (simp add: store_frame_def)

lemma store_frame_trans: "store_frame a b \<Longrightarrow> store_frame b c \<Longrightarrow> store_frame a c"
  using log_ext_trans same_latches_trans by (auto simp: store_frame_def)

lemma attemptI:
  assumes "res = Some ((op, out), st')" and "data_ok (st_index st') (st_log st') R'" and "store_frame st st'"
    and "\<And>k. k \<noteq> key \<Longrightarrow> cur (st_index st') R' k = cur (st_index st) R k" and "Q op out (cur (st_index st') R' key)"
    and "op_cond st R key op st' R'"
  shows "attempt st R key Q res"
  using assms unfolding attempt_def by blast

lemma op_cond_done [simp]: "op_cond st R key (Done x) st' R'"
  by (simp add: op_cond_def)

lemma retry_frame_refl [simp]: "retry_frame st R st R key"
  by (simp add: retry_frame_def)

lemma attempt_same:
  "data_ok (st_index st) (st_log st) R \<Longrightarrow> Q op out (cur (st_index st) R key) \<Longrightarrow> op_cond st R key op st R \<Longrightarrow>
     attempt st R key Q (Some ((op, out), st))"
  by (rule attemptI) auto

lemma attempt_from:
  assumes "attempt st1 R1 key Q res" and "store_frame st st1" and "\<And>k. k \<noteq> key \<Longrightarrow> cur (st_index st1) R1 k = cur (st_index st) R k"
    and "retry_frame st R st1 R1 key"
    and "waits (st_log st1) = waits (st_log st)" and "\<And>l. blocked (st_log st1) l = blocked (st_log st) l"
  shows "attempt st R key Q res"
proof -
  have "op_cond st1 R1 key op st' R' \<Longrightarrow> op_cond st R key op st' R'" for op st' R'
    using assms(4-6) by (auto simp: op_cond_def retry_frame_def)
  then show ?thesis using assms(1,3) store_frame_trans [OF assms(2)] unfolding attempt_def by metis
qed

lemma attempt_mono:
  "attempt st R key Q res \<Longrightarrow> (\<And>op out c. Q op out c \<Longrightarrow> Q' op out c) \<Longrightarrow> attempt st R key Q' res"
  unfolding attempt_def by blast

lemma same_index_room: "same_index ix ix' \<Longrightarrow> entry_room ix' key = entry_room ix key"
  using same_index_lookup by (auto simp: entry_room_def same_index_def)

lemma same_index_disk:
  "same_index ix ix' \<Longrightarrow> disk_ok ix' l R key src = disk_ok ix l R key src"
  "same_index ix ix' \<Longrightarrow> disk_from ix' l R key a n = disk_from ix l R key a n"
  by (simp_all add: disk_ok_def disk_from_def cur_same cur_addr_same same_index_lookup)

lemma disk_mono: "disk_ok ix l R key src \<Longrightarrow> head_address l \<le> head_address l' \<Longrightarrow> disk_ok ix l' R key src"
  unfolding disk_ok_def by fastforce

lemma disk_epoch [simp]: "disk_ok ix (l\<lparr>log_epoch := ep\<rparr>) R key src = disk_ok ix l R key src"
  "disk_from ix (l\<lparr>log_epoch := ep\<rparr>) R key a n = disk_from ix l R key a n"
  by (simp_all add: disk_ok_def disk_from_def)

subsection \<open>The latch\<close>

lemma with_latch_attempt:
  assumes dok: "data_ok (st_index st) (st_log st) R" and b: "sr_bucket slot < length (buckets (st_index st))"
    and free: "s_txn_mode s \<or> all_free (st_index st)"
    and body: "\<And>ix. same_index (st_index st) ix \<Longrightarrow> attempt (st\<lparr>st_index := ix\<rparr>) R key Q (body (st\<lparr>st_index := ix\<rparr>))"
  shows "attempt st R key Q (with_latch st s slot True out body)"
proof -
  let ?ix = "st_index st" and ?b = "sr_bucket slot"
  have wf: "index_wf ?ix" using dok by (auto simp: data_ok_def data_base_def heads_ok_def)
  show ?thesis
  proof (cases "s_txn_mode s")
    case True
    have e: "with_latch st s slot True out body = do { (r, st) \<leftarrow> body st; Some (r, st\<lparr>st_index := st_index st\<rparr>) }"
      using True by (simp add: with_latch_def latch_def latch_drop_def)
    have "attempt st R key Q (body st)" using body [of ?ix] wf by simp
    then show ?thesis unfolding e by (auto simp: attempt_def)
  next
    case False
    have fr: "latch_free ?ix ?b" using False free b by (simp add: all_free_def)
    note lk = lock_exclusive_free [OF wf b fr]
    let ?ix1 = "snd (try_lock_exclusive ?ix ?b)"
    have e: "with_latch st s slot True out body =
        do { (r, st') \<leftarrow> body (st\<lparr>st_index := ?ix1\<rparr>); Some (r, st'\<lparr>st_index := unlock_exclusive (st_index st') ?b\<rparr>) }"
      using False lk(1) by (cases "try_lock_exclusive ?ix ?b") (simp add: with_latch_def latch_def latch_drop_def)
    from body [OF lk(2)] obtain op out' st' R' where
      a: "body (st\<lparr>st_index := ?ix1\<rparr>) = Some ((op, out'), st')" "data_ok (st_index st') (st_log st') R'"
        "store_frame (st\<lparr>st_index := ?ix1\<rparr>) st'" "\<forall>k. k \<noteq> key \<longrightarrow> cur (st_index st') R' k = cur ?ix1 R k"
        "Q op out' (cur (st_index st') R' key)" "op_cond (st\<lparr>st_index := ?ix1\<rparr>) R key op st' R'"
      by (auto simp: attempt_def)
    have wf': "index_wf (st_index st')" using a(2) by (auto simp: data_ok_def data_base_def heads_ok_def)
    have sl: "same_latches ?ix1 (st_index st')" using a(3) by (simp add: store_frame_def)
    note ul = lk(3) [OF wf' sl]
    have cu: "cur (unlock_exclusive (st_index st') ?b) R' k = cur (st_index st') R' k" for k
      by (rule cur_same [OF ul [THEN conjunct1]])
    let ?st = "st'\<lparr>st_index := unlock_exclusive (st_index st') ?b\<rparr>"
    have "data_ok (st_index ?st) (st_log ?st) R'" using data_same [OF a(2)] ul by simp
    moreover have "store_frame st ?st" using a(3) ul by (simp add: store_frame_def)
    moreover have "cur (st_index ?st) R' k = cur ?ix R k" if "k \<noteq> key" for k using a(4) that cu cur_same [OF lk(2)] by simp
    moreover have "Q op out' (cur (st_index ?st) R' key)" using a(5) cu by simp
    moreover have "op_cond st R key op ?st R'"
      using a(6) same_index_room [OF lk(2)] same_index_room [OF ul [THEN conjunct1]]
        same_index_disk [OF lk(2)] same_index_disk [OF ul [THEN conjunct1]] by (simp add: op_cond_def retry_frame_def)
    ultimately show ?thesis unfolding e using a(1) by (intro attemptI [where st' = ?st and R' = R']) auto
  qed
qed

lemma with_latch_shared:
  assumes wf: "index_wf (st_index st)" and b: "sr_bucket slot < length (buckets (st_index st))"
    and free: "s_txn_mode s \<or> all_free (st_index st)"
    and body: "\<And>ix. same_index (st_index st) ix \<Longrightarrow> \<exists>r. body (st\<lparr>st_index := ix\<rparr>) = Some (r, st\<lparr>st_index := ix\<rparr>) \<and> P r"
  shows "\<exists>r. with_latch st s slot False out body = Some (r, st) \<and> P r"
proof (cases "s_txn_mode s")
  case True
  then show ?thesis using body [of "st_index st"] wf by (auto simp: with_latch_def latch_def latch_drop_def)
next
  case False
  have fr: "latch_free (st_index st) (sr_bucket slot)" using False free b by (simp add: all_free_def)
  note lk = lock_shared_free [OF wf b fr]
  from body [OF lk(2)] obtain r where "P r" "body (st\<lparr>st_index := snd (try_lock_shared (st_index st) (sr_bucket slot))\<rparr>) =
      Some (r, st\<lparr>st_index := snd (try_lock_shared (st_index st) (sr_bucket slot))\<rparr>)" by blast
  then show ?thesis
    using False lk(1,3)
    by (cases "try_lock_shared (st_index st) (sr_bucket slot)") (auto simp: with_latch_def latch_def latch_drop_def)
qed

subsection \<open>The index entry\<close>

lemma find_tag_bucket:
  assumes "index_wf ix" and "find_tag ix h = Some (Some slot)"
  shows "sr_bucket slot < length (buckets ix)"
  using find_tagD(5) [OF assms] index_wf_bucket_index [OF assms(1)] by simp

lemma find_tag_none: "index_wf ix \<Longrightarrow> find_tag ix h = Some None \<longleftrightarrow> index_lookup ix h = None"
  by (simp add: index_lookup_def find_tag_eq split: option.splits)

lemma create_entry:
  assumes dok: "data_ok ix l R" and room: "entry_room ix key"
  shows "\<exists>slot ix'. find_or_create_tag ix (hash64 key) = Some (slot, ix') \<and> find_tag ix' (hash64 key) = Some (Some slot)
    \<and> data_ok ix' l R \<and> same_latches ix ix' \<and> (\<forall>k. cur ix' R k = cur ix R k)
    \<and> (\<forall>l src. disk_ok ix l R key src \<longrightarrow> disk_ok ix' l R key src)"
proof (cases "index_lookup ix (hash64 key) = None")
  case False
  have wf: "index_wf ix" using dok by (auto simp: data_ok_def data_base_def heads_ok_def)
  from find_or_create_existing [OF wf False] dok show ?thesis by auto
next
  case True
  have wf: "index_wf ix" and ch: "chain_ok R" and hd: "heads_ok ix R" using dok by (auto simp: data_ok_def data_base_def heads_ok_def)
  from find_or_create_tag_created [OF wf, of "hash64 key"] room True obtain slot ix' where
    c: "find_or_create_tag ix (hash64 key) = Some (slot, ix')" "tag_created ix (hash64 key) slot ix'" by (auto simp: entry_room_def)
  note t = c(2) [unfolded tag_created_def]
  have lk: "index_lookup ix' h = (if same_entry ix (hash64 key) h then Some TEMP_INVALID_ADDRESS else index_lookup ix h)" for h
    using t True by simp
  have low: "unat TEMP_INVALID_ADDRESS < FIRST_VALID_ADDRESS"
    by (simp add: TEMP_INVALID_ADDRESS_def FIRST_VALID_ADDRESS_def PAGE_HEADER_SIZE_def)
  have no: "index_lookup ix h = None" if "same_entry ix (hash64 key) h" for h
    using that True by (simp add: index_lookup_def find_tag_eq [OF wf] same_entry_def split: option.splits)
  have cu: "cur ix' R k = cur ix R k" for k
    using lk [of "hash64 k"] no [of "hash64 k"] newest_low [OF ch low] by (simp add: cur_def)
  have "heads_ok ix' R"
    unfolding heads_ok_def cu using t hd lk low by (auto simp: heads_ok_def chain_start_def split: if_splits)
  moreover have "published ix' R"
    unfolding published_def
  proof (intro conjI allI impI)
    fix h b y assume b: "index_lookup ix' h = Some b" and y: "R (unat b) = Some y"
    have "b \<noteq> TEMP_INVALID_ADDRESS" using chain_okD [OF ch y] low by auto
    then have "index_lookup ix h = Some b" using lk [of h] b by (simp split: if_splits)
    then have "same_entry ix h (hash64 (r_key y))" using y dok by (simp add: data_ok_def published_def)
    then show "same_entry ix' h (hash64 (r_key y))" using t by (simp add: same_entry_def)
  next
    fix x y assume "R x = Some y"
    then obtain h where "is_valid (r_info y)" "index_lookup ix (hash64 (r_key y)) = Some h" "x \<le> unat h"
      using dok by (fastforce simp: data_ok_def published_def)
    then show "is_valid (r_info y)" "\<exists>h. index_lookup ix' (hash64 (r_key y)) = Some h \<and> x \<le> unat h"
      using lk [of "hash64 (r_key y)"] no [of "hash64 (r_key y)"] by (auto split: if_splits)
  qed
  ultimately have "data_ok ix' l R" using dok by (simp add: data_ok_def data_base_def)
  moreover have "same_latches ix ix'" using t by (intro same_latchesI) auto
  moreover have "disk_ok ix l R key src \<Longrightarrow> disk_ok ix' l R key src" for l src using True by (auto simp: disk_ok_def)
  ultimately show ?thesis using c(1) t cu by blast
qed

lemma create_attempt:
  assumes dok: "data_ok (st_index st) (st_log st) R" and room: "entry_room (st_index st) key"
    and free: "s_txn_mode s \<or> all_free (st_index st)"
    and body: "\<And>slot ix. find_tag ix (hash64 key) = Some (Some slot) \<Longrightarrow> data_ok ix (st_log st) R \<Longrightarrow>
      cur ix R key = cur (st_index st) R key \<Longrightarrow>
      (\<And>src. disk_ok (st_index st) (st_log st) R key src \<Longrightarrow> disk_ok ix (st_log st) R key src) \<Longrightarrow>
      attempt (st\<lparr>st_index := ix\<rparr>) R key Q (body slot (st\<lparr>st_index := ix\<rparr>))"
  shows "attempt st R key Q (do { (slot, ix) \<leftarrow> find_or_create_tag (st_index st) (hash64 key);
      with_latch (st\<lparr>st_index := ix\<rparr>) s slot True out (body slot) })"
proof -
  from create_entry [OF dok room] obtain slot ix' where c: "find_or_create_tag (st_index st) (hash64 key) = Some (slot, ix')"
    "find_tag ix' (hash64 key) = Some (Some slot)" "data_ok ix' (st_log st) R" "same_latches (st_index st) ix'"
    "\<forall>k. cur ix' R k = cur (st_index st) R k" "\<forall>l src. disk_ok (st_index st) l R key src \<longrightarrow> disk_ok ix' l R key src" by blast
  have wf: "index_wf ix'" using c(3) by (auto simp: data_ok_def data_base_def heads_ok_def)
  have "attempt (st\<lparr>st_index := ix'\<rparr>) R key Q (with_latch (st\<lparr>st_index := ix'\<rparr>) s slot True out (body slot))"
  proof (rule with_latch_attempt)
    show "data_ok (st_index (st\<lparr>st_index := ix'\<rparr>)) (st_log (st\<lparr>st_index := ix'\<rparr>)) R" using c(3) by simp
    show "sr_bucket slot < length (buckets (st_index (st\<lparr>st_index := ix'\<rparr>)))" using find_tag_bucket [OF wf c(2)] by simp
    show "s_txn_mode s \<or> all_free (st_index (st\<lparr>st_index := ix'\<rparr>))" using free same_latches_free [OF c(4)] by simp
    fix ix assume si: "same_index (st_index (st\<lparr>st_index := ix'\<rparr>)) ix"
    then have "find_tag ix (hash64 key) = Some (Some slot)" using c(2) by (simp add: same_index_def)
    moreover have "data_ok ix (st_log st) R" using data_same [OF c(3)] si by simp
    moreover have "cur ix R key = cur (st_index st) R key" using c(5) cur_same [of ix' ix] si by simp
    moreover have "disk_ok (st_index st) (st_log st) R key src \<Longrightarrow> disk_ok ix (st_log st) R key src" for src
      using c(6) same_index_disk(1) [of ix' ix] si by simp
    ultimately show "attempt (st\<lparr>st_index := ix', st_index := ix\<rparr>) R key Q (body slot (st\<lparr>st_index := ix', st_index := ix\<rparr>))"
      using body by simp
  qed
  then have "attempt st R key Q (with_latch (st\<lparr>st_index := ix'\<rparr>) s slot True out (body slot))"
    by (rule attempt_from)
       (use c(2,4-6) index_lookup_slot [OF c(2)] in \<open>simp_all add: store_frame_def retry_frame_def entry_room_def\<close>)
  then show ?thesis using c(1) by simp
qed

subsection \<open>The walk and the append under the latch\<close>

definition located :: "store \<Rightarrow> session \<Rightarrow> reclog \<Rightarrow> bytes \<Rightarrow> slot_ref \<Rightarrow> bool" where
  "located st s R key slot \<longleftrightarrow> data_ok (st_index st) (st_log st) R \<and> find_tag (st_index st) (hash64 key) = Some (Some slot)
     \<and> phase (s_state s) = Rest"

definition ready :: "store \<Rightarrow> session \<Rightarrow> reclog \<Rightarrow> bytes \<Rightarrow> slot_ref \<Rightarrow> bool" where
  \<comment> \<open>what a write needs besides\<close>
  "ready st s R key slot \<longleftrightarrow> data_ok (st_index st) (st_log st) R \<and> find_tag (st_index st) (hash64 key) = Some (Some slot)
     \<and> addr_room (st_log st) \<and> guarded (st_log st) \<and> phase (s_state s) = Rest"

lemma ready_located: "ready st s R key slot \<Longrightarrow> located st s R key slot"
  by (simp add: ready_def located_def)

lemma locatedD:
  assumes "located st s R key slot"
  shows "data_ok (st_index st) (st_log st) R" and "log_inv (st_log st) R" and "heads_ok (st_index st) R"
    and "cur_addr (st_index st) R key = newest R (unat (he_address (slot_load (st_index st) slot))) key"
    and "chain_start R (unat (he_address (slot_load (st_index st) slot)))"
  using assms index_lookup_slot by (fastforce simp: located_def data_ok_def data_base_def heads_ok_def cur_addr_def)+

lemmas readyD = locatedD [OF ready_located]

lemma trace_cur:
  assumes rd: "located st s R key slot" and lo: "head_address (st_log st) \<le> lo"
  obtains (found) b r where "trace_back (st_log st) (unat (he_address (slot_load (st_index st) slot))) key lo = Some (TraceFound b)"
      "cur_addr (st_index st) R key = Some b" "lo \<le> b" "R b = Some r" "r_key r = key" "cur (st_index st) R key = Some r"
      "\<not> is_closed (r_info r)" "record_at (st_log st) b = r" "rec_wf r"
  | (below) c b where "trace_back (st_log st) (unat (he_address (slot_load (st_index st) slot))) key lo = Some (TraceStopped c)"
      "cur_addr (st_index st) R key = Some b" "c < lo" "c \<in> dom R" "FIRST_VALID_ADDRESS \<le> c" "begin_address (st_log st) \<le> c"
      "newest R c key = Some b"
  | (none) c where "trace_back (st_log st) (unat (he_address (slot_load (st_index st) slot))) key lo = Some (TraceStopped c)"
      "cur_addr (st_index st) R key = None" "chain_start R c" "FIRST_VALID_ADDRESS \<le> c \<longrightarrow> c < lo" "newest R c key = None"
proof -
  note d = locatedD [OF rd]
  have ch: "chain_ok R" using d(3) by (simp add: heads_ok_def)
  note tb = trace_back_newest [OF d(2) ch d(5) lo, of key]
  show thesis
  proof (cases "cur_addr (st_index st) R key")
    case None
    then show thesis using tb none unfolding d(4) by auto
  next
    case (Some b)
    show thesis
    proof (cases "lo \<le> b")
      case True
      from cur_addrD [OF Some] obtain r where r: "R b = Some r" "r_key r = key" "cur (st_index st) R key = Some r" by blast
      have "record_at (st_log st) b = r" using True lo by (intro record_at_inv [OF d(2) r(1)]) simp
      moreover have "\<not> is_closed (r_info r)" using d(3) r(3) by (auto simp: heads_ok_def)
      moreover have "rec_wf r" using log_invD(3) [OF d(2) r(1)] by (simp add: rec_placed_def)
      ultimately show thesis using tb Some True r found [of b r] unfolding d(4) by auto
    next
      case False
      with tb Some obtain c where c: "trace_back (st_log st) (unat (he_address (slot_load (st_index st) slot))) key lo = Some (TraceStopped c)"
        "c < lo" "c \<in> dom R" "newest R c key = Some b" unfolding d(4) by auto
      have "FIRST_VALID_ADDRESS \<le> c" using c(3) ch by (auto simp: chain_ok_def)
      moreover have "begin_address (st_log st) \<le> c" using d(1) c(3) by (auto simp: data_ok_def data_base_def)
      ultimately show thesis using below c Some by blast
    qed
  qed
qed

lemma gate_open:
  "phase (s_state s) = Rest \<Longrightarrow> \<not> is_closed info \<Longrightarrow> cpr_gate st s a info = None"
  "phase (s_state s) = Rest \<Longrightarrow> \<not> cpr_blocks_in_place st s a info"
  by (simp_all add: cpr_gate_def cpr_blocks_in_place_def ss_in_new_version_def)

lemma fits_page:
  assumes "shape_ok l" and "si_total_size sz + PAGE_HEADER_SIZE \<le> page_size l"
  shows "si_key_len sz < 2 ^ 32" and "si_value_cap sz < 2 ^ 32"
proof -
  have "si_key_len sz + si_value_cap sz \<le> si_total_size sz"
    using align8_ge [of "FIXED_HEADER_SIZE + (if si_has_expiration sz then EXPIRATION_SIZE else 0) + si_key_len sz + si_value_cap sz"]
    by (simp add: si_total_size_def)
  also have "\<dots> < 2 ^ 32" using assms page_size_range [OF assms(1)] by simp
  finally show "si_key_len sz < 2 ^ 32" "si_value_cap sz < 2 ^ 32" by simp_all
qed

lemma append_attempt:
  assumes rd: "ready st s R key slot" and en: "entry = slot_load (st_index st) slot"
    and sz: "si_key_len sz = length key" "si_total_size sz + PAGE_HEADER_SIZE \<le> page_size (st_log st)"
    and fill: "\<And>r0. fresh_rec key sz r0 \<Longrightarrow>
      \<exists>r out'. fill r0 = Some (r, out') \<and> fills r0 r \<and> Q (Done status) out' (Some (set_info r unseal_and_validate))"
    and old: "\<And>b. old = Some b \<Longrightarrow> cur_addr (st_index st) R key = Some b \<and> head_address (st_log st) \<le> b"
    and later: "Q OpRetryLater out (cur (st_index st) R key)"
  shows "attempt st R key Q (append_record st s slot entry key sz fill old status out)"
proof -
  have f: "find_tag (st_index st) (hash64 key) = Some (Some slot)" "addr_room (st_log st)" "guarded (st_log st)"
    using rd by (auto simp: ready_def)
  note d = readyD [OF rd]
  note fp = fits_page [OF log_invD(10) [OF d(2)] sz(2)]
  have fl: "\<exists>r out'. fill r0 = Some (r, out') \<and> fills r0 r" if "fresh_rec key sz r0" for r0 using fill [OF that] by blast
  show ?thesis
  proof (rule append_record_inv [where fill = fill and R = R and st = st, OF d(1) f(1) en f(2) sz(1) _ fp(2) sz(2) fl f(3) old])
    show "length key < 2 ^ 32" using fp(1) sz(1) by simp
    fix l' assume "append_record st s slot entry key sz fill old status out = Some ((OpRetryLater, out), st\<lparr>st_log := l'\<rparr>)"
      "data_ok (st_index st) l' R" "log_ext (st_log st) l'" "tail_page l' = tail_page (st_log st)" "pushed (st_log st) l'"
    with later show ?thesis by (intro attemptI [where st' = "st\<lparr>st_log := l'\<rparr>" and R' = R]) (auto simp: store_frame_def op_cond_def retry_frame_def disk_ok_def log_ext_def marks_le_def blocked_def)
  next
    fix ix' l' R' r0 r out'
    assume "append_record st s slot entry key sz fill old status out = Some ((Done status, out'), st\<lparr>st_index := ix', st_log := l'\<rparr>)"
      "fresh_rec key sz r0" "fill r0 = Some (r, out')" "data_ok ix' l' R'" "log_ext (st_log st) l'"
      "same_latches (st_index st) ix'"
      "\<And>k. cur ix' R' k = (if k = key then Some (set_info r unseal_and_validate) else cur (st_index st) R k)"
    with fill [of r0] show ?thesis by (intro attemptI [where st' = "st\<lparr>st_index := ix', st_log := l'\<rparr>" and R' = R']) (auto simp: store_frame_def)
  qed auto
qed

text \<open>A write to the record found in the mutable region.\<close>

lemma in_place_attempt:
  assumes rd: "ready st s R key slot" and b: "cur_addr (st_index st) R key = Some b" "read_only_address (st_log st) \<le> b"
    and r: "R b = Some r" and w: "same_links r r'" "length (encode r') = length (encode r)" "rec_wf r'" "\<not> is_closed (r_info r')"
  shows "data_ok (st_index st) (set_record_at (st_log st) b r') (R(b \<mapsto> r'))"
    and "cur (st_index st) (R(b \<mapsto> r')) k = (if k = key then Some r' else cur (st_index st) R k)"
    and "cur_addr (st_index st) (R(b \<mapsto> r')) k = cur_addr (st_index st) R k"
    and "ready (st\<lparr>st_log := set_record_at (st_log st) b r'\<rparr>) s (R(b \<mapsto> r')) key slot"
    and "modify_info (set_record_at (st_log st) b r') b f = set_record_at (set_record_at (st_log st) b r') b (set_info r' f)"
proof -
  note d = readyD [OF rd]
  have h: "head_address (st_log st) \<le> b" "flushed_until_address (st_log st) \<le> b"
    using b(2) log_invD(1) [OF d(2)] by (auto simp: hlog_wf_def watermarks_ok_def)
  have db: "data_base (st_index st) (st_log st) R" using d(1) by (simp add: data_ok_def)
  note u = data_update [where R = R and a = b, OF db r h(1) w(1-3)]
  have vl: "is_valid (r_info r')" using w(4) by (simp add: is_closed_def)
  show dk: "data_ok (st_index st) (set_record_at (st_log st) b r') (R(b \<mapsto> r'))"
    using data_update_ok [where R = R and a = b, OF d(1) r h(1) w(1-3) vl] w(4) h(2) by simp
  have ck: "cur_addr (st_index st) R k = Some b \<longleftrightarrow> k = key" for k
    using b(1) cur_addr_key [where R = R and a = b, OF _ r, of "st_index st" k] cur_addr_key [where R = R and a = b, OF b(1) r] by auto
  show "cur (st_index st) (R(b \<mapsto> r')) k = (if k = key then Some r' else cur (st_index st) R k)"
    using u(2) [of k] w(4) h(2) ck [of k] by simp
  show "cur_addr (st_index st) (R(b \<mapsto> r')) k = cur_addr (st_index st) R k" using u(3) [of k] w(4) h(2) by simp
  show "ready (st\<lparr>st_log := set_record_at (st_log st) b r'\<rparr>) s (R(b \<mapsto> r')) key slot"
    using rd dk by (simp add: ready_def addr_room_def guarded_def set_record_at_def)
  show "modify_info (set_record_at (st_log st) b r') b f = set_record_at (set_record_at (st_log st) b r') b (set_info r' f)"
    by (rule modify_info_inv [where R = "R(b \<mapsto> r')" and a = b]) (use dk h(1) in \<open>simp_all add: data_ok_def data_base_def set_record_at_def\<close>)
qed

lemma in_place_modify:
  assumes rd: "ready st s R key slot" and b: "cur_addr (st_index st) R key = Some b" "read_only_address (st_log st) \<le> b"
    and r: "R b = Some r" and w: "same_links r r'" "length (encode r') = length (encode r)" "rec_wf r'" "\<not> is_closed (r_info r')"
    and f: "previous_address (f (r_info r')) = previous_address (r_info r')" "\<not> is_closed (f (r_info r'))"
  shows "data_ok (st_index st) (modify_info (set_record_at (st_log st) b r') b f) (R(b \<mapsto> set_info r' f))"
    and "cur (st_index st) (R(b \<mapsto> set_info r' f)) k = (if k = key then Some (set_info r' f) else cur (st_index st) R k)"
    and "cur_addr (st_index st) (R(b \<mapsto> set_info r' f)) k = cur_addr (st_index st) R k"
    and "ready (st\<lparr>st_log := modify_info (set_record_at (st_log st) b r') b f\<rparr>) s (R(b \<mapsto> set_info r' f)) key slot"
    and "log_ext (st_log st) (modify_info (set_record_at (st_log st) b r') b f)"
proof -
  let ?l1 = "set_record_at (st_log st) b r'" and ?R1 = "R(b \<mapsto> r')" and ?r = "set_info r' f"
  note ip = in_place_attempt [where R = R and b = b, OF rd b r w]
  have sl: "same_links r' ?r" by (rule set_info_links [where f = f, OF f(1)])
  have wf: "rec_wf ?r" and op: "\<not> is_closed (r_info ?r)" using w(3) f(2) by (simp_all add: set_info_layout)
  have b1: "cur_addr (st_index (st\<lparr>st_log := ?l1\<rparr>)) ?R1 key = Some b"
    "read_only_address (st_log (st\<lparr>st_log := ?l1\<rparr>)) \<le> b" "?R1 b = Some r'"
    using ip(3) b by (simp_all add: set_record_at_def)
  note ip2 = in_place_attempt [where R = ?R1 and b = b, OF ip(4) b1 sl set_info_layout(1) wf op]
  have m: "modify_info ?l1 b f = set_record_at ?l1 b ?r" by (rule ip(5))
  have u: "?R1(b \<mapsto> ?r) = R(b \<mapsto> ?r)" by simp
  show "data_ok (st_index st) (modify_info ?l1 b f) (R(b \<mapsto> ?r))"
    and "cur (st_index st) (R(b \<mapsto> ?r)) k = (if k = key then Some ?r else cur (st_index st) R k)"
    and "cur_addr (st_index st) (R(b \<mapsto> ?r)) k = cur_addr (st_index st) R k"
    and "ready (st\<lparr>st_log := modify_info ?l1 b f\<rparr>) s (R(b \<mapsto> ?r)) key slot"
    using ip2(1-4) ip(2,3) unfolding m u by simp_all
  show "log_ext (st_log st) (modify_info ?l1 b f)" by (rule log_ext_trans [OF log_ext_set_record modify_info_ext])
qed

lemma set_record_same:
  assumes inv: "log_inv l R" and r: "R a = Some r" and h: "head_address l \<le> a"
  shows "set_record_at l a r = l"
proof -
  have "rec_at (page_data l (page_of l a)) (page_offset l a) r" using log_invD(5) [OF inv r h] by (simp add: in_memory_def)
  then show ?thesis using rec_at_mem by (simp add: set_record_at_def set_page_data_def page_data_def)
qed

end
