(* ===== verification/StoreGuard.thy ===== *)
theory StoreGuard
  imports StoreAttempt
begin

text \<open>
  The epoch protection around an attempt, and the bump between two attempts: neither touches a record. A session that has a
  slot of the epoch table keeps it.
\<close>

definition log_kept :: "hlog \<Rightarrow> hlog \<Rightarrow> bool" where
  "log_kept l l' \<longleftrightarrow> page_bits l' = page_bits l \<and> buffer_size l' = buffer_size l \<and> mutable_pages l' = mutable_pages l
     \<and> begin_address l' = begin_address l \<and> marks_le l l'"

definition has_slot :: "store \<Rightarrow> session \<Rightarrow> bool" where
  "has_slot st s \<longleftrightarrow> 0 < s_tid s \<and> my_slot (log_epoch (st_log st)) (s_tid s) \<noteq> None"

definition steady :: "hlog \<Rightarrow> bool" where
  \<comment> \<open>no thread is inside the epoch, and every boundary that moved is acted upon or its action is registered\<close>
  "steady l \<longleftrightarrow> shifts_covered l \<and> (\<forall>s \<in> set (ep_table (log_epoch l)). s_epoch s = UNPROTECTED)"

definition op_frame :: "store \<Rightarrow> session \<Rightarrow> store \<Rightarrow> session \<Rightarrow> bool" where
  "op_frame st s st' s' \<longleftrightarrow> log_kept (st_log st) (st_log st') \<and> same_latches (st_index st) (st_index st')
     \<and> st_system_state st' = st_system_state st \<and> st_checkpoint_start st' = st_checkpoint_start st
     \<and> s_tid s' = s_tid s \<and> s_txn_mode s' = s_txn_mode s \<and> s_txn_locks s' = s_txn_locks s \<and> has_slot st' s'
     \<and> (steady (st_log st) \<longrightarrow> steady (st_log st'))"

lemma log_kept_trans: "log_kept a b \<Longrightarrow> log_kept b c \<Longrightarrow> log_kept a c"
  unfolding log_kept_def using marks_le_trans by auto

lemma log_kept_ext: "log_ext l l' \<Longrightarrow> log_kept l l'"
  by (simp add: log_ext_def log_kept_def)

lemma log_kept_epoch: "log_kept l (l\<lparr>log_epoch := ep\<rparr>)"
  using set_epoch_le by (simp add: log_kept_def)

lemma op_frame_trans: "op_frame a s b t \<Longrightarrow> op_frame b t c u \<Longrightarrow> op_frame a s c u"
  using log_kept_trans [of "st_log a" "st_log b" "st_log c"] same_latches_trans [of "st_index a" "st_index b" "st_index c"]
  by (simp add: op_frame_def)

lemma op_frame_slot: "op_frame st s st' s' \<Longrightarrow> has_slot st' s'"
  by (simp add: op_frame_def)

lemma covered_epoch: "ep_drain ep = ep_drain (log_epoch l) \<Longrightarrow> shifts_covered (l\<lparr>log_epoch := ep\<rparr>) = shifts_covered l"
  by (simp add: shifts_covered_def covered_by_def pending_def page_size_def page_of_def)

lemma unprotected_again:
  assumes "\<forall>s \<in> set tab. s_epoch s = UNPROTECTED"
  shows "\<forall>s \<in> set ((tab[i := x])[i := y\<lparr>s_epoch := UNPROTECTED\<rparr>]). s_epoch s = UNPROTECTED"
  using assms by (auto dest!: set_update_subset_insert [THEN subsetD])

lemma my_slot_owned: "ep_my_slot ep tid = Some i \<Longrightarrow> owns_slot ep tid i \<Longrightarrow> my_slot ep tid = Some (i, ep)"
  by (simp add: my_slot_def)

lemma data_epoch:
  assumes "data_ok ix l R" and "epoch_wf ep" and "ep_drain ep = ep_drain (log_epoch l)"
  shows "data_ok ix (l\<lparr>log_epoch := ep\<rparr>) R"
  using assms log_inv_epoch tiled_frame [of "l\<lparr>log_epoch := ep\<rparr>" l R] by (auto simp: data_ok_def data_base_def)

lemma tail_page_epoch [simp]: "tail_page (l\<lparr>log_epoch := ep\<rparr>) = tail_page l" "page_size (l\<lparr>log_epoch := ep\<rparr>) = page_size l"
  by (simp_all add: tail_page_def page_size_def)

lemma protected_attempt:
  assumes inv: "store_inv st R" and sl: "has_slot st s"
    and body: "\<And>ep s'. data_ok (st_index st) ((st_log st)\<lparr>log_epoch := ep\<rparr>) R \<Longrightarrow> guarded ((st_log st)\<lparr>log_epoch := ep\<rparr>) \<Longrightarrow>
      phase (s_state s') = Rest \<Longrightarrow> s_txn_mode s' = s_txn_mode s \<Longrightarrow>
      attempt (st\<lparr>st_log := (st_log st)\<lparr>log_epoch := ep\<rparr>\<rparr>) R key Q (body (st\<lparr>st_log := (st_log st)\<lparr>log_epoch := ep\<rparr>\<rparr>) s')"
  shows "\<exists>op out st' s' R'. protected st s body = Some ((op, out), st', s') \<and> store_inv st' R' \<and> op_frame st s st' s'
    \<and> (\<forall>k. k \<noteq> key \<longrightarrow> cur (st_index st') R' k = cur (st_index st) R k) \<and> Q op out (cur (st_index st') R' key)
    \<and> op_cond st R key op st' R'"
proof -
  let ?l = "st_log st" and ?tid = "s_tid s"
  have dok: "data_ok (st_index st) ?l R" and ph: "phase (system_state st) = Rest" using inv by (auto simp: store_inv_def)
  have ew: "epoch_wf (log_epoch ?l)" using dok log_invD(1) by (auto simp: data_ok_def data_base_def hlog_wf_def)
  obtain i ep0 where m: "my_slot (log_epoch ?l) ?tid = Some (i, ep0)" and t: "0 < ?tid" using sl by (auto simp: has_slot_def)
  note ms = my_slot_wf [OF ew m t]
  let ?ep = "publish_epoch ep0 i (ep_current ep0)"
  let ?st = "st\<lparr>st_log := ?l\<lparr>log_epoch := ?ep\<rparr>\<rparr>" and ?s = "s\<lparr>s_state := system_state st\<rparr>"
  have pe: "epoch_wf ?ep" using ms(3) by (intro slot_publish_wf [OF ew t m]) simp
  have dk: "data_ok (st_index st) (?l\<lparr>log_epoch := ?ep\<rparr>) R"
    using ms(4) by (intro data_epoch [OF dok pe]) (simp add: publish_epoch_def)
  have own: "i < length (ep_table ep0)" "ep_my_slot ?ep ?tid = Some i" "owns_slot ?ep ?tid i"
    using ms(2,5) by (auto simp: owns_slot_def publish_epoch_def)
  have g: "guarded (?l\<lparr>log_epoch := ?ep\<rparr>)"
  proof -
    have "1 \<le> ep_current ep0" using ms(1) by (simp add: epoch_wf_def)
    moreover have "(ep_table ep0 ! i)\<lparr>s_epoch := ep_current ep0\<rparr> \<in> set (ep_table ?ep)"
      using own(1) by (simp add: publish_epoch_def set_update_memI)
    ultimately show ?thesis by (force simp: guarded_def UNPROTECTED_def)
  qed
  have "attempt ?st R key Q (body ?st ?s)" by (rule body [OF dk g]) (use ph in simp_all)
  then obtain op out st2 R' where a: "body ?st ?s = Some ((op, out), st2)" "data_ok (st_index st2) (st_log st2) R'"
    "store_frame ?st st2" "\<forall>k. k \<noteq> key \<longrightarrow> cur (st_index st2) R' k = cur (st_index st) R k"
    "Q op out (cur (st_index st2) R' key)" "op_cond ?st R key op st2 R'"
    by (auto simp: attempt_def)
  have lx: "log_ext (?l\<lparr>log_epoch := ?ep\<rparr>) (st_log st2)" using a(3) by (simp add: store_frame_def)
  let ?e2 = "log_epoch (st_log st2)"
  have e2: "epoch_wf ?e2" using a(2) log_invD(1) by (auto simp: data_ok_def data_base_def hlog_wf_def)
  have o2: "ep_my_slot ?e2 ?tid = Some i" "owns_slot ?e2 ?tid i"
    using lx own by (simp_all add: log_ext_def owns_slot_def)
  note m2 = my_slot_owned [OF o2]
  let ?e3 = "publish_epoch ?e2 i UNPROTECTED"
  let ?st3 = "st2\<lparr>st_log := (st_log st2)\<lparr>log_epoch := ?e3\<rparr>\<rparr>"
  have e3: "epoch_wf ?e3" by (rule slot_publish_wf [OF e2 t m2]) (simp add: UNPROTECTED_def)
  have r: "protected st s body = Some ((op, out), ?st3, ?s)"
    using m a(1) m2 by (simp add: protected_def protect_def unprotect_def Let_def system_state_def)
  have d3: "data_ok (st_index ?st3) (st_log ?st3) R'"
    using data_epoch [OF a(2) e3] by (simp add: publish_epoch_def)
  have "ep_my_slot ?e3 ?tid = Some i" "owns_slot ?e3 ?tid i" using o2 by (auto simp: owns_slot_def publish_epoch_def)
  from my_slot_owned [OF this] have hs: "has_slot ?st3 ?s" using t by (simp add: has_slot_def)
  have "log_kept ?l (st_log ?st3)"
    using log_kept_trans [OF log_kept_epoch log_kept_trans [OF log_kept_ext [OF lx] log_kept_epoch]] by simp
  moreover have "steady (st_log ?st3)" if "steady ?l"
  proof -
    have u: "\<forall>s \<in> set (ep_table ep0). s_epoch s = UNPROTECTED"
      using that arg_cong [OF ms(6), of set] by (auto simp: steady_def)
    have "shifts_covered (?l\<lparr>log_epoch := ?ep\<rparr>)" using that ms(4) by (simp add: covered_epoch publish_epoch_def steady_def)
    then have "shifts_covered (st_log st2)" using lx by (simp add: log_ext_def)
    then have "shifts_covered (st_log ?st3)" by (simp add: covered_epoch publish_epoch_def)
    moreover have "ep_table ?e2 = ep_table ?ep" using lx by (simp add: log_ext_def)
    ultimately show ?thesis using unprotected_again [OF u, of i] by (simp add: steady_def publish_epoch_def)
  qed
  ultimately have fr: "op_frame st s ?st3 ?s" using a(3) hs by (simp add: op_frame_def store_frame_def)
  have "store_inv ?st3 R'" using d3 ph a(3) by (simp add: store_inv_def system_state_def store_frame_def)
  moreover have "op_cond st R key op ?st3 R'" using a(6) by (simp add: op_cond_def retry_frame_def)
  ultimately show ?thesis
    using r fr a(4,5) by (intro exI [of _ op] exI [of _ out] exI [of _ ?st3] exI [of _ ?s] exI [of _ R']) simp
qed

subsection \<open>The bump between two attempts\<close>

lemma log_bump_inv:
  assumes "log_inv l R"
  shows "log_inv (log_bump l) R" and "log_ext l (log_bump l)" and "tail_page (log_bump l) = tail_page l"
    and "steady l \<Longrightarrow> steady (log_bump l) \<and> settled (log_bump l)"
proof -
  obtain n acts ep where b: "bump_current_epoch (log_epoch l) = (n, acts, ep)" by (metis prod_cases3)
  have e: "log_bump l = fold run_action acts (l\<lparr>log_epoch := ep\<rparr>)" using b by (simp add: log_bump_def)
  have ew: "epoch_wf (log_epoch l)" using log_invD(1) [OF assms] by (simp add: hlog_wf_def)
  show "log_inv (log_bump l) R" unfolding e by (rule log_inv_bump [OF assms b])
  show x: "log_ext l (log_bump l)" unfolding e using bump_slots(2) [OF ew b] released_all(2) [OF ew b] by (intro released_ext) (auto simp: pending_def)
  show "steady l \<Longrightarrow> steady (log_bump l) \<and> settled (log_bump l)"
    using x settled_bump [OF log_invD(1) [OF assms] _ _ b] by (simp add: steady_def log_ext_def e)
  show "tail_page (log_bump l) = tail_page l"
    unfolding e using fold_run_action_frame [of "l\<lparr>log_epoch := ep\<rparr>" acts] by (simp add: log_frame_def tail_page_def)
qed

lemma has_slot_ext: "log_ext (st_log st) l' \<Longrightarrow> has_slot (st\<lparr>st_log := l'\<rparr>) s = has_slot st s"
proof -
  assume e: "log_ext (st_log st) l'"
  have "(my_slot (log_epoch l') (s_tid s) = None) = (my_slot (log_epoch (st_log st)) (s_tid s) = None)"
    using e by (simp add: my_slot_def claim_slot_def owns_slot_def log_ext_def split: option.splits)
  then show ?thesis by (simp add: has_slot_def)
qed

lemma handle_retry_inv:
  assumes inv: "store_inv st R" and sl: "has_slot st s"
  shows "handle_retry st op 0 = None"
    and "\<exists>st'. handle_retry st OpRetryLater (Suc n) = Some (n, st') \<and> store_inv st' R \<and> op_frame st s st' s
      \<and> st_index st' = st_index st \<and> tail_page (st_log st') = tail_page (st_log st)
      \<and> (steady (st_log st) \<longrightarrow> settled (st_log st'))"
proof -
  show "handle_retry st op 0 = None" by (simp add: handle_retry_def)
  let ?st = "st\<lparr>st_log := log_bump (st_log st)\<rparr>"
  have li: "log_inv (st_log st) R" using inv by (simp add: store_inv_def data_ok_def data_base_def)
  note b = log_bump_inv [OF li]
  have "begin_address (log_bump (st_log st)) = begin_address (st_log st)" "head_address (st_log st) \<le> head_address (log_bump (st_log st))"
    using b(2) by (auto simp: log_ext_def marks_le_def)
  moreover have "log_frame (st_log st) (log_bump (st_log st))"
    using fold_run_action_frame by (auto simp: log_bump_def log_frame_def split: prod.splits)
  then have "tiled (log_bump (st_log st)) R = tiled (st_log st) R" by (intro tiled_frame) (simp_all add: log_frame_def)
  ultimately have "store_inv ?st R" using inv b(1) by (auto simp: store_inv_def data_ok_def data_base_def system_state_def)
  moreover have "op_frame st s ?st s" using log_kept_ext [OF b(2)] has_slot_ext [OF b(2)] sl b(4) by (simp add: op_frame_def)
  ultimately show "\<exists>st'. handle_retry st OpRetryLater (Suc n) = Some (n, st') \<and> store_inv st' R \<and> op_frame st s st' s
      \<and> st_index st' = st_index st \<and> tail_page (st_log st') = tail_page (st_log st)
      \<and> (steady (st_log st) \<longrightarrow> settled (st_log st'))"
    using b(3,4) by (intro exI [of _ ?st]) (simp add: handle_retry_def)
qed

definition can_read :: "store \<Rightarrow> session \<Rightarrow> reclog \<Rightarrow> bool" where
  \<comment> \<open>the operation can take its latch and its epoch slot\<close>
  "can_read st s R \<longleftrightarrow> store_inv st R \<and> has_slot st s \<and> (s_txn_mode s \<or> all_free (st_index st))"

definition can_run :: "store \<Rightarrow> session \<Rightarrow> reclog \<Rightarrow> bool" where
  \<comment> \<open>and an address\<close>
  "can_run st s R \<longleftrightarrow> store_inv st R \<and> has_slot st s \<and> (s_txn_mode s \<or> all_free (st_index st)) \<and> addr_room (st_log st)"

lemma can_run_read: "can_run st s R \<longleftrightarrow> can_read st s R \<and> addr_room (st_log st)"
  by (auto simp: can_run_def can_read_def)

lemma can_read_frame: "can_read st s R \<Longrightarrow> store_inv st' R' \<Longrightarrow> op_frame st s st' s' \<Longrightarrow> can_read st' s' R'"
  using same_latches_free by (auto simp: can_read_def op_frame_def)

lemma can_run_frame:
  "can_run st s R \<Longrightarrow> store_inv st' R' \<Longrightarrow> op_frame st s st' s' \<Longrightarrow> tail_page (st_log st') = tail_page (st_log st) \<Longrightarrow> can_run st' s' R'"
  using same_latches_free by (auto simp: can_run_def op_frame_def log_kept_def addr_room_def page_size_def)

lemma retry_step:
  assumes run: "can_run st s R" and room: "entry_room (st_index st) key" and inv: "store_inv st' R'" and fr: "op_frame st s st' s'"
    and rf: "retry_frame st R st' R' key" and bl: "blocked (st_log st) (st_log st')"
  shows "\<exists>st2. handle_retry st' OpRetryLater (Suc n) = Some (n, st2) \<and> can_run st2 s' R' \<and> entry_room (st_index st2) key
    \<and> op_frame st s st2 s' \<and> st_index st2 = st_index st' \<and> page_size (st_log st2) = page_size (st_log st)
    \<and> (\<forall>src. disk_ok (st_index st) (st_log st) R key src \<longrightarrow> disk_ok (st_index st2) (st_log st2) R' key src)
    \<and> (steady (st_log st) \<longrightarrow> waits (st_log st2) < waits (st_log st))"
proof -
  from handle_retry_inv(2) [OF inv op_frame_slot [OF fr], of n] obtain st2 where
    h: "handle_retry st' OpRetryLater (Suc n) = Some (n, st2)" "store_inv st2 R'" "op_frame st' s' st2 s'"
      "st_index st2 = st_index st'" "tail_page (st_log st2) = tail_page (st_log st')"
      "steady (st_log st') \<longrightarrow> settled (st_log st2)" by blast
  have r: "tail_page (st_log st') = tail_page (st_log st)" "entry_room (st_index st2) key"
    using rf room h(4) by (auto simp: retry_frame_def)
  note fr2 = op_frame_trans [OF fr h(3)]
  have "can_run st2 s' R'" by (rule can_run_frame [OF run h(2) fr2]) (use h(5) r in simp)
  moreover have "page_size (st_log st2) = page_size (st_log st)" using fr2 by (simp add: op_frame_def log_kept_def page_size_def)
  moreover have "head_address (st_log st') \<le> head_address (st_log st2)"
    using h(3) by (simp add: op_frame_def log_kept_def marks_le_def)
  then have "disk_ok (st_index st) (st_log st) R key src \<Longrightarrow> disk_ok (st_index st2) (st_log st2) R' key src" for src
    using rf h(4) disk_mono [of "st_index st'" "st_log st'" R' key src "st_log st2"] by (simp add: retry_frame_def)
  moreover have "waits (st_log st2) < waits (st_log st)" if "steady (st_log st)"
  proof (rule waits_decrease [OF bl])
    show "settled (st_log st2)" using that fr h(6) by (simp add: op_frame_def)
    show "hlog_wf (st_log st2)" using h(2) log_invD(1) by (auto simp: store_inv_def data_ok_def data_base_def)
  qed (use fr fr2 h(3,5) r(1) in \<open>simp_all add: op_frame_def log_kept_def\<close>)
  ultimately show ?thesis using h(1,4) r(2) fr2 by blast
qed

end
