(* ===== verification/StoreUpsert.thy ===== *)
theory StoreUpsert
  imports StoreGuard
begin

text \<open>
  What the store promises for Upsert, Delete and Read, against the contract of the callbacks. The contract is the locale
  \<open>upsert_callbacks\<close>: the writers stay inside the record, keep its key and header, and leave what \<open>wrote\<close> says.
\<close>

definition is_live :: "rec option \<Rightarrow> bool" where
  "is_live c \<longleftrightarrow> (case c of None \<Rightarrow> False | Some r \<Rightarrow> \<not> is_tombstone (r_info r))"

lemma rec_keeps_fills: "rec_keeps r r' \<Longrightarrow> fills r r'"
  by (simp add: fills_def rec_keeps_links)

lemma set_modified_open: "\<not> is_closed w \<Longrightarrow> \<not> is_closed (set_modified w)" "\<not> is_closed w \<Longrightarrow> \<not> is_closed (set_tombstone w)"
  by (simp_all add: is_closed_def info_simps)

locale upsert_callbacks =
  fixes fns :: "('i, 'o) session_functions" and ok_in :: "'i \<Rightarrow> bool" and wrote :: "'i \<Rightarrow> rec \<Rightarrow> bool"
  assumes upsert_key: "si_key_len (f_upsert_size fns key i) = length key"
    and initial_writer: "ok_in i \<Longrightarrow> fresh_rec key (f_upsert_size fns key i) r \<Longrightarrow>
      \<exists>r' out'. f_initial_writer fns key i r out = Some (r', out') \<and> rec_keeps r r' \<and> wrote i r'"
    and in_place_writer: "ok_in i \<Longrightarrow> rec_wf r \<Longrightarrow>
      \<exists>ok r' out'. f_in_place_writer fns key i r out = Some (ok, r', out') \<and> (if ok then rec_keeps r r' \<and> wrote i r' else r' = r)"
    and wrote_info: "wrote i r \<Longrightarrow> wrote i (set_info r f)"
begin

definition upsert_post :: "'i \<Rightarrow> rec option \<Rightarrow> Op \<Rightarrow> 'o \<Rightarrow> rec option \<Rightarrow> bool" where
  "upsert_post i c op out c' \<longleftrightarrow>
     (case op of Done status \<Rightarrow> status \<in> {Created, InPlaceUpdated} \<and> is_live c' \<and> (\<exists>r. c' = Some r \<and> wrote i r)
      | OpRetryLater \<Rightarrow> c' = c | _ \<Rightarrow> False)"

lemma create_post:
  assumes rd: "ready st s R key slot" and ok: "ok_in i" and en: "entry = slot_load (st_index st) slot"
    and fit: "si_total_size (f_upsert_size fns key i) + PAGE_HEADER_SIZE \<le> page_size (st_log st)"
    and old: "\<And>b. old = Some b \<Longrightarrow> cur_addr (st_index st) R key = Some b \<and> head_address (st_log st) \<le> b"
    and c: "cur (st_index st) R key = c"
  shows "attempt st R key (upsert_post i c) (append_record st s slot entry key (f_upsert_size fns key i)
    (\<lambda>r. f_initial_writer fns key i r out1) old Created out)"
proof (rule append_attempt [OF rd en upsert_key fit])
  fix r0 assume fr: "fresh_rec key (f_upsert_size fns key i) r0"
  from initial_writer [OF ok fr, of out1] obtain r out' where w: "f_initial_writer fns key i r0 out1 = Some (r, out')"
    "rec_keeps r0 r" "wrote i r" by blast
  then show "\<exists>r out'. f_initial_writer fns key i r0 out1 = Some (r, out') \<and> fills r0 r
      \<and> upsert_post i c (Done Created) out' (Some (set_info r unseal_and_validate))"
    using fr rec_keeps_fills [OF w(2)] wrote_info [OF w(3)]
    by (auto simp: upsert_post_def is_live_def set_info_layout info_simps fresh_rec_def rec_keeps_def)
qed (use old c in \<open>auto simp: upsert_post_def\<close>)

lemma upsert_locked_post:
  assumes rd: "ready st s R key slot" and ok: "ok_in i"
    and fit: "si_total_size (f_upsert_size fns key i) + PAGE_HEADER_SIZE \<le> page_size (st_log st)"
    and c: "cur (st_index st) R key = c"
  shows "attempt st R key (upsert_post i c) (upsert_locked fns st s slot key i out)"
proof -
  note d = readyD [OF rd]
  have ph: "phase (s_state s) = Rest" using rd by (simp add: ready_def)
  have lo: "head_address (st_log st) \<le> read_only_address (st_log st)"
    using log_invD(1) [OF d(2)] by (auto simp: hlog_wf_def watermarks_ok_def)
  note cr = create_post [OF rd ok refl fit _ c]
  have cn: ?thesis if "upsert_locked fns st s slot key i out = append_record st s slot (slot_load (st_index st) slot) key
      (f_upsert_size fns key i) (\<lambda>r. f_initial_writer fns key i r out) None Created out"
    unfolding that by (rule cr) simp
  from ready_located [OF rd] lo show ?thesis
  proof (cases rule: trace_cur)
    case (found b r)
    note gate = gate_open(1) [OF ph found(7), of st b]
    show ?thesis
    proof (cases "is_tombstone (r_info r)")
      case True
      then show ?thesis using found gate by (intro cn) (simp add: upsert_locked_def Let_def)
    next
      case False
      from in_place_writer [OF ok found(9), of key out] obtain w r' out' where
        w: "f_in_place_writer fns key i r out = Some (w, r', out')" "if w then rec_keeps r r' \<and> wrote i r' else r' = r" by blast
      let ?l' = "set_record_at (st_log st) b r'"
      have e: "upsert_locked fns st s slot key i out =
          (if w then Some ((Done InPlaceUpdated, out'), st\<lparr>st_log := modify_info ?l' b set_modified\<rparr>)
           else append_record (st\<lparr>st_log := ?l'\<rparr>) s slot (slot_load (st_index st) slot) key
             (f_upsert_size fns key i) (\<lambda>r. f_initial_writer fns key i r out') (Some b) Created out')"
        using found gate gate_open(2) [OF ph, of st b "r_info r"] False w(1) by (simp add: upsert_locked_def Let_def)
      have k: "rec_keeps r r'" using w(2) rec_keeps_refl [OF found(9)] by (cases w) auto
      have cl: "\<not> is_closed (r_info r')" using k found(7) by (simp add: rec_keeps_def)
      show ?thesis
      proof (cases w)
        case True
        let ?r = "set_info r' set_modified" and ?l2 = "modify_info ?l' b set_modified"
        have rl: "same_links r r'" "length (encode r') = length (encode r)" "rec_wf r'" using rec_keeps_links [OF k] by auto
        have pv: "previous_address (set_modified (r_info r')) = previous_address (r_info r')" by (simp add: info_simps)
        note ip = in_place_modify [where R = R and b = b and f = set_modified, OF rd found(2,3,4) rl cl pv set_modified_open(1) [OF cl]]
        have "is_live (Some ?r)" using False k by (simp add: is_live_def set_info_layout info_simps rec_keeps_def)
        then show ?thesis
          unfolding e using True ip(1,2,5) w(2) wrote_info [of i r' set_modified]
          by (intro attemptI [where st' = "st\<lparr>st_log := ?l2\<rparr>" and R' = "R(b \<mapsto> ?r)"])
             (auto simp: store_frame_def upsert_post_def)
      next
        case nw: False
        have rr: "r' = r" using w(2) nw by simp
        have same: "?l' = st_log st" unfolding rr by (rule set_record_same [OF d(2) found(4)]) (use found(3) lo in simp)
        have st: "st\<lparr>st_log := ?l'\<rparr> = st" by (simp add: same)
        show ?thesis unfolding e if_not_P [OF nw] st by (rule cr [of "Some b"]) (use found(2,3) lo in auto)
      qed
    qed
  next
    case (below c' b)
    then show ?thesis by (intro cn) (simp add: upsert_locked_def Let_def)
  next
    case (none c')
    then show ?thesis by (intro cn) (simp add: upsert_locked_def Let_def)
  qed
qed

lemma upsert_attempt:
  assumes run: "can_run st s R" and room: "entry_room (st_index st) key" and ok: "ok_in i"
    and fit: "si_total_size (f_upsert_size fns key i) + PAGE_HEADER_SIZE \<le> page_size (st_log st)"
  shows "\<exists>op out' st' s' R'. protected st s (internal_upsert fns key (hash64 key) i out) = Some ((op, out'), st', s')
    \<and> store_inv st' R' \<and> op_frame st s st' s' \<and> (\<forall>k. k \<noteq> key \<longrightarrow> cur (st_index st') R' k = cur (st_index st) R k)
    \<and> upsert_post i (cur (st_index st) R key) op out' (cur (st_index st') R' key)
    \<and> op_cond st R key op st' R'"
proof (rule protected_attempt)
  show "store_inv st R" "has_slot st s" using run by (auto simp: can_run_def)
  fix ep and s' :: session
  let ?st = "st\<lparr>st_log := (st_log st)\<lparr>log_epoch := ep\<rparr>\<rparr>"
  assume dk: "data_ok (st_index st) ((st_log st)\<lparr>log_epoch := ep\<rparr>) R" and g: "guarded ((st_log st)\<lparr>log_epoch := ep\<rparr>)"
    and s': "phase (s_state s') = Rest" "s_txn_mode s' = s_txn_mode s"
  show "attempt ?st R key (upsert_post i (cur (st_index st) R key)) (internal_upsert fns key (hash64 key) i out ?st s')"
    unfolding internal_upsert_def
  proof (rule create_attempt)
    fix slot ix assume f: "find_tag ix (hash64 key) = Some (Some slot)" and d: "data_ok ix (st_log ?st) R"
      and c: "cur ix R key = cur (st_index ?st) R key"
    show "attempt (?st\<lparr>st_index := ix\<rparr>) R key (upsert_post i (cur (st_index st) R key))
        (upsert_locked fns (?st\<lparr>st_index := ix\<rparr>) s' slot key i out)"
      by (rule upsert_locked_post)
         (use f d c g s' ok fit run in \<open>simp_all add: ready_def can_run_def addr_room_def\<close>)
  qed (use dk room s' run in \<open>simp_all add: can_run_def\<close>)
qed

lemma upsert_loop_post:
  assumes "can_run st s R" and "entry_room (st_index st) key" and ok: "ok_in i"
    and "si_total_size (f_upsert_size fns key i) + PAGE_HEADER_SIZE \<le> page_size (st_log st)"
  shows "\<exists>status out' st' s' R'. upsert_loop fns left st s key i out = Some (status, out', st', s')
    \<and> store_inv st' R' \<and> op_frame st s st' s' \<and> (\<forall>k. k \<noteq> key \<longrightarrow> cur (st_index st') R' k = cur (st_index st) R k)
    \<and> (if status = StatusError then cur (st_index st') R' key = cur (st_index st) R key
       else upsert_post i (cur (st_index st) R key) (Done status) out' (cur (st_index st') R' key))
    \<and> (steady (st_log st) \<longrightarrow> waits (st_log st) \<le> left \<longrightarrow> status \<noteq> StatusError)"
  using assms(1,2,4)
proof (induction left arbitrary: st s R out rule: less_induct)
  case (less left st s R out)
  let ?c = "cur (st_index st) R key"
  from upsert_attempt [OF less.prems(1,2) ok less.prems(3), of out] obtain op out' st' s' R' where
    a: "protected st s (internal_upsert fns key (hash64 key) i out) = Some ((op, out'), st', s')" "store_inv st' R'" "op_frame st s st' s'"
      "\<forall>k. k \<noteq> key \<longrightarrow> cur (st_index st') R' k = cur (st_index st) R k" "upsert_post i ?c op out' (cur (st_index st') R' key)"
      "op_cond st R key op st' R'" by blast
  have res: ?case if "upsert_loop fns left st s key i out = Some (status, o1, st1, s1)" "store_inv st1 R1" "op_frame st s st1 s1"
      "\<And>k. k \<noteq> key \<Longrightarrow> cur (st_index st1) R1 k = cur (st_index st) R k"
      "if status = StatusError then cur (st_index st1) R1 key = ?c
       else upsert_post i ?c (Done status) o1 (cur (st_index st1) R1 key)"
      "steady (st_log st) \<Longrightarrow> waits (st_log st) \<le> left \<Longrightarrow> status \<noteq> StatusError" for status o1 st1 s1 R1
    using that by (intro exI [of _ status] exI [of _ o1] exI [of _ st1] exI [of _ s1] exI [of _ R1]) simp
  consider (fin) status where "op = Done status" "status \<noteq> StatusError" | (later) "op = OpRetryLater" "cur (st_index st') R' key = ?c"
    using a(5) by (cases op) (auto simp: upsert_post_def)
  then show ?case
  proof cases
    case (fin status)
    have "upsert_loop fns left st s key i out = Some (status, out', st', s')"
      using a(1) fin(1) by (subst upsert_loop.simps) simp
    from res [OF this a(2,3)] a(4,5) fin show ?thesis by simp
  next
    case later
    have bl: "retry_frame st R st' R' key" "blocked (st_log st) (st_log st')" using a(6) later(1) by (simp_all add: op_cond_def)
    from retry_step [OF less.prems(1,2) a(2,3) bl] have dec: "steady (st_log st) \<Longrightarrow> 0 < waits (st_log st)" by fastforce
    show ?thesis
    proof (cases left)
      case 0
      have "upsert_loop fns left st s key i out = Some (StatusError, out', st', s')"
        using a(1) later(1) 0 by (subst upsert_loop.simps) (simp add: handle_retry_def)
      then show ?thesis by (rule res [OF _ a(2,3)]) (use a(4) later(2) dec 0 in auto)
    next
      case (Suc n)
      from retry_step [OF less.prems(1,2) a(2,3) bl, of n] obtain st2 where
        h: "handle_retry st' OpRetryLater (Suc n) = Some (n, st2)" "can_run st2 s' R'" "entry_room (st_index st2) key"
          "op_frame st s st2 s'" "st_index st2 = st_index st'" "page_size (st_log st2) = page_size (st_log st)"
          "steady (st_log st) \<longrightarrow> waits (st_log st2) < waits (st_log st)" by blast
      have eq: "cur (st_index st2) R' k = cur (st_index st) R k" for k using h(5) later(2) a(4) by (cases "k = key") auto
      from less.IH [OF _ h(2,3) less.prems(3) [folded h(6)], of n out', unfolded eq] Suc obtain status o3 st3 s3 R3 where
        i: "upsert_loop fns n st2 s' key i out' = Some (status, o3, st3, s3)" "store_inv st3 R3" "op_frame st2 s' st3 s3"
          "\<forall>k. k \<noteq> key \<longrightarrow> cur (st_index st3) R3 k = cur (st_index st) R k"
          "if status = StatusError then cur (st_index st3) R3 key = ?c
           else upsert_post i ?c (Done status) o3 (cur (st_index st3) R3 key)"
          "steady (st_log st2) \<longrightarrow> waits (st_log st2) \<le> n \<longrightarrow> status \<noteq> StatusError" by blast
      have st: "status \<noteq> StatusError" if "steady (st_log st)" "waits (st_log st) \<le> left"
        using that h(4,7) i(6) Suc by (auto simp: op_frame_def)
      have "upsert_loop fns left st s key i out = Some (status, o3, st3, s3)"
        using a(1) h(1) later(1) i(1) Suc by (subst upsert_loop.simps) simp
      from res [OF this i(2) op_frame_trans [OF h(4) i(3)]] i(4,5) st show ?thesis by simp
    qed
  qed
qed

end

end
