(* ===== verification/StoreRead.thy ===== *)
theory StoreRead
  imports StoreUpsert
begin

text \<open>
  Read and Delete. A read gives what the reader callback makes of the newest record of the key, wherever the record is
  (in memory, or on the device after the walk left memory), and changes nothing; a delete leaves a tombstone as
  the newest record of a live key and changes nothing else.
\<close>

subsection \<open>From the device\<close>

lemma unsealed_open: "\<not> is_closed (r_info r) \<Longrightarrow> unsealed r = r"
proof -
  assume "\<not> is_closed (r_info r)"
  then have "r_info r AND NOT SEALED_BIT = r_info r"
    by (intro bit_word_eqI) (auto simp: is_closed_def info_bit_simps)
  then show ?thesis by (simp add: unsealed_def set_info_def)
qed

lemma disk_read:
  assumes dok: "data_ok ix l R" and df: "disk_from ix l R key a latest"
  shows "find_on_disk l a key = Some (cur ix R key)"
proof -
  have inv: "log_inv l R" and ch: "chain_ok R" and bg: "\<forall>x \<in> dom R. begin_address l \<le> x" and hd: "heads_ok ix R"
    using dok by (auto simp: data_ok_def data_base_def heads_ok_def)
  have lt: "a < flushed_until_address l \<or> a < FIRST_VALID_ADDRESS"
    using df log_invD(1) [OF inv] by (auto simp: disk_from_def hlog_wf_def watermarks_ok_def)
  have st: "chain_start R a" "newest R a key = cur_addr ix R key" using df by (auto simp: disk_from_def)
  have "map_option (\<lambda>b. unsealed (the (R b))) (cur_addr ix R key) = cur ix R key"
  proof (cases "cur_addr ix R key")
    case (Some b)
    from cur_addrD [OF Some] obtain r where r: "R b = Some r" "cur ix R key = Some r" by blast
    have "\<not> is_closed (r_info r)" using hd r(2) by (auto simp: heads_ok_def)
    with Some r unsealed_open show ?thesis by simp
  qed (simp add: cur_addr_cur)
  then show ?thesis using find_on_disk_newest [OF inv ch bg st(1) lt, of key] st(2) by simp
qed

lemma disk_from_stop:
  assumes rd: "located st s R key slot" and c: "chain_start R c" "FIRST_VALID_ADDRESS \<le> c" "c < head_address (st_log st)"
    and n: "newest R c key = cur_addr (st_index st) R key"
  shows "disk_from (st_index st) (st_log st) R key c (unat (he_address (slot_load (st_index st) slot)))"
  using rd c n index_lookup_slot by (auto simp: disk_from_def located_def)

subsection \<open>Read\<close>

definition read_result :: "('i, 'o) session_functions \<Rightarrow> bytes \<Rightarrow> 'i \<Rightarrow> rec option \<Rightarrow> 'o \<Rightarrow> Status \<times> 'o" where
  "read_result fns key i c out =
     (case c of None \<Rightarrow> (NotFound, out)
      | Some r \<Rightarrow> if is_tombstone (r_info r) then (NotFound, out)
          else (let (ok, out') = f_reader fns key i r out in (if ok then Found else NotFound, out')))"

definition read_post :: "('i, 'o) session_functions \<Rightarrow> bytes \<Rightarrow> 'i \<Rightarrow> rec option \<Rightarrow> 'o \<Rightarrow> Op \<Rightarrow> 'o \<Rightarrow> bool" where
  "read_post fns key i c out op out' \<longleftrightarrow>
     (case op of Done status \<Rightarrow> (status, out') = read_result fns key i c out | RecordOnDisk _ _ \<Rightarrow> out' = out | _ \<Rightarrow> False)"

lemma read_locked_post:
  assumes rd: "located st s R key slot"
  shows "\<exists>r. read_locked fns st s slot key i out = Some (r, st)
    \<and> read_post fns key i (cur (st_index st) R key) out (fst r) (snd r) \<and> op_cond st R key (fst r) st R"
proof -
  have ph: "phase (s_state s) = Rest" using rd by (simp add: located_def)
  from rd order_refl show ?thesis
  proof (cases rule: trace_cur)
    case (found b r)
    note gate = gate_open(1) [OF ph found(7), of st b]
    show ?thesis
    proof (cases "is_tombstone (r_info r)")
      case True
      then show ?thesis using found gate by (simp add: read_locked_def Let_def read_post_def read_result_def)
    next
      case False
      then show ?thesis
        using found gate by (cases "f_reader fns key i r out") (simp add: read_locked_def Let_def read_post_def read_result_def)
    qed
  next
    case (below c b)
    have "disk_from (st_index st) (st_log st) R key c (unat (he_address (slot_load (st_index st) slot)))"
      using below by (intro disk_from_stop [OF rd]) (auto simp: chain_start_def)
    then show ?thesis using below by (simp add: read_locked_def Let_def read_post_def op_cond_def)
  next
    case (none c)
    have cn: "cur (st_index st) R key = None" using none(2) by (simp add: cur_addr_cur)
    have "disk_from (st_index st) (st_log st) R key c (unat (he_address (slot_load (st_index st) slot)))" if "FIRST_VALID_ADDRESS \<le> c"
      using none that by (intro disk_from_stop [OF rd]) auto
    then show ?thesis using none(1) cn by (simp add: read_locked_def Let_def read_post_def read_result_def op_cond_def)
  qed
qed

lemma read_attempt:
  assumes run: "can_read st s R"
  shows "\<exists>op out' st' s' R'. protected st s (internal_read fns key (hash64 key) i out) = Some ((op, out'), st', s')
    \<and> store_inv st' R' \<and> op_frame st s st' s' \<and> (\<forall>k. k \<noteq> key \<longrightarrow> cur (st_index st') R' k = cur (st_index st) R k)
    \<and> (cur (st_index st') R' key = cur (st_index st) R key \<and> read_post fns key i (cur (st_index st) R key) out op out')
    \<and> op_cond st R key op st' R'"
proof (rule protected_attempt)
  show "store_inv st R" "has_slot st s" using run by (auto simp: can_read_def)
  fix ep and s' :: session
  let ?st = "st\<lparr>st_log := (st_log st)\<lparr>log_epoch := ep\<rparr>\<rparr>" and ?c = "cur (st_index st) R key"
  assume dk: "data_ok (st_index st) ((st_log st)\<lparr>log_epoch := ep\<rparr>) R" and g: "guarded ((st_log st)\<lparr>log_epoch := ep\<rparr>)"
    and s': "phase (s_state s') = Rest" "s_txn_mode s' = s_txn_mode s"
  have wf: "index_wf (st_index st)" using dk by (auto simp: data_ok_def data_base_def heads_ok_def)
  have "\<exists>r. internal_read fns key (hash64 key) i out ?st s' = Some (r, ?st)
      \<and> read_post fns key i ?c out (fst r) (snd r) \<and> op_cond ?st R key (fst r) ?st R"
  proof (cases "index_lookup (st_index st) (hash64 key)")
    case None
    then have "find_tag (st_index st) (hash64 key) = Some None" "?c = None"
      using find_tag_none [OF wf] by (auto simp: cur_def)
    then show ?thesis by (simp add: internal_read_def read_post_def read_result_def)
  next
    case (Some w)
    then obtain slot where f: "find_tag (st_index st) (hash64 key) = Some (Some slot)"
      by (auto simp: index_lookup_def split: option.splits)
    have "\<exists>r. with_latch ?st s' slot False out (\<lambda>st. read_locked fns st s' slot key i out) = Some (r, ?st)
        \<and> read_post fns key i ?c out (fst r) (snd r) \<and> op_cond ?st R key (fst r) ?st R"
    proof (rule with_latch_shared)
      fix ix assume si: "same_index (st_index ?st) ix"
      have "located (?st\<lparr>st_index := ix\<rparr>) s' R key slot"
        using f data_same [OF dk, of ix] s' si by (auto simp: located_def same_index_def)
      from read_locked_post [OF this, of fns i out] si
      show "\<exists>r. read_locked fns (?st\<lparr>st_index := ix\<rparr>) s' slot key i out = Some (r, ?st\<lparr>st_index := ix\<rparr>)
          \<and> read_post fns key i ?c out (fst r) (snd r) \<and> op_cond ?st R key (fst r) ?st R"
        by (auto simp: cur_same op_cond_def same_index_disk)
    qed (use wf find_tag_bucket [OF wf f] s' run in \<open>simp_all add: can_read_def\<close>)
    then show ?thesis using f by (simp add: internal_read_def)
  qed
  then obtain op out' where "internal_read fns key (hash64 key) i out ?st s' = Some ((op, out'), ?st)"
    "read_post fns key i ?c out op out'" "op_cond ?st R key op ?st R" by fastforce
  then show "attempt ?st R key (\<lambda>op out' c. c = ?c \<and> read_post fns key i ?c out op out') (internal_read fns key (hash64 key) i out ?st s')"
    using dk attempt_same [of ?st R "\<lambda>op out' c. c = ?c \<and> read_post fns key i ?c out op out'" op out' key] by simp
qed

lemma read_loop_post:
  assumes run: "can_read st s R"
  shows "\<exists>st' s' R'. (case read_result fns key i (cur (st_index st) R key) out of (status, out') \<Rightarrow>
      read_loop fns left st s key i out = Some (status, out', st', s'))
    \<and> store_inv st' R' \<and> op_frame st s st' s' \<and> (\<forall>k. cur (st_index st') R' k = cur (st_index st) R k)"
proof -
  let ?c = "cur (st_index st) R key"
  from read_attempt [OF run, of fns key i out] obtain op out' st' s' R' where
    a: "protected st s (internal_read fns key (hash64 key) i out) = Some ((op, out'), st', s')" "store_inv st' R'" "op_frame st s st' s'"
      "\<forall>k. k \<noteq> key \<longrightarrow> cur (st_index st') R' k = cur (st_index st) R k" "cur (st_index st') R' key = ?c"
      "read_post fns key i ?c out op out'" "op_cond st R key op st' R'" by blast
  have cu: "cur (st_index st') R' k = cur (st_index st) R k" for k using a(4,5) by (cases "k = key") auto
  consider (ret) status where "op = Done status" "(status, out') = read_result fns key i ?c out"
    | (disk) b latest where "op = RecordOnDisk b latest" "out' = out"
    using a(6) by (cases op) (auto simp: read_post_def)
  then have "case read_result fns key i ?c out of (status, out') \<Rightarrow> read_loop fns left st s key i out = Some (status, out', st', s')"
  proof cases
    case (ret status)
    have "read_loop fns left st s key i out = Some (status, out', st', s')"
      using a(1) ret(1) by (subst read_loop.simps) simp
    then show ?thesis using ret(2) by (cases "read_result fns key i ?c out") simp
  next
    case (disk b latest)
    have "disk_from (st_index st') (st_log st') R' key b latest" using a(7) disk(1) by (simp add: op_cond_def)
    then have "find_on_disk (st_log st') b key = Some ?c"
      using disk_read [of "st_index st'" "st_log st'" R'] a(2,5) by (simp add: store_inv_def)
    then have "read_from_disk fns st' b key i out = Some (read_result fns key i ?c out)"
      by (auto simp: read_from_disk_def read_result_def Let_def split: option.splits prod.splits)
    then show ?thesis using a(1) disk by (subst read_loop.simps) (cases "read_result fns key i ?c out", simp)
  qed
  then show ?thesis using a(2,3) cu by (intro exI [of _ st'] exI [of _ s'] exI [of _ R']) simp
qed

subsection \<open>Delete\<close>

definition delete_size :: "bytes \<Rightarrow> size_info" where
  "delete_size key = \<lparr>si_key_len = length key, si_value_cap = 0, si_has_expiration = False\<rparr>"

definition delete_post :: "rec option \<Rightarrow> Op \<Rightarrow> rec option \<Rightarrow> bool" where
  "delete_post c op c' \<longleftrightarrow>
     (case op of
        Done status \<Rightarrow>
          if is_live c then status = Deleted \<and> (\<exists>r. c' = Some r \<and> is_tombstone (r_info r)) else status = NotFound \<and> c' = c
      | OpRetryLater \<Rightarrow> c' = c | RecordOnDisk _ _ \<Rightarrow> c' = c | _ \<Rightarrow> False)"

definition delete_src :: "(rec option \<times> nat) option \<Rightarrow> (bool \<times> nat) option" where
  "delete_src = map_option (\<lambda>(c, seen). (is_live c, seen))"

lemma tombstone_attempt:
  assumes rd: "ready st s R key slot" and fit: "si_total_size (delete_size key) + PAGE_HEADER_SIZE \<le> page_size (st_log st)"
    and old: "\<And>b. old = Some b \<Longrightarrow> cur_addr (st_index st) R key = Some b \<and> head_address (st_log st) \<le> b"
    and post: "\<And>r0. fresh_rec key (delete_size key) r0 \<Longrightarrow>
        Q (Done Deleted) out (Some (set_info (set_info r0 set_tombstone) unseal_and_validate))"
    and later: "Q OpRetryLater out (cur (st_index st) R key)"
  shows "attempt st R key Q (delete_rcu st s slot (slot_load (st_index st) slot) key old out)"
  unfolding delete_rcu_def delete_size_def [symmetric]
proof (rule append_attempt [where Q = Q, OF rd refl _ fit _ old later])
  show "si_key_len (delete_size key) = length key" by (simp add: delete_size_def)
  fix r0 assume fr: "fresh_rec key (delete_size key) r0"
  have "same_links r0 (set_info r0 set_tombstone)" by (rule set_info_links) (simp add: info_simps)
  then show "\<exists>r out'. Some (set_info r0 set_tombstone, out) = Some (r, out') \<and> fills r0 r
      \<and> Q (Done Deleted) out' (Some (set_info r unseal_and_validate))"
    using fr post [OF fr] by (simp add: fills_def set_info_layout fresh_rec_def)
qed auto

lemma tombstone_post:
  assumes "is_live c"
  shows "delete_post c (Done Deleted) (Some (set_info (set_info r0 set_tombstone) unseal_and_validate))"
  using assms by (simp add: delete_post_def set_info_layout info_simps)

lemma no_newer_same: "no_newer l latest key latest = Some True"
  by (simp add: no_newer_def)

lemma disk_src_latest:
  assumes "ready st s R key slot" and "disk_ok (st_index st) (st_log st) R key (Some (c, seen))"
  shows "seen = unat (he_address (slot_load (st_index st) slot))" and "c = cur (st_index st) R key"
  using assms index_lookup_slot by (fastforce simp: disk_ok_def ready_def)+

lemma delete_locked_post:
  assumes rd: "ready st s R key slot" and fit: "si_total_size (delete_size key) + PAGE_HEADER_SIZE \<le> page_size (st_log st)"
    and src: "disk_ok (st_index st) (st_log st) R key src" and c: "cur (st_index st) R key = c"
  shows "attempt st R key (\<lambda>op out. delete_post c op) (delete_locked st s slot key (delete_src src))"
    and "src \<noteq> None \<Longrightarrow> attempt st R key (\<lambda>op out c'. delete_post c op c' \<and> (\<forall>a n. op \<noteq> RecordOnDisk a n))
      (delete_locked st s slot key (delete_src src))"
proof -
  note d = readyD [OF rd]
  have ph: "phase (s_state s) = Rest" using rd by (simp add: ready_def)
  let ?Q = "\<lambda>op (out :: unit) c'. delete_post c op c' \<and> (src \<noteq> None \<longrightarrow> (\<forall>a n. op \<noteq> RecordOnDisk a n))"
  have rcu: "attempt st R key ?Q (delete_rcu st s slot (slot_load (st_index st) slot) key old ())"
    if "is_live c" "\<And>b. old = Some b \<Longrightarrow> cur_addr (st_index st) R key = Some b \<and> head_address (st_log st) \<le> b" for old
    using tombstone_post [OF that(1)] that(2) c by (intro tombstone_attempt [OF rd fit]) (auto simp: delete_post_def)
  have stop: "attempt st R key ?Q (delete_locked st s slot key (delete_src src))"
    if t: "trace_back (st_log st) (unat (he_address (slot_load (st_index st) slot))) key (head_address (st_log st)) = Some (TraceStopped a)"
      and a: "chain_start R a" "FIRST_VALID_ADDRESS \<le> a" "a < head_address (st_log st)" "begin_address (st_log st) \<le> a"
      and n: "newest R a key = cur_addr (st_index st) R key" for a
  proof (cases src)
    case None
    have "disk_from (st_index st) (st_log st) R key a (unat (he_address (slot_load (st_index st) slot)))"
      by (rule disk_from_stop [OF ready_located [OF rd] a(1-3) n])
    moreover have "delete_locked st s slot key (delete_src src) =
        Some ((RecordOnDisk a (unat (he_address (slot_load (st_index st) slot))), ()), st)"
      using None t a by (simp add: delete_locked_def Let_def delete_src_def)
    ultimately show ?thesis
      using None c d(1) by (simp del: not_None_eq) (intro attempt_same; simp add: delete_post_def op_cond_def)
  next
    case (Some p)
    then obtain c1 seen where p: "src = Some (c1, seen)" by (cases p) auto
    note ds = disk_src_latest [OF rd src [unfolded p]]
    have "delete_locked st s slot key (delete_src src) =
        (if is_live c then delete_rcu st s slot (slot_load (st_index st) slot) key None () else Some ((Done NotFound, ()), st))"
      using t a ds c by (simp add: delete_locked_def Let_def delete_src_def p no_newer_same)
    then show ?thesis using rcu [of None] c d(1) by (auto intro!: attempt_same simp: delete_post_def)
  qed
  have main: "attempt st R key ?Q (delete_locked st s slot key (delete_src src))"
    using ready_located [OF rd] order_refl
  proof (cases rule: trace_cur)
    case (found b r)
    note gate = gate_open(1) [OF ph found(7), of st b]
    have lv: "is_live c \<longleftrightarrow> \<not> is_tombstone (r_info r)" using found(6) c by (simp add: is_live_def)
    consider (dead) "is_tombstone (r_info r)" | (mut) "\<not> is_tombstone (r_info r)" "read_only_address (st_log st) \<le> b"
      | (ro) "\<not> is_tombstone (r_info r)" "b < read_only_address (st_log st)" by linarith
    then show ?thesis
    proof cases
      case dead
      then have "delete_locked st s slot key (delete_src src) = Some ((Done NotFound, ()), st)"
        using found gate by (simp add: delete_locked_def Let_def)
      then show ?thesis using dead lv c d(1) by (auto intro!: attempt_same simp: delete_post_def)
    next
      case mut
      let ?r = "set_info r set_tombstone" and ?l1 = "modify_info (set_record_at (st_log st) b r) b set_tombstone"
      have same: "set_record_at (st_log st) b r = st_log st" by (rule set_record_same [OF d(2) found(4,3)])
      have pv: "previous_address (set_tombstone (r_info r)) = previous_address (r_info r)"
        "previous_address (set_modified (set_tombstone (r_info r))) = previous_address (set_tombstone (r_info r))" by (simp_all add: info_simps)
      note ip = in_place_modify [where R = R and b = b and f = set_tombstone, OF rd found(2) mut(2) found(4) same_links_refl refl found(9,7) pv(1)
          set_modified_open(2) [OF found(7)]]
      let ?st1 = "st\<lparr>st_log := ?l1\<rparr>" and ?R1 = "R(b \<mapsto> ?r)"
      have b1: "cur_addr (st_index ?st1) ?R1 key = Some b" "read_only_address (st_log ?st1) \<le> b" "?R1 b = Some ?r"
        using ip(3) found(2) mut(2) by (simp_all add: modify_info_def Let_def set_record_at_def)
      have w1: "rec_wf ?r" "\<not> is_closed (r_info ?r)" "previous_address (set_modified (r_info ?r)) = previous_address (r_info ?r)"
        "\<not> is_closed (set_modified (r_info ?r))"
        using found(7,9) pv(2) set_modified_open by (simp_all add: set_info_layout)
      note ip2 = in_place_modify [where R = ?R1 and b = b and f = set_modified, OF ip(4) b1 same_links_refl refl w1]
      have same2: "set_record_at ?l1 b ?r = ?l1"
        using ip(1) b1 by (intro set_record_same [where R = ?R1]) (use found(3) in \<open>auto simp: data_ok_def data_base_def modify_info_def Let_def set_record_at_def\<close>)
      let ?st2 = "st\<lparr>st_log := modify_info ?l1 b set_modified\<rparr>"
      have e: "delete_locked st s slot key (delete_src src) = Some ((Done Deleted, ()), ?st2)"
        using found gate mut gate_open(2) [OF ph, of st b "r_info r"] by (simp add: delete_locked_def Let_def same)
      show ?thesis
        unfolding e
      proof (rule attemptI [where st' = ?st2 and R' = "?R1(b \<mapsto> set_info ?r set_modified)"])
        show "data_ok (st_index ?st2) (st_log ?st2) (?R1(b \<mapsto> set_info ?r set_modified))" using ip2(1) same2 by simp
        show "store_frame st ?st2"
          using ip(5) log_ext_trans [OF _ modify_info_ext] by (simp add: store_frame_def)
        show "cur (st_index ?st2) (?R1(b \<mapsto> set_info ?r set_modified)) k = cur (st_index st) R k" if "k \<noteq> key" for k
          using ip2(2) [of k] ip(2) [of k] that by simp
        show "?Q (Done Deleted) () (cur (st_index ?st2) (?R1(b \<mapsto> set_info ?r set_modified)) key)"
          using ip2(2) [of key] lv mut(1) by (simp add: delete_post_def set_info_layout info_simps)
      qed auto
    next
      case ro
      then have "delete_locked st s slot key (delete_src src) = delete_rcu st s slot (slot_load (st_index st) slot) key (Some b) ()"
        using found gate by (simp add: delete_locked_def Let_def)
      then show ?thesis using rcu [of "Some b"] lv ro(1) found(2,3) by simp
    qed
  next
    case (below a b)
    then show ?thesis by (intro stop [of a]) (auto simp: chain_start_def)
  next
    case (none a)
    have cn: "\<not> is_live c" using none(2) c by (simp add: cur_addr_cur is_live_def split: option.splits)
    show ?thesis
    proof (cases "begin_address (st_log st) \<le> a \<and> FIRST_VALID_ADDRESS \<le> a")
      case True
      then show ?thesis using none by (intro stop [of a]) auto
    next
      case False
      then have "delete_locked st s slot key (delete_src src) = Some ((Done NotFound, ()), st)"
        using none(1) by (auto simp: delete_locked_def Let_def)
      then show ?thesis using cn c d(1) by (auto intro!: attempt_same simp: delete_post_def)
    qed
  qed
  show "attempt st R key (\<lambda>op out. delete_post c op) (delete_locked st s slot key (delete_src src))"
    using main unfolding attempt_def by blast
  show "attempt st R key (\<lambda>op out c'. delete_post c op c' \<and> (\<forall>a n. op \<noteq> RecordOnDisk a n))
      (delete_locked st s slot key (delete_src src))" if "src \<noteq> None"
    using main that unfolding attempt_def by blast
qed

definition delete_goal :: "rec option \<Rightarrow> (rec option \<times> nat) option \<Rightarrow> Op \<Rightarrow> unit \<Rightarrow> rec option \<Rightarrow> bool" where
  "delete_goal c src op out c' \<longleftrightarrow> delete_post c op c' \<and> (src \<noteq> None \<longrightarrow> (\<forall>a n. op \<noteq> RecordOnDisk a n))"

lemma delete_attempt:
  assumes run: "can_run st s R" and src: "disk_ok (st_index st) (st_log st) R key src"
    and fit: "si_total_size (delete_size key) + PAGE_HEADER_SIZE \<le> page_size (st_log st)"
  shows "\<exists>op out st' s' R'. protected st s (internal_delete key (hash64 key) (delete_src src)) = Some ((op, out), st', s')
    \<and> store_inv st' R' \<and> op_frame st s st' s' \<and> (\<forall>k. k \<noteq> key \<longrightarrow> cur (st_index st') R' k = cur (st_index st) R k)
    \<and> delete_goal (cur (st_index st) R key) src op out (cur (st_index st') R' key) \<and> op_cond st R key op st' R'"
proof (rule protected_attempt)
  show "store_inv st R" "has_slot st s" using run by (auto simp: can_run_def)
  fix ep and s' :: session
  let ?st = "st\<lparr>st_log := (st_log st)\<lparr>log_epoch := ep\<rparr>\<rparr>" and ?c = "cur (st_index st) R key"
  assume dk: "data_ok (st_index st) ((st_log st)\<lparr>log_epoch := ep\<rparr>) R" and g: "guarded ((st_log st)\<lparr>log_epoch := ep\<rparr>)"
    and s': "phase (s_state s') = Rest" "s_txn_mode s' = s_txn_mode s"
  have wf: "index_wf (st_index st)" using dk by (auto simp: data_ok_def data_base_def heads_ok_def)
  show "attempt ?st R key (delete_goal ?c src) (internal_delete key (hash64 key) (delete_src src) ?st s')"
  proof (cases "index_lookup (st_index st) (hash64 key)")
    case None
    then have "find_tag (st_index st) (hash64 key) = Some None" and n: "?c = None"
      using find_tag_none [OF wf] by (auto simp: cur_def)
    then have e: "internal_delete key (hash64 key) (delete_src src) ?st s' = Some ((Done NotFound, ()), ?st)"
      by (simp add: internal_delete_def)
    show ?thesis unfolding e by (rule attempt_same) (use dk n in \<open>simp_all add: delete_goal_def delete_post_def is_live_def\<close>)
  next
    case (Some w)
    then obtain slot where f: "find_tag (st_index st) (hash64 key) = Some (Some slot)"
      by (auto simp: index_lookup_def split: option.splits)
    have "attempt ?st R key (delete_goal ?c src)
        (with_latch ?st s' slot True () (\<lambda>st. delete_locked st s' slot key (delete_src src)))"
    proof (rule with_latch_attempt)
      fix ix assume si: "same_index (st_index ?st) ix"
      have rd: "ready (?st\<lparr>st_index := ix\<rparr>) s' R key slot"
        using f data_same [OF dk, of ix] g s' run si by (auto simp: ready_def can_run_def addr_room_def same_index_def)
      have k: "disk_ok (st_index (?st\<lparr>st_index := ix\<rparr>)) (st_log (?st\<lparr>st_index := ix\<rparr>)) R key src"
        "cur (st_index (?st\<lparr>st_index := ix\<rparr>)) R key = ?c"
        using src same_index_disk(1) [OF si] cur_same [OF si] by simp_all
      show "attempt (?st\<lparr>st_index := ix\<rparr>) R key (delete_goal ?c src)
          (delete_locked (?st\<lparr>st_index := ix\<rparr>) s' slot key (delete_src src))"
        using delete_locked_post [OF rd _ k] fit by (cases "src = None") (auto simp: delete_goal_def attempt_def)
    qed (use dk find_tag_bucket [OF wf f] s' run in \<open>simp_all add: can_run_def\<close>)
    then show ?thesis using f by (simp add: internal_delete_def)
  qed
qed

lemma disk_src_ok:
  assumes "data_ok ix l R" and "disk_from ix l R key a latest"
  shows "disk_ok ix l R key (Some (cur ix R key, latest))"
  using assms newest_SomeD by (fastforce simp: disk_ok_def disk_from_def)

lemma op_frame_page: "op_frame st s st' s' \<Longrightarrow> page_size (st_log st') = page_size (st_log st)"
  by (simp add: op_frame_def log_kept_def page_size_def)

lemma delete_goal_cases:
  assumes "delete_goal c src op out c'"
  obtains (fin) status where "op = Done status" "status \<noteq> StatusError" "delete_post c (Done status) c'"
  | (later) "op = OpRetryLater" "c' = c"
  | (disk) a latest where "op = RecordOnDisk a latest" "c' = c" "src = None"
  using assms by (cases op; cases src) (auto simp: delete_goal_def delete_post_def split: if_splits)

lemma delete_loop_post:
  assumes "can_run st s R" and "entry_room (st_index st) key" and "disk_ok (st_index st) (st_log st) R key src"
    and "si_total_size (delete_size key) + PAGE_HEADER_SIZE \<le> page_size (st_log st)"
  shows "\<exists>status st' s' R'. delete_loop left (delete_src src) st s key = Some (status, st', s')
    \<and> store_inv st' R' \<and> op_frame st s st' s' \<and> (\<forall>k. k \<noteq> key \<longrightarrow> cur (st_index st') R' k = cur (st_index st) R k)
    \<and> (if status = StatusError then cur (st_index st') R' key = cur (st_index st) R key
       else delete_post (cur (st_index st) R key) (Done status) (cur (st_index st') R' key))
    \<and> (steady (st_log st) \<longrightarrow> waits (st_log st) \<le> left \<longrightarrow> status \<noteq> StatusError)"
  using assms
proof (induction "2 * left + (if src = None then 1 else 0)" arbitrary: left src st s R rule: less_induct)
  case (less left src st s R)
  let ?c = "cur (st_index st) R key"
  from delete_attempt [OF less.prems(1,3,4)] obtain op out st' s' R' where
    a: "protected st s (internal_delete key (hash64 key) (delete_src src)) = Some ((op, out), st', s')" "store_inv st' R'" "op_frame st s st' s'"
      "\<forall>k. k \<noteq> key \<longrightarrow> cur (st_index st') R' k = cur (st_index st) R k" "delete_goal ?c src op out (cur (st_index st') R' key)"
      "op_cond st R key op st' R'" by blast
  have res: ?case if "delete_loop left (delete_src src) st s key = Some (status, st1, s1)" "store_inv st1 R1" "op_frame st s st1 s1"
      "\<And>k. k \<noteq> key \<Longrightarrow> cur (st_index st1) R1 k = cur (st_index st) R k"
      "if status = StatusError then cur (st_index st1) R1 key = ?c else delete_post ?c (Done status) (cur (st_index st1) R1 key)"
      "steady (st_log st) \<Longrightarrow> waits (st_log st) \<le> left \<Longrightarrow> status \<noteq> StatusError"
      for status st1 s1 R1
    using that by (intro exI [of _ status] exI [of _ st1] exI [of _ s1] exI [of _ R1]) simp
  have again: ?case if e: "delete_loop left (delete_src src) st s key = delete_loop n (delete_src src2) st2 s' key"
      and m: "2 * n + (if src2 = None then 1 else 0) < 2 * left + (if src = None then 1 else 0)" and run: "can_run st2 s' R'"
      and k: "entry_room (st_index st2) key" "disk_ok (st_index st2) (st_log st2) R' key src2" "op_frame st s st2 s'"
      and c: "st_index st2 = st_index st'" "cur (st_index st') R' key = ?c"
      and w: "steady (st_log st) \<Longrightarrow> waits (st_log st) \<le> left \<Longrightarrow> waits (st_log st2) \<le> n" for n src2 st2
  proof -
    have eq: "cur (st_index st2) R' k = cur (st_index st) R k" for k using c a(4) by (cases "k = key") auto
    from less.hyps [OF m run k(1,2) less.prems(4) [folded op_frame_page [OF k(3)]], unfolded eq] obtain status st3 s3 R3 where
      i: "delete_loop n (delete_src src2) st2 s' key = Some (status, st3, s3)" "store_inv st3 R3" "op_frame st2 s' st3 s3"
        "\<forall>k. k \<noteq> key \<longrightarrow> cur (st_index st3) R3 k = cur (st_index st) R k"
        "if status = StatusError then cur (st_index st3) R3 key = ?c else delete_post ?c (Done status) (cur (st_index st3) R3 key)"
        "steady (st_log st2) \<longrightarrow> waits (st_log st2) \<le> n \<longrightarrow> status \<noteq> StatusError"
      by blast
    have st: "status \<noteq> StatusError" if "steady (st_log st)" "waits (st_log st) \<le> left"
      using that k(3) i(6) w by (auto simp: op_frame_def)
    from res [OF e [unfolded i(1)] i(2) op_frame_trans [OF k(3) i(3)]] i(4,5) st show ?thesis by simp
  qed
  from a(5) show ?case
  proof (cases rule: delete_goal_cases)
    case (fin status)
    have "delete_loop left (delete_src src) st s key = Some (status, st', s')"
      using a(1) fin(1) by (subst delete_loop.simps) simp
    from res [OF this a(2,3)] a(4) fin show ?thesis by simp
  next
    case later
    have bl: "retry_frame st R st' R' key" "blocked (st_log st) (st_log st')" using a(6) later(1) by (simp_all add: op_cond_def)
    from retry_step [OF less.prems(1,2) a(2,3) bl] have dec: "steady (st_log st) \<Longrightarrow> 0 < waits (st_log st)" by fastforce
    show ?thesis
    proof (cases left)
      case 0
      have "delete_loop left (delete_src src) st s key = Some (StatusError, st', s')"
        using a(1) later(1) 0 by (subst delete_loop.simps) (simp add: handle_retry_def)
      then show ?thesis by (rule res [OF _ a(2,3)]) (use a(4) later(2) dec 0 in auto)
    next
      case (Suc n)
      from retry_step [OF less.prems(1,2) a(2,3) bl, of n] obtain st2 where
        h: "handle_retry st' OpRetryLater (Suc n) = Some (n, st2)" "can_run st2 s' R'" "entry_room (st_index st2) key"
          "op_frame st s st2 s'" "st_index st2 = st_index st'" "disk_ok (st_index st2) (st_log st2) R' key src"
          "steady (st_log st) \<longrightarrow> waits (st_log st2) < waits (st_log st)"
        using less.prems(3) by blast
      have "delete_loop left (delete_src src) st s key = delete_loop n (delete_src src) st2 s' key"
        using a(1) h(1) later(1) Suc by (subst delete_loop.simps) simp
      from again [OF this _ h(2,3,6,4,5) later(2)] h(7) Suc show ?thesis by fastforce
    qed
  next
    case (disk b latest)
    have df: "disk_from (st_index st') (st_log st') R' key b latest" and rf: "retry_frame st R st' R' key"
      and wt: "waits (st_log st') \<le> waits (st_log st)"
      using a(6) disk(1) by (auto simp: op_cond_def)
    have dk: "data_ok (st_index st') (st_log st') R'" using a(2) by (simp add: store_inv_def)
    let ?src = "Some (?c, latest)"
    have "find_on_disk (st_log st') b key = Some ?c" using disk_read [OF dk df] disk(2) by simp
    then have e: "delete_loop left (delete_src src) st s key = delete_loop left (delete_src ?src) st' s' key"
      using a(1) disk(1) by (subst delete_loop.simps) (simp add: delete_src_def is_live_def)
    have run: "can_run st' s' R'" and room: "entry_room (st_index st') key"
      using can_run_frame [OF less.prems(1) a(2,3)] rf less.prems(2) by (auto simp: retry_frame_def)
    from again [OF e _ run room _ a(3) refl disk(2)] disk_src_ok [OF dk df] disk(2,3) wt show ?thesis by simp
  qed
qed

end
