(* ===== verification/StoreModify.thy ===== *)
theory StoreModify
  imports StoreRead
begin

text \<open>
  Read-modify-write. The specification is the relation \<open>rmw_result\<close> on the record of the key: what the callbacks make of it
  in place, by copy, or as a first record, with an expired record tombstoned on the way. Which of the allowed
  results comes out depends on the log region of the record. \<open>rmw_retry\<close> is what an attempt may leave behind that has to
  be repeated.
\<close>

inductive rmw_copied for fns :: "('i, 'o) session_functions" and key :: bytes and i :: 'i where
  canceled: "f_need_copy_update fns key i r out = (CancelCopy, out') \<Longrightarrow> rmw_copied fns key i r out Canceled out' (Some r)"
| removed: "f_need_copy_update fns key i r out = (DeleteRecord, out') \<Longrightarrow> fresh_rec key (delete_size key) r0 \<Longrightarrow>
    rmw_copied fns key i r out Deleted out' (Some (set_info (set_info r0 set_tombstone) unseal_and_validate))"
| copied: "f_need_copy_update fns key i r out = (CopyRecord, out1) \<Longrightarrow> fresh_rec key (f_copy_size fns key i r) r0 \<Longrightarrow>
    f_copy_updater fns key i r r0 out1 = Some (r', out') \<Longrightarrow>
    rmw_copied fns key i r out CopyUpdated out' (Some (set_info r' unseal_and_validate))"

inductive rmw_result for fns :: "('i, 'o) session_functions" and key :: bytes and i :: 'i where
  absent: "\<not> is_live c \<Longrightarrow> f_need_initial_update fns key i out = (False, out') \<Longrightarrow> rmw_result fns key i c out NotFound out' c"
| created: "\<not> is_live c \<Longrightarrow> f_need_initial_update fns key i out = (True, out1) \<Longrightarrow> fresh_rec key (f_initial_size fns key i) r0 \<Longrightarrow>
    f_initial_updater fns key i r0 out1 = Some (r, out') \<Longrightarrow>
    rmw_result fns key i c out Created out' (Some (set_info r unseal_and_validate))"
| updated: "is_live (Some r) \<Longrightarrow> f_in_place_updater fns key i r out = Some (Updated, r', out') \<Longrightarrow>
    rmw_result fns key i (Some r) out InPlaceUpdated out' (Some (set_info r' set_modified))"
| cancel: "is_live (Some r) \<Longrightarrow> f_in_place_updater fns key i r out = Some (Cancel, r, out') \<Longrightarrow>
    rmw_result fns key i (Some r) out Found out' (Some r)"
| deleted: "is_live (Some r) \<Longrightarrow> f_in_place_updater fns key i r out = Some (Delete, r, out') \<Longrightarrow>
    rmw_result fns key i (Some r) out Deleted out' (Some (set_info r set_tombstone))"
| expired: "is_live (Some r) \<Longrightarrow> f_in_place_updater fns key i r out = Some (Expired, r, out1) \<Longrightarrow>
    rmw_result fns key i (Some (set_info r set_tombstone)) out1 status out' c' \<Longrightarrow> rmw_result fns key i (Some r) out status out' c'"
| need_copy: "is_live (Some r) \<Longrightarrow> f_in_place_updater fns key i r out = Some (NeedCopy, r, out1) \<Longrightarrow>
    rmw_copied fns key i r out1 status out' c' \<Longrightarrow> rmw_result fns key i (Some r) out status out' c'"
| copy: "is_live (Some r) \<Longrightarrow> rmw_copied fns key i r out status out' c' \<Longrightarrow> rmw_result fns key i (Some r) out status out' c'"

inductive rmw_retry for fns :: "('i, 'o) session_functions" and key :: bytes and i :: 'i where
  initial: "\<not> is_live c \<Longrightarrow> f_need_initial_update fns key i out = (True, out1) \<Longrightarrow> rmw_retry fns key i (c, out) (c, out1)"
| expired: "is_live (Some r) \<Longrightarrow> f_in_place_updater fns key i r out = Some (Expired, r, out1) \<Longrightarrow>
    rmw_retry fns key i (Some r, out) (Some (set_info r set_tombstone), out1)"
| need_copy: "is_live (Some r) \<Longrightarrow> f_in_place_updater fns key i r out = Some (NeedCopy, r, out1) \<Longrightarrow>
    rmw_retry fns key i (Some r, out) (Some r, out1)"
| copy: "is_live (Some r) \<Longrightarrow> f_need_copy_update fns key i r out = (d, out1) \<Longrightarrow> rmw_retry fns key i (Some r, out) (Some r, out1)"

definition rmw_post :: "('i, 'o) session_functions \<Rightarrow> bytes \<Rightarrow> 'i \<Rightarrow> rec option \<Rightarrow> 'o \<Rightarrow> Op \<Rightarrow> 'o \<Rightarrow> rec option \<Rightarrow> bool" where
  "rmw_post fns key i c out op out' c' \<longleftrightarrow>
     (case op of Done status \<Rightarrow> rmw_result fns key i c out status out' c'
      | OpRetryLater \<Rightarrow> (rmw_retry fns key i)\<^sup>*\<^sup>* (c, out) (c', out')
      | RecordOnDisk _ _ \<Rightarrow> c' = c \<and> out' = out | _ \<Rightarrow> False)"

definition no_disk :: "Op \<Rightarrow> bool" where
  "no_disk op \<longleftrightarrow> (\<forall>a n. op \<noteq> RecordOnDisk a n)"

definition rmw_memory :: "('i, 'o) session_functions \<Rightarrow> bytes \<Rightarrow> 'i \<Rightarrow> rec option \<Rightarrow> 'o \<Rightarrow> Op \<Rightarrow> 'o \<Rightarrow> rec option \<Rightarrow> bool" where
  "rmw_memory fns key i c out op out' c' \<longleftrightarrow> rmw_post fns key i c out op out' c' \<and> no_disk op"

definition rmw_fits :: "('i, 'o) session_functions \<Rightarrow> bytes \<Rightarrow> 'i \<Rightarrow> rec option \<Rightarrow> hlog \<Rightarrow> bool" where
  \<comment> \<open>the record an attempt may have to append fits a page\<close>
  "rmw_fits fns key i c l \<longleftrightarrow> si_total_size (f_initial_size fns key i) + PAGE_HEADER_SIZE \<le> page_size l
     \<and> (\<forall>r. c = Some r \<longrightarrow> is_live c \<longrightarrow> si_total_size (f_copy_size fns key i r) + PAGE_HEADER_SIZE \<le> page_size l)"

lemma delete_size_le: "si_key_len sz = length key \<Longrightarrow> si_total_size (delete_size key) \<le> si_total_size sz"
  by (simp add: si_total_size_def delete_size_def align8_def div_le_mono)

lemma rmw_retry_live: "(rmw_retry fns key i)\<^sup>*\<^sup>* x y \<Longrightarrow> fst y = fst x \<or> \<not> is_live (fst y)"
proof (induction rule: rtranclp_induct)
  case (step y z)
  from step(2) have "fst z = fst y \<or> \<not> is_live (fst z)"
    by cases (auto simp: is_live_def set_info_layout info_simps)
  with step(3) show ?case by auto
qed simp

lemma rmw_retry_fits:
  "rmw_fits fns key i c l \<Longrightarrow> (rmw_retry fns key i)\<^sup>*\<^sup>* (c, out) (c', out') \<Longrightarrow> page_size l' = page_size l \<Longrightarrow> rmw_fits fns key i c' l'"
  using rmw_retry_live [of fns key i "(c, out)" "(c', out')"] by (auto simp: rmw_fits_def)

lemma rmw_result_status: "rmw_result fns key i c out status out' c' \<Longrightarrow> status \<noteq> StatusError"
  by (induction rule: rmw_result.induct) (auto elim: rmw_copied.cases)

lemma rmw_post_cases:
  assumes "rmw_post fns key i c out op out' c' \<and> (src \<noteq> None \<longrightarrow> no_disk op)"
  obtains (fin) status where "op = Done status" "status \<noteq> StatusError" "rmw_result fns key i c out status out' c'"
  | (later) "op = OpRetryLater" "(rmw_retry fns key i)\<^sup>*\<^sup>* (c, out) (c', out')"
  | (disk) a latest where "op = RecordOnDisk a latest" "c' = c" "out' = out" "src = None"
  using assms by (cases op; cases src) (auto simp: rmw_post_def no_disk_def dest: rmw_result_status)

definition rmw_outcome :: "('i, 'o) session_functions \<Rightarrow> bytes \<Rightarrow> 'i \<Rightarrow> rec option \<Rightarrow> 'o \<Rightarrow> Status \<Rightarrow> 'o \<Rightarrow> rec option \<Rightarrow> bool" where
  \<comment> \<open>a result after some attempts that had to be repeated, or only those when the retries ran out\<close>
  "rmw_outcome fns key i c out status out' c' \<longleftrightarrow>
     (\<exists>c1 out1. (rmw_retry fns key i)\<^sup>*\<^sup>* (c, out) (c1, out1)
       \<and> (if status = StatusError then c' = c1 \<and> out' = out1 else rmw_result fns key i c1 out1 status out' c'))"

lemma rmw_outcome_step:
  "(rmw_retry fns key i)\<^sup>*\<^sup>* (c, out) (c1, out1) \<Longrightarrow> rmw_outcome fns key i c1 out1 status out' c' \<Longrightarrow>
     rmw_outcome fns key i c out status out' c'"
  unfolding rmw_outcome_def by (meson rtranclp_trans)

locale rmw_callbacks =
  fixes fns :: "('i, 'o) session_functions" and ok_in :: "'i \<Rightarrow> bool"
  assumes initial_key: "si_key_len (f_initial_size fns key i) = length key"
    and copy_key: "si_key_len (f_copy_size fns key i r) = length key"
    and initial_updater: "ok_in i \<Longrightarrow> f_need_initial_update fns key i out0 = (True, out) \<Longrightarrow>
      fresh_rec key (f_initial_size fns key i) r \<Longrightarrow> \<exists>r' out'. f_initial_updater fns key i r out = Some (r', out') \<and> rec_keeps r r'"
    and in_place_updater: "ok_in i \<Longrightarrow> rec_wf r \<Longrightarrow> \<exists>res r' out'. f_in_place_updater fns key i r out = Some (res, r', out')
      \<and> rec_keeps r r' \<and> (res \<noteq> Updated \<longrightarrow> r' = r)"
    and copy_updater: "ok_in i \<Longrightarrow> rec_wf old \<Longrightarrow> f_need_copy_update fns key i old out0 = (CopyRecord, out) \<Longrightarrow>
      fresh_rec key (f_copy_size fns key i old) r \<Longrightarrow> \<exists>r' out'. f_copy_updater fns key i old r out = Some (r', out') \<and> rec_keeps r r'"
begin

lemma rmw_initial_post:
  assumes rd: "ready st s R key slot" and ok: "ok_in i" and c: "cur (st_index st) R key = c" "\<not> is_live c"
    and fit: "si_total_size (f_initial_size fns key i) + PAGE_HEADER_SIZE \<le> page_size (st_log st)"
  shows "attempt st R key (rmw_memory fns key i c out) (rmw_initial fns st s slot (slot_load (st_index st) slot) key i out)"
proof -
  obtain need out1 where n: "f_need_initial_update fns key i out = (need, out1)" by (cases "f_need_initial_update fns key i out")
  show ?thesis
  proof (cases need)
    case False
    then show ?thesis
      using n c readyD(1) [OF rd] rmw_result.absent [of c fns key i out out1]
      by (auto simp: rmw_initial_def rmw_memory_def rmw_post_def no_disk_def intro!: attempt_same)
  next
    case True
    have "attempt st R key (rmw_memory fns key i c out) (append_record st s slot (slot_load (st_index st) slot) key (f_initial_size fns key i)
        (\<lambda>r. f_initial_updater fns key i r out1) None Created out1)"
    proof (rule append_attempt [OF rd refl initial_key fit])
      fix r0 assume fr: "fresh_rec key (f_initial_size fns key i) r0"
      have "f_need_initial_update fns key i out = (True, out1)" using n True by simp
      from initial_updater [OF ok this fr] obtain r out' where
        w: "f_initial_updater fns key i r0 out1 = Some (r, out')" "rec_keeps r0 r" by blast
      then show "\<exists>r out'. f_initial_updater fns key i r0 out1 = Some (r, out') \<and> fills r0 r
          \<and> rmw_memory fns key i c out (Done Created) out' (Some (set_info r unseal_and_validate))"
        using rec_keeps_fills [OF w(2)] rmw_result.created [OF c(2) _ fr w(1), of out] n True by (simp add: rmw_memory_def rmw_post_def no_disk_def)
    next
      show "rmw_memory fns key i c out OpRetryLater out1 (cur (st_index st) R key)"
        using rmw_retry.initial [of c fns key i out out1] n True c by (auto simp: rmw_memory_def rmw_post_def no_disk_def)
    qed auto
    then show ?thesis using n True by (simp add: rmw_initial_def)
  qed
qed

lemma rmw_copy_post:
  assumes rd: "ready st s R key slot" and ok: "ok_in i" and c: "cur (st_index st) R key = Some r" "is_live (Some r)"
    and wf: "rec_wf r" and fit: "rmw_fits fns key i (Some r) (st_log st)"
    and seal: "seal \<Longrightarrow> cur_addr (st_index st) R key = Some a \<and> head_address (st_log st) \<le> a"
    and Q: "\<And>status out' c'. rmw_copied fns key i r out status out' c' \<Longrightarrow> Q (Done status) out' c'"
      "\<And>d out'. f_need_copy_update fns key i r out = (d, out') \<Longrightarrow> Q OpRetryLater out' (Some r)"
  shows "attempt st R key Q (rmw_copy fns st s slot (slot_load (st_index st) slot) key i out a r seal)"
proof -
  obtain d out1 where n: "f_need_copy_update fns key i r out = (d, out1)" by (cases "f_need_copy_update fns key i r out")
  let ?old = "if seal \<and> a \<noteq> 0 then Some a else None"
  have old: "cur_addr (st_index st) R key = Some b \<and> head_address (st_log st) \<le> b" if "?old = Some b" for b
    using that seal by (auto split: if_splits)
  have fits: "si_total_size (f_copy_size fns key i r) + PAGE_HEADER_SIZE \<le> page_size (st_log st)"
    "si_total_size (delete_size key) + PAGE_HEADER_SIZE \<le> page_size (st_log st)"
    using fit c(2) delete_size_le [OF copy_key [of key i r]] by (auto simp: rmw_fits_def)
  have lt: "Q OpRetryLater out1 (cur (st_index st) R key)" using Q(2) [OF n] c(1) by simp
  show ?thesis
  proof (cases d)
    case CancelCopy
    then show ?thesis
      using n c readyD(1) [OF rd] Q(1) [OF rmw_copied.canceled] by (auto simp: rmw_copy_def intro!: attempt_same)
  next
    case DeleteRecord
    have "attempt st R key Q (delete_rcu st s slot (slot_load (st_index st) slot) key ?old out1)"
      by (rule tombstone_attempt [where Q = Q, OF rd fits(2) old Q(1) [OF rmw_copied.removed [OF n [unfolded DeleteRecord]]] lt])
    then show ?thesis using n DeleteRecord by (simp add: rmw_copy_def Let_def)
  next
    case CopyRecord
    have "attempt st R key Q (append_record st s slot (slot_load (st_index st) slot) key (f_copy_size fns key i r)
        (\<lambda>r0. f_copy_updater fns key i r r0 out1) ?old CopyUpdated out1)"
    proof (rule append_attempt [where Q = Q, OF rd refl copy_key fits(1) _ old lt])
      fix r0 assume fr: "fresh_rec key (f_copy_size fns key i r) r0"
      from copy_updater [OF ok wf n [unfolded CopyRecord] fr] obtain r' out' where
        w: "f_copy_updater fns key i r r0 out1 = Some (r', out')" "rec_keeps r0 r'" by blast
      then show "\<exists>r' out'. f_copy_updater fns key i r r0 out1 = Some (r', out') \<and> fills r0 r'
          \<and> Q (Done CopyUpdated) out' (Some (set_info r' unseal_and_validate))"
        using rec_keeps_fills [OF w(2)] Q(1) [OF rmw_copied.copied [OF n [unfolded CopyRecord] fr w(1)]] by blast
    qed
    then show ?thesis using n CopyRecord by (simp add: rmw_copy_def Let_def)
  qed
qed

lemma rmw_copy_region:
  assumes rd: "ready st s R key slot" and ok: "ok_in i" and c: "cur (st_index st) R key = Some r" "is_live (Some r)"
    and wf: "rec_wf r" and fit: "rmw_fits fns key i (Some r) (st_log st)"
  shows "attempt st R key (rmw_memory fns key i (Some r) out)
    (rmw_copy fns st s slot (slot_load (st_index st) slot) key i out a r False)"
proof (rule rmw_copy_post [OF rd ok c wf fit])
  show "rmw_memory fns key i (Some r) out (Done status) out' c'" if "rmw_copied fns key i r out status out' c'" for status out' c'
    using rmw_result.copy [OF c(2) that] by (simp add: rmw_memory_def rmw_post_def no_disk_def)
  show "rmw_memory fns key i (Some r) out OpRetryLater out' (Some r)" if "f_need_copy_update fns key i r out = (d, out')" for d out'
    using rmw_retry.copy [OF c(2) that] by (simp add: rmw_memory_def rmw_post_def no_disk_def)
qed simp

text \<open>The mutable region: the record is handed to the in-place updater.\<close>

lemma rmw_in_place_post:
  assumes rd: "ready st s R key slot" and ok: "ok_in i" and b: "cur_addr (st_index st) R key = Some b" "read_only_address (st_log st) \<le> b"
    and r: "R b = Some r" "cur (st_index st) R key = Some r" "\<not> is_closed (r_info r)" "record_at (st_log st) b = r" "rec_wf r"
    and live: "is_live (Some r)" and h: "head_address (st_log st) \<le> b" and fit: "rmw_fits fns key i (Some r) (st_log st)"
  shows "attempt st R key (rmw_memory fns key i (Some r) out) (rmw_found fns st s slot (slot_load (st_index st) slot) key i out b)"
proof -
  note d = readyD [OF rd]
  have ph: "phase (s_state s) = Rest" using rd by (simp add: ready_def)
  from in_place_updater [OF ok r(5), of key out] obtain res r' out1 where
    u: "f_in_place_updater fns key i r out = Some (res, r', out1)" "rec_keeps r r'" "res \<noteq> Updated \<longrightarrow> r' = r" by blast
  have same: "set_record_at (st_log st) b r = st_log st" by (rule set_record_same [OF d(2) r(1) h])
  have e: "rmw_found fns st s slot (slot_load (st_index st) slot) key i out b =
      (let l' = set_record_at (st_log st) b r'; st' = st\<lparr>st_log := l'\<rparr> in
       case res of
         Updated \<Rightarrow> Some ((Done InPlaceUpdated, out1), st\<lparr>st_log := modify_info l' b set_modified\<rparr>)
       | Cancel \<Rightarrow> Some ((Done Found, out1), st')
       | Expired \<Rightarrow> rmw_initial fns (st\<lparr>st_log := modify_info l' b set_tombstone\<rparr>) s slot (slot_load (st_index st) slot) key i out1
       | Delete \<Rightarrow> Some ((Done Deleted, out1), st\<lparr>st_log := modify_info l' b set_tombstone\<rparr>)
       | NeedCopy \<Rightarrow> rmw_copy fns st' s slot (slot_load (st_index st) slot) key i out1 b (record_at l' b) True)"
    using gate_open(1) [OF ph r(3), of st b] gate_open(2) [OF ph, of st b "r_info r"] live b(2) r(4) u(1)
    by (simp add: rmw_found_def Let_def is_live_def)
  have rl: "same_links r r'" "length (encode r') = length (encode r)" "rec_wf r'" and cl: "\<not> is_closed (r_info r')"
    using rec_keeps_links [OF u(2)] u(2) r(3) by (auto simp: rec_keeps_def)
  have pv: "previous_address (set_modified (r_info r')) = previous_address (r_info r')"
    "previous_address (set_tombstone (r_info r')) = previous_address (r_info r')" by (simp_all add: info_simps)
  note mod = in_place_modify [where R = R and b = b and f = set_modified, OF rd b r(1) rl cl pv(1) set_modified_open(1) [OF cl]]
  note tomb = in_place_modify [where R = R and b = b and f = set_tombstone, OF rd b r(1) rl cl pv(2) set_modified_open(2) [OF cl]]
  let ?lt = "modify_info (set_record_at (st_log st) b r') b set_tombstone" and ?rt = "set_info r' set_tombstone"
  show ?thesis
  proof (cases res)
    case Updated
    then show ?thesis
      unfolding e using mod(1,2,5) rmw_result.updated [OF live u(1) [unfolded Updated]]
      by (intro attemptI [where st' = "st\<lparr>st_log := modify_info (set_record_at (st_log st) b r') b set_modified\<rparr>"
            and R' = "R(b \<mapsto> set_info r' set_modified)"]) (auto simp: store_frame_def rmw_memory_def rmw_post_def no_disk_def)
  next
    case Delete
    then have "r' = r" using u(3) by simp
    with Delete show ?thesis
      unfolding e using tomb(1,2,5) rmw_result.deleted [OF live] u(1)
      by (intro attemptI [where st' = "st\<lparr>st_log := ?lt\<rparr>" and R' = "R(b \<mapsto> ?rt)"]) (auto simp: store_frame_def rmw_memory_def rmw_post_def no_disk_def)
  next
    case Cancel
    then have rr: "r' = r" using u(3) by simp
    have "rmw_result fns key i (Some r) out Found out1 (Some r)" using rmw_result.cancel [OF live] u(1) Cancel rr by simp
    with Cancel show ?thesis
      unfolding e rr same using d(1) r(2) by (auto intro!: attempt_same simp: rmw_memory_def rmw_post_def no_disk_def)
  next
    case NeedCopy
    then have rr: "r' = r" using u(3) by simp
    note un = u(1) [unfolded NeedCopy rr]
    have "attempt st R key (rmw_memory fns key i (Some r) out) (rmw_copy fns st s slot (slot_load (st_index st) slot) key i out1 b r True)"
    proof (rule rmw_copy_post [OF rd ok r(2) live r(5) fit])
      show "rmw_memory fns key i (Some r) out (Done status) out' c'" if "rmw_copied fns key i r out1 status out' c'" for status out' c'
        using rmw_result.need_copy [OF live un that] by (simp add: rmw_memory_def rmw_post_def no_disk_def)
      show "rmw_memory fns key i (Some r) out OpRetryLater out' (Some r)" if "f_need_copy_update fns key i r out1 = (dd, out')" for dd out'
        using rmw_retry.need_copy [OF live un] rmw_retry.copy [OF live that] by (auto simp: rmw_memory_def rmw_post_def no_disk_def)
    qed (use b h in simp)
    then show ?thesis unfolding e using NeedCopy rr same r(4) by (simp add: Let_def)
  next
    case Expired
    then have rr: "r' = r" using u(3) by simp
    note un = u(1) [unfolded Expired rr]
    let ?st1 = "st\<lparr>st_log := ?lt\<rparr>" and ?R1 = "R(b \<mapsto> ?rt)"
    have nl: "\<not> is_live (Some ?rt)" by (simp add: is_live_def set_info_layout info_simps)
    have ps: "page_size (st_log ?st1) = page_size (st_log st)" using log_ext_geometry [OF tomb(5)] by simp
    have "attempt ?st1 ?R1 key (rmw_memory fns key i (Some ?rt) out1)
        (rmw_initial fns ?st1 s slot (slot_load (st_index ?st1) slot) key i out1)"
      using tomb(2) [of key] fit ps by (intro rmw_initial_post [OF tomb(4) ok _ nl]) (simp_all add: rmw_fits_def)
    then have at: "attempt ?st1 ?R1 key (rmw_memory fns key i (Some ?rt) out1)
        (rmw_initial fns ?st1 s slot (slot_load (st_index st) slot) key i out1)" by simp
    have "attempt st R key (rmw_memory fns key i (Some ?rt) out1) (rmw_initial fns ?st1 s slot (slot_load (st_index st) slot) key i out1)"
    proof (rule attempt_from [OF at])
      show "store_frame st ?st1" using tomb(5) by (simp add: store_frame_def)
      show "cur (st_index ?st1) ?R1 k = cur (st_index st) R k" if "k \<noteq> key" for k using tomb(2) [of k] that by simp
      show "retry_frame st R ?st1 ?R1 key"
        using b(1) h by (auto simp: retry_frame_def disk_ok_def modify_info_def Let_def set_record_at_def)
    qed (simp_all add: modify_info_def Let_def set_record_at_def)
    then have "attempt st R key (rmw_memory fns key i (Some r) out) (rmw_initial fns ?st1 s slot (slot_load (st_index st) slot) key i out1)"
    proof (rule attempt_mono)
      fix op out' c' assume p: "rmw_memory fns key i (Some ?rt) out1 op out' c'"
      show "rmw_memory fns key i (Some r) out op out' c'"
        using p rmw_result.expired [OF live un] converse_rtranclp_into_rtranclp [where r = "rmw_retry fns key i", OF rmw_retry.expired [OF live un]]
        unfolding rr by (cases op) (auto simp: rmw_memory_def rmw_post_def no_disk_def)
    qed
    then show ?thesis unfolding e using Expired by (simp add: Let_def)
  qed
qed

lemma rmw_locked_post:
  assumes rd: "ready st s R key slot" and ok: "ok_in i" and c: "cur (st_index st) R key = c"
    and fit: "rmw_fits fns key i c (st_log st)" and src: "disk_ok (st_index st) (st_log st) R key src"
  shows "attempt st R key (\<lambda>op out' c'. rmw_post fns key i c out op out' c' \<and> (src \<noteq> None \<longrightarrow> no_disk op))
    (rmw_locked fns st s slot key i src out)"
proof -
  note d = readyD [OF rd]
  let ?Q = "\<lambda>op out' c'. rmw_post fns key i c out op out' c' \<and> (src \<noteq> None \<longrightarrow> no_disk op)"
  have ph: "phase (s_state s) = Rest" using rd by (simp add: ready_def)
  have mem: "attempt st R key ?Q res" if "attempt st R key (rmw_memory fns key i c out) res" for res
    using that by (rule attempt_mono) (simp add: rmw_memory_def)
  have init: "attempt st R key ?Q (rmw_initial fns st s slot (slot_load (st_index st) slot) key i out)" if "\<not> is_live c"
    using fit by (intro mem rmw_initial_post [OF rd ok c that]) (simp add: rmw_fits_def)
  have copy: "attempt st R key ?Q (rmw_copy fns st s slot (slot_load (st_index st) slot) key i out a r False)"
    if cs: "c = Some r" "is_live c" for a r
  proof (rule mem)
    obtain b where "R b = Some r" using c cs(1) by (cases "cur_addr (st_index st) R key") (auto simp: cur_addr_cur)
    then have wf: "rec_wf r" using log_invD(3) [OF d(2)] by (simp add: rec_placed_def)
    show "attempt st R key (rmw_memory fns key i c out) (rmw_copy fns st s slot (slot_load (st_index st) slot) key i out a r False)"
      unfolding cs(1) by (rule rmw_copy_region [OF rd ok _ _ wf]) (use c cs fit in simp_all)
  qed
  have stop: "attempt st R key ?Q (rmw_locked fns st s slot key i src out)"
    if t: "trace_back (st_log st) (unat (he_address (slot_load (st_index st) slot))) key (head_address (st_log st)) = Some (TraceStopped a)"
      and a: "chain_start R a" "FIRST_VALID_ADDRESS \<le> a" "a < head_address (st_log st)" "begin_address (st_log st) \<le> a"
      and n: "newest R a key = cur_addr (st_index st) R key" for a
  proof (cases src)
    case None
    have "disk_from (st_index st) (st_log st) R key a (unat (he_address (slot_load (st_index st) slot)))"
      by (rule disk_from_stop [OF ready_located [OF rd] a(1-3) n])
    moreover have e: "rmw_locked fns st s slot key i src out =
        Some ((RecordOnDisk a (unat (he_address (slot_load (st_index st) slot))), out), st)"
      using None t a by (simp add: rmw_locked_def Let_def)
    ultimately show ?thesis
      unfolding e using None c d(1) by (intro attempt_same) (simp_all add: rmw_post_def op_cond_def)
  next
    case (Some p)
    then obtain c1 seen where p: "src = Some (c1, seen)" by (cases p) auto
    note ds = disk_src_latest [OF rd src [unfolded p]]
    have e: "rmw_locked fns st s slot key i src out =
        (case c of Some old \<Rightarrow> if \<not> is_tombstone (r_info old) then rmw_copy fns st s slot (slot_load (st_index st) slot) key i out 0 old False
             else rmw_initial fns st s slot (slot_load (st_index st) slot) key i out
         | None \<Rightarrow> rmw_initial fns st s slot (slot_load (st_index st) slot) key i out)"
      using t a ds c by (simp add: rmw_locked_def Let_def p no_newer_same)
    show ?thesis
      unfolding e using init copy [where a = 0] by (cases c) (auto simp: is_live_def)
  qed
  from ready_located [OF rd] order_refl show ?thesis
  proof (cases rule: trace_cur)
    case (found b r)
    have cr: "c = Some r" using found(6) c by simp
    have lv: "is_live c \<longleftrightarrow> \<not> is_tombstone (r_info r)" using cr by (simp add: is_live_def)
    have e: "rmw_locked fns st s slot key i src out = rmw_found fns st s slot (slot_load (st_index st) slot) key i out b"
      using found(1) by (simp add: rmw_locked_def Let_def)
    note gate = gate_open(1) [OF ph found(7), of st b]
    consider (dead) "is_tombstone (r_info r)" | (mut) "\<not> is_tombstone (r_info r)" "read_only_address (st_log st) \<le> b"
      | (fuzzy) "\<not> is_tombstone (r_info r)" "b < read_only_address (st_log st)" "safe_read_only_address (st_log st) \<le> b"
      | (ro) "\<not> is_tombstone (r_info r)" "b < read_only_address (st_log st)" "b < safe_read_only_address (st_log st)" by linarith
    then show ?thesis
    proof cases
      case dead
      then have "rmw_found fns st s slot (slot_load (st_index st) slot) key i out b =
          rmw_initial fns st s slot (slot_load (st_index st) slot) key i out"
        using gate found(8) by (simp add: rmw_found_def Let_def)
      then show ?thesis using init lv dead by (simp add: e)
    next
      case mut
      show ?thesis
        unfolding e by (rule mem, unfold cr, rule rmw_in_place_post [OF rd ok found(2) mut(2) found(4,6,7,8,9) _ found(3)])
          (use lv mut cr fit in simp_all)
    next
      case fuzzy
      then have r: "rmw_found fns st s slot (slot_load (st_index st) slot) key i out b = Some ((OpRetryLater, out), st)"
        using gate found(8) by (simp add: rmw_found_def Let_def)
      show ?thesis
        unfolding e r using c d(1) by (intro attempt_same) (use fuzzy in \<open>simp_all add: rmw_post_def no_disk_def op_cond_def blocked_def\<close>)
    next
      case ro
      then have "rmw_found fns st s slot (slot_load (st_index st) slot) key i out b =
          rmw_copy fns st s slot (slot_load (st_index st) slot) key i out b r False"
        using gate found(8) by (simp add: rmw_found_def Let_def)
      then show ?thesis using copy [OF cr, of b] lv ro by (simp add: e)
    qed
  next
    case (below a b)
    then show ?thesis by (intro stop [of a]) (auto simp: chain_start_def)
  next
    case (none a)
    have cn: "\<not> is_live c" using none(2) c by (simp add: cur_addr_cur is_live_def split: option.splits)
    show ?thesis
    proof (cases "begin_address (st_log st) \<le> a \<and> FIRST_VALID_ADDRESS \<le> a")
      case True
      then show ?thesis using none by (intro stop [of a]) auto
    next
      case False
      then have "rmw_locked fns st s slot key i src out = rmw_initial fns st s slot (slot_load (st_index st) slot) key i out"
        using none(1) by (auto simp: rmw_locked_def Let_def)
      then show ?thesis using init cn by simp
    qed
  qed
qed

lemma rmw_attempt:
  assumes run: "can_run st s R" and room: "entry_room (st_index st) key" and ok: "ok_in i"
    and fit: "rmw_fits fns key i (cur (st_index st) R key) (st_log st)" and src: "disk_ok (st_index st) (st_log st) R key src"
  shows "\<exists>op out' st' s' R'. protected st s (internal_rmw fns key (hash64 key) i src out) = Some ((op, out'), st', s')
    \<and> store_inv st' R' \<and> op_frame st s st' s' \<and> (\<forall>k. k \<noteq> key \<longrightarrow> cur (st_index st') R' k = cur (st_index st) R k)
    \<and> (rmw_post fns key i (cur (st_index st) R key) out op out' (cur (st_index st') R' key) \<and> (src \<noteq> None \<longrightarrow> no_disk op))
    \<and> op_cond st R key op st' R'"
proof (rule protected_attempt)
  show "store_inv st R" "has_slot st s" using run by (auto simp: can_run_def)
  fix ep and s' :: session
  let ?st = "st\<lparr>st_log := (st_log st)\<lparr>log_epoch := ep\<rparr>\<rparr>" and ?c = "cur (st_index st) R key"
  let ?Q = "\<lambda>op out' c'. rmw_post fns key i ?c out op out' c' \<and> (src \<noteq> None \<longrightarrow> no_disk op)"
  assume dk: "data_ok (st_index st) ((st_log st)\<lparr>log_epoch := ep\<rparr>) R" and g: "guarded ((st_log st)\<lparr>log_epoch := ep\<rparr>)"
    and s': "phase (s_state s') = Rest" "s_txn_mode s' = s_txn_mode s"
  show "attempt ?st R key ?Q (internal_rmw fns key (hash64 key) i src out ?st s')"
    unfolding internal_rmw_def
  proof (rule create_attempt)
    fix slot ix assume f: "find_tag ix (hash64 key) = Some (Some slot)" and d: "data_ok ix (st_log ?st) R"
      and c: "cur ix R key = cur (st_index ?st) R key"
      and k: "\<And>src. disk_ok (st_index ?st) (st_log ?st) R key src \<Longrightarrow> disk_ok ix (st_log ?st) R key src"
    show "attempt (?st\<lparr>st_index := ix\<rparr>) R key ?Q (rmw_locked fns (?st\<lparr>st_index := ix\<rparr>) s' slot key i src out)"
      by (rule rmw_locked_post)
         (use f d c g s' ok fit run k [of src] src in \<open>simp_all add: ready_def can_run_def addr_room_def rmw_fits_def\<close>)
  qed (use dk room s' run in \<open>simp_all add: can_run_def\<close>)
qed

lemma rmw_loop_post:
  assumes "can_run st s R" and "entry_room (st_index st) key" and "disk_ok (st_index st) (st_log st) R key src"
    and "rmw_fits fns key i (cur (st_index st) R key) (st_log st)" and ok: "ok_in i"
  shows "\<exists>status out' st' s' R'. rmw_loop fns left src st s key i out = Some (status, out', st', s')
    \<and> store_inv st' R' \<and> op_frame st s st' s' \<and> (\<forall>k. k \<noteq> key \<longrightarrow> cur (st_index st') R' k = cur (st_index st) R k)
    \<and> rmw_outcome fns key i (cur (st_index st) R key) out status out' (cur (st_index st') R' key)
    \<and> (steady (st_log st) \<longrightarrow> waits (st_log st) \<le> left \<longrightarrow> status \<noteq> StatusError)"
  using assms(1-4)
proof (induction "2 * left + (if src = None then 1 else 0)" arbitrary: left src st s R out rule: less_induct)
  case (less left src st s R out)
  let ?c = "cur (st_index st) R key"
  from rmw_attempt [OF less.prems(1,2) ok less.prems(4,3), of out] obtain op out' st' s' R' where
    a: "protected st s (internal_rmw fns key (hash64 key) i src out) = Some ((op, out'), st', s')" "store_inv st' R'" "op_frame st s st' s'"
      "\<forall>k. k \<noteq> key \<longrightarrow> cur (st_index st') R' k = cur (st_index st) R k"
      "rmw_post fns key i ?c out op out' (cur (st_index st') R' key) \<and> (src \<noteq> None \<longrightarrow> no_disk op)"
      "op_cond st R key op st' R'" by blast
  have res: ?case if "rmw_loop fns left src st s key i out = Some (status, o1, st1, s1)" "store_inv st1 R1" "op_frame st s st1 s1"
      "\<And>k. k \<noteq> key \<Longrightarrow> cur (st_index st1) R1 k = cur (st_index st) R k"
      "rmw_outcome fns key i ?c out status o1 (cur (st_index st1) R1 key)"
      "steady (st_log st) \<Longrightarrow> waits (st_log st) \<le> left \<Longrightarrow> status \<noteq> StatusError" for status o1 st1 s1 R1
    using that by (intro exI [of _ status] exI [of _ o1] exI [of _ st1] exI [of _ s1] exI [of _ R1]) simp
  have again: ?case if e: "rmw_loop fns left src st s key i out = rmw_loop fns n src2 st2 s' key i out'"
      and m: "2 * n + (if src2 = None then 1 else 0) < 2 * left + (if src = None then 1 else 0)" and run: "can_run st2 s' R'"
      and k: "entry_room (st_index st2) key" "disk_ok (st_index st2) (st_log st2) R' key src2" "op_frame st s st2 s'"
      and c: "st_index st2 = st_index st'" "(rmw_retry fns key i)\<^sup>*\<^sup>* (?c, out) (cur (st_index st') R' key, out')"
      and w: "steady (st_log st) \<Longrightarrow> waits (st_log st) \<le> left \<Longrightarrow> waits (st_log st2) \<le> n" for n src2 st2
  proof -
    have f2: "rmw_fits fns key i (cur (st_index st2) R' key) (st_log st2)"
      using rmw_retry_fits [OF less.prems(4) c(2) op_frame_page [OF k(3)]] c(1) by simp
    from less.hyps [OF m run k(1,2) f2, of out'] obtain status o3 st3 s3 R3 where
      i: "rmw_loop fns n src2 st2 s' key i out' = Some (status, o3, st3, s3)" "store_inv st3 R3" "op_frame st2 s' st3 s3"
        "\<forall>k. k \<noteq> key \<longrightarrow> cur (st_index st3) R3 k = cur (st_index st2) R' k"
        "rmw_outcome fns key i (cur (st_index st2) R' key) out' status o3 (cur (st_index st3) R3 key)"
        "steady (st_log st2) \<longrightarrow> waits (st_log st2) \<le> n \<longrightarrow> status \<noteq> StatusError"
      by blast
    have st: "status \<noteq> StatusError" if "steady (st_log st)" "waits (st_log st) \<le> left"
      using that k(3) i(6) w by (auto simp: op_frame_def)
    have "rmw_outcome fns key i ?c out status o3 (cur (st_index st3) R3 key)"
      using rmw_outcome_step [OF c(2)] i(5) c(1) by simp
    with res [OF e [unfolded i(1)] i(2) op_frame_trans [OF k(3) i(3)]] i(4) a(4) c(1) st show ?thesis by simp
  qed
  from a(5) show ?case
  proof (cases rule: rmw_post_cases)
    case (fin status)
    have "rmw_loop fns left src st s key i out = Some (status, out', st', s')"
      using a(1) fin(1) by (subst rmw_loop.simps) simp
    moreover have "rmw_outcome fns key i ?c out status out' (cur (st_index st') R' key)"
      using fin by (auto simp: rmw_outcome_def)
    ultimately show ?thesis using res [OF _ a(2,3)] a(4) fin(2) by simp
  next
    case later
    have bl: "retry_frame st R st' R' key" "blocked (st_log st) (st_log st')" using a(6) later(1) by (simp_all add: op_cond_def)
    from retry_step [OF less.prems(1,2) a(2,3) bl] have dec: "steady (st_log st) \<Longrightarrow> 0 < waits (st_log st)" by fastforce
    show ?thesis
    proof (cases left)
      case 0
      have "rmw_loop fns left src st s key i out = Some (StatusError, out', st', s')"
        using a(1) later(1) 0 by (subst rmw_loop.simps) (simp add: handle_retry_def)
      moreover have "rmw_outcome fns key i ?c out StatusError out' (cur (st_index st') R' key)"
        using later(2) by (auto simp: rmw_outcome_def)
      ultimately show ?thesis by (intro res [OF _ a(2,3)]) (use a(4) dec 0 in auto)
    next
      case (Suc n)
      from retry_step [OF less.prems(1,2) a(2,3) bl, of n] obtain st2 where
        h: "handle_retry st' OpRetryLater (Suc n) = Some (n, st2)" "can_run st2 s' R'" "entry_room (st_index st2) key"
          "op_frame st s st2 s'" "st_index st2 = st_index st'" "disk_ok (st_index st2) (st_log st2) R' key src"
          "steady (st_log st) \<longrightarrow> waits (st_log st2) < waits (st_log st)"
        using less.prems(3) by blast
      have "rmw_loop fns left src st s key i out = rmw_loop fns n src st2 s' key i out'"
        using a(1) h(1) later(1) Suc by (subst rmw_loop.simps) simp
      from again [OF this _ h(2,3,6,4,5) later(2)] h(7) Suc show ?thesis by fastforce
    qed
  next
    case (disk b latest)
    have df: "disk_from (st_index st') (st_log st') R' key b latest" and rf: "retry_frame st R st' R' key"
      and wt: "waits (st_log st') \<le> waits (st_log st)"
      using a(6) disk(1) by (auto simp: op_cond_def)
    have dk: "data_ok (st_index st') (st_log st') R'" using a(2) by (simp add: store_inv_def)
    let ?src = "Some (?c, latest)"
    have "find_on_disk (st_log st') b key = Some ?c" using disk_read [OF dk df] disk(2) by simp
    then have e: "rmw_loop fns left src st s key i out = rmw_loop fns left ?src st' s' key i out'"
      using a(1) disk(1) by (subst rmw_loop.simps) simp
    have run: "can_run st' s' R'" and room: "entry_room (st_index st') key"
      using can_run_frame [OF less.prems(1) a(2,3)] rf less.prems(2) by (auto simp: retry_frame_def)
    from again [OF e _ run room _ a(3) refl] disk_src_ok [OF dk df] disk(2-4) wt show ?thesis by simp
  qed
qed

end

end
