(* ===== verification/StringStore.thy ===== *)
theory StringStore
  imports StringFunctions StoreModify
begin

text \<open>
  The string type on the store: the callbacks of \<^verbatim>\<open>functions.rs\<close> meet the contracts of the store, so its operations
  implement a map from keys to values with expirations.
\<close>

definition input_ok :: "StringInput \<Rightarrow> bool" where
  "input_ok i \<longleftrightarrow> is_i64 (i_expiration i) \<and> is_i64 (i_delta i)"

definition wrote_value :: "StringInput \<Rightarrow> rec \<Rightarrow> bool" where
  "wrote_value i r \<longleftrightarrow> r_value r = i_operand i \<and> expiration r = i_expiration i"

lemma same_shape_keeps:
  assumes "rec_wf r" and "same_shape r r'" and "r_value_len r' \<le> r_value_cap r'" and "\<And>t. r_exp r' = Some t \<Longrightarrow> is_i64 t"
  shows "rec_keeps r r'"
  using assms by (auto simp: rec_keeps_def rec_wf_def same_shape_def r_value_cap_def has_expiration_slot_def)

lemma is_i64_0 [simp]: "is_i64 0"
  by (simp add: is_i64_def I64_MIN_def I64_MAX_def)

subsection \<open>The writers\<close>

lemma string_initial_writer:
  assumes ok: "input_ok i" and fr: "fresh_rec key (upsert_size key i) r"
  shows "\<exists>r' out'. initial_writer i r out = Some (r', out') \<and> rec_keeps r r' \<and> wrote_value i r'"
proof -
  have cap: "length (i_operand i) \<le> r_value_cap r" and wf: "rec_wf r"
    and ex: "r_exp r = (if i_expiration i \<noteq> 0 then Some 0 else None)"
    using fr by (auto simp: fresh_rec_def upsert_size_def r_value_cap_def)
  from write_val_Some [OF cap] obtain r1 where w: "write_val r (i_operand i) = Some r1" "same_shape r r1" "r_value r1 = i_operand i"
    "r_exp r1 = r_exp r" "r_value_len r1 \<le> r_value_cap r1" by blast
  let ?r = "if i_expiration i \<noteq> 0 then snd (set_expiration r1 (i_expiration i)) else r1"
  note se = set_expiration_shape [of r1 "i_expiration i"]
  have e: "r_exp ?r = (if i_expiration i \<noteq> 0 then Some (i_expiration i) else None)"
    using w(4) ex se(6) by (auto simp: has_expiration_slot_def)
  have sh: "same_shape r ?r" using w(2) se(1) same_shape_trans by (auto split: if_splits)
  have v: "r_value ?r = i_operand i" "r_value_len ?r \<le> r_value_cap ?r" using w(3,5) se by (auto simp: same_shape_def)
  have "rec_keeps r ?r" by (rule same_shape_keeps [OF wf sh v(2)]) (use e ok in \<open>auto simp: input_ok_def split: if_splits\<close>)
  moreover have "wrote_value i ?r" using v(1) e by (auto simp: wrote_value_def expiration_def split: if_splits)
  ultimately show ?thesis using w(1) by (auto simp: initial_writer_def)
qed

lemma string_in_place_writer:
  assumes ok: "input_ok i" and wf: "rec_wf r"
  shows "\<exists>w r' out'. in_place_writer i r out = Some (w, r', out') \<and> (if w then rec_keeps r r' \<and> wrote_value i r' else r' = r)"
proof (cases "r_value_cap r < length (i_operand i) \<or> \<not> has_expiration_slot r \<and> i_expiration i \<noteq> 0")
  case True
  then show ?thesis by (auto simp: in_place_writer_def Let_def)
next
  case False
  let ?r0 = "if has_expiration_slot r then snd (set_expiration r (i_expiration i)) else r"
  note se = set_expiration_shape [of r "i_expiration i"]
  have sh0: "same_shape r ?r0" using se(1) by auto
  then have cap: "length (i_operand i) \<le> r_value_cap ?r0" using False by (auto simp: same_shape_def)
  from write_val_Some [OF cap] obtain r1 where w: "write_val ?r0 (i_operand i) = Some r1" "same_shape ?r0 r1" "r_value r1 = i_operand i"
    "r_exp r1 = r_exp ?r0" "r_value_len r1 \<le> r_value_cap r1" by blast
  have e: "in_place_writer i r out = Some (True, r1, out)"
    using False w(1) by (cases "has_expiration_slot r") (auto simp: in_place_writer_def Let_def)
  have ex: "r_exp r1 = (if has_expiration_slot r then Some (i_expiration i) else None)"
    using w(4) se(6) by (auto simp: has_expiration_slot_def split: if_splits)
  have "rec_keeps r r1" using ex ok w(5) by (intro same_shape_keeps [OF wf same_shape_trans [OF sh0 w(2)]]) (auto simp: input_ok_def split: if_splits)
  moreover have "wrote_value i r1" using w(3) ex False by (auto simp: wrote_value_def expiration_def)
  ultimately show ?thesis using e by auto
qed

interpretation sup: upsert_callbacks string_functions input_ok wrote_value
  by unfold_locales
     (use string_initial_writer string_in_place_writer in
       \<open>auto simp: upsert_size_def wrote_value_def set_info_layout\<close>)

subsection \<open>The updaters\<close>

lemma string_initial_updater:
  assumes ok: "input_ok i" and need: "need_initial_update i" and fr: "fresh_rec key (initial_size key i) r"
  shows "\<exists>r' out'. initial_updater i r out = Some (r', out') \<and> rec_keeps r r'"
proof -
  have cap: "r_value_cap r = si_value_cap (initial_size key i)" and wf: "rec_wf r"
    and ex: "has_expiration_slot r \<longleftrightarrow> i_expiration i \<noteq> 0"
    using fr by (auto simp: fresh_rec_def initial_size_def r_value_cap_def has_expiration_slot_def)
  have dl: "is_i64 (i_delta i)" using ok by (simp add: input_ok_def)
  from initial_updater_post [OF need cap dl, of out] obtain r' out' where
    u: "initial_updater i r out = Some (r', out')" "fresh_post i [] r r' out'"
      "has_expiration_slot r \<and> i_expiration i \<noteq> 0 \<longrightarrow> expiration r' = i_expiration i" by blast
  have "rec_keeps r r'"
    using u(2,3) ex ok by (intro same_shape_keeps [OF wf])
      (auto simp: fresh_post_def same_shape_def input_ok_def expiration_def has_expiration_slot_def split: option.splits)
  with u(1) show ?thesis by blast
qed

lemma string_in_place_updater:
  assumes ok: "input_ok i" and wf: "rec_wf r"
  shows "\<exists>res r' out'. in_place_updater i r out = Some (res, r', out') \<and> rec_keeps r r' \<and> (res \<noteq> Updated \<longrightarrow> r' = r)"
proof -
  have "r_value_len r \<le> r_value_cap r" using wf by (simp add: rec_wf_def r_value_cap_def)
  from in_place_updater_post [OF this, of i out] obtain res r' out' where
    u: "in_place_updater i r out = Some (res, r', out')" "in_place_post i r res r' out'" by blast
  have "rec_keeps r r'"
  proof (cases "res = Updated")
    case True
    then show ?thesis
      using u(2) ok wf by (intro same_shape_keeps [OF wf]) (auto simp: in_place_post_def input_ok_def rec_wf_def)
  qed (use u(2) rec_keeps_refl [OF wf] in \<open>simp add: in_place_post_def\<close>)
  with u show ?thesis by (auto simp: in_place_post_def)
qed

lemma copy_ttl_i64: "input_ok i \<Longrightarrow> rec_wf old \<Longrightarrow> is_i64 (copy_ttl i old)"
  by (auto simp: copy_ttl_def Let_def input_ok_def rec_wf_def expiration_def split: StringOp.splits option.splits)

lemma string_copy_updater:
  assumes ok: "input_ok i" and old: "rec_wf old" and fr: "fresh_rec key (copy_size key i old) r"
  shows "\<exists>r' out'. copy_updater i old r out = Some (r', out') \<and> rec_keeps r r'"
proof -
  have cap: "r_value_cap r = si_value_cap (copy_size key i old)" and wf: "rec_wf r" using fr by (auto simp: fresh_rec_def r_value_cap_def)
  from copy_updater_post [OF cap, of out] obtain r' out' where
    u: "copy_updater i old r out = Some (r', out')" "fresh_post i (if expired old (i_now_ms i) then [] else r_value old) r r' out'"
      "has_expiration_slot r \<longrightarrow> expiration r' = copy_ttl i old" by blast
  have "rec_keeps r r'"
    using u(2,3) copy_ttl_i64 [OF ok old] by (intro same_shape_keeps [OF wf])
      (auto simp: fresh_post_def same_shape_def expiration_def has_expiration_slot_def split: option.splits)
  with u(1) show ?thesis by blast
qed

interpretation srmw: rmw_callbacks string_functions input_ok
  by unfold_locales
     (use string_initial_updater string_in_place_updater string_copy_updater in
       \<open>auto simp: initial_size_def copy_size_def Let_def\<close>)

subsection \<open>What a read-modify-write does to the value\<close>

definition live_value :: "int \<Rightarrow> rec option \<Rightarrow> bytes option" where
  \<comment> \<open>the value a client sees at time \<open>now\<close>\<close>
  "live_value now c =
     (case c of None \<Rightarrow> None | Some r \<Rightarrow> if is_tombstone (r_info r) \<or> expired r now then None else Some (r_value r))"

definition old_value :: "StringInput \<Rightarrow> rec option \<Rightarrow> bytes" where
  "old_value i c = (case live_value (i_now_ms i) c of None \<Rightarrow> [] | Some v \<Rightarrow> v)"

definition rmw_view :: "StringInput \<Rightarrow> rec option \<Rightarrow> Status \<Rightarrow> StringOutput \<Rightarrow> rec option \<Rightarrow> bool" where
  "rmw_view i c status out' c' \<longleftrightarrow>
     (case status of
        Deleted \<Rightarrow> live_value (i_now_ms i) c' = None \<and> live_value (i_now_ms i) c = Some (o_bytes out')
      | NotFound \<Rightarrow> live_value (i_now_ms i) c' = None \<and> live_value (i_now_ms i) c = None
      | Found \<Rightarrow> live_value (i_now_ms i) c' = live_value (i_now_ms i) c
      | Canceled \<Rightarrow> live_value (i_now_ms i) c' = live_value (i_now_ms i) c
      | StatusError \<Rightarrow> live_value (i_now_ms i) c' = live_value (i_now_ms i) c
      | _ \<Rightarrow> (\<exists>r. c' = Some r \<and> \<not> is_tombstone (r_info r) \<and> r_value r = rmw_value i (old_value i c))
            \<and> (case rmw_int i (old_value i c) of None \<Rightarrow> True | Some n \<Rightarrow> o_int out' = n))"

definition c_wf :: "rec option \<Rightarrow> bool" where
  "c_wf c \<longleftrightarrow> (case c of None \<Rightarrow> True | Some r \<Rightarrow> rec_wf r)"

lemma live_tombstone: "live_value now (Some (set_info r set_tombstone)) = None"
  by (simp add: live_value_def set_info_layout info_simps)

lemma expired_info: "expired (set_info r f) now = expired r now"
  by (simp add: expired_def set_info_layout) (simp add: set_info_def has_expiration_slot_def)

lemma in_place_expired: "in_place_updater i r out = Some (res, r', out') \<Longrightarrow> expired r (i_now_ms i) \<longleftrightarrow> res = Expired"
proof
  assume u: "in_place_updater i r out = Some (res, r', out')"
  show "expired r (i_now_ms i) \<Longrightarrow> res = Expired" using u by (simp add: in_place_updater_def)
  show "res = Expired \<Longrightarrow> expired r (i_now_ms i)"
  proof (rule ccontr)
    assume "res = Expired" "\<not> expired r (i_now_ms i)"
    with u show False
      by (auto simp: in_place_updater_def in_place_set_def in_place_incr_def Let_def
          split: StringOp.splits if_splits option.splits bind_splits prod.splits)
  qed
qed

lemma in_place_deletes: "in_place_updater i r out = Some (Delete, r', out') \<Longrightarrow> o_bytes out' = r_value r"
  by (auto simp: in_place_updater_def in_place_set_def in_place_incr_def set_bytes_def Let_def
      split: StringOp.splits if_splits option.splits bind_splits prod.splits)

lemma need_copy_cases:
  "need_copy_update i r out = (DeleteRecord, out') \<Longrightarrow> \<not> expired r (i_now_ms i) \<and> o_bytes out' = r_value r"
  by (auto simp: need_copy_update_def set_bytes_def split: if_splits StringOp.splits option.splits)

lemma old_value_live: "\<not> is_tombstone (r_info r) \<Longrightarrow> old_value i (Some r) = (if expired r (i_now_ms i) then [] else r_value r)"
  by (simp add: old_value_def live_value_def)

lemma fresh_post_view:
  assumes "fresh_post i v r0 r out'" and "\<not> is_tombstone (r_info r0)" and "v = old_value i c"
  shows "(\<exists>r'. Some (set_info r unseal_and_validate) = Some r' \<and> \<not> is_tombstone (r_info r') \<and> r_value r' = rmw_value i (old_value i c))
    \<and> (case rmw_int i (old_value i c) of None \<Rightarrow> True | Some n \<Rightarrow> o_int out' = n)"
  using assms by (simp add: fresh_post_def same_shape_def set_info_layout info_simps)

lemma rmw_copied_view:
  assumes "rmw_copied string_functions key i r out status out' c'" and live: "\<not> is_tombstone (r_info r)"
  shows "rmw_view i (Some r) status out' c'"
  using assms(1)
proof cases
  case canceled
  then show ?thesis by (simp add: rmw_view_def)
next
  case (removed r0)
  then show ?thesis
    using live need_copy_cases [of i r out out'] by (simp add: rmw_view_def live_value_def set_info_layout info_simps)
next
  case (copied out1 r0 r')
  have cap: "r_value_cap r0 = si_value_cap (copy_size key i r)" and nt: "\<not> is_tombstone (r_info r0)"
    using copied(4) by (auto simp: fresh_rec_def r_value_cap_def)
  have "fresh_post i (old_value i (Some r)) r0 r' out'"
    using copy_updater_post [OF cap, of out1] copied(5) by (simp add: old_value_live [OF live])
  from fresh_post_view [OF this nt refl] copied(1,2) show ?thesis by (simp add: rmw_view_def)
qed

lemma rmw_result_view:
  assumes "rmw_result string_functions key i c out status out' c'" and "c_wf c" and ok: "input_ok i"
  shows "rmw_view i c status out' c'"
  using assms(1,2)
proof (induction rule: rmw_result.induct)
  case (absent c out out')
  then show ?case by (auto simp: rmw_view_def live_value_def is_live_def split: option.splits)
next
  case (created c out out1 r0 r out')
  have cap: "r_value_cap r0 = si_value_cap (initial_size key i)" and nt: "\<not> is_tombstone (r_info r0)"
    using created(3) by (auto simp: fresh_rec_def r_value_cap_def)
  have dl: "is_i64 (i_delta i)" "need_initial_update i" using ok created(2) by (simp_all add: input_ok_def)
  have ov: "[] = old_value i c" using created(1) by (auto simp: old_value_def live_value_def is_live_def split: option.splits)
  have "fresh_post i [] r0 r out'"
    using initial_updater_post [OF dl(2) cap dl(1), of out1] created(4) by simp
  from fresh_post_view [OF this nt ov] show ?case by (simp add: rmw_view_def)
next
  case (updated r out r' out')
  have len: "r_value_len r \<le> r_value_cap r" using updated(3) by (simp add: c_wf_def rec_wf_def r_value_cap_def)
  have p: "in_place_post i r Updated r' out'" using in_place_updater_post [OF len, of i out] updated(2) by auto
  have nx: "\<not> expired r (i_now_ms i)" using in_place_expired [of i r out Updated r' out'] updated(2) by simp
  have nt: "\<not> is_tombstone (r_info r)" using updated(1) by (simp add: is_live_def)
  show ?case
    using p nx nt by (simp add: rmw_view_def in_place_post_def same_shape_def set_info_layout info_simps old_value_live)
next
  case (cancel r out out')
  then show ?case by (simp add: rmw_view_def)
next
  case (deleted r out out')
  have "\<not> expired r (i_now_ms i)" using in_place_expired [of i r out Delete r out'] deleted(2) by simp
  moreover have "\<not> is_tombstone (r_info r)" using deleted(1) by (simp add: is_live_def)
  ultimately show ?case
    using live_tombstone in_place_deletes [of i r out r out'] deleted(2) by (simp add: rmw_view_def live_value_def set_info_layout info_simps)
next
  case (expired r out out1 status out' c')
  have ex: "StringFunctions.expired r (i_now_ms i)" using in_place_expired [of i r out Expired r out1] expired(2) by simp
  have "live_value (i_now_ms i) (Some r) = None" using ex by (simp add: live_value_def)
  moreover have "rmw_view i (Some (set_info r set_tombstone)) status out' c'"
    using expired by (simp add: c_wf_def set_info_layout)
  ultimately show ?case using live_tombstone by (simp add: rmw_view_def old_value_def split: Status.splits)
next
  case (need_copy r out out1 status out' c')
  then show ?case using rmw_copied_view [OF need_copy(3)] by (simp add: is_live_def)
next
  case (copy r out status out' c')
  then show ?case using rmw_copied_view [OF copy(2)] by (simp add: is_live_def)
qed

lemma rmw_retry_view:
  assumes "(rmw_retry string_functions key i)\<^sup>*\<^sup>* x y" and "c_wf (fst x)"
  shows "live_value (i_now_ms i) (fst y) = live_value (i_now_ms i) (fst x) \<and> c_wf (fst y)"
  using assms
proof (induction rule: rtranclp_induct)
  case (step y z)
  from step(2) have "c_wf (fst y) \<Longrightarrow> live_value (i_now_ms i) (fst z) = live_value (i_now_ms i) (fst y) \<and> c_wf (fst z)"
  proof cases
    case (expired r out out1)
    have "StringFunctions.expired r (i_now_ms i)" using in_place_expired [of i r out Expired r out1] expired(4) by simp
    then show "c_wf (fst y) \<Longrightarrow> ?thesis" using expired live_tombstone by (simp add: c_wf_def set_info_layout) (simp add: live_value_def)
  qed auto
  with step(3,4) show ?case by simp
qed simp

lemma rmw_outcome_view:
  assumes "rmw_outcome string_functions key i c out status out' c'" and "c_wf c" and "input_ok i"
  shows "rmw_view i c status out' c'"
proof -
  from assms(1) obtain c1 out1 where r: "(rmw_retry string_functions key i)\<^sup>*\<^sup>* (c, out) (c1, out1)"
    "if status = StatusError then c' = c1 \<and> out' = out1 else rmw_result string_functions key i c1 out1 status out' c'"
    by (auto simp: rmw_outcome_def)
  have v: "live_value (i_now_ms i) c1 = live_value (i_now_ms i) c" "c_wf c1" using rmw_retry_view [OF r(1)] assms(2) by auto
  show ?thesis
  proof (cases "status = StatusError")
    case False
    then have "rmw_view i c1 status out' c'" using rmw_result_view [OF _ v(2) assms(3)] r(2) by simp
    then show ?thesis unfolding rmw_view_def old_value_def v(1) .
  qed (use r(2) v in \<open>simp add: rmw_view_def\<close>)
qed

end
