(* ===== verification/StoreLaws.thy ===== *)
theory StoreLaws
  imports StringStore
begin

text \<open>
  The store as a whole. A new store satisfies the invariant with no records; each operation of a session on strings returns,
  keeps the invariant and every other key, and does to its own key what the operation means. Phase and version
  words, and the bucket locks of transactions.
\<close>

subsection \<open>Phase and version word\<close>

lemma ss_word_fields:
  assumes "version s < 2 ^ 56"
  shows "unat (drop_bit 56 (ss_pack s)) = phase_code (phase s)"
    and "unat (ss_pack s AND (push_bit 56 1 - 1)) = version s"
proof -
  let ?v = "of_nat (version s) :: u64" and ?p = "of_nat (phase_code (phase s)) :: u64"
  have m: "push_bit 56 1 - 1 = (mask 56 :: u64)" by (simp add: mask_eq_exp_minus_1 push_bit_eq_mult)
  have pc: "phase_code (phase s) < 4" by (cases "phase s") simp_all
  have up: "unat ?p = phase_code (phase s)" using pc by (simp add: unat_of_nat_u64)
  have uv: "unat ?v = version s" using assms by (simp add: unat_of_nat_u64)
  have tv: "take_bit 56 ?v = ?v"
  proof -
    have "unat (take_bit 56 ?v) = take_bit 56 (unat ?v)" by (rule unsigned_take_bit_eq)
    also have "\<dots> = unat ?v" using assms uv by (simp add: take_bit_nat_eq_self_iff)
    finally show ?thesis by (simp add: word_unat_eq_iff)
  qed
  have w: "ss_pack s = push_bit 56 ?p OR ?v"
    unfolding ss_pack_def m using tv by (simp add: take_bit_eq_mask [symmetric])
  have dv: "drop_bit 56 ?v = 0" using tv by (metis drop_bit_take_bit take_bit_0 diff_self_eq_0)
  have tp: "take_bit 8 ?p = ?p"
  proof -
    have "unat (take_bit 8 ?p) = take_bit 8 (unat ?p)" by (rule unsigned_take_bit_eq)
    also have "\<dots> = unat ?p" using pc up by (simp add: take_bit_nat_eq_self_iff)
    finally show ?thesis by (simp add: word_unat_eq_iff)
  qed
  have "drop_bit 56 (push_bit 56 ?p) = ?p"
  proof (rule bit_word_eqI)
    fix n assume "n < LENGTH(64)"
    have "bit ?p n \<Longrightarrow> n < 8" using tp by (metis bit_take_bit_iff)
    then show "bit (drop_bit 56 (push_bit 56 ?p)) n = bit ?p n" by (auto simp: bit_simps)
  qed
  then show "unat (drop_bit 56 (ss_pack s)) = phase_code (phase s)" using w dv up by (simp add: drop_bit_or)
  show "unat (ss_pack s AND (push_bit 56 1 - 1)) = version s"
    unfolding m w take_bit_eq_mask [symmetric] using tv uv by (simp add: take_bit_or take_bit_push_bit)
qed

lemma ss_unpack_pack: "version s < 2 ^ 56 \<Longrightarrow> ss_unpack (ss_pack s) = s"
  using ss_word_fields [of s] by (cases "phase s") (simp_all add: ss_unpack_def Let_def)

subsection \<open>A new store\<close>

lemma store_new_ok:
  assumes new: "store_new sz bits mp mutable dev = Some st" and sz: "sz \<le> 2 ^ 40" "1 \<le> mutable" and t: "0 < tid"
  shows "can_run st (new_session st tid) Map.empty" and "overflow_next (st_index st) \<le> length (overflow (st_index st))"
    and "cur (st_index st) Map.empty key = None" and "page_size (st_log st) = 2 ^ bits" and "steady (st_log st)"
proof -
  obtain l where l: "hlog_new bits mp mutable epoch_new dev = Some l" and st: "st = \<lparr>st_index = index_new sz, st_log = l,
      st_system_state = ss_pack \<lparr>phase = Rest, version = 1\<rparr>, st_checkpoint_start = 2 ^ 64 - 1\<rparr>"
    using new by (auto simp: store_new_def split: bind_splits)
  have ew: "epoch_wf (epoch_new :: log_action light_epoch)" "ep_drain (epoch_new :: log_action light_epoch) = []"
    by (rule epoch_wf_new) (simp add: epoch_new_def)
  have wf: "hlog_wf l" by (rule hlog_new_wf [OF l sz(2) ew])
  have f: "log_epoch l = epoch_new" "begin_address l = 64" "head_address l = 64" "tail l = pack 0 64" "page_bits l = bits"
    using l by (auto simp: hlog_new_def Let_def FIRST_VALID_ADDRESS_def PAGE_HEADER_SIZE_def split: if_splits)
  have tp: "tail_page l = 0" by (simp add: tail_page_def f unpack_pack)
  have n: "2 \<le> buffer_size l" using wf by (simp add: hlog_wf_def shape_ok_def)
  have ps: "512 \<le> page_size l" using page_size_range wf by (simp add: hlog_wf_def)
  have "pages l = replicate (buffer_size l) (replicate (page_size l) 0)" "flushed_until_address l = 64"
    using l by (auto simp: hlog_new_def Let_def page_size_def FIRST_VALID_ADDRESS_def PAGE_HEADER_SIZE_def split: if_splits)
  moreover have "shape_ok l" using wf by (simp add: hlog_wf_def)
  ultimately have "log_byte l x = 0" for x
    using page_of_bounds(4) [of l x] page_slot_lt [of l "page_of l x"] by (simp add: log_byte_def page_data_def shape_ok_def)
  moreover have "page_offset l x = x" if "x < 64" for x
    using that ps page_ofI [of 0 l x] page_of_bounds(3) [of l x] by simp
  ultimately have "blank l Map.empty" using \<open>flushed_until_address l = 64\<close> by (simp add: blank_def PAGE_HEADER_SIZE_def)
  then have "log_inv l Map.empty"
    using wf n by (simp add: log_inv_def tp page_is_free_def no_straddle_def)
  moreover have "tiled l Map.empty" by (simp add: tiled_def f unpack_pack true_tail_def FIRST_VALID_ADDRESS_def PAGE_HEADER_SIZE_def)
  moreover have "heads_ok (index_new sz) Map.empty"
    using index_new_wf [OF sz(1)] by (simp add: heads_ok_def chain_ok_def cur_def)
  ultimately have d: "data_ok (st_index st) (st_log st) Map.empty" by (simp add: st data_ok_def data_base_def published_def f)
  have ph: "phase (system_state st) = Rest" by (simp add: system_state_def st ss_unpack_pack)
  have af: "all_free (st_index st)"
  proof -
    have "latch_word (index_new sz) b = 0" if "b < length (buckets (index_new sz))" for b
      using that by (simp add: latch_word_def entry_at_def index_new_def Let_def bucket_new_def OVERFLOW_ENTRY_def)
    then show ?thesis by (simp add: st all_free_def latch_free_def writer_def readers_def)
  qed
  have hs: "has_slot st (new_session st tid)"
  proof -
    have "probe_order tid \<noteq> []" by (simp add: probe_order_def Let_def MAX_THREADS_def)
    then obtain i rest where po: "probe_order tid = i # rest" by (cases "probe_order tid") auto
    then have "i < MAX_THREADS" using probe_order_lt [of i tid] by simp
    then have "List.find (\<lambda>i. s_owner (ep_table (epoch_new :: log_action light_epoch) ! i) = 0) (probe_order tid) = Some i"
      by (simp add: po epoch_new_def)
    then have "my_slot (epoch_new :: log_action light_epoch) tid \<noteq> None"
      by (simp add: my_slot_def claim_slot_def epoch_new_def)
    then show ?thesis using t by (simp add: has_slot_def st f new_session_def)
  qed
  have "page_size l < 2 ^ 31" using page_size_range wf by (simp add: hlog_wf_def)
  then have "addr_room (st_log st)" by (simp add: addr_room_def st tp)
  with d ph af hs show "can_run st (new_session st tid) Map.empty" by (simp add: can_run_def store_inv_def)
  show "overflow_next (st_index st) \<le> length (overflow (st_index st))" by (simp add: st index_new_def Let_def)
  show "cur (st_index st) Map.empty key = None" using index_new_wf [OF sz(1)] by (simp add: cur_def st)
  show "page_size (st_log st) = 2 ^ bits" by (simp add: st page_size_def f)
  have "page_of l 64 = 0" using ps by (intro page_ofI) simp_all
  moreover have "closed_until_address l = 0" "read_only_address l = 64" "flushed_until_address l = 64"
    using l by (auto simp: hlog_new_def Let_def FIRST_VALID_ADDRESS_def PAGE_HEADER_SIZE_def split: if_splits)
  ultimately show "steady (st_log st)"
    by (simp add: st steady_def shifts_covered_def covered_by_def f) (simp add: epoch_new_def)
qed

definition demo_store :: store where
  \<comment> \<open>four buckets, two pages of 512 bytes\<close>
  "demo_store = the (store_new 4 9 2 1 [])"

definition demo_session :: session where
  "demo_session = new_session demo_store 1"

lemma demo_store_new: "store_new 4 9 2 1 [] = Some demo_store"
  by (simp add: demo_store_def store_new_def hlog_new_def Let_def)

lemma demo_store_ok: "can_run demo_store demo_session Map.empty" "entry_room (st_index demo_store) key"
  "cur (st_index demo_store) Map.empty key = None" "page_size (st_log demo_store) = 512" "steady (st_log demo_store)"
proof -
  have "(4::nat) \<le> 2 ^ 40" "1 \<le> (1::nat)" "0 < (1::nat)" by simp_all
  note n = store_new_ok [OF demo_store_new this]
  from n show "can_run demo_store demo_session Map.empty" "entry_room (st_index demo_store) key"
    "cur (st_index demo_store) Map.empty key = None" "page_size (st_log demo_store) = 512" "steady (st_log demo_store)"
    by (simp_all add: demo_session_def entry_room_def)
qed

lemma demo_set_fits: "si_total_size (upsert_size [107] (input_simple op [118] now)) + PAGE_HEADER_SIZE \<le> page_size (st_log demo_store)"
  "input_ok (input_simple op [118] now)"
  by (simp_all add: demo_store_ok(4) upsert_size_def input_simple_def si_total_size_def align8_def layout_sizes PAGE_HEADER_SIZE_def input_ok_def)

subsection \<open>Operations on strings\<close>

definition svalue :: "store \<Rightarrow> reclog \<Rightarrow> bytes \<Rightarrow> (bytes \<times> int) option" where
  \<comment> \<open>value and expiration of the newest record of a key that is not deleted\<close>
  "svalue st R key =
     (case cur (st_index st) R key of None \<Rightarrow> None
      | Some r \<Rightarrow> if is_tombstone (r_info r) then None else Some (r_value r, expiration r))"

lemma svalue_cong: "cur (st_index st') R' key = cur (st_index st) R key \<Longrightarrow> svalue st' R' key = svalue st R key"
  by (simp add: svalue_def)

lemma cur_wf:
  assumes "store_inv st R"
  shows "c_wf (cur (st_index st) R key)"
proof (cases "cur_addr (st_index st) R key")
  case (Some b)
  have "log_inv (st_log st) R" using assms by (simp add: store_inv_def data_ok_def data_base_def)
  with cur_addrD [OF Some] log_invD(3) show ?thesis by (fastforce simp: c_wf_def rec_placed_def)
qed (simp add: c_wf_def cur_addr_cur)

lemma enough_retries: "waits l \<le> MAX_RETRIES"
  using waits_le [of l] by (simp add: MAX_RETRIES_def)

lemma store_set_lemma:
  assumes "can_run st s R" and "entry_room (st_index st) key" and "input_ok i"
    and "si_total_size (upsert_size key i) + PAGE_HEADER_SIZE \<le> page_size (st_log st)"
  shows "\<exists>status out' st' s' R'. store_upsert string_functions st s key i out = Some (status, out', st', s')
    \<and> store_inv st' R' \<and> op_frame st s st' s' \<and> (\<forall>k. k \<noteq> key \<longrightarrow> svalue st' R' k = svalue st R k)
    \<and> (if status = StatusError then svalue st' R' key = svalue st R key
       else status \<in> {Created, InPlaceUpdated} \<and> svalue st' R' key = Some (i_operand i, i_expiration i))
    \<and> (steady (st_log st) \<longrightarrow> status \<noteq> StatusError)"
proof -
  from sup.upsert_loop_post [OF assms(1,2,3), of MAX_RETRIES out] assms(4) obtain status out' st' s' R' where
    u: "upsert_loop string_functions MAX_RETRIES st s key i out = Some (status, out', st', s')" "store_inv st' R'" "op_frame st s st' s'"
      "\<forall>k. k \<noteq> key \<longrightarrow> cur (st_index st') R' k = cur (st_index st) R k"
      "if status = StatusError then cur (st_index st') R' key = cur (st_index st) R key
       else sup.upsert_post i (cur (st_index st) R key) (Done status) out' (cur (st_index st') R' key)"
      "steady (st_log st) \<longrightarrow> status \<noteq> StatusError" using enough_retries [of "st_log st"] by auto
  have "\<forall>k. k \<noteq> key \<longrightarrow> svalue st' R' k = svalue st R k" using u(4) svalue_cong by blast
  moreover have "if status = StatusError then svalue st' R' key = svalue st R key
       else status \<in> {Created, InPlaceUpdated} \<and> svalue st' R' key = Some (i_operand i, i_expiration i)"
    using u(5) svalue_cong by (auto simp: sup.upsert_post_def is_live_def wrote_value_def svalue_def split: if_splits)
  ultimately show ?thesis using u(1-3,6) by (auto simp: store_upsert_def)
qed

lemma store_get_lemma:
  assumes "can_read st s R"
  shows "\<exists>status out' st' s' R'. store_read string_functions st s key i out = Some (status, out', st', s')
    \<and> (status, out') = read_result string_functions key i (cur (st_index st) R key) out
    \<and> store_inv st' R' \<and> op_frame st s st' s' \<and> (\<forall>k. cur (st_index st') R' k = cur (st_index st) R k)"
proof -
  obtain status out' where r: "read_result string_functions key i (cur (st_index st) R key) out = (status, out')" by fastforce
  from read_loop_post [OF assms, where fns = string_functions and key = key and i = i and out = out and left = MAX_RETRIES, unfolded r prod.case]
  show ?thesis unfolding r by (auto simp: store_read_def)
qed

lemma store_del_lemma:
  assumes "can_run st s R" and "entry_room (st_index st) key"
    and "si_total_size (delete_size key) + PAGE_HEADER_SIZE \<le> page_size (st_log st)"
  shows "\<exists>status st' s' R'. store_delete st s key = Some (status, st', s') \<and> store_inv st' R' \<and> op_frame st s st' s'
    \<and> (\<forall>k. k \<noteq> key \<longrightarrow> svalue st' R' k = svalue st R k)
    \<and> (if status = StatusError then svalue st' R' key = svalue st R key
       else svalue st' R' key = None \<and> status = (if svalue st R key = None then NotFound else Deleted))
    \<and> (steady (st_log st) \<longrightarrow> status \<noteq> StatusError)"
proof -
  have "disk_ok (st_index st) (st_log st) R key None" by (simp add: disk_ok_def)
  from delete_loop_post [OF assms(1,2) this assms(3), of MAX_RETRIES] obtain status st' s' R' where
    d: "store_delete st s key = Some (status, st', s')" "store_inv st' R'" "op_frame st s st' s'"
      "\<forall>k. k \<noteq> key \<longrightarrow> cur (st_index st') R' k = cur (st_index st) R k"
      "if status = StatusError then cur (st_index st') R' key = cur (st_index st) R key
       else delete_post (cur (st_index st) R key) (Done status) (cur (st_index st') R' key)"
      "steady (st_log st) \<longrightarrow> status \<noteq> StatusError"
    using enough_retries [of "st_log st"] by (auto simp: store_delete_def delete_src_def)
  have "\<forall>k. k \<noteq> key \<longrightarrow> svalue st' R' k = svalue st R k" using d(4) svalue_cong by blast
  moreover have "if status = StatusError then svalue st' R' key = svalue st R key
       else svalue st' R' key = None \<and> status = (if svalue st R key = None then NotFound else Deleted)"
    using d(5) by (auto simp: svalue_def delete_post_def is_live_def split: option.splits if_splits)
  ultimately show ?thesis using d(1-3,6) by blast
qed

lemma read_get:
  assumes "i_op i = Get"
  shows "read_result string_functions key i c out =
    (case live_value (i_now_ms i) c of None \<Rightarrow> (NotFound, out) | Some v \<Rightarrow> (Found, set_bytes out v))"
  using assms by (auto simp: read_result_def live_value_def reader_def split: option.splits)

text \<open>C2: An upsert on strings always returns. It keeps the invariant of the store and what every other key holds, also a key
  that shares the hash bucket, the tag or the page; unless it gives up after the last retry, the key then holds exactly the
  given value and expiration. If it gives up, the key holds what it held. It does not give up when no other thread is inside
  the epoch: the page it may have to wait for is flushed, closed and free after at most three of its retries, and the store is
  left so that the next operation does not give up either.\<close>

theorem store_set:
  assumes "can_run st s R" and "entry_room (st_index st) key" and "input_ok i"
    and "si_total_size (upsert_size key i) + PAGE_HEADER_SIZE \<le> page_size (st_log st)"
  shows "\<exists>status out' st' s' R'. store_upsert string_functions st s key i out = Some (status, out', st', s')
    \<and> store_inv st' R' \<and> (\<forall>k. k \<noteq> key \<longrightarrow> svalue st' R' k = svalue st R k)
    \<and> (if status = StatusError then svalue st' R' key = svalue st R key
       else status \<in> {Created, InPlaceUpdated} \<and> svalue st' R' key = Some (i_operand i, i_expiration i))
    \<and> (steady (st_log st) \<longrightarrow> status \<noteq> StatusError \<and> steady (st_log st'))"
  using store_set_lemma [OF assms, of out] unfolding op_frame_def by blast

theorem store_set_witness:
  "\<exists>status out' st' s' R'. store_upsert string_functions demo_store demo_session [107] (input_simple Set [118] 5) output_default
      = Some (status, out', st', s')
    \<and> status \<noteq> StatusError \<and> svalue st' R' [108] = None \<and> svalue st' R' [107] = Some ([118], 0)"
proof -
  have n: "svalue demo_store Map.empty [108] = None" using demo_store_ok(3) by (simp add: svalue_def)
  from store_set [OF demo_store_ok(1,2) demo_set_fits(2,1), where out = output_default] obtain status out' st' s' R' where
    u: "store_upsert string_functions demo_store demo_session [107] (input_simple Set [118] 5) output_default = Some (status, out', st', s')"
      "\<forall>k. k \<noteq> [107] \<longrightarrow> svalue st' R' k = svalue demo_store Map.empty k"
      "if status = StatusError then svalue st' R' [107] = svalue demo_store Map.empty [107]
       else status \<in> {Created, InPlaceUpdated} \<and> svalue st' R' [107] = Some (i_operand (input_simple Set [118] 5), i_expiration (input_simple Set [118] 5))"
      "status \<noteq> StatusError"
    using demo_store_ok(5) by blast
  have "svalue st' R' [108] = None" "svalue st' R' [107] = Some ([118], 0)"
    using u(2-4) n by (simp_all add: input_simple_def)
  with u(1,4) show ?thesis by blast
qed

text \<open>C4: A read returns what the reader callback makes of the newest record of the key, wherever it is: for GET the
  value, or not found when the key has no record, a deleted one or one that has expired. It changes what no key holds.\<close>

theorem store_get:
  assumes "can_read st s R"
  shows "\<exists>status out' st' s' R'. store_read string_functions st s key i out = Some (status, out', st', s')
    \<and> (status, out') = read_result string_functions key i (cur (st_index st) R key) out
    \<and> (i_op i = Get \<longrightarrow> (status, out') =
         (case live_value (i_now_ms i) (cur (st_index st) R key) of None \<Rightarrow> (NotFound, out) | Some v \<Rightarrow> (Found, set_bytes out v)))
    \<and> store_inv st' R' \<and> (\<forall>k. svalue st' R' k = svalue st R k)"
proof -
  from store_get_lemma [OF assms, of key i out] obtain status out' st' s' R' where
    r: "store_read string_functions st s key i out = Some (status, out', st', s')"
      "(status, out') = read_result string_functions key i (cur (st_index st) R key) out"
      "store_inv st' R'" "\<forall>k. cur (st_index st') R' k = cur (st_index st) R k" by blast
  have "\<forall>k. svalue st' R' k = svalue st R k" using r(4) svalue_cong by blast
  with r(1-3) read_get [of i key "cur (st_index st) R key" out] show ?thesis
    by (intro exI [of _ status] exI [of _ out'] exI [of _ st'] exI [of _ s'] exI [of _ R']) simp
qed

theorem store_get_witness:
  "\<exists>status out1 st1 s1 st2 s2. store_upsert string_functions demo_store demo_session [107] (input_simple Set [118] 5) output_default
      = Some (status, out1, st1, s1)
    \<and> store_read string_functions st1 s1 [107] (input_read Get 5) output_default = Some (Found, set_bytes output_default [118], st2, s2)"
proof -
  let ?i = "input_simple Set [118] 5"
  from store_set_lemma [OF demo_store_ok(1,2) demo_set_fits(2,1), of Set 5 output_default] demo_store_ok(5) obtain status out1 st1 s1 R1 where
    u: "store_upsert string_functions demo_store demo_session [107] ?i output_default = Some (status, out1, st1, s1)" "store_inv st1 R1"
      "op_frame demo_store demo_session st1 s1" "svalue st1 R1 [107] = Some (i_operand ?i, i_expiration ?i)"
    by (auto split: if_splits)
  have "can_read demo_store demo_session Map.empty" using demo_store_ok(1) by (simp add: can_run_read)
  from can_read_frame [OF this u(2,3)] have c: "can_read st1 s1 R1" .
  have "live_value 5 (cur (st_index st1) R1 [107]) = Some [118]"
    using u(4) by (auto simp: svalue_def live_value_def expired_def input_simple_def split: option.splits if_splits)
  with store_get [OF c, of "[107]" "input_read Get 5" output_default] obtain st2 s2 where
    "store_read string_functions st1 s1 [107] (input_read Get 5) output_default = Some (Found, set_bytes output_default [118], st2, s2)"
    by (auto simp: input_read_def input_simple_def)
  with u(1) show ?thesis by blast
qed

text \<open>C5: A read after an upsert of the same key that succeeded, at a time before the expiration, returns the value that was
  written; with no other thread inside the epoch the upsert succeeds.\<close>

theorem store_set_get:
  assumes "can_run st s R" and "entry_room (st_index st) key" and "input_ok i"
    and "si_total_size (upsert_size key i) + PAGE_HEADER_SIZE \<le> page_size (st_log st)"
    and "i_expiration i = 0 \<or> now < i_expiration i"
  shows "\<exists>status out1 st1 s1. store_upsert string_functions st s key i out = Some (status, out1, st1, s1)
    \<and> (steady (st_log st) \<longrightarrow> status \<noteq> StatusError)
    \<and> (status \<noteq> StatusError \<longrightarrow>
        (\<exists>st2 s2. store_read string_functions st1 s1 key (input_read Get now) output_default =
           Some (Found, set_bytes output_default (i_operand i), st2, s2)))"
proof -
  from store_set_lemma [OF assms(1-4), of out] obtain status out1 st1 s1 R1 where
    u: "store_upsert string_functions st s key i out = Some (status, out1, st1, s1)" "store_inv st1 R1" "op_frame st s st1 s1"
      "if status = StatusError then svalue st1 R1 key = svalue st R key
       else status \<in> {Created, InPlaceUpdated} \<and> svalue st1 R1 key = Some (i_operand i, i_expiration i)"
      "steady (st_log st) \<longrightarrow> status \<noteq> StatusError" by blast
  have "\<exists>st2 s2. store_read string_functions st1 s1 key (input_read Get now) output_default =
           Some (Found, set_bytes output_default (i_operand i), st2, s2)" if ok: "status \<noteq> StatusError"
  proof -
    have run: "can_read st1 s1 R1" using assms(1) can_read_frame [OF _ u(2,3)] by (auto simp: can_run_read)
    obtain r where r: "cur (st_index st1) R1 key = Some r" "\<not> is_tombstone (r_info r)" "r_value r = i_operand i"
      "expiration r = i_expiration i" using u(4) ok by (auto simp: svalue_def split: option.splits if_splits)
    have "live_value now (cur (st_index st1) R1 key) = Some (i_operand i)"
      using r assms(5) by (auto simp: live_value_def expired_def)
    then have "read_result string_functions key (input_read Get now) (cur (st_index st1) R1 key) output_default =
        (Found, set_bytes output_default (i_operand i))"
      by (subst read_get) (simp_all add: input_read_def input_simple_def)
    with store_get_lemma [OF run, of key "input_read Get now" output_default] show ?thesis by auto
  qed
  with u(1,5) show ?thesis by blast
qed

theorem store_set_get_witness:
  "\<exists>status out1 st1 s1 st2 s2.
     store_upsert string_functions demo_store demo_session [107] (input_simple Set [118] 5) output_default = Some (status, out1, st1, s1)
     \<and> store_read string_functions st1 s1 [107] (input_read Get 9) output_default = Some (Found, set_bytes output_default [118], st2, s2)"
proof -
  have "i_expiration (input_simple Set [118] 5) = 0 \<or> 9 < i_expiration (input_simple Set [118] 5)" "i_operand (input_simple Set [118] 5) = [118]"
    by (simp_all add: input_simple_def)
  with store_set_get [OF demo_store_ok(1,2) demo_set_fits(2,1), where now = 9 and out = output_default] demo_store_ok(5) show ?thesis
    by metis
qed

text \<open>C6: A delete returns, keeps the invariant and every other key. A key that was live answers \<open>Deleted\<close> and holds nothing
  afterwards, a key that was not answers \<open>NotFound\<close>; if the delete gives up, the key holds what it held, and
  it does not give up when no other thread is inside the epoch.\<close>

theorem store_del:
  assumes "can_run st s R" and "entry_room (st_index st) key"
    and "si_total_size (delete_size key) + PAGE_HEADER_SIZE \<le> page_size (st_log st)"
  shows "\<exists>status st' s' R'. store_delete st s key = Some (status, st', s') \<and> store_inv st' R'
    \<and> (\<forall>k. k \<noteq> key \<longrightarrow> svalue st' R' k = svalue st R k)
    \<and> (if status = StatusError then svalue st' R' key = svalue st R key
       else svalue st' R' key = None \<and> status = (if svalue st R key = None then NotFound else Deleted))
    \<and> (steady (st_log st) \<longrightarrow> status \<noteq> StatusError \<and> steady (st_log st'))"
  using store_del_lemma [OF assms] unfolding op_frame_def by blast

theorem store_del_witness:
  "\<exists>st' s' R'. store_delete demo_store demo_session [107] = Some (NotFound, st', s') \<and> store_inv st' R'"
proof -
  have "si_total_size (delete_size [107]) + PAGE_HEADER_SIZE \<le> page_size (st_log demo_store)"
    by (simp add: demo_store_ok(4) delete_size_def si_total_size_def align8_def layout_sizes PAGE_HEADER_SIZE_def)
  from store_del [OF demo_store_ok(1,2) this] obtain status st' s' R' where
    d: "store_delete demo_store demo_session [107] = Some (status, st', s')" "store_inv st' R'"
      "if status = StatusError then svalue st' R' [107] = svalue demo_store Map.empty [107]
       else svalue st' R' [107] = None \<and> status = (if svalue demo_store Map.empty [107] = None then NotFound else Deleted)"
      "status \<noteq> StatusError" using demo_store_ok(5) by blast
  have "svalue demo_store Map.empty [107] = None" using demo_store_ok(3) by (simp add: svalue_def)
  then have "status = NotFound" using d(3,4) by auto
  with d(1,2) show ?thesis by blast
qed

text \<open>C3: A read-modify-write on strings returns, keeps the invariant and every other key, and what it leaves and reports is a
  result the callbacks allow (\<open>rmw_outcome\<close>), whatever the log region of the record: an update leaves the value
  the operation means on the value a client saw before (nothing if it had expired or was deleted) with the integer reply that goes
  with it, a deletion reports that value and leaves nothing, every other status leaves what a client sees as it was. With no other
  thread inside the epoch it does not give up.\<close>

theorem store_modify:
  assumes "can_run st s R" and "entry_room (st_index st) key" and "input_ok i"
    and "rmw_fits string_functions key i (cur (st_index st) R key) (st_log st)"
  shows "\<exists>status out' st' s' R'. store_rmw string_functions st s key i out = Some (status, out', st', s')
    \<and> store_inv st' R' \<and> (\<forall>k. k \<noteq> key \<longrightarrow> svalue st' R' k = svalue st R k)
    \<and> rmw_outcome string_functions key i (cur (st_index st) R key) out status out' (cur (st_index st') R' key)
    \<and> rmw_view i (cur (st_index st) R key) status out' (cur (st_index st') R' key)
    \<and> (steady (st_log st) \<longrightarrow> status \<noteq> StatusError \<and> steady (st_log st'))"
proof -
  have "disk_ok (st_index st) (st_log st) R key None" by (simp add: disk_ok_def)
  from srmw.rmw_loop_post [OF assms(1,2) this assms(4,3), of MAX_RETRIES out] obtain status out' st' s' R' where
    d: "store_rmw string_functions st s key i out = Some (status, out', st', s')" "store_inv st' R'"
      "steady (st_log st) \<longrightarrow> status \<noteq> StatusError \<and> steady (st_log st')"
      "\<forall>k. k \<noteq> key \<longrightarrow> cur (st_index st') R' k = cur (st_index st) R k"
      "rmw_outcome string_functions key i (cur (st_index st) R key) out status out' (cur (st_index st') R' key)"
    using enough_retries [of "st_log st"] by (auto simp: store_rmw_def op_frame_def)
  have "\<forall>k. k \<noteq> key \<longrightarrow> svalue st' R' k = svalue st R k" using d(4) svalue_cong by blast
  moreover have "rmw_view i (cur (st_index st) R key) status out' (cur (st_index st') R' key)"
    using assms(1) by (intro rmw_outcome_view [OF d(5) cur_wf assms(3)]) (simp add: can_run_def)
  ultimately show ?thesis using d by blast
qed

theorem store_modify_witness:
  "\<exists>status out' st' s' R'. store_rmw string_functions demo_store demo_session [107] (input_simple Append [118] 5) output_default
      = Some (status, out', st', s') \<and> status \<noteq> StatusError \<and> rmw_view (input_simple Append [118] 5) None status out' (cur (st_index st') R' [107])"
proof -
  have "rmw_fits string_functions [107] (input_simple Append [118] 5) (cur (st_index demo_store) Map.empty [107]) (st_log demo_store)"
    by (simp add: rmw_fits_def demo_store_ok(3,4) initial_size_def input_simple_def si_total_size_def align8_def layout_sizes PAGE_HEADER_SIZE_def)
  from store_modify [OF demo_store_ok(1,2) demo_set_fits(2) this, where out = output_default] show ?thesis
    using demo_store_ok(5) by (auto simp: demo_store_ok(3))
qed

end
