(* ===== verification/StoreTxn.thy ===== *)
theory StoreTxn
  imports StoreLaws
begin

text \<open>
  The bucket locks of a transaction (\<^verbatim>\<open>Session::txn_lock\<close>, \<^verbatim>\<open>txn_unlock\<close>): the locks are wanted in
  strictly increasing bucket order, one per bucket and exclusive when any key of the bucket asks for it; with free latches they
  are all taken, the session's operations run under them, and the unlock gives the latches back.
\<close>

subsection \<open>The order of the locks\<close>

lemma dedup_subset: "set (dedup_by_key f xs) \<subseteq> set xs"
  by (induction f xs rule: dedup_by_key.induct) (auto split: if_splits)

lemma dedup_keys: "f ` set (dedup_by_key f xs) = f ` set xs"
  by (induction f xs rule: dedup_by_key.induct) auto

lemma dedup_sorted:
  fixes f :: "'a \<Rightarrow> 'b :: linorder"
  shows "sorted (map f xs) \<Longrightarrow> sorted_wrt (<) (map f (dedup_by_key f xs))"
proof (induction f xs rule: dedup_by_key.induct)
  case (1 f x y xs)
  have s: "sorted (map f (x # xs))" "sorted (map f (y # xs))" "f x \<le> f y" using 1(3) by simp_all
  show ?case
  proof (cases "f x = f y")
    case True
    show ?thesis using 1(1) [OF True s(1)] unfolding dedup_by_key.simps if_P [OF True] .
  next
    case False
    have "\<forall>z \<in> set (dedup_by_key f (y # xs)). f x < f z"
    proof
      fix z assume "z \<in> set (dedup_by_key f (y # xs))"
      then have "z \<in> set (y # xs)" using dedup_subset by fast
      then have "f y \<le> f z" using s(2) by (auto simp: less_imp_le)
      then show "f x < f z" using s(3) False by simp
    qed
    then show ?thesis using 1(2) [OF False s(2)] unfolding dedup_by_key.simps if_not_P [OF False] by simp
  qed
qed simp_all

lemma dedup_first:
  fixes f :: "'a \<Rightarrow> 'b :: linorder" and g :: "'a \<Rightarrow> 'c :: linorder"
  assumes mono: "\<And>u v. g u \<le> g v \<Longrightarrow> f u \<le> f v"
  shows "sorted (map g xs) \<Longrightarrow> x \<in> set (dedup_by_key f xs) \<Longrightarrow> y \<in> set xs \<Longrightarrow> f y = f x \<Longrightarrow> g x \<le> g y"
  using mono
proof (induction f xs arbitrary: y rule: dedup_by_key.induct)
  case (1 f a b xs)
  note s = 1(3) and x = 1(4) and y = 1(5) and eq = 1(6) and mono = 1(7)
  have ab: "g a \<le> g b" "\<And>z. z \<in> set xs \<Longrightarrow> g a \<le> g z" "\<And>z. z \<in> set xs \<Longrightarrow> g b \<le> g z"
    and sa: "sorted (map g (a # xs))" and sb: "sorted (map g (b # xs))" using s by simp_all
  show ?case
  proof (cases "f a = f b")
    case True
    have xa: "x \<in> set (dedup_by_key f (a # xs))" using x unfolding dedup_by_key.simps if_P [OF True] .
    have ih: "g x \<le> g z" if "z \<in> set (a # xs)" "f z = f x" for z by (rule 1(1) [OF True sa xa that mono])
    show ?thesis
    proof (cases "y = b")
      case yb: True
      have "g x \<le> g a" using eq True yb by (intro ih) simp_all
      also have "g a \<le> g y" using ab(1) yb by simp
      finally show ?thesis .
    next
      case False
      then show ?thesis using y by (intro ih [OF _ eq]) simp
    qed
  next
    case False
    have lt: "f a < f b" using False mono [OF ab(1)] by simp
    show ?thesis
    proof (cases "x = a")
      case True
      then show ?thesis using ab y by auto
    next
      case xa: False
      have xd: "x \<in> set (dedup_by_key f (b # xs))" using x xa unfolding dedup_by_key.simps if_not_P [OF False] by simp
      have "x \<in> set (b # xs)" using xd dedup_subset by fast
      then have "g b \<le> g x" using ab(3) by auto
      then have "f b \<le> f x" by (rule mono)
      then have "y \<noteq> a" using lt eq by auto
      then have "y \<in> set (b # xs)" using y by simp
      from 1(2) [OF False sb xd this eq mono] show ?thesis .
    qed
  qed
qed auto

lemma wanted_locks_order:
  fixes keys :: "(bytes \<times> LockType) list"
  defines "want ix \<equiv> map (\<lambda>(k, t). (bucket_index ix (hash64 k), t)) keys"
  shows "sorted_wrt (<) (map fst (wanted_locks ix keys))"
    and "fst ` set (wanted_locks ix keys) = (\<lambda>(k, t). bucket_index ix (hash64 k)) ` set keys"
    and "(b, t) \<in> set (wanted_locks ix keys) \<Longrightarrow> t = Exclusive \<longleftrightarrow> (b, Exclusive) \<in> set (want ix)"
proof -
  let ?xs = "sort_key lock_order (want ix)"
  have w: "wanted_locks ix keys = dedup_by_key fst ?xs" by (simp add: wanted_locks_def want_def)
  have s: "sorted (map lock_order ?xs)" by (rule sorted_sort_key)
  have mono: "fst u \<le> fst v" if "lock_order u \<le> lock_order v" for u v
    using that by (auto simp: lock_order_def less_eq_prod_def split: prod.splits)
  have sf: "sorted (map fst ?xs)"
    using s mono unfolding sorted_map by (rule sorted_wrt_mono_rel [rotated])
  show "sorted_wrt (<) (map fst (wanted_locks ix keys))" unfolding w by (rule dedup_sorted [OF sf])
  show "fst ` set (wanted_locks ix keys) = (\<lambda>(k, t). bucket_index ix (hash64 k)) ` set keys"
    unfolding w dedup_keys by (force simp: want_def)
  show "t = Exclusive \<longleftrightarrow> (b, Exclusive) \<in> set (want ix)" if m: "(b, t) \<in> set (wanted_locks ix keys)"
  proof
    show "t = Exclusive \<Longrightarrow> (b, Exclusive) \<in> set (want ix)" using m dedup_subset unfolding w by fastforce
    assume e: "(b, Exclusive) \<in> set (want ix)"
    then have "lock_order (b, t) \<le> lock_order (b, Exclusive)"
      using dedup_first [of lock_order fst ?xs "(b, t)" "(b, Exclusive)", OF mono s m [unfolded w]] by simp
    then show "t = Exclusive" by (cases t) (simp_all add: lock_order_def less_eq_prod_def)
  qed
qed

subsection \<open>Taking and giving back the locks\<close>

definition locked_latches :: "(nat \<times> LockType) list \<Rightarrow> hash_index \<Rightarrow> hash_index \<Rightarrow> bool" where
  "locked_latches ws ix ix' \<longleftrightarrow> length (buckets ix') = length (buckets ix)
     \<and> (\<forall>b < length (buckets ix).
          readers (latch_word ix' b) = readers (latch_word ix b) + (if (b, Shared) \<in> set ws then 1 else 0)
          \<and> (writer (latch_word ix' b) \<longleftrightarrow> writer (latch_word ix b) \<or> (b, Exclusive) \<in> set ws))"

lemma lock_bucket_free:
  assumes wf: "index_wf ix" and b: "b < length (buckets ix)" and free: "latch_free ix b"
  shows "\<exists>ix'. lock_bucket ix (b, t) = (True, ix') \<and> same_index ix ix' \<and> locked_latches [(b, t)] ix ix'"
proof -
  have lw: "links_wf ix" by (rule index_wf_links [OF wf])
  let ?w = "latch_word ix b"
  have f: "\<not> writer ?w" "readers ?w = 0" using free by (simp_all add: latch_free_def)
  show ?thesis
  proof (cases t)
    case Exclusive
    let ?ix = "set_latch_word ix b (?w OR EXCLUSIVE_BIT)"
    have "lock_bucket ix (b, t) = (True, ?ix)" using f Exclusive by (simp add: lock_bucket_def try_lock_exclusive_eq [OF lw b])
    moreover have si: "same_index ix ?ix" by (rule set_latch_same [OF wf b]) (simp add: or_exclusive)
    moreover have "locked_latches [(b, t)] ix ?ix"
      using Exclusive f si by (auto simp: locked_latches_def set_latch_word_latches [OF lw b] or_exclusive same_index_def)
    ultimately show ?thesis by blast
  next
    case Shared
    let ?ix = "set_latch_word ix b (?w + SHARED_ONE)"
    have r: "readers ?w < 2 ^ 15 - 1" using f by simp
    have "lock_bucket ix (b, t) = (True, ?ix)" using f Shared by (simp add: lock_bucket_def try_lock_shared_eq [OF lw b])
    moreover have si: "same_index ix ?ix" by (rule set_latch_same [OF wf b]) (simp add: add_shared [OF r])
    moreover have "locked_latches [(b, t)] ix ?ix"
      using Shared f si by (auto simp: locked_latches_def set_latch_word_latches [OF lw b] add_shared [OF r] same_index_def)
    ultimately show ?thesis by blast
  qed
qed

lemma same_index_trans: "same_index a b \<Longrightarrow> same_index b c \<Longrightarrow> same_index a c"
  by (simp add: same_index_def)

lemma lock_all_free:
  assumes "index_wf ix" and "\<forall>w \<in> set ws. fst w < length (buckets ix) \<and> latch_free ix (fst w)" and "distinct (map fst ws)"
  shows "\<exists>ix'. lock_all ix ws = Some ix' \<and> same_index ix ix' \<and> locked_latches ws ix ix'"
  using assms
proof (induction ws arbitrary: ix)
  case Nil
  then show ?case by (simp add: locked_latches_def)
next
  case (Cons w ws)
  obtain b t where w: "w = (b, t)" by fastforce
  from lock_bucket_free [OF Cons.prems(1), of b t] Cons.prems(2) w obtain ix1 where
    l: "lock_bucket ix w = (True, ix1)" "same_index ix ix1" "locked_latches [(b, t)] ix ix1" by auto
  have wf1: "index_wf ix1" and len: "length (buckets ix1) = length (buckets ix)" using l(2) by (auto simp: same_index_def)
  have nb: "(b, t') \<notin> set ws" for t' using Cons.prems(3) w by (force simp: image_iff)
  have "\<forall>v \<in> set ws. fst v < length (buckets ix1) \<and> latch_free ix1 (fst v)"
    using Cons.prems(2,3) l(3) len w by (fastforce simp: locked_latches_def latch_free_def image_iff)
  from Cons.IH [OF wf1 this] Cons.prems(3) obtain ix2 where
    i: "lock_all ix1 ws = Some ix2" "same_index ix1 ix2" "locked_latches ws ix1 ix2" by auto
  have "locked_latches (w # ws) ix ix2"
    using i(3) l(3) nb len by (cases t) (auto simp: locked_latches_def w)
  then show ?case using l(1) i same_index_trans [OF l(2) i(2)] by auto
qed

lemma unlock_bucket_locked:
  assumes wf: "index_wf ix'" and lk: "locked_latches ((b, t) # ws) ix ix'" and b: "b < length (buckets ix)" and nb: "\<forall>t'. (b, t') \<notin> set ws"
    and free: "latch_free ix b"
  shows "index_wf (unlock_bucket (b, t) ix')" and "locked_latches ws ix (unlock_bucket (b, t) ix')"
proof -
  have lw: "links_wf ix'" by (rule index_wf_links [OF wf])
  let ?w = "latch_word ix' b"
  have len: "length (buckets ix') = length (buckets ix)" using lk by (simp add: locked_latches_def)
  then have b': "b < length (buckets ix')" using b by simp
  have f: "readers (latch_word ix b) = 0" "\<not> writer (latch_word ix b)" using free by (simp_all add: latch_free_def)
  have "index_wf (unlock_bucket (b, t) ix') \<and> locked_latches ws ix (unlock_bucket (b, t) ix')"
  proof (cases t)
    case Exclusive
    have e: "unlock_bucket (b, t) ix' = set_latch_word ix' b (?w AND NOT EXCLUSIVE_BIT)"
      using Exclusive by (simp add: unlock_bucket_def unlock_exclusive_def)
    have si: "same_index ix' (unlock_bucket (b, t) ix')"
      unfolding e by (rule set_latch_same [OF wf b']) (simp add: and_not_exclusive)
    have "locked_latches ws ix (unlock_bucket (b, t) ix')"
      unfolding e locked_latches_def
      using lk Exclusive nb f len si [unfolded e] b
      by (auto simp: locked_latches_def set_latch_word_latches [OF lw b'] and_not_exclusive same_index_def)
    with si show ?thesis by (simp add: same_index_def)
  next
    case Shared
    have r: "0 < readers ?w" using lk Shared b by (simp add: locked_latches_def)
    have e: "unlock_bucket (b, t) ix' = set_latch_word ix' b (?w - SHARED_ONE)"
      using Shared by (simp add: unlock_bucket_def unlock_shared_def)
    have si: "same_index ix' (unlock_bucket (b, t) ix')"
      unfolding e by (rule set_latch_same [OF wf b']) (simp add: sub_shared [OF r])
    have "locked_latches ws ix (unlock_bucket (b, t) ix')"
      unfolding e locked_latches_def
      using lk Shared nb f len si [unfolded e] b
      by (auto simp: locked_latches_def set_latch_word_latches [OF lw b'] sub_shared [OF r] same_index_def)
    with si show ?thesis by (simp add: same_index_def)
  qed
  then show "index_wf (unlock_bucket (b, t) ix')" and "locked_latches ws ix (unlock_bucket (b, t) ix')" by auto
qed

lemma unlock_all_free:
  assumes "index_wf ix'" and "locked_latches ws ix ix'" and "\<forall>w \<in> set ws. fst w < length (buckets ix) \<and> latch_free ix (fst w)"
    and "distinct (map fst ws)"
  shows "locked_latches [] ix (fold unlock_bucket ws ix')"
  using assms
proof (induction ws arbitrary: ix')
  case (Cons w ws)
  obtain b t where w: "w = (b, t)" by fastforce
  have nb: "\<forall>t'. (b, t') \<notin> set ws" using Cons.prems(4) w by (force simp: image_iff)
  have fb: "b < length (buckets ix)" "latch_free ix b" using Cons.prems(3) w by auto
  note u = unlock_bucket_locked [OF Cons.prems(1) Cons.prems(2) [unfolded w] fb(1) nb fb(2)]
  show ?case using Cons.IH [OF u] Cons.prems(3,4) w by simp
qed simp

text \<open>C22: The locks a transaction wants come in strictly increasing bucket order (so two transactions never wait for each other
  in a cycle), one for each bucket of its keys, exclusive exactly when some key of the bucket asks for it.\<close>

theorem txn_lock_order:
  "sorted_wrt (<) (map fst (wanted_locks ix keys))
   \<and> fst ` set (wanted_locks ix keys) = (\<lambda>(k, t). bucket_index ix (hash64 k)) ` set keys
   \<and> (\<forall>b t. (b, t) \<in> set (wanted_locks ix keys) \<longrightarrow>
        (t = Exclusive) = (\<exists>k. (k, Exclusive) \<in> set keys \<and> bucket_index ix (hash64 k) = b))"
proof (intro conjI allI impI)
  show "sorted_wrt (<) (map fst (wanted_locks ix keys))" by (rule wanted_locks_order(1))
  show "fst ` set (wanted_locks ix keys) = (\<lambda>(k, t). bucket_index ix (hash64 k)) ` set keys" by (rule wanted_locks_order(2))
  show "(t = Exclusive) = (\<exists>k. (k, Exclusive) \<in> set keys \<and> bucket_index ix (hash64 k) = b)"
    if "(b, t) \<in> set (wanted_locks ix keys)" for b t
    using wanted_locks_order(3) [OF that] by force
qed

theorem txn_lock_order_witness:
  "sorted_wrt (<) (map fst (wanted_locks (index_new 4) [([107], Shared), ([107], Exclusive)]))"
  using txn_lock_order [of "index_new 4" "[([107], Shared), ([107], Exclusive)]"] by blast

text \<open>C23: With no latch held, a transaction gets all its locks at once; every key of it is then locked as it asked, and the
  operations of the session can run. After any operations that leave the latches alone the unlock frees every latch.\<close>

theorem txn_lock_unlock:
  assumes run: "can_run st s R" and free: "all_free (st_index st)" and new: "\<not> s_txn_mode s" "s_txn_locks s = []"
  shows "\<exists>st1 s1. txn_lock st s keys = Some (st1, s1) \<and> can_run st1 s1 R \<and> s_txn_mode s1
    \<and> (\<forall>(k, t) \<in> set keys. let w = latch_word (st_index st1) (bucket_index (st_index st) (hash64 k)) in
         if t = Exclusive then writer w else writer w \<or> readers w = 1)
    \<and> (\<forall>k. svalue st1 R k = svalue st R k)
    \<and> (\<forall>st2. index_wf (st_index st2) \<and> same_latches (st_index st1) (st_index st2) \<longrightarrow>
         all_free (st_index (fst (txn_unlock st2 s1))) \<and> \<not> s_txn_mode (snd (txn_unlock st2 s1)))"
proof -
  let ?ix = "st_index st" and ?ws = "wanted_locks (st_index st) keys"
  have dk: "data_ok ?ix (st_log st) R" using run by (simp add: can_run_def store_inv_def)
  have wf: "index_wf ?ix" using dk by (simp add: data_ok_def data_base_def heads_ok_def)
  have ws: "\<forall>w \<in> set ?ws. fst w < length (buckets ?ix) \<and> latch_free ?ix (fst w)"
  proof
    fix w assume "w \<in> set ?ws"
    then have "fst w \<in> (\<lambda>(k, t). bucket_index ?ix (hash64 k)) ` set keys" unfolding wanted_locks_order(2) [symmetric] by (rule imageI)
    then have "fst w < length (buckets ?ix)" using index_wf_bucket_index [OF wf] by auto
    then show "fst w < length (buckets ?ix) \<and> latch_free ?ix (fst w)" using free by (simp add: all_free_def)
  qed
  have ds: "distinct (map fst ?ws)" using wanted_locks_order(1) [of ?ix keys] by (simp add: strict_sorted_iff)
  from lock_all_free [OF wf ws ds] obtain ix1 where l: "lock_all ?ix ?ws = Some ix1" "same_index ?ix ix1" "locked_latches ?ws ?ix ix1" by blast
  let ?st1 = "st\<lparr>st_index := ix1\<rparr>" and ?s1 = "s\<lparr>s_txn_locks := ?ws, s_txn_mode := True\<rparr>"
  have t: "txn_lock st s keys = Some (?st1, ?s1)" using l(1) new by (simp add: txn_lock_def Let_def)
  have r1: "can_run ?st1 ?s1 R"
    using run data_same [OF dk l(2)] by (auto simp: can_run_def store_inv_def has_slot_def system_state_def)
  have lk: "if t = Exclusive then writer (latch_word ix1 (bucket_index ?ix (hash64 k)))
      else writer (latch_word ix1 (bucket_index ?ix (hash64 k))) \<or> readers (latch_word ix1 (bucket_index ?ix (hash64 k))) = 1"
    if kt: "(k, t) \<in> set keys" for k t
  proof -
    let ?b = "bucket_index ?ix (hash64 k)"
    have b: "?b < length (buckets ?ix)" by (rule index_wf_bucket_index [OF wf])
    have f: "latch_free ?ix ?b" using free b by (simp add: all_free_def)
    have "?b \<in> fst ` set ?ws" unfolding wanted_locks_order(2) using kt by force
    then obtain t' where m: "(?b, t') \<in> set ?ws" by auto
    have "t' = Exclusive" if "t = Exclusive" using wanted_locks_order(3) [OF m] kt that by force
    then show ?thesis using l(3) b f m by (cases t'; cases t) (auto simp: locked_latches_def latch_free_def)
  qed
  have un: "all_free (st_index (fst (txn_unlock st2 ?s1))) \<and> \<not> s_txn_mode (snd (txn_unlock st2 ?s1))"
    if "index_wf (st_index st2)" "same_latches ix1 (st_index st2)" for st2
  proof -
    have "locked_latches ?ws ?ix (st_index st2)" using l(3) that(2) by (auto simp: locked_latches_def same_latches_def)
    from unlock_all_free [OF that(1) this ws ds] have "locked_latches [] ?ix (fold unlock_bucket ?ws (st_index st2))" .
    then show ?thesis using free by (auto simp: txn_unlock_def all_free_def latch_free_def locked_latches_def)
  qed
  have sv: "svalue ?st1 R k = svalue st R k" for k by (rule svalue_cong) (simp add: cur_same [OF l(2)])
  have "\<forall>(k, t) \<in> set keys. let w = latch_word (st_index ?st1) (bucket_index ?ix (hash64 k)) in
      if t = Exclusive then writer w else writer w \<or> readers w = 1"
  proof (intro ballI, unfold split_paired_all prod.case Let_def)
    fix k t assume "(k, t) \<in> set keys"
    from lk [OF this] show "if t = Exclusive then writer (latch_word (st_index ?st1) (bucket_index ?ix (hash64 k)))
        else writer (latch_word (st_index ?st1) (bucket_index ?ix (hash64 k)))
          \<or> readers (latch_word (st_index ?st1) (bucket_index ?ix (hash64 k))) = 1"
      by (cases "t = Exclusive") simp_all
  qed
  moreover have "\<forall>st2. index_wf (st_index st2) \<and> same_latches (st_index ?st1) (st_index st2) \<longrightarrow>
      all_free (st_index (fst (txn_unlock st2 ?s1))) \<and> \<not> s_txn_mode (snd (txn_unlock st2 ?s1))" using un by simp
  moreover have "s_txn_mode ?s1" by simp
  ultimately show ?thesis using t r1 sv by blast
qed

theorem txn_lock_unlock_witness:
  "\<exists>st1 s1. txn_lock demo_store demo_session [([107], Exclusive), ([108], Shared)] = Some (st1, s1) \<and> s_txn_mode s1
     \<and> writer (latch_word (st_index st1) (bucket_index (st_index demo_store) (hash64 [107])))"
proof -
  have f: "all_free (st_index demo_store)" "\<not> s_txn_mode demo_session" "s_txn_locks demo_session = []"
    using demo_store_ok(1) by (auto simp: can_run_def demo_session_def new_session_def)
  show ?thesis
    using txn_lock_unlock [OF demo_store_ok(1) f, of "[([107], Exclusive), ([108], Shared)]"] by (auto simp: Let_def)
qed

end
