(* ===== verification/Aof.thy ===== *)
theory Aof
  imports Prelude
begin

text \<open>
  The append-only file (\<^verbatim>\<open>aof.rs\<close>): the write buffer, the file as the operating system holds it, the counters of written
  and synced bytes, and the calls open, enqueue, commit, wait, truncate and replay. The outcomes of the system calls
  are a list in the state: each call takes the next one, and an empty list means that every call succeeds. A failed write may
  have put some bytes into the file; an error is the text of its message. A wait for a commit takes a schedule of the calls other
  threads make while it is asleep; \<open>None\<close> is a wait that is still asleep when the schedule ends.
\<close>

subsection \<open>State\<close>

definition AOF_VERSION :: byte where "AOF_VERSION = 1"

datatype AofOp = Command | TxnStart | TxnCommit

fun op_code :: "AofOp \<Rightarrow> byte" where
  "op_code Command = 1"
| "op_code TxnStart = 2"
| "op_code TxnCommit = 3"

definition from_u8 :: "byte \<Rightarrow> AofOp option" where
  "from_u8 v = (if v = 1 then Some Command else if v = 2 then Some TxnStart else if v = 3 then Some TxnCommit else None)"

datatype CommitMode = NeverCommit | Interval nat | Always

record AofEntry =
  e_op :: AofOp
  e_timestamp_ms :: int
  e_payload :: bytes

definition HEADER_LEN :: nat where "HEADER_LEN = 4 + 1 + 1 + 2 + 8"

type_synonym 'a io = "bytes + 'a" \<comment> \<open>\<open>Inl\<close>: an \<open>io::Error\<close>, as its text\<close>

datatype io_outcome = IoOk | IoFail nat bytes \<comment> \<open>the bytes a failed write got out, the message\<close>

record aof =
  a_file :: bytes
  a_buf :: bytes
  a_written :: nat
  a_committed :: nat
  a_tail :: nat
  a_mode :: CommitMode
  a_outcomes :: "io_outcome list"

definition os_call :: "aof \<Rightarrow> io_outcome \<times> aof" where
  "os_call a = (case a_outcomes a of [] \<Rightarrow> (IoOk, a) | r # rs \<Rightarrow> (r, a\<lparr>a_outcomes := rs\<rparr>))"

definition file_write :: "bytes \<Rightarrow> nat \<Rightarrow> bytes \<Rightarrow> bytes" where
  \<comment> \<open>\<open>seek\<close> to \<open>pos\<close> and write; a gap reads as zeros\<close>
  "file_write f pos data = take pos f @ replicate (pos - length f) 0 @ data @ drop (pos + length data) f"

subsection \<open>Calls\<close>

definition aof_open :: "bytes \<Rightarrow> CommitMode \<Rightarrow> io_outcome list \<Rightarrow> aof io" where
  \<comment> \<open>the file, or \<open>[]\<close> when it did not exist; \<open>open\<close> and \<open>metadata\<close> may fail\<close>
  "aof_open f mode outcomes =
     (let a = \<lparr>a_file = f, a_buf = [], a_written = length f, a_committed = length f, a_tail = length f, a_mode = mode,
               a_outcomes = outcomes\<rparr>
      in case os_call a of (IoFail _ e, _) \<Rightarrow> Inl e
         | (IoOk, a) \<Rightarrow> (case os_call a of (IoFail _ e, _) \<Rightarrow> Inl e | (IoOk, a) \<Rightarrow> Inr a))"

definition aof_tail_address :: "aof \<Rightarrow> nat" where
  "aof_tail_address a = a_tail a"

definition committed_address :: "aof \<Rightarrow> nat" where
  "committed_address a = a_committed a"

definition aof_header :: "AofOp \<Rightarrow> int \<Rightarrow> nat \<Rightarrow> bytes" where
  "aof_header op ts len =
     to_le 4 (of_nat len :: u32) @ [AOF_VERSION, op_code op, 0, 0] @ to_le 8 (word_of_int ts :: u64)"

definition flush_buffer_locked :: "aof \<Rightarrow> unit io \<times> aof" where
  "flush_buffer_locked a =
     (if a_buf a = [] then (Inr (), a)
      else (case os_call a of (IoFail _ e, a) \<Rightarrow> (Inl e, a)
            | (IoOk, a) \<Rightarrow>
                (case os_call a of
                   (IoFail n e, a) \<Rightarrow> (Inl e, a\<lparr>a_file := file_write (a_file a) (a_written a) (take n (a_buf a))\<rparr>)
                 | (IoOk, a) \<Rightarrow>
                     (Inr (), a\<lparr>a_file := file_write (a_file a) (a_written a) (a_buf a),
                                a_written := a_written a + length (a_buf a), a_buf := []\<rparr>))))"

definition commit :: "aof \<Rightarrow> unit io \<times> aof" where
  "commit a =
     (case flush_buffer_locked a of (Inl e, a) \<Rightarrow> (Inl e, a)
      | (Inr _, a) \<Rightarrow>
          if a_committed a < a_written a then
            (case os_call a of (IoFail _ e, a) \<Rightarrow> (Inl e, a) | (IoOk, a) \<Rightarrow> (Inr (), a\<lparr>a_committed := a_written a\<rparr>))
          else (Inr (), a))"

definition enqueue :: "aof \<Rightarrow> AofOp \<Rightarrow> int \<Rightarrow> bytes \<Rightarrow> nat io \<times> aof" where
  "enqueue a op ts payload =
     (let buf = a_buf a @ aof_header op ts (length payload) @ payload;
          end = a_written a + length buf;
          a = a\<lparr>a_buf := buf, a_tail := end\<rparr>;
          (r, a) = (if 64 * 1024 \<le> length buf then flush_buffer_locked a else (Inr (), a))
      in case r of Inl e \<Rightarrow> (Inl e, a)
         | Inr _ \<Rightarrow>
             if a_mode a = Always then (case commit a of (Inl e, a) \<Rightarrow> (Inl e, a) | (Inr _, a) \<Rightarrow> (Inr end, a))
             else (Inr end, a))"

definition aof_truncate :: "aof \<Rightarrow> unit io \<times> aof" where
  "aof_truncate a =
     (let a = a\<lparr>a_buf := []\<rparr> in
      case os_call a of (IoFail _ e, a) \<Rightarrow> (Inl e, a)
      | (IoOk, a) \<Rightarrow>
          (let a = a\<lparr>a_file := []\<rparr> in
           case os_call a of (IoFail _ e, a) \<Rightarrow> (Inl e, a)
           | (IoOk, a) \<Rightarrow> (Inr (), a\<lparr>a_written := 0, a_committed := 0, a_tail := 0\<rparr>)))"

datatype aof_call = EnqueueCall AofOp int bytes | CommitCall | TruncateCall

fun other_call :: "aof_call \<Rightarrow> aof \<Rightarrow> aof" where
  \<comment> \<open>what a call of another thread (another session, the interval timer, a checkpoint) does to the log\<close>
  "other_call (EnqueueCall op ts payload) a = snd (enqueue a op ts payload)"
| "other_call CommitCall a = snd (commit a)"
| "other_call TruncateCall a = snd (aof_truncate a)"

fun meanwhile :: "aof_call list list \<Rightarrow> aof \<Rightarrow> aof \<times> aof_call list list" where
  \<comment> \<open>the calls of other threads while the caller is outside the lock\<close>
  "meanwhile [] a = (a, [])"
| "meanwhile (cs # sched) a = (fold other_call cs a, sched)"

fun wait_loop :: "aof \<Rightarrow> nat \<Rightarrow> aof_call list list \<Rightarrow> aof option" where
  \<comment> \<open>\<open>while inner.committed < addr { inner = commit_cvar.wait(inner) }\<close>: each element of the schedule is what the other threads
    do between falling asleep and looking again; \<open>None\<close>: still asleep after all of it\<close>
  "wait_loop a addr [] = (if a_committed a < addr then None else Some a)"
| "wait_loop a addr (cs # sched) = (if a_committed a < addr then wait_loop (fold other_call cs a) addr sched else Some a)"

definition wait_committed :: "aof \<Rightarrow> nat \<Rightarrow> aof_call list list \<Rightarrow> (unit io \<times> aof) option" where
  \<comment> \<open>the schedule gives the calls of other threads at the points where the caller does not hold the lock: before its commit, before
    the loop, and at each sleep; \<open>None\<close>: the caller has not returned when the schedule ends\<close>
  "wait_committed a addr sched =
     (if addr \<le> committed_address a then Some (Inr (), a)
      else
        (let (a, sched) = meanwhile sched a in
         case commit a of (Inl e, a) \<Rightarrow> Some (Inl e, a)
         | (Inr _, a) \<Rightarrow>
             (let (a, sched) = meanwhile sched a in
              case wait_loop a addr sched of None \<Rightarrow> None | Some a \<Rightarrow> Some (Inr (), a))))"

function replay_loop :: "bytes \<Rightarrow> nat \<Rightarrow> nat \<Rightarrow> AofEntry list" where
  \<comment> \<open>the entries handed to the callback, reading the file from \<open>pos\<close> on\<close>
  "replay_loop f durable pos =
     (if durable < pos + HEADER_LEN then []
      else if length f < pos + HEADER_LEN then []
      else
        (let hdr = slice_at f pos HEADER_LEN;
             plen = unat (from_le (slice_at hdr 0 4) :: u32)
         in case from_u8 (hdr ! 5) of None \<Rightarrow> []
            | Some op \<Rightarrow>
                (let ts = sint (from_le (slice_at hdr 8 8) :: u64) in
                 if hdr ! 4 \<noteq> AOF_VERSION \<or> durable < pos + HEADER_LEN + plen then []
                 else if length f < pos + HEADER_LEN + plen then []
                 else \<lparr>e_op = op, e_timestamp_ms = ts, e_payload = slice_at f (pos + HEADER_LEN) plen\<rparr>
                      # replay_loop f durable (pos + HEADER_LEN + plen))))"
  by pat_completeness auto
termination
  by (relation "measure (\<lambda>(f, durable, pos). durable - pos)") (auto simp: HEADER_LEN_def)

declare replay_loop.simps [simp del]

definition aof_replay :: "aof \<Rightarrow> AofEntry list io \<times> aof" where
  "aof_replay a =
     (case commit a of (Inl e, a) \<Rightarrow> (Inl e, a)
      | (Inr _, a) \<Rightarrow>
          (case os_call a of (IoFail _ e, a) \<Rightarrow> (Inl e, a)
           | (IoOk, a) \<Rightarrow> (Inr (replay_loop (a_file a) (committed_address a) 0), a)))"

definition aof_drop :: "aof \<Rightarrow> aof" where
  "aof_drop a = snd (commit a)"

subsection \<open>Frames\<close>

definition frame :: "AofEntry \<Rightarrow> bytes" where
  "frame e = aof_header (e_op e) (e_timestamp_ms e) (length (e_payload e)) @ e_payload e"

definition entry_ok :: "AofEntry \<Rightarrow> bool" where
  "entry_ok e \<longleftrightarrow> length (e_payload e) < 2 ^ 32 \<and> is_i64 (e_timestamp_ms e)"

definition frames :: "AofEntry list \<Rightarrow> bytes" where
  "frames es = concat (map frame es)"

lemma length_header [simp]: "length (aof_header op ts n) = HEADER_LEN"
  by (simp add: aof_header_def HEADER_LEN_def)

lemma header_not_Nil [simp]: "aof_header op ts n \<noteq> []"
  by (simp add: aof_header_def)

lemma length_frame: "length (frame e) = HEADER_LEN + length (e_payload e)"
  by (simp add: frame_def)

lemma frames_simps [simp]: "frames [] = []" "frames (e # es) = frame e @ frames es" "frames (es @ es') = frames es @ frames es'"
  by (simp_all add: frames_def)

lemma from_u8_op_code [simp]: "from_u8 (op_code op) = Some op"
  by (cases op) (simp_all add: from_u8_def)

lemma header_fields:
  assumes "n < 2 ^ 32" and "is_i64 ts"
  shows "unat (from_le (slice_at (aof_header op ts n) 0 4) :: u32) = n" and "aof_header op ts n ! 4 = AOF_VERSION"
    and "aof_header op ts n ! 5 = op_code op" and "sint (from_le (slice_at (aof_header op ts n) 8 8) :: u64) = ts"
proof -
  let ?h = "aof_header op ts n" and ?l = "to_le 4 (of_nat n :: u32)"
  have l: "length ?l = 4" by simp
  have "slice_at ?h 0 4 = ?l" by (simp add: aof_header_def slice_at_def)
  then show "unat (from_le (slice_at ?h 0 4) :: u32) = n" using assms(1) by (simp add: unat_of_nat_u32)
  show "?h ! 4 = AOF_VERSION" "?h ! 5 = op_code op" unfolding aof_header_def nth_append l by simp_all
  have "slice_at ?h 8 8 = to_le 8 (word_of_int ts :: u64)" by (simp add: aof_header_def slice_at_def)
  then show "sint (from_le (slice_at ?h 8 8) :: u64) = ts" using assms(2) by (simp add: sint_word_of_int_i64)
qed

subsection \<open>Replaying frames\<close>

fun within :: "nat \<Rightarrow> AofEntry list \<Rightarrow> AofEntry list" where
  \<comment> \<open>the entries whose frames lie wholly in the first \<open>k\<close> bytes\<close>
  "within k [] = []"
| "within k (e # es) = (if length (frame e) \<le> k then e # within (k - length (frame e)) es else [])"

lemma within_all [simp]: "within (length (frames es)) es = es"
  by (induction es) simp_all

lemma within_split: "\<exists>es1 es2. es = es1 @ es2 \<and> within k es = es1 \<and> length (frames es1) \<le> k"
proof (induction es arbitrary: k)
  case (Cons e es)
  show ?case
  proof (cases "length (frame e) \<le> k")
    case True
    obtain es1 es2 where "es = es1 @ es2" "within (k - length (frame e)) es = es1" "length (frames es1) \<le> k - length (frame e)"
      using Cons [of "k - length (frame e)"] by blast
    with True show ?thesis by (intro exI [of _ "e # es1"] exI [of _ es2]) simp
  qed simp
qed simp

lemma replay_header:
  assumes "entry_ok e" and "k \<le> length (frame e)" and "HEADER_LEN \<le> k" and "take k f = take k (frame e)" and "k \<le> length f"
  shows "let hdr = slice_at (pre @ f) (length pre) HEADER_LEN in
     unat (from_le (slice_at hdr 0 4) :: u32) = length (e_payload e) \<and> from_u8 (hdr ! 5) = Some (e_op e)
     \<and> hdr ! 4 = AOF_VERSION \<and> sint (from_le (slice_at hdr 8 8) :: u64) = e_timestamp_ms e"
proof -
  have "take HEADER_LEN f = take HEADER_LEN (take k f)" using assms(3) by (simp add: min_absorb1)
  also have "\<dots> = aof_header (e_op e) (e_timestamp_ms e) (length (e_payload e))"
    using assms(3,4) by (simp add: min_absorb1 frame_def)
  finally show ?thesis using assms(1) header_fields by (simp add: slice_at_def entry_ok_def)
qed

lemma replay_frame:
  assumes "entry_ok e" and "length pre + length (frame e) \<le> durable"
  shows "replay_loop (pre @ frame e @ rest) durable (length pre) =
    e # replay_loop (pre @ frame e @ rest) durable (length pre + length (frame e))"
proof -
  let ?f = "pre @ frame e @ rest" and ?p = "length pre"
  have len: "length (frame e) = HEADER_LEN + length (e_payload e)" by (rule length_frame)
  have "slice_at ?f (?p + HEADER_LEN) (length (e_payload e)) = e_payload e"
    by (simp add: slice_at_def frame_def)
  moreover note replay_header [OF assms(1) le_refl, of "frame e @ rest" pre]
  ultimately show ?thesis
    using assms(2) by (subst replay_loop.simps) (simp add: len Let_def add.assoc)
qed

lemma replay_torn:
  assumes "entry_ok e" and "k < length (frame e)"
  shows "replay_loop (pre @ take k (frame e)) (length pre + k) (length pre) = []"
proof (cases "HEADER_LEN \<le> k")
  case True
  with replay_header [OF assms(1) less_imp_le [OF assms(2)] True, of "take k (frame e)" pre] assms(2)
  show ?thesis by (subst replay_loop.simps) (simp add: Let_def length_frame min_absorb2)
qed (simp add: replay_loop.simps)

lemma replay_prefix:
  "\<forall>e \<in> set es. entry_ok e \<Longrightarrow> k \<le> length (frames es) \<Longrightarrow>
    replay_loop (pre @ take k (frames es)) (length pre + k) (length pre) = within k es"
proof (induction es arbitrary: pre k)
  case (Cons e es)
  show ?case
  proof (cases "length (frame e) \<le> k")
    case True
    let ?k = "k - length (frame e)"
    have "replay_loop ((pre @ frame e) @ take ?k (frames es)) (length (pre @ frame e) + ?k) (length (pre @ frame e)) = within ?k es"
      using Cons.prems True by (intro Cons.IH) auto
    with True replay_frame [of e pre "length pre + k" "take ?k (frames es)"] Cons.prems show ?thesis by simp
  next
    case False
    with replay_torn [of e k pre] Cons.prems show ?thesis by simp
  qed
qed (simp add: replay_loop.simps HEADER_LEN_def)

lemma replay_entries_prefix:
  "\<forall>e \<in> set es. entry_ok e \<Longrightarrow> length pre + length (frames es) \<le> durable \<Longrightarrow>
    replay_loop (pre @ frames es @ rest) durable (length pre) =
    es @ replay_loop (pre @ frames es @ rest) durable (length pre + length (frames es))"
proof (induction es arbitrary: pre)
  case (Cons e es)
  have "replay_loop ((pre @ frame e) @ frames es @ rest) durable (length (pre @ frame e)) =
      es @ replay_loop ((pre @ frame e) @ frames es @ rest) durable (length (pre @ frame e) + length (frames es))"
    using Cons.prems by (intro Cons.IH) auto
  with replay_frame [of e pre durable "frames es @ rest"] Cons.prems show ?case by (simp add: add.assoc)
qed simp

subsection \<open>The log as a sequence of entries\<close>

definition aof_inv :: "aof \<Rightarrow> AofEntry list \<Rightarrow> bool" where
  "aof_inv a es \<longleftrightarrow>
     a_committed a \<le> a_written a \<and> a_written a \<le> length (a_file a) \<and> a_tail a = a_written a + length (a_buf a)
     \<and> take (a_written a) (a_file a) @ a_buf a = frames es \<and> (\<forall>e \<in> set es. entry_ok e)"

definition aof_ext :: "aof \<Rightarrow> aof \<Rightarrow> bool" where
  "aof_ext a a' \<longleftrightarrow> a_mode a' = a_mode a \<and> a_committed a \<le> a_committed a' \<and> a_tail a' = a_tail a"

lemma os_call_frame:
  "os_call a = (r, a') \<Longrightarrow> a' = a\<lparr>a_outcomes := a_outcomes a'\<rparr>"
  by (auto simp: os_call_def split: list.splits)

lemma aof_inv_outcomes [simp]: "aof_inv (a\<lparr>a_outcomes := x\<rparr>) es = aof_inv a es"
  by (simp add: aof_inv_def)

lemma file_write_at_end:
  "n \<le> length f \<Longrightarrow> take n (file_write f n d) = take n f \<and> n + length d \<le> length (file_write f n d)
    \<and> take (n + length d) (file_write f n d) = take n f @ d"
  by (simp add: file_write_def min_absorb2)

lemma flush_buffer_inv:
  assumes inv: "aof_inv a es" and f: "flush_buffer_locked a = (r, a')"
  shows "aof_inv a' es \<and> aof_ext a a' \<and> a_committed a' = a_committed a \<and> (r = Inr () \<longrightarrow> a_buf a' = [])"
proof (cases "a_buf a = []")
  case True
  then show ?thesis using assms by (auto simp: flush_buffer_locked_def aof_ext_def)
next
  case nb: False
  obtain r1 a1 where c1: "os_call a = (r1, a1)" by fastforce
  obtain r2 a2 where c2: "os_call a1 = (r2, a2)" by fastforce
  obtain x where x: "a2 = a\<lparr>a_outcomes := x\<rparr>" using os_call_frame [OF c1] os_call_frame [OF c2] by (metis aof.surjective aof.update_convs(7))
  obtain y where y: "a1 = a\<lparr>a_outcomes := y\<rparr>" using os_call_frame [OF c1] by blast
  note w = file_write_at_end [of "a_written a" "a_file a"]
  have le: "a_written a \<le> length (a_file a)" using inv by (simp add: aof_inv_def)
  show ?thesis
  proof (cases r1)
    case (IoFail n e)
    then show ?thesis using f nb c1 inv y by (auto simp: flush_buffer_locked_def aof_ext_def)
  next
    case IoOk
    show ?thesis
    proof (cases r2)
      case (IoFail n e)
      have "a' = a\<lparr>a_outcomes := x, a_file := file_write (a_file a) (a_written a) (take n (a_buf a))\<rparr>" "r = Inl e"
        using f nb c1 c2 IoOk IoFail x by (auto simp: flush_buffer_locked_def)
      with inv w [OF le, of "take n (a_buf a)"] show ?thesis by (auto simp: aof_inv_def aof_ext_def)
    next
      case IoOk': IoOk
      have "a' = a\<lparr>a_outcomes := x, a_file := file_write (a_file a) (a_written a) (a_buf a),
          a_written := a_written a + length (a_buf a), a_buf := []\<rparr>"
        using f nb c1 c2 IoOk IoOk' x by (auto simp: flush_buffer_locked_def)
      with inv w [OF le, of "a_buf a"] show ?thesis by (auto simp: aof_inv_def aof_ext_def)
    qed
  qed
qed

lemma commit_inv:
  assumes inv: "aof_inv a es" and c: "commit a = (r, a')"
  shows "aof_inv a' es \<and> aof_ext a a' \<and> (r = Inr () \<longrightarrow> a_buf a' = [] \<and> a_committed a' = a_written a')"
proof -
  obtain r1 a1 where f: "flush_buffer_locked a = (r1, a1)" by fastforce
  note i = flush_buffer_inv [OF inv f]
  obtain r2 a2 where c2: "os_call a1 = (r2, a2)" by fastforce
  obtain x where x: "a2 = a1\<lparr>a_outcomes := x\<rparr>" using os_call_frame [OF c2] by blast
  have le: "a_committed a1 \<le> a_written a1" using i by (simp add: aof_inv_def)
  consider e where "r1 = Inl e" | "r1 = Inr ()" "\<not> a_committed a1 < a_written a1"
    | n e where "r1 = Inr ()" "a_committed a1 < a_written a1" "r2 = IoFail n e"
    | "r1 = Inr ()" "a_committed a1 < a_written a1" "r2 = IoOk" by (cases r1; cases r2) auto
  then show ?thesis
  proof cases
    case 1
    then have "r = Inl e" "a' = a1" using c f by (simp_all add: commit_def)
    with i show ?thesis by simp
  next
    case 2
    then have "r = Inr ()" "a' = a1" using c f by (simp_all add: commit_def)
    with i 2 le show ?thesis by simp
  next
    case 3
    then have "r = Inl e" "a' = a1\<lparr>a_outcomes := x\<rparr>" using c f c2 x by (simp_all add: commit_def)
    with i show ?thesis by (simp add: aof_ext_def)
  next
    case 4
    then have "r = Inr ()" "a' = a1\<lparr>a_outcomes := x, a_committed := a_written a1\<rparr>" using c f c2 x by (simp_all add: commit_def)
    with i 4 le show ?thesis by (auto simp: aof_ext_def aof_inv_def)
  qed
qed

lemma synced_length: "aof_inv a es \<Longrightarrow> a_buf a = [] \<Longrightarrow> length (frames es) = a_written a"
  unfolding aof_inv_def by (metis append.right_neutral length_take min_absorb2)

lemma tail_length: "aof_inv a es \<Longrightarrow> a_tail a = length (frames es)"
  unfolding aof_inv_def by (metis length_append length_take min_absorb2)

definition appended :: "aof \<Rightarrow> bytes \<Rightarrow> aof" where
  \<comment> \<open>the state of \<open>enqueue\<close> with the frame in the buffer\<close>
  "appended a b = a\<lparr>a_buf := a_buf a @ b, a_tail := a_written a + length (a_buf a @ b)\<rparr>"

definition spilled :: "aof \<Rightarrow> unit io \<times> aof" where
  "spilled a = (if 64 * 1024 \<le> length (a_buf a) then flush_buffer_locked a else (Inr (), a))"

lemma appended_fields: "a_tail (appended a b) = a_written a + length (a_buf a @ b)" "a_buf (appended a b) = a_buf a @ b"
  by (simp_all add: appended_def)

lemma enqueue_unfold:
  "enqueue a op ts p =
     (let a0 = appended a (aof_header op ts (length p) @ p); (r, a1) = spilled a0 in
      case r of Inl e \<Rightarrow> (Inl e, a1)
      | Inr _ \<Rightarrow>
          if a_mode a1 = Always then (case commit a1 of (Inl e, a) \<Rightarrow> (Inl e, a) | (Inr _, a) \<Rightarrow> (Inr (a_tail a0), a))
          else (Inr (a_tail a0), a1))"
  by (simp only: enqueue_def Let_def spilled_def appended_fields) (simp only: appended_def)

lemma appended_inv:
  "aof_inv a es \<Longrightarrow> entry_ok e \<Longrightarrow> aof_inv (appended a (frame e)) (es @ [e])"
  by (simp add: aof_inv_def appended_def)

lemma spilled_inv:
  assumes "aof_inv a es" and "spilled a = (r, a')"
  shows "aof_inv a' es \<and> a_mode a' = a_mode a \<and> a_committed a' = a_committed a"
  using assms flush_buffer_inv [OF assms(1)] by (auto simp: spilled_def aof_ext_def split: if_splits)

lemma enqueue_inv:
  assumes inv: "aof_inv a es" and ok: "entry_ok \<lparr>e_op = op, e_timestamp_ms = ts, e_payload = p\<rparr>"
    and e: "enqueue a op ts p = (r, a')"
  defines "es' \<equiv> es @ [\<lparr>e_op = op, e_timestamp_ms = ts, e_payload = p\<rparr>]"
  shows "aof_inv a' es' \<and> a_mode a' = a_mode a \<and> a_committed a \<le> a_committed a'
    \<and> (\<forall>n. r = Inr n \<longrightarrow> n = length (frames es') \<and> (a_mode a = Always \<longrightarrow> a_committed a' = n))"
proof -
  define a0 where "a0 = appended a (aof_header op ts (length p) @ p)"
  have i0: "aof_inv a0 es'" "a_mode a0 = a_mode a" "a_committed a0 = a_committed a"
    using appended_inv [OF inv ok] by (simp_all add: a0_def es'_def frame_def appended_def)
  obtain r1 a1 where f: "spilled a0 = (r1, a1)" by (rule prod.exhaust)
  note i1 = spilled_inv [OF i0(1) f]
  obtain r2 a2 where c: "commit a1 = (r2, a2)" by (rule prod.exhaust)
  note i2 = commit_inv [OF conjunct1 [OF i1] c]
  have n: "a_tail a0 = length (frames es')" by (rule tail_length [OF i0(1)])
  have s: "r2 = Inr () \<Longrightarrow> a_committed a2 = length (frames es')" using i2 synced_length [of a2 es'] by simp
  have en: "enqueue a op ts p = (case r1 of Inl e \<Rightarrow> (Inl e, a1)
      | Inr _ \<Rightarrow> if a_mode a1 = Always then (case r2 of Inl e \<Rightarrow> (Inl e, a2) | Inr _ \<Rightarrow> (Inr (length (frames es')), a2))
         else (Inr (length (frames es')), a1))"
    unfolding enqueue_unfold a0_def [symmetric] Let_def f n prod.case c by (cases r1; cases r2) simp_all
  show ?thesis
  proof (cases "(\<exists>u. r1 = Inr u) \<and> a_mode a1 = Always")
    case False
    then have "a' = a1" "\<forall>k. r = Inr k \<longrightarrow> k = length (frames es') \<and> a_mode a1 \<noteq> Always"
      using e unfolding en by (auto split: sum.splits if_splits)
    then show ?thesis using i1 i0(2,3) by simp
  next
    case True
    then have "a' = a2" "\<forall>k. r = Inr k \<longrightarrow> k = length (frames es') \<and> r2 = Inr ()"
      using e unfolding en by (auto split: sum.splits)
    then show ?thesis using i2 i1 i0(2,3) s by (auto simp: aof_ext_def)
  qed
qed

inductive logged :: "aof \<Rightarrow> AofEntry list \<Rightarrow> bool" where
  \<comment> \<open>a log that was opened on whole frames and then used, and the entries it stands for; the calls may fail\<close>
  opened: "aof_open (frames es) mode outcomes = Inr a \<Longrightarrow> \<forall>e \<in> set es. entry_ok e \<Longrightarrow> logged a es"
| enqueued: "logged a es \<Longrightarrow> enqueue a op ts p = (r, a') \<Longrightarrow> entry_ok \<lparr>e_op = op, e_timestamp_ms = ts, e_payload = p\<rparr> \<Longrightarrow>
    logged a' (es @ [\<lparr>e_op = op, e_timestamp_ms = ts, e_payload = p\<rparr>])"
| committed: "logged a es \<Longrightarrow> commit a = (r, a') \<Longrightarrow> logged a' es"
| waited: "logged a es \<Longrightarrow> wait_committed a addr [] = Some (r, a') \<Longrightarrow> logged a' es"
| truncated: "logged a es \<Longrightarrow> aof_truncate a = (Inr (), a') \<Longrightarrow> logged a' []"
| replayed: "logged a es \<Longrightarrow> aof_replay a = (r, a') \<Longrightarrow> logged a' es"

lemma open_inv:
  assumes "aof_open f mode outcomes = Inr a"
  shows "a_file a = f" "a_buf a = []" "a_written a = length f" "a_committed a = length f" "a_tail a = length f" "a_mode a = mode"
  using assms by (auto simp: aof_open_def Let_def os_call_def split: list.splits io_outcome.splits)

lemma logged_inv: "logged a es \<Longrightarrow> aof_inv a es"
proof (induction rule: logged.induct)
  case (opened es mode outcomes a)
  then show ?case using open_inv [OF opened(1)] by (simp add: aof_inv_def)
next
  case (waited a es addr r a')
  obtain r1 a1 where c: "commit a = (r1, a1)" by fastforce
  have "a' = a \<or> a' = a1" using waited(2) c by (auto simp: wait_committed_def split: if_splits sum.splits)
  then show ?case using waited(3) commit_inv [OF waited(3) c] by blast
next
  case (truncated a es a')
  then show ?case
    by (auto simp: aof_truncate_def Let_def aof_inv_def os_call_def split: prod.splits io_outcome.splits list.splits)
next
  case (replayed a es r a')
  obtain r1 a1 where c: "commit a = (r1, a1)" by fastforce
  obtain r2 a2 where o: "os_call a1 = (r2, a2)" by fastforce
  obtain x where "a2 = a1\<lparr>a_outcomes := x\<rparr>" using os_call_frame [OF o] by blast
  then have "a' = a1 \<or> a' = a1\<lparr>a_outcomes := x\<rparr>"
    using replayed(2) c o by (auto simp: aof_replay_def split: sum.splits io_outcome.splits)
  then show ?case using commit_inv [OF replayed(3) c] aof_inv_outcomes by blast
qed (use enqueue_inv commit_inv in blast)+

lemma open_no_faults: "\<exists>b. aof_open f mode [] = Inr b \<and> a_outcomes b = []"
  by (simp add: aof_open_def Let_def os_call_def)

lemma replay_clean:
  assumes "a_buf b = []" and "a_committed b = a_written b" and "a_outcomes b = []"
  shows "aof_replay b = (Inr (replay_loop (a_file b) (a_committed b) 0), b)"
  using assms by (simp add: aof_replay_def commit_def flush_buffer_locked_def os_call_def committed_address_def)

lemma replay_opened:
  assumes "aof_open f mode [] = Inr b"
  shows "fst (aof_replay b) = Inr (replay_loop f (length f) 0)"
proof -
  have "a_outcomes b = []" using assms open_no_faults [of f mode] by simp
  with open_inv [OF assms] replay_clean [of b] show ?thesis by simp
qed

lemma replay_loop_inv:
  assumes i: "aof_inv a es" and s: "a_buf a = []" "a_committed a = a_written a"
  shows "replay_loop (a_file a) (a_committed a) 0 = es"
proof -
  have n: "a_written a = length (frames es)" using synced_length [OF i s(1)] by simp
  have ok: "\<forall>e \<in> set es. entry_ok e" and f: "take (a_written a) (a_file a) = frames es" using i s by (simp_all add: aof_inv_def)
  have "a_file a = [] @ frames es @ drop (a_written a) (a_file a)" using f by (metis append_Nil append_take_drop_id)
  with replay_entries_prefix [OF ok, of "[]" "a_written a" "drop (a_written a) (a_file a)"] n
  have "replay_loop (a_file a) (a_written a) 0 = es @ replay_loop (a_file a) (a_written a) (a_written a)" by simp
  then show ?thesis by (simp add: s replay_loop.simps [of _ "a_written a" "a_written a"] HEADER_LEN_def)
qed

lemma logged_replay:
  assumes l: "logged a es"
  shows "aof_replay a = (Inr es', a') \<Longrightarrow> es' = es" and "a_outcomes a = [] \<Longrightarrow> fst (aof_replay a) = Inr es"
proof -
  obtain r1 a1 where c: "commit a = (r1, a1)" by (rule prod.exhaust)
  obtain r2 a2 where o: "os_call a1 = (r2, a2)" by (rule prod.exhaust)
  note i = commit_inv [OF logged_inv [OF l] c]
  have f: "a_file a2 = a_file a1" "a_committed a2 = a_committed a1"
    using o by (auto simp: os_call_def split: list.splits)
  have r: "replay_loop (a_file a2) (a_committed a2) 0 = es" if "r1 = Inr ()"
    using replay_loop_inv [OF conjunct1 [OF i]] i that f by simp
  show "aof_replay a = (Inr es', a') \<Longrightarrow> es' = es"
    using c o r by (auto simp: aof_replay_def committed_address_def split: sum.splits io_outcome.splits)
  assume no: "a_outcomes a = []"
  then have "r1 = Inr ()" "a_outcomes a1 = []"
    using c by (auto simp: commit_def flush_buffer_locked_def os_call_def split: if_splits)
  with o have "r2 = IoOk" by (simp add: os_call_def)
  with r \<open>r1 = Inr ()\<close> show "fst (aof_replay a) = Inr es" using c o by (simp add: aof_replay_def committed_address_def)
qed

definition crash_image :: "aof \<Rightarrow> bytes \<Rightarrow> bool" where
  \<comment> \<open>what a crash may leave of the file: the synced bytes, and after them anything\<close>
  "crash_image a f \<longleftrightarrow> a_committed a \<le> length f \<and> take (a_committed a) f = take (a_committed a) (a_file a)"

lemma synced_file:
  assumes i: "aof_inv a es" and all: "a_committed a = length (frames es)"
  shows "take (a_committed a) (a_file a) = frames es"
proof -
  have w: "take (a_written a) (a_file a) @ a_buf a = frames es" "a_committed a \<le> a_written a" "a_written a \<le> length (a_file a)"
    using i by (simp_all add: aof_inv_def)
  have "take (a_committed a) (a_file a) = take (a_committed a) (take (a_written a) (a_file a) @ a_buf a)"
    using w(2,3) by (simp add: min_absorb1)
  also have "\<dots> = frames es" by (simp add: w(1) all)
  finally show ?thesis .
qed

lemma synced_prefix:
  assumes i: "aof_inv a (es @ extra)" and some: "length (frames es) \<le> a_committed a"
  shows "take (length (frames es)) (a_file a) = frames es"
proof -
  have w: "take (a_written a) (a_file a) @ a_buf a = frames es @ frames extra" "a_committed a \<le> a_written a" "a_written a \<le> length (a_file a)"
    using i by (simp_all add: aof_inv_def)
  have "take (length (frames es)) (a_file a) = take (length (frames es)) (take (a_written a) (a_file a) @ a_buf a)"
    using w(2,3) some by (simp add: min_absorb1)
  also have "\<dots> = frames es" by (simp add: w(1))
  finally show ?thesis .
qed

lemma crash_replay:
  assumes i: "aof_inv a (es @ extra)" and f: "crash_image a f" and some: "length (frames es) \<le> a_committed a" and o: "aof_open f mode [] = Inr b"
  shows "\<exists>rest. fst (aof_replay b) = Inr (es @ rest)"
proof -
  have ok: "\<forall>e \<in> set es. entry_ok e" using i by (simp add: aof_inv_def)
  have "take (length (frames es)) f = take (length (frames es)) (take (a_committed a) f)" using some by (simp add: min_absorb1)
  also have "\<dots> = frames es" using f synced_prefix [OF i some] some by (simp add: crash_image_def min_absorb1)
  finally have fe: "f = [] @ frames es @ drop (length (frames es)) f" by (metis append_Nil append_take_drop_id)
  have "length (frames es) \<le> length f" using f some by (simp add: crash_image_def)
  with replay_entries_prefix [OF ok, of "[]" "length f" "drop (length (frames es)) f"] fe
  have "replay_loop f (length f) 0 = es @ replay_loop f (length f) (length (frames es))" by simp
  then show ?thesis using replay_opened [OF o] by auto
qed

subsection \<open>Waiting while other threads run\<close>

fun append_only :: "aof_call \<Rightarrow> bool" where
  \<comment> \<open>a call that keeps the entries of the log\<close>
  "append_only (EnqueueCall op ts p) = entry_ok \<lparr>e_op = op, e_timestamp_ms = ts, e_payload = p\<rparr>"
| "append_only CommitCall = True"
| "append_only TruncateCall = False"

lemma other_calls_inv:
  "aof_inv a es \<Longrightarrow> list_all append_only cs \<Longrightarrow> \<exists>extra. aof_inv (fold other_call cs a) (es @ extra)"
proof (induction cs arbitrary: a es)
  case (Cons c cs)
  have "\<exists>extra. aof_inv (other_call c a) (es @ extra)"
  proof (cases c)
    case (EnqueueCall op ts p)
    with Cons.prems enqueue_inv [OF Cons.prems(1), of op ts p] show ?thesis by (cases "enqueue a op ts p") auto
  next
    case CommitCall
    with commit_inv [OF Cons.prems(1)] show ?thesis by (cases "commit a") (auto intro: exI [of _ "[]"])
  qed (use Cons.prems in simp)
  then obtain m1 where "aof_inv (other_call c a) (es @ m1)" ..
  with Cons.IH [OF this] Cons.prems(2) show ?case by auto
qed (auto intro: exI [of _ "[]"])

lemma meanwhile_inv:
  assumes "aof_inv a es" and "list_all (list_all append_only) sched" and "meanwhile sched a = (a', sched')"
  shows "\<exists>extra. aof_inv a' (es @ extra)" and "list_all (list_all append_only) sched'"
  using assms other_calls_inv [OF assms(1)] by (cases sched; auto intro: exI [of _ "[]"])+

lemma wait_loop_inv:
  "aof_inv a es \<Longrightarrow> list_all (list_all append_only) sched \<Longrightarrow> wait_loop a addr sched = Some a' \<Longrightarrow>
    \<exists>extra. aof_inv a' (es @ extra) \<and> addr \<le> a_committed a'"
proof (induction sched arbitrary: a es)
  case Nil
  then show ?case by (auto split: if_splits intro: exI [of _ "[]"])
next
  case (Cons cs sched)
  show ?case
  proof (cases "a_committed a < addr")
    case True
    obtain m1 where "aof_inv (fold other_call cs a) (es @ m1)" using other_calls_inv Cons.prems(1,2) by fastforce
    from Cons.IH [OF this] Cons.prems(2,3) True show ?thesis by auto
  qed (use Cons.prems in \<open>auto intro: exI [of _ "[]"]\<close>)
qed

lemma synced_after:
  assumes l: "aof_inv a es" and ap: "list_all (list_all append_only) sched" and w: "wait_committed a n sched = Some (Inr u, a')"
  shows "\<exists>extra. aof_inv a' (es @ extra) \<and> n \<le> a_committed a'"
proof (cases "n \<le> a_committed a")
  case True
  with w l show ?thesis by (auto simp: wait_committed_def committed_address_def intro: exI [of _ "[]"])
next
  case False
  obtain a1 sched1 where m1: "meanwhile sched a = (a1, sched1)" by (rule prod.exhaust)
  obtain r2 a2 where c: "commit a1 = (r2, a2)" by (rule prod.exhaust)
  obtain a3 sched3 where m3: "meanwhile sched1 a2 = (a3, sched3)" by (rule prod.exhaust)
  have "wait_loop a3 n sched3 = Some a'"
    using w False m1 c m3 by (auto simp: wait_committed_def committed_address_def split: sum.splits option.splits)
  moreover obtain k1 where k1: "aof_inv a1 (es @ k1)" using meanwhile_inv(1) [OF l ap m1] ..
  note ap1 = meanwhile_inv(2) [OF l ap m1]
  have i2: "aof_inv a2 (es @ k1)" using commit_inv [OF k1 c] by simp
  moreover obtain k3 where k3: "aof_inv a3 ((es @ k1) @ k3)" using meanwhile_inv(1) [OF i2 ap1 m3] ..
  ultimately show ?thesis using wait_loop_inv [OF k3 meanwhile_inv(2) [OF i2 ap1 m3]] by (auto simp del: append_assoc) (metis append_assoc)
qed

subsection \<open>Properties\<close>

definition set_a :: AofEntry where
  "set_a = \<lparr>e_op = Command, e_timestamp_ms = 100, e_payload = str ''SET a 1''\<rparr>"

lemma set_a_ok: "entry_ok set_a"
  by (simp add: entry_ok_def set_a_def is_i64_def I64_MIN_def I64_MAX_def)

text \<open>C8: Whatever calls were made on a log and whichever system calls failed in between, a replay that returns hands over
  exactly the entries that were enqueued since the log was opened or truncated, in order and unchanged; it returns when no system
  call fails. Of a file cut at any byte exactly the entries are replayed that are whole.\<close>

theorem aof_replay_log:
  assumes "logged a es"
  shows "(\<forall>es' a'. aof_replay a = (Inr es', a') \<longrightarrow> es' = es) \<and> (a_outcomes a = [] \<longrightarrow> fst (aof_replay a) = Inr es)
    \<and> (\<forall>k mode b. k \<le> length (frames es) \<longrightarrow> aof_open (take k (frames es)) mode [] = Inr b \<longrightarrow>
         fst (aof_replay b) = Inr (within k es))"
proof -
  have "fst (aof_replay b) = Inr (within k es)" if "k \<le> length (frames es)" "aof_open (take k (frames es)) mode [] = Inr b" for k mode b
    using replay_opened [OF that(2)] replay_prefix [of es k "[]"] logged_inv [OF assms] that(1) by (simp add: aof_inv_def min_absorb2)
  with logged_replay [OF assms] show ?thesis by blast
qed

theorem aof_replay_log_witness:
  "let b = snd (enqueue (projr (aof_open [] Always [])) Command 100 (str ''SET a 1'')) in fst (aof_replay b) = Inr [set_a]"
proof -
  obtain a where a: "aof_open [] Always [] = Inr a" "a_outcomes a = []" using open_no_faults by blast
  obtain r b where b: "enqueue a Command 100 (str ''SET a 1'') = (r, b)" by (rule prod.exhaust)
  have l: "logged a []" using logged.opened [of "[]" Always "[]" a] a by simp
  have lb: "logged b [set_a]" using logged.enqueued [OF l b] set_a_ok by (simp add: set_a_def)
  have "a_outcomes b = []"
    using b a(2) by (auto simp: enqueue_def Let_def commit_def flush_buffer_locked_def os_call_def split: if_splits)
  with aof_replay_log [OF lb] have "fst (aof_replay b) = Inr [set_a]" by blast
  then show ?thesis using a(1) b by (simp add: Let_def)
qed

text \<open>C9: An entry that was acknowledged as durable, by an append in the mode \<open>Always\<close> or by a wait for its end address, is
  replayed after a crash with every entry before it, in order, whatever the crash leaves behind the synced bytes and whatever other
  threads append and commit during the wait.\<close>

theorem aof_acknowledged_survives:
  assumes "logged a es" and "enqueue a op ts p = (Inr n, a')" and "entry_ok \<lparr>e_op = op, e_timestamp_ms = ts, e_payload = p\<rparr>"
    and "a_mode a = Always \<and> a'' = a' \<or> list_all (list_all append_only) sched \<and> wait_committed a' n sched = Some (Inr (), a'')"
    and "crash_image a'' f" and "aof_open f mode [] = Inr b"
  shows "\<exists>rest. fst (aof_replay b) = Inr (es @ \<lparr>e_op = op, e_timestamp_ms = ts, e_payload = p\<rparr> # rest)"
proof -
  let ?es = "es @ [\<lparr>e_op = op, e_timestamp_ms = ts, e_payload = p\<rparr>]"
  note i = enqueue_inv [OF logged_inv [OF assms(1)] assms(3,2)]
  have "\<exists>extra. aof_inv a'' (?es @ extra) \<and> length (frames ?es) \<le> a_committed a''"
    using assms(4)
  proof
    assume "a_mode a = Always \<and> a'' = a'"
    then show ?thesis using i by (intro exI [of _ "[]"]) simp
  next
    assume "list_all (list_all append_only) sched \<and> wait_committed a' n sched = Some (Inr (), a'')"
    then show ?thesis using i synced_after [of a' ?es sched n "()" a''] by auto
  qed
  then obtain extra where "aof_inv a'' (?es @ extra)" "length (frames ?es) \<le> a_committed a''" by blast
  from crash_replay [OF this(1) assms(5) this(2) assms(6)] show ?thesis by auto
qed

theorem aof_acknowledged_survives_witness:
  "\<exists>rest b. aof_open (frame set_a @ str ''junk'') NeverCommit [] = Inr b \<and> fst (aof_replay b) = Inr (set_a # rest)"
proof -
  obtain a where a: "aof_open [] Always [] = Inr a" "a_outcomes a = []" using open_no_faults by blast
  have l: "logged a []" using logged.opened [of "[]" Always "[]" a] a by simp
  obtain r a' where e: "enqueue a Command 100 (str ''SET a 1'') = (r, a')" by (rule prod.exhaust)
  have "\<exists>n. r = Inr n"
    using e a(2) by (auto simp: enqueue_def Let_def commit_def flush_buffer_locked_def os_call_def split: if_splits)
  then obtain n where n: "enqueue a Command 100 (str ''SET a 1'') = (Inr n, a')" using e by auto
  have ok: "entry_ok \<lparr>e_op = Command, e_timestamp_ms = 100, e_payload = str ''SET a 1''\<rparr>" using set_a_ok by (simp add: set_a_def)
  have m: "a_mode a = Always" using open_inv [OF a(1)] by simp
  have i: "aof_inv a' [set_a]" "a_committed a' = length (frames [set_a])"
    using enqueue_inv [OF logged_inv [OF l] ok n] m by (simp_all add: set_a_def)
  have c: "crash_image a' (frame set_a @ str ''junk'')" using synced_file [OF i] i(2) by (simp add: crash_image_def)
  obtain b where b: "aof_open (frame set_a @ str ''junk'') NeverCommit [] = Inr b" using open_no_faults by blast
  have "a_mode a = Always \<and> a' = a' \<or> list_all (list_all append_only) [] \<and> wait_committed a' n [] = Some (Inr (), a')" using m by simp
  from aof_acknowledged_survives [OF l n ok this c b]
  show ?thesis using b by (auto simp: set_a_def)
qed

lemma enqueue_Always_clean:
  assumes "a_buf a = []" and "a_written a = length (a_file a)" and "a_committed a = length (a_file a)" and "a_outcomes a = []"
    and "a_mode a = Always" and e: "enqueue a op ts p = (r, a')"
  defines "f \<equiv> a_file a @ aof_header op ts (length p) @ p"
  shows "r = Inr (length f)" and "a_file a' = f" and "a_buf a' = []" and "a_committed a' = length f" and "a_written a' = length f"
    and "a_outcomes a' = []"
  using assms(1-5) e
  by (auto simp: f_def enqueue_def Let_def commit_def flush_buffer_locked_def os_call_def file_write_def HEADER_LEN_def split: if_splits)

fun append_call :: "AofEntry \<Rightarrow> aof_call" where
  "append_call e = EnqueueCall (e_op e) (e_timestamp_ms e) (e_payload e)"

lemma appends_Always_clean:
  fixes a :: aof and es :: "AofEntry list"
  assumes "a_buf a = []" and "a_written a = length (a_file a)" and "a_committed a = length (a_file a)" and "a_outcomes a = []"
    and "a_mode a = Always"
  defines "a' \<equiv> fold other_call (map append_call es) a"
  shows "a_file a' = a_file a @ frames es" and "a_buf a' = []" and "a_committed a' = length (a_file a')"
    and "a_written a' = length (a_file a')" and "a_outcomes a' = []"
proof -
  have "a_file a' = a_file a @ frames es \<and> a_buf a' = [] \<and> a_committed a' = length (a_file a')
      \<and> a_written a' = length (a_file a') \<and> a_outcomes a' = []"
    using assms(1-5) unfolding a'_def
  proof (induction es arbitrary: a)
    case (Cons e es)
    obtain r b where e: "enqueue a (e_op e) (e_timestamp_ms e) (e_payload e) = (r, b)" by (rule prod.exhaust)
    note c = enqueue_Always_clean [OF Cons.prems e]
    from e Cons.prems have m: "a_mode b = Always"
      by (auto simp: enqueue_def Let_def commit_def flush_buffer_locked_def os_call_def split: if_splits)
    show ?case using Cons.IH [of b] c m e by (simp add: frame_def)
  qed simp
  then show "a_file a' = a_file a @ frames es" "a_buf a' = []" "a_committed a' = length (a_file a')"
    "a_written a' = length (a_file a')" "a_outcomes a' = []" by simp_all
qed

text \<open>C20: \<open>open\<close> keeps a torn tail that a crash left behind the last whole entry and appends after it. When the torn entry has its
  whole header, the entries appended since are written and synced but not replayed as they are: as long as their bytes do not make
  up for the length the torn header promises, replay stops before the torn entry and drops them all; from then on it hands over
  the torn entry with a payload completed from their bytes.\<close>

theorem aof_torn_tail_hides_entries:
  assumes "\<forall>x \<in> set es. entry_ok x" and "entry_ok e0" and "HEADER_LEN \<le> j" and "j < length (frame e0)"
    and "aof_open (frames es @ take j (frame e0)) Always [] = Inr a"
    and "a' = fold other_call (map append_call es2) a"
  shows "a_file a' = frames es @ take j (frame e0) @ frames es2 \<and> a_committed a' = length (a_file a')
    \<and> (if j + length (frames es2) < length (frame e0) then fst (aof_replay a') = Inr es
       else \<exists>rest. fst (aof_replay a') = Inr (es @
         e0\<lparr>e_payload := take (length (e_payload e0)) (drop HEADER_LEN (take j (frame e0)) @ frames es2)\<rparr> # rest))"
proof -
  let ?t = "take j (frame e0)" and ?new = "frames es2" and ?p = "length (frames es)"
  note o = open_inv [OF assms(5)]
  have no: "a_outcomes a = []" using assms(5) open_no_faults [of "frames es @ ?t" Always] by simp
  have w: "a_written a = length (a_file a)" "a_committed a = length (a_file a)" using o(1,3,4) by simp_all
  note q = appends_Always_clean [OF o(2) w no o(6), of es2, folded assms(6)]
  have f: "a_file a' = frames es @ ?t @ ?new" using q(1) o(1) by simp
  have lj: "length ?t = j" using assms(4) by simp
  have "take j (?t @ ?new) = ?t" "j \<le> length (?t @ ?new)" using lj by simp_all
  note h = replay_header [OF assms(2) less_imp_le [OF assms(4)] assms(3) this, of "frames es"]
  have fl: "length (a_file a') = ?p + (j + length ?new)" using f lj by simp
  have eq: "fst (aof_replay a') = Inr (es @ replay_loop (frames es @ ?t @ ?new) (?p + (j + length ?new)) ?p)"
    using replay_clean [of a'] q(2-5) replay_entries_prefix [OF assms(1), of "[]" "length (a_file a')" "?t @ ?new"] f fl by simp
  have "replay_loop (frames es @ ?t @ ?new) (?p + (j + length ?new)) ?p = []" if "j + length ?new < length (frame e0)"
    using that h assms(3) lj by (subst replay_loop.simps) (simp add: Let_def length_frame)
  moreover have "\<exists>rest. replay_loop (frames es @ ?t @ ?new) (?p + (j + length ?new)) ?p =
      e0\<lparr>e_payload := take (length (e_payload e0)) (drop HEADER_LEN ?t @ ?new)\<rparr> # rest" if "\<not> j + length ?new < length (frame e0)"
  proof -
    have "slice_at (frames es @ ?t @ ?new) (?p + HEADER_LEN) (length (e_payload e0)) = take (length (e_payload e0)) (drop HEADER_LEN ?t @ ?new)"
      using assms(3) lj by (simp add: slice_at_def)
    with that h assms(3) lj show ?thesis by (subst replay_loop.simps) (simp add: Let_def length_frame)
  qed
  ultimately show ?thesis using f q(3) eq by auto
qed

theorem aof_torn_tail_hides_entries_witness:
  "let e0 = set_a\<lparr>e_payload := replicate 100 0\<rparr>;
       a = projr (aof_open (frames [] @ take HEADER_LEN (frame e0)) Always []) in
   fst (aof_replay (fold other_call (map append_call [set_a, set_a]) a)) = Inr []
   \<and> (\<exists>e rest. fst (aof_replay (fold other_call (map append_call [set_a, set_a, set_a, set_a, set_a]) a)) = Inr (e # rest)
        \<and> e_payload e \<noteq> e_payload e0 \<and> e_payload e \<noteq> e_payload set_a)"
proof -
  define e0 where "e0 = set_a\<lparr>e_payload := replicate 100 0\<rparr>"
  have l: "length (frame set_a) = 23" "length (frame e0) = 116" "HEADER_LEN = 16"
    by (simp_all add: e0_def set_a_def length_frame HEADER_LEN_def)
  have ok: "entry_ok e0" "HEADER_LEN < length (frame e0)" "\<forall>x \<in> set []. entry_ok x"
    using l by (simp_all add: entry_ok_def e0_def set_a_def is_i64_def I64_MIN_def I64_MAX_def)
  obtain a where a: "aof_open (frames [] @ take HEADER_LEN (frame e0)) Always [] = Inr a" using open_no_faults by blast
  note t = aof_torn_tail_hides_entries [OF ok(3,1) le_refl ok(2) a refl]
  have "fst (aof_replay (fold other_call (map append_call [set_a, set_a]) a)) = Inr []"
    using t [of "[set_a, set_a]"] l by simp
  moreover let ?five = "[set_a, set_a, set_a, set_a, set_a]"
  obtain e rest where e: "fst (aof_replay (fold other_call (map append_call ?five) a)) = Inr (e # rest)"
    "e = e0\<lparr>e_payload := take (length (e_payload e0)) (drop HEADER_LEN (take HEADER_LEN (frame e0)) @ frames ?five)\<rparr>"
    using t [of ?five] l by auto
  have "e_payload e = take 100 (frames ?five)" unfolding e(2) by (simp add: e0_def)
  then have "hd (e_payload e) = 7" "length (e_payload e) = 100"
    by (simp_all add: frame_def aof_header_def set_a_def to_le_def) 
  then have "e_payload e \<noteq> e_payload e0" "e_payload e \<noteq> e_payload set_a" by (auto simp: e0_def set_a_def)
  ultimately show ?thesis using a e(1) unfolding Let_def e0_def [symmetric] by auto
qed

subsection \<open>A wait across a truncation\<close>

fun appended_bytes :: "aof_call list \<Rightarrow> nat" where
  \<comment> \<open>the bytes that the calls append\<close>
  "appended_bytes [] = 0"
| "appended_bytes (EnqueueCall op ts p # cs) = HEADER_LEN + length p + appended_bytes cs"
| "appended_bytes (_ # cs) = appended_bytes cs"

lemma appended_bytes_append: "appended_bytes (cs @ ds) = appended_bytes cs + appended_bytes ds"
  by (induction cs rule: appended_bytes.induct) simp_all

definition bytes_le :: "aof \<Rightarrow> nat \<Rightarrow> bool" where
  "bytes_le a k \<longleftrightarrow> a_committed a \<le> a_written a \<and> a_written a + length (a_buf a) \<le> k"

lemma os_call_le [simp]: "os_call a = (r, a') \<Longrightarrow> bytes_le a' k = bytes_le a k"
  using os_call_frame [of a r a'] by (metis (no_types, lifting) aof.select_convs(2-4) aof.surjective aof.update_convs(7) bytes_le_def)

lemma flush_buffer_le: "bytes_le a k \<Longrightarrow> flush_buffer_locked a = (r, a') \<Longrightarrow> bytes_le a' k"
  by (auto simp: flush_buffer_locked_def os_call_def bytes_le_def split: if_splits list.splits io_outcome.splits)

lemma commit_le:
  assumes "bytes_le a k" and "commit a = (r, a')"
  shows "bytes_le a' k"
proof -
  obtain r1 a1 where f: "flush_buffer_locked a = (r1, a1)" by (rule prod.exhaust)
  with flush_buffer_le [OF assms(1) f] assms(2) show ?thesis
    by (auto simp: commit_def os_call_def bytes_le_def split: sum.splits if_splits list.splits io_outcome.splits)
qed

lemma enqueue_le:
  assumes "bytes_le a k" and e: "enqueue a op ts p = (r, a')"
  shows "bytes_le a' (k + HEADER_LEN + length p)"
proof -
  define a0 where "a0 = appended a (aof_header op ts (length p) @ p)"
  have l0: "bytes_le a0 (k + HEADER_LEN + length p)" using assms(1) by (simp add: a0_def appended_def bytes_le_def)
  obtain r1 a1 where f: "spilled a0 = (r1, a1)" by (rule prod.exhaust)
  have l1: "bytes_le a1 (k + HEADER_LEN + length p)" using f l0 flush_buffer_le by (auto simp: spilled_def split: if_splits)
  obtain r2 a2 where c: "commit a1 = (r2, a2)" by (rule prod.exhaust)
  have "a' = a1 \<or> a' = a2" using e f c unfolding enqueue_unfold a0_def [symmetric] by (auto simp: Let_def split: sum.splits if_splits)
  then show ?thesis using l1 commit_le [OF l1 c] by auto
qed

lemma truncate_le: "bytes_le a k \<Longrightarrow> bytes_le (snd (aof_truncate a)) k"
  by (auto simp: aof_truncate_def Let_def os_call_def bytes_le_def split: list.splits io_outcome.splits)

lemma other_calls_le: "bytes_le a k \<Longrightarrow> bytes_le (fold other_call cs a) (k + appended_bytes cs)"
proof (induction cs arbitrary: a k)
  case (Cons c cs)
  show ?case
  proof (cases c)
    case (EnqueueCall op ts p)
    obtain r b where e: "enqueue a op ts p = (r, b)" by (rule prod.exhaust)
    from Cons.IH [OF enqueue_le [OF Cons.prems e]] e EnqueueCall show ?thesis by (simp add: add.assoc)
  next
    case CommitCall
    obtain r b where e: "commit a = (r, b)" by (rule prod.exhaust)
    from Cons.IH [OF commit_le [OF Cons.prems e]] e CommitCall show ?thesis by simp
  next
    case TruncateCall
    with Cons.IH [OF truncate_le [OF Cons.prems]] show ?thesis by simp
  qed
qed simp

lemma meanwhile_le:
  assumes "bytes_le a k" and "meanwhile sched a = (a', sched')" and "k + appended_bytes (concat sched) \<le> m"
  shows "\<exists>k'. bytes_le a' k' \<and> k' + appended_bytes (concat sched') \<le> m"
  using assms other_calls_le [OF assms(1)] by (cases sched) (auto simp: appended_bytes_append, metis add.assoc)

lemma wait_loop_le:
  "bytes_le a k \<Longrightarrow> k + appended_bytes (concat sched) \<le> m \<Longrightarrow> wait_loop a addr sched = Some a' \<Longrightarrow> addr \<le> m"
proof (induction sched arbitrary: a k)
  case (Cons cs sched)
  show ?case
  proof (cases "a_committed a < addr")
    case True
    with Cons.IH [OF other_calls_le [OF Cons.prems(1), of cs]] Cons.prems(2,3) show ?thesis by (simp add: appended_bytes_append add.assoc)
  qed (use Cons.prems in \<open>simp add: bytes_le_def\<close>)
qed (auto simp: bytes_le_def split: if_splits)

lemma wait_committed_le:
  assumes l: "bytes_le a 0" and w: "wait_committed a n sched = Some (Inr u, a')"
  shows "n \<le> appended_bytes (concat sched)"
proof (cases "n \<le> a_committed a")
  case True
  with l show ?thesis by (simp add: bytes_le_def)
next
  case False
  obtain a1 sched1 where m1: "meanwhile sched a = (a1, sched1)" by (rule prod.exhaust)
  obtain r2 a2 where c: "commit a1 = (r2, a2)" by (rule prod.exhaust)
  obtain a3 sched3 where m3: "meanwhile sched1 a2 = (a3, sched3)" by (rule prod.exhaust)
  have "wait_loop a3 n sched3 = Some a'"
    using w False m1 c m3 by (auto simp: wait_committed_def committed_address_def split: sum.splits option.splits)
  moreover obtain k1 where "bytes_le a1 k1" "k1 + appended_bytes (concat sched1) \<le> appended_bytes (concat sched)"
    using meanwhile_le [OF l m1] by auto
  then obtain k3 where "bytes_le a3 k3" "k3 + appended_bytes (concat sched3) \<le> appended_bytes (concat sched)"
    using meanwhile_le [OF commit_le [OF _ c] m3] by blast
  ultimately show ?thesis by (rule wait_loop_le [rotated 2])
qed

definition quiet :: "aof \<Rightarrow> nat \<Rightarrow> bool" where
  \<comment> \<open>no system call fails, and \<open>k\<close> bytes were appended since the counters were zero\<close>
  "quiet a k \<longleftrightarrow> a_outcomes a = [] \<and> a_committed a \<le> a_written a \<and> a_written a + length (a_buf a) = k"

lemma commit_quiet: "quiet a k \<Longrightarrow> \<exists>a'. commit a = (Inr (), a') \<and> quiet a' k \<and> a_committed a' = k"
  by (auto simp: commit_def flush_buffer_locked_def os_call_def quiet_def)

lemma enqueue_quiet:
  assumes "quiet a k"
  shows "quiet (snd (enqueue a op ts p)) (k + HEADER_LEN + length p)"
proof -
  define a0 where "a0 = appended a (aof_header op ts (length p) @ p)"
  have q0: "quiet a0 (k + HEADER_LEN + length p)" using assms by (auto simp: a0_def appended_def quiet_def)
  obtain r1 a1 where f: "spilled a0 = (r1, a1)" by (rule prod.exhaust)
  have q1: "r1 = Inr ()" "quiet a1 (k + HEADER_LEN + length p)"
    using f q0 by (auto simp: spilled_def flush_buffer_locked_def os_call_def quiet_def split: if_splits)
  from commit_quiet [OF q1(2)] obtain a2 where "commit a1 = (Inr (), a2)" "quiet a2 (k + HEADER_LEN + length p)" by blast
  then show ?thesis using q1 f unfolding enqueue_unfold a0_def [symmetric] by (simp add: Let_def)
qed

lemma other_calls_quiet:
  "quiet a k \<Longrightarrow> TruncateCall \<notin> set cs \<Longrightarrow> quiet (fold other_call cs a) (k + appended_bytes cs)"
proof (induction cs arbitrary: a k)
  case (Cons c cs)
  show ?case
  proof (cases c)
    case (EnqueueCall op ts p)
    with Cons.IH [OF enqueue_quiet [OF Cons.prems(1), of op ts p]] Cons.prems(2) show ?thesis by (simp add: add.assoc)
  next
    case CommitCall
    from commit_quiet [OF Cons.prems(1)] obtain b where "commit a = (Inr (), b)" "quiet b k" by blast
    with Cons.IH [of b k] Cons.prems(2) CommitCall show ?thesis by simp
  next
    case TruncateCall
    with Cons.prems(2) show ?thesis by simp
  qed
qed simp

lemma truncated_fields:
  assumes "aof_truncate a = (Inr (), a')"
  shows "a_buf a' = []" "a_written a' = 0" "a_committed a' = 0"
  using assms by (auto simp: aof_truncate_def Let_def os_call_def split: list.splits io_outcome.splits)

text \<open>C21: A checkpoint truncates the log between a thread's append and its wait for the end address \<open>n\<close> of its entry. The counters
  restart from zero, so nothing the thread does itself ends the wait: whatever the other threads do and whichever system calls fail,
  it returns without an error only after they have appended \<open>n\<close> bytes. When no system call fails and the log is not truncated
  again, the next commit after these bytes does wake it; with fewer bytes it is still asleep.\<close>

theorem aof_wait_after_truncate:
  assumes "enqueue a op ts p = (Inr n, a1)" and "aof_truncate a1 = (Inr (), a2)"
  shows "0 < n \<and> (\<forall>sched u a'. wait_committed a2 n sched = Some (Inr u, a') \<longrightarrow> n \<le> appended_bytes (concat sched))
    \<and> (a_outcomes a2 = [] \<longrightarrow>
         (\<forall>cs. TruncateCall \<notin> set cs \<longrightarrow>
            (\<exists>a'. wait_committed a2 n [[], [], cs @ [CommitCall]] =
               (if n \<le> appended_bytes cs then Some (Inr (), a') else None))))"
proof -
  note z = truncated_fields [OF assms(2)]
  have n: "0 < n"
    using assms(1) unfolding enqueue_unfold Let_def
    by (auto simp: appended_fields HEADER_LEN_def split: prod.splits sum.splits if_splits)
  have "n \<le> appended_bytes (concat sched)" if "wait_committed a2 n sched = Some (Inr u, a')" for sched u a'
    using wait_committed_le [OF _ that] z by (simp add: bytes_le_def)
  moreover have "\<exists>a'. wait_committed a2 n [[], [], cs @ [CommitCall]] = (if n \<le> appended_bytes cs then Some (Inr (), a') else None)"
    if "a_outcomes a2 = []" "TruncateCall \<notin> set cs" for cs
  proof -
    have c: "commit a2 = (Inr (), a2)" using z by (simp add: commit_def flush_buffer_locked_def)
    have "quiet a2 0" using z that(1) by (simp add: quiet_def)
    from commit_quiet [OF other_calls_quiet [OF this that(2)]] obtain b
      where b: "commit (fold other_call cs a2) = (Inr (), b)" "a_committed b = appended_bytes cs" by auto
    show ?thesis using n z c b by (simp add: wait_committed_def committed_address_def)
  qed
  ultimately show ?thesis using n by blast
qed

theorem aof_wait_after_truncate_witness:
  "\<exists>a1 a2. enqueue (projr (aof_open [] (Interval 100) [])) Command 100 (str ''SET a 1'') = (Inr 23, a1)
    \<and> aof_truncate a1 = (Inr (), a2) \<and> wait_committed a2 23 [] = None
    \<and> wait_committed a2 23 [[], [], [EnqueueCall Command 5 [1], CommitCall]] = None
    \<and> (\<exists>a'. wait_committed a2 23 [[], [], [EnqueueCall Command 5 (replicate 9 1), CommitCall]] = Some (Inr (), a'))"
proof -
  obtain a where a: "aof_open [] (Interval 100) [] = Inr a" "a_outcomes a = []" using open_no_faults by blast
  obtain a1 where e: "enqueue a Command 100 (str ''SET a 1'') = (Inr 23, a1)" "a_outcomes a1 = []"
    using a(2) open_inv [OF a(1)] by (simp add: enqueue_def Let_def HEADER_LEN_def)
  obtain a2 where t: "aof_truncate a1 = (Inr (), a2)" "a_outcomes a2 = []" using e(2) by (simp add: aof_truncate_def Let_def os_call_def)
  note w = aof_wait_after_truncate [OF e(1) t(1)]
  then have ex: "\<exists>a'. wait_committed a2 23 [[], [], cs @ [CommitCall]] = (if 23 \<le> appended_bytes cs then Some (Inr (), a') else None)"
    if "TruncateCall \<notin> set cs" for cs using that t(2) by blast
  have "wait_committed a2 23 [] = None"
    using truncated_fields [OF t(1)] by (simp add: wait_committed_def committed_address_def commit_def flush_buffer_locked_def)
  with ex [of "[EnqueueCall Command 5 [1]]"] ex [of "[EnqueueCall Command 5 (replicate 9 1)]"] a(1) e(1) t(1)
  show ?thesis by (auto simp: HEADER_LEN_def)
qed

end
