(* ===== verification/Checkpoint.thy ===== *)
theory Checkpoint
  imports Store Aof
begin

text \<open>
  Fold-over checkpoints and recovery (\<^verbatim>\<open>checkpoint.rs\<close>): the metadata file with its atomic replacement, the phase
  transitions that wait until every thread has left the epoch, the checkpoint itself and the rebuilding of the index from the
  device. The directory holds the metadata file and its temporary sibling; its system calls may fail as in \<open>Aof\<close>. The device
  never fails. The wait for a transition is bounded by a number of rounds; \<open>None\<close> is a panic or a wait that does not end in them.
\<close>

subsection \<open>Metadata\<close>

definition META_MAGIC :: u64 where "META_MAGIC = 0x545341564f524954"

record CheckpointInfo =
  ci_version :: nat
  ci_begin_address :: nat
  ci_start_address :: nat
  ci_final_address :: nat
  ci_user_data :: nat

record dir =
  meta_file :: "bytes option"
  tmp_file :: "bytes option"
  dir_outcomes :: "io_outcome list"

definition dir_call :: "dir \<Rightarrow> io_outcome \<times> dir" where
  "dir_call d = (case dir_outcomes d of [] \<Rightarrow> (IoOk, d) | r # rs \<Rightarrow> (r, d\<lparr>dir_outcomes := rs\<rparr>))"

definition append_tmp :: "dir \<Rightarrow> bytes \<Rightarrow> dir" where
  "append_tmp d b = d\<lparr>tmp_file := map_option (\<lambda>f. f @ b) (tmp_file d)\<rparr>"

fun write_words :: "u64 list \<Rightarrow> dir \<Rightarrow> unit io \<times> dir" where
  \<comment> \<open>\<open>for v in [..] { f.write_all(&v.to_le_bytes())?; }\<close>\<close>
  "write_words [] d = (Inr (), d)"
| "write_words (w # ws) d =
     (case dir_call d of
        (IoFail n e, d) \<Rightarrow> (Inl e, append_tmp d (take n (to_le 8 w)))
      | (IoOk, d) \<Rightarrow> write_words ws (append_tmp d (to_le 8 w)))"

definition info_words :: "CheckpointInfo \<Rightarrow> u64 list" where
  "info_words i = [META_MAGIC, of_nat (ci_version i), of_nat (ci_begin_address i), of_nat (ci_start_address i),
     of_nat (ci_final_address i), of_nat (ci_user_data i)]"

definition write_to :: "CheckpointInfo \<Rightarrow> dir \<Rightarrow> unit io \<times> dir" where
  "write_to i d =
     (case dir_call d of (IoFail _ e, d) \<Rightarrow> (Inl e, d)
      | (IoOk, d) \<Rightarrow>
          (case write_words (info_words i) (d\<lparr>tmp_file := Some []\<rparr>) of (Inl e, d) \<Rightarrow> (Inl e, d)
           | (Inr _, d) \<Rightarrow>
               (case dir_call d of (IoFail _ e, d) \<Rightarrow> (Inl e, d)
                | (IoOk, d) \<Rightarrow>
                    (case dir_call d of (IoFail _ e, d) \<Rightarrow> (Inl e, d)
                     | (IoOk, d) \<Rightarrow> (Inr (), d\<lparr>meta_file := tmp_file d, tmp_file := None\<rparr>)))))"

definition read_from :: "dir \<Rightarrow> CheckpointInfo io" where
  "read_from d =
     (case meta_file d of None \<Rightarrow> Inl (str ''No such file or directory (os error 2)'')
      | Some f \<Rightarrow>
          if length f < 48 then Inl (str ''failed to fill whole buffer'')
          else
            (let v = (\<lambda>i. from_le (slice_at f (i * 8) 8) :: u64) in
             if v 0 \<noteq> META_MAGIC then Inl (str ''bad checkpoint magic'')
             else Inr \<lparr>ci_version = unat (v 1), ci_begin_address = unat (v 2), ci_start_address = unat (v 3),
                       ci_final_address = unat (v 4), ci_user_data = unat (v 5)\<rparr>))"

subsection \<open>Phase transitions\<close>

fun wait_observed :: "nat \<Rightarrow> hlog \<Rightarrow> hlog option" where
  \<comment> \<open>\<open>while !observed { self.epoch.bump_current_epoch(); .. }\<close>, the flag being set by the action\<close>
  "wait_observed 0 l = None"
| "wait_observed (Suc k) l =
     (let (n, acts, ep) = bump_current_epoch (log_epoch l); l' = fold run_action acts (l\<lparr>log_epoch := ep\<rparr>)
      in if PhaseObserved \<in> set acts then Some l' else wait_observed k l')"

definition transition_and_wait :: "nat \<Rightarrow> store \<Rightarrow> SystemState \<Rightarrow> store option" where
  \<comment> \<open>\<open>None\<close>: \<open>"concurrent state machine transition"\<close>, or a thread that stays in an old epoch\<close>
  "transition_and_wait rounds st new =
     (let (ok, st) = try_set_system_state st (system_state st) new; l = st_log st in
      if \<not> ok then None
      else
        (let (n, acts, ep) = bump_with_action (log_epoch l) PhaseObserved; l' = fold run_action acts (l\<lparr>log_epoch := ep\<rparr>)
         in if PhaseObserved \<in> set acts then Some (st\<lparr>st_log := l'\<rparr>)
            else do { l' \<leftarrow> wait_observed rounds l'; Some (st\<lparr>st_log := l'\<rparr>) }))"

subsection \<open>Checkpoint\<close>

definition take_checkpoint :: "nat \<Rightarrow> store \<Rightarrow> dir \<Rightarrow> nat \<Rightarrow> (CheckpointInfo io \<times> store \<times> dir) option" where
  "take_checkpoint rounds st d user_data =
     (let s0 = system_state st; v = version s0 in
      if phase s0 \<noteq> Rest then Some (Inl (str ''checkpoint already in progress''), st, d)
      else do {
        start_address \<leftarrow> tail_address (st_log st);
        st \<leftarrow> transition_and_wait rounds (st\<lparr>st_checkpoint_start := start_address\<rparr>) \<lparr>phase = Prepare, version = v\<rparr>;
        st \<leftarrow> transition_and_wait rounds st \<lparr>phase = InProgress, version = v + 1\<rparr>;
        final_address \<leftarrow> tail_address (st_log st);
        st \<leftarrow> transition_and_wait rounds st \<lparr>phase = WaitFlush, version = v + 1\<rparr>;
        l \<leftarrow> wait_flushed rounds (snd (shift_read_only_address (st_log st) final_address)) final_address;
        let st = st\<lparr>st_log := flush_until l final_address\<rparr>;
            info = \<lparr>ci_version = v, ci_begin_address = begin_address (st_log st), ci_start_address = start_address,
                    ci_final_address = final_address, ci_user_data = user_data\<rparr>
        in (case write_to info d of (Inl e, d) \<Rightarrow> Some (Inl e, st, d)
            | (Inr _, d) \<Rightarrow>
                do { st \<leftarrow> transition_and_wait rounds st \<lparr>phase = Rest, version = v + 1\<rparr>;
                     Some (Inr info, st, d) }) })"

subsection \<open>Recovery\<close>

definition recover_record :: "CheckpointInfo \<Rightarrow> nat \<Rightarrow> nat \<Rightarrow> bytes \<times> bool \<times> hash_index \<Rightarrow> (bytes \<times> bool \<times> hash_index) option" where
  \<comment> \<open>the closure over the records of a page buffer: buffer, \<open>dirty\<close>, index\<close>
  "recover_record info page_start off = (\<lambda>(buf, dirty, ix).
     (let w = rp_info buf off; addr = page_start + off in
      if \<not> is_valid w then Some (buf, dirty, ix)
      else if in_new_version w \<and> ci_start_address info \<le> addr then Some (rp_store_info buf off (set_invalid w), True, ix)
      else
        (let (buf, dirty) = (if is_sealed w then (rp_store_info buf off (w AND NOT SEALED_BIT), True) else (buf, dirty)) in
         do { (slot, ix) \<leftarrow> find_or_create_tag ix (hash64 (rp_key buf off));
              let cur = slot_load ix slot in
              if unat (he_address cur) < addr then
                (case try_cas ix slot cur (of_nat addr) of (True, ix) \<Rightarrow> Some (buf, dirty, ix) | (False, _) \<Rightarrow> None)
              else Some (buf, dirty, ix) })))"

fun recover_records :: "CheckpointInfo \<Rightarrow> nat \<Rightarrow> nat list \<Rightarrow> bytes \<times> bool \<times> hash_index \<Rightarrow> (bytes \<times> bool \<times> hash_index) option" where
  "recover_records info page_start [] x = Some x"
| "recover_records info page_start (off # offs) x =
     do { x \<leftarrow> recover_record info page_start off x; recover_records info page_start offs x }"

definition recover_page :: "CheckpointInfo \<Rightarrow> nat \<Rightarrow> store \<Rightarrow> (unit io \<times> store) option" where
  \<comment> \<open>one round of the loop over the pages\<close>
  "recover_page info page_start st =
     (let l = st_log st; page = page_start div page_size l;
          limit = min (ci_final_address info) (page_start + page_size l) - page_start
      in case read_page_prefix_from_disk l page limit of None \<Rightarrow> Some (Inl (str ''read past end of MemDevice''), st)
         | Some buf \<Rightarrow>
             do { (buf, dirty, ix) \<leftarrow> recover_records info page_start
                    (for_each_record_in_buf buf (ci_begin_address info - page_start) limit) (buf, False, st_index st);
                  Some (Inr (), st\<lparr>st_index := ix,
                          st_log := if dirty then l\<lparr>device := write_at (device l) page_start (take limit buf)\<rparr> else l\<rparr>) })"

function recover_loop :: "CheckpointInfo \<Rightarrow> nat \<Rightarrow> store \<Rightarrow> (unit io \<times> store) option" where
  "recover_loop info page_start st =
     (if page_start < ci_final_address info then
        do { (r, st') \<leftarrow> recover_page info page_start st;
             case r of Inl e \<Rightarrow> Some (Inl e, st')
             | Inr _ \<Rightarrow> recover_loop info (page_start + page_size (st_log st)) st' }
      else Some (Inr (), st))"
  by pat_completeness auto
termination
  by (relation "measure (\<lambda>(info, p, st). ci_final_address info - p)") (auto simp: page_size_def intro!: diff_less_mono2)

declare recover_loop.simps [simp del]

definition store_recover :: "store \<Rightarrow> CheckpointInfo \<Rightarrow> (unit io \<times> store) option" where
  "store_recover st info =
     (let st = st\<lparr>st_index := index_clear (st_index st),
                  st_log := recover_addresses (st_log st) (ci_begin_address info) (ci_final_address info)\<rparr>;
          st = set_system_state st \<lparr>phase = Rest, version = ci_version info + 1\<rparr>;
          st = st\<lparr>st_checkpoint_start := 2 ^ 64 - 1\<rparr>;
          ps = page_size (st_log st)
      in recover_loop info (ci_begin_address info div ps * ps) st)"

end
