(* ===== verification/SharedState.thy ===== *)
theory SharedState
  imports Checkpoint
begin

text \<open>
  The state all connections share (\<^verbatim>\<open>shared.rs\<close>): the store, the append-only file, the table of watch versions, the
  configuration and the time of the last save. The wall clock is a field that the environment moves. \<open>sh_rounds\<close> bounds the
  rounds a checkpoint waits for other threads; it has no counterpart in the source, where the wait has no bound.
\<close>

subsection \<open>Watch versions\<close>

record watch_table =
  wt_slots :: "u64 list"
  wt_mask :: nat

definition watch_new :: "nat \<Rightarrow> watch_table" where
  "watch_new n = (let n = next_power_of_two n in \<lparr>wt_slots = replicate n 0, wt_mask = n - 1\<rparr>)"

definition slot_of :: "watch_table \<Rightarrow> bytes \<Rightarrow> nat" where
  "slot_of w key = unat (hash64 key) AND wt_mask w"

definition watch_bump :: "watch_table \<Rightarrow> bytes \<Rightarrow> watch_table" where
  "watch_bump w key = (let i = slot_of w key in w\<lparr>wt_slots := (wt_slots w)[i := wt_slots w ! i + 1]\<rparr>)"

definition version_at :: "watch_table \<Rightarrow> nat \<Rightarrow> u64" where
  "version_at w i = wt_slots w ! i"

definition slot_version :: "watch_table \<Rightarrow> bytes \<Rightarrow> nat \<times> u64" where
  "slot_version w key = (let i = slot_of w key in (i, wt_slots w ! i))"

subsection \<open>Configuration and state\<close>

record config =
  cf_persist :: bool
  cf_aof :: bool
  cf_aof_commit_wait :: bool
  cf_commit_mode :: CommitMode
  cf_index_buckets :: nat
  cf_page_bits :: nat
  cf_memory_pages :: nat
  cf_mutable_pages :: nat

record shared =
  sh_store :: store
  sh_aof :: "aof option"
  sh_aof_commit_wait :: bool
  sh_watch :: watch_table
  sh_config :: config
  sh_last_save_ms :: u64
  sh_dir :: dir
  sh_clock :: int
  sh_rounds :: nat

definition shared_new :: "config \<Rightarrow> bytes \<Rightarrow> bytes \<Rightarrow> dir \<Rightarrow> io_outcome list \<Rightarrow> int \<Rightarrow> nat \<Rightarrow> shared io option" where
  \<comment> \<open>\<open>log_file\<close> and \<open>aof_file\<close> are the files in the directory; \<open>None\<close>: the store panics on its settings\<close>
  "shared_new cfg log_file aof_file d aof_outcomes now rounds =
     (let (r, d) = (if cf_persist cfg then (case dir_call d of (IoOk, d) \<Rightarrow> dir_call d | x \<Rightarrow> x) else (IoOk, d)) in
      case r of IoFail _ e \<Rightarrow> Some (Inl e)
      | IoOk \<Rightarrow>
          do { st \<leftarrow> store_new (cf_index_buckets cfg) (cf_page_bits cfg) (cf_memory_pages cfg) (cf_mutable_pages cfg)
                       (if cf_persist cfg then log_file else []);
               let (r, d) = (if cf_aof cfg then dir_call d else (IoOk, d)) in
               case r of IoFail _ e \<Rightarrow> Some (Inl e)
               | IoOk \<Rightarrow>
                   (case (if cf_aof cfg then map_sum id Some (aof_open aof_file (cf_commit_mode cfg) aof_outcomes) else Inr None) of
                      Inl e \<Rightarrow> Some (Inl e)
                    | Inr a \<Rightarrow>
                        Some (Inr \<lparr>sh_store = st, sh_aof = a, sh_aof_commit_wait = cf_aof_commit_wait cfg,
                                   sh_watch = watch_new (2 ^ 14), sh_config = cfg, sh_last_save_ms = 0, sh_dir = d,
                                   sh_clock = now, sh_rounds = rounds\<rparr>)) })"

definition shared_now_ms :: "shared \<Rightarrow> int" where
  "shared_now_ms sh = sh_clock sh"

definition last_save_ms :: "shared \<Rightarrow> int" where
  "last_save_ms sh = sint (sh_last_save_ms sh)"

definition shared_checkpoint :: "shared \<Rightarrow> (unit io \<times> shared) option" where
  "shared_checkpoint sh =
     (if \<not> cf_persist (sh_config sh) then Some (Inl (str ''server started without persistence''), sh)
      else (case dir_call (sh_dir sh) of (IoFail _ e, d) \<Rightarrow> Some (Inl e, sh\<lparr>sh_dir := d\<rparr>)
            | (IoOk, d) \<Rightarrow>
                (let aof_addr = (case sh_aof sh of Some a \<Rightarrow> aof_tail_address a | None \<Rightarrow> 0) in
                 do { (r, st, d) \<leftarrow> take_checkpoint (sh_rounds sh) (sh_store sh) d aof_addr;
                      let sh = sh\<lparr>sh_store := st, sh_dir := d\<rparr> in
                      case r of Inl e \<Rightarrow> Some (Inl e, sh)
                      | Inr _ \<Rightarrow>
                          (let (t, sh) =
                             (case sh_aof sh of None \<Rightarrow> (Inr (), sh)
                              | Some a \<Rightarrow> (let (t, a) = aof_truncate a in (t, sh\<lparr>sh_aof := Some a\<rparr>)))
                           in case t of Inl e \<Rightarrow> Some (Inl e, sh)
                              | Inr _ \<Rightarrow> Some (Inr (), sh\<lparr>sh_last_save_ms := word_of_int (shared_now_ms sh)\<rparr>)) })))"

subsection \<open>Versions\<close>

definition watch_ok :: "watch_table \<Rightarrow> bool" where
  "watch_ok w \<longleftrightarrow> (\<exists>k. length (wt_slots w) = 2 ^ k \<and> wt_mask w = 2 ^ k - 1)"

lemma watch_new_ok: "watch_ok (watch_new n)"
proof -
  obtain k where "next_power_of_two n = 2 ^ k" by (rule next_power_of_two_pow)
  then show ?thesis unfolding watch_ok_def watch_new_def Let_def by simp
qed

lemma slot_of_lt: "watch_ok w \<Longrightarrow> slot_of w key < length (wt_slots w)"
proof -
  assume "watch_ok w"
  then obtain k where k: "length (wt_slots w) = 2 ^ k" "wt_mask w = 2 ^ k - 1" by (auto simp: watch_ok_def)
  show ?thesis unfolding slot_of_def k nat_and_mask by simp
qed

lemma watch_bump_fields [simp]:
  "wt_mask (watch_bump w key) = wt_mask w" "length (wt_slots (watch_bump w key)) = length (wt_slots w)"
  "slot_of (watch_bump w key) k = slot_of w k" "watch_ok (watch_bump w key) = watch_ok w"
  by (simp_all add: watch_bump_def Let_def slot_of_def watch_ok_def)

lemma version_at_bump:
  "watch_ok w \<Longrightarrow> version_at (watch_bump w key) i = (if i = slot_of w key then version_at w i + 1 else version_at w i)"
  using slot_of_lt [of w key] by (simp add: version_at_def watch_bump_def Let_def)

end
