(* ===== verification/CommandArgs.thy ===== *)
theory CommandArgs
  imports Resp Store
begin

text \<open>
  Arguments of commands (\<^verbatim>\<open>commands.rs\<close>, helpers): command names, the options of SET, expiry arguments, the keys a command
  touches with their lock types, and the commands that cannot be queued. Byte strings compare without ASCII case where the
  source does.
\<close>

subsection \<open>Standard library\<close>

definition ascii_upper :: "byte \<Rightarrow> byte" where
  "ascii_upper b = (if 97 \<le> b \<and> b \<le> 122 then b - 32 else b)"

definition eq_ignore_ascii_case :: "bytes \<Rightarrow> bytes \<Rightarrow> bool" where
  "eq_ignore_ascii_case a b \<longleftrightarrow> map ascii_upper a = map ascii_upper b"

fun chunks2 :: "'a list \<Rightarrow> ('a \<times> 'a) list" where
  \<comment> \<open>\<open>as_chunks::<2>().0\<close>\<close>
  "chunks2 (a # b # xs) = (a, b) # chunks2 xs"
| "chunks2 _ = []"

function step_by :: "nat \<Rightarrow> 'a list \<Rightarrow> 'a list" where
  "step_by n [] = []"
| "step_by n (x # xs) = x # step_by n (drop (n - 1) xs)"
  by pat_completeness auto
termination
  by (relation "measure (\<lambda>(n, xs). length xs)") auto

definition REPLACEMENT :: bytes where "REPLACEMENT = [0xEF, 0xBF, 0xBD]"

fun from_utf8_lossy :: "bytes \<Rightarrow> bytes" where
  \<comment> \<open>each longest prefix of a malformed sequence becomes one replacement character\<close>
  "from_utf8_lossy [] = []"
| "from_utf8_lossy (a # bs) =
     (if a < 128 then a # from_utf8_lossy bs
      else if 0xC2 \<le> a \<and> a \<le> 0xDF then
        (case bs of b # rest \<Rightarrow>
           if is_cont b then a # b # from_utf8_lossy rest else REPLACEMENT @ from_utf8_lossy (b # rest)
         | _ \<Rightarrow> REPLACEMENT)
      else if 0xE0 \<le> a \<and> a \<le> 0xEF then
        (case bs of [] \<Rightarrow> REPLACEMENT
         | b # rest \<Rightarrow>
             if \<not> (is_cont b \<and> (a = 0xE0 \<longrightarrow> 0xA0 \<le> b) \<and> (a = 0xED \<longrightarrow> b < 0xA0)) then REPLACEMENT @ from_utf8_lossy (b # rest)
             else (case rest of [] \<Rightarrow> REPLACEMENT
                   | c # rest \<Rightarrow> if is_cont c then a # b # c # from_utf8_lossy rest else REPLACEMENT @ from_utf8_lossy (c # rest)))
      else if 0xF0 \<le> a \<and> a \<le> 0xF4 then
        (case bs of [] \<Rightarrow> REPLACEMENT
         | b # rest \<Rightarrow>
             if \<not> (is_cont b \<and> (a = 0xF0 \<longrightarrow> 0x90 \<le> b) \<and> (a = 0xF4 \<longrightarrow> b < 0x90)) then REPLACEMENT @ from_utf8_lossy (b # rest)
             else (case rest of [] \<Rightarrow> REPLACEMENT
                   | c # rest \<Rightarrow>
                       if \<not> is_cont c then REPLACEMENT @ from_utf8_lossy (c # rest)
                       else (case rest of [] \<Rightarrow> REPLACEMENT
                             | d # rest \<Rightarrow>
                                 if is_cont d then a # b # c # d # from_utf8_lossy rest
                                 else REPLACEMENT @ from_utf8_lossy (d # rest))))
      else REPLACEMENT @ from_utf8_lossy bs)"

subsection \<open>Names\<close>

definition MAX_CMD_NAME :: nat where "MAX_CMD_NAME = 24"

definition command_name :: "bytes \<Rightarrow> bytes" where
  \<comment> \<open>\<open>name[..n]\<close>\<close>
  "command_name arg = map ascii_upper (take MAX_CMD_NAME arg)"

subsection \<open>Options\<close>

record SetOpts =
  so_expiration :: int
  so_nx :: bool
  so_xx :: bool
  so_get :: bool
  so_keep_ttl :: bool

definition is_expiry_keyword :: "bytes \<Rightarrow> bool" where
  "is_expiry_keyword opt \<longleftrightarrow>
     eq_ignore_ascii_case opt (str ''EX'') \<or> eq_ignore_ascii_case opt (str ''PX'')
     \<or> eq_ignore_ascii_case opt (str ''EXAT'') \<or> eq_ignore_ascii_case opt (str ''PXAT'')"

definition expire_at_ms :: "bytes \<Rightarrow> int \<Rightarrow> int \<Rightarrow> int" where
  "expire_at_ms keyword t now_ms =
     (if eq_ignore_ascii_case keyword (str ''EX'') then i64_wrap (now_ms + i64_wrap (t * 1000))
      else if eq_ignore_ascii_case keyword (str ''PX'') then i64_wrap (now_ms + t)
      else if eq_ignore_ascii_case keyword (str ''EXAT'') then i64_wrap (t * 1000)
      else t)"

fun set_opts_loop :: "SetOpts \<Rightarrow> bytes list \<Rightarrow> int \<Rightarrow> bytes + SetOpts" where
  \<comment> \<open>the list is \<open>args[i..]\<close>\<close>
  "set_opts_loop opts [] now_ms = Inr opts"
| "set_opts_loop opts (opt # args) now_ms =
     (if eq_ignore_ascii_case opt (str ''NX'') then set_opts_loop (opts\<lparr>so_nx := True\<rparr>) args now_ms
      else if eq_ignore_ascii_case opt (str ''XX'') then set_opts_loop (opts\<lparr>so_xx := True\<rparr>) args now_ms
      else if eq_ignore_ascii_case opt (str ''GET'') then set_opts_loop (opts\<lparr>so_get := True\<rparr>) args now_ms
      else if eq_ignore_ascii_case opt (str ''KEEPTTL'') then set_opts_loop (opts\<lparr>so_keep_ttl := True\<rparr>) args now_ms
      else if is_expiry_keyword opt then
        (case args of [] \<Rightarrow> Inl (str ''ERR syntax error'')
         | a # rest \<Rightarrow>
             (case parse_i64 a of None \<Rightarrow> Inl (str ''ERR value is not an integer or out of range'')
              | Some t \<Rightarrow> set_opts_loop (opts\<lparr>so_expiration := expire_at_ms opt t now_ms\<rparr>) rest now_ms))
      else Inl (str ''ERR syntax error''))"

definition parse_set_opts :: "bytes list \<Rightarrow> int \<Rightarrow> bytes + SetOpts" where
  "parse_set_opts args now_ms =
     (case set_opts_loop \<lparr>so_expiration = 0, so_nx = False, so_xx = False, so_get = False, so_keep_ttl = False\<rparr> args now_ms of
        Inl e \<Rightarrow> Inl e
      | Inr o' \<Rightarrow> if so_nx o' \<and> so_xx o' then Inl (str ''ERR syntax error'') else Inr o')"

subsection \<open>Keys\<close>

definition parse_ranges :: "bytes \<Rightarrow> ArgSlice list option" where
  "parse_ranges raw = (case parse_command raw 0 of Inr (Some (_, slices)) \<Rightarrow> Some slices | _ \<Rightarrow> None)"

definition command_keys :: "bytes \<Rightarrow> ArgSlice list \<Rightarrow> (bytes \<times> LockType) list" where
  "command_keys raw ranges =
     (if ranges = [] then []
      else
        (let keys = (\<lambda>from step lock. map (\<lambda>r. (arg_bytes r raw, lock)) (step_by step (drop (min from (length ranges)) ranges)));
             name = command_name (arg_bytes (hd ranges) raw)
         in if List.member [str ''GET'', str ''STRLEN'', str ''GETRANGE'', str ''SUBSTR'', str ''TTL'', str ''PTTL'', str ''EXISTS'',
                 str ''TYPE'', str ''MGET''] name then keys 1 1 Shared
            else if List.member [str ''DEL'', str ''UNLINK''] name then keys 1 1 Exclusive
            else if name = str ''MSET'' then keys 1 2 Exclusive
            else if 2 \<le> length ranges then keys 1 (length ranges) Exclusive
            else []))"

definition validate_queueable :: "bytes \<Rightarrow> bytes option" where
  "validate_queueable cmd =
     (if List.member [str ''SUBSCRIBE'', str ''UNSUBSCRIBE'', str ''PSUBSCRIBE''] cmd
      then Some (str ''ERR command not allowed in transaction'') else None)"

end
