(* ===== verification/RespSession.thy ===== *)
theory RespSession
  imports SharedState CommandArgs StringFunctions
begin

text \<open>
  The session of a connection (\<^verbatim>\<open>commands.rs\<close>, \<open>RespSession\<close>): the store session, the transaction state, the clock of the
  running command and the output scratch of the callbacks. The session holds the shared state, since one command runs
  at a time. The operations on the store thread index, log, store session and scratch through; \<open>None\<close> is a panic or a wait that
  nothing the session does itself ends.
\<close>

subsection \<open>State\<close>

datatype Action = Continue | CloseConn

record TxnState =
  t_in_multi :: bool
  t_dirty :: bool
  t_queued :: "bytes list"
  t_watches :: "(nat \<times> u64) list"

definition txn_default :: TxnState where
  "txn_default = \<lparr>t_in_multi = False, t_dirty = False, t_queued = [], t_watches = []\<rparr>"

record resp_session =
  rs_shared :: shared
  rs_store :: session
  rs_txn :: TxnState
  rs_now_ms :: int
  rs_replay :: bool
  rs_out :: StringOutput

definition resp_session_new :: "shared \<Rightarrow> nat \<Rightarrow> resp_session" where
  \<comment> \<open>\<open>tid\<close>: the thread of the connection\<close>
  "resp_session_new sh tid =
     \<lparr>rs_shared = sh, rs_store = new_session (sh_store sh) tid, rs_txn = txn_default, rs_now_ms = 0, rs_replay = False,
      rs_out = output_default\<rparr>"

definition set_replay :: "resp_session \<Rightarrow> bool \<Rightarrow> resp_session" where
  "set_replay s r = s\<lparr>rs_replay := r\<rparr>"

definition put_store :: "resp_session \<Rightarrow> store \<Rightarrow> session \<Rightarrow> StringOutput \<Rightarrow> resp_session" where
  "put_store s st ss out = s\<lparr>rs_shared := (rs_shared s)\<lparr>sh_store := st\<rparr>, rs_store := ss, rs_out := out\<rparr>"

definition the_store :: "resp_session \<Rightarrow> store" where
  "the_store s = sh_store (rs_shared s)"

subsection \<open>The operations of the store\<close>

definition s_read :: "resp_session \<Rightarrow> bytes \<Rightarrow> StringInput \<Rightarrow> (Status \<times> resp_session) option" where
  \<comment> \<open>\<open>self.store.read(key, &input, &mut self.out_scratch)\<close>\<close>
  "s_read s key input =
     do { (status, out, st, ss) \<leftarrow> store_read string_functions (the_store s) (rs_store s) key input (rs_out s);
          Some (status, put_store s st ss out) }"

definition s_upsert :: "resp_session \<Rightarrow> bytes \<Rightarrow> StringInput \<Rightarrow> (Status \<times> resp_session) option" where
  "s_upsert s key input =
     do { (status, out, st, ss) \<leftarrow> store_upsert string_functions (the_store s) (rs_store s) key input (rs_out s);
          Some (status, put_store s st ss out) }"

definition s_rmw :: "resp_session \<Rightarrow> bytes \<Rightarrow> StringInput \<Rightarrow> (Status \<times> resp_session) option" where
  "s_rmw s key input =
     do { (status, out, st, ss) \<leftarrow> store_rmw string_functions (the_store s) (rs_store s) key input (rs_out s);
          Some (status, put_store s st ss out) }"

definition s_delete :: "resp_session \<Rightarrow> bytes \<Rightarrow> (Status \<times> resp_session) option" where
  "s_delete s key =
     do { (status, st, ss) \<leftarrow> store_delete (the_store s) (rs_store s) key; Some (status, put_store s st ss (rs_out s)) }"

subsection \<open>Bookkeeping of writes\<close>

definition set_aof :: "resp_session \<Rightarrow> aof \<Rightarrow> resp_session" where
  "set_aof s a = s\<lparr>rs_shared := (rs_shared s)\<lparr>sh_aof := Some a\<rparr>\<rparr>"

definition log_op :: "resp_session \<Rightarrow> AofOp \<Rightarrow> bytes \<Rightarrow> bool \<Rightarrow> resp_session option" where
  \<comment> \<open>\<open>aof.enqueue(..).unwrap_or(0)\<close>, and the wait for its end address where the caller asks for one, with no call of another
    thread during the wait\<close>
  "log_op s op raw wait =
     (case sh_aof (rs_shared s) of None \<Rightarrow> Some s
      | Some a \<Rightarrow>
          (let (r, a) = enqueue a op (rs_now_ms s) raw; e = (case r of Inr e \<Rightarrow> e | Inl _ \<Rightarrow> 0) in
           if wait \<and> sh_aof_commit_wait (rs_shared s)
           then do { (_, a) \<leftarrow> wait_committed a e []; Some (set_aof s a) }
           else Some (set_aof s a)))"

definition log_write :: "resp_session \<Rightarrow> bytes \<Rightarrow> resp_session option" where
  "log_write s raw = (if rs_replay s then Some s else log_op s Command raw True)"

definition bump_watch :: "resp_session \<Rightarrow> bytes \<Rightarrow> resp_session" where
  "bump_watch s key = s\<lparr>rs_shared := (rs_shared s)\<lparr>sh_watch := watch_bump (sh_watch (rs_shared s)) key\<rparr>\<rparr>"

definition after_write :: "resp_session \<Rightarrow> bytes \<Rightarrow> bytes \<Rightarrow> resp_session option" where
  "after_write s key raw = log_write (bump_watch s key) raw"

end
