(* ===== verification/Glob.thy ===== *)
theory Glob
  imports Prelude
begin

text \<open>
  Glob patterns of KEYS and SCAN (\<open>glob_match\<close> of \<^verbatim>\<open>commands.rs\<close>): the loop over indices into pattern and string that
  remembers the last \<open>*\<close> and goes back to it on a mismatch, and the meaning of a pattern as a list of tokens. The loop always
  ends and decides exactly that meaning.
\<close>

subsection \<open>The loop\<close>

fun in_set :: "bytes \<Rightarrow> byte \<Rightarrow> bool" where
  \<comment> \<open>the argument is \<open>set[i..]\<close>\<close>
  "in_set [] c = False"
| "in_set [a] c = (a = c)"
| "in_set [a, d] c = (a = c \<or> in_set [d] c)"
| "in_set (a # d # b # cs) c =
     (if d = of_char CHR ''-'' then a \<le> c \<and> c \<le> b \<or> in_set cs c else a = c \<or> in_set (d # b # cs) c)"

function find_close :: "bytes \<Rightarrow> nat \<Rightarrow> nat" where
  \<comment> \<open>\<open>while j < p.len() && p[j] != b']'\<close>\<close>
  "find_close p j = (if j < length p \<and> p ! j \<noteq> of_char CHR '']'' then find_close p (j + 1) else j)"
  by pat_completeness auto
termination
  by (relation "measure (\<lambda>(p, j). length p - j)") auto

declare find_close.simps [simp del]

datatype glob_step = Run | Advance nat | Mismatch

definition glob_step :: "bytes \<Rightarrow> byte \<Rightarrow> nat \<Rightarrow> glob_step" where
  \<comment> \<open>the \<open>match p[pi]\<close> against the character \<open>c = s[si]\<close>: \<open>Advance pi'\<close> also advances \<open>si\<close>\<close>
  "glob_step p c pi =
     (if pi < length p then
        if p ! pi = of_char CHR ''*'' then Run
        else if p ! pi = of_char CHR ''?'' then Advance (pi + 1)
        else if p ! pi = of_char CHR ''['' then
          (let j = pi + 1;
               negate = (j < length p \<and> (p ! j = of_char CHR ''^'' \<or> p ! j = of_char CHR ''!''));
               set_start = (if negate then j + 1 else j);
               j = find_close p set_start;
               cs = slice_at p set_start (min j (length p) - set_start)
           in if in_set cs c \<noteq> negate then Advance (j + 1) else Mismatch)
        else if p ! pi = 0x5C \<and> pi + 1 < length p then
          if p ! (pi + 1) = c then Advance (pi + 2) else Mismatch
        else if p ! pi = c then Advance (pi + 1) else Mismatch
      else Mismatch)"

function skip_stars :: "bytes \<Rightarrow> nat \<Rightarrow> nat" where
  "skip_stars p pi = (if pi < length p \<and> p ! pi = of_char CHR ''*'' then skip_stars p (pi + 1) else pi)"
  by pat_completeness auto
termination
  by (relation "measure (\<lambda>(p, j). length p - j)") auto

declare skip_stars.simps [simp del]

partial_function (option) glob_helper :: "bytes \<Rightarrow> bytes \<Rightarrow> nat \<Rightarrow> nat \<Rightarrow> (nat \<times> nat) option \<Rightarrow> bool option" where
  "glob_helper p s pi si star =
     (if si < length s then
        (case glob_step p (s ! si) pi of
           Run \<Rightarrow> glob_helper p s (pi + 1) si (Some (pi, si))
         | Advance pi' \<Rightarrow> glob_helper p s pi' (si + 1) star
         | Mismatch \<Rightarrow>
             (case star of
                Some (sp, ss) \<Rightarrow> glob_helper p s (sp + 1) (ss + 1) (Some (sp, ss + 1))
              | None \<Rightarrow> Some False))
      else Some (skip_stars p pi = length p))"

definition glob_match :: "bytes \<Rightarrow> bytes \<Rightarrow> bool option" where
  "glob_match pat s = glob_helper pat s 0 0 None"

subsection \<open>What a pattern means\<close>

datatype glob_token = AnyRun | AnyOne | Class bool bytes | Literal byte | Never

function glob_tokens :: "bytes \<Rightarrow> glob_token list" where
  \<comment> \<open>a class that is not closed takes one character and then matches nothing\<close>
  "glob_tokens [] = []"
| "glob_tokens (c # p) =
     (if c = of_char CHR ''*'' then AnyRun # glob_tokens p
      else if c = of_char CHR ''?'' then AnyOne # glob_tokens p
      else if c = of_char CHR ''['' then
        (let negate = (p \<noteq> [] \<and> (hd p = of_char CHR ''^'' \<or> hd p = of_char CHR ''!''));
             q = (if negate then tl p else p);
             cs = takeWhile (\<lambda>x. x \<noteq> of_char CHR '']'') q; rest = dropWhile (\<lambda>x. x \<noteq> of_char CHR '']'') q
         in Class negate cs # (if rest = [] then [Never] else glob_tokens (tl rest)))
      else if c = 0x5C \<and> p \<noteq> [] then Literal (hd p) # glob_tokens (tl p)
      else Literal c # glob_tokens p)"
  by pat_completeness auto
termination
proof (relation "measure length", goal_cases)
  case (4 c p negate q cs rest)
  have "length q \<le> length p" using 4 by (cases p) auto
  moreover have "length (tl rest) \<le> length q" using 4 length_dropWhile_le [of "\<lambda>x. x \<noteq> of_char CHR '']''" q] by simp
  ultimately show ?case by simp
qed auto

declare glob_tokens.simps(2) [simp del]

fun class_ranges :: "bytes \<Rightarrow> (byte \<times> byte) list" where
  \<comment> \<open>the ranges that a class denotes, from left to right: \<open>a-b\<close>, or a single byte\<close>
  "class_ranges [] = []"
| "class_ranges [a] = [(a, a)]"
| "class_ranges [a, d] = [(a, a), (d, d)]"
| "class_ranges (a # d # b # cs) =
     (if d = of_char CHR ''-'' then (a, b) # class_ranges cs else (a, a) # class_ranges (d # b # cs))"

lemma in_set_ranges: "in_set cs c = list_ex (\<lambda>(lo, hi). lo \<le> c \<and> c \<le> hi) (class_ranges cs)"
  by (induction cs rule: class_ranges.induct) auto

fun token_accepts :: "glob_token \<Rightarrow> byte \<Rightarrow> bool" where
  "token_accepts AnyOne c = True"
| "token_accepts (Class negate cs) c = (list_ex (\<lambda>(lo, hi). lo \<le> c \<and> c \<le> hi) (class_ranges cs) \<noteq> negate)"
| "token_accepts (Literal a) c = (a = c)"
| "token_accepts t c = False"

fun glob_matches :: "glob_token list \<Rightarrow> bytes \<Rightarrow> bool" where
  "glob_matches [] s = (s = [])"
| "glob_matches (AnyRun # ts) s = (\<exists>k \<le> length s. glob_matches ts (drop k s))"
| "glob_matches (t # ts) [] = False"
| "glob_matches (t # ts) (c # s) = (token_accepts t c \<and> glob_matches ts s)"

subsection \<open>One step of the loop is one token\<close>

definition tokens_at :: "bytes \<Rightarrow> nat \<Rightarrow> glob_token list" where
  "tokens_at p pi = (if length p < pi then [Never] else glob_tokens (drop pi p))"

lemma find_close_drop:
  "j \<le> length p \<Longrightarrow> find_close p j \<le> length p \<and> j \<le> find_close p j
    \<and> slice_at p j (find_close p j - j) = takeWhile (\<lambda>x. x \<noteq> of_char CHR '']'') (drop j p)
    \<and> drop (find_close p j) p = dropWhile (\<lambda>x. x \<noteq> of_char CHR '']'') (drop j p)"
proof (induction p j rule: find_close.induct)
  case (1 p j)
  show ?case
  proof (cases "j < length p \<and> p ! j \<noteq> of_char CHR '']''")
    case True
    then have d: "drop j p = p ! j # drop (Suc j) p" and f: "find_close p j = find_close p (Suc j)"
      by (simp_all add: Cons_nth_drop_Suc find_close.simps [of p j])
    from 1 True have IH: "find_close p (Suc j) \<le> length p" "Suc j \<le> find_close p (Suc j)"
      "slice_at p (Suc j) (find_close p (Suc j) - Suc j) = takeWhile (\<lambda>x. x \<noteq> of_char CHR '']'') (drop (Suc j) p)"
      "drop (find_close p (Suc j)) p = dropWhile (\<lambda>x. x \<noteq> of_char CHR '']'') (drop (Suc j) p)"
      by auto
    have "slice_at p j (find_close p (Suc j) - j) = p ! j # slice_at p (Suc j) (find_close p (Suc j) - Suc j)"
      using IH(2) d by (simp add: slice_at_def Suc_diff_le [symmetric] Suc_diff_Suc flip: take_Suc_Cons)
    with IH True show ?thesis unfolding f d by simp
  next
    case False
    then have f: "find_close p j = j" by (subst find_close.simps) auto
    show ?thesis
    proof (cases "j < length p")
      case True
      then have "drop j p = p ! j # drop (Suc j) p" by (simp add: Cons_nth_drop_Suc)
      with True False show ?thesis unfolding f by simp
    qed (use 1 f in \<open>simp add: slice_at_def\<close>)
  qed
qed

lemma tl_drop_Suc: "tl (drop n xs) = drop (Suc n) xs"
  by (simp add: drop_Suc tl_drop)

lemma tokens_at_end: "length p \<le> pi \<Longrightarrow> tokens_at p pi = (if pi = length p then [] else [Never])"
  by (simp add: tokens_at_def)

lemma glob_matches_head: "t \<noteq> AnyRun \<Longrightarrow> glob_matches (t # ts) (c # s) \<longleftrightarrow> token_accepts t c \<and> glob_matches ts s"
  by (cases t) auto

lemma class_token:
  assumes pi: "pi < length p" and c: "p ! pi = of_char CHR ''[''"
  defines "negate \<equiv> Suc pi < length p \<and> (p ! Suc pi = of_char CHR ''^'' \<or> p ! Suc pi = of_char CHR ''!'')"
  defines "start \<equiv> if negate then Suc (Suc pi) else Suc pi"
  shows "tokens_at p pi = Class negate (slice_at p start (find_close p start - start)) # tokens_at p (Suc (find_close p start))"
    and "find_close p start \<le> length p" and "start \<le> find_close p start"
proof -
  have st: "start \<le> length p" using pi by (auto simp: start_def negate_def)
  note f = find_close_drop [OF st]
  let ?q = "drop (Suc pi) p"
  have d: "drop pi p = of_char CHR ''['' # ?q" using pi c Cons_nth_drop_Suc by metis
  have n: "(?q \<noteq> [] \<and> (hd ?q = of_char CHR ''^'' \<or> hd ?q = of_char CHR ''!'')) = negate"
    by (auto simp: negate_def hd_drop_conv_nth)
  have q: "(if negate then tl ?q else ?q) = drop start p" by (simp add: start_def tl_drop_Suc)
  have r: "dropWhile (\<lambda>x. x \<noteq> of_char CHR '']'') (drop start p) = drop (find_close p start) p" using f by simp
  have "glob_tokens (of_char CHR ''['' # ?q) =
      Class negate (slice_at p start (find_close p start - start))
      # (if drop (find_close p start) p = [] then [Never] else glob_tokens (tl (drop (find_close p start) p)))"
    using f unfolding glob_tokens.simps n Let_def q r by (simp del: drop_eq_Nil)
  then show "tokens_at p pi = Class negate (slice_at p start (find_close p start - start)) # tokens_at p (Suc (find_close p start))"
    using pi f unfolding tl_drop_Suc tokens_at_def d drop_eq_Nil by auto
qed (use find_close_drop [of start p] pi in \<open>auto simp: start_def negate_def\<close>)

lemma other_token:
  assumes pi: "pi < length p"
  shows "p ! pi = of_char CHR ''*'' \<Longrightarrow> tokens_at p pi = AnyRun # tokens_at p (Suc pi)"
    and "p ! pi = of_char CHR ''?'' \<Longrightarrow> tokens_at p pi = AnyOne # tokens_at p (Suc pi)"
    and "p ! pi = 0x5C \<Longrightarrow> Suc pi < length p \<Longrightarrow> tokens_at p pi = Literal (p ! Suc pi) # tokens_at p (Suc (Suc pi))"
    and "p ! pi \<notin> {of_char CHR ''*'', of_char CHR ''?'', of_char CHR ''[''} \<Longrightarrow> \<not> (p ! pi = 0x5C \<and> Suc pi < length p) \<Longrightarrow>
      tokens_at p pi = Literal (p ! pi) # tokens_at p (Suc pi)"
proof -
  have d: "drop pi p = p ! pi # drop (Suc pi) p" using pi by (simp add: Cons_nth_drop_Suc)
  have t: "tokens_at p pi = glob_tokens (p ! pi # drop (Suc pi) p)" "tokens_at p (Suc pi) = glob_tokens (drop (Suc pi) p)"
    using pi by (simp_all add: tokens_at_def d)
  show "p ! pi = of_char CHR ''*'' \<Longrightarrow> tokens_at p pi = AnyRun # tokens_at p (Suc pi)"
    and "p ! pi = of_char CHR ''?'' \<Longrightarrow> tokens_at p pi = AnyOne # tokens_at p (Suc pi)"
    by (simp_all add: t glob_tokens.simps(2))
  show "p ! pi = 0x5C \<Longrightarrow> Suc pi < length p \<Longrightarrow> tokens_at p pi = Literal (p ! Suc pi) # tokens_at p (Suc (Suc pi))"
    using t(1) by (simp add: glob_tokens.simps(2) tokens_at_def hd_drop_conv_nth tl_drop_Suc)
  show "p ! pi \<notin> {of_char CHR ''*'', of_char CHR ''?'', of_char CHR ''[''} \<Longrightarrow> \<not> (p ! pi = 0x5C \<and> Suc pi < length p) \<Longrightarrow>
      tokens_at p pi = Literal (p ! pi) # tokens_at p (Suc pi)"
    using t by (auto simp: glob_tokens.simps(2))
qed

lemma glob_step_token:
  "case glob_step p c pi of
     Run \<Rightarrow> pi < length p \<and> tokens_at p pi = AnyRun # tokens_at p (Suc pi)
   | Advance pi' \<Rightarrow> pi < pi' \<and> (\<exists>t. tokens_at p pi = t # tokens_at p pi' \<and> t \<noteq> AnyRun \<and> token_accepts t c)
   | Mismatch \<Rightarrow> (\<forall>s. \<not> glob_matches (tokens_at p pi) (c # s))"
proof (cases "pi < length p")
  case False
  then show ?thesis by (simp add: glob_step_def tokens_at_end)
next
  case pi: True
  note other = other_token [OF pi] and cls = class_token [OF pi]
  show ?thesis
  proof (cases "p ! pi = of_char CHR ''[''")
    case True
    define negate where "negate \<longleftrightarrow> Suc pi < length p \<and> (p ! Suc pi = of_char CHR ''^'' \<or> p ! Suc pi = of_char CHR ''!'')"
    define start where "start = (if negate then Suc (Suc pi) else Suc pi)"
    have t: "tokens_at p pi = Class negate (slice_at p start (find_close p start - start)) # tokens_at p (Suc (find_close p start))"
      and e: "find_close p start \<le> length p" "start \<le> find_close p start"
      using cls [OF True, folded negate_def, folded start_def] by simp_all
    have g: "glob_step p c pi =
        (if in_set (slice_at p start (find_close p start - start)) c \<noteq> negate then Advance (Suc (find_close p start)) else Mismatch)"
    proof -
      have nf: "(pi + 1 < length p \<and> (p ! (pi + 1) = of_char CHR ''^'' \<or> p ! (pi + 1) = of_char CHR ''!'')) = negate"
        and sf: "(if negate then pi + 1 + 1 else pi + 1) = start" by (simp_all add: negate_def start_def)
      show ?thesis unfolding glob_step_def Let_def nf sf min_absorb1 [OF e(1)] using pi True by simp
    qed
    show ?thesis unfolding g using t e by (auto simp: start_def in_set_ranges)
  next
    case nb: False
    consider "p ! pi = of_char CHR ''*''" | "p ! pi = of_char CHR ''?''" | "p ! pi = 0x5C" "Suc pi < length p"
      | "p ! pi \<notin> {of_char CHR ''*'', of_char CHR ''?'', of_char CHR ''[''}" "\<not> (p ! pi = 0x5C \<and> Suc pi < length p)"
      using nb by auto
    then show ?thesis using pi by cases (use other in \<open>auto simp: glob_step_def glob_matches_head\<close>)
  qed
qed

subsection \<open>The loop decides the meaning\<close>

lemma glob_matches_fixed:
  "AnyRun \<notin> set mid \<Longrightarrow> glob_matches (mid @ ts) s \<Longrightarrow> length mid \<le> length s \<and> glob_matches ts (drop (length mid) s)"
proof (induction mid arbitrary: s)
  case (Cons t mid)
  then show ?case by (cases s; cases t) auto
qed simp

lemma no_end: "t \<noteq> AnyRun \<Longrightarrow> \<not> glob_matches (t # ts) []"
  by (cases t) auto

lemma skip_stars_tokens: "skip_stars p pi = length p \<longleftrightarrow> glob_matches (tokens_at p pi) []"
proof (induction p pi rule: skip_stars.induct)
  case (1 p pi)
  show ?case
  proof (cases "pi < length p")
    case pi: True
    show ?thesis
    proof (cases "p ! pi = of_char CHR ''*''")
      case True
      with pi have s: "skip_stars p pi = skip_stars p (Suc pi)" by (subst skip_stars.simps) simp
      have "skip_stars p (Suc pi) = length p \<longleftrightarrow> glob_matches (tokens_at p (Suc pi)) []" using 1 pi True by simp
      then show ?thesis unfolding s other_token(1) [OF pi True] by simp
    next
      case False
      then have "skip_stars p pi = pi" by (subst skip_stars.simps) simp
      moreover have "\<exists>t ts. tokens_at p pi = t # ts \<and> t \<noteq> AnyRun"
      proof (cases "p ! pi = of_char CHR ''[''")
        case True
        then show ?thesis using class_token(1) [OF pi True] by blast
      next
        case nb: False
        then show ?thesis using False other_token(2-4) [OF pi] by blast
      qed
      ultimately show ?thesis using pi no_end by fastforce
    qed
  next
    case False
    then have "skip_stars p pi = pi" by (subst skip_stars.simps) simp
    with False show ?thesis by (simp add: tokens_at_end)
  qed
qed

definition star_matches :: "bytes \<Rightarrow> bytes \<Rightarrow> (nat \<times> nat) option \<Rightarrow> bool" where
  \<comment> \<open>the remembered star may still take more characters\<close>
  "star_matches p s star =
     (case star of None \<Rightarrow> False
      | Some (sp, ss) \<Rightarrow> \<exists>k. ss < k \<and> k \<le> length s \<and> glob_matches (tokens_at p (Suc sp)) (drop k s))"

definition star_ok :: "bytes \<Rightarrow> nat \<Rightarrow> nat \<Rightarrow> (nat \<times> nat) option \<Rightarrow> bool" where
  \<comment> \<open>between the star and the current place only single characters were matched\<close>
  "star_ok p pi si star \<longleftrightarrow>
     (case star of None \<Rightarrow> True
      | Some (sp, ss) \<Rightarrow> ss \<le> si \<and> sp < pi \<and> sp < length p
          \<and> (\<exists>mid. tokens_at p (Suc sp) = mid @ tokens_at p pi \<and> length mid = si - ss \<and> AnyRun \<notin> set mid))"

definition star_measure :: "bytes \<Rightarrow> bytes \<Rightarrow> (nat \<times> nat) option \<Rightarrow> nat \<times> nat" where
  "star_measure p s star =
     (case star of None \<Rightarrow> (length s, length p + 1) | Some (sp, ss) \<Rightarrow> (length s - ss, length p - sp))"

definition loop_order :: "(((nat \<times> nat) \<times> nat) \<times> ((nat \<times> nat) \<times> nat)) set" where
  "loop_order = (less_than <*lex*> less_than) <*lex*> less_than"

lemma wf_loop_order: "wf loop_order"
  unfolding loop_order_def by (intro wf_lex_prod wf_less_than)

lemma new_star_wins:
  assumes ok: "star_ok p pi si star" and t: "tokens_at p pi = AnyRun # ts" and si: "si \<le> length s"
    and m: "star_matches p s star"
  shows "glob_matches (AnyRun # ts) (drop si s)"
proof -
  obtain sp ss where st: "star = Some (sp, ss)" using m by (auto simp: star_matches_def split: option.splits)
  obtain mid where mid: "tokens_at p (Suc sp) = mid @ AnyRun # ts" "length mid = si - ss" "AnyRun \<notin> set mid" "ss \<le> si"
    using ok t by (auto simp: star_ok_def st)
  obtain k where k: "ss < k" "k \<le> length s" "glob_matches (mid @ AnyRun # ts) (drop k s)"
    using m mid(1) by (auto simp: star_matches_def st)
  from glob_matches_fixed [OF mid(3) k(3)] obtain n where
    n: "k + length mid + n \<le> length s" "glob_matches ts (drop (k + length mid + n) s)"
    using k(2) that [of n for n] by (auto simp: add.commute add.left_commute le_diff_conv2)
  define x where "x = k + length mid + n - si"
  have "si + x = k + length mid + n" using k(1) mid(2,4) by (simp add: x_def)
  then have "x \<le> length (drop si s)" "glob_matches ts (drop x (drop si s))" using n by (simp_all add: add.commute)
  then show ?thesis by auto
qed

lemma run_splits:
  assumes "si \<le> length s"
  shows "glob_matches (AnyRun # ts) (drop si s) \<longleftrightarrow>
    glob_matches ts (drop si s) \<or> (\<exists>k. si < k \<and> k \<le> length s \<and> glob_matches ts (drop k s))" (is "?l = ?r")
proof
  assume ?l
  then obtain k where "k \<le> length s - si" "glob_matches ts (drop (k + si) s)" by auto
  with assms show ?r by (cases "k = 0") (auto intro: exI [of _ "k + si"])
next
  assume ?r
  then obtain k where k: "si \<le> k" "k \<le> length s" "glob_matches ts (drop k s)" using assms less_imp_le by blast
  then show ?l by (auto intro: exI [of _ "k - si"])
qed

lemma star_back:
  "ss < length s \<Longrightarrow> star_matches p s (Some (sp, ss)) \<longleftrightarrow>
     glob_matches (tokens_at p (Suc sp)) (drop (Suc ss) s) \<or> star_matches p s (Some (sp, Suc ss))"
  unfolding star_matches_def option.case prod.case by (metis Suc_leI Suc_lessD le_neq_implies_less lessI)

lemma star_ok_advance:
  assumes "star_ok p pi si star" and "tokens_at p pi = t # tokens_at p pi'" and "t \<noteq> AnyRun" and "pi < pi'"
  shows "star_ok p pi' (Suc si) star"
proof (cases star)
  case (Some x)
  obtain sp ss mid where st: "x = (sp, ss)" "ss \<le> si" "sp < pi" "sp < length p" "tokens_at p (Suc sp) = mid @ tokens_at p pi"
    "length mid = si - ss" "AnyRun \<notin> set mid"
    using assms(1) Some by (cases x) (auto simp: star_ok_def)
  then have "tokens_at p (Suc sp) = (mid @ [t]) @ tokens_at p pi' \<and> length (mid @ [t]) = Suc si - ss \<and> AnyRun \<notin> set (mid @ [t])"
    using assms(2,3) by auto
  with st assms(4) Some show ?thesis unfolding star_ok_def by (auto intro!: exI [of _ "mid @ [t]"])
qed (simp add: star_ok_def)

lemma star_at_end:
  assumes "star_ok p pi (length s) star" and "star_matches p s star"
  shows "glob_matches (tokens_at p pi) []"
proof -
  from assms(2) obtain sp ss k where st: "star = Some (sp, ss)" "ss < k" "k \<le> length s" "glob_matches (tokens_at p (Suc sp)) (drop k s)"
    by (auto simp: star_matches_def split: option.splits)
  with assms(1) obtain mid where "tokens_at p (Suc sp) = mid @ tokens_at p pi" "length mid = length s - ss" "AnyRun \<notin> set mid"
    by (auto simp: star_ok_def)
  with glob_matches_fixed [of mid "tokens_at p pi" "drop k s"] st show ?thesis by simp
qed

lemma glob_helper_spec:
  assumes "star_ok p pi si star" and "si \<le> length s"
  shows "glob_helper p s pi si star = Some (glob_matches (tokens_at p pi) (drop si s) \<or> star_matches p s star)"
  using assms
proof (induction "(star_measure p s star, length s - si)" arbitrary: pi si star
    rule: wf_induct_rule [OF wf_loop_order])
  case (1 si star pi)
  note IH = 1(1) and ok = 1(2)
  show ?case
  proof (cases "si < length s")
    case False
    then have e: "si = length s" using 1(3) by simp
    have "star_matches p s star \<Longrightarrow> glob_matches (tokens_at p pi) []" using star_at_end ok e by blast
    then show ?thesis by (subst glob_helper.simps) (auto simp: e skip_stars_tokens)
  next
    case si: True
    have d: "drop si s = s ! si # drop (Suc si) s" using si by (simp add: Cons_nth_drop_Suc)
    note tok = glob_step_token [where p = p and c = "s ! si" and pi = pi]
    show ?thesis
    proof (cases "glob_step p (s ! si) pi")
      case Run
      then have t: "pi < length p" "tokens_at p pi = AnyRun # tokens_at p (Suc pi)" using tok by simp_all
      let ?star = "Some (pi, si)"
      have ok': "star_ok p (Suc pi) si ?star" using t by (simp add: star_ok_def)
      have "((star_measure p s ?star, length s - si), (star_measure p s star, length s - si)) \<in> loop_order"
        using ok si t(1) by (auto simp: loop_order_def star_measure_def star_ok_def split: option.splits)
      from IH [OF this ok'] si have r: "glob_helper p s (Suc pi) si ?star =
          Some (glob_matches (tokens_at p (Suc pi)) (drop si s) \<or> star_matches p s ?star)" by simp
      have "glob_matches (tokens_at p (Suc pi)) (drop si s) \<or> star_matches p s ?star \<longleftrightarrow> glob_matches (tokens_at p pi) (drop si s)"
        using run_splits [OF less_imp_le [OF si], of "tokens_at p (Suc pi)"] unfolding t(2) star_matches_def option.case prod.case by simp
      then have "glob_helper p s pi si star = Some (glob_matches (tokens_at p pi) (drop si s))"
        using si Run r by (subst glob_helper.simps) simp
      moreover have "star_matches p s star \<longrightarrow> glob_matches (tokens_at p pi) (drop si s)"
        unfolding t(2) using new_star_wins [OF ok t(2) less_imp_le [OF si]] by blast
      ultimately show ?thesis by (cases "star_matches p s star") simp_all
    next
      case (Advance pi')
      then obtain t where t: "tokens_at p pi = t # tokens_at p pi'" "t \<noteq> AnyRun" "token_accepts t (s ! si)" "pi < pi'"
        using tok by auto
      have "((star_measure p s star, length s - Suc si), (star_measure p s star, length s - si)) \<in> loop_order"
        using si by (auto simp: loop_order_def)
      from IH [OF this star_ok_advance [OF ok t(1,2,4)]] si have "glob_helper p s pi' (Suc si) star =
          Some (glob_matches (tokens_at p pi') (drop (Suc si) s) \<or> star_matches p s star)" by simp
      then show ?thesis using si Advance t(1-3) d by (subst glob_helper.simps) (simp add: glob_matches_head)
    next
      case Mismatch
      then have no: "\<not> glob_matches (tokens_at p pi) (drop si s)" using tok d by simp
      show ?thesis
      proof (cases star)
        case None
        then show ?thesis using si Mismatch no by (subst glob_helper.simps) (simp add: star_matches_def)
      next
        case (Some x)
        then obtain sp ss where st: "star = Some (sp, ss)" "ss \<le> si" "sp < length p" using ok by (cases x) (auto simp: star_ok_def)
        have ok': "star_ok p (Suc sp) (Suc ss) (Some (sp, Suc ss))" using st by (simp add: star_ok_def)
        have "((star_measure p s (Some (sp, Suc ss)), length s - Suc ss), (star_measure p s star, length s - si)) \<in> loop_order"
          using st si by (auto simp: loop_order_def star_measure_def)
        from IH [OF this ok'] st si have "glob_helper p s (Suc sp) (Suc ss) (Some (sp, Suc ss)) =
            Some (glob_matches (tokens_at p (Suc sp)) (drop (Suc ss) s) \<or> star_matches p s (Some (sp, Suc ss)))"
          by simp
        then show ?thesis using si Mismatch no st star_back [of ss s p sp] by (subst glob_helper.simps) simp
      qed
    qed
  qed
qed

subsection \<open>Properties\<close>

text \<open>C16: The backtracking loop of \<open>glob_match\<close> ends on every pattern and every string, and answers whether the string
  can be cut into pieces that match the tokens of the pattern in order; going back only to the last star loses no match. A class
  in brackets accepts the bytes in one of its ranges, or in none when it is negated.\<close>

theorem glob_match_decides: "glob_match pat s = Some (glob_matches (glob_tokens pat) s)"
  using glob_helper_spec [of pat 0 0 None s] by (simp add: glob_match_def star_ok_def star_matches_def tokens_at_def)

end
