(* ===== verification/Commands.thy ===== *)
theory Commands
  imports RespSession Glob
begin

text \<open>
  Command dispatch (\<^verbatim>\<open>commands.rs\<close>): one function per command, each appending its reply to the send buffer, the \<open>match\<close> on
  the command name, MULTI/EXEC/WATCH, and the entry points \<open>dispatch\<close> and \<open>run\<close>. Arithmetic on times wraps, as in a release
  build. EXEC runs the queued commands through the same \<open>match\<close>: \<open>exec_with\<close> takes the function that runs them as a parameter
  and \<open>exec_command\<close> closes the recursion at depth two, which \<open>CommandLaws\<close> shows to be all there is.
\<close>

subsection \<open>String commands\<close>

definition NOT_INTEGER :: bytes where
  "NOT_INTEGER = str ''ERR value is not an integer or out of range''"

definition cmd_get :: "resp_session \<Rightarrow> bytes \<Rightarrow> bytes \<Rightarrow> (resp_session \<times> bytes) option" where
  "cmd_get s key out =
     do { (status, s) \<leftarrow> s_read s key (input_read Get (rs_now_ms s));
          Some (s, if status = Found then write_bulk out (o_bytes (rs_out s)) else out @ NULL_BULK) }"

definition cmd_read_int :: "resp_session \<Rightarrow> bytes \<Rightarrow> StringOp \<Rightarrow> bytes \<Rightarrow> (resp_session \<times> bytes) option" where
  "cmd_read_int s key op out =
     do { (status, s) \<leftarrow> s_read s key (input_read op (rs_now_ms s));
          Some (s, if status = Found then write_integer out (o_int (rs_out s)) else write_integer out 0) }"

definition cmd_getrange :: "resp_session \<Rightarrow> bytes list \<Rightarrow> bytes \<Rightarrow> (resp_session \<times> bytes) option" where
  "cmd_getrange s args out =
     (case (parse_i64 (args ! 2), parse_i64 (args ! 3)) of
        (Some a, Some e) \<Rightarrow>
          do { (status, s) \<leftarrow> s_read s (args ! 1) (input_read (GetRange a e) (rs_now_ms s));
               Some (s, if status = Found then write_bulk out (o_bytes (rs_out s)) else write_bulk out []) }
      | _ \<Rightarrow> Some (s, write_error out NOT_INTEGER))"

definition set_op :: "SetOpts \<Rightarrow> StringOp" where
  "set_op opts =
     (if so_get opts then SetGet (so_keep_ttl opts) else if so_nx opts then SetNx else if so_xx opts then SetXx
      else if so_keep_ttl opts then SetKeepTtl else Set)"

definition cmd_set :: "resp_session \<Rightarrow> bytes \<Rightarrow> bytes list \<Rightarrow> bytes \<Rightarrow> (resp_session \<times> bytes) option" where
  "cmd_set s raw args out =
     (if length args < 3 then Some (s, write_error out (str ''ERR wrong number of arguments for '' @ str [CHR 0x27] @ str ''set''
           @ str [CHR 0x27] @ str '' command''))
      else (case parse_set_opts (drop 3 args) (rs_now_ms s) of
              Inl e \<Rightarrow> Some (s, write_error out e)
            | Inr opts \<Rightarrow>
                (let key = args ! 1; op = set_op opts;
                     input = \<lparr>i_op = op, i_operand = args ! 2, i_delta = 0, i_expiration = so_expiration opts, i_now_ms = rs_now_ms s\<rparr>
                 in do { (status, s) \<leftarrow> (if op = Set then s_upsert s key input else s_rmw s key input);
                         let out = (if so_get opts then
                                      if o_has_bytes (rs_out s) then write_bulk out (o_bytes (rs_out s)) else out @ NULL_BULK
                                    else if op = Set \<or> is_updated status then out @ OK
                                    else out @ NULL_BULK)
                         in if is_updated status then do { s \<leftarrow> after_write s key raw; Some (s, out) } else Some (s, out) })))"

definition cmd_setnx :: "resp_session \<Rightarrow> bytes \<Rightarrow> bytes list \<Rightarrow> bytes \<Rightarrow> (resp_session \<times> bytes) option" where
  "cmd_setnx s raw args out =
     do { (status, s) \<leftarrow> s_rmw s (args ! 1) (input_simple SetNx (args ! 2) (rs_now_ms s));
          let ok = (status = Created); out = write_integer out (if ok then 1 else 0)
          in if ok then do { s \<leftarrow> after_write s (args ! 1) raw; Some (s, out) } else Some (s, out) }"

definition cmd_setex :: "resp_session \<Rightarrow> bytes \<Rightarrow> bytes list \<Rightarrow> bytes \<Rightarrow> bool \<Rightarrow> (resp_session \<times> bytes) option" where
  "cmd_setex s raw args out ms =
     (case parse_i64 (args ! 2) of
        Some t \<Rightarrow>
          if t > 0 then
            (let expires = i64_wrap (rs_now_ms s + (if ms then t else i64_wrap (t * 1000)));
                 input = \<lparr>i_op = Set, i_operand = args ! 3, i_delta = 0, i_expiration = expires, i_now_ms = rs_now_ms s\<rparr>
             in do { (status, s) \<leftarrow> s_upsert s (args ! 1) input; s \<leftarrow> after_write s (args ! 1) raw; Some (s, out @ OK) })
          else Some (s, write_error out (str ''ERR invalid expire time in '' @ str [CHR 0x27] @ str ''setex'' @ str [CHR 0x27] @ str '' command''))
      | None \<Rightarrow> Some (s, write_error out (str ''ERR invalid expire time in '' @ str [CHR 0x27] @ str ''setex'' @ str [CHR 0x27] @ str '' command'')))"

definition cmd_getset :: "resp_session \<Rightarrow> bytes \<Rightarrow> bytes list \<Rightarrow> bytes \<Rightarrow> (resp_session \<times> bytes) option" where
  "cmd_getset s raw args out =
     do { (status, s) \<leftarrow> s_rmw s (args ! 1) (input_simple (SetGet False) (args ! 2) (rs_now_ms s));
          let out = (if o_has_bytes (rs_out s) then write_bulk out (o_bytes (rs_out s)) else out @ NULL_BULK)
          in do { s \<leftarrow> after_write s (args ! 1) raw; Some (s, out) } }"

definition clear_bytes :: "resp_session \<Rightarrow> resp_session" where
  \<comment> \<open>\<open>output.bytes.clear()\<close>\<close>
  "clear_bytes s = s\<lparr>rs_out := (rs_out s)\<lparr>o_bytes := []\<rparr>\<rparr>"

definition cmd_getdel :: "resp_session \<Rightarrow> bytes \<Rightarrow> bytes list \<Rightarrow> bytes \<Rightarrow> (resp_session \<times> bytes) option" where
  "cmd_getdel s raw args out =
     do { (status, s) \<leftarrow> s_rmw (clear_bytes s) (args ! 1) (input_read GetDel (rs_now_ms s));
          if status = Deleted then do { s' \<leftarrow> after_write s (args ! 1) raw; Some (s', write_bulk out (o_bytes (rs_out s))) }
          else Some (s, out @ NULL_BULK) }"

fun getex_opts :: "int \<Rightarrow> bytes list \<Rightarrow> int \<Rightarrow> bytes + int" where
  \<comment> \<open>the \<open>while\<close> loop over \<open>args[2..]\<close>; the flag \<open>persist\<close> is only used by a debug assertion\<close>
  "getex_opts expires [] now_ms = Inr expires"
| "getex_opts expires (opt # args) now_ms =
     (if eq_ignore_ascii_case opt (str ''PERSIST'') then getex_opts expires args now_ms
      else if is_expiry_keyword opt then
        (case args of [] \<Rightarrow> Inl (str ''ERR syntax error'')
         | a # rest \<Rightarrow>
             (case parse_i64 a of None \<Rightarrow> Inl NOT_INTEGER
              | Some t \<Rightarrow> getex_opts (expire_at_ms opt t now_ms) rest now_ms))
      else Inl (str ''ERR syntax error''))"

definition cmd_getex :: "resp_session \<Rightarrow> bytes \<Rightarrow> bytes list \<Rightarrow> bytes \<Rightarrow> (resp_session \<times> bytes) option" where
  \<comment> \<open>with no key the option loop is empty and \<open>args[1]\<close> panics\<close>
  "cmd_getex s raw args out =
     (if length args = 2 then cmd_get s (args ! 1) out
      else (case getex_opts 0 (drop 2 args) (rs_now_ms s) of
              Inl e \<Rightarrow> Some (s, write_error out e)
            | Inr expires \<Rightarrow>
                if length args < 2 then None
                else do { (status, s) \<leftarrow> s_rmw (clear_bytes s) (args ! 1)
                            \<lparr>i_op = GetEx, i_operand = [], i_delta = 0, i_expiration = expires, i_now_ms = rs_now_ms s\<rparr>;
                          if is_updated status
                          then do { s' \<leftarrow> after_write s (args ! 1) raw; Some (s', write_bulk out (o_bytes (rs_out s))) }
                          else Some (s, out @ NULL_BULK) }))"

definition cmd_incr :: "resp_session \<Rightarrow> bytes \<Rightarrow> bytes \<Rightarrow> int \<Rightarrow> bytes \<Rightarrow> (resp_session \<times> bytes) option" where
  "cmd_incr s raw key delta out =
     do { (status, s) \<leftarrow> s_rmw s key
            \<lparr>i_op = IncrBy, i_operand = [], i_delta = delta, i_expiration = 0, i_now_ms = rs_now_ms s\<rparr>;
          if is_updated status then do { s' \<leftarrow> after_write s key raw; Some (s', write_integer out (o_int (rs_out s))) }
          else Some (s, write_error out NOT_INTEGER) }"

definition cmd_rmw_int :: "resp_session \<Rightarrow> bytes \<Rightarrow> bytes \<Rightarrow> StringOp \<Rightarrow> bytes \<Rightarrow> int \<Rightarrow> bytes \<Rightarrow> (resp_session \<times> bytes) option" where
  "cmd_rmw_int s raw key op operand delta out =
     do { (status, s) \<leftarrow> s_rmw s key
            \<lparr>i_op = op, i_operand = operand, i_delta = delta, i_expiration = 0, i_now_ms = rs_now_ms s\<rparr>;
          if is_updated status then do { s' \<leftarrow> after_write s key raw; Some (s', write_integer out (o_int (rs_out s))) }
          else Some (s, write_integer out 0) }"

definition cmd_setrange :: "resp_session \<Rightarrow> bytes \<Rightarrow> bytes list \<Rightarrow> bytes \<Rightarrow> (resp_session \<times> bytes) option" where
  "cmd_setrange s raw args out =
     (case parse_i64 (args ! 2) of
        Some off \<Rightarrow>
          if off \<ge> 0 then cmd_rmw_int s raw (args ! 1) (SetRange (nat off)) (args ! 3) 0 out
          else Some (s, write_error out (str ''ERR offset is out of range''))
      | None \<Rightarrow> Some (s, write_error out (str ''ERR offset is out of range'')))"

fun mset_loop :: "resp_session \<Rightarrow> (bytes \<times> bytes) list \<Rightarrow> resp_session option" where
  "mset_loop s [] = Some s"
| "mset_loop s ((key, value) # pairs) =
     do { (status, s) \<leftarrow> s_upsert s key (input_simple Set value (rs_now_ms s)); mset_loop (bump_watch s key) pairs }"

definition cmd_mset :: "resp_session \<Rightarrow> bytes \<Rightarrow> bytes list \<Rightarrow> bytes \<Rightarrow> (resp_session \<times> bytes) option" where
  "cmd_mset s raw args out =
     do { s \<leftarrow> mset_loop s (chunks2 (drop 1 args)); s \<leftarrow> log_write s raw; Some (s, out @ OK) }"

fun mget_loop :: "resp_session \<Rightarrow> bytes list \<Rightarrow> bytes \<Rightarrow> (resp_session \<times> bytes) option" where
  "mget_loop s [] out = Some (s, out)"
| "mget_loop s (key # keys) out = do { (s, out) \<leftarrow> cmd_get s key out; mget_loop s keys out }"

definition cmd_mget :: "resp_session \<Rightarrow> bytes list \<Rightarrow> bytes \<Rightarrow> (resp_session \<times> bytes) option" where
  "cmd_mget s args out = mget_loop s (drop 1 args) (write_array_header out (length args - 1))"

subsection \<open>Generic commands\<close>

fun del_loop :: "resp_session \<Rightarrow> bytes list \<Rightarrow> nat \<Rightarrow> (resp_session \<times> nat) option" where
  "del_loop s [] n = Some (s, n)"
| "del_loop s (key # keys) n =
     do { (status, s) \<leftarrow> s_delete s key;
          if status = Deleted then del_loop (bump_watch s key) keys (n + 1) else del_loop s keys n }"

definition cmd_del :: "resp_session \<Rightarrow> bytes \<Rightarrow> bytes list \<Rightarrow> bytes \<Rightarrow> (resp_session \<times> bytes) option" where
  "cmd_del s raw args out =
     do { (s, n) \<leftarrow> del_loop s (drop 1 args) 0;
          let out = write_integer out (int n)
          in if n > 0 then do { s \<leftarrow> log_write s raw; Some (s, out) } else Some (s, out) }"

fun exists_loop :: "resp_session \<Rightarrow> bytes list \<Rightarrow> nat \<Rightarrow> (resp_session \<times> nat) option" where
  "exists_loop s [] n = Some (s, n)"
| "exists_loop s (key # keys) n =
     do { (status, s) \<leftarrow> s_read s key (input_read Exists (rs_now_ms s));
          exists_loop s keys (if status = Found then n + 1 else n) }"

definition cmd_exists :: "resp_session \<Rightarrow> bytes list \<Rightarrow> bytes \<Rightarrow> (resp_session \<times> bytes) option" where
  "cmd_exists s args out = do { (s, n) \<leftarrow> exists_loop s (drop 1 args) 0; Some (s, write_integer out (int n)) }"

definition cmd_expire :: "resp_session \<Rightarrow> bytes \<Rightarrow> bytes \<Rightarrow> bytes \<Rightarrow> int \<Rightarrow> bool \<Rightarrow> bytes \<Rightarrow> (resp_session \<times> bytes) option" where
  "cmd_expire s raw key secs unit at out =
     (case parse_i64 secs of None \<Rightarrow> Some (s, write_error out NOT_INTEGER)
      | Some t \<Rightarrow>
          (let expires = (if at then i64_wrap (t * unit) else i64_wrap (rs_now_ms s + i64_wrap (t * unit)));
               input = \<lparr>i_op = Expire, i_operand = [], i_delta = 0, i_expiration = expires, i_now_ms = rs_now_ms s\<rparr>
           in do { (status, s) \<leftarrow> s_rmw s key input;
                   let ok = is_updated status; out = write_integer out (if ok then 1 else 0)
                   in if ok then do { s \<leftarrow> after_write s key raw; Some (s, out) } else Some (s, out) }))"

definition cmd_ttl :: "resp_session \<Rightarrow> bytes \<Rightarrow> bool \<Rightarrow> bytes \<Rightarrow> (resp_session \<times> bytes) option" where
  "cmd_ttl s key ms out =
     do { (status, s) \<leftarrow> s_read s key (input_read (Ttl ms) (rs_now_ms s));
          Some (s, if status = Found then write_integer out (o_int (rs_out s)) else write_integer out (-2)) }"

definition cmd_persist :: "resp_session \<Rightarrow> bytes \<Rightarrow> bytes \<Rightarrow> bytes \<Rightarrow> (resp_session \<times> bytes) option" where
  "cmd_persist s raw key out =
     do { (status, s) \<leftarrow> s_rmw s key
            \<lparr>i_op = Persist, i_operand = [], i_delta = 0, i_expiration = 0, i_now_ms = rs_now_ms s\<rparr>;
          let removed = (is_updated status \<and> o_has_int (rs_out s) \<and> o_int (rs_out s) = 1);
              out = write_integer out (if removed then 1 else 0)
          in if removed then do { s \<leftarrow> after_write s key raw; Some (s, out) } else Some (s, out) }"

definition cmd_type :: "resp_session \<Rightarrow> bytes \<Rightarrow> bytes \<Rightarrow> (resp_session \<times> bytes) option" where
  "cmd_type s key out =
     do { (status, s) \<leftarrow> s_read s key (input_read Exists (rs_now_ms s));
          Some (s, if status = Found then write_simple out (str ''string'') else write_simple out (str ''none'')) }"

fun matching_keys :: "bytes \<Rightarrow> (nat \<times> rec) list \<Rightarrow> bytes list option" where
  "matching_keys pattern [] = Some []"
| "matching_keys pattern ((a, r) # rs) =
     do { m \<leftarrow> glob_match pattern (r_key r); ks \<leftarrow> matching_keys pattern rs; Some (if m then r_key r # ks else ks) }"

definition cmd_keys :: "resp_session \<Rightarrow> bytes \<Rightarrow> bytes \<Rightarrow> (resp_session \<times> bytes) option" where
  "cmd_keys s pattern out =
     do { (rs, st) \<leftarrow> scan_live (the_store s) (s_tid (rs_store s));
          ks \<leftarrow> matching_keys pattern rs;
          Some (put_store s st (rs_store s) (rs_out s), fold (\<lambda>k out. write_bulk out k) ks (write_array_header out (length ks))) }"

definition scan_pattern :: "bytes list \<Rightarrow> bytes" where
  "scan_pattern args =
     fold (\<lambda>(name, value) pattern. if eq_ignore_ascii_case name (str ''MATCH'') then value else pattern)
       (chunks2 (drop 2 args)) (str ''*'')"

definition cmd_scan :: "resp_session \<Rightarrow> bytes list \<Rightarrow> bytes \<Rightarrow> (resp_session \<times> bytes) option" where
  "cmd_scan s args out = cmd_keys s (scan_pattern args) (write_bulk (write_array_header out 2) (str ''0''))"

subsection \<open>Transactions\<close>

definition set_txn :: "resp_session \<Rightarrow> TxnState \<Rightarrow> resp_session" where
  "set_txn s t = s\<lparr>rs_txn := t\<rparr>"

definition cmd_multi :: "resp_session \<Rightarrow> bytes \<Rightarrow> (resp_session \<times> bytes) option" where
  "cmd_multi s out =
     (if t_in_multi (rs_txn s) then Some (s, write_error out (str ''ERR MULTI calls can not be nested''))
      else Some (set_txn s ((rs_txn s)\<lparr>t_in_multi := True, t_dirty := False, t_queued := []\<rparr>), out @ OK))"

definition discard :: "resp_session \<Rightarrow> resp_session" where
  "discard s = set_txn s ((rs_txn s)\<lparr>t_in_multi := False, t_dirty := False, t_queued := [], t_watches := []\<rparr>)"

definition cmd_watch :: "resp_session \<Rightarrow> bytes list \<Rightarrow> bytes \<Rightarrow> (resp_session \<times> bytes) option" where
  "cmd_watch s args out =
     (if t_in_multi (rs_txn s) then Some (s, write_error out (str ''ERR WATCH inside MULTI is not allowed''))
      else Some (set_txn s ((rs_txn s)\<lparr>t_watches := t_watches (rs_txn s)
                    @ map (slot_version (sh_watch (rs_shared s))) (drop 1 args)\<rparr>), out @ OK))"

definition watch_conflict :: "resp_session \<Rightarrow> bool" where
  "watch_conflict s = list_ex (\<lambda>(slot, ver). version_at (sh_watch (rs_shared s)) slot \<noteq> ver) (t_watches (rs_txn s))"

definition lock_keys :: "bytes list \<Rightarrow> (bytes \<times> LockType) list" where
  "lock_keys queued = concat (map (\<lambda>q. case parse_ranges q of Some ranges \<Rightarrow> command_keys q ranges | None \<Rightarrow> []) queued)"

definition session_lock :: "resp_session \<Rightarrow> (bytes \<times> LockType) list \<Rightarrow> resp_session option" where
  "session_lock s keys =
     do { (st, ss) \<leftarrow> txn_lock (the_store s) (rs_store s) keys; Some (put_store s st ss (rs_out s)) }"

definition session_unlock :: "resp_session \<Rightarrow> resp_session" where
  "session_unlock s = (let (st, ss) = txn_unlock (the_store s) (rs_store s) in put_store s st ss (rs_out s))"

type_synonym runner = "resp_session \<Rightarrow> bytes \<Rightarrow> bytes \<Rightarrow> bytes list \<Rightarrow> bytes \<Rightarrow> (Action \<times> resp_session \<times> bytes) option"

fun exec_queued :: "runner \<Rightarrow> resp_session \<Rightarrow> bytes list \<Rightarrow> bytes \<Rightarrow> (resp_session \<times> bytes) option" where
  "exec_queued run s [] out = Some (s, out)"
| "exec_queued run s (q # qs) out =
     (case parse_ranges q of
        Some ranges \<Rightarrow>
          (case map (\<lambda>r. arg_bytes r q) ranges of [] \<Rightarrow> None \<comment> \<open>\<open>refs[0]\<close>\<close>
           | name # args \<Rightarrow>
               do { (action, s, out) \<leftarrow> run s (command_name name) q (name # args) out; exec_queued run s qs out })
      | None \<Rightarrow> exec_queued run s qs (write_error out (str ''ERR bad queued command'')))"

definition exec_transaction :: "runner \<Rightarrow> resp_session \<Rightarrow> bytes list \<Rightarrow> bytes \<Rightarrow> (resp_session \<times> bytes) option" where
  \<comment> \<open>from the write/read set to the commit record; \<open>replay\<close> takes no locks and logs nothing\<close>
  "exec_transaction run s queued out =
     (let out = write_array_header out (length queued) in
      if rs_replay s then exec_queued run s queued out
      else do { s \<leftarrow> session_lock s (lock_keys queued);
                s \<leftarrow> log_op s TxnStart [] False;
                (s, out) \<leftarrow> exec_queued run s queued out;
                s \<leftarrow> log_op (session_unlock s) TxnCommit [] True;
                Some (s, out) })"

definition cmd_exec :: "runner \<Rightarrow> resp_session \<Rightarrow> bytes \<Rightarrow> (resp_session \<times> bytes) option" where
  "cmd_exec run s out =
     (if \<not> t_in_multi (rs_txn s) then Some (s, write_error out (str ''ERR EXEC without MULTI''))
      else if t_dirty (rs_txn s)
      then Some (discard s, write_error out (str ''EXECABORT Transaction discarded because of previous errors.''))
      else if watch_conflict s then Some (discard s, out @ NULL_ARRAY)
      else
        (let queued = t_queued (rs_txn s);
             s = set_txn s ((rs_txn s)\<lparr>t_queued := [], t_in_multi := False, t_watches := []\<rparr>)
         in exec_transaction run s queued out))"

subsection \<open>Persistence and the rest\<close>

definition cmd_save :: "resp_session \<Rightarrow> bytes \<Rightarrow> (resp_session \<times> bytes) option" where
  "cmd_save s out =
     do { (r, sh) \<leftarrow> shared_checkpoint (rs_shared s);
          Some (s\<lparr>rs_shared := sh\<rparr>,
            case r of Inr _ \<Rightarrow> out @ OK | Inl e \<Rightarrow> write_error out (str ''ERR checkpoint failed: '' @ e)) }"

definition cmd_hello :: "bytes \<Rightarrow> bytes" where
  "cmd_hello out =
     write_integer (write_bulk (write_bulk (write_bulk (write_bulk (write_bulk (write_array_header out 6)
       (str ''server'')) (str ''mini-garnet'')) (str ''version'')) (str ''0.1.0'')) (str ''proto'')) 2"

definition cmd_dbsize :: "resp_session \<Rightarrow> bytes \<Rightarrow> (resp_session \<times> bytes) option" where
  "cmd_dbsize s out =
     do { (n, st) \<leftarrow> count_live (the_store s) (s_tid (rs_store s));
          Some (put_store s st (rs_store s) (rs_out s), write_integer out (int n)) }"

definition cmd_flush :: "resp_session \<Rightarrow> bytes \<Rightarrow> (resp_session \<times> bytes) option" where
  "cmd_flush s out =
     (let st = the_store s in Some (put_store s (st\<lparr>st_index := index_clear (st_index st)\<rparr>) (rs_store s) (rs_out s), out @ OK))"

definition cmd_discard :: "resp_session \<Rightarrow> bytes \<Rightarrow> (resp_session \<times> bytes) option" where
  "cmd_discard s out =
     (if t_in_multi (rs_txn s) then Some (discard s, out @ OK) else Some (s, write_error out (str ''ERR DISCARD without MULTI'')))"

definition unknown_command :: "bytes \<Rightarrow> bytes \<Rightarrow> bytes" where
  "unknown_command out name =
     write_error out (str ''ERR unknown command '' @ str [CHR 0x27] @ from_utf8_lossy name @ str [CHR 0x27]
       @ str '' or wrong number of arguments'')"

definition incr_by :: "resp_session \<Rightarrow> bytes \<Rightarrow> bytes list \<Rightarrow> (int \<Rightarrow> int) \<Rightarrow> bytes \<Rightarrow> (resp_session \<times> bytes) option" where
  \<comment> \<open>the arms of INCRBY and DECRBY\<close>
  "incr_by s raw args f out =
     (case parse_i64 (args ! 2) of Some d \<Rightarrow> cmd_incr s raw (args ! 1) (f d) out | None \<Rightarrow> Some (s, write_error out NOT_INTEGER))"

subsection \<open>The match on the command name\<close>

definition exec_server :: "resp_session \<Rightarrow> bytes \<Rightarrow> bytes list \<Rightarrow> bytes \<Rightarrow> (resp_session \<times> bytes) option option" where
  \<comment> \<open>connection and server commands; \<open>None\<close>: another arm\<close>
  "exec_server s cmd args out =
     (if cmd = str ''PING'' then Some (Some (s, if 2 \<le> length args then write_bulk out (args ! 1) else out @ PONG))
      else if cmd = str ''ECHO'' \<and> length args = 2 then Some (Some (s, write_bulk out (args ! 1)))
      else if cmd = str ''SELECT'' then Some (Some (s, out @ OK))
      else if cmd = str ''HELLO'' then Some (Some (s, cmd_hello out))
      else if cmd = str ''COMMAND'' then Some (Some (s, out @ EMPTY_ARRAY))
      else if cmd = str ''CONFIG'' then Some (Some (s, out @ EMPTY_ARRAY))
      else if cmd = str ''CLIENT'' then Some (Some (s, out @ OK))
      else if cmd = str ''INFO'' then Some (Some (s, write_bulk out (str ''# Server'' @ CRLF @ str ''mini_garnet:1'' @ CRLF)))
      else if cmd = str ''RESET'' then Some (Some (discard s, write_simple out (str ''RESET'')))
      else if cmd = str ''DBSIZE'' then Some (cmd_dbsize s out)
      else if cmd = str ''FLUSHDB'' \<or> cmd = str ''FLUSHALL'' then Some (cmd_flush s out)
      else None)"

definition exec_string :: "resp_session \<Rightarrow> bytes \<Rightarrow> bytes \<Rightarrow> bytes list \<Rightarrow> bytes \<Rightarrow> (resp_session \<times> bytes) option option" where
  "exec_string s cmd raw args out =
     (if cmd = str ''GET'' \<and> length args = 2 then Some (cmd_get s (args ! 1) out)
      else if cmd = str ''SET'' then Some (cmd_set s raw args out)
      else if cmd = str ''SETNX'' \<and> length args = 3 then Some (cmd_setnx s raw args out)
      else if cmd = str ''SETEX'' \<and> length args = 4 then Some (cmd_setex s raw args out False)
      else if cmd = str ''PSETEX'' \<and> length args = 4 then Some (cmd_setex s raw args out True)
      else if cmd = str ''GETSET'' \<and> length args = 3 then Some (cmd_getset s raw args out)
      else if cmd = str ''GETDEL'' \<and> length args = 2 then Some (cmd_getdel s raw args out)
      else if cmd = str ''GETEX'' then Some (cmd_getex s raw args out)
      else if cmd = str ''APPEND'' \<and> length args = 3 then Some (cmd_rmw_int s raw (args ! 1) Append (args ! 2) 0 out)
      else if cmd = str ''STRLEN'' \<and> length args = 2 then Some (cmd_read_int s (args ! 1) Strlen out)
      else if (cmd = str ''GETRANGE'' \<or> cmd = str ''SUBSTR'') \<and> length args = 4 then Some (cmd_getrange s args out)
      else if cmd = str ''SETRANGE'' \<and> length args = 4 then Some (cmd_setrange s raw args out)
      else if cmd = str ''INCR'' \<and> length args = 2 then Some (cmd_incr s raw (args ! 1) 1 out)
      else if cmd = str ''DECR'' \<and> length args = 2 then Some (cmd_incr s raw (args ! 1) (-1) out)
      else if cmd = str ''INCRBY'' \<and> length args = 3 then Some (incr_by s raw args id out)
      else if cmd = str ''DECRBY'' \<and> length args = 3 then Some (incr_by s raw args (\<lambda>d. i64_wrap (- d)) out)
      else if cmd = str ''MSET'' \<and> 3 \<le> length args \<and> length args mod 2 = 1 then Some (cmd_mset s raw args out)
      else if cmd = str ''MGET'' \<and> 2 \<le> length args then Some (cmd_mget s args out)
      else None)"

definition exec_generic :: "resp_session \<Rightarrow> bytes \<Rightarrow> bytes \<Rightarrow> bytes list \<Rightarrow> bytes \<Rightarrow> (resp_session \<times> bytes) option option" where
  "exec_generic s cmd raw args out =
     (if (cmd = str ''DEL'' \<or> cmd = str ''UNLINK'') \<and> 2 \<le> length args then Some (cmd_del s raw args out)
      else if cmd = str ''EXISTS'' \<and> 2 \<le> length args then Some (cmd_exists s args out)
      else if cmd = str ''EXPIRE'' \<and> length args = 3 then Some (cmd_expire s raw (args ! 1) (args ! 2) 1000 False out)
      else if cmd = str ''PEXPIRE'' \<and> length args = 3 then Some (cmd_expire s raw (args ! 1) (args ! 2) 1 False out)
      else if cmd = str ''EXPIREAT'' \<and> length args = 3 then Some (cmd_expire s raw (args ! 1) (args ! 2) 1000 True out)
      else if cmd = str ''PEXPIREAT'' \<and> length args = 3 then Some (cmd_expire s raw (args ! 1) (args ! 2) 1 True out)
      else if cmd = str ''TTL'' \<and> length args = 2 then Some (cmd_ttl s (args ! 1) False out)
      else if cmd = str ''PTTL'' \<and> length args = 2 then Some (cmd_ttl s (args ! 1) True out)
      else if cmd = str ''PERSIST'' \<and> length args = 2 then Some (cmd_persist s raw (args ! 1) out)
      else if cmd = str ''TYPE'' \<and> length args = 2 then Some (cmd_type s (args ! 1) out)
      else if cmd = str ''KEYS'' \<and> length args = 2 then Some (cmd_keys s (args ! 1) out)
      else if cmd = str ''SCAN'' \<and> 2 \<le> length args then Some (cmd_scan s args out)
      else None)"

definition exec_session :: "runner \<Rightarrow> resp_session \<Rightarrow> bytes \<Rightarrow> bytes list \<Rightarrow> bytes \<Rightarrow> (resp_session \<times> bytes) option option" where
  "exec_session run s cmd args out =
     (if cmd = str ''MULTI'' then Some (cmd_multi s out)
      else if cmd = str ''EXEC'' then Some (cmd_exec run s out)
      else if cmd = str ''DISCARD'' then Some (cmd_discard s out)
      else if cmd = str ''WATCH'' \<and> 2 \<le> length args then Some (cmd_watch s args out)
      else if cmd = str ''UNWATCH'' then Some (Some (set_txn s ((rs_txn s)\<lparr>t_watches := []\<rparr>), out @ OK))
      else if cmd = str ''SAVE'' \<or> cmd = str ''BGSAVE'' then Some (cmd_save s out)
      else if cmd = str ''BGREWRITEAOF'' then Some (Some (s, out @ OK))
      else if cmd = str ''LASTSAVE'' then Some (Some (s, write_integer out (i64_div (last_save_ms (rs_shared s)) 1000)))
      else None)"

definition first_arm :: "'a option \<Rightarrow> 'a option \<Rightarrow> 'a option" where
  "first_arm x y = (case x of None \<Rightarrow> y | Some _ \<Rightarrow> x)"

definition exec_with :: "runner \<Rightarrow> runner" where
  "exec_with run s cmd raw args out =
     (if cmd = str ''QUIT'' then Some (CloseConn, s, out @ OK)
      else (case first_arm (exec_server s cmd args out) (first_arm (exec_string s cmd raw args out)
                  (first_arm (exec_generic s cmd raw args out) (exec_session run s cmd args out))) of
              Some r \<Rightarrow> do { (s, out) \<leftarrow> r; Some (Continue, s, out) }
            | None \<Rightarrow> if args = [] then None else Some (Continue, s, unknown_command out (hd args))))"

definition exec_command :: runner where
  "exec_command = exec_with (exec_with (\<lambda>s cmd raw args out. None))"

subsection \<open>Entry points\<close>

definition is_control :: "bytes \<Rightarrow> bool" where
  "is_control cmd \<longleftrightarrow>
     List.member [str ''EXEC'', str ''DISCARD'', str ''MULTI'', str ''WATCH'', str ''RESET'', str ''QUIT''] cmd"

definition dispatch :: "resp_session \<Rightarrow> bytes \<Rightarrow> bytes list \<Rightarrow> bytes \<Rightarrow> (Action \<times> resp_session \<times> bytes) option" where
  "dispatch s raw args out =
     (if args = [] then Some (Continue, s, out)
      else
        (let s = (if rs_replay s then s else s\<lparr>rs_now_ms := shared_now_ms (rs_shared s)\<rparr>); cmd = command_name (hd args) in
         if t_in_multi (rs_txn s) \<and> \<not> is_control cmd then
           (case validate_queueable cmd of
              Some err \<Rightarrow> Some (Continue, set_txn s ((rs_txn s)\<lparr>t_dirty := True\<rparr>), write_error out err)
            | None \<Rightarrow> Some (Continue, set_txn s ((rs_txn s)\<lparr>t_queued := t_queued (rs_txn s) @ [raw]\<rparr>), out @ QUEUED))
         else exec_command s cmd raw args out))"

definition encode_parts :: "bytes list \<Rightarrow> bytes" where
  "encode_parts parts = fold (\<lambda>p raw. write_bulk raw p) parts (write_array_header [] (length parts))"

definition run :: "resp_session \<Rightarrow> bytes list \<Rightarrow> (resp_session \<times> bytes) option" where
  "run s parts =
     (let raw = encode_parts parts in
      case parse_command raw 0 of
        Inr (Some (_, slices)) \<Rightarrow> map_option (\<lambda>(_, s, out). (s, out)) (dispatch s raw (map (\<lambda>a. arg_bytes a raw) slices) [])
      | _ \<Rightarrow> Some (s, []))"

definition dispatch_replay :: "resp_session \<Rightarrow> bytes \<Rightarrow> bytes list \<Rightarrow> int \<Rightarrow> bytes \<Rightarrow> (resp_session \<times> bytes) option" where
  "dispatch_replay s raw args ts out =
     map_option (\<lambda>(_, s, out). (s, out))
       (exec_command (s\<lparr>rs_now_ms := ts\<rparr>) (command_name (if args = [] then [] else hd args)) raw args out)"

definition replay_multi_begin :: "resp_session \<Rightarrow> int \<Rightarrow> resp_session" where
  "replay_multi_begin s ts =
     set_txn (s\<lparr>rs_now_ms := ts\<rparr>) ((rs_txn s)\<lparr>t_in_multi := True, t_dirty := False, t_queued := []\<rparr>)"

definition replay_multi_exec :: "resp_session \<Rightarrow> bytes \<Rightarrow> (resp_session \<times> bytes) option" where
  "replay_multi_exec s out = cmd_exec exec_command s out"

end
