(* ===== verification/CommandFrame.thy ===== *)
theory CommandFrame
  imports Commands
begin

text \<open>
  What the data commands may change. A data command moves the session by four primitive steps: an operation of the store, a
  bump of a watch version, an append to the operation log and a reset of the output scratch. A reflexive and
  transitive relation that these steps respect therefore relates the session before and after every data command.
\<close>

lemma bind_Some_pair: "Option.bind x (\<lambda>(a, b). f a b) = Some y \<Longrightarrow> (\<And>a b. x = Some (a, b) \<Longrightarrow> f a b = Some y \<Longrightarrow> P) \<Longrightarrow> P"
  by (cases x) auto

locale command_effect =
  fixes rel :: "resp_session \<Rightarrow> resp_session \<Rightarrow> bool"
  assumes refl: "rel s s" and trans: "rel s t \<Longrightarrow> rel t u \<Longrightarrow> rel s u"
    and put: "rel s (put_store s st ss out)" and bump: "rel s (bump_watch s key)" and logged: "rel s (set_aof s a)"
    and cleared: "rel s (clear_bytes s)"
begin

lemma store_ops:
  "s_read s key i = Some (x, s') \<Longrightarrow> rel s s'" "s_upsert s key i = Some (x, s') \<Longrightarrow> rel s s'"
  "s_rmw s key i = Some (x, s') \<Longrightarrow> rel s s'" "s_delete s key = Some (x, s') \<Longrightarrow> rel s s'"
  by (auto simp: s_read_def s_upsert_def s_rmw_def s_delete_def put split: bind_splits)

lemma log_op_rel: "log_op s op raw w = Some s' \<Longrightarrow> rel s s'"
  by (auto simp: log_op_def Let_def refl logged split: option.splits prod.splits if_splits bind_splits)

lemma log_write_rel: "log_write s raw = Some s' \<Longrightarrow> rel s s'"
  by (auto simp: log_write_def refl log_op_rel split: if_splits)

lemma after_write_rel: "after_write s key raw = Some s' \<Longrightarrow> rel s s'"
  unfolding after_write_def by (rule trans [OF bump log_write_rel])

lemma bump_rel: "rel (bump_watch s key) t \<Longrightarrow> rel s t"
  by (rule trans [OF bump])

lemma clear_rel: "rel (clear_bytes s) t \<Longrightarrow> rel s t"
  by (rule trans [OF cleared])

lemmas steps = store_ops log_write_rel after_write_rel

lemma get_cmd: "cmd_get s key out = Some (s', out') \<Longrightarrow> rel s s'"
  by (auto simp: cmd_get_def dest!: steps intro: refl trans split: bind_splits)

lemma read_cmds:
  "cmd_read_int s key op out = Some (s', out') \<Longrightarrow> rel s s'" "cmd_getrange s args out = Some (s', out') \<Longrightarrow> rel s s'"
  "cmd_ttl s key ms out = Some (s', out') \<Longrightarrow> rel s s'" "cmd_type s key out = Some (s', out') \<Longrightarrow> rel s s'"
  by (auto simp: cmd_read_int_def cmd_getrange_def cmd_ttl_def cmd_type_def dest!: steps intro: refl trans split: bind_splits option.splits)

lemma set_cmd: "cmd_set s raw args out = Some (s', out') \<Longrightarrow> rel s s'"
  by (auto simp: cmd_set_def Let_def dest!: steps intro: refl trans split: if_splits sum.splits bind_splits)

lemma write_cmds:
  "cmd_setnx s raw args out = Some (s', out') \<Longrightarrow> rel s s'" "cmd_setex s raw args out ms = Some (s', out') \<Longrightarrow> rel s s'"
  "cmd_getset s raw args out = Some (s', out') \<Longrightarrow> rel s s'" "cmd_getdel s raw args out = Some (s', out') \<Longrightarrow> rel s s'"
  by (auto simp: cmd_setnx_def cmd_setex_def cmd_getset_def cmd_getdel_def Let_def dest!: steps clear_rel intro: refl trans
      split: if_splits option.splits bind_splits)

lemma getex_cmd: "cmd_getex s raw args out = Some (s', out') \<Longrightarrow> rel s s'"
  by (auto simp: cmd_getex_def dest!: steps clear_rel get_cmd intro: refl trans split: if_splits sum.splits bind_splits)

lemma incr_cmd: "cmd_incr s raw key d out = Some (s', out') \<Longrightarrow> rel s s'"
  by (auto simp: cmd_incr_def dest!: steps intro: refl trans split: if_splits bind_splits)

lemma rmw_cmd: "cmd_rmw_int s raw key op v d out = Some (s', out') \<Longrightarrow> rel s s'"
  by (auto simp: cmd_rmw_int_def dest!: steps intro: refl trans split: if_splits bind_splits)

lemma more_writes:
  "cmd_setrange s raw args out = Some (s', out') \<Longrightarrow> rel s s'" "incr_by s raw args f out = Some (s', out') \<Longrightarrow> rel s s'"
  "cmd_expire s raw key secs u at out = Some (s', out') \<Longrightarrow> rel s s'" "cmd_persist s raw key out = Some (s', out') \<Longrightarrow> rel s s'"
  by (auto simp: cmd_setrange_def incr_by_def cmd_expire_def cmd_persist_def Let_def dest!: steps rmw_cmd incr_cmd intro: refl trans
      split: if_splits option.splits bind_splits)

lemma mset_rel: "mset_loop s ps = Some s' \<Longrightarrow> rel s s'"
proof (induction ps arbitrary: s)
  case (Cons p ps)
  obtain x s1 where "s_upsert s (fst p) (input_simple Set (snd p) (rs_now_ms s)) = Some (x, s1)" "mset_loop (bump_watch s1 (fst p)) ps = Some s'"
    using Cons.prems by (cases p) (auto split: bind_splits)
  then show ?case using Cons.IH bump_rel store_ops(2) trans by blast
qed (simp add: refl)

lemma mget_rel: "mget_loop s ks out = Some (s', out') \<Longrightarrow> rel s s'"
proof (induction s ks out rule: mget_loop.induct)
  case (2 s key ks out)
  then show ?case by (auto dest!: get_cmd intro: trans split: bind_splits)
qed (simp add: refl)

lemma del_rel: "del_loop s ks n = Some (s', n') \<Longrightarrow> rel s s'"
proof (induction ks arbitrary: s n)
  case (Cons k ks)
  obtain x s1 where "s_delete s k = Some (x, s1)" "(if x = Deleted then del_loop (bump_watch s1 k) ks (n + 1) else del_loop s1 ks n) = Some (s', n')"
    using Cons.prems by (auto split: bind_splits)
  then show ?case using Cons.IH bump_rel store_ops(4) trans by (metis (full_types))
qed (simp add: refl)

lemma exists_rel: "exists_loop s ks n = Some (s', n') \<Longrightarrow> rel s s'"
proof (induction s ks n rule: exists_loop.induct)
  case (2 s key ks n)
  then show ?case by (auto dest!: store_ops intro: trans split: bind_splits if_splits)
qed (simp add: refl)

lemma multi_key_cmds:
  "cmd_mset s raw args out = Some (s', out') \<Longrightarrow> rel s s'" "cmd_mget s args out = Some (s', out') \<Longrightarrow> rel s s'"
  "cmd_del s raw args out = Some (s', out') \<Longrightarrow> rel s s'" "cmd_exists s args out = Some (s', out') \<Longrightarrow> rel s s'"
  by (auto simp: cmd_mset_def cmd_mget_def cmd_del_def cmd_exists_def Let_def
      dest!: mset_rel mget_rel del_rel exists_rel log_write_rel intro: trans split: bind_splits if_splits)

lemma scan_cmds:
  "cmd_keys s p out = Some (s', out') \<Longrightarrow> rel s s'" "cmd_scan s args out = Some (s', out') \<Longrightarrow> rel s s'"
  "cmd_dbsize s out = Some (s', out') \<Longrightarrow> rel s s'" "cmd_flush s out = Some (s', out') \<Longrightarrow> rel s s'"
  by (auto simp: cmd_keys_def cmd_scan_def cmd_dbsize_def cmd_flush_def Let_def put split: bind_splits)

lemma string_arm: "exec_string s cmd raw args out = Some (Some (s', out')) \<Longrightarrow> rel s s'"
  by (auto simp: exec_string_def intro: get_cmd set_cmd write_cmds getex_cmd rmw_cmd read_cmds more_writes incr_cmd multi_key_cmds
      split: if_splits)

lemma generic_arm: "exec_generic s cmd raw args out = Some (Some (s', out')) \<Longrightarrow> rel s s'"
  by (auto simp: exec_generic_def intro: multi_key_cmds more_writes read_cmds scan_cmds split: if_splits)

end

end
