(* ===== verification/CommandLaws.thy ===== *)
theory CommandLaws
  imports CommandFrame
begin

text \<open>
  Laws of command dispatch: EXEC nests at most once, so \<open>exec_command\<close> is the recursive function of the source; the
  versions of watched keys and what EXEC makes of them; queuing inside MULTI.
\<close>

subsection \<open>What data commands keep\<close>

definition same_conn :: "resp_session \<Rightarrow> resp_session \<Rightarrow> bool" where
  "same_conn s s' \<longleftrightarrow> rs_txn s' = rs_txn s \<and> rs_now_ms s' = rs_now_ms s \<and> rs_replay s' = rs_replay s
     \<and> sh_config (rs_shared s') = sh_config (rs_shared s) \<and> sh_aof_commit_wait (rs_shared s') = sh_aof_commit_wait (rs_shared s)"

interpretation conn: command_effect same_conn
  by unfold_locales (auto simp: same_conn_def put_store_def bump_watch_def set_aof_def clear_bytes_def)

definition bump_keys :: "bytes list \<Rightarrow> watch_table \<Rightarrow> watch_table" where
  "bump_keys ks w = fold (\<lambda>k w. watch_bump w k) ks w"

definition watch_grows :: "resp_session \<Rightarrow> resp_session \<Rightarrow> bool" where
  "watch_grows s s' \<longleftrightarrow> (\<exists>ks. sh_watch (rs_shared s') = bump_keys ks (sh_watch (rs_shared s)))"

lemma watch_growsI: "sh_watch (rs_shared s') = bump_keys ks (sh_watch (rs_shared s)) \<Longrightarrow> watch_grows s s'"
  by (auto simp: watch_grows_def)

interpretation grows: command_effect watch_grows
proof
  show "watch_grows s u" if st: "watch_grows s t" and tu: "watch_grows t u" for s t u
  proof -
    obtain k1 k2 where "sh_watch (rs_shared t) = bump_keys k1 (sh_watch (rs_shared s))" "sh_watch (rs_shared u) = bump_keys k2 (sh_watch (rs_shared t))"
      using st tu by (auto simp: watch_grows_def)
    then show ?thesis by (intro watch_growsI [of _ "k1 @ k2"]) (simp add: bump_keys_def)
  qed
  show "watch_grows s (bump_watch s key)" for s key
    by (rule watch_growsI [of _ "[key]"]) (simp add: bump_keys_def bump_watch_def)
qed (rule watch_growsI [of _ "[]"], simp add: bump_keys_def put_store_def set_aof_def clear_bytes_def)+

subsection \<open>EXEC nests once\<close>

abbreviation no_queue :: "resp_session \<Rightarrow> bool" where
  "no_queue s \<equiv> t_queued (rs_txn s) = []"

lemma log_op_txn: "log_op s op raw w = Some s' \<Longrightarrow> rs_txn s' = rs_txn s"
  using conn.log_op_rel by (auto simp: same_conn_def)

lemma lock_txn: "session_lock s ks = Some s' \<Longrightarrow> rs_txn s' = rs_txn s" "rs_txn (session_unlock s) = rs_txn s"
  by (auto simp: session_lock_def session_unlock_def put_store_def split: bind_splits prod.splits)

lemma exec_empty_queue:
  assumes "exec_transaction r s [] out = Some (s', out')"
  shows "rs_txn s' = rs_txn s"
proof (cases "rs_replay s")
  case False
  then obtain s1 s2 where "session_lock s (lock_keys []) = Some s1" "log_op s1 TxnStart [] False = Some s2"
    "log_op (session_unlock s2) TxnCommit [] True = Some s'"
    using assms by (auto simp: exec_transaction_def Let_def split: bind_splits)
  then show ?thesis using lock_txn log_op_txn by metis
qed (use assms in \<open>simp add: exec_transaction_def\<close>)

lemma cmd_exec_no_queue:
  assumes "no_queue s" and "cmd_exec r s out = Some (s', out')"
  shows "no_queue s'"
  using assms exec_empty_queue [of r "set_txn s ((rs_txn s)\<lparr>t_queued := [], t_in_multi := False, t_watches := []\<rparr>)" out s' out']
  by (auto simp: cmd_exec_def discard_def set_txn_def Let_def split: if_splits)

lemma server_arm_queue: "no_queue s \<Longrightarrow> exec_server s cmd args out = Some (Some (s', out')) \<Longrightarrow> no_queue s'"
  using conn.scan_cmds(3,4)
  by (auto simp: exec_server_def discard_def set_txn_def same_conn_def split: if_splits)

lemma save_txn: "cmd_save s out = Some (s', out') \<Longrightarrow> rs_txn s' = rs_txn s"
  by (auto simp: cmd_save_def split: bind_splits)

lemma session_arm_queue: "no_queue s \<Longrightarrow> exec_session r s cmd args out = Some (Some (s', out')) \<Longrightarrow> no_queue s'"
  by (auto simp: exec_session_def cmd_multi_def cmd_discard_def cmd_watch_def discard_def set_txn_def save_txn
      dest: cmd_exec_no_queue split: if_splits)

definition arm :: "runner \<Rightarrow> resp_session \<Rightarrow> bytes \<Rightarrow> bytes \<Rightarrow> bytes list \<Rightarrow> bytes \<Rightarrow> (resp_session \<times> bytes) option option" where
  \<comment> \<open>the arm of the match that a command takes\<close>
  "arm r s cmd raw args out =
     first_arm (exec_server s cmd args out) (first_arm (exec_string s cmd raw args out)
       (first_arm (exec_generic s cmd raw args out) (exec_session r s cmd args out)))"

lemma arm_cases:
  "arm r s cmd raw args out = Some x \<Longrightarrow> exec_server s cmd args out = Some x \<or> exec_string s cmd raw args out = Some x
     \<or> exec_generic s cmd raw args out = Some x \<or> exec_session r s cmd args out = Some x"
  by (simp add: arm_def first_arm_def split: option.splits)

lemma exec_with_arm:
  assumes "exec_with r s cmd raw args out = Some (a, s', out')"
  shows "s' = s \<or> arm r s cmd raw args out = Some (Some (s', out'))"
proof (cases "cmd = str ''QUIT'' \<or> arm r s cmd raw args out = None")
  case True
  then show ?thesis using assms unfolding exec_with_def arm_def [symmetric] by (auto split: if_splits)
next
  case False
  then obtain x where "arm r s cmd raw args out = Some x" by blast
  then show ?thesis using assms False unfolding exec_with_def arm_def [symmetric] by (auto split: bind_splits)
qed

lemma exec_with_queue:
  assumes q: "no_queue s" and e: "exec_with r s cmd raw args out = Some (a, s', out')"
  shows "no_queue s'"
proof -
  have keep: "no_queue s'" if "same_conn s s'" using q that by (simp add: same_conn_def)
  from exec_with_arm [OF e] show ?thesis
    using q keep arm_cases server_arm_queue session_arm_queue conn.string_arm conn.generic_arm by metis
qed

lemma exec_with_runner: "no_queue s \<Longrightarrow> exec_with r s cmd raw args out = exec_with r' s cmd raw args out"
  by (simp add: exec_with_def exec_session_def cmd_exec_def exec_transaction_def Let_def)

lemma exec_queued_runner: "no_queue s \<Longrightarrow> exec_queued (exec_with r) s qs out = exec_queued (exec_with r') s qs out"
proof (induction qs arbitrary: s out)
  case (Cons q qs)
  show ?case
  proof (cases "parse_ranges q")
    case (Some ranges)
    show ?thesis
    proof (cases "map (\<lambda>r. arg_bytes r q) ranges")
      case (Cons name args)
      note eq = exec_with_runner [OF Cons.prems, of r "command_name name" q "name # args" out r']
      show ?thesis
      proof (cases "exec_with r' s (command_name name) q (name # args) out")
        case (Some x)
        obtain a s1 out1 where x: "x = (a, s1, out1)" by (cases x)
        then have "no_queue s1" using exec_with_queue [OF Cons.prems] Some by simp
        from Cons.IH [OF this] show ?thesis using Some x eq \<open>parse_ranges q = Some ranges\<close> Cons by simp
      qed (use eq Some Cons in simp)
    qed (use Some in simp)
  qed (use Cons in simp)
qed simp

lemma bind_same: "(\<And>x. m = Some x \<Longrightarrow> f x = g x) \<Longrightarrow> Option.bind m f = Option.bind m g"
  by (cases m) auto

lemma exec_transaction_runner:
  assumes "no_queue s"
  shows "exec_transaction (exec_with r) s qs out = exec_transaction (exec_with r') s qs out"
proof (cases "rs_replay s")
  case True
  then show ?thesis using exec_queued_runner [OF assms] by (simp add: exec_transaction_def Let_def)
next
  case False
  have "no_queue s2" if "session_lock s ks = Some s1" "log_op s1 TxnStart [] False = Some s2" for ks s1 s2
    using that lock_txn log_op_txn assms by metis
  then have "exec_queued (exec_with r) s2 qs out = exec_queued (exec_with r') s2 qs out"
    if "session_lock s ks = Some s1" "log_op s1 TxnStart [] False = Some s2" for ks s1 s2 out
    using that exec_queued_runner by blast
  then show ?thesis
    using False unfolding exec_transaction_def Let_def by (cases "session_lock s (lock_keys qs)") (auto intro: bind_same)
qed

lemma cmd_exec_runner: "cmd_exec (exec_with r) s out = cmd_exec (exec_with r') s out"
proof -
  have "no_queue (set_txn s ((rs_txn s)\<lparr>t_queued := [], t_in_multi := False, t_watches := []\<rparr>))" by (simp add: set_txn_def)
  from exec_transaction_runner [OF this, of r _ _ r'] show ?thesis by (simp add: cmd_exec_def Let_def)
qed

lemma exec_with_twice: "exec_with (exec_with r) = exec_with (exec_with r')"
proof (intro ext)
  fix s cmd raw args out
  have "exec_session (exec_with r) s cmd args out = exec_session (exec_with r') s cmd args out"
    using cmd_exec_runner [of r s out r'] by (simp add: exec_session_def)
  then show "exec_with (exec_with r) s cmd raw args out = exec_with (exec_with r') s cmd raw args out"
    by (simp add: exec_with_def)
qed

subsection \<open>Watched keys\<close>

lemma bump_keys_Cons [simp]: "bump_keys [] w = w" "bump_keys (k # ks) w = bump_keys ks (watch_bump w k)"
  by (simp_all add: bump_keys_def)

lemma bump_keys_slot [simp]: "slot_of (bump_keys ks w) k = slot_of w k" "watch_ok (bump_keys ks w) = watch_ok w"
  by (induction ks arbitrary: w) simp_all

lemma version_bump_keys:
  "watch_ok w \<Longrightarrow> version_at (bump_keys ks w) i = version_at w i + of_nat (length (filter (\<lambda>k. slot_of w k = i) ks))"
  by (induction ks arbitrary: w) (auto simp: version_at_bump)

lemma version_changed:
  assumes "watch_ok w" and "length ks < 2 ^ 64"
  shows "version_at (bump_keys ks w) i \<noteq> version_at w i \<longleftrightarrow> i \<in> slot_of w ` set ks"
proof -
  let ?n = "length (filter (\<lambda>k. slot_of w k = i) ks)"
  have "?n < 2 ^ 64" using assms(2) length_filter_le [of "\<lambda>k. slot_of w k = i" ks] by linarith
  then have "unat (of_nat ?n :: u64) = ?n" by (rule unat_of_nat_u64)
  then have "(of_nat ?n :: u64) = 0 \<longleftrightarrow> ?n = 0" using unat_eq_zero [of "of_nat ?n :: u64"] by simp
  moreover have "?n = 0 \<longleftrightarrow> i \<notin> slot_of w ` set ks" by (auto simp: filter_empty_conv)
  ultimately show ?thesis by (simp add: version_bump_keys [OF assms(1)])
qed

lemma slot_version_alt: "slot_version w = (\<lambda>k. (slot_of w k, version_at w (slot_of w k)))"
  by (simp add: fun_eq_iff slot_version_def version_at_def Let_def)

lemma conflict_iff:
  assumes "watch_ok w" and "length ks < 2 ^ 64" and "sh_watch (rs_shared e) = bump_keys ks w"
    and "t_watches (rs_txn e) = map (slot_version w) keys"
  shows "watch_conflict e \<longleftrightarrow> (\<exists>k \<in> set keys. slot_of w k \<in> slot_of w ` set ks)"
proof -
  have "watch_conflict e \<longleftrightarrow> (\<exists>k \<in> set keys. version_at (bump_keys ks w) (slot_of w k) \<noteq> version_at w (slot_of w k))"
    unfolding watch_conflict_def assms(3,4) list_ex_iff slot_version_alt by simp
  then show ?thesis using version_changed [OF assms(1,2)] by simp
qed

lemma names_simps [simp]:
  "command_name (str ''EXEC'') = str ''EXEC''" "command_name (str ''WATCH'') = str ''WATCH''" "command_name (str ''MULTI'') = str ''MULTI''"
  by (simp_all add: command_name_def MAX_CMD_NAME_def ascii_upper_def)

lemma exec_EXEC: "exec_command s (str ''EXEC'') raw args out = do { (s, out) \<leftarrow> cmd_exec exec_command s out; Some (Continue, s, out) }"
proof -
  have "exec_command s (str ''EXEC'') raw args out =
      do { (s, out) \<leftarrow> cmd_exec (exec_with (\<lambda>s cmd raw args out. None)) s out; Some (Continue, s, out) }"
    unfolding exec_command_def
    by (subst exec_with_def) (simp add: first_arm_def exec_server_def exec_string_def exec_generic_def exec_session_def)
  also have "cmd_exec (exec_with (\<lambda>s cmd raw args out. None)) s out = cmd_exec exec_command s out"
    unfolding exec_command_def by (rule cmd_exec_runner)
  finally show ?thesis .
qed

lemma exec_WATCH:
  "2 \<le> length args \<Longrightarrow> exec_command s (str ''WATCH'') raw args out = do { (s, out) \<leftarrow> cmd_watch s args out; Some (Continue, s, out) }"
  unfolding exec_command_def
  by (subst exec_with_def) (simp add: first_arm_def exec_server_def exec_string_def exec_generic_def exec_session_def)

lemma dispatch_control:
  assumes "args \<noteq> []" and "is_control (command_name (hd args))"
  shows "dispatch s raw args out = exec_command (if rs_replay s then s else s\<lparr>rs_now_ms := shared_now_ms (rs_shared s)\<rparr>)
    (command_name (hd args)) raw args out"
  using assms by (simp add: dispatch_def Let_def)

lemma dispatch_WATCH:
  assumes n: "command_name name = str ''WATCH''" and ks: "keys \<noteq> []" and m: "\<not> t_in_multi (rs_txn a)"
    and d: "dispatch a raw (name # keys) out = Some (act, a1, out1)"
  shows "rs_txn a1 = (rs_txn a)\<lparr>t_watches := t_watches (rs_txn a) @ map (slot_version (sh_watch (rs_shared a))) keys\<rparr>"
    and "rs_shared a1 = rs_shared a"
proof -
  let ?a = "if rs_replay a then a else a\<lparr>rs_now_ms := shared_now_ms (rs_shared a)\<rparr>"
  have "2 \<le> length (name # keys)" using ks by (cases keys) auto
  moreover have "is_control (str ''WATCH'')" by (simp add: is_control_def)
  ultimately have "dispatch a raw (name # keys) out = do { (s, out) \<leftarrow> cmd_watch ?a (name # keys) out; Some (Continue, s, out) }"
    using dispatch_control [of "name # keys" a raw out] n exec_WATCH by simp
  moreover have f: "rs_txn ?a = rs_txn a" "rs_shared ?a = rs_shared a" by simp_all
  have "cmd_watch ?a (name # keys) out =
      Some (set_txn ?a ((rs_txn a)\<lparr>t_watches := t_watches (rs_txn a) @ map (slot_version (sh_watch (rs_shared a))) keys\<rparr>), out @ OK)"
    unfolding cmd_watch_def f using m by simp
  ultimately have a1: "a1 = set_txn ?a ((rs_txn a)\<lparr>t_watches := t_watches (rs_txn a) @ map (slot_version (sh_watch (rs_shared a))) keys\<rparr>)"
    using d by simp
  show "rs_txn a1 = (rs_txn a)\<lparr>t_watches := t_watches (rs_txn a) @ map (slot_version (sh_watch (rs_shared a))) keys\<rparr>"
    and "rs_shared a1 = rs_shared a"
    unfolding a1 by (simp_all add: set_txn_def)
qed

subsection \<open>Properties\<close>

definition demo_shared :: shared where
  "demo_shared = \<lparr>sh_store = the (store_new 4 9 2 1 []), sh_aof = None, sh_aof_commit_wait = False, sh_watch = watch_new 2,
     sh_config = \<lparr>cf_persist = False, cf_aof = False, cf_aof_commit_wait = False, cf_commit_mode = NeverCommit,
       cf_index_buckets = 4, cf_page_bits = 9, cf_memory_pages = 2, cf_mutable_pages = 1\<rparr>,
     sh_last_save_ms = 0, sh_dir = \<lparr>meta_file = None, tmp_file = None, dir_outcomes = []\<rparr>, sh_clock = 5, sh_rounds = 10\<rparr>"

text \<open>C15: EXEC runs queued commands through the function that runs EXEC, and this recursion is well founded: a queued EXEC finds
  an empty queue, so the function closed at depth two satisfies the recursive equation of the source.\<close>

theorem exec_command_recursive: "exec_command s cmd raw args out = exec_with exec_command s cmd raw args out"
proof -
  have "exec_with (exec_with (\<lambda>s cmd raw args out. None)) = exec_with (exec_with (exec_with (\<lambda>s cmd raw args out. None)))"
    by (rule exec_with_twice)
  then show ?thesis by (simp add: exec_command_def)
qed

end
