(* ===== verification/ServerMap.thy ===== *)
theory ServerMap
  imports StoreLaws CommandLaws
begin

text \<open>
  The server as a map. A request is encoded, parsed, dispatched and run on the store by \<open>run\<close> (\<^verbatim>\<open>commands.rs\<close>); the specification
  is a map from keys to values with an expiration time and the replies a client expects. The composition of parser, dispatch,
  string callbacks, store, index, log and epoch refines it, for every sequence of requests of one client.
\<close>

subsection \<open>The specification\<close>

type_synonym kv = "bytes \<rightharpoonup> bytes \<times> int"

datatype request =
  GetReq bytes | ExistsReq bytes | SetReq bytes bytes | PsetexReq bytes nat bytes | DelReq bytes

definition kv_live :: "kv \<Rightarrow> int \<Rightarrow> bytes \<Rightarrow> bytes option" where
  "kv_live m now key = (case m key of None \<Rightarrow> None | Some (v, e) \<Rightarrow> if e \<noteq> 0 \<and> e \<le> now then None else Some v)"

fun kv_reply :: "kv \<Rightarrow> int \<Rightarrow> request \<Rightarrow> bytes" where
  "kv_reply m now (GetReq k) = (case kv_live m now k of None \<Rightarrow> NULL_BULK | Some v \<Rightarrow> bulk v)"
| "kv_reply m now (ExistsReq k) = write_integer [] (if kv_live m now k = None then 0 else 1)"
| "kv_reply m now (SetReq k v) = OK"
| "kv_reply m now (PsetexReq k ms v) = OK"
| "kv_reply m now (DelReq k) = write_integer [] (if m k = None then 0 else 1)"

fun kv_update :: "kv \<Rightarrow> int \<Rightarrow> request \<Rightarrow> kv" where
  "kv_update m now (SetReq k v) = m(k \<mapsto> (v, 0))"
| "kv_update m now (PsetexReq k ms v) = m(k \<mapsto> (v, now + int ms))"
| "kv_update m now (DelReq k) = m(k := None)"
| "kv_update m now _ = m"

fun kv_replies :: "kv \<Rightarrow> (int \<times> request) list \<Rightarrow> bytes list" where
  "kv_replies m [] = []"
| "kv_replies m ((now, q) # qs) = kv_reply m now q # kv_replies (kv_update m now q) qs"

fun kv_final :: "kv \<Rightarrow> (int \<times> request) list \<Rightarrow> kv" where
  "kv_final m [] = m"
| "kv_final m ((now, q) # qs) = kv_final (kv_update m now q) qs"

subsection \<open>The server\<close>

fun request_parts :: "request \<Rightarrow> bytes list" where
  "request_parts (GetReq k) = [str ''GET'', k]"
| "request_parts (ExistsReq k) = [str ''EXISTS'', k]"
| "request_parts (SetReq k v) = [str ''SET'', k, v]"
| "request_parts (PsetexReq k ms v) = [str ''PSETEX'', k, i64_fmt (int ms), v]"
| "request_parts (DelReq k) = [str ''DEL'', k]"

definition at_time :: "int \<Rightarrow> resp_session \<Rightarrow> resp_session" where
  \<comment> \<open>the clock when the request arrives\<close>
  "at_time now s = s\<lparr>rs_shared := (rs_shared s)\<lparr>sh_clock := now\<rparr>\<rparr>"

fun serve :: "resp_session \<Rightarrow> (int \<times> request) list \<Rightarrow> (resp_session \<times> bytes list) option" where
  "serve s [] = Some (s, [])"
| "serve s ((now, q) # qs) =
     do { (s, reply) \<leftarrow> run (at_time now s) (request_parts q); (s, replies) \<leftarrow> serve s qs; Some (s, reply # replies) }"

definition write_input :: "int \<Rightarrow> bytes \<Rightarrow> int \<Rightarrow> StringInput" where
  "write_input now v e = \<lparr>i_op = Set, i_operand = v, i_delta = 0, i_expiration = e, i_now_ms = now\<rparr>"

definition store_room :: "store \<Rightarrow> bytes \<Rightarrow> size_info \<Rightarrow> bool" where
  \<comment> \<open>the address space and the index can take one more record, and it fits a page\<close>
  "store_room st key sz \<longleftrightarrow> addr_room (st_log st) \<and> entry_room (st_index st) key
     \<and> si_total_size sz + PAGE_HEADER_SIZE \<le> page_size (st_log st)"

fun request_room :: "store \<Rightarrow> int \<Rightarrow> request \<Rightarrow> bool" where
  "request_room st now (SetReq k v) \<longleftrightarrow> store_room st k (upsert_size k (write_input now v 0))"
| "request_room st now (PsetexReq k ms v) \<longleftrightarrow> 0 < ms \<and> is_i64 (int ms) \<and> is_i64 (now + int ms)
     \<and> store_room st k (upsert_size k (write_input now v (now + int ms)))"
| "request_room st now (DelReq k) \<longleftrightarrow> store_room st k (delete_size k)"
| "request_room st now _ \<longleftrightarrow> True"

fun room_along :: "resp_session \<Rightarrow> (int \<times> request) list \<Rightarrow> bool" where
  "room_along s [] \<longleftrightarrow> True"
| "room_along s ((now, q) # qs) \<longleftrightarrow> request_room (the_store s) now q
     \<and> (\<forall>d \<in> set (request_parts q). int (length d) \<le> I64_MAX)
     \<and> (case run (at_time now s) (request_parts q) of None \<Rightarrow> True | Some (s', reply) \<Rightarrow> room_along s' qs)"

definition online :: "resp_session \<Rightarrow> reclog \<Rightarrow> bool" where
  \<comment> \<open>outside MULTI, no other thread inside the epoch, and a write does not wait for the disk\<close>
  "online s R \<longleftrightarrow> can_read (the_store s) (rs_store s) R \<and> steady (st_log (the_store s))
     \<and> \<not> t_in_multi (rs_txn s) \<and> \<not> rs_replay s \<and> (sh_aof (rs_shared s) = None \<or> \<not> sh_aof_commit_wait (rs_shared s))"

definition kv_of :: "resp_session \<Rightarrow> reclog \<Rightarrow> kv" where
  "kv_of s R = svalue (the_store s) R"

subsection \<open>Operations of the store on behalf of a client\<close>

lemma live_kv: "live_value now (cur (st_index st) R key) = kv_live (svalue st R) now key"
  by (auto simp: live_value_def kv_live_def svalue_def expired_def expiration_def has_expiration_slot_def split: option.splits)

lemma put_store_simps [simp]:
  "the_store (put_store s st ss out) = st" "rs_store (put_store s st ss out) = ss" "rs_out (put_store s st ss out) = out"
  "rs_txn (put_store s st ss out) = rs_txn s" "rs_replay (put_store s st ss out) = rs_replay s"
  "sh_aof (rs_shared (put_store s st ss out)) = sh_aof (rs_shared s)"
  "sh_aof_commit_wait (rs_shared (put_store s st ss out)) = sh_aof_commit_wait (rs_shared s)"
  "rs_now_ms (put_store s st ss out) = rs_now_ms s"
  by (simp_all add: put_store_def the_store_def)

lemma online_put:
  assumes "online s R" and "store_inv st R'" and "op_frame (the_store s) (rs_store s) st ss"
  shows "online (put_store s st ss out) R'"
  using assms can_read_frame [OF _ assms(2,3), of R] by (auto simp: online_def op_frame_def)

lemma client_read:
  assumes on: "online s R"
  shows "\<exists>status out' s' R'. s_read s key i = Some (status, s') \<and> (status, out') = read_result string_functions key i (cur (st_index (the_store s)) R key) (rs_out s)
    \<and> rs_out s' = out' \<and> online s' R' \<and> kv_of s' R' = kv_of s R"
proof -
  have "can_read (the_store s) (rs_store s) R" using on by (simp add: online_def)
  from store_get_lemma [OF this, of key i "rs_out s"] obtain status out' st' ss' R' where
    r: "store_read string_functions (the_store s) (rs_store s) key i (rs_out s) = Some (status, out', st', ss')"
      "(status, out') = read_result string_functions key i (cur (st_index (the_store s)) R key) (rs_out s)"
      "store_inv st' R'" "op_frame (the_store s) (rs_store s) st' ss'"
      "\<forall>k. cur (st_index st') R' k = cur (st_index (the_store s)) R k" by blast
  have "svalue st' R' = svalue (the_store s) R" using r(5) by (intro ext svalue_cong) simp
  with r online_put [OF on r(3,4), of out'] show ?thesis
    by (intro exI [of _ status] exI [of _ out'] exI [of _ "put_store s st' ss' out'"] exI [of _ R']) (simp add: s_read_def kv_of_def)
qed

lemma client_write:
  assumes on: "online s R" and room: "store_room (the_store s) key (upsert_size key i)" and ok: "input_ok i"
  shows "\<exists>status s' R'. s_upsert s key i = Some (status, s') \<and> is_updated status \<and> online s' R'
    \<and> kv_of s' R' = (kv_of s R)(key \<mapsto> (i_operand i, i_expiration i))"
proof -
  have run: "can_run (the_store s) (rs_store s) R" "steady (st_log (the_store s))"
    using on room by (simp_all add: online_def store_room_def can_run_read)
  have rm: "entry_room (st_index (the_store s)) key" "si_total_size (upsert_size key i) + PAGE_HEADER_SIZE \<le> page_size (st_log (the_store s))"
    using room by (simp_all add: store_room_def)
  from store_set_lemma [OF run(1) rm(1) ok rm(2), of "rs_out s"] run(2) obtain status out' st' ss' R' where
    r: "store_upsert string_functions (the_store s) (rs_store s) key i (rs_out s) = Some (status, out', st', ss')" "store_inv st' R'"
      "op_frame (the_store s) (rs_store s) st' ss'" "\<forall>k. k \<noteq> key \<longrightarrow> svalue st' R' k = svalue (the_store s) R k"
      "status \<in> {Created, InPlaceUpdated}" "svalue st' R' key = Some (i_operand i, i_expiration i)" by auto
  have "svalue st' R' = (svalue (the_store s) R)(key \<mapsto> (i_operand i, i_expiration i))" using r(4,6) by (intro ext) simp
  with r online_put [OF on r(2,3), of out'] show ?thesis
    by (intro exI [of _ status] exI [of _ "put_store s st' ss' out'"] exI [of _ R']) (auto simp: s_upsert_def kv_of_def is_updated_def)
qed

lemma client_delete:
  assumes on: "online s R" and room: "store_room (the_store s) key (delete_size key)"
  shows "\<exists>s' R'. s_delete s key = Some (if kv_of s R key = None then NotFound else Deleted, s') \<and> online s' R'
    \<and> kv_of s' R' = (kv_of s R)(key := None)"
proof -
  have run: "can_run (the_store s) (rs_store s) R" "steady (st_log (the_store s))"
    using on room by (simp_all add: online_def store_room_def can_run_read)
  have rm: "entry_room (st_index (the_store s)) key" "si_total_size (delete_size key) + PAGE_HEADER_SIZE \<le> page_size (st_log (the_store s))"
    using room by (simp_all add: store_room_def)
  from store_del_lemma [OF run(1) rm] run(2) obtain status st' ss' R' where
    r: "store_delete (the_store s) (rs_store s) key = Some (status, st', ss')" "store_inv st' R'"
      "op_frame (the_store s) (rs_store s) st' ss'" "\<forall>k. k \<noteq> key \<longrightarrow> svalue st' R' k = svalue (the_store s) R k"
      "svalue st' R' key = None" "status = (if svalue (the_store s) R key = None then NotFound else Deleted)" by auto
  have "svalue st' R' = (svalue (the_store s) R)(key := None)" using r(4,5) by (intro ext) simp
  with r online_put [OF on r(2,3), of "rs_out s"] show ?thesis
    by (intro exI [of _ "put_store s st' ss' (rs_out s)"] exI [of _ R']) (simp add: s_delete_def kv_of_def)
qed

lemma client_logs:
  assumes on: "online s R"
  shows "\<exists>s'. log_write s raw = Some s' \<and> online s' R \<and> kv_of s' R = kv_of s R"
    and "\<exists>s'. after_write s key raw = Some s' \<and> online s' R \<and> kv_of s' R = kv_of s R"
proof -
  have w: "\<exists>s'. log_write s raw = Some s' \<and> online s' R \<and> kv_of s' R = kv_of s R" if "online s R" for s
  proof (cases "sh_aof (rs_shared s)")
    case (Some a)
    then show ?thesis
      using that by (auto simp: log_write_def log_op_def Let_def online_def set_aof_def kv_of_def the_store_def split: prod.splits)
  qed (use that in \<open>auto simp: log_write_def log_op_def online_def\<close>)
  show "\<exists>s'. log_write s raw = Some s' \<and> online s' R \<and> kv_of s' R = kv_of s R" by (rule w [OF on])
  have "online (bump_watch s key) R" "kv_of (bump_watch s key) R = kv_of s R"
    using on by (simp_all add: bump_watch_def online_def kv_of_def the_store_def)
  with w [of "bump_watch s key"] show "\<exists>s'. after_write s key raw = Some s' \<and> online s' R \<and> kv_of s' R = kv_of s R"
    by (simp add: after_write_def)
qed

subsection \<open>The commands\<close>

lemma write_integer_append: "write_integer out n = out @ write_integer [] n"
  by (simp add: write_integer_def write_i64_digits_def)

lemma get_command:
  assumes on: "online s R"
  shows "\<exists>s' R'. cmd_get s k out = Some (s', out @ kv_reply (kv_of s R) (rs_now_ms s) (GetReq k)) \<and> online s' R' \<and> kv_of s' R' = kv_of s R"
proof -
  from client_read [OF on, of k "input_read Get (rs_now_ms s)"] obtain status out' s' R' where
    r: "s_read s k (input_read Get (rs_now_ms s)) = Some (status, s')"
      "(status, out') = read_result string_functions k (input_read Get (rs_now_ms s)) (cur (st_index (the_store s)) R k) (rs_out s)"
      "rs_out s' = out'" "online s' R'" "kv_of s' R' = kv_of s R" by blast
  have "(status, out') = (case kv_live (kv_of s R) (rs_now_ms s) k of None \<Rightarrow> (NotFound, rs_out s) | Some v \<Rightarrow> (Found, set_bytes (rs_out s) v))"
    unfolding r(2) by (subst read_get) (simp_all add: input_read_def input_simple_def live_kv kv_of_def)
  then have "cmd_get s k out = Some (s', out @ kv_reply (kv_of s R) (rs_now_ms s) (GetReq k))"
    using r(1,3) by (cases "kv_live (kv_of s R) (rs_now_ms s) k") (auto simp: cmd_get_def write_bulk_eq set_bytes_def)
  with r(4,5) show ?thesis by blast
qed

lemma exists_command:
  assumes on: "online s R"
  shows "\<exists>s' R'. cmd_exists s [c, k] out = Some (s', out @ kv_reply (kv_of s R) (rs_now_ms s) (ExistsReq k)) \<and> online s' R' \<and> kv_of s' R' = kv_of s R"
proof -
  let ?i = "input_read Exists (rs_now_ms s)"
  from client_read [OF on, of k ?i] obtain status out' s' R' where
    r: "s_read s k ?i = Some (status, s')" "(status, out') = read_result string_functions k ?i (cur (st_index (the_store s)) R k) (rs_out s)"
      "online s' R'" "kv_of s' R' = kv_of s R" by blast
  have "status = fst (read_result string_functions k ?i (cur (st_index (the_store s)) R k) (rs_out s))" by (simp flip: r(2))
  also have "\<dots> = (if kv_live (kv_of s R) (rs_now_ms s) k = None then NotFound else Found)"
    unfolding kv_of_def live_kv [symmetric]
    by (auto simp: read_result_def live_value_def reader_def input_read_def input_simple_def Let_def split: option.splits)
  finally have "cmd_exists s [c, k] out = Some (s', out @ kv_reply (kv_of s R) (rs_now_ms s) (ExistsReq k))"
    using r(1) write_integer_append [of out] by (simp add: cmd_exists_def)
  with r(3,4) show ?thesis by blast
qed

lemma set_command:
  assumes on: "online s R" and room: "store_room (the_store s) k (upsert_size k (write_input (rs_now_ms s) v 0))"
  shows "\<exists>s' R'. cmd_set s raw [c, k, v] out = Some (s', out @ OK) \<and> online s' R' \<and> kv_of s' R' = (kv_of s R)(k \<mapsto> (v, 0))"
proof -
  have ok: "input_ok (write_input (rs_now_ms s) v 0)" by (simp add: input_ok_def write_input_def)
  from client_write [OF on room ok] obtain status s1 R1 where
    u: "s_upsert s k (write_input (rs_now_ms s) v 0) = Some (status, s1)" "is_updated status" "online s1 R1"
      "kv_of s1 R1 = (kv_of s R)(k \<mapsto> (v, 0))" by (auto simp: write_input_def)
  from client_logs(2) [OF u(3)] obtain s2 where a: "after_write s1 k raw = Some s2" "online s2 R1" "kv_of s2 R1 = kv_of s1 R1" by blast
  have "cmd_set s raw [c, k, v] out = Some (s2, out @ OK)"
    using u(1,2) a(1) by (simp add: cmd_set_def parse_set_opts_def set_op_def write_input_def Let_def)
  with a u(4) show ?thesis by auto
qed

lemma psetex_command:
  assumes on: "online s R" and room: "request_room (the_store s) (rs_now_ms s) (PsetexReq k ms v)"
  shows "\<exists>s' R'. cmd_setex s raw [c, k, i64_fmt (int ms), v] out True = Some (s', out @ OK) \<and> online s' R'
    \<and> kv_of s' R' = (kv_of s R)(k \<mapsto> (v, rs_now_ms s + int ms))"
proof -
  let ?e = "rs_now_ms s + int ms"
  have rm: "0 < ms" "is_i64 (int ms)" "is_i64 ?e" "store_room (the_store s) k (upsert_size k (write_input (rs_now_ms s) v ?e))"
    using room by simp_all
  have ok: "input_ok (write_input (rs_now_ms s) v ?e)" using rm(3) by (simp add: input_ok_def write_input_def)
  from client_write [OF on rm(4) ok] obtain status s1 R1 where
    u: "s_upsert s k (write_input (rs_now_ms s) v ?e) = Some (status, s1)" "online s1 R1"
      "kv_of s1 R1 = (kv_of s R)(k \<mapsto> (v, ?e))" by (auto simp: write_input_def)
  from client_logs(2) [OF u(2)] obtain s2 where a: "after_write s1 k raw = Some s2" "online s2 R1" "kv_of s2 R1 = kv_of s1 R1" by blast
  have "parse_i64 (i64_fmt (int ms)) = Some (int ms)" by (rule parse_i64_fmt [OF rm(2)])
  moreover have "i64_wrap ?e = ?e" using rm(3) by (rule i64_wrap_id)
  ultimately have "cmd_setex s raw [c, k, i64_fmt (int ms), v] out True = Some (s2, out @ OK)"
    using rm(1) u(1) a(1) by (simp add: cmd_setex_def write_input_def Let_def)
  with a u(3) show ?thesis by auto
qed

lemma del_command:
  assumes on: "online s R" and room: "store_room (the_store s) k (delete_size k)"
  shows "\<exists>s' R'. cmd_del s raw [c, k] out = Some (s', out @ kv_reply (kv_of s R) now (DelReq k)) \<and> online s' R' \<and> kv_of s' R' = (kv_of s R)(k := None)"
proof -
  from client_delete [OF on room] obtain s1 R1 where
    d: "s_delete s k = Some (if kv_of s R k = None then NotFound else Deleted, s1)" "online s1 R1" "kv_of s1 R1 = (kv_of s R)(k := None)" by blast
  show ?thesis
  proof (cases "kv_of s R k = None")
    case True
    then have "cmd_del s raw [c, k] out = Some (s1, out @ kv_reply (kv_of s R) now (DelReq k))"
      using d(1) write_integer_append [of out] by (simp add: cmd_del_def)
    with d(2,3) show ?thesis by blast
  next
    case False
    have o2: "online (bump_watch s1 k) R1" "kv_of (bump_watch s1 k) R1 = kv_of s1 R1"
      using d(2) by (simp_all add: bump_watch_def online_def kv_of_def the_store_def)
    from client_logs(1) [OF o2(1)] obtain s2 where a: "log_write (bump_watch s1 k) raw = Some s2" "online s2 R1" "kv_of s2 R1 = kv_of s1 R1"
      using o2(2) by metis
    have "cmd_del s raw [c, k] out = Some (s2, out @ kv_reply (kv_of s R) now (DelReq k))"
      using d(1) a(1) False write_integer_append [of out] by (auto simp: cmd_del_def Let_def)
    with a(2,3) d(3) show ?thesis by metis
  qed
qed

subsection \<open>From the bytes of a request to its reply\<close>

lemma request_name:
  assumes "request_parts q = c # args"
  shows "command_name c = c" and "\<not> is_control c"
proof -
  have c: "c \<in> set [str ''GET'', str ''EXISTS'', str ''SET'', str ''PSETEX'', str ''DEL'']"
    using assms by (cases q) (auto simp only: request_parts.simps list.inject list.set insert_iff)
  have "list_all (\<lambda>c. command_name c = c) [str ''GET'', str ''EXISTS'', str ''SET'', str ''PSETEX'', str ''DEL'']"
    by (simp add: command_name_def MAX_CMD_NAME_def ascii_upper_def)
  then show "command_name c = c" using c unfolding list_all_iff by blast
  have "list_all (\<lambda>c. \<not> is_control c) [str ''GET'', str ''EXISTS'', str ''SET'', str ''PSETEX'', str ''DEL'']"
    by (simp add: is_control_def)
  then show "\<not> is_control c" using c unfolding list_all_iff by blast
qed

lemma exec_data_commands:
  "exec_command s (str ''GET'') raw [c, k] out = do { (s, out) \<leftarrow> cmd_get s k out; Some (Continue, s, out) }"
  "exec_command s (str ''EXISTS'') raw [c, k] out = do { (s, out) \<leftarrow> cmd_exists s [c, k] out; Some (Continue, s, out) }"
  "exec_command s (str ''SET'') raw args out = do { (s, out) \<leftarrow> cmd_set s raw args out; Some (Continue, s, out) }"
  "exec_command s (str ''PSETEX'') raw [c, k, t, v] out = do { (s, out) \<leftarrow> cmd_setex s raw [c, k, t, v] out True; Some (Continue, s, out) }"
  "exec_command s (str ''DEL'') raw [c, k] out = do { (s, out) \<leftarrow> cmd_del s raw [c, k] out; Some (Continue, s, out) }"
  unfolding exec_command_def
  by (subst exec_with_def, simp add: first_arm_def exec_server_def exec_string_def exec_generic_def exec_session_def)+

lemma dispatch_online:
  assumes "online s R" and "\<not> is_control (command_name c)"
  shows "dispatch s raw (c # args) out = exec_command (s\<lparr>rs_now_ms := sh_clock (rs_shared s)\<rparr>) (command_name c) raw (c # args) out"
  using assms by (simp add: dispatch_def online_def shared_now_ms_def Let_def)

lemma run_dispatch:
  assumes "length parts \<le> 1024 * 1024" and "\<forall>d \<in> set parts. int (length d) \<le> I64_MAX"
  shows "run s parts = map_option (\<lambda>(_, s, out). (s, out)) (dispatch s (encode_parts parts) parts [])"
proof -
  have e: "encode_parts parts = encode_command parts" by (simp add: Commands.encode_parts_def encode_command_def foldl_conv_fold)
  from parse_encode_command [OF assms, of "[]" "[]"] show ?thesis
    unfolding run_def e Let_def by (auto split: sum.splits option.splits)
qed

lemma run_online:
  assumes on: "online s R" and n: "length (c # args) \<le> 1024 * 1024" and len: "\<forall>d \<in> set (c # args). int (length d) \<le> I64_MAX"
    and nm: "command_name c = c" "\<not> is_control c"
  shows "run (at_time now s) (c # args) = map_option (\<lambda>(_, s, out). (s, out))
    (exec_command ((at_time now s)\<lparr>rs_now_ms := now\<rparr>) c (encode_parts (c # args)) (c # args) [])"
proof -
  have "online (at_time now s) R" "sh_clock (rs_shared (at_time now s)) = now"
    using on by (simp_all add: at_time_def online_def the_store_def)
  then show ?thesis unfolding run_dispatch [OF n len] using dispatch_online [of "at_time now s" R c] nm by simp
qed

lemma online_at_time:
  assumes "online s R"
  shows "online ((at_time now s)\<lparr>rs_now_ms := now\<rparr>) R" "kv_of ((at_time now s)\<lparr>rs_now_ms := now\<rparr>) R = kv_of s R"
    "the_store ((at_time now s)\<lparr>rs_now_ms := now\<rparr>) = the_store s"
  using assms by (simp_all add: at_time_def online_def the_store_def kv_of_def)

lemma request_serves:
  assumes on: "online s R" and room: "request_room (the_store s) now q" and len: "\<forall>d \<in> set (request_parts q). int (length d) \<le> I64_MAX"
  shows "\<exists>s' R'. run (at_time now s) (request_parts q) = Some (s', kv_reply (kv_of s R) now q) \<and> online s' R'
    \<and> kv_of s' R' = kv_update (kv_of s R) now q"
proof -
  let ?s = "(at_time now s)\<lparr>rs_now_ms := now\<rparr>" and ?raw = "encode_parts (request_parts q)"
  have st: "the_store ?s = the_store s" "rs_now_ms ?s = now" using online_at_time(3) [OF on] by simp_all
  note on1 = on online_at_time(1,2) [OF on, of now]
  have n: "length (request_parts q) \<le> 1024 * 1024" by (cases q) simp_all
  obtain c args where p: "request_parts q = c # args" by (cases q) auto
  note nm = request_name [OF p]
  have e: "run (at_time now s) (request_parts q) = map_option (\<lambda>(_, s, out). (s, out)) (exec_command ?s c ?raw (c # args) [])"
    using run_online [OF on n [unfolded p] len [unfolded p] nm] unfolding p .
  have res: ?thesis if "exec_command ?s c ?raw (c # args) [] = do { (s, out) \<leftarrow> Some (s', kv_reply (kv_of s R) now q); Some (Continue, s, out) }"
      "online s' R'" "kv_of s' R' = kv_update (kv_of s R) now q" for s' R'
    using that e by auto
  show ?thesis
  proof (cases q)
    case (GetReq k)
    from get_command [OF on1(2), of k "[]"] obtain s' R' where
      "cmd_get ?s k [] = Some (s', kv_reply (kv_of s R) now q)" "online s' R'" "kv_of s' R' = kv_of s R"
      unfolding on1(3) st(2) GetReq by auto
    moreover have "c = str ''GET''" "args = [k]" using p GetReq by (auto simp only: request_parts.simps list.inject)
    ultimately show ?thesis using GetReq by (intro res [of s' R']) (simp_all only: exec_data_commands kv_update.simps)
  next
    case (ExistsReq k)
    from exists_command [OF on1(2), of c k "[]"] obtain s' R' where
      "cmd_exists ?s [c, k] [] = Some (s', kv_reply (kv_of s R) now q)" "online s' R'" "kv_of s' R' = kv_of s R"
      unfolding on1(3) st(2) ExistsReq by auto
    moreover have "c = str ''EXISTS''" "args = [k]" using p ExistsReq by (auto simp only: request_parts.simps list.inject)
    ultimately show ?thesis using ExistsReq by (intro res [of s' R']) (simp_all only: exec_data_commands kv_update.simps)
  next
    case (SetReq k v)
    from set_command [OF on1(2), of k v ?raw c "[]"] room obtain s' R' where
      "cmd_set ?s ?raw [c, k, v] [] = Some (s', kv_reply (kv_of s R) now q)" "online s' R'" "kv_of s' R' = (kv_of s R)(k \<mapsto> (v, 0))"
      unfolding on1(3) st(1,2) SetReq by auto
    moreover have "c = str ''SET''" "args = [k, v]" using p SetReq by (auto simp only: request_parts.simps list.inject)
    ultimately show ?thesis using SetReq by (intro res [of s' R']) (simp_all only: exec_data_commands kv_update.simps)
  next
    case (PsetexReq k ms v)
    from psetex_command [OF on1(2), of k ms v ?raw c "[]"] room obtain s' R' where
      "cmd_setex ?s ?raw [c, k, i64_fmt (int ms), v] [] True = Some (s', kv_reply (kv_of s R) now q)" "online s' R'"
      "kv_of s' R' = (kv_of s R)(k \<mapsto> (v, now + int ms))"
      unfolding on1(3) st(1,2) PsetexReq by auto
    moreover have "c = str ''PSETEX''" "args = [k, i64_fmt (int ms), v]" using p PsetexReq by (auto simp only: request_parts.simps list.inject)
    ultimately show ?thesis using PsetexReq by (intro res [of s' R']) (simp_all only: exec_data_commands kv_update.simps)
  next
    case (DelReq k)
    from del_command [OF on1(2), of k ?raw c "[]" now] room obtain s' R' where
      "cmd_del ?s ?raw [c, k] [] = Some (s', kv_reply (kv_of s R) now q)" "online s' R'" "kv_of s' R' = (kv_of s R)(k := None)"
      unfolding on1(3) st(1,2) DelReq by auto
    moreover have "c = str ''DEL''" "args = [k]" using p DelReq by (auto simp only: request_parts.simps list.inject)
    ultimately show ?thesis using DelReq by (intro res [of s' R']) (simp_all only: exec_data_commands kv_update.simps)
  qed
qed

text \<open>C1: The server refines a map. Whatever sequence of GET, EXISTS, SET, PSETEX and DEL requests one client sends at
  whatever times, each request is encoded, parsed, dispatched and answered with exactly the bytes of the specification, and
  the store holds at the end what the specification holds: reads see the last write to their key unless it was deleted or has
  expired, and no request fails or blocks. The hypotheses are that the session is outside MULTI with no other thread inside the
  epoch, that writes need not wait for the operation log, and that index and address space have room for the records.\<close>

theorem server_is_a_map:
  assumes "online s R" and "room_along s qs"
  shows "\<exists>s' R'. serve s qs = Some (s', kv_replies (kv_of s R) qs) \<and> online s' R' \<and> kv_of s' R' = kv_final (kv_of s R) qs"
  using assms
proof (induction qs arbitrary: s R)
  case (Cons x qs)
  obtain now q where x: "x = (now, q)" by (cases x)
  from request_serves [OF Cons.prems(1), of now q] Cons.prems(2) obtain s1 R1 where
    r: "run (at_time now s) (request_parts q) = Some (s1, kv_reply (kv_of s R) now q)" "online s1 R1" "kv_of s1 R1 = kv_update (kv_of s R) now q"
    unfolding x by auto
  have "room_along s1 qs" using Cons.prems(2) r(1) unfolding x by simp
  from Cons.IH [OF r(2) this] obtain s2 R2 where
    i: "serve s1 qs = Some (s2, kv_replies (kv_of s1 R1) qs)" "online s2 R2" "kv_of s2 R2 = kv_final (kv_of s1 R1) qs" by blast
  show ?case using r i unfolding x by auto
qed auto

definition demo_client :: resp_session where
  "demo_client = resp_session_new demo_shared 1"

lemma demo_online: "online demo_client Map.empty" "the_store demo_client = demo_store" "kv_of demo_client Map.empty = Map.empty"
proof -
  show st: "the_store demo_client = demo_store"
    by (simp add: demo_client_def the_store_def resp_session_new_def demo_shared_def demo_store_def)
  have "rs_store demo_client = demo_session"
    by (simp add: demo_client_def resp_session_new_def demo_session_def demo_shared_def demo_store_def)
  then show "online demo_client Map.empty"
    using demo_store_ok(1,5) st by (simp add: online_def can_run_read)
      (simp add: demo_client_def resp_session_new_def txn_default_def demo_shared_def)
  show "kv_of demo_client Map.empty = Map.empty" using demo_store_ok(3) by (auto simp: kv_of_def st svalue_def)
qed

theorem server_is_a_map_witness:
  "\<exists>s' R'. serve demo_client [(5, SetReq [107] [118]), (9, GetReq [107]), (9, ExistsReq [108])]
      = Some (s', [OK, bulk [118], write_integer [] 0]) \<and> kv_of s' R' = [[107] \<mapsto> ([118], 0)]"
proof -
  have "write_input 5 [118] 0 = input_simple Set [118] 5" by (simp add: write_input_def input_simple_def)
  then have "request_room (the_store demo_client) 5 (SetReq [107] [118])"
    using demo_store_ok(1,2) demo_set_fits(1) [of Set 5] by (simp add: demo_online(2) store_room_def can_run_read)
  moreover have "room_along s [(9, GetReq [107]), (9, ExistsReq [108])]" for s
    by (simp add: I64_MAX_def split: option.splits prod.splits)
  ultimately have "room_along demo_client [(5, SetReq [107] [118]), (9, GetReq [107]), (9, ExistsReq [108])]"
    by (simp add: I64_MAX_def split: option.splits prod.splits)
  from server_is_a_map [OF demo_online(1) this] show ?thesis by (auto simp: demo_online(3) kv_live_def)
qed

end
