(* ===== verification/WatchLaws.thy ===== *)
theory WatchLaws
  imports ServerMap
begin

text \<open>
  Optimistic transactions (WATCH, MULTI, EXEC of \<^verbatim>\<open>commands.rs\<close>) between clients. Every connection has its own session; the sessions
  share the state, which is handed from turn to turn: in a turn one client sends one request, encoded, parsed, dispatched and run on
  the shared store. What a turn wrote is read off the reply its client gets. Every request that wrote a key moved the
  version of the slot of that key, and no other request moved any, so that EXEC of a watching client aborts exactly when a watched
  slot was written in between.
\<close>

subsection \<open>Turns of other clients\<close>

datatype turn_request =
    Plain request
  | SetnxReq bytes bytes | GetsetReq bytes bytes | GetdelReq bytes | IncrReq bytes | PexpireReq bytes bytes | PersistReq bytes

fun turn_parts :: "turn_request \<Rightarrow> bytes list" where
  "turn_parts (Plain q) = request_parts q"
| "turn_parts (SetnxReq k v) = [str ''SETNX'', k, v]"
| "turn_parts (GetsetReq k v) = [str ''GETSET'', k, v]"
| "turn_parts (GetdelReq k) = [str ''GETDEL'', k]"
| "turn_parts (IncrReq k) = [str ''INCR'', k]"
| "turn_parts (PexpireReq k ms) = [str ''PEXPIRE'', k, ms]"
| "turn_parts (PersistReq k) = [str ''PERSIST'', k]"

definition is_error :: "bytes \<Rightarrow> bool" where
  "is_error reply \<longleftrightarrow> take 1 reply = [45]"

fun wrote :: "turn_request \<Rightarrow> bytes \<Rightarrow> bytes list" where
  \<comment> \<open>the keys that a request wrote, by its reply\<close>
  "wrote (Plain (SetReq k v)) reply = [k]"
| "wrote (Plain (PsetexReq k ms v)) reply = [k]"
| "wrote (Plain (DelReq k)) reply = (if reply = write_integer [] 0 then [] else [k])"
| "wrote (Plain _) reply = []"
| "wrote (SetnxReq k v) reply = (if reply = write_integer [] 1 then [k] else [])"
| "wrote (GetsetReq k v) reply = [k]"
| "wrote (GetdelReq k) reply = (if reply = NULL_BULK then [] else [k])"
| "wrote (IncrReq k) reply = (if is_error reply then [] else [k])"
| "wrote (PexpireReq k ms) reply = (if reply = write_integer [] 1 then [k] else [])"
| "wrote (PersistReq k) reply = (if reply = write_integer [] 1 then [k] else [])"

type_synonym turn = "resp_session \<times> int \<times> turn_request"

definition on_shared :: "shared \<Rightarrow> resp_session \<Rightarrow> resp_session" where
  \<comment> \<open>the session of a client, on the shared state as the last turn left it\<close>
  "on_shared sh b = b\<lparr>rs_shared := sh\<rparr>"

fun take_turns :: "shared \<Rightarrow> turn list \<Rightarrow> (shared \<times> bytes list) option" where
  "take_turns sh [] = Some (sh, [])"
| "take_turns sh ((b, now, q) # ts) =
     do { (s, reply) \<leftarrow> run (at_time now (on_shared sh b)) (turn_parts q);
          (sh, replies) \<leftarrow> take_turns (rs_shared s) ts;
          Some (sh, reply # replies) }"

definition turn_ready :: "shared \<Rightarrow> turn \<Rightarrow> bool" where
  "turn_ready sh t \<longleftrightarrow> (case t of (b, now, q) \<Rightarrow> (\<exists>R. online (on_shared sh b) R)
     \<and> (\<forall>d \<in> set (turn_parts q). int (length d) \<le> I64_MAX)
     \<and> (case q of Plain q \<Rightarrow> request_room (sh_store sh) now q | _ \<Rightarrow> True))"

fun ready_along :: "shared \<Rightarrow> turn list \<Rightarrow> bool" where
  "ready_along sh [] \<longleftrightarrow> True"
| "ready_along sh ((b, now, q) # ts) \<longleftrightarrow> turn_ready sh (b, now, q)
     \<and> (case run (at_time now (on_shared sh b)) (turn_parts q) of None \<Rightarrow> True | Some (s, reply) \<Rightarrow> ready_along (rs_shared s) ts)"

fun written :: "turn list \<Rightarrow> bytes list \<Rightarrow> bytes list" where
  "written ((b, now, q) # ts) (reply # replies) = wrote q reply @ written ts replies"
| "written _ _ = []"

subsection \<open>What a command does to the versions\<close>

lemma watch_kept:
  "s_read s key i = Some (x, s') \<Longrightarrow> sh_watch (rs_shared s') = sh_watch (rs_shared s)"
  "s_upsert s key i = Some (x, s') \<Longrightarrow> sh_watch (rs_shared s') = sh_watch (rs_shared s)"
  "s_rmw s key i = Some (x, s') \<Longrightarrow> sh_watch (rs_shared s') = sh_watch (rs_shared s)"
  "s_delete s key = Some (x, s') \<Longrightarrow> sh_watch (rs_shared s') = sh_watch (rs_shared s)"
  by (auto simp: s_read_def s_upsert_def s_rmw_def s_delete_def put_store_def split: bind_splits)

lemma log_op_watch: "log_op s op raw w = Some s' \<Longrightarrow> sh_watch (rs_shared s') = sh_watch (rs_shared s)"
  by (auto simp: log_op_def Let_def set_aof_def split: option.splits prod.splits if_splits bind_splits)

lemma log_write_watch: "log_write s raw = Some s' \<Longrightarrow> sh_watch (rs_shared s') = sh_watch (rs_shared s)"
  by (auto simp: log_write_def log_op_watch split: if_splits)

lemma bump_watch_versions: "sh_watch (rs_shared (bump_watch s key)) = watch_bump (sh_watch (rs_shared s)) key"
  by (simp add: bump_watch_def)

lemma after_write_watch: "after_write s key raw = Some s' \<Longrightarrow> sh_watch (rs_shared s') = watch_bump (sh_watch (rs_shared s)) key"
  unfolding after_write_def by (drule log_write_watch) (simp add: bump_watch_versions)

lemma bump_keys_append: "bump_keys (ks @ ls) w = bump_keys ls (bump_keys ks w)"
  by (simp add: bump_keys_def)

lemmas watch_steps = watch_kept log_write_watch after_write_watch

definition bumps :: "resp_session \<Rightarrow> bytes list \<Rightarrow> resp_session \<Rightarrow> bool" where
  "bumps s ks s' \<longleftrightarrow> sh_watch (rs_shared s') = bump_keys ks (sh_watch (rs_shared s))"

lemma set_bumps:
  assumes on: "online s R" and room: "store_room (the_store s) k (upsert_size k (write_input (rs_now_ms s) v 0))"
    and c: "cmd_set s raw [c, k, v] out = Some (s', out')"
  shows "bumps s [k] s'"
proof -
  have "input_ok (write_input (rs_now_ms s) v 0)" by (simp add: input_ok_def write_input_def)
  from client_write [OF on room this] obtain status s1 where
    u: "s_upsert s k (write_input (rs_now_ms s) v 0) = Some (status, s1)" "is_updated status" by blast
  have "after_write s1 k raw = Some s'"
    using c u by (auto simp: cmd_set_def parse_set_opts_def set_op_def write_input_def Let_def split: bind_splits)
  with u(1) show ?thesis by (simp add: bumps_def watch_steps)
qed

lemma psetex_bumps:
  assumes room: "request_room st now (PsetexReq k ms v)" and c: "cmd_setex s raw [c, k, i64_fmt (int ms), v] out True = Some (s', out')"
  shows "bumps s [k] s'"
proof -
  have "parse_i64 (i64_fmt (int ms)) = Some (int ms)" "0 < ms" using room parse_i64_fmt by simp_all
  with c show ?thesis by (auto simp: cmd_setex_def Let_def bumps_def watch_steps split: bind_splits)
qed

lemma write_integer_01: "write_integer [] 1 \<noteq> write_integer [] 0" "write_integer [] 0 \<noteq> write_integer [] 1"
  by (simp_all add: write_integer_def write_i64_digits_def i64_fmt_def u64_digits.simps)

lemma del_bumps:
  assumes c: "cmd_del s raw [c, k] [] = Some (s', out')"
  shows "bumps s (if out' = write_integer [] 0 then [] else [k]) s'"
proof -
  obtain status s1 where d: "s_delete s k = Some (status, s1)" using c by (auto simp: cmd_del_def split: bind_splits)
  show ?thesis
  proof (cases "status = Deleted")
    case True
    with c d have "log_write (bump_watch s1 k) raw = Some s'" "out' = write_integer [] 1"
      by (auto simp: cmd_del_def Let_def split: bind_splits)
    then show ?thesis using d by (simp add: bumps_def watch_steps bump_watch_versions write_integer_01)
  next
    case False
    with c d show ?thesis by (simp add: cmd_del_def bumps_def watch_steps)
  qed
qed

lemma read_bumps:
  "cmd_get s k out = Some (s', out') \<Longrightarrow> bumps s [] s'" "cmd_exists s [c, k] out = Some (s', out') \<Longrightarrow> bumps s [] s'"
  by (auto simp: cmd_get_def cmd_exists_def bumps_def watch_steps split: bind_splits)

lemma bulk_not_null: "bulk v \<noteq> NULL_BULK"
proof
  assume "bulk v = NULL_BULK"
  then have "length (bulk v) = length NULL_BULK" by simp
  then have "i64_fmt (int (length v)) = []" by (auto simp: bulk_def NULL_BULK_def CRLF_def)
  moreover have "0 < u \<Longrightarrow> u64_digits u [] \<noteq> []" for u using u64_digits_step [of u] by simp
  ultimately show False by (auto simp: i64_fmt_def Let_def split: if_splits)
qed

lemma reply_kind: "\<not> is_error (write_integer [] n)" "is_error (write_error [] e)"
  by (simp_all add: is_error_def write_integer_def write_i64_digits_def write_error_def)

lemma rmw_bumps:
  "cmd_setnx s raw [c, k, v] [] = Some (s', out') \<Longrightarrow> bumps s (if out' = write_integer [] 1 then [k] else []) s'"
  "cmd_getset s raw [c, k, v] [] = Some (s', out') \<Longrightarrow> bumps s [k] s'"
  "cmd_getdel s raw [c, k] [] = Some (s', out') \<Longrightarrow> bumps s (if out' = NULL_BULK then [] else [k]) s'"
  "cmd_incr s raw k d [] = Some (s', out') \<Longrightarrow> bumps s (if is_error out' then [] else [k]) s'"
  "cmd_expire s raw k t unit at [] = Some (s', out') \<Longrightarrow> bumps s (if out' = write_integer [] 1 then [k] else []) s'"
  "cmd_persist s raw k [] = Some (s', out') \<Longrightarrow> bumps s (if out' = write_integer [] 1 then [k] else []) s'"
  subgoal by (auto simp: cmd_setnx_def bumps_def watch_steps write_integer_01 Let_def split: bind_splits if_splits)
  subgoal by (auto simp: cmd_getset_def bumps_def watch_steps Let_def split: bind_splits)
  subgoal by (auto simp: cmd_getdel_def bumps_def watch_steps write_bulk_eq bulk_not_null clear_bytes_def split: bind_splits if_splits)
  subgoal by (auto simp: cmd_incr_def bumps_def watch_steps reply_kind split: bind_splits if_splits)
  subgoal
    using reply_kind(1) [of 1] reply_kind(2) [of NOT_INTEGER]
    by (auto simp: cmd_expire_def bumps_def watch_steps write_integer_01 Let_def split: bind_splits if_splits option.splits)
  subgoal by (auto simp: cmd_persist_def bumps_def watch_steps write_integer_01 Let_def split: bind_splits if_splits)
  done

subsection \<open>From a command to a turn\<close>

lemma turn_parts_shape: "\<exists>c args. turn_parts q = c # args \<and> length args \<le> 3"
proof (cases q)
  case (Plain p)
  then show ?thesis by (cases p) simp_all
qed simp_all

lemma turn_name:
  assumes "turn_parts q = c # args"
  shows "command_name c = c" and "\<not> is_control c"
proof -
  let ?new = "[str ''SETNX'', str ''GETSET'', str ''GETDEL'', str ''INCR'', str ''PEXPIRE'', str ''PERSIST'']"
  have n: "list_all (\<lambda>c. command_name c = c) ?new" by (simp add: command_name_def MAX_CMD_NAME_def ascii_upper_def)
  have i: "list_all (\<lambda>c. \<not> is_control c) ?new" by (simp add: is_control_def)
  have "(\<exists>p. request_parts p = c # args) \<or> c \<in> set ?new"
    using assms by (cases q) (auto simp only: turn_parts.simps list.inject list.set insert_iff)
  then show "command_name c = c" "\<not> is_control c"
    using n i request_name unfolding list_all_iff by blast+
qed

lemma exec_rmw_commands:
  "exec_command s (str ''SETNX'') raw [c, k, v] out = do { (s, out) \<leftarrow> cmd_setnx s raw [c, k, v] out; Some (Continue, s, out) }"
  "exec_command s (str ''GETSET'') raw [c, k, v] out = do { (s, out) \<leftarrow> cmd_getset s raw [c, k, v] out; Some (Continue, s, out) }"
  "exec_command s (str ''GETDEL'') raw [c, k] out = do { (s, out) \<leftarrow> cmd_getdel s raw [c, k] out; Some (Continue, s, out) }"
  "exec_command s (str ''INCR'') raw [c, k] out = do { (s, out) \<leftarrow> cmd_incr s raw k 1 out; Some (Continue, s, out) }"
  "exec_command s (str ''PEXPIRE'') raw [c, k, t] out = do { (s, out) \<leftarrow> cmd_expire s raw k t 1 False out; Some (Continue, s, out) }"
  "exec_command s (str ''PERSIST'') raw [c, k] out = do { (s, out) \<leftarrow> cmd_persist s raw k out; Some (Continue, s, out) }"
  unfolding exec_command_def
  by (subst exec_with_def, simp add: first_arm_def exec_server_def exec_string_def exec_generic_def exec_session_def)+

lemma arm_result: "do { (s, out) \<leftarrow> x; Some (Continue, s, out) } = Some (act, s', out') \<Longrightarrow> x = Some (s', out')"
  by (auto split: bind_splits)

lemma turn_exec:
  assumes on: "online s R" and room: "case q of Plain q \<Rightarrow> request_room (the_store s) (rs_now_ms s) q | _ \<Rightarrow> True"
    and e: "exec_command s (hd (turn_parts q)) raw (turn_parts q) [] = Some (act, s', reply)"
  shows "bumps s (wrote q reply) s'"
proof (cases q)
  case (Plain p)
  note d = e [unfolded Plain turn_parts.simps]
  show ?thesis
  proof (cases p)
    case (GetReq k)
    from arm_result [OF d [unfolded GetReq request_parts.simps list.sel exec_data_commands]] show ?thesis
      unfolding Plain GetReq wrote.simps by (rule read_bumps)
  next
    case (ExistsReq k)
    from arm_result [OF d [unfolded ExistsReq request_parts.simps list.sel exec_data_commands]] show ?thesis
      unfolding Plain ExistsReq wrote.simps by (rule read_bumps)
  next
    case (SetReq k v)
    have "store_room (the_store s) k (upsert_size k (write_input (rs_now_ms s) v 0))" using room Plain SetReq by simp
    from set_bumps [OF on this arm_result [OF d [unfolded SetReq request_parts.simps list.sel exec_data_commands]]] show ?thesis
      unfolding Plain SetReq wrote.simps .
  next
    case (PsetexReq k ms v)
    have "request_room (the_store s) (rs_now_ms s) (PsetexReq k ms v)" using room Plain PsetexReq by simp
    from psetex_bumps [OF this arm_result [OF d [unfolded PsetexReq request_parts.simps list.sel exec_data_commands]]] show ?thesis
      unfolding Plain PsetexReq wrote.simps .
  next
    case (DelReq k)
    from del_bumps [OF arm_result [OF d [unfolded DelReq request_parts.simps list.sel exec_data_commands]]] show ?thesis
      unfolding Plain DelReq wrote.simps .
  qed
next
  case (SetnxReq k v)
  from rmw_bumps(1) [OF arm_result [OF e [unfolded SetnxReq turn_parts.simps list.sel exec_rmw_commands]]] show ?thesis
    unfolding SetnxReq wrote.simps .
next
  case (GetsetReq k v)
  from rmw_bumps(2) [OF arm_result [OF e [unfolded GetsetReq turn_parts.simps list.sel exec_rmw_commands]]] show ?thesis
    unfolding GetsetReq wrote.simps .
next
  case (GetdelReq k)
  from rmw_bumps(3) [OF arm_result [OF e [unfolded GetdelReq turn_parts.simps list.sel exec_rmw_commands]]] show ?thesis
    unfolding GetdelReq wrote.simps .
next
  case (IncrReq k)
  from rmw_bumps(4) [OF arm_result [OF e [unfolded IncrReq turn_parts.simps list.sel exec_rmw_commands]]] show ?thesis
    unfolding IncrReq wrote.simps .
next
  case (PexpireReq k ms)
  from rmw_bumps(5) [OF arm_result [OF e [unfolded PexpireReq turn_parts.simps list.sel exec_rmw_commands]]] show ?thesis
    unfolding PexpireReq wrote.simps .
next
  case (PersistReq k)
  from rmw_bumps(6) [OF arm_result [OF e [unfolded PersistReq turn_parts.simps list.sel exec_rmw_commands]]] show ?thesis
    unfolding PersistReq wrote.simps .
qed

lemma turn_bumps:
  assumes ready: "turn_ready sh (b, now, q)" and r: "run (at_time now (on_shared sh b)) (turn_parts q) = Some (s', reply)"
  shows "sh_watch (rs_shared s') = bump_keys (wrote q reply) (sh_watch sh)"
proof -
  let ?b = "on_shared sh b"
  obtain R where on: "online ?b R" and len: "\<forall>d \<in> set (turn_parts q). int (length d) \<le> I64_MAX"
    and room: "case q of Plain q \<Rightarrow> request_room (sh_store sh) now q | _ \<Rightarrow> True" using ready by (auto simp: turn_ready_def)
  let ?s = "(at_time now ?b)\<lparr>rs_now_ms := now\<rparr>"
  obtain c args where p: "turn_parts q = c # args" and "length args \<le> 3" using turn_parts_shape by blast
  then have n: "length (turn_parts q) \<le> 1024 * 1024" by simp
  obtain act where "exec_command ?s c (encode_parts (c # args)) (c # args) [] = Some (act, s', reply)"
    using r run_online [OF on n [unfolded p] len [unfolded p] turn_name [OF p], of now] unfolding p by auto
  then have e: "exec_command ?s (hd (turn_parts q)) (encode_parts (c # args)) (turn_parts q) [] = Some (act, s', reply)" unfolding p by simp
  have f: "the_store ?s = sh_store sh" "rs_now_ms ?s = now" "sh_watch (rs_shared ?s) = sh_watch sh"
    by (simp_all add: at_time_def on_shared_def the_store_def)
  have "case q of Plain q \<Rightarrow> request_room (the_store ?s) (rs_now_ms ?s) q | _ \<Rightarrow> True" unfolding f by (rule room)
  from turn_exec [OF online_at_time(1) [OF on] this e] show ?thesis unfolding bumps_def f .
qed

lemma take_turns_bumps:
  "ready_along sh ts \<Longrightarrow> take_turns sh ts = Some (sh', replies) \<Longrightarrow>
    sh_watch sh' = bump_keys (written ts replies) (sh_watch sh) \<and> length (written ts replies) \<le> length ts"
proof (induction ts arbitrary: sh replies)
  case (Cons t ts)
  obtain b now q where t: "t = (b, now, q)" by (cases t)
  obtain s reply replies' where r: "run (at_time now (on_shared sh b)) (turn_parts q) = Some (s, reply)"
    "take_turns (rs_shared s) ts = Some (sh', replies')" "replies = reply # replies'"
    using Cons.prems(2) unfolding t by (auto split: bind_splits)
  have rd: "turn_ready sh (b, now, q)" "ready_along (rs_shared s) ts" using Cons.prems(1) r(1) unfolding t by simp_all
  have "length (wrote q reply) \<le> 1" by (cases "(q, reply)" rule: wrote.cases) simp_all
  with Cons.IH [OF rd(2) r(2)] turn_bumps [OF rd(1) r(1)] r(3) show ?case unfolding t by (simp add: bump_keys_append)
qed simp

subsection \<open>Properties\<close>

text \<open>C7: A client watches some keys; then other clients send requests in any order, each from its own session on the shared state
  (GET, EXISTS, SET, PSETEX, DEL, SETNX, GETSET, GETDEL, INCR, PEXPIRE, PERSIST), and get their replies; then the first client,
  with its transaction queued, sends EXEC. EXEC answers a null array and runs nothing exactly when one of these requests wrote a
  key, as its reply tells (a SET or PSETEX, a DEL that did not answer 0, a SETNX, PEXPIRE or PERSIST that answered 1, a GETDEL that
  found a value, an INCR without error, a GETSET), whose version slot is the slot of a watched key. So every such write of a watched
  key aborts the transaction, and another write does so only by sharing a slot. Otherwise the queued commands run. FLUSHALL is not
  among the requests: it removes keys and moves no version.\<close>

theorem watch_exec_conflict:
  assumes "command_name name = str ''WATCH''" and "keys \<noteq> []" and "t_in_multi (rs_txn a) = False" and "t_watches (rs_txn a) = []"
    and "dispatch a raw (name # keys) out = Some (act, a1, out1)" and "watch_ok (sh_watch (rs_shared a))"
    and "take_turns (rs_shared a1) ts = Some (sh, replies)" and "ready_along (rs_shared a1) ts" and "length ts < 2 ^ 64"
    and "t_watches (rs_txn e) = t_watches (rs_txn a1)" and "t_in_multi (rs_txn e)" and "\<not> t_dirty (rs_txn e)"
  shows "exec_command (on_shared sh e) (str ''EXEC'') raw' args out' =
    (if \<exists>k \<in> set keys. slot_of (sh_watch (rs_shared a)) k \<in> slot_of (sh_watch (rs_shared a)) ` set (written ts replies)
     then Some (Continue, discard (on_shared sh e), out' @ NULL_ARRAY)
     else do { (s, o') \<leftarrow> exec_transaction exec_command
                 (set_txn (on_shared sh e) ((rs_txn e)\<lparr>t_queued := [], t_in_multi := False, t_watches := []\<rparr>)) (t_queued (rs_txn e)) out';
               Some (Continue, s, o') })"
proof -
  let ?w = "sh_watch (rs_shared a)" and ?e = "on_shared sh e"
  have f: "rs_txn ?e = rs_txn e" "rs_shared ?e = sh" by (simp_all add: on_shared_def)
  have "\<not> t_in_multi (rs_txn a)" using assms(3) by simp
  note w = dispatch_WATCH [OF assms(1,2) this assms(5)]
  have t: "t_watches (rs_txn ?e) = map (slot_version ?w) keys" using assms(4,10) w(1) f by simp
  have b: "sh_watch (rs_shared ?e) = bump_keys (written ts replies) ?w" "length (written ts replies) < 2 ^ 64"
    using take_turns_bumps [OF assms(8,7)] assms(9) w(2) f by simp_all
  from conflict_iff [OF assms(6) b(2,1) t] assms(11,12) show ?thesis
    unfolding exec_EXEC by (simp add: cmd_exec_def Let_def f)
qed

theorem watch_exec_conflict_witness:
  "\<exists>a1 sh replies. dispatch demo_client [] [str ''WATCH'', [107]] [] = Some (Continue, a1, OK)
    \<and> take_turns (rs_shared a1) [(demo_client, 5, Plain (SetReq [107] [118]))] = Some (sh, replies)
    \<and> (let e = on_shared sh (set_txn a1 ((rs_txn a1)\<lparr>t_in_multi := True\<rparr>)) in
       exec_command e (str ''EXEC'') [] [str ''EXEC''] [] = Some (Continue, discard e, NULL_ARRAY))"
proof -
  let ?a = demo_client and ?ts = "[(demo_client, 5, Plain (SetReq [107] [118]))]"
  have a: "rs_replay ?a = False" "t_in_multi (rs_txn ?a) = False" "t_watches (rs_txn ?a) = []" "t_dirty (rs_txn ?a) = False" "sh_watch (rs_shared ?a) = watch_new 2"
    by (simp_all add: demo_client_def resp_session_new_def txn_default_def demo_shared_def)
  obtain a1 where d: "dispatch ?a [] [str ''WATCH'', [107]] [] = Some (Continue, a1, OK)"
    using dispatch_control [of "[str ''WATCH'', [107]]" ?a "[]" "[]"] a(1,2) exec_WATCH [of "[str ''WATCH'', [107]]"]
    by (simp add: is_control_def cmd_watch_def del: str_Cons)
  have nm: "\<not> t_in_multi (rs_txn ?a)" using a(2) by simp
  note w = dispatch_WATCH [OF names_simps(2) _ nm d]
  have sh: "rs_shared a1 = rs_shared ?a" "on_shared (rs_shared ?a) ?a = ?a" "sh_store (rs_shared ?a) = demo_store"
    using w(2) demo_online(2) by (simp_all add: on_shared_def the_store_def)
  have room: "request_room demo_store 5 (SetReq [107] [118])"
    using demo_store_ok(1,2) demo_set_fits(1) [of Set 5] by (simp add: store_room_def can_run_read write_input_def input_simple_def)
  have len: "\<forall>x \<in> set (request_parts (SetReq [107] [118])). int (length x) \<le> I64_MAX" by (simp add: I64_MAX_def)
  have ready: "ready_along (rs_shared a1) ?ts"
    using demo_online(1) room len sh by (auto simp: turn_ready_def split: option.splits)
  from request_serves [OF demo_online(1) _ len] room demo_online(2) obtain s1 where
    s1: "run (at_time 5 ?a) (request_parts (SetReq [107] [118])) = Some (s1, OK)" by auto
  have tt: "take_turns (rs_shared a1) ?ts = Some (rs_shared s1, [OK])" using s1 sh by (simp del: request_parts.simps)
  let ?e = "set_txn a1 ((rs_txn a1)\<lparr>t_in_multi := True\<rparr>)"
  have e: "t_watches (rs_txn ?e) = t_watches (rs_txn a1)" "t_in_multi (rs_txn ?e)" "\<not> t_dirty (rs_txn ?e)"
    using w(1) a(4) by (simp_all add: set_txn_def)
  have ok: "watch_ok (sh_watch (rs_shared ?a))" using a(5) watch_new_ok by simp
  have "[[107]] \<noteq> []" "length ?ts < 2 ^ 64" by simp_all
  from watch_exec_conflict [OF names_simps(2) this(1) a(2,3) d ok tt ready this(2) e, of "[]" "[str ''EXEC'']" "[]"]
  have "exec_command (on_shared (rs_shared s1) ?e) (str ''EXEC'') [] [str ''EXEC''] [] =
      Some (Continue, discard (on_shared (rs_shared s1) ?e), NULL_ARRAY)" by simp
  with d tt show ?thesis by (auto simp: Let_def)
qed

end
