(* ===== verification/Devices.thy ===== *)
theory Devices
  imports LogFlush Aof
begin

text \<open>
  The devices of \<^verbatim>\<open>device.rs\<close>. The log is modelled over the memory device (\<open>write_at\<close>, \<open>read_at\<close>); a server with persistence
  runs on \<open>FileDevice\<close>, whose calls are the loops \<open>write_all_at\<close> and \<open>read_exact_at\<close> of the standard library over the
  system calls \<open>pwrite\<close> and \<open>pread\<close>. A system call may move fewer bytes than asked, be interrupted, or fail: the list
  \<open>os_results\<close> says what the next calls do, and an empty list stands for calls that move everything. What the log needs of a
  device is the locale \<open>log_device\<close>; both devices are instances of it.
\<close>

datatype os_result = Moves nat | Interrupted | Fails bytes

record file_device =
  content :: bytes
  os_results :: "os_result list"

definition file_open :: "bytes option \<Rightarrow> os_result list \<Rightarrow> file_device" where
  \<comment> \<open>\<open>create(true).truncate(false)\<close>: an existing file keeps its bytes\<close>
  "file_open f rs = \<lparr>content = (case f of None \<Rightarrow> [] | Some b \<Rightarrow> b), os_results = rs\<rparr>"

fun write_all_at :: "bytes \<Rightarrow> nat \<Rightarrow> bytes \<Rightarrow> os_result list \<Rightarrow> unit io \<times> bytes \<times> os_result list" where
  "write_all_at f addr [] rs = (Inr (), f, rs)"
| "write_all_at f addr buf [] = (Inr (), write_at f addr buf, [])"
| "write_all_at f addr buf (Interrupted # rs) = write_all_at f addr buf rs"
| "write_all_at f addr buf (Fails e # rs) = (Inl e, f, rs)"
| "write_all_at f addr buf (Moves n # rs) =
     (if n = 0 then (Inl (str ''failed to write whole buffer''), f, rs)
      else write_all_at (write_at f addr (take n buf)) (addr + min n (length buf)) (drop n buf) rs)"

fun read_exact_at :: "bytes \<Rightarrow> nat \<Rightarrow> nat \<Rightarrow> os_result list \<Rightarrow> bytes io \<times> os_result list" where
  \<comment> \<open>the bytes of the buffer, in order; \<open>pread\<close> moves nothing only at the end of the file\<close>
  "read_exact_at f addr n [] =
     (if n \<le> length f - addr then (Inr (slice_at f addr n), []) else (Inl (str ''failed to fill whole buffer''), []))"
| "read_exact_at f addr n (r # rs) =
     (if n = 0 then (Inr [], r # rs)
      else case r of
        Interrupted \<Rightarrow> read_exact_at f addr n rs
      | Fails e \<Rightarrow> (Inl e, rs)
      | Moves k \<Rightarrow>
          (let m = min (max k 1) (min n (length f - addr)) in
           if m = 0 then (Inl (str ''failed to fill whole buffer''), rs)
           else case read_exact_at f (addr + m) (n - m) rs of
               (Inl e, rs) \<Rightarrow> (Inl e, rs)
             | (Inr b, rs) \<Rightarrow> (Inr (slice_at f addr m @ b), rs)))"

definition file_write_at :: "file_device \<Rightarrow> nat \<Rightarrow> bytes \<Rightarrow> unit io \<times> file_device" where
  "file_write_at d addr buf = (let (r, f, rs) = write_all_at (content d) addr buf (os_results d) in (r, \<lparr>content = f, os_results = rs\<rparr>))"

definition file_read_at :: "file_device \<Rightarrow> nat \<Rightarrow> nat \<Rightarrow> bytes io \<times> file_device" where
  "file_read_at d addr n = (let (r, rs) = read_exact_at (content d) addr n (os_results d) in (r, d\<lparr>os_results := rs\<rparr>))"

definition file_sync :: "file_device \<Rightarrow> unit io \<times> file_device" where
  "file_sync d = (case os_results d of Fails e # rs \<Rightarrow> (Inl e, d\<lparr>os_results := rs\<rparr>) | r # rs \<Rightarrow> (Inr (), d\<lparr>os_results := rs\<rparr>) | [] \<Rightarrow> (Inr (), d))"

definition mem_write_at :: "bytes \<Rightarrow> nat \<Rightarrow> bytes \<Rightarrow> unit io \<times> bytes" where
  "mem_write_at d addr buf = (Inr (), write_at d addr buf)"

definition mem_read_at :: "bytes \<Rightarrow> nat \<Rightarrow> nat \<Rightarrow> bytes io \<times> bytes" where
  "mem_read_at d addr n = (case read_at d addr n of None \<Rightarrow> Inl (str ''read past end of MemDevice'') | Some b \<Rightarrow> Inr b, d)"

subsection \<open>The contract of a device\<close>

definition written :: "bytes \<Rightarrow> nat \<Rightarrow> bytes \<Rightarrow> bytes" where
  \<comment> \<open>the bytes after a write that may have moved nothing\<close>
  "written f addr buf = (if buf = [] then f else write_at f addr buf)"

text \<open>A device that is written like a log, each chunk behind the one before.\<close>

fun append_all :: "('d \<Rightarrow> nat \<Rightarrow> bytes \<Rightarrow> unit io \<times> 'd) \<Rightarrow> 'd \<Rightarrow> nat \<Rightarrow> bytes list \<Rightarrow> unit io \<times> 'd" where
  "append_all wr d a [] = (Inr (), d)"
| "append_all wr d a (x # xs) =
     (case wr d a x of (Inl e, d') \<Rightarrow> (Inl e, d') | (Inr _, d') \<Rightarrow> append_all wr d' (a + length x) xs)"

lemma write_at_end: "a \<le> length f \<Longrightarrow> take (a + length x) (write_at f a x) = take a f @ x"
  by (rule nth_equalityI) (auto simp: length_write_at nth_write_at nth_append)

locale log_device =
  fixes wr :: "'d \<Rightarrow> nat \<Rightarrow> bytes \<Rightarrow> unit io \<times> 'd" and rd :: "'d \<Rightarrow> nat \<Rightarrow> nat \<Rightarrow> bytes io \<times> 'd" and bytes_of :: "'d \<Rightarrow> bytes"
  assumes wr_ok: "wr d a x = (Inr y, d') \<Longrightarrow> x \<noteq> [] \<Longrightarrow> bytes_of d' = write_at (bytes_of d) a x"
    and wr_failed: "wr d a x = (Inl e, d') \<Longrightarrow> \<exists>k \<le> length x. bytes_of d' = written (bytes_of d) a (take k x)"
    and rd_ok: "rd d a n = (Inr b, d') \<Longrightarrow> 0 < n \<Longrightarrow> read_at (bytes_of d) a n = Some b"
    and rd_keeps: "rd d a n = (r, d') \<Longrightarrow> bytes_of d' = bytes_of d"
begin

lemma wr_below:
  assumes "wr d a x = (r, d')" and "x \<noteq> []" and "a \<le> length (bytes_of d)"
  shows "take a (bytes_of d') = take a (bytes_of d)" and "a \<le> length (bytes_of d')"
proof -
  have *: "take a (written f a y) = take a f \<and> a \<le> length (written f a y)" if "a \<le> length f" for f y
    using that by (auto simp: written_def nth_write_at length_write_at intro!: nth_equalityI)
  have "\<exists>y. bytes_of d' = written (bytes_of d) a y"
  proof (cases r)
    case (Inl e)
    then show ?thesis using wr_failed assms(1) by blast
  next
    case (Inr y)
    then have "bytes_of d' = written (bytes_of d) a x" using wr_ok [of d a x y d'] assms(1,2) by (simp add: written_def)
    then show ?thesis by blast
  qed
  with * [OF assms(3)] show "take a (bytes_of d') = take a (bytes_of d)" "a \<le> length (bytes_of d')" by auto
qed

lemma append_all_ok:
  assumes "append_all wr d a xs = (Inr y, d')" and "\<forall>x \<in> set xs. x \<noteq> []" and "a \<le> length (bytes_of d)"
  shows "take (a + length (concat xs)) (bytes_of d') = take a (bytes_of d) @ concat xs \<and> a + length (concat xs) \<le> length (bytes_of d')"
  using assms
proof (induction xs arbitrary: d a)
  case (Cons x xs)
  obtain u d1 where w: "wr d a x = (Inr u, d1)" "append_all wr d1 (a + length x) xs = (Inr y, d')"
    using Cons.prems(1) by (auto split: prod.splits sum.splits)
  have b1: "bytes_of d1 = write_at (bytes_of d) a x" using wr_ok [OF w(1)] Cons.prems(2) by simp
  have "a + length x \<le> length (bytes_of d1)" by (simp add: b1 length_write_at)
  from Cons.IH [OF w(2) _ this] Cons.prems(2)
  have "take (a + length x + length (concat xs)) (bytes_of d') = take (a + length x) (bytes_of d1) @ concat xs"
    "a + length x + length (concat xs) \<le> length (bytes_of d')" by auto
  then show ?case using write_at_end [OF Cons.prems(3), of x] by (simp add: b1 add.assoc)
qed simp

lemma append_all_failed:
  assumes "append_all wr d a xs = (r, d')" and "\<forall>x \<in> set xs. x \<noteq> []" and "a \<le> length (bytes_of d)"
  shows "take a (bytes_of d') = take a (bytes_of d)"
  using assms
proof (induction xs arbitrary: d a)
  case (Cons x xs)
  obtain r1 d1 where w: "wr d a x = (r1, d1)" by fastforce
  have x: "x \<noteq> []" using Cons.prems(2) by simp
  note b = wr_below [OF w x Cons.prems(3)]
  show ?case
  proof (cases r1)
    case (Inl e)
    then show ?thesis using Cons.prems(1) w b by simp
  next
    case (Inr u)
    then have r: "append_all wr d1 (a + length x) xs = (r, d')" using Cons.prems(1) w by simp
    have "a + length x \<le> length (bytes_of d1)" using wr_ok [of d a x u d1] w Inr x by (simp add: length_write_at)
    from Cons.IH [OF r _ this] Cons.prems(2) have "take (a + length x) (bytes_of d') = take (a + length x) (bytes_of d1)" by simp
    then have "take a (take (a + length x) (bytes_of d')) = take a (take (a + length x) (bytes_of d1))" by simp
    then show ?thesis using b(1) by simp
  qed
qed simp

end

subsection \<open>Both devices keep it\<close>

lemma write_at_append: "x \<noteq> [] \<Longrightarrow> write_at (write_at f a x) (a + length x) y = write_at f a (x @ y)"
  by (rule nth_equalityI) (auto simp: length_write_at nth_write_at nth_append)

lemma write_all_ok:
  "write_all_at f a x rs = (Inr u, f', rs') \<Longrightarrow> f' = written f a x"
proof (induction f a x rs arbitrary: f' rs' rule: write_all_at.induct)
  case (5 f a v va n rs)
  let ?x = "v # va"
  from "5.prems" have n: "n \<noteq> 0" and r: "write_all_at (write_at f a (take n ?x)) (a + min n (length ?x)) (drop n ?x) rs = (Inr u, f', rs')"
    by (auto split: if_splits)
  from "5.IH" [OF n r] have f': "f' = written (write_at f a (take n ?x)) (a + min n (length ?x)) (drop n ?x)" .
  have "take n ?x \<noteq> []" "length (take n ?x) = min n (length ?x)" using n by (simp_all add: min.commute)
  then show ?case using write_at_append [of "take n ?x" f a "drop n ?x"] f' by (auto simp: written_def)
qed (auto simp: written_def)

lemma write_all_failed:
  "write_all_at f a x rs = (Inl e, f', rs') \<Longrightarrow> \<exists>k \<le> length x. f' = written f a (take k x)"
proof (induction f a x rs arbitrary: f' rs' rule: write_all_at.induct)
  case (4 f a v va e rs)
  then show ?case by (intro exI [of _ 0]) (simp add: written_def)
next
  case (5 f a v va n rs)
  let ?x = "v # va"
  show ?case
  proof (cases "n = 0")
    case True
    with "5.prems" show ?thesis by (intro exI [of _ 0]) (simp add: written_def)
  next
    case n: False
    with "5.prems" have r: "write_all_at (write_at f a (take n ?x)) (a + min n (length ?x)) (drop n ?x) rs = (Inl e, f', rs')" by simp
    from "5.IH" [OF n r] obtain k where k: "k \<le> length (drop n ?x)"
      "f' = written (write_at f a (take n ?x)) (a + min n (length ?x)) (take k (drop n ?x))" by blast
    have t: "take n ?x \<noteq> []" "length (take n ?x) = min n (length ?x)" using n by (simp_all add: min.commute)
    have "take n ?x @ take k (drop n ?x) = take (n + k) ?x" by (simp add: take_add)
    then have "f' = written f a (take (n + k) ?x)"
      using write_at_append [OF t(1), of f a "take k (drop n ?x)"] t k(2) by (auto simp: written_def)
    moreover have "take (n + k) ?x = take (min (n + k) (length ?x)) ?x" by (simp add: min_def)
    ultimately show ?thesis by (intro exI [of _ "min (n + k) (length ?x)"]) simp
  qed
qed simp_all

lemma slice_split: "m \<le> n \<Longrightarrow> slice_at f a m @ slice_at f (a + m) (n - m) = slice_at f a n"
  using take_add [of m "n - m" "drop a f"] by (simp add: slice_at_def add.commute)

lemma read_exact_ok:
  "read_exact_at f a n rs = (Inr b, rs') \<Longrightarrow> 0 < n \<Longrightarrow> read_at f a n = Some b"
proof (induction f a n rs arbitrary: b rs' rule: read_exact_at.induct)
  case (1 f a n)
  then show ?case by (auto simp: read_at_def split: if_splits)
next
  case (2 f a n r rs)
  show ?case
  proof (cases r)
    case (Moves k)
    let ?m = "min (max k 1) (min n (length f - a))"
    from "2.prems" Moves obtain c where m: "?m \<noteq> 0" and c: "read_exact_at f (a + ?m) (n - ?m) rs = (Inr c, rs')" "b = slice_at f a ?m @ c"
      by (auto simp: Let_def split: if_splits prod.splits sum.splits)
    have le: "?m \<le> n" "a + ?m \<le> length f" using m by linarith+
    show ?thesis
    proof (cases "n = ?m")
      case True
      then have "c = []" using c(1) by (cases rs) (auto simp: slice_at_def)
      then show ?thesis using True c(2) le(2) by (metis append_Nil2 linorder_not_le read_at_def)
    next
      case False
      then have "0 < n - ?m" using le(1) by simp
      from "2.IH"(1) [OF _ Moves refl m c(1) this] "2.prems"(2) have "read_at f (a + ?m) (n - ?m) = Some c" by simp
      then have "a + n \<le> length f" "c = slice_at f (a + ?m) (n - ?m)" using le(1) by (auto simp: read_at_def split: if_splits)
      moreover have "slice_at f a ?m @ slice_at f (a + ?m) (n - ?m) = slice_at f a n"
        by (rule slice_split [OF le(1)])
      ultimately show ?thesis using c(2) by (simp add: read_at_def)
    qed
  qed (use 2 in auto)
qed

interpretation mdev: log_device mem_write_at mem_read_at "\<lambda>d. d"
  by unfold_locales (auto simp: mem_write_at_def mem_read_at_def split: option.splits)

interpretation fdev: log_device file_write_at file_read_at content
proof
  show "content d' = write_at (content d) a x" if "file_write_at d a x = (Inr y, d')" "x \<noteq> []" for d a x y d'
    using that write_all_ok by (fastforce simp: file_write_at_def Let_def written_def split: prod.splits)
  show "\<exists>k \<le> length x. content d' = written (content d) a (take k x)" if "file_write_at d a x = (Inl e, d')" for d a x e d'
    using that write_all_failed by (fastforce simp: file_write_at_def Let_def split: prod.splits)
  show "read_at (content d) a n = Some b" if "file_read_at d a n = (Inr b, d')" "0 < n" for d a n b d'
    using that read_exact_ok by (fastforce simp: file_read_at_def Let_def split: prod.splits)
  show "content d' = content d" if "file_read_at d a n = (r, d')" for d a n r d'
    using that by (auto simp: file_read_at_def Let_def split: prod.splits)
qed

lemma read_exact_total:
  "a + n \<le> length f \<Longrightarrow> \<forall>e. Fails e \<notin> set rs \<Longrightarrow> \<exists>b rs'. read_exact_at f a n rs = (Inr b, rs')"
proof (induction f a n rs rule: read_exact_at.induct)
  case (2 f a n r rs)
  have nf: "\<forall>e. Fails e \<notin> set rs" using "2.prems"(2) by auto
  show ?case
  proof (cases "n = 0")
    case n: False
    show ?thesis
    proof (cases r)
      case (Moves k)
      let ?m = "min (max k 1) (min n (length f - a))"
      have m: "?m \<noteq> 0" "?m \<le> n" using n "2.prems"(1) by auto
      then have "a + ?m + (n - ?m) \<le> length f" using "2.prems"(1) by linarith
      from "2.IH"(1) [OF n Moves refl m(1) this nf] obtain b rs' where "read_exact_at f (a + ?m) (n - ?m) rs = (Inr b, rs')" by blast
      then show ?thesis using n Moves m(1) by (simp add: Let_def)
    qed (use n 2 nf in auto)
  qed simp
qed (auto simp: le_diff_conv2)

text \<open>C31: A file written like the log, chunk behind chunk, with any pattern of short and interrupted system calls: the bytes below
  the first chunk stay, whatever fails; and when every write has reported success, reading the range back gives exactly the
  chunks, unless a read itself fails.\<close>

theorem file_device_appends:
  assumes w: "append_all file_write_at d a xs = (r, d')" and x: "\<forall>x \<in> set xs. x \<noteq> []" and a: "a \<le> length (content d)"
  shows "take a (content d') = take a (content d)
    \<and> (r = Inr () \<longrightarrow> (\<forall>e. Fails e \<notin> set (os_results d')) \<longrightarrow> fst (file_read_at d' a (length (concat xs))) = Inr (concat xs))"
proof (intro conjI impI)
  show "take a (content d') = take a (content d)" by (rule fdev.append_all_failed [OF w x a])
  assume ok: "r = Inr ()" and nf: "\<forall>e. Fails e \<notin> set (os_results d')"
  let ?n = "length (concat xs)"
  from fdev.append_all_ok [OF w [unfolded ok] x a]
  have t: "take (a + ?n) (content d') = take a (content d) @ concat xs" "a + ?n \<le> length (content d')" by auto
  have "drop a (take (a + ?n) (content d')) = concat xs" using a by (simp add: t(1))
  then have sl: "slice_at (content d') a ?n = concat xs" by (simp add: slice_at_def drop_take)
  obtain b rs where r: "read_exact_at (content d') a ?n (os_results d') = (Inr b, rs)" using read_exact_total [OF t(2) nf] by blast
  have "b = concat xs"
  proof (cases "?n = 0")
    case True
    then have "b = []" using r by (cases "os_results d'") (auto simp: slice_at_def split: if_splits)
    then show ?thesis using True by simp
  next
    case False
    then show ?thesis using read_exact_ok [OF r] t(2) sl by (simp add: read_at_def)
  qed
  then show "fst (file_read_at d' a ?n) = Inr (concat xs)" by (simp add: file_read_at_def r)
qed

theorem file_device_appends_witness:
  "\<exists>d'. append_all file_write_at \<lparr>content = [9], os_results = [Moves 1, Interrupted, Moves 7, Moves 1]\<rparr> 1 [[1, 2, 3], [4, 5]] = (Inr (), d')
     \<and> fst (file_read_at d' 1 5) = Inr [1, 2, 3, 4, 5]"
proof -
  let ?d = "\<lparr>content = [9], os_results = [Moves 1, Interrupted, Moves 7, Moves 1]\<rparr>"
  have e: "append_all file_write_at ?d 1 [[1, 2, 3], [4, 5]] = (Inr (), \<lparr>content = [9, 1, 2, 3, 4, 5], os_results = []\<rparr>)" by code_simp
  have "fst (file_read_at \<lparr>content = [9, 1, 2, 3, 4, 5], os_results = []\<rparr> 1 5) = Inr [1, 2, 3, 4, 5]"
    using file_device_appends [OF e] by (simp add: eval_nat_numeral)
  with e show ?thesis by blast
qed

end
