(* ===== verification/Server.thy ===== *)
theory Server
  imports Resp
begin

text \<open>
  The connection loop of \<^verbatim>\<open>server.rs\<close>: read into the receive buffer, run every complete command of
  the batch, flush the replies, move the incomplete tail to the front. The network is a list of
  arrivals; a read takes as much of the next arrival as the buffer has room for, and the empty list is the
  end of the stream. The session is a parameter: \<open>disp st raw argv\<close> gives the session after a command, the
  bytes it appends to the send buffer, and whether it asks to close.
\<close>

definition INITIAL_RECV :: nat where "INITIAL_RECV = 64 * 1024"
definition MAX_RECV :: nat where "MAX_RECV = 512 * 1024 * 1024"

type_synonym 'st disp = "'st \<Rightarrow> bytes \<Rightarrow> bytes list \<Rightarrow> 'st \<times> bytes \<times> bool"

function batch :: "'st disp \<Rightarrow> bytes \<Rightarrow> nat \<Rightarrow> 'st \<Rightarrow> bytes \<Rightarrow> 'st \<times> bytes \<times> nat \<times> bool" where
  \<comment> \<open>the inner loop over one receive buffer: session, send buffer, \<open>read_head\<close>, \<open>close\<close>\<close>
  "batch disp buf read_head st send =
     (case parse_command buf read_head of
        Inr (Some (next, slices)) \<Rightarrow>
          (let argv = map (\<lambda>a. arg_bytes a buf) slices;
               (st', reply, close) = disp st (slice_at buf read_head (next - read_head)) argv
           in if close then (st', send @ reply, next, True) else batch disp buf next st' (send @ reply))
      | Inr None \<Rightarrow> (st, send, read_head, False)
      | Inl e \<Rightarrow> (st, write_error send (str ''ERR Protocol error''), read_head, True))"
  by pat_completeness auto
termination
  using parse_command_ok
  by (relation "measure (\<lambda>(disp, buf, h, st, send). length buf - h)") (fastforce simp: args_ok_def)+

declare batch.simps [simp del]

record 'st conn =
  c_cap :: nat \<comment> \<open>\<open>recv.len()\<close>\<close>
  c_recv :: bytes \<comment> \<open>\<open>recv[..bytes_read]\<close>\<close>
  c_sess :: 'st

datatype conn_end = Eof | Closed | TooLarge

definition grow :: "nat \<Rightarrow> nat \<Rightarrow> nat option" where
  \<comment> \<open>the capacity after the check at the top of the loop; \<open>None\<close>: \<open>"command too large"\<close>\<close>
  "grow cap bytes_read =
     (if bytes_read = cap then if MAX_RECV \<le> cap then None else Some (min (cap * 2) MAX_RECV) else Some cap)"

function conn_loop :: "'st disp \<Rightarrow> 'st conn \<Rightarrow> bytes list \<Rightarrow> bytes list \<Rightarrow> conn_end \<times> bytes list \<times> 'st" where
  \<comment> \<open>\<open>handle_connection\<close>: how it ended, the flushed batches in order, the session\<close>
  "conn_loop disp c [] sent = (if grow (c_cap c) (length (c_recv c)) = None then TooLarge else Eof, sent, c_sess c)"
| "conn_loop disp c (x # xs) sent =
     (case grow (c_cap c) (length (c_recv c)) of
        None \<Rightarrow> (TooLarge, sent, c_sess c)
      | Some cap \<Rightarrow>
          (let n = min (length x) (cap - length (c_recv c)) in
           if n = 0 then (Eof, sent, c_sess c)
           else
             (let recv = c_recv c @ take n x;
                  (st, send, read_head, close) = batch disp recv 0 (c_sess c) [];
                  sent' = (if send = [] then sent else sent @ [send]);
                  rest = (if n < length x then drop n x # xs else xs)
              in if close then (Closed, sent', st)
                 else conn_loop disp \<lparr>c_cap = cap, c_recv = drop read_head recv, c_sess = st\<rparr> rest sent')))"
  by pat_completeness auto
termination
  by (relation "measure (\<lambda>(disp, c, xs, sent). length (concat xs) + length xs)") (auto split: if_splits)

declare conn_loop.simps [simp del]

definition handle_connection :: "'st disp \<Rightarrow> 'st \<Rightarrow> bytes list \<Rightarrow> conn_end \<times> bytes list \<times> 'st" where
  "handle_connection disp st arrivals =
     conn_loop disp \<lparr>c_cap = INITIAL_RECV, c_recv = [], c_sess = st\<rparr> arrivals []"

subsection \<open>The parser does not depend on what it already consumed\<close>

fun shift_result :: "nat \<Rightarrow> parse_result \<Rightarrow> parse_result" where
  "shift_result k (Inr (Some (next, args))) =
     Inr (Some (k + next, map (\<lambda>a. \<lparr>a_start = k + a_start a, a_end = k + a_end a\<rparr>) args))"
| "shift_result k r = r"

lemma shift_result_None: "shift_result k r = Inr None \<longleftrightarrow> r = Inr None"
  by (cases "(k, r)" rule: shift_result.cases) auto

lemma find_crlf_shift: "find_crlf (pre @ buf) (length pre + i) = map_option ((+) (length pre)) (find_crlf buf i)"
proof (induction buf i rule: find_crlf.induct)
  case (1 buf i)
  then show ?case by (subst find_crlf.simps, subst (2) find_crlf.simps) (auto simp: nth_append)
qed

lemma slice_shift: "slice_at (pre @ buf) (length pre + i) n = slice_at buf i n"
  by (simp add: slice_at_def)

lemma nth_shift: "(pre @ buf) ! (length pre + i) = buf ! i"
  by (simp add: nth_append)

lemma parse_bulks_shift:
  "parse_bulks (pre @ buf) n (length pre + cur)
      (map (\<lambda>a. \<lparr>a_start = length pre + a_start a, a_end = length pre + a_end a\<rparr>) args) =
   shift_result (length pre) (parse_bulks buf n cur args)"
proof (induction n arbitrary: cur args)
  case (Suc n)
  show ?case
  proof (cases "find_crlf buf (cur + 1)")
    case None
    then have "find_crlf (pre @ buf) (length pre + cur + 1) = None"
      using find_crlf_shift [of pre buf "cur + 1"] by (simp add: add.assoc)
    with None show ?thesis by (simp add: nth_shift)
  next
    case (Some cr)
    let ?k = "length pre"
    have f: "find_crlf (pre @ buf) (?k + cur + 1) = Some (?k + cr)"
      using find_crlf_shift [of pre buf "cur + 1"] Some by (simp add: add.assoc)
    have sl: "slice_at (pre @ buf) (?k + cur + 1) (?k + cr - (?k + cur + 1)) = slice_at buf (cur + 1) (cr - (cur + 1))"
      using slice_shift [of pre buf "cur + 1"] by (simp add: add.assoc)
    show ?thesis
    proof (cases "parse_int (slice_at buf (cur + 1) (cr - (cur + 1)))")
      case (Inl e)
      with Some f sl show ?thesis by (simp add: nth_shift)
    next
      case (Inr len)
      let ?e = "cr + 2 + nat len"
      have e: "?k + cr + 2 + nat len = ?k + ?e" by simp
      have n1: "(pre @ buf) ! (?k + ?e) = buf ! ?e" "(pre @ buf) ! (?k + ?e + 1) = buf ! (?e + 1)"
        using nth_shift [of pre buf ?e] nth_shift [of pre buf "?e + 1"] by (simp_all add: add.assoc)
      have IH: "parse_bulks (pre @ buf) n (?k + ?e + 2) (map (\<lambda>a. \<lparr>a_start = ?k + a_start a, a_end = ?k + a_end a\<rparr>) args
            @ [\<lparr>a_start = ?k + cr + 2, a_end = ?k + ?e\<rparr>]) =
          shift_result ?k (parse_bulks buf n (?e + 2) (args @ [\<lparr>a_start = cr + 2, a_end = ?e\<rparr>]))"
        using Suc.IH [of "?e + 2" "args @ [\<lparr>a_start = cr + 2, a_end = ?e\<rparr>]"] by (simp add: add.assoc)
      have l1: "length (pre @ buf) \<le> ?k + cur \<longleftrightarrow> length buf \<le> cur"
        and l2: "length (pre @ buf) < ?k + ?e + 2 \<longleftrightarrow> length buf < ?e + 2" by auto
      show ?thesis
        unfolding parse_bulks.simps l1 nth_shift f option.case sl Inr sum.case Let_def e l2 n1 Some IH
        by simp
    qed
  qed
qed simp

lemma skip_while_shift: "skip_while P (pre @ buf) (length pre + i) (length pre + cr) = length pre + skip_while P buf i cr"
proof (induction P buf i cr rule: skip_while.induct)
  case (1 P buf i cr)
  then show ?case
    by (subst skip_while.simps, subst (2) skip_while.simps) (auto simp: nth_shift)
qed

lemma inline_args_shift:
  "inline_args (pre @ buf) (length pre + i) (length pre + cr) =
     map (\<lambda>a. \<lparr>a_start = length pre + a_start a, a_end = length pre + a_end a\<rparr>) (inline_args buf i cr)"
proof (induction buf i cr rule: inline_args.induct)
  case (1 buf i cr)
  then show ?case
    by (subst inline_args.simps, subst (2) inline_args.simps) (auto simp: skip_while_shift Let_def)
qed

lemma parse_array_shift: "parse_array (pre @ buf) (length pre + pos) = shift_result (length pre) (parse_array buf pos)"
proof (cases "find_crlf buf (pos + 1)")
  case None
  then have "find_crlf (pre @ buf) (length pre + pos + 1) = None"
    using find_crlf_shift [of pre buf "pos + 1"] by (simp add: add.assoc)
  with None show ?thesis by (simp add: parse_array_def)
next
  case (Some cr)
  let ?k = "length pre"
  have f: "find_crlf (pre @ buf) (?k + pos + 1) = Some (?k + cr)"
    using find_crlf_shift [of pre buf "pos + 1"] Some by (simp add: add.assoc)
  have sl: "slice_at (pre @ buf) (?k + pos + 1) (?k + cr - (?k + pos + 1)) = slice_at buf (pos + 1) (cr - (pos + 1))"
    using slice_shift [of pre buf "pos + 1"] by (simp add: add.assoc)
  have b: "parse_bulks (pre @ buf) n (?k + cr + 2) [] = shift_result ?k (parse_bulks buf n (cr + 2) [])" for n
    using parse_bulks_shift [of pre buf n "cr + 2" "[]"] by (simp add: add.assoc)
  show ?thesis
    unfolding parse_array_def f option.case sl Some b by (auto split: sum.splits)
qed

lemma parse_command_shift:
  "parse_command (pre @ buf) (length pre + pos) = shift_result (length pre) (parse_command buf pos)"
proof -
  have "parse_inline (pre @ buf) (length pre + pos) = shift_result (length pre) (parse_inline buf pos)"
    using find_crlf_shift [of pre buf pos] inline_args_shift [of pre buf pos]
    by (cases "find_crlf buf pos") (simp_all add: parse_inline_def)
  then show ?thesis by (simp add: parse_command_def parse_array_shift nth_shift)
qed

lemma arg_bytes_shift: "arg_bytes \<lparr>a_start = length pre + a_start a, a_end = length pre + a_end a\<rparr> (pre @ buf) = arg_bytes a buf"
  by (simp add: arg_bytes_def slice_shift)

lemma batch_cmd:
  assumes "parse_command buf h = Inr (Some (nxt, args))" and "map (\<lambda>a. arg_bytes a buf) args = argv"
    and "slice_at buf h (nxt - h) = raw" and "disp st raw argv = (st', reply, close)"
  shows "batch disp buf h st send =
    (if close then (st', send @ reply, nxt, True) else batch disp buf nxt st' (send @ reply))"
  using assms by (subst batch.simps) (simp add: Let_def)

lemma batch_induct [case_names error wait cmd]:
  assumes error: "\<And>h st send e. parse_command buf h = Inl e \<Longrightarrow> P h st send"
    and wait: "\<And>h st send. parse_command buf h = Inr None \<Longrightarrow> P h st send"
    and cmd: "\<And>h st send nxt args st' reply close. parse_command buf h = Inr (Some (nxt, args)) \<Longrightarrow>
      disp st (slice_at buf h (nxt - h)) (map (\<lambda>a. arg_bytes a buf) args) = (st', reply, close) \<Longrightarrow>
      (\<not> close \<Longrightarrow> P nxt st' (send @ reply)) \<Longrightarrow> P h st send"
  shows "P h st send"
proof (induction "length buf - h" arbitrary: h st send rule: less_induct)
  case less
  show ?case
  proof (cases "parse_command buf h")
    case (Inl e)
    then show ?thesis by (rule error)
  next
    case (Inr r)
    show ?thesis
    proof (cases r)
      case None
      with Inr show ?thesis by (intro wait) simp
    next
      case (Some na)
      obtain nxt args where p: "parse_command buf h = Inr (Some (nxt, args))" using Inr Some by (cases na) auto
      obtain st' reply close where d: "disp st (slice_at buf h (nxt - h)) (map (\<lambda>a. arg_bytes a buf) args) = (st', reply, close)"
        using prod_cases3 by blast
      have "length buf - nxt < length buf - h" using parse_command_ok [OF p] by (auto simp: args_ok_def)
      then show ?thesis using less by (intro cmd [OF p d]) blast
    qed
  qed
qed

lemma batch_unfold:
  shows "parse_command buf h = Inl e \<Longrightarrow> batch disp buf h st send = (st, write_error send (str ''ERR Protocol error''), h, True)"
    and "parse_command buf h = Inr None \<Longrightarrow> batch disp buf h st send = (st, send, h, False)"
  by (simp_all add: batch.simps [of _ buf h])

lemma batch_shift:
  "batch disp (pre @ buf) (length pre + h) st send =
     (case batch disp buf h st send of (st', send', h', close) \<Rightarrow> (st', send', length pre + h', close))"
proof (induction h st send rule: batch_induct [of buf _ disp])
  case (cmd h st send nxt args st' reply close)
  let ?args = "map (\<lambda>a. \<lparr>a_start = length pre + a_start a, a_end = length pre + a_end a\<rparr>) args"
  have p: "parse_command (pre @ buf) (length pre + h) = Inr (Some (length pre + nxt, ?args))"
    using cmd(1) by (simp add: parse_command_shift)
  have argv: "map (\<lambda>a. arg_bytes a (pre @ buf)) ?args = map (\<lambda>a. arg_bytes a buf) args"
    by (simp add: arg_bytes_shift)
  have raw: "slice_at (pre @ buf) (length pre + h) (length pre + nxt - (length pre + h)) = slice_at buf h (nxt - h)"
    by (simp add: slice_shift)
  show ?case
    using batch_cmd [where disp = disp, OF cmd(1) refl refl cmd(2), of send]
      batch_cmd [where disp = disp, OF p argv raw cmd(2), of send] cmd(3) by (cases close) simp_all
qed (simp_all add: parse_command_shift batch_unfold)

lemma arg_bytes_append: "a_end a \<le> length buf \<Longrightarrow> a_start a \<le> a_end a \<Longrightarrow> arg_bytes a (buf @ suf) = arg_bytes a buf"
  unfolding arg_bytes_def by (rule slice_append_left) simp

text \<open>More bytes: the batch goes on where it stopped.\<close>

lemma batch_append:
  "batch disp (buf @ suf) h st send =
     (case batch disp buf h st send of (st', send', h', close) \<Rightarrow>
      if close then (st', send', h', close) else batch disp (buf @ suf) h' st' send')"
proof (induction h st send rule: batch_induct [of buf _ disp])
  case (error h st send e)
  then have "parse_command (buf @ suf) h = Inl e" using parse_command_mono [of buf h suf] by simp
  with error show ?case by (simp add: batch_unfold)
next
  case (cmd h st send nxt args st' reply close)
  have p: "parse_command (buf @ suf) h = Inr (Some (nxt, args))" using cmd(1) parse_command_mono [of buf h suf] by simp
  have ok: "h < nxt \<and> args_ok buf h nxt args" by (rule parse_command_ok [OF cmd(1)])
  then have argv: "map (\<lambda>a. arg_bytes a (buf @ suf)) args = map (\<lambda>a. arg_bytes a buf) args"
    by (intro map_cong refl arg_bytes_append) (auto simp: args_ok_def)
  have raw: "slice_at (buf @ suf) h (nxt - h) = slice_at buf h (nxt - h)"
    using ok by (intro slice_append_left) (auto simp: args_ok_def)
  show ?case
    using batch_cmd [where disp = disp, OF cmd(1) refl refl cmd(2), of send]
      batch_cmd [where disp = disp, OF p argv raw cmd(2), of send] cmd(3) by (cases close) simp_all
qed (simp add: batch_unfold)

lemma batch_send:
  "batch disp buf h st (pfx @ send) =
     (case batch disp buf h st send of (st', send', h', close) \<Rightarrow> (st', pfx @ send', h', close))"
proof (induction h st send rule: batch_induct [of buf _ disp])
  case (cmd h st send nxt args st' reply close)
  note c = batch_cmd [where disp = disp, OF cmd(1) refl refl cmd(2)]
  show ?case using c [of "pfx @ send"] c [of send] cmd(3) by (cases close) simp_all
qed (simp_all add: batch_unfold write_error_def)

lemma batch_stop:
  "batch disp buf h st send = (st', send', h', close) \<Longrightarrow> h \<le> length buf \<Longrightarrow>
     h' \<le> length buf \<and> (\<not> close \<longrightarrow> parse_command buf h' = Inr None)"
proof (induction h st send rule: batch_induct [of buf _ disp])
  case (cmd h st send nxt args st1 reply cl)
  have "nxt \<le> length buf" using parse_command_ok [OF cmd(1)] by (simp add: args_ok_def)
  with cmd show ?case
    using batch_cmd [where disp = disp, OF cmd(1) refl refl cmd(2), of send] by (cases cl) auto
qed (simp_all add: batch_unfold)

text \<open>One more chunk: run the batch on what is there, keep the tail, run it again with the rest.\<close>

lemma batch_resume:
  assumes b: "batch disp buf 0 st [] = (st1, send1, h1, False)"
    and r: "batch disp (drop h1 buf @ suf) 0 st1 [] = (st2, send2, h2, close)"
  shows "batch disp (buf @ suf) 0 st [] = (st2, send1 @ send2, h1 + h2, close)"
proof -
  have h1: "h1 \<le> length buf" using batch_stop [OF b] by simp
  have eq: "take h1 buf @ (drop h1 buf @ suf) = buf @ suf" by (simp only: append_assoc [symmetric] append_take_drop_id)
  have len: "length (take h1 buf) = h1" using h1 by simp
  have "batch disp (buf @ suf) 0 st [] = batch disp (buf @ suf) h1 st1 send1"
    using batch_append [of disp buf suf 0 st "[]"] b by simp
  also have "\<dots> = (case batch disp (drop h1 buf @ suf) 0 st1 (send1 @ []) of
      (st', send', h', close) \<Rightarrow> (st', send', h1 + h', close))"
    using batch_shift [of disp "take h1 buf" "drop h1 buf @ suf" 0 st1 send1] unfolding eq len by simp
  also have "\<dots> = (st2, send1 @ send2, h1 + h2, close)"
    unfolding batch_send r by simp
  finally show ?thesis .
qed

subsection \<open>Chunks of the stream\<close>

lemma grow_room:
  assumes "length recv \<le> cap" and "cap \<le> MAX_RECV" and "0 < cap" and "length recv < MAX_RECV"
  obtains cap' where "grow cap (length recv) = Some cap'" and "length recv < cap'" and "cap' \<le> MAX_RECV"
proof (cases "length recv = cap")
  case True
  with assms that [of "min (cap * 2) MAX_RECV"] show thesis by (auto simp: grow_def)
next
  case False
  with assms that [of cap] show thesis by (auto simp: grow_def)
qed

lemma conn_loop_step:
  assumes "grow (c_cap c) (length (c_recv c)) = Some cap" and "n = min (length x) (cap - length (c_recv c))"
    and "0 < n" and "batch disp (c_recv c @ take n x) 0 (c_sess c) [] = (st, send, h, close)"
  shows "conn_loop disp c (x # xs) sent =
    (let sent1 = (if send = [] then sent else sent @ [send]) in
     if close then (Closed, sent1, st)
     else conn_loop disp \<lparr>c_cap = cap, c_recv = drop h (c_recv c @ take n x), c_sess = st\<rparr>
            (if n < length x then drop n x # xs else xs) sent1)"
  unfolding conn_loop.simps(2) assms(1) option.case Let_def assms(2) [symmetric] assms(4) prod.case
  using assms(3) by simp

definition conn_ok :: "'st conn \<Rightarrow> bytes list \<Rightarrow> bool" where
  "conn_ok c xs \<longleftrightarrow> length (c_recv c) \<le> c_cap c \<and> c_cap c \<le> MAX_RECV \<and> 0 < c_cap c
     \<and> length (c_recv c) + length (concat xs) < MAX_RECV \<and> [] \<notin> set xs
     \<and> parse_command (c_recv c) 0 = Inr None"

definition same_outcome :: "(conn_end \<times> bytes list \<times> 'st) \<Rightarrow> bytes list \<Rightarrow> 'st \<times> bytes \<times> nat \<times> bool \<Rightarrow> bool" where
  "same_outcome r sent b \<longleftrightarrow>
     (case r of (e, sent', st) \<Rightarrow> case b of (st', send, h, close) \<Rightarrow>
        st = st' \<and> concat sent' = concat sent @ send \<and> e = (if close then Closed else Eof))"

lemma conn_loop_batch:
  "conn_ok c xs \<Longrightarrow> same_outcome (conn_loop disp c xs sent) sent (batch disp (c_recv c @ concat xs) 0 (c_sess c) [])"
proof (induction "length (concat xs)" arbitrary: c xs sent rule: less_induct)
  case less
  obtain cap where g: "grow (c_cap c) (length (c_recv c)) = Some cap"
    and room: "length (c_recv c) < cap" "cap \<le> MAX_RECV"
    using grow_room [of "c_recv c" "c_cap c"] less.prems by (auto simp: conn_ok_def)
  show ?case
  proof (cases xs)
    case Nil
    with less.prems g show ?thesis by (simp add: conn_ok_def same_outcome_def conn_loop.simps batch_unfold)
  next
    case (Cons x ys)
    define n where "n = min (length x) (cap - length (c_recv c))"
    define recv where "recv = c_recv c @ take n x"
    define rest where "rest = (if n < length x then drop n x # ys else ys)"
    have n: "0 < n" "n \<le> length x" "length recv \<le> cap"
      using less.prems Cons room by (auto simp: n_def conn_ok_def recv_def)
    obtain st send h close where b: "batch disp recv 0 (c_sess c) [] = (st, send, h, close)"
      using prod_cases4 by blast
    define sent1 where "sent1 = (if send = [] then sent else sent @ [send])"
    have out: "concat sent1 = concat sent @ send" by (simp add: sent1_def)
    have step: "conn_loop disp c xs sent = (if close then (Closed, sent1, st)
       else conn_loop disp \<lparr>c_cap = cap, c_recv = drop h recv, c_sess = st\<rparr> rest sent1)"
      using conn_loop_step [OF g n_def n(1) b [unfolded recv_def], of ys sent] unfolding Cons
      by (simp only: Let_def recv_def rest_def sent1_def)
    have whole: "c_recv c @ concat xs = recv @ concat rest" unfolding Cons by (simp add: recv_def rest_def)
    have len: "length (c_recv c) + length (concat xs) = length recv + length (concat rest)"
      using arg_cong [OF whole, of length] by (simp only: length_append)
    then have lt: "length (concat rest) < length (concat xs)"
      using n(1,2) by (simp add: recv_def)
    show ?thesis
    proof (cases close)
      case True
      have "batch disp (recv @ concat rest) 0 (c_sess c) [] = (st, send, h, True)"
        using batch_append [of disp recv "concat rest" 0 "c_sess c" "[]"] b True by simp
      then show ?thesis unfolding whole step using True out by (simp add: same_outcome_def)
    next
      case False
      let ?c = "\<lparr>c_cap = cap, c_recv = drop h recv, c_sess = st\<rparr>"
      have st: "h \<le> length recv" "parse_command recv h = Inr None" using batch_stop [OF b] False by auto
      have "parse_command (take h recv @ drop h recv) (length (take h recv) + 0) =
          shift_result (length (take h recv)) (parse_command (drop h recv) 0)" by (rule parse_command_shift)
      then have "shift_result h (parse_command (drop h recv) 0) = Inr None" using st by simp
      then have "parse_command (drop h recv) 0 = Inr None"
        by (simp add: shift_result_None)
      moreover have "[] \<notin> set rest" using less.prems Cons by (auto simp: conn_ok_def rest_def)
      moreover have "length (drop h recv) + length (concat rest) < MAX_RECV"
        using less.prems len unfolding conn_ok_def length_drop by linarith
      ultimately have "conn_ok ?c rest" using room n(3) by (simp add: conn_ok_def)
      from less.hyps [OF lt this, of sent1]
      have IH: "same_outcome (conn_loop disp ?c rest sent1) sent1 (batch disp (drop h recv @ concat rest) 0 st [])"
        by simp
      obtain st2 send2 h2 close2 where r: "batch disp (drop h recv @ concat rest) 0 st [] = (st2, send2, h2, close2)"
        using prod_cases4 by blast
      have "batch disp (recv @ concat rest) 0 (c_sess c) [] = (st2, send @ send2, h + h2, close2)"
        using batch_resume [OF _ r] b False by simp
      then show ?thesis unfolding whole step using False IH out by (auto simp: same_outcome_def r)
    qed
  qed
qed

subsection \<open>Properties\<close>

text \<open>C30: However the network cuts a stream of less than \<open>MAX_RECV\<close> bytes into reads, the connection runs
  the same commands with the same arguments and sends the same bytes as when the stream is parsed in one piece;
  growing the receive buffer and moving the tail of a partial command to its front lose nothing.\<close>

theorem chunking_invariant:
  assumes "[] \<notin> set xs" and "length (concat xs) < MAX_RECV"
  shows "case handle_connection disp st xs of (e, sent, st') \<Rightarrow>
    case batch disp (concat xs) 0 st [] of (st'', send, h, close) \<Rightarrow>
      st' = st'' \<and> concat sent = send \<and> e = (if close then Closed else Eof)"
proof -
  have "conn_ok \<lparr>c_cap = INITIAL_RECV, c_recv = [], c_sess = st\<rparr> xs"
    using assms by (simp add: conn_ok_def INITIAL_RECV_def MAX_RECV_def parse_command_def)
  from conn_loop_batch [OF this, of disp "[]"] show ?thesis
    by (auto simp: handle_connection_def same_outcome_def split: prod.splits)
qed

theorem chunking_invariant_witness:
  "let disp = (\<lambda>st raw argv. (st + length argv, str ''+OK'' @ CRLF, False)) in
   (case handle_connection disp (0::nat) [str ''PI'', str ''NG'' @ CRLF @ str ''A B''] of (e, sent, n) \<Rightarrow>
     case batch disp (str ''PING'' @ CRLF @ str ''A B'') 0 0 [] of (n', send, h, close) \<Rightarrow> n = n' \<and> concat sent = send)"
  using chunking_invariant [of "[str ''PI'', str ''NG'' @ CRLF @ str ''A B'']" "\<lambda>st raw argv. (st + length argv, str ''+OK'' @ CRLF, False)" "0::nat"]
  by (auto simp: MAX_RECV_def Let_def CRLF_def split: prod.splits)

end
