(* ===== verification/Recovery.thy ===== *)
theory Recovery
  imports Commands Server
begin

text \<open>
  Start-up and the whole server: the recovery of the shared state from the last checkpoint and the append-only file
  (\<^verbatim>\<open>shared.rs\<close>), and the connection loop of \<open>Server\<close> running the real command dispatch.
\<close>

subsection \<open>Replay of the append-only file\<close>

definition collect_aof :: "aof \<Rightarrow> AofEntry list io \<times> aof" where
  "collect_aof a = aof_replay a"

definition replay_one :: "resp_session \<Rightarrow> int \<Rightarrow> bytes \<Rightarrow> bytes \<Rightarrow> (resp_session \<times> bytes) option" where
  "replay_one s ts payload out =
     (case parse_command payload 0 of
        Inr (Some (_, slices)) \<Rightarrow> dispatch_replay s payload (map (\<lambda>a. arg_bytes a payload) slices) ts out
      | _ \<Rightarrow> Some (s, out))"

fun replay_bracket :: "resp_session \<Rightarrow> AofEntry list \<Rightarrow> bytes \<Rightarrow> (resp_session \<times> bytes) option" where
  \<comment> \<open>the commands between the two brackets\<close>
  "replay_bracket s [] out = Some (s, out)"
| "replay_bracket s (e # es) out =
     (if e_op e = Command
      then do { (s, out) \<leftarrow> replay_one s (e_timestamp_ms e) (e_payload e) out; replay_bracket s es out }
      else replay_bracket s es out)"

function replay_entries :: "resp_session \<Rightarrow> AofEntry list \<Rightarrow> resp_session option" where
  \<comment> \<open>the list is \<open>entries[i..]\<close>\<close>
  "replay_entries s [] = Some s"
| "replay_entries s (e # es) =
     (case e_op e of
        Command \<Rightarrow> do { (s, out) \<leftarrow> replay_one s (e_timestamp_ms e) (e_payload e) []; replay_entries s es }
      | TxnStart \<Rightarrow>
          (let inner = takeWhile (\<lambda>e. e_op e \<noteq> TxnCommit) es; rest = drop 1 (dropWhile (\<lambda>e. e_op e \<noteq> TxnCommit) es) in
           do { (s, out) \<leftarrow> replay_bracket (replay_multi_begin s (e_timestamp_ms e)) inner [];
                (s, out) \<leftarrow> replay_multi_exec s out;
                replay_entries s rest })
      | TxnCommit \<Rightarrow> replay_entries s es)"
  by pat_completeness auto
termination
proof (relation "measure (\<lambda>(s, es). length es)", goal_cases)
  case (3 s e es inner rest)
  have "length rest \<le> length (dropWhile (\<lambda>e. e_op e \<noteq> TxnCommit) es)" using 3 by simp
  also have "\<dots> \<le> length es" by (rule length_dropWhile_le)
  finally show ?case by simp
qed auto

subsection \<open>Start-up\<close>

definition replay_aof :: "shared \<Rightarrow> nat \<Rightarrow> (unit io \<times> shared) option" where
  \<comment> \<open>the session of the replay is dropped at the end\<close>
  "replay_aof sh tid =
     (case sh_aof sh of None \<Rightarrow> Some (Inr (), sh)
      | Some a \<Rightarrow>
          (case collect_aof a of
             (Inl e, a) \<Rightarrow> Some (Inl e, sh\<lparr>sh_aof := Some a\<rparr>)
           | (Inr entries, a) \<Rightarrow>
               (let sh = sh\<lparr>sh_aof := Some a\<rparr> in
                if entries = [] then Some (Inr (), sh)
                else do { s \<leftarrow> replay_entries (set_replay (resp_session_new sh tid) True) entries;
                          Some (Inr (), (rs_shared s)\<lparr>sh_store := session_drop (the_store s) (rs_store s)\<rparr>) })))"

definition shared_recover :: "shared \<Rightarrow> nat \<Rightarrow> (unit io \<times> shared) option" where
  "shared_recover sh tid =
     (if \<not> cf_persist (sh_config sh) then Some (Inr (), sh)
      else if meta_file (sh_dir sh) = None then replay_aof sh tid
      else (case read_from (sh_dir sh) of
              Inl e \<Rightarrow> Some (Inl e, sh)
            | Inr info \<Rightarrow>
                do { (r, st) \<leftarrow> store_recover (sh_store sh) info;
                     let sh = sh\<lparr>sh_store := st\<rparr> in
                     case r of Inl e \<Rightarrow> Some (Inl e, sh) | Inr _ \<Rightarrow> replay_aof sh tid }))"

subsection \<open>Connections\<close>

definition session_disp :: "resp_session option disp" where
  \<comment> \<open>a session that panicked sends nothing more and ends the connection\<close>
  "session_disp st raw argv =
     (case st of None \<Rightarrow> (None, [], True)
      | Some s \<Rightarrow>
          (case dispatch s raw argv [] of
             None \<Rightarrow> (None, [], True)
           | Some (action, s, out) \<Rightarrow> (Some s, out, action = CloseConn)))"

definition serve :: "resp_session \<Rightarrow> bytes list \<Rightarrow> conn_end \<times> bytes list \<times> resp_session option" where
  "serve s arrivals = handle_connection session_disp (Some s) arrivals"

end

