(* ===== verification/CheckpointLaws.thy ===== *)
theory CheckpointLaws
  imports Checkpoint StoreLaws
begin

text \<open>
  What a checkpoint leaves behind. The metadata file is replaced as a whole or not at all; the phase transitions touch neither
  index nor records; a checkpoint that succeeds has every record of the store on the device and metadata that reads back; one whose
  metadata cannot be written keeps the old file but leaves the store in its last phase.
\<close>

subsection \<open>Metadata\<close>

lemma dir_call_files: "dir_call d = (r, d') \<Longrightarrow> meta_file d' = meta_file d \<and> tmp_file d' = tmp_file d"
  by (auto simp: dir_call_def split: list.splits)

lemma write_words_files:
  "write_words ws d = (r, d') \<Longrightarrow> tmp_file d = Some f \<Longrightarrow>
     meta_file d' = meta_file d \<and> (\<forall>u. r = Inr u \<longrightarrow> tmp_file d' = Some (f @ concat (map (to_le 8) ws)))"
proof (induction ws arbitrary: d f)
  case (Cons w ws)
  obtain x d1 where c: "dir_call d = (x, d1)" by (cases "dir_call d")
  show ?case
  proof (cases x)
    case IoOk
    have "write_words ws (append_tmp d1 (to_le 8 w)) = (r, d')" using Cons.prems(1) c IoOk by simp
    moreover have "tmp_file (append_tmp d1 (to_le 8 w)) = Some (f @ to_le 8 w)"
      using dir_call_files [OF c] Cons.prems(2) by (simp add: append_tmp_def)
    ultimately show ?thesis using Cons.IH dir_call_files [OF c] by (fastforce simp: append_tmp_def)
  next
    case (IoFail n e)
    then show ?thesis using Cons.prems(1) c dir_call_files [OF c] by (auto simp: append_tmp_def)
  qed
qed auto

lemma write_to_files:
  assumes "write_to i d = (r, d')"
  shows "meta_file d' = (case r of Inl _ \<Rightarrow> meta_file d | Inr _ \<Rightarrow> Some (concat (map (to_le 8) (info_words i))))"
proof -
  obtain x d1 where c1: "dir_call d = (x, d1)" by (cases "dir_call d")
  show ?thesis
  proof (cases x)
    case IoOk
    obtain y d2 where w: "write_words (info_words i) (d1\<lparr>tmp_file := Some []\<rparr>) = (y, d2)"
      by (cases "write_words (info_words i) (d1\<lparr>tmp_file := Some []\<rparr>)")
    note f = dir_call_files [OF c1] write_words_files [OF w, of "[]", simplified]
    obtain z d3 where c2: "dir_call d2 = (z, d3)" by (cases "dir_call d2")
    obtain z' d4 where c3: "dir_call d3 = (z', d4)" by (cases "dir_call d3")
    show ?thesis
      using assms f dir_call_files [OF c2] dir_call_files [OF c3]
      by (auto simp: write_to_def c1 IoOk w c2 c3 split: sum.splits io_outcome.splits)
  qed (use assms c1 dir_call_files [OF c1] in \<open>auto simp: write_to_def\<close>)
qed

lemma slice_words:
  "k < length ws \<Longrightarrow> from_le (slice_at (concat (map (to_le 8) ws)) (k * 8) 8) = (ws ! k :: u64)"
proof (induction ws arbitrary: k)
  case (Cons w ws)
  show ?case
  proof (cases k)
    case (Suc j)
    have "slice_at (to_le 8 w @ concat (map (to_le 8) ws)) (k * 8) 8 = slice_at (concat (map (to_le 8) ws)) (j * 8) 8"
      by (simp add: Suc slice_at_def)
    with Cons Suc show ?thesis by simp
  qed (simp add: slice_at_def)
qed simp

definition info_ok :: "CheckpointInfo \<Rightarrow> bool" where
  \<comment> \<open>the fields are \<open>u64\<close>\<close>
  "info_ok i \<longleftrightarrow> ci_version i < 2 ^ 64 \<and> ci_begin_address i < 2 ^ 64 \<and> ci_start_address i < 2 ^ 64 \<and> ci_final_address i < 2 ^ 64
     \<and> ci_user_data i < 2 ^ 64"

lemma read_written:
  assumes "info_ok i" and "meta_file d = Some (concat (map (to_le 8) (info_words i)))"
  shows "read_from d = Inr i"
proof -
  have n: "length (info_words i) = 6" by (simp add: info_words_def)
  have len: "length (concat (map (to_le 8) (info_words i))) = 48" by (simp add: info_words_def)
  have "from_le (slice_at (concat (map (to_le 8) (info_words i))) (k * 8) 8) = info_words i ! k" if "k < 6" for k
    using that slice_words [of k "info_words i"] n by simp
  note w = this
  show ?thesis
    using len assms w [of 0] w [of 1] w [of 2] w [of 3] w [of 4] w [of 5]
    by (simp add: read_from_def Let_def info_words_def info_ok_def unat_of_nat_u64)
qed

lemma write_read:
  assumes "info_ok i" and "write_to i d = (r, d')"
  shows "read_from d' = (case r of Inl _ \<Rightarrow> read_from d | Inr _ \<Rightarrow> Inr i)"
  using write_to_files [OF assms(2)] read_written [OF assms(1), of d'] by (cases r) (auto simp: read_from_def)

lemma write_to_ok: "dir_outcomes d = [] \<Longrightarrow> \<exists>d'. write_to i d = (Inr (), d')"
proof -
  have w: "\<exists>d'. write_words ws d = (Inr (), d') \<and> dir_outcomes d' = []" if "dir_outcomes d = []" for ws d
    using that by (induction ws arbitrary: d) (auto simp: dir_call_def append_tmp_def)
  assume d: "dir_outcomes d = []"
  then obtain d2 where "write_words (info_words i) (d\<lparr>tmp_file := Some []\<rparr>) = (Inr (), d2)" "dir_outcomes d2 = []"
    using w [of "d\<lparr>tmp_file := Some []\<rparr>"] by auto
  then show ?thesis using d by (simp add: write_to_def dir_call_def)
qed

subsection \<open>Phase transitions\<close>

lemma ss_pack_unpack:
  assumes "phase (ss_unpack w) = Rest"
  shows "ss_pack (ss_unpack w) = w"
proof -
  have "unat (drop_bit 56 w) = 0" using assms by (simp add: ss_unpack_def Let_def split: if_splits)
  then have z: "drop_bit 56 w = 0" by (simp add: unat_eq_zero)
  have m: "push_bit 56 1 - 1 = (mask 56 :: u64)" by (simp add: mask_eq_exp_minus_1 push_bit_eq_mult)
  have "take_bit 56 w = w" using z bits_ident [of 56 w] by simp
  then have "w AND (push_bit 56 1 - 1) = w" unfolding m take_bit_eq_mask [symmetric] .
  then show ?thesis using z by (simp add: ss_pack_def ss_unpack_def Let_def)
qed

definition log_moves :: "hlog \<Rightarrow> reclog \<Rightarrow> hlog \<Rightarrow> bool" where
  \<comment> \<open>boundaries move and pages are flushed, nothing else\<close>
  "log_moves l R l' \<longleftrightarrow> log_inv l' R \<and> log_ext l l' \<and> log_frame l l'"

lemma log_moves_refl: "log_inv l R \<Longrightarrow> log_moves l R l"
  by (simp add: log_moves_def)

lemma log_moves_trans: "log_moves l R l' \<Longrightarrow> log_moves l' R l'' \<Longrightarrow> log_moves l R l''"
  unfolding log_moves_def using log_ext_trans log_frame_trans by blast

lemma released_frame: "log_frame l (fold run_action acts (l\<lparr>log_epoch := ep\<rparr>))"
  using fold_run_action_frame [of "l\<lparr>log_epoch := ep\<rparr>" acts] by (simp add: log_frame_def)

lemma released_ro: "read_only_address (fold run_action acts (l\<lparr>log_epoch := ep\<rparr>)) = read_only_address l"
proof -
  have "read_only_address (fold run_action acts k) = read_only_address k" for k
    by (induction acts arbitrary: k) (simp_all add: run_action_frame(3))
  then show ?thesis by simp
qed

lemma bump_moves:
  assumes inv: "log_inv l R" and b: "bump_current_epoch (log_epoch l) = (n, acts, ep)"
  shows "log_moves l R (fold run_action acts (l\<lparr>log_epoch := ep\<rparr>))"
proof -
  have w: "epoch_wf (log_epoch l)" using log_invD(1) [OF inv] by (simp add: hlog_wf_def)
  have "pending l \<subseteq> set acts \<union> d_action ` set (ep_drain ep)" using released_all(2) [OF w b] by (simp add: pending_def)
  with bump_slots(2) [OF w b] show ?thesis
    unfolding log_moves_def using log_inv_bump [OF inv b] released_ext released_frame by blast
qed

lemma bump_action_moves:
  assumes inv: "log_inv l R" and b: "bump_with_action (log_epoch l) PhaseObserved = (n, acts, ep)"
  shows "log_moves l R (fold run_action acts (l\<lparr>log_epoch := ep\<rparr>))"
proof -
  have "log_ext l (fold run_action acts (l\<lparr>log_epoch := ep\<rparr>))"
    using bump_action_ext [OF log_invD(1) [OF inv], of PhaseObserved] b by (simp add: log_bump_with_action_def)
  moreover have "log_inv (log_bump_with_action l PhaseObserved) R"
    by (rule log_inv_bump_action [OF inv]) (simp_all add: no_straddle_def)
  ultimately show ?thesis unfolding log_moves_def using b released_frame by (simp add: log_bump_with_action_def)
qed

lemma wait_observed_moves: "log_inv l R \<Longrightarrow> wait_observed k l = Some l' \<Longrightarrow> log_moves l R l' \<and> read_only_address l' = read_only_address l"
proof (induction k arbitrary: l)
  case (Suc k)
  obtain n acts ep where b: "bump_current_epoch (log_epoch l) = (n, acts, ep)" by (metis prod_cases3)
  note m = bump_moves [OF Suc.prems(1) b]
  show ?case
  proof (cases "PhaseObserved \<in> set acts")
    case False
    then have w: "wait_observed k (fold run_action acts (l\<lparr>log_epoch := ep\<rparr>)) = Some l'" using Suc.prems(2) b by (simp add: Let_def)
    have "log_inv (fold run_action acts (l\<lparr>log_epoch := ep\<rparr>)) R" using m by (simp add: log_moves_def)
    from Suc.IH [OF this w] log_moves_trans [OF m] show ?thesis by (simp add: released_ro)
  qed (use Suc.prems(2) b m in \<open>auto simp: Let_def released_ro\<close>)
qed simp

lemma wait_flushed_moves: "log_inv l R \<Longrightarrow> wait_flushed k l a = Some l' \<Longrightarrow> log_moves l R l' \<and> a \<le> flushed_until_address l'"
proof (induction k arbitrary: l)
  case (Suc k)
  obtain n acts ep where b: "bump_current_epoch (log_epoch l) = (n, acts, ep)" by (metis prod_cases3)
  note m = bump_moves [OF Suc.prems(1) b]
  show ?case
  proof (cases "flushed_until_address l < a")
    case True
    then have w: "wait_flushed k (fold run_action acts (l\<lparr>log_epoch := ep\<rparr>)) a = Some l'" using Suc.prems(2) b by simp
    have "log_inv (fold run_action acts (l\<lparr>log_epoch := ep\<rparr>)) R" using m by (simp add: log_moves_def)
    from Suc.IH [OF this w] log_moves_trans [OF m] show ?thesis by blast
  qed (use Suc.prems log_moves_refl in auto)
qed (auto simp: log_moves_refl split: if_splits)

lemma shift_read_only_moves:
  "log_inv l R \<Longrightarrow> x \<le> true_tail l \<Longrightarrow> no_straddle R x \<Longrightarrow> log_moves l R (snd (shift_read_only_address l x))"
  using log_inv_shift_read_only shift_read_only_ext shift_read_only_flushed log_invD(1,10) by (metis log_moves_def)

definition phase_moved :: "store \<Rightarrow> reclog \<Rightarrow> store \<Rightarrow> SystemState \<Rightarrow> bool" where
  "phase_moved st R st' new \<longleftrightarrow> st_index st' = st_index st \<and> st_checkpoint_start st' = st_checkpoint_start st
     \<and> st_system_state st' = ss_pack new \<and> log_moves (st_log st) R (st_log st')
     \<and> read_only_address (st_log st') = read_only_address (st_log st)"

lemma transition_moves:
  assumes inv: "log_inv (st_log st) R" and t: "transition_and_wait k st new = Some st'"
  shows "phase_moved st R st' new"
proof -
  let ?l = "st_log st"
  obtain n acts ep where b: "bump_with_action (log_epoch ?l) PhaseObserved = (n, acts, ep)" by (metis prod_cases3)
  let ?l' = "fold run_action acts (?l\<lparr>log_epoch := ep\<rparr>)"
  note m = bump_action_moves [OF inv b]
  have w: "log_moves ?l R l'' \<and> read_only_address l'' = read_only_address ?l" if "wait_observed k ?l' = Some l''" for l''
    using m that wait_observed_moves [of ?l' R k l''] log_moves_trans [OF m] by (auto simp: log_moves_def released_ro)
  show ?thesis
    using t m w by (auto simp: released_ro transition_and_wait_def Let_def try_set_system_state_def b phase_moved_def
        split: if_splits bind_splits)
qed

text \<open>With no thread inside the epoch a transition does not wait.\<close>

definition idle :: "store \<Rightarrow> bool" where
  "idle st \<longleftrightarrow> (\<forall>s \<in> set (ep_table (log_epoch (st_log st))). s_epoch s = UNPROTECTED)"

lemma transition_idle:
  assumes inv: "log_inv (st_log st) R" and i: "idle st" and w: "st_system_state st = ss_pack (system_state st)"
  shows "\<exists>st'. transition_and_wait k st new = Some st'"
proof -
  have "epoch_wf (log_epoch (st_log st))" using log_invD(1) [OF inv] by (simp add: hlog_wf_def)
  from bump_with_action_idle [OF this i [unfolded idle_def], of PhaseObserved]
  obtain ep where b: "bump_with_action (log_epoch (st_log st)) PhaseObserved =
      (ep_current (log_epoch (st_log st)) + 1, map d_action (ep_drain (log_epoch (st_log st))) @ [PhaseObserved], ep)" ..
  have "try_set_system_state st (system_state st) new = (True, st\<lparr>st_system_state := ss_pack new\<rparr>)"
    unfolding try_set_system_state_def by (rule if_P [OF w])
  then show ?thesis using b by (simp add: transition_and_wait_def Let_def)
qed

lemma idle_moved: "idle st \<Longrightarrow> phase_moved st R st' new \<Longrightarrow> idle st'"
  by (simp add: idle_def phase_moved_def log_moves_def log_ext_def)

lemma moved_state: "phase_moved st R st' new \<Longrightarrow> version new < 2 ^ 56 \<Longrightarrow> system_state st' = new \<and> st_system_state st' = ss_pack (system_state st')"
  by (simp add: phase_moved_def system_state_def ss_unpack_pack)

subsection \<open>The checkpoint\<close>

lemma no_straddle_tail: "log_inv l R \<Longrightarrow> no_straddle R (true_tail l)"
  using log_invD(3) by (fastforce simp: no_straddle_def rec_placed_def)

lemma data_moves: "data_ok ix l R \<Longrightarrow> log_moves l R l' \<Longrightarrow> data_ok ix l' R"
  using tiled_frame [of l' l R] by (auto simp: data_ok_def data_base_def log_moves_def log_ext_def log_frame_def marks_le_def)

lemma flush_until_done: "x \<le> flushed_until_address l \<Longrightarrow> flush_until l x = l"
  by (simp add: flush_until_def)

lemma moves_tail: "log_moves l R l' \<Longrightarrow> true_tail l' = true_tail l \<and> tail_address l' = tail_address l \<and> begin_address l' = begin_address l"
proof -
  assume "log_moves l R l'"
  then have f: "log_frame l l'" by (simp add: log_moves_def)
  from log_frame_shape(3) [OF this] f show ?thesis by (simp add: log_frame_def tail_address_def page_size_def split: prod.split)
qed

text \<open>A checkpoint that returns, cut at the write of its metadata.\<close>

lemma checkpoint_cases:
  assumes inv: "store_inv st R" and v: "Suc (version (system_state st)) < 2 ^ 56"
    and tl: "tail_address (st_log st) = Some (true_tail (st_log st))"
    and c: "take_checkpoint k st d u = Some (r, st', d')"
  obtains (failed) e where "r = Inl e" "write_to \<lparr>ci_version = version (system_state st), ci_begin_address = begin_address (st_log st),
        ci_start_address = true_tail (st_log st), ci_final_address = true_tail (st_log st), ci_user_data = u\<rparr> d = (Inl e, d')"
      "system_state st' = \<lparr>phase = WaitFlush, version = Suc (version (system_state st))\<rparr>"
      "st_index st' = st_index st" "log_moves (st_log st) R (st_log st')"
  | (saved) info where "r = Inr info" "info = \<lparr>ci_version = version (system_state st), ci_begin_address = begin_address (st_log st),
        ci_start_address = true_tail (st_log st), ci_final_address = true_tail (st_log st), ci_user_data = u\<rparr>"
      "write_to info d = (Inr (), d')" "system_state st' = \<lparr>phase = Rest, version = Suc (version (system_state st))\<rparr>"
      "st_index st' = st_index st" "log_moves (st_log st) R (st_log st')" "true_tail (st_log st) \<le> flushed_until_address (st_log st')"
proof -
  let ?l = "st_log st" and ?v = "version (system_state st)" and ?t = "true_tail (st_log st)"
  let ?info = "\<lparr>ci_version = ?v, ci_begin_address = begin_address ?l, ci_start_address = ?t, ci_final_address = ?t, ci_user_data = u\<rparr>"
  have li: "log_inv ?l R" and ph: "phase (system_state st) = Rest" using inv by (auto simp: store_inv_def data_ok_def data_base_def)
  let ?s0 = "st\<lparr>st_checkpoint_start := ?t\<rparr>"
  obtain s1 where s1: "transition_and_wait k ?s0 \<lparr>phase = Prepare, version = ?v\<rparr> = Some s1"
    using c ph tl by (auto simp: take_checkpoint_def Let_def split: bind_splits)
  note m1 = transition_moves [OF _ s1, of R] 
  have l1: "log_moves ?l R (st_log s1)" "st_index s1 = st_index st" using m1 li by (auto simp: phase_moved_def)
  have t1: "log_inv (st_log s1) R" using l1 by (simp add: log_moves_def)
  obtain s2 where s2: "transition_and_wait k s1 \<lparr>phase = InProgress, version = Suc ?v\<rparr> = Some s2"
    using c ph tl s1 by (auto simp: take_checkpoint_def Let_def split: bind_splits)
  have l2: "log_moves ?l R (st_log s2)" "st_index s2 = st_index st"
    using transition_moves [OF t1 s2] l1 log_moves_trans by (auto simp: phase_moved_def)
  have t2: "log_inv (st_log s2) R" using l2 by (simp add: log_moves_def)
  have f2: "tail_address (st_log s2) = Some ?t" using moves_tail [OF l2(1)] tl by simp
  obtain s3 where s3: "transition_and_wait k s2 \<lparr>phase = WaitFlush, version = Suc ?v\<rparr> = Some s3"
    using c ph tl s1 s2 f2 by (auto simp: take_checkpoint_def Let_def split: bind_splits)
  note m3 = transition_moves [OF t2 s3]
  have l3: "log_moves ?l R (st_log s3)" "st_index s3 = st_index st" using m3 l2 log_moves_trans by (auto simp: phase_moved_def)
  have t3: "log_inv (st_log s3) R" and e3: "true_tail (st_log s3) = ?t" using l3 moves_tail [OF l3(1)] by (simp_all add: log_moves_def)
  let ?sh = "snd (shift_read_only_address (st_log s3) ?t)"
  obtain l where w: "wait_flushed k ?sh ?t = Some l"
    using c ph tl s1 s2 f2 s3 by (auto simp: take_checkpoint_def Let_def split: bind_splits)
  have sh: "log_moves (st_log s3) R ?sh" using shift_read_only_moves [OF t3] no_straddle_tail [OF t3] e3 by simp
  then have "log_inv ?sh R" by (simp add: log_moves_def)
  note wf = wait_flushed_moves [OF this w]
  have l4: "log_moves ?l R l" "?t \<le> flushed_until_address l" using l3 sh wf log_moves_trans by blast+
  let ?s4 = "s3\<lparr>st_log := l\<rparr>"
  have b: "begin_address l = begin_address ?l" using moves_tail [OF l4(1)] by simp
  note eqs = take_checkpoint_def Let_def s1 s2 f2 s3 w flush_until_done [OF l4(2)] b
  have ss4: "system_state ?s4 = \<lparr>phase = WaitFlush, version = Suc ?v\<rparr>" using moved_state [OF m3] v by (simp add: system_state_def)
  obtain x d1 where wt: "write_to ?info d = (x, d1)" by (cases "write_to ?info d")
  show thesis
  proof (cases x)
    case (Inl e)
    then have "r = Inl e" "st' = ?s4" "d' = d1" using c ph tl wt by (simp_all add: eqs)
    then show thesis using failed Inl wt ss4 l3 l4 by simp
  next
    case (Inr y)
    then obtain s5 where s5: "transition_and_wait k ?s4 \<lparr>phase = Rest, version = Suc ?v\<rparr> = Some s5" and
      r: "r = Inr ?info" "st' = s5" "d' = d1"
      using c ph tl wt by (auto simp: eqs split: bind_splits)
    have "log_inv (st_log ?s4) R" using l4(1) by (simp add: log_moves_def)
    note m5 = transition_moves [OF this s5]
    have "log_moves ?l R (st_log s5)" "st_index s5 = st_index st" "?t \<le> flushed_until_address (st_log s5)"
      using m5 l3(2) log_moves_trans [OF l4(1), of "st_log s5"] l4(2)
      by (auto simp: phase_moved_def log_moves_def log_ext_def marks_le_def)
    moreover have "system_state s5 = \<lparr>phase = Rest, version = Suc ?v\<rparr>" using moved_state [OF m5] v by simp
    ultimately show thesis using saved [OF r(1) refl] wt Inr r by simp
  qed
qed

lemma flushed_stored: "log_inv l R \<Longrightarrow> true_tail l \<le> flushed_until_address l \<Longrightarrow> R a = Some r \<Longrightarrow> on_device l a r"
  using log_invD(3,6) [of l R a r] rec_size_ge(1) [of r] by (fastforce simp: rec_placed_def)

lemma flush_at_tail:
  assumes inv: "log_inv (st_log s) R" and i: "idle s" and lt: "read_only_address (st_log s) < t"
  shows "t \<le> flushed_until_address (snd (shift_read_only_address (st_log s) t))"
proof -
  let ?l = "(st_log s)\<lparr>read_only_address := t\<rparr>"
  have "log_frame (st_log s) ?l" by (simp add: log_frame_def)
  then have sh: "shape_ok ?l" using log_invD(10) [OF inv] log_frame_shape(1) by blast
  have "epoch_wf (log_epoch (st_log s))" using log_invD(1) [OF inv] by (simp add: hlog_wf_def)
  from bump_with_action_idle [OF this i [unfolded idle_def], of "PagesMarkedReadOnly t"]
  obtain ep where b: "bump_with_action (log_epoch (st_log s)) (PagesMarkedReadOnly t) = (ep_current (log_epoch (st_log s)) + 1,
      map d_action (ep_drain (log_epoch (st_log s))) @ [PagesMarkedReadOnly t], ep)" ..
  show ?thesis
    using released_flushed(3) [OF sh, of t "map d_action (ep_drain (log_epoch (st_log s))) @ [PagesMarkedReadOnly t]" ep] b lt
    by (simp add: shift_read_only_address_def log_bump_with_action_def)
qed

lemma checkpoint_idle:
  assumes inv: "store_inv st R" and v: "Suc (version (system_state st)) < 2 ^ 56"
    and tl: "tail_address (st_log st) = Some (true_tail (st_log st))" and i: "idle st"
    and ro: "read_only_address (st_log st) < true_tail (st_log st) \<or> flushed_until_address (st_log st) = true_tail (st_log st)"
  shows "\<exists>x. take_checkpoint k st d u = Some x"
proof -
  let ?l = "st_log st" and ?v = "version (system_state st)" and ?t = "true_tail (st_log st)"
  have li: "log_inv ?l R" and ph: "phase (system_state st) = Rest" using inv by (auto simp: store_inv_def data_ok_def data_base_def)
  let ?s0 = "st\<lparr>st_checkpoint_start := ?t\<rparr>"
  have li0: "log_inv (st_log ?s0) R" "idle ?s0" using li i by (simp_all add: idle_def)
  have w0: "st_system_state ?s0 = ss_pack (system_state ?s0)" using ss_pack_unpack ph by (simp add: system_state_def)
  obtain s1 where s1: "transition_and_wait k ?s0 \<lparr>phase = Prepare, version = ?v\<rparr> = Some s1" using transition_idle [OF li0 w0] by blast
  note m1 = transition_moves [OF li0(1) s1]
  have li1: "log_inv (st_log s1) R" "idle s1" using m1 idle_moved [OF li0(2) m1] by (auto simp: phase_moved_def log_moves_def)
  obtain s2 where s2: "transition_and_wait k s1 \<lparr>phase = InProgress, version = Suc ?v\<rparr> = Some s2"
    using transition_idle [OF li1] moved_state [OF m1] v by auto
  note m2 = transition_moves [OF li1(1) s2]
  have li2: "log_inv (st_log s2) R" "idle s2" using m2 idle_moved [OF li1(2) m2] by (auto simp: phase_moved_def log_moves_def)
  obtain s3 where s3: "transition_and_wait k s2 \<lparr>phase = WaitFlush, version = Suc ?v\<rparr> = Some s3"
    using transition_idle [OF li2] moved_state [OF m2] v by auto
  note m3 = transition_moves [OF li2(1) s3]
  have l2: "log_moves ?l R (st_log s2)" and l3: "log_moves (st_log s2) R (st_log s3)"
    using m1 m2 m3 log_moves_trans by (auto simp: phase_moved_def)
  have li3: "log_inv (st_log s3) R" "idle s3" using m3 idle_moved [OF li2(2) m3] by (auto simp: phase_moved_def log_moves_def)
  have t3: "tail_address (st_log s2) = Some ?t" "true_tail (st_log s3) = ?t" using moves_tail [OF l2] moves_tail [OF l3] tl by auto
  let ?sh = "snd (shift_read_only_address (st_log s3) ?t)"
  have sh: "log_moves (st_log s3) R ?sh" using shift_read_only_moves [OF li3(1)] no_straddle_tail [OF li3(1)] t3 by simp
  have "read_only_address (st_log s3) = read_only_address ?l" using m1 m2 m3 by (simp add: phase_moved_def)
  then have fl: "?t \<le> flushed_until_address ?sh"
    using flush_at_tail [OF li3, of ?t] ro l2 l3 sh by (auto simp: log_moves_def log_ext_def marks_le_def)
  then have w: "wait_flushed k ?sh ?t = Some ?sh" by (cases k) simp_all
  let ?s4 = "s3\<lparr>st_log := ?sh\<rparr>"
  have v3: "version \<lparr>phase = WaitFlush, version = Suc ?v\<rparr> < 2 ^ 56" using v by simp
  have "st_system_state ?s4 = ss_pack (system_state ?s4)"
    using moved_state [OF m3 v3, THEN conjunct2] unfolding system_state_def by simp
  moreover have "log_inv (st_log ?s4) R" "idle ?s4" using li3(2) sh by (auto simp: log_moves_def idle_def log_ext_def)
  ultimately have li4: "log_inv (st_log ?s4) R" "idle ?s4" "st_system_state ?s4 = ss_pack (system_state ?s4)" by auto
  obtain s5 where s5: "transition_and_wait k ?s4 \<lparr>phase = Rest, version = Suc ?v\<rparr> = Some s5" using transition_idle [OF li4] by blast
  show ?thesis
    using ph tl s1 s2 s3 t3 w s5 by (auto simp: take_checkpoint_def Let_def flush_until_done [OF fl] split: prod.splits sum.splits)
qed

subsection \<open>Properties\<close>

text \<open>C14: The metadata of a checkpoint is replaced atomically: a write that succeeds reads back field by field, and a write
  that fails at any of its system calls leaves the file of the previous checkpoint to be read.\<close>

theorem checkpoint_metadata_atomic:
  assumes "info_ok i" and "write_to i d = (r, d')"
  shows "read_from d' = (case r of Inl _ \<Rightarrow> read_from d | Inr _ \<Rightarrow> Inr i)"
  by (rule write_read [OF assms])

definition demo_info :: CheckpointInfo where
  "demo_info = \<lparr>ci_version = 1, ci_begin_address = 64, ci_start_address = 64, ci_final_address = 64, ci_user_data = 0\<rparr>"

definition demo_dir :: dir where
  "demo_dir = \<lparr>meta_file = None, tmp_file = None, dir_outcomes = []\<rparr>"

theorem checkpoint_metadata_atomic_witness: "read_from (snd (write_to demo_info demo_dir)) = Inr demo_info"
proof -
  have "info_ok demo_info" by (simp add: info_ok_def demo_info_def)
  moreover obtain d' where "write_to demo_info demo_dir = (Inr (), d')" using write_to_ok [of demo_dir demo_info] by (auto simp: demo_dir_def)
  ultimately show ?thesis using checkpoint_metadata_atomic [of demo_info demo_dir "Inr ()" d'] by simp
qed

text \<open>C13: A checkpoint with no other thread in the epoch returns. When its directory does not fail it
  succeeds: the version is one higher and the phase is REST again, index and records of the store are as before, every record is
  on the device, and the metadata read back name the tail as the final address.\<close>

theorem checkpoint_durable:
  assumes inv: "store_inv st R" and v: "Suc (version (system_state st)) < 2 ^ 56"
    and tl: "tail_address (st_log st) = Some (true_tail (st_log st))" and i: "idle st"
    and ro: "read_only_address (st_log st) < true_tail (st_log st) \<or> flushed_until_address (st_log st) = true_tail (st_log st)"
    and b: "begin_address (st_log st) < 2 ^ 64" "true_tail (st_log st) < 2 ^ 64" "u < 2 ^ 64" and d: "dir_outcomes d = []"
  shows "\<exists>info st' d'. take_checkpoint k st d u = Some (Inr info, st', d') \<and> read_from d' = Inr info
    \<and> ci_final_address info = true_tail (st_log st) \<and> ci_user_data info = u
    \<and> system_state st' = \<lparr>phase = Rest, version = Suc (version (system_state st))\<rparr>
    \<and> store_inv st' R \<and> (\<forall>key. svalue st' R key = svalue st R key)
    \<and> (\<forall>a r. R a = Some r \<longrightarrow> on_device (st_log st') a r)"
proof -
  obtain r st' d' where c: "take_checkpoint k st d u = Some (r, st', d')" using checkpoint_idle [OF inv v tl i ro] by (metis prod_cases3)
  from inv v tl c show ?thesis
  proof (cases rule: checkpoint_cases)
    case (failed e)
    with write_to_ok [OF d] show ?thesis by (metis Inl_Inr_False Pair_inject)
  next
    case (saved info)
    have "info_ok info" using saved(2) b v by (simp add: info_ok_def)
    from write_read [OF this saved(3)] have rd: "read_from d' = Inr info" by simp
    have dk: "data_ok (st_index st') (st_log st') R" using inv data_moves [OF _ saved(6)] saved(5) by (simp add: store_inv_def)
    have "log_inv (st_log st') R" "true_tail (st_log st') = true_tail (st_log st)" using saved(6) moves_tail by (auto simp: log_moves_def)
    then have "\<forall>a r. R a = Some r \<longrightarrow> on_device (st_log st') a r" using flushed_stored saved(7) by simp
    then show ?thesis using c saved rd dk by (auto simp: store_inv_def svalue_def)
  qed
qed

lemma demo_checkpoint_ready:
  "store_inv demo_store Map.empty" "Suc (version (system_state demo_store)) < 2 ^ 56" "idle demo_store"
  "tail_address (st_log demo_store) = Some (true_tail (st_log demo_store))" "true_tail (st_log demo_store) = 64"
  "flushed_until_address (st_log demo_store) = true_tail (st_log demo_store)" "begin_address (st_log demo_store) = 64"
proof -
  have st: "st_log demo_store = demo_log" "st_system_state demo_store = ss_pack \<lparr>phase = Rest, version = 1\<rparr>"
    using demo_log_new by (simp_all add: demo_store_def store_new_def)
  show "store_inv demo_store Map.empty" using demo_store_ok(1) by (simp add: can_run_def)
  show "Suc (version (system_state demo_store)) < 2 ^ 56" by (simp add: system_state_def st ss_unpack_pack)
  show "idle demo_store" by (simp add: idle_def st demo_log_def epoch_new_def hlog_new_def Let_def)
  show "tail_address (st_log demo_store) = Some (true_tail (st_log demo_store))" "true_tail (st_log demo_store) = 64"
    "flushed_until_address (st_log demo_store) = true_tail (st_log demo_store)" "begin_address (st_log demo_store) = 64"
    by (simp_all add: st demo_log_def hlog_new_def Let_def tail_address_def true_tail_def unpack_pack page_size_def FIRST_VALID_ADDRESS_def PAGE_HEADER_SIZE_def)
qed

theorem checkpoint_durable_witness:
  "\<exists>info st' d'. take_checkpoint 0 demo_store demo_dir 7 = Some (Inr info, st', d') \<and> read_from d' = Inr info \<and> ci_user_data info = 7
     \<and> version (system_state st') = 2"
proof -
  have "dir_outcomes demo_dir = []" "(7::nat) < 2 ^ 64" "(64::nat) < 2 ^ 64" by (simp_all add: demo_dir_def)
  moreover have "version (system_state demo_store) = 1"
    using demo_log_new by (simp add: demo_store_def store_new_def system_state_def ss_unpack_pack)
  ultimately show ?thesis
    using checkpoint_durable [OF demo_checkpoint_ready(1,2,4,3), of 7 demo_dir 0] demo_checkpoint_ready(5-7) by fastforce
qed

text \<open>C19: When the metadata of a checkpoint cannot be written, the data and the previous metadata stay, but the store is left in
  WAIT_FLUSH: every later checkpoint is refused.\<close>

theorem checkpoint_failure_sticks:
  assumes inv: "store_inv st R" and v: "Suc (version (system_state st)) < 2 ^ 56"
    and tl: "tail_address (st_log st) = Some (true_tail (st_log st))"
    and c: "take_checkpoint k st d u = Some (Inl e, st', d')"
  shows "meta_file d' = meta_file d \<and> (\<forall>key. svalue st' R key = svalue st R key)
    \<and> take_checkpoint k' st' d'' u' = Some (Inl (str ''checkpoint already in progress''), st', d'')"
  using inv v tl c
proof (cases rule: checkpoint_cases)
  case (failed e')
  then show ?thesis using write_to_files [OF failed(2)] by (simp add: take_checkpoint_def svalue_def Let_def)
qed simp

theorem checkpoint_failure_sticks_witness:
  "\<exists>st' d'. take_checkpoint 0 demo_store (demo_dir\<lparr>dir_outcomes := [IoFail 0 [1]]\<rparr>) 0 = Some (Inl [1], st', d')
     \<and> take_checkpoint 0 st' d' 0 = Some (Inl (str ''checkpoint already in progress''), st', d')"
proof -
  let ?d = "demo_dir\<lparr>dir_outcomes := [IoFail 0 [1]]\<rparr>"
  note r = demo_checkpoint_ready
  obtain x st' d' where c: "take_checkpoint 0 demo_store ?d 0 = Some (x, st', d')"
    using checkpoint_idle [OF r(1,2,4,3), of 0 ?d 0] r(6) by (metis prod_cases3)
  have f: "write_to i ?d = (Inl [1], demo_dir)" for i by (simp add: write_to_def dir_call_def demo_dir_def)
  from r(1,2,4) c have "x = Inl [1]" by (cases rule: checkpoint_cases) (simp_all add: f)
  with c checkpoint_failure_sticks [OF r(1,2,4), of 0 ?d 0 "[1]" st' d' 0 d' 0] show ?thesis by blast
qed

end
