(* ===== verification/RecoverPage.thy ===== *)
theory RecoverPage
  imports CheckpointLaws
begin

text \<open>
  The walk of recovery over one page read back from the device. When the page holds records one behind the other from its
  header on and zero bytes after the last, the walk visits exactly these records, in the order of their addresses.
\<close>

definition in_page :: "nat \<Rightarrow> nat \<Rightarrow> nat \<Rightarrow> bool" where
  "in_page P ps a \<longleftrightarrow> P \<le> a \<and> a < P + ps"

definition page_image :: "nat \<Rightarrow> nat \<Rightarrow> nat \<Rightarrow> reclog \<Rightarrow> bytes \<Rightarrow> bool" where
  \<comment> \<open>the buffer of the page at \<open>P\<close> holds the records of \<open>S\<close> up to the address \<open>fin\<close>\<close>
  "page_image P ps fin S buf \<longleftrightarrow> length buf = ps
     \<and> (\<forall>a r. S a = Some r \<longrightarrow> in_page P ps a \<longrightarrow>
          P + PAGE_HEADER_SIZE \<le> a \<and> a + rec_size r \<le> min fin (P + ps) \<and> rec_at buf (a - P) r \<and> has_header r)
     \<and> (\<forall>a b r. S a = Some r \<longrightarrow> b \<in> dom S \<longrightarrow> a < b \<longrightarrow> a + rec_size r \<le> b)
     \<and> (\<forall>a \<in> dom S. in_page P ps a \<longrightarrow> a = P + PAGE_HEADER_SIZE \<or> (\<exists>b r. S b = Some r \<and> in_page P ps b \<and> b + rec_size r = a))
     \<and> (\<forall>x. P + PAGE_HEADER_SIZE \<le> x \<longrightarrow> x < min fin (P + ps) \<longrightarrow> uncovered S x \<longrightarrow> buf ! (x - P) = 0)"

definition boundary :: "nat \<Rightarrow> nat \<Rightarrow> reclog \<Rightarrow> nat \<Rightarrow> bool" where
  "boundary P ps S x \<longleftrightarrow> x = P + PAGE_HEADER_SIZE \<or> (\<exists>b r. S b = Some r \<and> in_page P ps b \<and> b + rec_size r = x)"

lemma page_imageD:
  assumes "page_image P ps fin S buf"
  shows "length buf = ps"
    and "S a = Some r \<Longrightarrow> in_page P ps a \<Longrightarrow> P + PAGE_HEADER_SIZE \<le> a" and "S a = Some r \<Longrightarrow> in_page P ps a \<Longrightarrow> a + rec_size r \<le> min fin (P + ps)"
    and "S a = Some r \<Longrightarrow> in_page P ps a \<Longrightarrow> rec_at buf (a - P) r" and "S a = Some r \<Longrightarrow> in_page P ps a \<Longrightarrow> has_header r"
    and "S a = Some r \<Longrightarrow> b \<in> dom S \<Longrightarrow> a < b \<Longrightarrow> a + rec_size r \<le> b"
    and "a \<in> dom S \<Longrightarrow> in_page P ps a \<Longrightarrow> boundary P ps S a"
    and "P + PAGE_HEADER_SIZE \<le> x \<Longrightarrow> x < min fin (P + ps) \<Longrightarrow> uncovered S x \<Longrightarrow> buf ! (x - P) = 0"
  using assms unfolding page_image_def boundary_def by blast+

text \<open>A boundary lies in no record.\<close>

lemma boundary_not_inside:
  assumes im: "page_image P ps fin S buf" and b: "boundary P ps S x" and r: "S a = Some r" "in_page P ps a"
  shows "x \<le> a \<or> a + rec_size r \<le> x"
proof (cases "x = P + PAGE_HEADER_SIZE")
  case True
  then show ?thesis using page_imageD(2) [OF im r] by simp
next
  case False
  then obtain c s where c: "S c = Some s" "c + rec_size s = x" using b by (auto simp: boundary_def)
  consider "a < c" | "a = c" | "c < a" by linarith
  then show ?thesis
  proof cases
    case 1
    have "a + rec_size r \<le> c" by (rule page_imageD(6) [OF im r(1) _ 1]) (use c in auto)
    then show ?thesis using c(2) by simp
  next
    case 3
    then show ?thesis using page_imageD(6) [OF im c(1), of a] c(2) r(1) by auto
  qed (use c r in simp)
qed

text \<open>A boundary that starts no record has no record behind it.\<close>

lemma boundary_last:
  assumes im: "page_image P ps fin S buf" and b: "boundary P ps S x" and n: "x \<notin> dom S"
    and y: "y \<in> dom S" "in_page P ps y" "x \<le> y"
  shows False
  using y
proof (induction y rule: less_induct)
  case (less y)
  have xy: "x < y" using less.prems n by (metis le_neq_implies_less)
  from page_imageD(7) [OF im less.prems(1,2)] show False
  proof (cases "y = P + PAGE_HEADER_SIZE")
    case True
    have "P + PAGE_HEADER_SIZE \<le> x"
      using b page_imageD(2) [OF im] rec_size_ge(1) by (fastforce simp: boundary_def)
    with True xy show False by simp
  next
    case False
    with page_imageD(7) [OF im less.prems(1,2)] obtain c s where c: "S c = Some s" "in_page P ps c" "c + rec_size s = y"
      by (auto simp: boundary_def)
    have lt: "c < y" using c(3) rec_size_ge(1) [of s] by linarith
    have "x \<le> c" using boundary_not_inside [OF im b c(1,2)] c(3) xy by simp
    with less.IH [OF lt] c show False by blast
  qed
qed

lemma from_le_zero: "(\<And>i. i < length bs \<Longrightarrow> bs ! i = 0) \<Longrightarrow> from_le bs = 0"
proof (induction bs)
  case (Cons b bs)
  have "b = 0" using Cons.prems [of 0] by simp
  moreover have "i < length bs \<Longrightarrow> bs ! i = 0" for i using Cons.prems [of "Suc i"] by simp
  ultimately show ?case using Cons.IH by simp
qed simp

lemma from_le_slice_zero:
  assumes "\<And>i. i < 24 \<Longrightarrow> mem ! (p + i) = 0" and "p + 24 \<le> length mem" and "j + n \<le> 24"
  shows "from_le (slice_at mem (p + j) n) = 0"
  using assms by (intro from_le_zero) (simp add: nth_slice add.assoc)

lemma zero_header:
  assumes z: "\<And>i. i < 24 \<Longrightarrow> mem ! (p + i) = 0" and l: "p + 24 \<le> length mem"
  shows "rp_info mem p = 0" "rp_key_len mem p = 0" "rp_value_cap mem p = 0"
  using from_le_slice_zero [where 'a = 64, OF z l, of 0 8] from_le_slice_zero [where 'a = 32, OF z l, of 8 4]
    from_le_slice_zero [where 'a = 32, OF z l, of 16 4]
  by (simp_all add: rp_info_def rp_key_len_def rp_value_cap_def hdr_u32_def layout_sizes add.assoc)

lemma walk_image:
  assumes im: "page_image P ps fin S buf" and b: "boundary P ps S (P + off)"
    and pg: "\<And>a r x. S a = Some r \<Longrightarrow> \<not> in_page P ps a \<Longrightarrow> in_page P ps x \<Longrightarrow> x < a \<or> a + rec_size r \<le> x"
  shows "sorted_wrt (<) (records_in_buf buf off (min fin (P + ps) - P))
    \<and> set (records_in_buf buf off (min fin (P + ps) - P)) = {x. off \<le> x \<and> P + x \<in> dom S \<and> x < ps}"
  using b
proof (induction "ps - off" arbitrary: off rule: less_induct)
  case less
  let ?lim = "min fin (P + ps) - P"
  have ge: "PAGE_HEADER_SIZE \<le> off"
    using less.prems page_imageD(2) [OF im] rec_size_ge(1) by (fastforce simp: boundary_def)
  show ?case
  proof (cases "P + off \<in> dom S \<and> off < ps")
    case True
    then obtain r where r: "S (P + off) = Some r" "in_page P ps (P + off)" by (auto simp: in_page_def)
    note d = page_imageD(2-5) [OF im r]
    have at: "rec_at buf off r" using d(3) by simp
    have sz: "off + rec_size r \<le> ?lim" using d(2) by linarith
    have "rp_info buf off \<noteq> 0 \<or> rp_key_len buf off \<noteq> 0 \<or> rp_value_cap buf off \<noteq> 0"
      using d(4) rec_at_header [OF at] by (auto simp: has_header_def)
    then have w: "records_in_buf buf off ?lim = off # records_in_buf buf (off + rec_size r) ?lim"
      using sz rec_size_ge(1) [of r] rec_at_reads(4) [OF at] by (subst records_in_buf.simps) (auto simp: layout_sizes)
    have "boundary P ps S (P + (off + rec_size r))" using r by (auto simp: boundary_def intro: exI [of _ "P + off"])
    moreover have "ps - (off + rec_size r) < ps - off" using True rec_size_ge(1) [of r] by linarith
    ultimately have ih: "sorted_wrt (<) (records_in_buf buf (off + rec_size r) ?lim)"
      "set (records_in_buf buf (off + rec_size r) ?lim) = {x. off + rec_size r \<le> x \<and> P + x \<in> dom S \<and> x < ps}"
      using less.hyps by blast+
    have "off + rec_size r \<le> x" if "P + x \<in> dom S" "off < x" for x using page_imageD(6) [OF im r(1) that(1)] that(2) by simp
    then have "{x. off \<le> x \<and> P + x \<in> dom S \<and> x < ps} = insert off {x. off + rec_size r \<le> x \<and> P + x \<in> dom S \<and> x < ps}"
      using True by (auto simp: le_eq_less_or_eq)
    then show ?thesis unfolding w using ih rec_size_ge(1) [of r] by auto
  next
    case False
    have none: "\<not> (P + x \<in> dom S \<and> x < ps)" if "off \<le> x" for x
    proof
      assume x: "P + x \<in> dom S \<and> x < ps"
      then have "P + off \<notin> dom S" using False that by auto
      then show False using boundary_last [OF im less.prems, of "P + x"] x that by (simp add: in_page_def)
    qed
    have "records_in_buf buf off ?lim = []"
    proof (cases "off + 24 \<le> ?lim")
      case True
      have un: "uncovered S (P + off + i)" if "i < 24" for i
        unfolding uncovered_def
      proof (intro allI impI)
        fix a r assume r: "S a = Some r"
        have inp: "in_page P ps (P + off + i)" using True that by (auto simp: in_page_def)
        show "P + off + i < a \<or> a + rec_size r \<le> P + off + i"
        proof (cases "in_page P ps a")
          case True
          have "a < P + off"
          proof (rule ccontr)
            assume "\<not> a < P + off"
            then have "off \<le> a - P" "P + (a - P) = a" "a - P < ps" using True by (auto simp: in_page_def)
            with none [of "a - P"] r show False by auto
          qed
          then show ?thesis using boundary_not_inside [OF im less.prems r True] by fastforce
        qed (use pg [OF r _ inp] in blast)
      qed
      have "buf ! (off + i) = 0" if i: "i < 24" for i
      proof -
        have "P + off + i < min fin (P + ps)" using True i by linarith
        moreover have "P + PAGE_HEADER_SIZE \<le> P + off + i" using ge by simp
        ultimately show ?thesis using page_imageD(8) [OF im _ _ un [OF i]] by (simp add: add.assoc)
      qed
      moreover have "off + 24 \<le> length buf" using True page_imageD(1) [OF im] by simp
      ultimately show ?thesis using zero_header [of buf off] by (intro walk_stops) blast
    qed (auto intro!: walk_stops simp: layout_sizes MIN_DISK_READ_def)
    then show ?thesis using none by auto
  qed
qed

end
