(* ===== verification/RecoverIndex.thy ===== *)
theory RecoverIndex
  imports RecoverPage
begin

text \<open>
  The index that recovery builds. Over the records met so far, an entry holds the highest address of its chain, and
  an entry without records does not exist. Recovery meets the records by increasing address, so each one becomes the head of its chain.
\<close>

definition chain_set :: "hash_index \<Rightarrow> reclog \<Rightarrow> nat set \<Rightarrow> u64 \<Rightarrow> nat set" where
  \<comment> \<open>the addresses of \<open>D\<close> whose records share the entry of the hash\<close>
  "chain_set ix S D h = {a \<in> D. \<exists>r. S a = Some r \<and> same_entry ix h (hash64 (r_key r))}"

definition entry_of :: "hash_index \<Rightarrow> reclog \<Rightarrow> nat \<Rightarrow> nat \<times> u64" where
  "entry_of ix S a = (let h = hash64 (r_key (the (S a))) in (bucket_index ix h, tag_of h))"

definition head_of :: "nat set \<Rightarrow> u64 option" where
  "head_of A = (if A = {} then None else Some (of_nat (Max A)))"

definition index_built :: "hash_index \<Rightarrow> reclog \<Rightarrow> nat set \<Rightarrow> hash_index \<Rightarrow> bool" where
  "index_built ix0 S D ix \<longleftrightarrow> index_wf ix \<and> (\<forall>h. bucket_index ix h = bucket_index ix0 h) \<and> same_latches ix0 ix
     \<and> length (overflow ix) = length (overflow ix0) \<and> overflow_next ix \<le> Suc (card (entry_of ix0 S ` D))
     \<and> (\<forall>h. index_lookup ix h = head_of (chain_set ix0 S D h))"

lemma index_builtD:
  assumes "index_built ix0 S D ix"
  shows "index_wf ix" and "bucket_index ix h = bucket_index ix0 h" and "same_latches ix0 ix" and "length (overflow ix) = length (overflow ix0)"
    and "overflow_next ix \<le> Suc (card (entry_of ix0 S ` D))" and "index_lookup ix h = head_of (chain_set ix0 S D h)"
    and "same_entry ix = same_entry ix0"
  using assms by (auto simp: index_built_def same_entry_def fun_eq_iff)

lemma index_built_clear:
  assumes "index_wf ix"
  shows "index_built (index_clear ix) S {} (index_clear ix)"
  using index_clear_wf [OF assms] by (simp add: index_built_def chain_set_def head_of_def index_clear_def)

lemma chain_set_insert:
  assumes "S a = Some r"
  shows "chain_set ix S (insert a D) h = (if same_entry ix h (hash64 (r_key r)) then insert a (chain_set ix S D h) else chain_set ix S D h)"
  using assms by (auto simp: chain_set_def)

lemma entry_new:
  assumes D: "D \<subseteq> dom S" and r: "S a = Some r" and none: "chain_set ix S D (hash64 (r_key r)) = {}"
  shows "entry_of ix S a \<notin> entry_of ix S ` D"
proof
  assume "entry_of ix S a \<in> entry_of ix S ` D"
  then obtain x where x: "x \<in> D" "entry_of ix S a = entry_of ix S x" by blast
  then obtain y where "S x = Some y" using D by auto
  then have "x \<in> chain_set ix S D (hash64 (r_key r))" using x r by (simp add: chain_set_def entry_of_def same_entry_def Let_def)
  with none show False by simp
qed

lemma slot_address: "find_tag ix h = Some (Some s) \<Longrightarrow> index_lookup ix h = Some b \<Longrightarrow> he_address (slot_load ix s) = b"
  by (simp add: index_lookup_def)

lemma publish_shape:
  assumes "index_wf ix" and "find_tag ix h = Some (Some s)"
  shows "overflow_next (index_publish ix s a) = overflow_next ix" "length (overflow (index_publish ix s a)) = length (overflow ix)"
    "bucket_index (index_publish ix s a) h' = bucket_index ix h'"
  by (simp_all add: index_publish_def try_cas_def slot_store_def)

lemma build_find:
  assumes b: "index_built ix0 S D ix" and D: "D \<subseteq> dom S" "finite D" and r: "S a = Some r"
    and room: "card (entry_of ix0 S ` insert a D) \<le> length (overflow ix0)"
  obtains s ix1 where "find_or_create_tag ix (hash64 (r_key r)) = Some (s, ix1)" "tag_created ix (hash64 (r_key r)) s ix1"
    "overflow_next ix1 \<le> Suc (card (entry_of ix0 S ` insert a D))"
proof (cases "index_lookup ix (hash64 (r_key r)) = None")
  case True
  then have e: "chain_set ix0 S D (hash64 (r_key r)) = {}" using index_builtD(6) [OF b] by (simp add: head_of_def split: if_splits)
  have c: "card (entry_of ix0 S ` insert a D) = Suc (card (entry_of ix0 S ` D))" using entry_new [OF D(1) r e] D(2) by simp
  then have "overflow_next ix \<le> length (overflow ix)" using index_builtD(4,5) [OF b] room by simp
  from find_or_create_tag_created [OF index_builtD(1) [OF b] this] obtain s ix1 where
    t: "find_or_create_tag ix (hash64 (r_key r)) = Some (s, ix1)" "tag_created ix (hash64 (r_key r)) s ix1" by blast
  moreover have "overflow_next ix1 \<le> Suc (card (entry_of ix0 S ` insert a D))"
    using t(2) index_builtD(5) [OF b] c by (simp add: tag_created_def)
  ultimately show thesis using that by blast
next
  case False
  from find_or_create_existing [OF index_builtD(1) [OF b] this] obtain s where
    s: "find_or_create_tag ix (hash64 (r_key r)) = Some (s, ix)" "find_tag ix (hash64 (r_key r)) = Some (Some s)" by blast
  have "tag_created ix (hash64 (r_key r)) s ix" using s(2) False index_builtD(1) [OF b] by (auto simp: tag_created_def)
  moreover have "card (entry_of ix0 S ` D) \<le> card (entry_of ix0 S ` insert a D)" using D(2) by (intro card_mono) auto
  then have "overflow_next ix \<le> Suc (card (entry_of ix0 S ` insert a D))" using index_builtD(5) [OF b] by simp
  ultimately show thesis using that s(1) by blast
qed

lemma build_step:
  assumes b: "index_built ix0 S D ix" and D: "D \<subseteq> dom S" "finite D" and r: "S a = Some r" and lt: "\<And>x. x \<in> D \<Longrightarrow> x < a"
    and a: "FIRST_VALID_ADDRESS \<le> a" "a < 2 ^ 48" and room: "card (entry_of ix0 S ` insert a D) \<le> length (overflow ix0)"
  obtains s ix1 where "find_or_create_tag ix (hash64 (r_key r)) = Some (s, ix1)" "unat (he_address (slot_load ix1 s)) < a"
    "try_cas ix1 s (slot_load ix1 s) (of_nat a) = (True, index_publish ix1 s (of_nat a))"
    "index_built ix0 S (insert a D) (index_publish ix1 s (of_nat a))"
proof -
  let ?h = "hash64 (r_key r)" and ?a = "of_nat a :: u64"
  obtain s ix1 where t: "find_or_create_tag ix ?h = Some (s, ix1)" "tag_created ix ?h s ix1" "overflow_next ix1 \<le> Suc (card (entry_of ix0 S ` insert a D))"
    using build_find [OF b D r room] by blast
  note c = t(2) [unfolded tag_created_def]
  have wf: "index_wf ix1" and f: "find_tag ix1 ?h = Some (Some s)" using c by auto
  have u: "unat ?a = a" using a(2) by (simp add: unat_of_nat_u64)
  have ok: "?a \<noteq> 0 \<and> take_bit 48 ?a = ?a" using a u by (auto simp: take_bit_48_of_nat FIRST_VALID_ADDRESS_def PAGE_HEADER_SIZE_def)
  note p = tix.publish [OF wf f ok]
  have se: "same_entry ix1 = same_entry ix0" using c index_builtD(2) [OF b] by (simp add: same_entry_def fun_eq_iff)
  have lk: "index_lookup ix h = head_of (chain_set ix0 S D h)" for h by (rule index_builtD(6) [OF b])
  have "unat (he_address (slot_load ix1 s)) < a"
  proof (cases "chain_set ix0 S D ?h = {}")
    case True
    then have "index_lookup ix1 ?h = Some TEMP_INVALID_ADDRESS" using c lk [of ?h] by (simp add: head_of_def same_entry_def)
    from slot_address [OF f this] a show ?thesis by (simp add: TEMP_INVALID_ADDRESS_def FIRST_VALID_ADDRESS_def PAGE_HEADER_SIZE_def)
  next
    case False
    let ?m = "Max (chain_set ix0 S D ?h)"
    have "finite (chain_set ix0 S D ?h)" using D(2) by (simp add: chain_set_def)
    from Max_in [OF this False] have m: "?m < a" using lt by (simp add: chain_set_def)
    have "index_lookup ix1 ?h = Some (of_nat ?m)" using c lk [of ?h] False by (simp add: head_of_def)
    from slot_address [OF f this] m a(2) show ?thesis by (simp add: unat_of_nat_u64)
  qed
  moreover have "try_cas ix1 s (slot_load ix1 s) ?a = (True, index_publish ix1 s ?a)" by (simp add: index_publish_def try_cas_def)
  moreover have "index_built ix0 S (insert a D) (index_publish ix1 s ?a)"
  proof -
    have "index_lookup (index_publish ix1 s ?a) h = head_of (chain_set ix0 S (insert a D) h)" for h
    proof (cases "same_entry ix0 ?h h")
      case True
      then have i: "chain_set ix0 S (insert a D) h = insert a (chain_set ix0 S D h)"
        by (simp add: chain_set_insert [where S = S and a = a, OF r] same_entry_def)
      have "finite (chain_set ix0 S D h)" "\<forall>x \<in> chain_set ix0 S D h. x < a" using D(2) lt by (auto simp: chain_set_def)
      then have "Max (insert a (chain_set ix0 S D h)) = a" by (intro Max_eqI) (auto intro: less_imp_le)
      then show ?thesis using p True se by (simp add: i head_of_def)
    next
      case False
      then have "chain_set ix0 S (insert a D) h = chain_set ix0 S D h"
        by (auto simp: chain_set_insert [where S = S and a = a, OF r] same_entry_def)
      moreover have "\<not> same_entry ix ?h h" using False index_builtD(7) [OF b] by simp
      ultimately show ?thesis using p False se c lk [of h] by simp
    qed
    moreover have "same_latches ix0 (index_publish ix1 s ?a)"
    proof -
      have "same_latches ix ix1" using c by (intro same_latchesI) auto
      with publish_latches [OF wf f, of ?a] ok index_builtD(3) [OF b] show ?thesis using same_latches_trans by blast
    qed
    ultimately show ?thesis
      using p publish_shape [OF wf f, of ?a] c index_builtD(2,4) [OF b] t(3) by (simp add: index_built_def)
  qed
  ultimately show thesis using that t(1) by blast
qed

end
