(* ===== verification/RecoverLoop.thy ===== *)
theory RecoverLoop
  imports RecoverIndex
begin

text \<open>
  The loops of recovery, from the inside out: one record, the records of a page, the pages of the device. The device ends up
  with every record unsealed, the index with every record at or below the head of its chain.
\<close>

subsection \<open>One record\<close>

definition can_build :: "CheckpointInfo \<Rightarrow> hash_index \<Rightarrow> reclog \<Rightarrow> bool" where
  \<comment> \<open>what recovery needs to know of the records it will meet\<close>
  "can_build info ix0 S \<longleftrightarrow> finite (dom S) \<and> card (entry_of ix0 S ` dom S) \<le> length (overflow ix0)
     \<and> (\<forall>a r. S a = Some r \<longrightarrow> is_valid (r_info r) \<and> FIRST_VALID_ADDRESS \<le> a \<and> a < 2 ^ 48 \<and> a < ci_start_address info)"

lemma store_info_same: "rec_at mem p r \<Longrightarrow> rp_store_info mem p (r_info r) = mem"
proof -
  assume at: "rec_at mem p r"
  then have "p + length (encode r) \<le> length mem" "slice_at mem p (length (encode r)) = encode r" by (simp_all add: rec_at_def)
  moreover have "8 \<le> length (encode r)" by (simp add: length_encode layout_sizes)
  ultimately have "slice_at mem p 8 = take 8 (encode r)" "p + 8 \<le> length mem" by (simp_all add: slice_at_def) (metis min.absorb1 take_take)
  moreover have "take 8 (encode r) = to_le 8 (r_info r)" by (simp add: encode_def)
  ultimately show ?thesis using splice_self [of p 8 mem] by (simp add: rp_store_info_def)
qed

lemma unseal_open: "\<not> is_sealed w \<Longrightarrow> w AND NOT SEALED_BIT = w"
  by (rule bit_word_eqI) (auto simp: bit_and_iff bit_not_iff is_sealed_bit bit_header_bit)

lemma recover_record_ok:
  assumes cb: "can_build info ix0 S" and b: "index_built ix0 S D ix" and D: "D \<subseteq> dom S" and r: "S (P + off) = Some r"
    and lt: "\<And>x. x \<in> D \<Longrightarrow> x < P + off" and at: "rec_at buf off r"
  obtains d' ix' where "recover_record info P off (buf, dirty, ix) = Some (rp_store_info buf off (r_info (unsealed r)), d', ix')"
    "index_built ix0 S (insert (P + off) D) ix'" "\<not> d' \<Longrightarrow> \<not> dirty \<and> rp_store_info buf off (r_info (unsealed r)) = buf"
proof -
  let ?a = "P + off" and ?w = "r_info r" and ?buf = "rp_store_info buf off (r_info (unsealed r))"
  have c: "finite (dom S)" "is_valid ?w" "FIRST_VALID_ADDRESS \<le> ?a" "?a < 2 ^ 48" "\<not> ci_start_address info \<le> ?a"
  proof -
    have "is_valid ?w \<and> FIRST_VALID_ADDRESS \<le> ?a \<and> ?a < 2 ^ 48 \<and> ?a < ci_start_address info" "finite (dom S)"
      using cb r by (simp_all add: can_build_def)
    then show "finite (dom S)" "is_valid ?w" "FIRST_VALID_ADDRESS \<le> ?a" "?a < 2 ^ 48" "\<not> ci_start_address info \<le> ?a" by auto
  qed
  have "entry_of ix0 S ` insert ?a D \<subseteq> entry_of ix0 S ` dom S" using D r by auto
  then have "card (entry_of ix0 S ` insert ?a D) \<le> card (entry_of ix0 S ` dom S)" by (rule card_mono [rotated]) (simp add: c(1))
  also have "\<dots> \<le> length (overflow ix0)" using cb by (simp add: can_build_def)
  finally have room: "card (entry_of ix0 S ` insert ?a D) \<le> length (overflow ix0)" .
  have fin: "finite D" using c(1) D by (rule finite_subset [rotated])
  obtain s ix1 where s: "find_or_create_tag ix (hash64 (r_key r)) = Some (s, ix1)" "unat (he_address (slot_load ix1 s)) < ?a"
    "try_cas ix1 s (slot_load ix1 s) (of_nat ?a) = (True, index_publish ix1 s (of_nat ?a))"
    "index_built ix0 S (insert ?a D) (index_publish ix1 s (of_nat ?a))"
    by (rule build_step [where S = S and a = ?a, OF b D fin r lt c(3,4) room])
  have i: "rp_info buf off = ?w" using rec_at_header(1) [OF at] .
  have "rec_at ?buf off (r\<lparr>r_info := r_info (unsealed r)\<rparr>)" by (rule rec_at_store_info [OF at])
  then have k: "rp_key ?buf off = r_key r" using rec_at_reads(1) by fastforce
  have e: "recover_record info P off (buf, dirty, ix) = Some (?buf, is_sealed ?w \<or> dirty, index_publish ix1 s (of_nat ?a))"
    and n: "\<not> is_sealed ?w \<Longrightarrow> ?buf = buf"
  proof -
    have un: "r_info (unsealed r) = ?w" if "\<not> is_sealed ?w" using unseal_open [OF that] by simp
    show n: "?buf = buf" if "\<not> is_sealed ?w" using un [OF that] store_info_same [OF at] by simp
    show "recover_record info P off (buf, dirty, ix) = Some (?buf, is_sealed ?w \<or> dirty, index_publish ix1 s (of_nat ?a))"
      using k n by (cases "is_sealed ?w") (simp_all add: recover_record_def Let_def i c(2,5) s(1-3) rec_at_reads(1) [OF at] del: of_nat_add)
  qed
  show thesis using that [OF e s(4)] n by blast
qed

subsection \<open>The records of a page\<close>

lemma recover_records_ok:
  assumes cb: "can_build info ix0 S"
    and sep: "\<And>a b r. S a = Some r \<Longrightarrow> b \<in> dom S \<Longrightarrow> a < b \<Longrightarrow> a + rec_size r \<le> b"
  shows "sorted_wrt (<) offs \<Longrightarrow> index_built ix0 S D ix \<Longrightarrow> D \<subseteq> dom S \<Longrightarrow> (\<forall>j \<in> set offs. P + j \<in> dom S \<and> (\<forall>x \<in> D. x < P + j)) \<Longrightarrow>
      (\<forall>j \<in> set offs. rec_at buf j (the (S (P + j)))) \<Longrightarrow>
    \<exists>buf' d' ix'. recover_records info P offs (buf, dirty, ix) = Some (buf', d', ix')
      \<and> index_built ix0 S (D \<union> (\<lambda>j. P + j) ` set offs) ix' \<and> length buf' = length buf
      \<and> (\<forall>j \<in> set offs. rec_at buf' j (unsealed (the (S (P + j)))))
      \<and> (\<forall>i < length buf. (\<forall>j \<in> set offs. i < j \<or> j + 8 \<le> i) \<longrightarrow> buf' ! i = buf ! i) \<and> (\<not> d' \<longrightarrow> \<not> dirty \<and> buf' = buf)"
proof (induction offs arbitrary: buf dirty ix D)
  case (Cons off offs)
  obtain r where r: "S (P + off) = Some r" using Cons.prems(4) by auto
  have at: "rec_at buf off r" using Cons.prems(5) r by simp
  have lt: "x < P + off" if "x \<in> D" for x using Cons.prems(4) that by simp
  let ?b = "rp_store_info buf off (r_info (unsealed r))" and ?D = "insert (P + off) D"
  obtain d1 ix1 where s: "recover_record info P off (buf, dirty, ix) = Some (?b, d1, ix1)" "index_built ix0 S ?D ix1"
    "\<not> d1 \<Longrightarrow> \<not> dirty \<and> ?b = buf"
    using recover_record_ok [OF cb Cons.prems(2,3) r lt at] by blast
  have nxt: "off + rec_size r \<le> j'" if "j' \<in> set offs" for j'
    using sep [OF r, of "P + j'"] that Cons.prems(1,4) by simp
  have enc: "off + length (encode r) \<le> length buf" "8 \<le> length (encode r)" using at by (simp_all add: rec_at_def length_encode layout_sizes)
  have len: "length ?b = length buf" using enc by (simp add: rp_store_info_def)
  have keep: "rec_at ?b j' (the (S (P + j')))" if j': "j' \<in> set offs" for j'
    unfolding rp_store_info_def
    using Cons.prems(5) j' nxt [OF j'] rec_size_ge(1) [of r] enc by (intro rec_at_other) auto
  have cl: "rec_at ?b off (unsealed r)"
    using rec_at_store_info [OF at, of "r_info (unsealed r)"] by (simp add: unsealed_def set_info_def)
  have D1: "?D \<subseteq> dom S" using Cons.prems(3) r by auto
  have o1: "\<forall>j' \<in> set offs. P + j' \<in> dom S \<and> (\<forall>x \<in> ?D. x < P + j')"
    using Cons.prems(1,4) by auto
  have so: "sorted_wrt (<) offs" using Cons.prems(1) by simp
  from Cons.IH [OF so s(2) D1 o1, of ?b d1] keep obtain b' d' ix' where
    ih: "recover_records info P offs (?b, d1, ix1) = Some (b', d', ix')" "index_built ix0 S (?D \<union> (\<lambda>j. P + j) ` set offs) ix'"
    "length b' = length ?b" "\<forall>j \<in> set offs. rec_at b' j (unsealed (the (S (P + j))))"
    "\<forall>i < length ?b. (\<forall>j \<in> set offs. i < j \<or> j + 8 \<le> i) \<longrightarrow> b' ! i = ?b ! i" "\<not> d' \<longrightarrow> \<not> d1 \<and> b' = ?b" by blast
  have "rec_at b' off (unsealed r)"
  proof (rule rec_at_bytes [OF cl])
    have "length (encode (unsealed r)) = length (encode r)" by (simp add: length_encode)
    then show "off + length (encode (unsealed r)) \<le> length b'" using enc ih(3) len by simp
    fix i assume "i < length (encode (unsealed r))"
    then have "i < rec_size r" using rec_size_ge(2) [of r] by (simp add: length_encode)
    then have "\<forall>j' \<in> set offs. off + i < j' \<or> j' + 8 \<le> off + i" using nxt by fastforce
    moreover have "off + i < length ?b" using \<open>i < length (encode (unsealed r))\<close> enc len by (simp add: length_encode)
    ultimately show "b' ! (off + i) = ?b ! (off + i)" using ih(5) by simp
  qed
  moreover have "b' ! i = buf ! i" if "\<forall>j' \<in> set (off # offs). i < j' \<or> j' + 8 \<le> i" "i < length buf" for i
  proof -
    have "?b ! i = buf ! i" using that enc by (auto simp: rp_store_info_def nth_splice)
    then show ?thesis using ih(5) that len by simp
  qed
  moreover have "\<not> d' \<longrightarrow> \<not> dirty \<and> b' = buf" using ih(6) s(3) by auto
  ultimately show ?case
    using s(1) ih(1-4) len r by (intro exI [of _ b'] exI [of _ d'] exI [of _ ix']) simp
qed simp

subsection \<open>A page of the device\<close>

definition heap_layout :: "nat \<Rightarrow> nat \<Rightarrow> reclog \<Rightarrow> bool" where
  \<comment> \<open>valid records up to \<open>fin\<close>, each inside its page, without overlap and without a gap from the page header on\<close>
  "heap_layout ps fin S \<longleftrightarrow>
     (\<forall>a r. S a = Some r \<longrightarrow> a div ps * ps + PAGE_HEADER_SIZE \<le> a \<and> a + rec_size r \<le> min fin (a div ps * ps + ps) \<and> is_valid (r_info r))
     \<and> (\<forall>a b r. S a = Some r \<longrightarrow> b \<in> dom S \<longrightarrow> a < b \<longrightarrow> a + rec_size r \<le> b)
     \<and> (\<forall>a \<in> dom S. a = a div ps * ps + PAGE_HEADER_SIZE \<or> (\<exists>b r. S b = Some r \<and> b div ps = a div ps \<and> b + rec_size r = a))"

definition dev_image :: "bytes \<Rightarrow> nat \<Rightarrow> nat \<Rightarrow> reclog \<Rightarrow> nat set \<Rightarrow> bool" where
  \<comment> \<open>the records of \<open>D\<close> have been unsealed\<close>
  "dev_image dev ps fin S D \<longleftrightarrow> fin \<le> length dev
     \<and> (\<forall>a r. S a = Some r \<longrightarrow> rec_at dev a (if a \<in> D then unsealed r else r))
     \<and> (\<forall>x < fin. PAGE_HEADER_SIZE \<le> x mod ps \<longrightarrow> uncovered S x \<longrightarrow> dev ! x = 0)"

lemma heap_layoutD:
  assumes "heap_layout ps fin S"
  shows "S a = Some r \<Longrightarrow> a div ps * ps + PAGE_HEADER_SIZE \<le> a" and "S a = Some r \<Longrightarrow> a + rec_size r \<le> min fin (a div ps * ps + ps)"
    and "S a = Some r \<Longrightarrow> is_valid (r_info r)" and "S a = Some r \<Longrightarrow> b \<in> dom S \<Longrightarrow> a < b \<Longrightarrow> a + rec_size r \<le> b"
    and "a \<in> dom S \<Longrightarrow> a = a div ps * ps + PAGE_HEADER_SIZE \<or> (\<exists>b r. S b = Some r \<and> b div ps = a div ps \<and> b + rec_size r = a)"
  using assms unfolding heap_layout_def by blast+

lemma dev_imageD:
  assumes "dev_image dev ps fin S D"
  shows "fin \<le> length dev" and "S a = Some r \<Longrightarrow> rec_at dev a (if a \<in> D then unsealed r else r)"
    and "x < fin \<Longrightarrow> PAGE_HEADER_SIZE \<le> x mod ps \<Longrightarrow> uncovered S x \<Longrightarrow> dev ! x = 0"
  using assms unfolding dev_image_def by blast+

lemma in_page_div: "0 < ps \<Longrightarrow> in_page (p * ps) ps a \<longleftrightarrow> a div ps = p"
  unfolding in_page_def by (metis add.commute div_nat_eqI dividend_less_times_div div_times_less_eq_dividend mult.commute mult_Suc_right)

definition page_buf :: "bytes \<Rightarrow> nat \<Rightarrow> nat \<Rightarrow> nat \<Rightarrow> bytes" where
  "page_buf dev ps P lim = splice_at (replicate ps 0) 0 (slice_at dev P lim)"

lemma page_buf_bytes:
  assumes "P + lim \<le> length dev" and "lim \<le> ps"
  shows "length (page_buf dev ps P lim) = ps" and "j < lim \<Longrightarrow> page_buf dev ps P lim ! j = dev ! (P + j)"
  using assms by (simp_all add: page_buf_def nth_splice nth_slice)

lemma valid_header: "is_valid (r_info r) \<Longrightarrow> has_header r"
  by (auto simp: has_header_def is_valid_def)

lemma page_read_image:
  assumes hl: "heap_layout ps fin S" and di: "dev_image dev ps fin S D" and P: "P = p * ps" "P < fin" "0 < ps"
    and D: "\<And>a. a \<in> D \<Longrightarrow> a < P"
  shows "page_image P ps fin S (page_buf dev ps P (min fin (P + ps) - P))"
proof -
  let ?lim = "min fin (P + ps) - P" and ?b = "page_buf dev ps P (min fin (P + ps) - P)"
  have l: "P + ?lim \<le> length dev" "?lim \<le> ps" using di P(2) by (auto simp: dev_image_def)
  note bb = page_buf_bytes [OF l]
  have pg: "in_page P ps a \<longleftrightarrow> a div ps = p" for a using in_page_div [OF P(3)] by (simp add: P(1))
  have rec: "P + PAGE_HEADER_SIZE \<le> a \<and> a + rec_size r \<le> min fin (P + ps) \<and> rec_at ?b (a - P) r \<and> has_header r"
    if r: "S a = Some r" "in_page P ps a" for a r
  proof -
    have d: "a div ps * ps = P" using r(2) pg P(1) by simp
    note h = heap_layoutD(1-3) [OF hl r(1), unfolded d]
    have "a \<notin> D" using D [of a] r(2) by (auto simp: in_page_def)
    then have at: "rec_at dev a r" using dev_imageD(2) [OF di r(1)] by simp
    have e: "length (encode r) \<le> rec_size r" by (rule rec_size_ge)
    have "rec_at ?b (a - P) r"
    proof (rule rec_at_bytes [OF at])
      show "a - P + length (encode r) \<le> length ?b" unfolding bb(1) using h(1,2) e by linarith
      fix i assume "i < length (encode r)"
      then have "a - P + i < ?lim" using h(1,2) e by linarith
      moreover have "P + (a - P + i) = a + i" using h(1) by linarith
      ultimately show "?b ! (a - P + i) = dev ! (a + i)" using bb(2) by metis
    qed
    then show ?thesis using h valid_header by blast
  qed
  have zero: "?b ! (x - P) = 0" if x: "P + PAGE_HEADER_SIZE \<le> x" "x < min fin (P + ps)" "uncovered S x" for x
  proof -
    have "in_page P ps x" using x by (auto simp: in_page_def)
    then have "x mod ps = x - P" using pg P(1) by (simp add: minus_div_mult_eq_mod [symmetric])
    then have "dev ! x = 0" using di x by (auto simp: dev_image_def)
    moreover have "x - P < ?lim" "P + (x - P) = x" using x by linarith+
    ultimately show ?thesis using bb(2) by metis
  qed
  have tile: "a = P + PAGE_HEADER_SIZE \<or> (\<exists>b r. S b = Some r \<and> in_page P ps b \<and> b + rec_size r = a)"
    if "a \<in> dom S" "in_page P ps a" for a
    using heap_layoutD(5) [OF hl that(1)] that(2) P(1) unfolding pg by fastforce
  show ?thesis unfolding page_image_def using bb(1) rec zero tile heap_layoutD(4) [OF hl] by blast
qed

lemma page_walk:
  assumes hl: "heap_layout ps fin S" and di: "dev_image dev ps fin S D" and P: "P = p * ps" "P < fin" "0 < ps"
    and D: "\<And>a. a \<in> D \<Longrightarrow> a < P" and f: "from \<le> PAGE_HEADER_SIZE"
  shows "sorted_wrt (<) (for_each_record_in_buf (page_buf dev ps P (min fin (P + ps) - P)) from (min fin (P + ps) - P))"
    and "(\<lambda>j. P + j) ` set (for_each_record_in_buf (page_buf dev ps P (min fin (P + ps) - P)) from (min fin (P + ps) - P))
      = {a \<in> dom S. in_page P ps a}"
proof -
  let ?b = "page_buf dev ps P (min fin (P + ps) - P)"
  note im = page_read_image [OF hl di P D]
  have out: "x < a \<or> a + rec_size r \<le> x" if r: "S a = Some r" "\<not> in_page P ps a" and x: "in_page P ps x" for a r x
  proof (cases "a < P")
    case True
    have "a div ps * ps + ps \<le> P"
    proof -
      have "a div ps < p" using True P(1,3) by (simp add: div_less_iff_less_mult)
      then have "Suc (a div ps) * ps \<le> p * ps" by (intro mult_right_mono) simp_all
      then show ?thesis by (simp add: P(1) add.commute)
    qed
    then show ?thesis using heap_layoutD(2) [OF hl r(1)] x by (auto simp: in_page_def)
  qed (use r(2) x in \<open>auto simp: in_page_def\<close>)
  have "max from PAGE_HEADER_SIZE = PAGE_HEADER_SIZE" using f by simp
  then have w: "sorted_wrt (<) (for_each_record_in_buf ?b from (min fin (P + ps) - P))"
    "set (for_each_record_in_buf ?b from (min fin (P + ps) - P)) = {x. PAGE_HEADER_SIZE \<le> x \<and> P + x \<in> dom S \<and> x < ps}"
    using walk_image [OF im _ out, of PAGE_HEADER_SIZE] by (simp_all add: for_each_record_in_buf_def boundary_def)
  show "sorted_wrt (<) (for_each_record_in_buf ?b from (min fin (P + ps) - P))" by (rule w(1))
  show "(\<lambda>j. P + j) ` set (for_each_record_in_buf ?b from (min fin (P + ps) - P)) = {a \<in> dom S. in_page P ps a}"
    unfolding w(2)
  proof (intro equalityI subsetI)
    fix a assume a: "a \<in> {a \<in> dom S. in_page P ps a}"
    then obtain r where "S a = Some r" by auto
    then have "P + PAGE_HEADER_SIZE \<le> a" using page_imageD(2) [OF im] a by blast
    then show "a \<in> (\<lambda>j. P + j) ` {x. PAGE_HEADER_SIZE \<le> x \<and> P + x \<in> dom S \<and> x < ps}"
      using a by (intro image_eqI [of _ _ "a - P"]) (auto simp: in_page_def)
  qed (auto simp: in_page_def)
qed

text \<open>The device after the page was written back, or left alone when nothing in it changed.\<close>

lemma write_back:
  assumes len: "P + lim \<le> length dev" "lim \<le> length buf" and clean: "\<not> dirty \<Longrightarrow> \<forall>j < lim. buf ! j = dev ! (P + j)"
  defines "dev' \<equiv> if dirty then write_at dev P (take lim buf) else dev"
  shows "length dev' = length dev" and "j < lim \<Longrightarrow> dev' ! (P + j) = buf ! j"
    and "x < length dev \<Longrightarrow> x < P \<or> P + lim \<le> x \<Longrightarrow> dev' ! x = dev ! x"
proof -
  show "length dev' = length dev" using len by (simp add: dev'_def length_write_at)
  show "j < lim \<Longrightarrow> dev' ! (P + j) = buf ! j" using len clean by (auto simp: dev'_def nth_write_at length_write_at)
  show "x < length dev \<Longrightarrow> x < P \<or> P + lim \<le> x \<Longrightarrow> dev' ! x = dev ! x"
    using len by (auto simp: dev'_def nth_write_at length_write_at)
qed

lemma page_device:
  assumes hl: "heap_layout ps fin S" and di: "dev_image dev ps fin S {a \<in> dom S. a < P}" and P: "P = p * ps" "P < fin" "0 < ps"
    and len: "length dev' = length dev" "length buf = ps"
    and new: "\<And>j. j < min fin (P + ps) - P \<Longrightarrow> dev' ! (P + j) = buf ! j"
    and old: "\<And>x. x < length dev \<Longrightarrow> x < P \<or> min fin (P + ps) \<le> x \<Longrightarrow> dev' ! x = dev ! x"
    and recs: "\<And>a r. S a = Some r \<Longrightarrow> in_page P ps a \<Longrightarrow> rec_at buf (a - P) (unsealed r)"
    and rest: "\<And>x. P \<le> x \<Longrightarrow> x < min fin (P + ps) \<Longrightarrow> uncovered S x \<Longrightarrow> buf ! (x - P) = dev ! x"
  shows "dev_image dev' ps fin S {a \<in> dom S. a < P + ps}"
  unfolding dev_image_def
proof (intro conjI allI impI)
  show "fin \<le> length dev'" using dev_imageD(1) [OF di] len by simp
  fix x assume x: "x < fin" "PAGE_HEADER_SIZE \<le> x mod ps" "uncovered S x"
  have z: "dev ! x = 0" by (rule dev_imageD(3) [OF di x])
  show "dev' ! x = 0"
  proof (cases "in_page P ps x")
    case True
    then have b: "P \<le> x" "x < min fin (P + ps)" using x(1) by (auto simp: in_page_def)
    then have "x - P < min fin (P + ps) - P" "P + (x - P) = x" by linarith+
    then show ?thesis using new [of "x - P"] rest [OF b x(3)] z by simp
  next
    case False
    then show ?thesis using old [of x] x(1) dev_imageD(1) [OF di] z by (auto simp: in_page_def)
  qed
next
  fix a r assume r: "S a = Some r"
  have e: "length (encode (unsealed r)) = length (encode r)" "length (encode r) \<le> rec_size r"
    using rec_size_ge(2) [of r] by (simp_all add: length_encode)
  have d: "a div ps * ps = P \<longleftrightarrow> in_page P ps a" using in_page_div [OF P(3), of p a] P(1,3) by auto
  note h = heap_layoutD(1,2) [OF hl r]
  show "rec_at dev' a (if a \<in> {a \<in> dom S. a < P + ps} then unsealed r else r)"
  proof (cases "in_page P ps a")
    case True
    note h' = h [unfolded True [folded d]]
    have "rec_at dev' a (unsealed r)"
    proof (rule rec_at_bytes [OF recs [OF r True]])
      show "a + length (encode (unsealed r)) \<le> length dev'" using h'(2) e dev_imageD(1) [OF di] len(1) by simp
      fix i assume i: "i < length (encode (unsealed r))"
      have "a - P + i < min fin (P + ps) - P" "P + (a - P + i) = a + i" using h' e i by linarith+
      then show "dev' ! (a + i) = buf ! (a - P + i)" using new by metis
    qed
    then show ?thesis using True r by (auto simp: in_page_def)
  next
    case False
    have c: "(a \<in> {a \<in> dom S. a < P + ps}) = (a \<in> {a \<in> dom S. a < P})" using False by (auto simp: in_page_def)
    have out: "a + rec_size r \<le> P \<or> P + ps \<le> a"
    proof (cases "a < P")
      case True
      then have "a div ps < p" using P(1,3) by (simp add: div_less_iff_less_mult)
      then have "Suc (a div ps) * ps \<le> p * ps" by (intro mult_right_mono) simp_all
      then show ?thesis using h(2) by (simp add: P(1))
    qed (use False in \<open>auto simp: in_page_def\<close>)
    note at = dev_imageD(2) [OF di r]
    let ?r = "if a \<in> {a \<in> dom S. a < P} then unsealed r else r"
    have "rec_at dev' a ?r"
    proof (rule rec_at_bytes [OF at])
      show "a + length (encode ?r) \<le> length dev'" using h(2) e dev_imageD(1) [OF di] len(1) by simp
      fix i assume "i < length (encode ?r)"
      then have "i < rec_size r" using e by (auto split: if_splits)
      then show "dev' ! (a + i) = dev ! (a + i)" using out h(2) dev_imageD(1) [OF di] by (intro old) auto
    qed
    then show ?thesis unfolding c .
  qed
qed

definition with_data :: "store \<Rightarrow> hash_index \<Rightarrow> bytes \<Rightarrow> store" where
  "with_data st ix dev = st\<lparr>st_index := ix, st_log := (st_log st)\<lparr>device := dev\<rparr>\<rparr>"

lemma with_data_simps [simp]:
  "st_index (with_data st ix dev) = ix" "device (st_log (with_data st ix dev)) = dev"
  "page_size (st_log (with_data st ix dev)) = page_size (st_log st)" "with_data (with_data st ix' dev') ix dev = with_data st ix dev"
  by (simp_all add: with_data_def page_size_def)

lemma read_prefix_eq:
  assumes "P = p * page_size l" and "P + lim \<le> length (device l)" and "0 < lim"
  shows "read_page_prefix_from_disk l (P div page_size l) lim = Some (page_buf (device l) (page_size l) P lim)"
proof -
  have "0 < page_size l" by (simp add: page_size_def)
  then have "push_bit (page_bits l) (P div page_size l) = P" using assms(1) by (simp add: push_bit_eq_mult page_size_def)
  then show ?thesis using assms by (simp add: read_page_prefix_from_disk_def read_at_def page_buf_def)
qed

lemma recover_page_ok:
  assumes cb: "can_build info ix0 S" and hl: "heap_layout ps (ci_final_address info) S" and ps: "ps = page_size (st_log st)"
    and P: "P = p * ps" "P < ci_final_address info" and bg: "ci_begin_address info = FIRST_VALID_ADDRESS"
    and ib: "index_built ix0 S {a \<in> dom S. a < P} (st_index st)" and di: "dev_image (device (st_log st)) ps (ci_final_address info) S {a \<in> dom S. a < P}"
  shows "\<exists>ix dev. recover_page info P st = Some (Inr (), with_data st ix dev)
    \<and> index_built ix0 S {a \<in> dom S. a < P + ps} ix \<and> dev_image dev ps (ci_final_address info) S {a \<in> dom S. a < P + ps}"
proof -
  let ?fin = "ci_final_address info" and ?D = "{a \<in> dom S. a < P}" and ?l = "st_log st"
  let ?lim = "min ?fin (P + ps) - P" and ?dev = "device ?l"
  let ?b = "page_buf ?dev ps P ?lim"
  have ps0: "0 < ps" by (simp add: ps page_size_def)
  have lim: "0 < ?lim" "P + ?lim \<le> length ?dev" "?lim \<le> ps" using P(2) dev_imageD(1) [OF di] ps0 by auto
  have rd: "read_page_prefix_from_disk ?l (P div ps) ?lim = Some ?b"
    using read_prefix_eq [of P p ?l ?lim] P(1) lim(1,2) by (simp add: ps)
  let ?offs = "for_each_record_in_buf ?b (ci_begin_address info - P) ?lim"
  have frm: "ci_begin_address info - P \<le> PAGE_HEADER_SIZE" by (simp add: bg FIRST_VALID_ADDRESS_def)
  have Dlt: "a < P" if "a \<in> ?D" for a using that by simp
  have so: "sorted_wrt (<) ?offs" by (rule page_walk(1) [OF hl di P ps0 Dlt frm])
  have im_offs: "(\<lambda>j. P + j) ` set ?offs = {a \<in> dom S. in_page P ps a}" by (rule page_walk(2) [OF hl di P ps0 Dlt frm])
  have im: "page_image P ps ?fin S ?b" by (rule page_read_image [OF hl di P ps0]) simp
  have inp: "P + j \<in> dom S" "in_page P ps (P + j)" if "j \<in> set ?offs" for j
    using im_offs that by blast+
  have at: "\<forall>j \<in> set ?offs. rec_at ?b j (the (S (P + j)))"
  proof
    fix j assume j: "j \<in> set ?offs"
    then obtain r where "S (P + j) = Some r" using inp(1) by auto
    then show "rec_at ?b j (the (S (P + j)))" using page_imageD(4) [OF im _ inp(2) [OF j]] by simp
  qed
  have od: "\<forall>j \<in> set ?offs. P + j \<in> dom S \<and> (\<forall>x \<in> ?D. x < P + j)" using inp by auto
  have sub: "?D \<subseteq> dom S" by auto
  from recover_records_ok [OF cb heap_layoutD(4) [OF hl] so ib sub od at, of False] obtain buf d ix where
    rr: "recover_records info P ?offs (?b, False, st_index st) = Some (buf, d, ix)"
    "index_built ix0 S (?D \<union> (\<lambda>j. P + j) ` set ?offs) ix" "length buf = length ?b"
    "\<forall>j \<in> set ?offs. rec_at buf j (unsealed (the (S (P + j))))"
    "\<forall>i < length ?b. (\<forall>j \<in> set ?offs. i < j \<or> j + 8 \<le> i) \<longrightarrow> buf ! i = ?b ! i" "\<not> d \<longrightarrow> buf = ?b" by auto
  let ?dev' = "if d then write_at ?dev P (take ?lim buf) else ?dev"
  note bb = page_buf_bytes [OF lim(2,3)]
  have cl: "\<forall>j < ?lim. buf ! j = ?dev ! (P + j)" if "\<not> d" using rr(6) that bb(2) by simp
  have lb: "?lim \<le> length buf" using rr(3) bb(1) lim(3) by simp
  note wb = write_back [where dirty = d, OF lim(2) lb cl]
  have "dev_image ?dev' ps ?fin S {a \<in> dom S. a < P + ps}"
  proof (rule page_device [OF hl di P ps0 wb(1), where buf = buf])
    show "length buf = ps" using rr(3) bb(1) by simp
    show "j < ?lim \<Longrightarrow> ?dev' ! (P + j) = buf ! j" for j by (rule wb(2))
    show "?dev' ! x = ?dev ! x" if "x < length ?dev" "x < P \<or> min ?fin (P + ps) \<le> x" for x
      using that P(2) by (intro wb(3)) auto
    show "rec_at buf (a - P) (unsealed r)" if r: "S a = Some r" "in_page P ps a" for a r
    proof -
      have "a \<in> (\<lambda>j. P + j) ` set ?offs" using im_offs r by auto
      then obtain j where "j \<in> set ?offs" "a = P + j" by blast
      then show ?thesis using rr(4) r(1) by fastforce
    qed
    show "buf ! (x - P) = ?dev ! x" if x: "P \<le> x" "x < min ?fin (P + ps)" "uncovered S x" for x
    proof -
      have "x - P < j \<or> j + 8 \<le> x - P" if j: "j \<in> set ?offs" for j
      proof -
        obtain r where r: "S (P + j) = Some r" using inp(1) [OF j] by auto
        have "x < P + j \<or> P + j + rec_size r \<le> x" using x(3) r by (auto simp: uncovered_def)
        then show ?thesis using rec_size_ge(1) [of r] x(1) by linarith
      qed
      moreover have "x - P < ?lim" "P + (x - P) = x" using x by linarith+
      moreover have "x - P < length ?b" using bb(1) lim(3) \<open>x - P < ?lim\<close> by simp
      ultimately show ?thesis using rr(5) bb(2) [of "x - P"] by simp
    qed
  qed
  moreover have "index_built ix0 S {a \<in> dom S. a < P + ps} ix"
  proof -
    have "?D \<union> (\<lambda>j. P + j) ` set ?offs = {a \<in> dom S. a < P + ps}" using im_offs by (auto simp: in_page_def)
    with rr(2) show ?thesis by simp
  qed
  moreover have "recover_page info P st = Some (Inr (), with_data st ix ?dev')"
    using rd rr(1) by (simp add: recover_page_def Let_def with_data_def ps [symmetric])
  ultimately show ?thesis by blast
qed

lemma recover_loop_ok:
  assumes cb: "can_build info ix0 S" and hl: "heap_layout ps (ci_final_address info) S" and bg: "ci_begin_address info = FIRST_VALID_ADDRESS"
  shows "ps = page_size (st_log st) \<Longrightarrow> P = p * ps \<Longrightarrow> index_built ix0 S {a \<in> dom S. a < P} (st_index st) \<Longrightarrow>
      dev_image (device (st_log st)) ps (ci_final_address info) S {a \<in> dom S. a < P} \<Longrightarrow>
    \<exists>ix dev. recover_loop info P st = Some (Inr (), with_data st ix dev) \<and> index_built ix0 S (dom S) ix
      \<and> dev_image dev ps (ci_final_address info) S (dom S)"
proof (induction "ci_final_address info - P" arbitrary: P p st rule: less_induct)
  case less
  note pr = less.prems
  have ps0: "0 < ps" by (simp add: pr(1) page_size_def)
  show ?case
  proof (cases "P < ci_final_address info")
    case True
    from recover_page_ok [OF cb hl pr(1,2) True bg pr(3,4)] obtain ix dev where
      g: "recover_page info P st = Some (Inr (), with_data st ix dev)" "index_built ix0 S {a \<in> dom S. a < P + ps} ix"
      "dev_image dev ps (ci_final_address info) S {a \<in> dom S. a < P + ps}" by blast
    have "ci_final_address info - (P + ps) < ci_final_address info - P" using True ps0 by simp
    from less.hyps [OF this, of "with_data st ix dev" "Suc p"] g(2,3) pr(1,2)
    obtain ix' dev' where "recover_loop info (P + ps) (with_data st ix dev) = Some (Inr (), with_data st ix' dev')"
      "index_built ix0 S (dom S) ix'" "dev_image dev' ps (ci_final_address info) S (dom S)" by (auto simp: add.commute)
    moreover from this(1) have "recover_loop info P st = Some (Inr (), with_data st ix' dev')"
      using True g(1) pr(1) by (subst recover_loop.simps) simp
    ultimately show ?thesis by blast
  next
    case False
    have "a < P" if a: "a \<in> dom S" for a
    proof -
      obtain r where "S a = Some r" using a by auto
      from heap_layoutD(2) [OF hl this] rec_size_ge(1) [of r] False show ?thesis by linarith
    qed
    then have e: "{a \<in> dom S. a < P} = dom S" by auto
    have "with_data st (st_index st) (device (st_log st)) = st" by (simp add: with_data_def)
    then have "recover_loop info P st = Some (Inr (), with_data st (st_index st) (device (st_log st)))"
      using False by (subst recover_loop.simps) simp
    with pr(3,4) e show ?thesis by auto
  qed
qed

end
