(* ===== verification/RecoverLaws.thy ===== *)
theory RecoverLaws
  imports RecoverLoop
begin

text \<open>
  What a store holds after recovery. The device of a checkpointed store is the input of the loops of \<open>RecoverLoop\<close>; their output,
  the log with every address at the end of the saved part and the rebuilt index, satisfies the store invariant again and gives
  every key the value it had. The last part is on the checkpoints that cannot be recovered.
\<close>

subsection \<open>The saved log\<close>

definition saved :: "hlog \<Rightarrow> reclog \<Rightarrow> bool" where
  \<comment> \<open>a log whose records are all on the device, and whose last page has room\<close>
  "saved l R \<longleftrightarrow> log_inv l R \<and> tiled l R \<and> (\<forall>a r. R a = Some r \<longrightarrow> is_valid (r_info r)) \<and> flushed_until_address l = true_tail l
     \<and> true_tail l \<noteq> FIRST_VALID_ADDRESS \<and> snd (unpack (tail l)) < page_size l"

definition disk_recs :: "bytes \<Rightarrow> reclog \<Rightarrow> reclog" where
  \<comment> \<open>the records as the device has them: a seal may be newer than the flush\<close>
  "disk_recs dev R = (\<lambda>a. map_option (\<lambda>_. decode dev a) (R a))"

definition reopened :: "reclog \<Rightarrow> reclog" where
  "reopened R = (\<lambda>a. map_option unsealed (R a))"

lemma dom_views [simp]: "dom (disk_recs dev R) = dom R" "dom (reopened R) = dom R"
  by (auto simp: disk_recs_def reopened_def)

lemma page_of_div: "page_of l a = a div page_size l"
  by (simp add: page_of_def page_size_def drop_bit_eq_div)

lemma page_offset_mod: "page_offset l a = a mod page_size l"
  unfolding page_offset_def page_size_def by (rule nat_and_mask)

lemma savedD:
  assumes "saved l R"
  shows "log_inv l R" and "tiled l R" and "R a = Some r \<Longrightarrow> is_valid (r_info r)" and "flushed_until_address l = true_tail l"
    and "true_tail l \<noteq> FIRST_VALID_ADDRESS" and "snd (unpack (tail l)) < page_size l"
  using assms by (auto simp: saved_def)

lemma saved_below: "saved l R \<Longrightarrow> R a = Some r \<Longrightarrow> a + rec_size r \<le> true_tail l \<and> a < true_tail l"
  using log_invD(3) [OF savedD(1), of l R a r] rec_size_ge(1) [of r] by (auto simp: rec_placed_def)

lemma unsealed_links: "same_links r (unsealed r)" "rec_size (unsealed r) = rec_size r" "rec_wf (unsealed r) = rec_wf r"
proof -
  have "previous_address (r_info (unsealed r)) = previous_address (r_info r)"
    by (rule previous_address_eqI) (simp add: info_bit_simps)
  then show "same_links r (unsealed r)" by (simp add: same_links_def)
qed (simp_all add: unsealed_def set_info_layout)

lemma unsealed_valid: "is_valid (r_info (unsealed r)) = is_valid (r_info r)"
  by (simp add: info_bit_simps)

lemma saved_rec:
  assumes s: "saved l R" and r: "R a = Some r"
  obtains r' where "disk_recs (device l) R a = Some r'" "rec_at (device l) a r'" "unsealed r' = unsealed r"
    "rec_size r' = rec_size r" "r_key r' = r_key r" "is_valid (r_info r')" "a + rec_size r \<le> length (device l)"
proof -
  have "a < flushed_until_address l" using saved_below [OF s r] savedD(4) [OF s] by simp
  from log_invD(6) [OF savedD(1) [OF s] r this] obtain r' where r': "rec_at (device l) a r'" "unsealed r' = unsealed r"
    and len: "a + rec_size r \<le> length (device l)" by (auto simp: on_device_def)
  have "disk_recs (device l) R a = Some r'" using rec_at_decode [OF r'(1)] r by (simp add: disk_recs_def)
  moreover have "is_valid (r_info r')" using savedD(3) [OF s r] unsealed_valid [of r] unsealed_valid [of r'] r'(2) by metis
  ultimately show ?thesis using that r' unsealed_eqD [OF r'(2)] len by blast
qed

lemma uncovered_views:
  assumes s: "saved l R"
  shows "uncovered (disk_recs (device l) R) x = uncovered R x" and "uncovered (reopened R) x = uncovered R x"
proof -
  have "(\<exists>r'. disk_recs (device l) R a = Some r' \<and> \<not> (x < a \<or> a + rec_size r' \<le> x)) \<longleftrightarrow> (\<exists>r. R a = Some r \<and> \<not> (x < a \<or> a + rec_size r \<le> x))"
    for a
  proof (cases "R a")
    case (Some r)
    from saved_rec [OF s this] obtain r' where "disk_recs (device l) R a = Some r'" "rec_size r' = rec_size r" by blast
    with Some show ?thesis by simp
  qed (simp add: disk_recs_def)
  then show "uncovered (disk_recs (device l) R) x = uncovered R x" unfolding uncovered_def by blast
  have "uncovered (reopened R) x \<longleftrightarrow> (\<forall>a r. R a = Some r \<longrightarrow> x < a \<or> a + rec_size (unsealed r) \<le> x)"
    by (auto simp: uncovered_def reopened_def)
  then show "uncovered (reopened R) x = uncovered R x" by (simp add: uncovered_def unsealed_links(2))
qed

lemma saved_heap:
  assumes s: "saved l R"
  shows "heap_layout (page_size l) (true_tail l) (disk_recs (device l) R)"
  unfolding heap_layout_def
proof (intro conjI allI impI ballI)
  let ?S = "disk_recs (device l) R" and ?ps = "page_size l"
  have inv: "log_inv l R" by (rule savedD(1) [OF s])
  have orig: "\<exists>r. R a = Some r \<and> rec_size r = rec_size r' \<and> is_valid (r_info r')" if "?S a = Some r'" for a r'
  proof -
    from that obtain r where r: "R a = Some r" by (auto simp: disk_recs_def)
    with saved_rec [OF s r] that show ?thesis by (metis option.inject)
  qed
  fix a r' assume S: "?S a = Some r'"
  from orig [OF S] obtain r where r: "R a = Some r" "rec_size r = rec_size r'" "is_valid (r_info r')" by blast
  note pl = log_invD(3) [OF inv r(1), unfolded rec_placed_def page_offset_mod]
  have e: "a div ?ps * ?ps + a mod ?ps = a" by simp
  show "a div ?ps * ?ps + PAGE_HEADER_SIZE \<le> a" using pl e by linarith
  show "is_valid (r_info r')" by (rule r(3))
  have "a + rec_size r' \<le> a div ?ps * ?ps + ?ps" "a + rec_size r' \<le> true_tail l" using pl e r(2) by linarith+
  then show "a + rec_size r' \<le> min (true_tail l) (a div ?ps * ?ps + ?ps)" by simp
  show "a + rec_size r' \<le> b" if "b \<in> dom ?S" "a < b" for b
    using log_invD(4) [OF inv r(1)] that r(2) by simp
next
  let ?S = "disk_recs (device l) R" and ?ps = "page_size l"
  fix a assume "a \<in> dom ?S"
  then have "page_offset l a = PAGE_HEADER_SIZE \<or> (\<exists>b r. R b = Some r \<and> b + rec_size r = a \<and> page_of l b = page_of l a)"
    using savedD(2) [OF s] by (simp add: tiled_def)
  then show "a = a div ?ps * ?ps + PAGE_HEADER_SIZE \<or> (\<exists>b r. ?S b = Some r \<and> b div ?ps = a div ?ps \<and> b + rec_size r = a)"
  proof
    assume "page_offset l a = PAGE_HEADER_SIZE"
    then show ?thesis using page_of_bounds(5) [of l a] by (simp add: page_of_div)
  next
    assume "\<exists>b r. R b = Some r \<and> b + rec_size r = a \<and> page_of l b = page_of l a"
    then obtain b r where b: "R b = Some r" "b + rec_size r = a" "page_of l b = page_of l a" by blast
    from saved_rec [OF s b(1)] obtain r' where "?S b = Some r'" "rec_size r' = rec_size r" by blast
    then have "?S b = Some r' \<and> b div ?ps = a div ?ps \<and> b + rec_size r' = a" using b by (simp add: page_of_div)
    then show ?thesis by blast
  qed
qed

lemma saved_image:
  assumes s: "saved l R"
  shows "dev_image (device l) (page_size l) (true_tail l) (disk_recs (device l) R) {}"
  unfolding dev_image_def
proof (intro conjI allI impI)
  note inv = savedD(1) [OF s] and bl = log_invD(11) [OF savedD(1) [OF s], unfolded blank_def savedD(4) [OF s]]
  obtain b r where b: "R b = Some r" "b + rec_size r = true_tail l"
    using savedD(2,5,6) [OF s] by (auto simp: tiled_def)
  from saved_rec [OF s b(1)] show "true_tail l \<le> length (device l)" using b(2) by metis
  show "rec_at (device l) a (if a \<in> {} then unsealed r' else r')" if r': "disk_recs (device l) R a = Some r'" for a r'
  proof -
    from r' obtain r where r: "R a = Some r" by (auto simp: disk_recs_def)
    with saved_rec [OF s r] r' show ?thesis by (metis empty_iff option.inject)
  qed
  show "device l ! x = 0" if "x < true_tail l" "PAGE_HEADER_SIZE \<le> x mod page_size l" "uncovered (disk_recs (device l) R) x" for x
    using bl that by (simp add: uncovered_views(1) [OF s] page_offset_mod)
qed

subsection \<open>The recovered log\<close>

definition recovered_log :: "hlog \<Rightarrow> nat \<Rightarrow> bytes \<Rightarrow> hlog" where
  "recovered_log l0 fin dev = (recover_addresses l0 FIRST_VALID_ADDRESS fin)\<lparr>device := dev\<rparr>"

lemma recovered_log_fields:
  assumes sh: "shape_ok l0"
  shows "page_bits (recovered_log l0 fin dev) = page_bits l0" and "device (recovered_log l0 fin dev) = dev"
    and "begin_address (recovered_log l0 fin dev) = FIRST_VALID_ADDRESS"
    and "closed_until_address (recovered_log l0 fin dev) = page_of l0 fin * page_size l0"
    and "head_address (recovered_log l0 fin dev) = fin" and "safe_head_address (recovered_log l0 fin dev) = fin"
    and "flushed_until_address (recovered_log l0 fin dev) = fin" and "safe_read_only_address (recovered_log l0 fin dev) = fin"
    and "read_only_address (recovered_log l0 fin dev) = fin" and "log_epoch (recovered_log l0 fin dev) = log_epoch l0"
    and "unpack (tail (recovered_log l0 fin dev)) = (page_of l0 fin, page_offset l0 fin)" and "true_tail (recovered_log l0 fin dev) = fin"
    and "tail (recovered_log l0 fin dev) = pack (page_of l0 fin) (page_offset l0 fin)"
    and "page_data (recovered_log l0 fin dev) (page_of l0 fin) = replicate (page_size l0) 0" and "shape_ok (recovered_log l0 fin dev)"
    and "buffer_size (recovered_log l0 fin dev) = buffer_size l0"
proof -
  let ?l = "recovered_log l0 fin dev"
  show "page_bits ?l = page_bits l0" "device ?l = dev" "begin_address ?l = FIRST_VALID_ADDRESS" "head_address ?l = fin"
    "safe_head_address ?l = fin" "flushed_until_address ?l = fin" "safe_read_only_address ?l = fin" "read_only_address ?l = fin"
    "log_epoch ?l = log_epoch l0" "buffer_size ?l = buffer_size l0"
    and t: "tail ?l = pack (page_of l0 fin) (page_offset l0 fin)"
    by (simp_all add: recovered_log_def recover_addresses_def Let_def)
  show "closed_until_address ?l = page_of l0 fin * page_size l0"
    by (simp add: recovered_log_def recover_addresses_def Let_def push_bit_eq_mult page_size_def)
  have "page_size l0 < 2 ^ 32" using page_size_range [OF sh] by simp
  then have "page_offset l0 fin < 2 ^ 32" using page_of_bounds(4) [of l0 fin] by simp
  then show u: "unpack (tail ?l) = (page_of l0 fin, page_offset l0 fin)" unfolding t by (rule unpack_pack)
  have ps: "page_size ?l = page_size l0" by (simp add: recovered_log_def recover_addresses_def Let_def page_size_def)
  show "true_tail ?l = fin" using page_of_bounds(5) [of l0 fin] by (simp add: true_tail_def u ps)
  have pg: "pages ?l = (pages l0)[page_slot l0 (page_of l0 fin) := replicate (page_size l0) 0]"
    by (simp add: recovered_log_def recover_addresses_def Let_def set_page_data_def)
  have sl: "page_slot ?l p = page_slot l0 p" for p
    by (simp add: recovered_log_def recover_addresses_def Let_def page_slot_def set_page_data_def)
  show "page_data ?l (page_of l0 fin) = replicate (page_size l0) 0"
    using page_slot_lt [OF sh] by (simp add: page_data_def pg sl)
  have "mutable_pages ?l = mutable_pages l0" "page_bits ?l = page_bits l0" "buffer_size ?l = buffer_size l0"
    by (simp_all add: recovered_log_def recover_addresses_def Let_def)
  moreover have "\<forall>b \<in> set (pages ?l). length b = page_size l0"
    using sh set_update_subset_insert [of "pages l0" "page_slot l0 (page_of l0 fin)" "replicate (page_size l0) 0"]
    by (auto simp: pg shape_ok_def)
  ultimately show "shape_ok ?l" using sh by (simp add: shape_ok_def ps pg)
qed

lemma recovered_log_inv:
  assumes s: "saved l R" and sh: "shape_ok l0" and pb: "page_bits l0 = page_bits l" and ep: "epoch_wf (log_epoch l0)" "ep_drain (log_epoch l0) = []"
    and im: "dev_image dev (page_size l) (true_tail l) (disk_recs (device l) R) (dom R)"
  shows "log_inv (recovered_log l0 (true_tail l) dev) (reopened R)" and "tiled (recovered_log l0 (true_tail l) dev) (reopened R)"
proof -
  let ?fin = "true_tail l" and ?R = "reopened R"
  let ?l = "recovered_log l0 ?fin dev"
  note f = recovered_log_fields [OF sh, of ?fin dev] and inv = savedD(1) [OF s]
  have g: "page_of ?l = page_of l" "page_offset ?l = page_offset l" "page_size ?l = page_size l" "page_of l0 = page_of l"
      "page_offset l0 = page_offset l" "page_size l0 = page_size l"
    using f(1) pb by (auto simp: fun_eq_iff page_of_def page_offset_def page_size_def)
  obtain p off where u: "unpack (tail l) = (p, off)" by (cases "unpack (tail l)")
  have tl: "?fin = p * page_size l + off" "off < page_size l" "PAGE_HEADER_SIZE \<le> off"
    using u savedD(6) [OF s] log_invD(1) [OF inv] by (simp_all add: true_tail_def hlog_wf_def tail_ok_def)
  have pof: "page_of l ?fin = p" "page_offset l ?fin = off"
    using tl page_ofI [of p l ?fin] page_of_bounds(3) [of l ?fin] by simp_all
  have R1: "\<exists>r0. R a = Some r0 \<and> r = unsealed r0 \<and> rec_size r = rec_size r0 \<and> rec_wf r = rec_wf r0 \<and> a + rec_size r \<le> ?fin" if "?R a = Some r" for a r
    using that saved_below [OF s] unsealed_links(2,3) by (auto simp: reopened_def)
  have wf: "hlog_wf ?l"
  proof -
    have "tail_ok ?l" using f(11,13) tl(2,3) pof g by (simp add: tail_ok_def)
    moreover have "watermarks_ok ?l" using f(4-9,12) page_of_bounds(1) [of l0 ?fin] by (simp add: watermarks_ok_def)
    ultimately show ?thesis using f(10,15) ep by (simp add: hlog_wf_def)
  qed
  have tp: "tail_page ?l = p" using f(11) pof g by (simp add: tail_page_def)
  have "page_is_free ?l p"
  proof -
    have "(p - buffer_size l0 + 1) * page_size l \<le> p * page_size l" if "buffer_size l0 \<le> p"
      using that sh by (intro mult_right_mono) (auto simp: shape_ok_def)
    moreover have "closed_until_address ?l = p * page_size l" using f(4) pof(1) g(4,6) by simp
    ultimately show ?thesis using f(1,16) pb
      by (cases "p < buffer_size l0") (simp_all add: page_is_free_def push_bit_eq_mult page_size_def)
  qed
  moreover have "rec_placed ?l a r" if "?R a = Some r" for a r
    using R1 [OF that] log_invD(3) [OF inv] f(12) by (auto simp: rec_placed_def g)
  moreover have "a + rec_size r \<le> b" if "?R a = Some r" "b \<in> dom ?R" "a < b" for a b r
    using R1 [OF that(1)] log_invD(4) [OF inv, of a _ b] that(2,3) by auto
  moreover have "a < ?fin" if "?R a = Some r" for a r using R1 [OF that] saved_below [OF s] by blast
  moreover have "on_device ?l a r" if r: "?R a = Some r" for a r
  proof -
    from R1 [OF r] obtain r0 where r0: "R a = Some r0" "r = unsealed r0" "a + rec_size r \<le> ?fin" by blast
    from saved_rec [OF s r0(1)] obtain r' where r': "disk_recs (device l) R a = Some r'" "unsealed r' = unsealed r0" by metis
    have "rec_at dev a (unsealed r')" using dev_imageD(2) [OF im r'(1)] r0(1) by (simp add: domI)
    then show ?thesis using r0(2,3) r'(2) dev_imageD(1) [OF im] f(2) by (auto simp: on_device_def)
  qed
  moreover have "no_straddle ?R ?fin" using R1 by (fastforce simp: no_straddle_def)
  moreover have "blank ?l ?R"
    unfolding blank_def f(2,7) g tp
  proof (intro conjI allI impI)
    fix x assume x: "?fin \<le> x" "page_of l x \<le> p"
    have "p * page_size l < Suc (page_of l x) * page_size l" using x(1) tl(1) page_of_bounds(2) [of x l] by simp
    then have "p \<le> page_of l x" by (simp only: mult_less_cancel2) simp
    then have "page_of l x = p" using x(2) by simp
    then show "log_byte ?l x = 0" using f(14) page_of_bounds(4) [of l x] by (simp add: log_byte_def g pof)
  next
    fix x assume "x < ?fin" "PAGE_HEADER_SIZE \<le> page_offset l x" "uncovered ?R x"
    then show "x < length dev" "dev ! x = 0"
      using dev_imageD(1) [OF im] dev_imageD(3) [OF im, of x] by (simp_all add: uncovered_views [OF s] page_offset_mod)
  qed
  ultimately show "log_inv ?l ?R" using wf tp f(5,7,9,10) ep(2) by (fastforce simp: log_inv_def)
  have ex: "(\<exists>b r. ?R b = Some r \<and> b + rec_size r = x \<and> page_of l b = q) \<longleftrightarrow> (\<exists>b r. R b = Some r \<and> b + rec_size r = x \<and> page_of l b = q)" for x q
  proof -
    have "(\<exists>b r. ?R b = Some r \<and> b + rec_size r = x \<and> page_of l b = q) \<longleftrightarrow> (\<exists>b r. R b = Some r \<and> b + rec_size (unsealed r) = x \<and> page_of l b = q)"
      by (auto simp: reopened_def)
    then show ?thesis by (simp add: unsealed_links(2))
  qed
  have "\<exists>b r. R b = Some r \<and> b + rec_size r = ?fin \<and> page_of l b = p"
    using savedD(2,5,6) [OF s] u by (auto simp: tiled_def tail_page_def)
  then show "tiled ?l ?R" using savedD(2) [OF s] f(3,12) tp by (simp add: tiled_def g ex)
qed

subsection \<open>The recovered index\<close>

lemma same_buckets:
  assumes "index_wf ix" and "index_wf ix'" and "length (buckets ix') = length (buckets ix)"
  shows "bucket_index ix' h = bucket_index ix h"
  using assms by (auto simp: index_wf_def bucket_index_def)

lemma same_entry_lookup:
  assumes wf: "index_wf ix" and "same_entry ix h h'"
  shows "index_lookup ix h = index_lookup ix h'"
proof -
  have "find_tag ix h = find_tag ix h'" using assms(2) by (simp add: find_tag_eq [OF wf] same_entry_def)
  then show ?thesis by (simp add: index_lookup_def)
qed

text \<open>The head of an entry is the highest address of its chain: an index with a published log is determined by the log.\<close>

lemma published_head:
  assumes hd: "heads_ok ix R" and p: "published ix R" and fin: "finite (dom R)"
  shows "chain_set ix R (dom R) h = {} \<Longrightarrow> index_lookup ix h = None \<or> (\<exists>a. index_lookup ix h = Some a \<and> unat a < FIRST_VALID_ADDRESS)"
    and "chain_set ix R (dom R) h \<noteq> {} \<Longrightarrow> \<exists>a. index_lookup ix h = Some a \<and> unat a = Max (chain_set ix R (dom R) h)"
proof -
  let ?C = "chain_set ix R (dom R) h"
  have wf: "index_wf ix" and st: "\<And>h a. index_lookup ix h = Some a \<Longrightarrow> chain_start R (unat a)" and ch: "chain_ok R"
    using hd by (auto simp: heads_ok_def)
  have own: "unat a \<in> ?C" if "index_lookup ix h = Some a" "unat a \<in> dom R" for a
    using that p by (fastforce simp: published_def chain_set_def)
  have up: "\<exists>a. index_lookup ix h = Some a \<and> x \<le> unat a" if "x \<in> ?C" for x
    using that p same_entry_lookup [OF wf, of h] by (fastforce simp: published_def chain_set_def)
  show "index_lookup ix h = None \<or> (\<exists>a. index_lookup ix h = Some a \<and> unat a < FIRST_VALID_ADDRESS)" if "?C = {}"
  proof (cases "index_lookup ix h")
    case (Some a)
    then show ?thesis using st [OF Some] own [OF Some] that by (simp add: chain_start_def) blast
  qed simp
  assume ne: "?C \<noteq> {}"
  have fC: "finite ?C" using fin by (simp add: chain_set_def)
  obtain x where x: "x \<in> ?C" using ne by blast
  from up [OF x] obtain a where a: "index_lookup ix h = Some a" "x \<le> unat a" by blast
  have "FIRST_VALID_ADDRESS \<le> x" using x chain_okD [OF ch] by (auto simp: chain_set_def)
  then have "unat a \<in> ?C" using own [OF a(1)] st [OF a(1)] a(2) by (auto simp: chain_start_def)
  moreover have "y \<le> unat a" if "y \<in> ?C" for y using up [OF that] a(1) by auto
  ultimately have "Max ?C = unat a" using fC by (intro Max_eqI) auto
  with a(1) show "\<exists>a. index_lookup ix h = Some a \<and> unat a = Max ?C" by auto
qed

lemma reopened_newest: "newest (reopened R) a key = newest R a key"
  by (rule newest_cong) (auto simp: reopened_def unsealed_links(1) option.rel_map option.rel_refl intro!: rel_option_reflI)

lemma chain_ok_reopened: "chain_ok R \<Longrightarrow> chain_ok (reopened R)"
proof -
  have "prev_addr (unsealed r) = prev_addr r" for r using unsealed_links(1) [of r] by (simp add: prev_addr_def same_links_def)
  then have l: "\<exists>r0. R a = Some r0 \<and> prev_addr r = prev_addr r0" if "reopened R a = Some r" for a r using that by (auto simp: reopened_def)
  assume "chain_ok R"
  then show "chain_ok (reopened R)" using l unfolding chain_ok_def dom_views by metis
qed

lemma recovered_index:
  assumes hd: "heads_ok ix R" and p: "published ix R" and fin: "finite (dom R)" and lo: "\<And>a. a \<in> dom R \<Longrightarrow> a < 2 ^ 48"
    and ib: "index_built ix0 S (dom R) ix'" and S: "dom S = dom R" "\<And>a. a \<in> dom R \<Longrightarrow> r_key (the (S a)) = r_key (the (R a))"
    and b: "\<And>h. bucket_index ix0 h = bucket_index ix h"
  shows "cur ix' (reopened R) key = cur ix R key" and "heads_ok ix' (reopened R)" and "published ix' (reopened R)"
proof -
  let ?C = "chain_set ix R (dom R)" and ?R = "reopened R"
  have se: "same_entry ix0 = same_entry ix" "same_entry ix' = same_entry ix" using b index_builtD(7) [OF ib] by (simp_all add: same_entry_def fun_eq_iff)
  have cs: "chain_set ix0 S (dom R) h = ?C h" for h using S by (auto simp: chain_set_def se domIff) (metis option.sel domIff option.exhaust)+
  have lk: "index_lookup ix' h = head_of (?C h)" for h using index_builtD(6) [OF ib] by (simp add: cs)
  have fC: "finite (?C h)" for h using fin by (simp add: chain_set_def)
  have mx: "Max (?C h) \<in> dom R" "unat (of_nat (Max (?C h)) :: u64) = Max (?C h)" if "?C h \<noteq> {}" for h
  proof -
    show m: "Max (?C h) \<in> dom R" using Max_in [OF fC that] by (auto simp: chain_set_def)
    have "Max (?C h) < 2 ^ 64" using lo [OF m] by simp
    then show "unat (of_nat (Max (?C h)) :: u64) = Max (?C h)" by (simp add: unat_of_nat_u64)
  qed
  have ch: "chain_ok R" using hd by (simp add: heads_ok_def)
  have nw: "(case index_lookup ix' h of None \<Rightarrow> None | Some a \<Rightarrow> newest ?R (unat a) key) =
      (case index_lookup ix h of None \<Rightarrow> None | Some a \<Rightarrow> newest R (unat a) key)" for h key
  proof (cases "?C h = {}")
    case True
    then show ?thesis using published_head(1) [OF hd p fin True] newest_low [OF ch] by (auto simp: lk head_of_def)
  next
    case False
    then show ?thesis using published_head(2) [OF hd p fin False] mx(2) [OF False] by (auto simp: lk head_of_def reopened_newest)
  qed
  have ca: "cur_addr ix' ?R key = cur_addr ix R key" for key
    using nw [where h = "hash64 key" and key = key] by (cases "index_lookup ix' (hash64 key)"; cases "index_lookup ix (hash64 key)") (simp_all add: cur_addr_def)
  show cu: "cur ix' ?R key = cur ix R key" for key
  proof (cases "cur_addr ix R key")
    case (Some a)
    from cur_addrD [OF this] obtain r where r: "R a = Some r" "cur ix R key = Some r" by blast
    then have "unsealed r = r" using hd unsealed_open by (auto simp: heads_ok_def)
    then show ?thesis using Some r ca [of key] by (simp add: cur_addr_cur reopened_def)
  qed (simp add: cur_addr_cur ca)
  have "chain_start ?R (unat a)" if "index_lookup ix' h = Some a" for h a
  proof -
    have "?C h \<noteq> {}" "a = of_nat (Max (?C h))" using that by (auto simp: lk head_of_def split: if_splits)
    then show ?thesis using mx by (simp add: chain_start_def)
  qed
  then show "heads_ok ix' ?R"
    using hd index_builtD(1) [OF ib] chain_ok_reopened [OF ch] cu by (auto simp: heads_ok_def)
  have "is_valid (r_info r) \<and> (\<exists>a. index_lookup ix' (hash64 (r_key r)) = Some a \<and> x \<le> unat a)" if "?R x = Some r" for x r
  proof -
    from that obtain r0 where r0: "R x = Some r0" "r = unsealed r0" by (auto simp: reopened_def)
    have m: "x \<in> ?C (hash64 (r_key r0))" using r0(1) by (auto simp: chain_set_def same_entry_def)
    then have ne: "?C (hash64 (r_key r0)) \<noteq> {}" by blast
    have "x \<le> Max (?C (hash64 (r_key r0)))" using fC m by simp
    then show ?thesis using mx(2) [OF ne] ne r0 p unsealed_valid [of r0] by (auto simp: lk head_of_def published_def)
  qed
  moreover have "same_entry ix' h (hash64 (r_key r))" if a: "index_lookup ix' h = Some a" "?R (unat a) = Some r" for h a r
  proof -
    have ne: "?C h \<noteq> {}" "a = of_nat (Max (?C h))" using a(1) by (auto simp: lk head_of_def split: if_splits)
    then have "unat a \<in> ?C h" using mx(2) [OF ne(1)] Max_in [OF fC ne(1)] by simp
    then show ?thesis using a(2) by (auto simp: chain_set_def se reopened_def)
  qed
  ultimately show "published ix' ?R" by (simp add: published_def)
qed

subsection \<open>Recovery\<close>

definition fresh_for :: "store \<Rightarrow> store \<Rightarrow> reclog \<Rightarrow> bool" where
  \<comment> \<open>a store that has not run yet, on the device of \<open>st\<close> and with its geometry; its overflow area has a bucket for every entry\<close>
  "fresh_for st0 st R \<longleftrightarrow> shape_ok (st_log st0) \<and> page_bits (st_log st0) = page_bits (st_log st) \<and> device (st_log st0) = device (st_log st)
     \<and> epoch_wf (log_epoch (st_log st0)) \<and> ep_drain (log_epoch (st_log st0)) = [] \<and> index_wf (st_index st0)
     \<and> length (buckets (st_index st0)) = length (buckets (st_index st))
     \<and> card (entry_of (st_index st0) R ` dom R) \<le> length (overflow (st_index st0))"

lemma recover_addresses_geometry [simp]:
  "page_bits (recover_addresses l b t) = page_bits l" "device (recover_addresses l b t) = device l"
  by (simp_all add: recover_addresses_def Let_def)

lemma entry_of_keys:
  assumes "\<And>a. a \<in> D \<Longrightarrow> r_key (the (S a)) = r_key (the (R a))" and "ix_mask ix' = ix_mask ix"
  shows "entry_of ix' S ` D = entry_of ix R ` D"
  using assms by (auto simp: entry_of_def bucket_index_def Let_def image_iff)

lemma store_recover_ok:
  assumes dok: "data_ok (st_index st) (st_log st) R" and s: "saved (st_log st) R" and f: "fresh_for st0 st R"
    and lo: "true_tail (st_log st) < 2 ^ 48" and info: "ci_begin_address info = FIRST_VALID_ADDRESS"
      "ci_start_address info = true_tail (st_log st)" "ci_final_address info = true_tail (st_log st)" "Suc (ci_version info) < 2 ^ 56"
  obtains st1 where "store_recover st0 info = Some (Inr (), st1)" "store_inv st1 (reopened R)"
    "\<And>key. cur (st_index st1) (reopened R) key = cur (st_index st) R key" "system_state st1 = \<lparr>phase = Rest, version = Suc (ci_version info)\<rparr>"
proof -
  let ?l = "st_log st" and ?new = "st_log st0" and ?fin = "true_tail (st_log st)" and ?S = "disk_recs (device (st_log st)) R"
  let ?ix0 = "index_clear (st_index st0)" and ?ps = "page_size (st_log st)"
  define st2 where "st2 = st0\<lparr>st_index := ?ix0, st_log := recover_addresses ?new FIRST_VALID_ADDRESS ?fin,
      st_system_state := ss_pack \<lparr>phase = Rest, version = ci_version info + 1\<rparr>, st_checkpoint_start := 2 ^ 64 - 1\<rparr>"
  have st2: "st_index st2 = ?ix0" "st_log st2 = recover_addresses ?new FIRST_VALID_ADDRESS ?fin"
    "st_system_state st2 = ss_pack \<lparr>phase = Rest, version = ci_version info + 1\<rparr>"
    unfolding st2_def by simp_all
  have g: "shape_ok ?new" "page_bits ?new = page_bits ?l" "device ?new = device ?l" "epoch_wf (log_epoch ?new)" "ep_drain (log_epoch ?new) = []"
    "index_wf (st_index st0)" "length (buckets (st_index st0)) = length (buckets (st_index st))"
    "card (entry_of (st_index st0) R ` dom R) \<le> length (overflow (st_index st0))"
    using f by (auto simp: fresh_for_def)
  have hd: "heads_ok (st_index st) R" and pub: "published (st_index st) R" using dok by (auto simp: data_ok_def data_base_def)
  have ch: "chain_ok R" and wf: "index_wf (st_index st)" using hd by (auto simp: heads_ok_def)
  have below: "a < ?fin" if "a \<in> dom R" for a using that saved_below [OF s] by auto
  have fin: "finite (dom R)" by (rule finite_subset [of _ "{..<?fin}"]) (use below in auto)
  have keys: "r_key (the (?S a)) = r_key (the (R a))" if a: "a \<in> dom R" for a
  proof -
    obtain r where r: "R a = Some r" using a by auto
    from saved_rec [OF s r] show ?thesis using r by (metis option.sel)
  qed
  have mask: "ix_mask ?ix0 = ix_mask (st_index st0)" "length (overflow ?ix0) = length (overflow (st_index st0))" by (simp_all add: index_clear_def)
  have room: "card (entry_of ?ix0 ?S ` dom ?S) \<le> length (overflow ?ix0)" using g(8) entry_of_keys [OF keys mask(1)] mask(2) by simp
  have "is_valid (r_info r') \<and> FIRST_VALID_ADDRESS \<le> a \<and> a < 2 ^ 48 \<and> a < ci_start_address info" if S: "?S a = Some r'" for a r'
  proof -
    obtain r where r: "R a = Some r" using S by (auto simp: disk_recs_def)
    from saved_rec [OF s r] have "is_valid (r_info r')" using S by (metis option.inject)
    moreover have "a < ?fin" using below r by blast
    ultimately show ?thesis using chain_okD [OF ch r] lo info(2) by simp
  qed
  then have cb: "can_build info ?ix0 ?S" using fin room by (auto simp: can_build_def)
  have ps: "?ps = page_size (st_log st2)" "device (st_log st2) = device ?l"
    unfolding page_size_def st2(2) recover_addresses_geometry g(2,3) by (rule refl)+
  have hl: "heap_layout ?ps (ci_final_address info) ?S" using saved_heap [OF s] info(3) by simp
  have i0: "index_built ?ix0 ?S {a \<in> dom ?S. a < 0} (st_index st2)" using index_built_clear [OF g(6)] by (simp add: st2)
  have d0: "dev_image (device (st_log st2)) ?ps (ci_final_address info) ?S {a \<in> dom ?S. a < 0}" using saved_image [OF s] info(3) ps(2) by simp
  have p0: "0 = 0 * ?ps" by simp
  from recover_loop_ok [OF cb hl info(1) ps(1) p0 i0 d0]
  obtain ix dev where r: "recover_loop info 0 st2 = Some (Inr (), with_data st2 ix dev)" "index_built ?ix0 ?S (dom ?S) ix"
    "dev_image dev ?ps (ci_final_address info) ?S (dom ?S)" by (elim exE conjE)
  let ?st1 = "with_data st2 ix dev"
  have "FIRST_VALID_ADDRESS < page_size (st_log st2)" using page_size_range [OF g(1)] g(2) ps(1)
    by (simp add: FIRST_VALID_ADDRESS_def PAGE_HEADER_SIZE_def page_size_def)
  then have z: "FIRST_VALID_ADDRESS div page_size (st_log st2) * page_size (st_log st2) = 0" by simp
  have "store_recover st0 info = recover_loop info (FIRST_VALID_ADDRESS div page_size (st_log st2) * page_size (st_log st2)) st2"
    unfolding st2_def by (simp add: store_recover_def Let_def set_system_state_def info(1,3))
  then have rec: "store_recover st0 info = Some (Inr (), ?st1)" unfolding z by (rule trans [OF _ r(1)])
  have l1: "st_log ?st1 = recovered_log ?new ?fin dev" "st_index ?st1 = ix" by (simp_all add: with_data_def recovered_log_def st2)
  have im: "dev_image dev ?ps ?fin ?S (dom R)" using r(3) info(3) by simp
  note li = recovered_log_inv [OF s g(1,2,4,5) im]
  have b: "bucket_index ?ix0 h = bucket_index (st_index st) h" for h
    using same_buckets [OF wf g(6,7)] mask(1) by (simp add: bucket_index_def)
  have lo': "a < 2 ^ 48" if "a \<in> dom R" for a using below [OF that] lo by simp
  note ri = recovered_index [OF hd pub fin lo' r(2) [unfolded dom_views] dom_views(1) keys b]
  have ss: "system_state ?st1 = \<lparr>phase = Rest, version = Suc (ci_version info)\<rparr>"
    using ss_unpack_pack [of "\<lparr>phase = Rest, version = ci_version info + 1\<rparr>"] info(4) by (simp add: system_state_def with_data_def st2)
  have "\<forall>a \<in> dom (reopened R). FIRST_VALID_ADDRESS \<le> a" using chain_okD [OF ch] by auto
  moreover have "FIRST_VALID_ADDRESS \<le> ?fin"
    by (rule true_tail_ge [OF log_invD(1) [OF savedD(1) [OF s]]])
  ultimately have "data_ok (st_index ?st1) (st_log ?st1) (reopened R)"
    using li ri(2,3) recovered_log_fields(3,5) [OF g(1), of ?fin dev] by (simp add: data_ok_def data_base_def l1)
  then have "store_inv ?st1 (reopened R)" using ss by (simp add: store_inv_def)
  then show ?thesis using that [OF rec] ri(1) ss l1(2) by simp
qed

lemma fresh_new:
  assumes new: "store_new sz bits mp mutable (device (st_log st)) = Some st0" and c: "1 \<le> mutable" "sz \<le> 2 ^ 40"
    and g: "bits = page_bits (st_log st)" "length (buckets (index_new sz)) = length (buckets (st_index st))"
    and room: "card (entry_of (index_new sz) R ` dom R) \<le> length (overflow (index_new sz))"
  shows "fresh_for st0 st R"
proof -
  obtain l where l: "hlog_new bits mp mutable epoch_new (device (st_log st)) = Some l" and st: "st_log st0 = l" "st_index st0 = index_new sz"
    using new by (auto simp: store_new_def split: bind_splits)
  have ew: "epoch_wf (epoch_new :: log_action light_epoch)" "ep_drain (epoch_new :: log_action light_epoch) = []"
    by (rule epoch_wf_new) (simp add: epoch_new_def)
  have "hlog_wf l" by (rule hlog_new_wf [OF l c(1) ew])
  moreover have "log_epoch l = epoch_new" "page_bits l = bits" "device l = device (st_log st)"
    using l by (auto simp: hlog_new_def Let_def split: if_splits)
  ultimately show ?thesis using ew g room index_new_wf(1) [OF c(2)] by (simp add: fresh_for_def st hlog_wf_def)
qed

lemma store_new_defined: "9 \<le> bits \<Longrightarrow> bits \<le> 30 \<Longrightarrow> \<exists>st. store_new sz bits mp mutable dev = Some st"
  by (simp add: store_new_def hlog_new_def Let_def)

lemma write_words_faults: "dir_outcomes d = [] \<Longrightarrow> dir_outcomes (snd (write_words ws d)) = []"
  by (induction ws d rule: write_words.induct) (auto simp: dir_call_def append_tmp_def split: io_outcome.splits prod.splits list.splits)

lemma write_to_faults:
  assumes "dir_outcomes d = []" and "write_to i d = (r, d')"
  shows "dir_outcomes d' = []"
proof -
  obtain q d1 where w: "write_words (info_words i) (d\<lparr>tmp_file := Some []\<rparr>) = (q, d1)" by fastforce
  have "dir_outcomes d1 = []" using write_words_faults [of "d\<lparr>tmp_file := Some []\<rparr>" "info_words i"] w assms(1) by simp
  then show ?thesis using assms w by (auto simp: write_to_def dir_call_def split: sum.splits)
qed

lemma checkpoint_recovers:
  assumes inv: "store_inv st R" and v: "Suc (version (system_state st)) < 2 ^ 56" and i: "idle st"
    and tl: "snd (unpack (tail (st_log st))) < page_size (st_log st)" "true_tail (st_log st) \<noteq> FIRST_VALID_ADDRESS" "true_tail (st_log st) < 2 ^ 48"
    and ro: "read_only_address (st_log st) < true_tail (st_log st) \<or> flushed_until_address (st_log st) = true_tail (st_log st)"
    and u: "u < 2 ^ 64" and d: "dir_outcomes d = []"
    and cfg: "1 \<le> mutable" "sz \<le> 2 ^ 40" "length (buckets (index_new sz)) = length (buckets (st_index st))"
      "card (entry_of (index_new sz) R ` dom R) \<le> length (overflow (index_new sz))"
  shows "\<exists>info st' d' st0 st1. take_checkpoint k st d u = Some (Inr info, st', d') \<and> read_from d' = Inr info
    \<and> store_new sz (page_bits (st_log st)) mp mutable (device (st_log st')) = Some st0 \<and> store_recover st0 info = Some (Inr (), st1)
    \<and> store_inv st1 (reopened R) \<and> (\<forall>key. svalue st1 (reopened R) key = svalue st R key) \<and> system_state st1 = system_state st' \<and> dir_outcomes d' = []"
proof -
  have dk: "data_ok (st_index st) (st_log st) R" and wf: "hlog_wf (st_log st)"
    using inv log_invD(1) by (auto simp: store_inv_def data_ok_def data_base_def)
  have ta: "tail_address (st_log st) = Some (true_tail (st_log st))" using tail_address_eq [OF wf prod.collapse [symmetric]] tl(1) by simp
  obtain r st' d' where c: "take_checkpoint k st d u = Some (r, st', d')" using checkpoint_idle [OF inv v ta i ro] by (metis prod_cases3)
  from inv v ta c show ?thesis
  proof (cases rule: checkpoint_cases)
    case (failed e)
    with write_to_ok [OF d] show ?thesis by (metis Inl_Inr_False Pair_inject)
  next
    case (saved info)
    have bg: "begin_address (st_log st) = FIRST_VALID_ADDRESS" using dk by (simp add: data_ok_def data_base_def tiled_def)
    have "info_ok info" using saved(2) u v tl(3) bg by (simp add: info_ok_def FIRST_VALID_ADDRESS_def PAGE_HEADER_SIZE_def)
    from write_read [OF this saved(3)] have rd: "read_from d' = Inr info" by simp
    have dk': "data_ok (st_index st') (st_log st') R" using dk data_moves [OF _ saved(6)] saved(5) by simp
    have fr: "log_frame (st_log st) (st_log st')" "log_inv (st_log st') R" using saved(6) by (auto simp: log_moves_def)
    have tt: "true_tail (st_log st') = true_tail (st_log st)" using moves_tail [OF saved(6)] by simp
    have eq: "tail (st_log st') = tail (st_log st)" "page_bits (st_log st') = page_bits (st_log st)" "page_size (st_log st') = page_size (st_log st)"
      using fr(1) by (auto simp: log_frame_def page_size_def)
    have "flushed_until_address (st_log st') = true_tail (st_log st')"
      using saved(7) tt log_invD(1) [OF fr(2)] by (auto simp: hlog_wf_def watermarks_ok_def)
    then have sv: "RecoverLaws.saved (st_log st') R"
      using dk' tl(1,2) eq tt by (simp add: saved_def data_ok_def data_base_def published_def)
    obtain st0 where new: "store_new sz (page_bits (st_log st)) mp mutable (device (st_log st')) = Some st0"
      using store_new_defined wf by (metis hlog_wf_def shape_ok_def)
    have ff: "fresh_for st0 st' R" using fresh_new [OF new cfg(1,2) eq(2) [symmetric]] cfg(3,4) saved(5) by simp
    have lo: "true_tail (st_log st') < 2 ^ 48" using tl(3) tt by simp
    obtain st1 where r1: "store_recover st0 info = Some (Inr (), st1)" "store_inv st1 (reopened R)"
      "\<And>key. cur (st_index st1) (reopened R) key = cur (st_index st') R key" "system_state st1 = \<lparr>phase = Rest, version = Suc (ci_version info)\<rparr>"
      by (rule store_recover_ok [OF dk' sv ff lo, of info]) (use saved(2) bg tt v in simp_all)
    have "svalue st1 (reopened R) key = svalue st R key" for key using r1(3) saved(5) by (simp add: svalue_def)
    moreover have "system_state st1 = system_state st'" using r1(4) saved(2,4) by simp
    ultimately show ?thesis using c saved(1) rd new r1(1,2) write_to_faults [OF d saved(3)] by blast
  qed
qed

text \<open>C12: Checkpoint and restart. A store with no other session at work and room in its last page is checkpointed; a new store
  of the same page size and index size, opened on its device, recovers from the metadata file without error. The recovered store satisfies
  the invariant, holds for every key the value and expiration it had before the checkpoint, and goes on with the version the
  checkpoint left.\<close>

theorem checkpoint_recover:
  assumes inv: "store_inv st R" and v: "Suc (version (system_state st)) < 2 ^ 56" and i: "idle st"
    and tl: "snd (unpack (tail (st_log st))) < page_size (st_log st)" "true_tail (st_log st) \<noteq> FIRST_VALID_ADDRESS" "true_tail (st_log st) < 2 ^ 48"
    and ro: "read_only_address (st_log st) < true_tail (st_log st) \<or> flushed_until_address (st_log st) = true_tail (st_log st)"
    and u: "u < 2 ^ 64" and d: "dir_outcomes d = []"
    and cfg: "1 \<le> mutable" "sz \<le> 2 ^ 40" "length (buckets (index_new sz)) = length (buckets (st_index st))"
      "card (entry_of (index_new sz) R ` dom R) \<le> length (overflow (index_new sz))"
  shows "\<exists>info st' d' st0 st1. take_checkpoint k st d u = Some (Inr info, st', d') \<and> read_from d' = Inr info
    \<and> store_new sz (page_bits (st_log st)) mp mutable (device (st_log st')) = Some st0 \<and> store_recover st0 info = Some (Inr (), st1)
    \<and> store_inv st1 (reopened R) \<and> (\<forall>key. svalue st1 (reopened R) key = svalue st R key) \<and> system_state st1 = system_state st'"
  using checkpoint_recovers [OF assms, of k mp] by blast

text \<open>A store with one record, in an index of four buckets.\<close>

definition one_log :: hlog where
  "one_log = set_record_at (demo_log\<lparr>tail := pack 0 96\<rparr>) 64 demo_rec"

definition one_rec :: reclog where
  "one_rec = [64 \<mapsto> demo_rec]"

lemma demo_log_inv: "log_inv demo_log Map.empty" "begin_address demo_log = FIRST_VALID_ADDRESS" "st_log demo_store = demo_log"
proof -
  show st: "st_log demo_store = demo_log" using demo_log_new by (simp add: demo_store_def store_new_def)
  show "log_inv demo_log Map.empty" "begin_address demo_log = FIRST_VALID_ADDRESS"
    using demo_checkpoint_ready(1) by (simp_all add: store_inv_def data_ok_def data_base_def tiled_def st)
qed

lemma one_log:
  shows "log_inv one_log one_rec" and "tiled one_log one_rec" and "true_tail one_log = 96" and "unpack (tail one_log) = (0, 96)"
    and "page_size one_log = 512" and "page_bits one_log = 9" and "read_only_address one_log = 64" and "head_address one_log = 64"
    and "begin_address one_log = FIRST_VALID_ADDRESS" and "\<forall>s \<in> set (ep_table (log_epoch one_log)). s_epoch s = UNPROTECTED"
proof -
  let ?l = "demo_log\<lparr>tail := pack 0 96\<rparr>"
  have u: "unpack (pack 0 96) = (0, 96)" by (rule unpack_pack) simp
  have t0: "true_tail demo_log = 64" using demo_checkpoint_ready(5) demo_log_inv(3) by simp
  have g: "true_tail demo_log \<le> 0 * page_size demo_log + 96" by (simp add: t0)
  have wf: "hlog_wf ?l" and tt: "true_tail ?l = 96" using set_tail_wf [OF demo_log_wf _ _ g] by (simp_all add: PAGE_HEADER_SIZE_def demo_log_page)
  have "page_is_free demo_log (fst (unpack (pack 0 96)))" using demo_log_wf by (simp add: u page_is_free_def hlog_wf_def shape_ok_def)
  then have "log_inv ?l Map.empty" by (intro log_inv_set_tail [OF demo_log_inv(1) wf]) (simp_all add: tt t0 u)
  moreover have len: "length (encode demo_rec) = 28" by (simp add: length_encode demo_rec_def layout_sizes)
  have sz: "rec_size demo_rec = 32" using len by (simp add: rec_size_def align8_def)
  have ps: "page_size ?l = 512" using demo_log_page by simp
  have po: "page_of ?l 64 = 0" "page_offset ?l 64 = 64" using page_ofI [of 0 ?l 64] page_of_bounds(3) [of ?l 64] ps by simp_all
  have "rec_placed ?l 64 demo_rec" using sz ps tt po by (simp add: rec_placed_def rec_wf_def demo_rec_def PAGE_HEADER_SIZE_def)
  moreover have ro: "read_only_address ?l = 64" "head_address ?l = 64" "page_bits ?l = 9"
    by (simp_all add: demo_log_def hlog_new_def Let_def FIRST_VALID_ADDRESS_def PAGE_HEADER_SIZE_def)
  ultimately show "log_inv one_log one_rec" unfolding one_log_def one_rec_def by (intro log_inv_insert) simp_all
  show "true_tail one_log = 96" "unpack (tail one_log) = (0, 96)" "page_size one_log = 512" "page_bits one_log = 9"
    "read_only_address one_log = 64" "head_address one_log = 64" "begin_address one_log = FIRST_VALID_ADDRESS"
    using tt u ps ro demo_log_inv(2) by (simp_all add: one_log_def set_record_at_def)
  show "\<forall>s \<in> set (ep_table (log_epoch one_log)). s_epoch s = UNPROTECTED"
    using demo_checkpoint_ready(3) by (simp add: one_log_def set_record_at_def idle_def demo_log_inv(3))
  have "tiled ?l one_rec" using po sz tt u demo_log_inv(2)
    by (simp add: tiled_def one_rec_def PAGE_HEADER_SIZE_def tail_page_def)
  then show "tiled one_log one_rec" using tiled_frame [of one_log ?l one_rec] by (simp add: one_log_def set_record_at_def)
qed

lemma demo_rec_flags: "prev_addr demo_rec = 0" "is_valid (r_info demo_rec)" "\<not> is_closed (r_info demo_rec)" "r_key demo_rec = [107]"
  by code_simp+

lemma one_store:
  obtains st where "store_inv st one_rec" "st_log st = one_log" "system_state st = \<lparr>phase = Rest, version = 1\<rparr>"
    "length (buckets (st_index st)) = 4" "svalue st one_rec [107] = Some ([1, 2, 3], 0)"
proof -
  let ?ix0 = "index_new 4"
  have d: "dom one_rec = {64}" by (simp add: one_rec_def)
  have wf0: "index_wf ?ix0" "\<And>h. index_lookup ?ix0 h = None" using index_new_wf [of 4] by simp_all
  have b0: "index_built ?ix0 one_rec {} ?ix0"
    using wf0 by (simp add: index_built_def chain_set_def head_of_def index_new_def Let_def)
  have r: "one_rec 64 = Some demo_rec" by (simp add: one_rec_def)
  have room: "card (entry_of ?ix0 one_rec ` insert 64 {}) \<le> length (overflow ?ix0)" by (simp add: index_new_def Let_def)
  obtain s ix1 where "index_built ?ix0 one_rec (insert 64 {}) (index_publish ix1 s (of_nat 64))"
    by (rule build_step [where S = one_rec and a = 64, OF b0 _ _ r _ _ _ room]) (simp_all add: FIRST_VALID_ADDRESS_def PAGE_HEADER_SIZE_def)
  then obtain ix where ib: "index_built ?ix0 one_rec {64} ix" by blast
  have cs: "chain_set ?ix0 one_rec {64} h = (if same_entry ?ix0 h (hash64 [107]) then {64} else {})" for h
    by (auto simp: chain_set_def r demo_rec_def)
  have lk: "index_lookup ix h = (if same_entry ix h (hash64 [107]) then Some 64 else None)" for h
    using index_builtD(6,7) [OF ib] by (simp add: cs head_of_def)
  have cu: "cur ix one_rec key = (if key = [107] then Some demo_rec else None)" for key
  proof -
    have "newest one_rec 64 key = (if key = [107] then Some 64 else None)"
    proof (subst newest.simps)
      have "newest one_rec 0 key = None" by (subst newest.simps) (simp add: one_rec_def)
      then show "(case one_rec 64 of None \<Rightarrow> None | Some r \<Rightarrow> if r_key r = key then Some 64 else if prev_addr r < 64
          then newest one_rec (prev_addr r) key else None) = (if key = [107] then Some 64 else None)" by (simp add: r demo_rec_flags)
    qed
    then show ?thesis by (cases "key = [107]") (simp_all add: cur_def lk r same_entry_def)
  qed
  have only: "one_rec a = Some r \<longleftrightarrow> a = 64 \<and> r = demo_rec" for a r by (auto simp: one_rec_def)
  have "heads_ok ix one_rec"
    using index_builtD(1) [OF ib] demo_rec_flags
    by (simp add: heads_ok_def chain_ok_def d lk cu chain_start_def only FIRST_VALID_ADDRESS_def PAGE_HEADER_SIZE_def)
  moreover have "published ix one_rec" using demo_rec_flags by (simp add: published_def lk only same_entry_def)
  ultimately have dk: "data_ok ix one_log one_rec"
    using one_log(1,2,8,9) by (simp add: data_ok_def data_base_def d FIRST_VALID_ADDRESS_def PAGE_HEADER_SIZE_def)
  let ?st = "\<lparr>st_index = ix, st_log = one_log, st_system_state = ss_pack \<lparr>phase = Rest, version = 1\<rparr>, st_checkpoint_start = 2 ^ 64 - 1\<rparr>"
  have ss: "system_state ?st = \<lparr>phase = Rest, version = 1\<rparr>" by (simp add: system_state_def ss_unpack_pack)
  have "length (buckets ix) = length (buckets ?ix0)" using index_builtD(3) [OF ib] by (simp add: same_latches_def)
  also have "\<dots> = 4" by code_simp
  finally have n: "length (buckets ix) = 4" .
  have "svalue ?st one_rec [107] = Some ([1, 2, 3], 0)"
    by (simp add: svalue_def cu demo_rec_def r_value_def expiration_def is_tombstone_def VALID_BIT_def TOMBSTONE_BIT_def)
  with dk ss n show ?thesis by (intro that [of ?st]) (simp_all add: store_inv_def)
qed

theorem checkpoint_recover_witness:
  "\<exists>st info st' d' st0 st1. svalue st one_rec [107] = Some ([1, 2, 3], 0) \<and> take_checkpoint 0 st demo_dir 7 = Some (Inr info, st', d')
     \<and> read_from d' = Inr info \<and> store_new 4 9 2 1 (device (st_log st')) = Some st0 \<and> store_recover st0 info = Some (Inr (), st1)
     \<and> svalue st1 (reopened one_rec) [107] = Some ([1, 2, 3], 0)"
proof -
  obtain st where st: "store_inv st one_rec" "st_log st = one_log" "system_state st = \<lparr>phase = Rest, version = 1\<rparr>"
    "length (buckets (st_index st)) = 4" "svalue st one_rec [107] = Some ([1, 2, 3], 0)" by (rule one_store)
  note l = one_log
  have v: "Suc (version (system_state st)) < 2 ^ 56" and i: "idle st"
    and tl: "snd (unpack (tail (st_log st))) < page_size (st_log st)" "true_tail (st_log st) \<noteq> FIRST_VALID_ADDRESS" "true_tail (st_log st) < 2 ^ 48"
    and ro: "read_only_address (st_log st) < true_tail (st_log st) \<or> flushed_until_address (st_log st) = true_tail (st_log st)"
    and u: "(7::nat) < 2 ^ 64" and d: "dir_outcomes demo_dir = []"
    using st(2,3) l by (simp_all add: idle_def FIRST_VALID_ADDRESS_def PAGE_HEADER_SIZE_def demo_dir_def)
  have "length (buckets (index_new 4)) = 4" by code_simp
  then have cfg: "(1::nat) \<le> 1" "(4::nat) \<le> 2 ^ 40" "length (buckets (index_new 4)) = length (buckets (st_index st))"
      "card (entry_of (index_new 4) one_rec ` dom one_rec) \<le> length (overflow (index_new 4))"
    using st(4) by (simp_all add: one_rec_def index_new_def Let_def)
  from checkpoint_recover [OF st(1) v i tl ro u d cfg, of 0 2] obtain info st' d' st0 st1 where
    c: "take_checkpoint 0 st demo_dir 7 = Some (Inr info, st', d')" "read_from d' = Inr info"
    "store_new 4 (page_bits (st_log st)) 2 1 (device (st_log st')) = Some st0" "store_recover st0 info = Some (Inr (), st1)"
    "svalue st1 (reopened one_rec) [107] = svalue st one_rec [107]" by blast
  have "page_bits (st_log st) = 9" using st(2) l(6) by simp
  with c st(5) show ?thesis by metis
qed

subsection \<open>Checkpoints that cannot be recovered\<close>

text \<open>C17: An empty store can be checkpointed, but a store on a device that holds nothing yet does not start from that checkpoint:
  recovery asks the device for the 64 bytes of the page header, which were never written, and reports a read behind its end.\<close>

theorem empty_checkpoint_unrecoverable:
  assumes "shape_ok (st_log st)" and "ci_begin_address info = FIRST_VALID_ADDRESS" and "ci_final_address info = FIRST_VALID_ADDRESS"
    and "length (device (st_log st)) < FIRST_VALID_ADDRESS"
  shows "\<exists>st1. store_recover st info = Some (Inl (str ''read past end of MemDevice''), st1)"
proof -
  let ?st = "(set_system_state (st\<lparr>st_index := index_clear (st_index st), st_log := recover_addresses (st_log st) FIRST_VALID_ADDRESS FIRST_VALID_ADDRESS\<rparr>)
      \<lparr>phase = Rest, version = ci_version info + 1\<rparr>)\<lparr>st_checkpoint_start := 2 ^ 64 - 1\<rparr>"
  have l: "st_log ?st = recover_addresses (st_log st) FIRST_VALID_ADDRESS FIRST_VALID_ADDRESS" by (simp add: set_system_state_def)
  have ps: "FIRST_VALID_ADDRESS < page_size (st_log ?st)" using page_size_range [OF assms(1)]
    by (simp add: l [unfolded FIRST_VALID_ADDRESS_def PAGE_HEADER_SIZE_def] page_size_def FIRST_VALID_ADDRESS_def PAGE_HEADER_SIZE_def set_system_state_def)
  have "read_page_prefix_from_disk (st_log ?st) 0 FIRST_VALID_ADDRESS = None"
    using assms(4) by (simp add: read_page_prefix_from_disk_def read_at_def set_system_state_def)
  then have "recover_page info 0 ?st = Some (Inl (str ''read past end of MemDevice''), ?st)"
    using ps assms(3) by (simp add: recover_page_def Let_def min_def)
  then have "recover_loop info 0 ?st = Some (Inl (str ''read past end of MemDevice''), ?st)"
    using assms(3) by (subst recover_loop.simps) (simp add: FIRST_VALID_ADDRESS_def PAGE_HEADER_SIZE_def)
  moreover have "store_recover st info = recover_loop info (FIRST_VALID_ADDRESS div page_size (st_log ?st) * page_size (st_log ?st)) ?st"
    by (simp add: store_recover_def Let_def assms(2,3))
  ultimately show ?thesis using ps by simp
qed

theorem empty_checkpoint_unrecoverable_witness:
  "\<exists>info st' d' st1. take_checkpoint 0 demo_store demo_dir 0 = Some (Inr info, st', d')
     \<and> store_recover demo_store info = Some (Inl (str ''read past end of MemDevice''), st1)"
proof -
  note q = demo_checkpoint_ready
  obtain r st' d' where c: "take_checkpoint 0 demo_store demo_dir 0 = Some (r, st', d')"
    using checkpoint_idle [OF q(1,2,4,3) disjI2 [OF q(6)], of 0 demo_dir 0] by (metis prod_cases3)
  have sh: "shape_ok (st_log demo_store)" using demo_log_inv(1) by (simp add: demo_log_inv(3) log_invD(10))
  have dev: "device (st_log demo_store) = []" by (simp add: demo_log_inv(3) demo_log_def hlog_new_def Let_def)
  from q(1,2,4) c show ?thesis
  proof (cases rule: checkpoint_cases)
    case (failed e)
    with write_to_ok [of demo_dir] show ?thesis by (metis Inl_Inr_False Pair_inject demo_dir_def dir.select_convs(3))
  next
    case (saved info)
    with empty_checkpoint_unrecoverable [OF sh, of info] q(5,7) dev c show ?thesis
      by (auto simp: FIRST_VALID_ADDRESS_def PAGE_HEADER_SIZE_def)
  qed
qed

text \<open>C18: Recovery from a checkpoint whose final address is the end of a page puts the tail at offset 0 of the next page, and the
  next allocation hands out that address: the record lies over the page header, where no page walk looks for it.\<close>

theorem recovered_full_page_tail:
  assumes fit: "n + PAGE_HEADER_SIZE \<le> page_size l"
  shows "\<exists>l'. try_allocate (recover_addresses l b (p * page_size l)) n = Some (AllocOk (p * page_size l), l') \<and> page_offset l' (p * page_size l) = 0"
proof -
  let ?l = "recover_addresses l b (p * page_size l)"
  have ps: "0 < page_size l" by (simp add: page_size_def)
  have g: "page_size ?l = page_size l" "page_bits ?l = page_bits l" by (simp_all add: page_size_def)
  have "page_of l (p * page_size l) = p" "page_offset l (p * page_size l) = 0" using ps by (simp_all add: page_of_div page_offset_mod)
  then have "tail ?l = pack p 0" by (simp add: recover_addresses_def Let_def)
  then have "unpack (tail ?l) = (p, 0)" by (simp add: unpack_pack)
  moreover have "push_bit (page_bits l) p OR 0 = p * page_size l" by (simp add: push_bit_eq_mult page_size_def)
  ultimately have "try_allocate ?l n = Some (AllocOk (p * page_size l), ?l\<lparr>tail := tail ?l + n\<rparr>)"
    using fit by (simp add: try_allocate_def Let_def g)
  moreover have "page_offset (?l\<lparr>tail := tail ?l + n\<rparr>) (p * page_size l) = 0" by (simp add: page_offset_mod page_size_def)
  ultimately show ?thesis by blast
qed

theorem recovered_full_page_tail_witness:
  "\<exists>l'. try_allocate (recover_addresses demo_log 64 512) 32 = Some (AllocOk 512, l') \<and> page_offset l' 512 = 0"
  using recovered_full_page_tail [of 32 demo_log 64 1] demo_log_page by (simp add: PAGE_HEADER_SIZE_def)

end
