(* ===== verification/Admission.thy ===== *)
theory Admission
  imports Epoch
begin

text \<open>
  Admission of connections (\<open>serve_on\<close> of \<^verbatim>\<open>server.rs\<close>): the accept loop counts a connection in, turns it away when
  \<open>maxclients\<close> are counted already, and otherwise starts a thread for it; the thread's guard \<open>ConnSlot\<close> counts it out when
  the thread ends. The counter is shared, so accept loop and connection threads interleave; every atomic access is one step.
  A serving thread claims its slot of the epoch table at its first call of the store and gives it back when its session is dropped,
  which is before its \<open>ConnSlot\<close> is. Threads that use the store without serving a connection are the helpers.
\<close>

definition DEFAULT_MAX_CLIENTS :: nat where "DEFAULT_MAX_CLIENTS = MAX_THREADS - 8"

datatype accept_pc = Accepting | Admitting | Turning_away
datatype thread_pc = Serving | Dropped | Helping

record 'a door =
  live :: nat \<comment> \<open>the \<open>AtomicUsize\<close> shared with the guards\<close>
  accept :: accept_pc
  threads :: "nat \<rightharpoonup> thread_pc"
  next_thread :: nat
  door_epoch :: "'a light_epoch"

definition same_owners :: "'a light_epoch \<Rightarrow> 'a light_epoch \<Rightarrow> bool" where
  "same_owners ep ep' \<longleftrightarrow> map s_owner (ep_table ep') = map s_owner (ep_table ep) \<and> ep_my_slot ep' = ep_my_slot ep"

definition helpers :: "'a door \<Rightarrow> nat set" where "helpers s = {t. threads s t = Some Helping}"

definition connected :: "'a door \<Rightarrow> nat set" where
  \<comment> \<open>the threads that hold a \<open>ConnSlot\<close>\<close>
  "connected s = {t. threads s t = Some Serving \<or> threads s t = Some Dropped}"

inductive door_step :: "nat \<Rightarrow> nat \<Rightarrow> 'a door \<Rightarrow> 'a door \<Rightarrow> bool" for maxclients extra :: nat where
  count_in: "accept s = Accepting \<Longrightarrow>
    door_step maxclients extra s (s\<lparr>live := live s + 1, accept := if maxclients \<le> live s then Turning_away else Admitting\<rparr>)"
| turn_away: "accept s = Turning_away \<Longrightarrow> door_step maxclients extra s (s\<lparr>live := live s - 1, accept := Accepting\<rparr>)"
| spawn: "accept s = Admitting \<Longrightarrow>
    door_step maxclients extra s (s\<lparr>threads := (threads s)(next_thread s \<mapsto> Serving), next_thread := Suc (next_thread s), accept := Accepting\<rparr>)"
| start_helper: "card (helpers s) < extra \<Longrightarrow>
    door_step maxclients extra s (s\<lparr>threads := (threads s)(next_thread s \<mapsto> Helping), next_thread := Suc (next_thread s)\<rparr>)"
| use_store: "threads s t = Some Serving \<or> threads s t = Some Helping \<Longrightarrow> my_slot (door_epoch s) t = Some (i, ep) \<Longrightarrow>
    door_step maxclients extra s (s\<lparr>door_epoch := ep\<rparr>)"
| epoch_call: "same_owners (door_epoch s) ep \<Longrightarrow> door_step maxclients extra s (s\<lparr>door_epoch := ep\<rparr>)"
| drop_session: "threads s t = Some Serving \<Longrightarrow>
    door_step maxclients extra s (s\<lparr>threads := (threads s)(t \<mapsto> Dropped), door_epoch := release_thread (door_epoch s) t\<rparr>)"
| drop_slot: "threads s t = Some Dropped \<Longrightarrow>
    door_step maxclients extra s (s\<lparr>threads := (threads s)(t := None), live := live s - 1\<rparr>)"
| drop_helper: "threads s t = Some Helping \<Longrightarrow>
    door_step maxclients extra s (s\<lparr>threads := (threads s)(t := None), door_epoch := release_thread (door_epoch s) t\<rparr>)"

definition door_init :: "'a door" where
  "door_init = \<lparr>live = 0, accept = Accepting, threads = Map.empty, next_thread = 1, door_epoch = epoch_new\<rparr>"

definition door_reachable :: "nat \<Rightarrow> nat \<Rightarrow> 'a door \<Rightarrow> bool" where
  "door_reachable maxclients extra = (door_step maxclients extra)\<^sup>*\<^sup>* door_init"

subsection \<open>The epoch table\<close>

definition slots_ok :: "'a light_epoch \<Rightarrow> nat set \<Rightarrow> bool" where
  \<comment> \<open>a slot belongs to a thread of \<open>A\<close> that knows it: no slot is leaked, no thread has two\<close>
  "slots_ok ep A \<longleftrightarrow> length (ep_table ep) = MAX_THREADS
     \<and> (\<forall>i < MAX_THREADS. s_owner (ep_table ep ! i) \<noteq> 0 \<longrightarrow>
          s_owner (ep_table ep ! i) \<in> A \<and> ep_my_slot ep (s_owner (ep_table ep ! i)) = Some i)"

lemma slots_okD:
  assumes "slots_ok ep A" and "i < MAX_THREADS" and "s_owner (ep_table ep ! i) \<noteq> 0"
  shows "s_owner (ep_table ep ! i) \<in> A" and "ep_my_slot ep (s_owner (ep_table ep ! i)) = Some i"
  using assms by (auto simp: slots_ok_def)

lemma probe_order_all: "set (probe_order tid) = {..<MAX_THREADS}"
proof
  show "set (probe_order tid) \<subseteq> {..<MAX_THREADS}" using probe_order_lt by auto
  let ?s = "(tid * 0x9E3779B9 mod 2 ^ 64) mod MAX_THREADS"
  have M: "0 < MAX_THREADS" by (simp add: MAX_THREADS_def)
  show "{..<MAX_THREADS} \<subseteq> set (probe_order tid)"
  proof
    fix j assume "j \<in> {..<MAX_THREADS}"
    then have j: "j < MAX_THREADS" by simp
    let ?i = "(j + (MAX_THREADS - ?s)) mod MAX_THREADS"
    have s: "?s < MAX_THREADS" using M by simp
    have "(?s + ?i) mod MAX_THREADS = (?s + (j + (MAX_THREADS - ?s))) mod MAX_THREADS" by (rule mod_add_right_eq)
    also have "?s + (j + (MAX_THREADS - ?s)) = j + MAX_THREADS" using s by simp
    finally have "(?s + ?i) mod MAX_THREADS = j" using j by simp
    moreover have "?i \<in> set [0..<MAX_THREADS]" using M by simp
    ultimately show "j \<in> set (probe_order tid)" unfolding probe_order_def Let_def set_map by (metis (no_types, lifting) image_eqI)
  qed
qed

lemma same_owners_ok: "slots_ok ep A \<Longrightarrow> same_owners ep ep' \<Longrightarrow> slots_ok ep' A"
proof -
  assume ok: "slots_ok ep A" and o: "same_owners ep ep'"
  have "length (ep_table ep') = length (ep_table ep)" using o map_eq_imp_length_eq by (auto simp: same_owners_def)
  moreover from this o have "s_owner (ep_table ep' ! i) = s_owner (ep_table ep ! i)" if "i < length (ep_table ep)" for i
    using that unfolding same_owners_def by (metis nth_map)
  ultimately show "slots_ok ep' A" using ok o by (simp add: slots_ok_def same_owners_def)
qed

lemma my_slot_ok:
  assumes ok: "slots_ok ep A" and m: "my_slot ep t = Some (i, ep')" and t: "t \<in> A" "0 < t"
  shows "slots_ok ep' A"
proof (cases "ep' = ep")
  case False
  then have "claim_slot ep t = Some (i, ep')" and no: "\<not> (ep_my_slot ep t = Some i \<and> owns_slot ep t i)" "\<And>j. ep_my_slot ep t = Some j \<Longrightarrow> \<not> owns_slot ep t j"
    using m by (auto simp: my_slot_def split: option.splits if_splits)
  then obtain f: "List.find (\<lambda>i. s_owner (ep_table ep ! i) = 0) (probe_order t) = Some i"
    and e: "ep' = ep\<lparr>ep_table := (ep_table ep)[i := (ep_table ep ! i)\<lparr>s_owner := t\<rparr>], ep_my_slot := (ep_my_slot ep)(t := Some i)\<rparr>"
    by (auto simp: claim_slot_def split: option.splits)
  have i: "i < MAX_THREADS" using f probe_order_all [of t] by (auto simp: find_Some_iff dest!: nth_mem)
  have len: "length (ep_table ep) = MAX_THREADS" using ok by (simp add: slots_ok_def)
  have "s_owner (ep_table ep ! j) \<noteq> t" if "j < MAX_THREADS" for j
  proof
    assume "s_owner (ep_table ep ! j) = t"
    then show False using slots_okD(2) [OF ok that] no(2) [of j] t(2) that len by (auto simp: owns_slot_def)
  qed
  then show ?thesis using ok i len t by (auto simp: slots_ok_def e nth_list_update)
qed (use ok in simp)

lemma release_ok:
  assumes ok: "slots_ok ep A" and t: "0 < t"
  shows "slots_ok (release_thread ep t) (A - {t})"
proof -
  have len: "length (ep_table ep) = MAX_THREADS" using ok by (simp add: slots_ok_def)
  show ?thesis
  proof (cases "\<exists>i. ep_my_slot ep t = Some i \<and> owns_slot ep t i")
    case True
    then obtain i where i: "ep_my_slot ep t = Some i" "owns_slot ep t i" by blast
    have "s_owner (ep_table ep ! j) \<noteq> t" if "j < MAX_THREADS" "j \<noteq> i" for j
      using slots_okD(2) [OF ok that(1)] that(2) i(1) t by auto
    then show ?thesis using ok i len by (auto simp: slots_ok_def release_thread_def nth_list_update owns_slot_def)
  next
    case False
    then have "s_owner (ep_table ep ! j) \<noteq> t" if "j < MAX_THREADS" for j
      using slots_okD(2) [OF ok that] t that len by (auto simp: owns_slot_def)
    moreover have "release_thread ep t = ep" using False by (auto simp: release_thread_def split: option.splits)
    ultimately show ?thesis using ok by (auto simp: slots_ok_def)
  qed
qed

text \<open>With fewer threads than slots a thread always finds one.\<close>

lemma slot_left:
  assumes ok: "slots_ok ep A" and A: "finite A" "card A \<le> MAX_THREADS" and t: "t \<in> A" "0 < t"
  shows "\<exists>i ep'. my_slot ep t = Some (i, ep')"
proof (rule ccontr)
  let ?o = "\<lambda>i. s_owner (ep_table ep ! i)"
  have len: "length (ep_table ep) = MAX_THREADS" using ok by (simp add: slots_ok_def)
  assume "\<not> ?thesis"
  then have "my_slot ep t = None" by (cases "my_slot ep t") auto
  then have no: "\<And>i. ep_my_slot ep t = Some i \<Longrightarrow> \<not> owns_slot ep t i" and "claim_slot ep t = None"
    by (auto simp: my_slot_def split: option.splits if_splits)
  then have "List.find (\<lambda>i. ?o i = 0) (probe_order t) = None" by (auto simp: claim_slot_def split: option.splits)
  then have full: "?o i \<noteq> 0" if "i < MAX_THREADS" for i using that probe_order_all [of t] by (auto simp: find_None_iff)
  have "?o i \<in> A - {t}" if i: "i < MAX_THREADS" for i
    using slots_okD [OF ok i full [OF i]] no [of i] i len by (auto simp: owns_slot_def)
  then have "?o ` {..<MAX_THREADS} \<subseteq> A - {t}" by auto
  moreover have "inj_on ?o {..<MAX_THREADS}"
    using slots_okD(2) [OF ok _ full] by (intro inj_onI) (metis lessThan_iff option.inject)
  ultimately have "MAX_THREADS \<le> card (A - {t})" using A(1) by (metis card_image card_lessThan card_mono finite_Diff)
  moreover have "card (A - {t}) < card A" using A(1) t(1) by (rule card_Diff1_less)
  ultimately show False using A(2) by simp
qed

subsection \<open>The invariant of the accept loop\<close>

definition door_inv :: "nat \<Rightarrow> nat \<Rightarrow> 'a door \<Rightarrow> bool" where
  "door_inv maxclients extra s \<longleftrightarrow> finite (dom (threads s)) \<and> (\<forall>t \<in> dom (threads s). 0 < t \<and> t < next_thread s)
     \<and> live s = card (connected s) + (if accept s = Accepting then 0 else 1) \<and> card (connected s) \<le> maxclients
     \<and> (accept s = Admitting \<longrightarrow> card (connected s) < maxclients) \<and> card (helpers s) \<le> extra \<and> 0 < next_thread s
     \<and> slots_ok (door_epoch s) (dom (threads s) - {t. threads s t = Some Dropped})"

lemma door_inv_init: "door_inv mx h door_init"
  by (simp add: door_inv_def door_init_def connected_def helpers_def slots_ok_def epoch_new_def)

lemma door_finite:
  assumes "door_inv mx h s"
  shows "finite (connected s)" and "finite (helpers s)"
proof -
  have "connected s \<subseteq> dom (threads s)" "helpers s \<subseteq> dom (threads s)" by (auto simp: connected_def helpers_def)
  then show "finite (connected s)" "finite (helpers s)" using assms by (auto simp: door_inv_def intro: finite_subset)
qed

lemma slots_ok_mono: "slots_ok ep A \<Longrightarrow> A \<subseteq> B \<Longrightarrow> slots_ok ep B"
  by (auto simp: slots_ok_def)

lemma door_inv_step:
  assumes "door_step mx h s s'" and inv: "door_inv mx h s"
  shows "door_inv mx h s'"
  using assms(1)
proof cases
  case count_in
  then show ?thesis using inv by (auto simp: door_inv_def connected_def helpers_def)
next
  case turn_away
  then show ?thesis using inv by (auto simp: door_inv_def connected_def helpers_def)
next
  case spawn
  have new: "next_thread s \<notin> dom (threads s)" using inv by (auto simp: door_inv_def)
  have c: "connected s' = insert (next_thread s) (connected s)" "helpers s' = helpers s"
    using new by (auto simp: spawn connected_def helpers_def)
  have "card (connected s') = Suc (card (connected s))"
    unfolding c(1) using new door_finite(1) [OF inv] by (subst card_insert_disjoint) (auto simp: connected_def)
  moreover have "slots_ok (door_epoch s') (dom (threads s') - {t. threads s' t = Some Dropped})"
    by (rule slots_ok_mono [of _ "dom (threads s) - {t. threads s t = Some Dropped}"]) (use inv new spawn in \<open>auto simp: door_inv_def\<close>)
  moreover have "\<forall>t \<in> dom (threads s'). 0 < t \<and> t < next_thread s'" "finite (dom (threads s'))" "0 < next_thread s'"
    using inv by (auto simp: door_inv_def spawn less_Suc_eq)
  ultimately show ?thesis using inv c(2) spawn(2) by (simp add: door_inv_def spawn(1))
next
  case start_helper
  have new: "next_thread s \<notin> dom (threads s)" using inv by (auto simp: door_inv_def)
  have c: "connected s' = connected s" "helpers s' = insert (next_thread s) (helpers s)"
    using new by (auto simp: start_helper connected_def helpers_def)
  have "card (helpers s') = Suc (card (helpers s))"
    unfolding c(2) using new door_finite(2) [OF inv] by (subst card_insert_disjoint) (auto simp: helpers_def)
  moreover have "slots_ok (door_epoch s') (dom (threads s') - {t. threads s' t = Some Dropped})"
    by (rule slots_ok_mono [of _ "dom (threads s) - {t. threads s t = Some Dropped}"]) (use inv new start_helper in \<open>auto simp: door_inv_def\<close>)
  moreover have "\<forall>t \<in> dom (threads s'). 0 < t \<and> t < next_thread s'" "finite (dom (threads s'))" "0 < next_thread s'"
    using inv by (auto simp: door_inv_def start_helper less_Suc_eq)
  ultimately show ?thesis using inv c(1) start_helper(2) by (simp add: door_inv_def start_helper(1))
next
  case (use_store t i ep)
  have "slots_ok ep (dom (threads s) - {t. threads s t = Some Dropped})"
    by (rule my_slot_ok [OF _ use_store(3)]) (use inv use_store(2) in \<open>auto simp: door_inv_def\<close>)
  then show ?thesis using inv use_store(1) by (simp add: door_inv_def connected_def helpers_def)
next
  case (epoch_call ep)
  then have "slots_ok ep (dom (threads s) - {t. threads s t = Some Dropped})" using inv same_owners_ok by (auto simp: door_inv_def)
  then show ?thesis using inv epoch_call(1) by (simp add: door_inv_def connected_def helpers_def)
next
  case (drop_session t)
  have c: "connected s' = connected s" "helpers s' = helpers s" "dom (threads s') = dom (threads s)"
    using drop_session by (auto simp: connected_def helpers_def)
  have "0 < t" using inv drop_session(2) by (auto simp: door_inv_def)
  then have "slots_ok (door_epoch s') (dom (threads s) - {t. threads s t = Some Dropped} - {t})"
    using inv release_ok by (auto simp: door_inv_def drop_session(1))
  moreover have "dom (threads s) - {t. threads s t = Some Dropped} - {t} = dom (threads s') - {t. threads s' t = Some Dropped}"
    using drop_session by auto
  ultimately show ?thesis using inv c drop_session by (simp add: door_inv_def)
next
  case (drop_slot t)
  have c: "connected s' = connected s - {t}" "helpers s' = helpers s" using drop_slot by (auto simp: connected_def helpers_def)
  have "t \<in> connected s" using drop_slot(2) by (simp add: connected_def)
  then have "card (connected s) = Suc (card (connected s'))" unfolding c(1) using door_finite(1) [OF inv] by (intro card.remove)
  moreover have "dom (threads s') - {t. threads s' t = Some Dropped} = dom (threads s) - {t. threads s t = Some Dropped}" using drop_slot by auto
  ultimately show ?thesis using inv c(2) drop_slot by (auto simp: door_inv_def)
next
  case (drop_helper t)
  have c: "connected s' = connected s" "helpers s' = helpers s - {t}" using drop_helper by (auto simp: connected_def helpers_def)
  have "card (helpers s') \<le> card (helpers s)" unfolding c(2) by (rule card_Diff1_le)
  moreover have "0 < t" using inv drop_helper(2) by (auto simp: door_inv_def)
  then have "slots_ok (door_epoch s') (dom (threads s) - {t. threads s t = Some Dropped} - {t})"
    using inv release_ok by (auto simp: door_inv_def drop_helper(1))
  moreover have "dom (threads s) - {t. threads s t = Some Dropped} - {t} = dom (threads s') - {t. threads s' t = Some Dropped}"
    using drop_helper by auto
  ultimately show ?thesis using inv c(1) drop_helper by (auto simp: door_inv_def)
qed

lemma door_reachable_inv: "door_reachable mx h s \<Longrightarrow> door_inv mx h s"
  unfolding door_reachable_def by (induction rule: rtranclp_induct) (auto simp: door_inv_init dest: door_inv_step)

lemma thread_gets_slot:
  assumes inv: "door_inv mx h s" and fit: "mx + h \<le> MAX_THREADS" and t: "threads s t = Some Serving \<or> threads s t = Some Helping"
  shows "\<exists>i ep. my_slot (door_epoch s) t = Some (i, ep)"
proof -
  let ?A = "dom (threads s) - {t. threads s t = Some Dropped}"
  have "?A \<subseteq> connected s \<union> helpers s"
  proof
    fix x assume "x \<in> ?A"
    then obtain pc where "threads s x = Some pc" "pc \<noteq> Dropped" by auto
    then show "x \<in> connected s \<union> helpers s" by (cases pc) (auto simp: connected_def helpers_def)
  qed
  then have "card ?A \<le> card (connected s \<union> helpers s)" by (intro card_mono) (use door_finite [OF inv] in auto)
  also have "\<dots> \<le> card (connected s) + card (helpers s)" by (rule card_Un_le)
  also have "\<dots> \<le> MAX_THREADS" using inv fit by (auto simp: door_inv_def)
  finally have cA: "card ?A \<le> MAX_THREADS" .
  show ?thesis by (rule slot_left [where A = ?A]) (use inv t cA in \<open>auto simp: door_inv_def\<close>)
qed

text \<open>C11: However accept loop, connections and other threads interleave, at most \<open>maxclients\<close> connections hold a thread; while
  the accept loop waits its counter is their number, so it turns a connection away exactly when all places are taken; and when
  connections and other threads fit the epoch table, none of them ever finds the table full.\<close>

theorem admission_bounds_threads:
  assumes r: "door_reachable maxclients extra s" and fit: "maxclients + extra \<le> MAX_THREADS"
  shows "card (connected s) \<le> maxclients \<and> (accept s = Accepting \<longrightarrow> live s = card (connected s))
    \<and> (\<forall>t. threads s t = Some Serving \<or> threads s t = Some Helping \<longrightarrow> my_slot (door_epoch s) t \<noteq> None)"
  using door_reachable_inv [OF r] thread_gets_slot [OF door_reachable_inv [OF r] fit] by (fastforce simp: door_inv_def)

lemma door_run: "door_reachable mx h s \<Longrightarrow> door_step mx h s s' \<Longrightarrow> door_reachable mx h s'"
  by (simp add: door_reachable_def)

definition served :: "nat door" where
  \<comment> \<open>one connection has been admitted\<close>
  "served = door_init\<lparr>live := 1, accept := Accepting, threads := [1 \<mapsto> Serving], next_thread := 2\<rparr>"

theorem admission_bounds_threads_witness:
  "door_reachable DEFAULT_MAX_CLIENTS 8 served \<and> live served = card (connected served) \<and> my_slot (door_epoch served) 1 \<noteq> None"
proof -
  have "door_reachable DEFAULT_MAX_CLIENTS 8 (door_init :: nat door)" by (simp add: door_reachable_def)
  from door_run [OF this count_in] have "door_reachable DEFAULT_MAX_CLIENTS 8 (door_init\<lparr>live := 1, accept := Admitting\<rparr> :: nat door)"
    by (simp add: door_init_def DEFAULT_MAX_CLIENTS_def MAX_THREADS_def)
  from door_run [OF this spawn] have r: "door_reachable DEFAULT_MAX_CLIENTS 8 served"
    by (simp add: served_def door_init_def numeral_2_eq_2)
  have "DEFAULT_MAX_CLIENTS + 8 \<le> MAX_THREADS" by (simp add: DEFAULT_MAX_CLIENTS_def MAX_THREADS_def)
  from admission_bounds_threads [OF r this] r show ?thesis by (simp add: served_def)
qed

end
