(* ===== verification/Startup.thy ===== *)
theory Startup
  imports Recovery RecoverLaws Admission
begin

text \<open>
  The program from its command line on (\<^verbatim>\<open>main.rs\<close>): the default configuration, the arguments, and the steps of
  \<open>main\<close> up to the accept loop. The arguments are byte strings; \<open>std::env::args\<close> panics on one that is not UTF-8. The
  directory for temporary files and the files found in the data directory are arguments of the model.
\<close>

subsection \<open>Configuration\<close>

record server_config = config +
  cf_bind :: bytes
  cf_dir :: bytes
  cf_maxclients :: nat

definition log_settings_default :: "nat \<times> nat \<times> nat" where
  \<comment> \<open>\<open>page_bits\<close>, \<open>memory_pages\<close>, and the pages \<open>mutable_fraction\<close> comes to: \<open>(64 * 0.9).ceil()\<close>\<close>
  "log_settings_default = (20, 64, 58)"

definition store_settings_default :: "nat \<times> nat \<times> nat \<times> nat" where
  "store_settings_default = (2 ^ 16, log_settings_default)"

definition config_default :: "bytes \<Rightarrow> server_config" where
  "config_default temp_dir =
     (case store_settings_default of (n, bits, memory, mutable) \<Rightarrow>
        \<lparr>cf_persist = False, cf_aof = False, cf_aof_commit_wait = False, cf_commit_mode = Interval 100,
         cf_index_buckets = n, cf_page_bits = bits, cf_memory_pages = memory, cf_mutable_pages = mutable,
         cf_bind = str ''127.0.0.1:6379'', cf_dir = temp_dir @ str ''/mini-garnet-data'', cf_maxclients = DEFAULT_MAX_CLIENTS\<rparr>)"

lemmas config_default_simps = config_default_def store_settings_default_def log_settings_default_def

fun usize_digits :: "nat \<Rightarrow> nat list \<Rightarrow> nat option" where
  "usize_digits v [] = Some v"
| "usize_digits v (c # cs) =
     (if c < 48 \<or> 57 < c then None
      else (let w = v * 10 + (c - 48) in if w < 2 ^ 64 then usize_digits w cs else None))"

definition usize_from_str :: "nat list \<Rightarrow> nat option" where
  "usize_from_str s = (case s of [] \<Rightarrow> None | c # cs \<Rightarrow> if c = 43 then if cs = [] then None else usize_digits 0 cs else usize_digits 0 s)"

datatype parsed = Parsed server_config | Help | NotUtf8

definition is_text :: "bytes \<Rightarrow> bool" where
  "is_text a \<longleftrightarrow> from_utf8 a \<noteq> None"

definition set_option :: "bytes \<Rightarrow> bytes \<Rightarrow> server_config \<Rightarrow> server_config" where
  \<comment> \<open>the flags that take a value\<close>
  "set_option flag v cfg =
     (if flag = str ''--bind'' then cfg\<lparr>cf_bind := v\<rparr>
      else if flag = str ''--port'' then cfg\<lparr>cf_bind := str ''127.0.0.1:'' @ v\<rparr>
      else if flag = str ''--dir'' then cfg\<lparr>cf_dir := v\<rparr>
      else case Option.bind (from_utf8 v) usize_from_str of None \<Rightarrow> cfg | Some n \<Rightarrow> cfg\<lparr>cf_maxclients := n\<rparr>)"

definition set_flag :: "bytes \<Rightarrow> server_config \<Rightarrow> server_config" where
  \<comment> \<open>the flags without a value; an unknown one is reported and ignored\<close>
  "set_flag flag cfg =
     (if flag = str ''--persist'' then cfg\<lparr>cf_persist := True\<rparr>
      else if flag = str ''--aof'' then cfg\<lparr>cf_aof := True\<rparr>
      else if flag = str ''--aof-commit-wait'' then cfg\<lparr>cf_aof := True, cf_aof_commit_wait := True, cf_commit_mode := Always\<rparr>
      else cfg)"

definition takes_value :: "bytes \<Rightarrow> bool" where
  "takes_value flag \<longleftrightarrow> flag = str ''--bind'' \<or> flag = str ''--port'' \<or> flag = str ''--dir'' \<or> flag = str ''--maxclients''"

fun parse_args :: "server_config \<Rightarrow> bytes list \<Rightarrow> parsed" where
  "parse_args cfg [] = Parsed cfg"
| "parse_args cfg (a # rest) =
     (if \<not> is_text a then NotUtf8
      else if takes_value a then
        (case rest of [] \<Rightarrow> Parsed cfg
         | v # rest' \<Rightarrow> if \<not> is_text v then NotUtf8 else parse_args (set_option a v cfg) rest')
      else if a = str ''--help'' \<or> a = str ''-h'' then Help
      else parse_args (set_flag a cfg) rest)"

subsection \<open>The program\<close>

datatype started = Listening shared nat | Exited | Failed bytes | Panicked

definition main_start :: "bytes \<Rightarrow> bytes list \<Rightarrow> bytes \<Rightarrow> bytes \<Rightarrow> dir \<Rightarrow> io_outcome list \<Rightarrow> int \<Rightarrow> nat \<Rightarrow> nat \<Rightarrow> started" where
  \<comment> \<open>\<open>main\<close> up to \<open>serve\<close>, with the number of connections the accept loop admits\<close>
  "main_start temp_dir args log_file aof_file d aof_outcomes now rounds tid =
     (case parse_args (config_default temp_dir) args of
        Help \<Rightarrow> Exited
      | NotUtf8 \<Rightarrow> Panicked
      | Parsed cfg \<Rightarrow>
          (case shared_new (config.truncate cfg) log_file aof_file d aof_outcomes now rounds of
             None \<Rightarrow> Panicked
           | Some (Inl e) \<Rightarrow> Failed e
           | Some (Inr sh) \<Rightarrow>
               (case shared_recover sh tid of
                  None \<Rightarrow> Panicked
                | Some (Inl e, _) \<Rightarrow> Failed e
                | Some (Inr _, sh) \<Rightarrow> Listening sh (cf_maxclients cfg))))"

subsection \<open>What the command line can say\<close>

definition config_ok :: "server_config \<Rightarrow> bool" where
  "config_ok c \<longleftrightarrow> (cf_aof_commit_wait c \<longrightarrow> cf_aof c \<and> cf_commit_mode c = Always) \<and> cf_maxclients c < 2 ^ 64
     \<and> cf_index_buckets c = 2 ^ 16 \<and> cf_page_bits c = 20 \<and> cf_memory_pages c = 64 \<and> cf_mutable_pages c = 58"

lemma usize_digits_lt: "usize_digits v cs = Some n \<Longrightarrow> v < 2 ^ 64 \<Longrightarrow> n < 2 ^ 64"
  by (induction v cs rule: usize_digits.induct) (auto simp: Let_def split: if_splits)

lemma usize_from_str_lt: "usize_from_str s = Some n \<Longrightarrow> n < 2 ^ 64"
  using usize_digits_lt [of 0 _ n]
  by (auto simp: usize_from_str_def simp del: usize_digits.simps split: list.splits if_splits)

lemma set_option_ok: "config_ok c \<Longrightarrow> config_ok (set_option f v c)"
  by (auto simp: config_ok_def set_option_def bind_eq_Some_conv dest: usize_from_str_lt split: option.splits)

lemma set_flag_ok: "config_ok c \<Longrightarrow> config_ok (set_flag f c)"
  by (auto simp: config_ok_def set_flag_def)

lemma parse_args_ok: "parse_args c args = Parsed c' \<Longrightarrow> config_ok c \<Longrightarrow> config_ok c'"
  by (induction c args rule: parse_args.induct) (auto simp: set_option_ok set_flag_ok split: if_splits list.splits)

lemma config_default_ok: "config_ok (config_default tmp)"
  by (simp add: config_ok_def config_default_simps DEFAULT_MAX_CLIENTS_def MAX_THREADS_def)

lemma config_store:
  assumes "config_ok c"
  shows "\<exists>st. store_new (cf_index_buckets c) (cf_page_bits c) (cf_memory_pages c) (cf_mutable_pages c) dev = Some st"
  using store_new_defined assms by (simp add: config_ok_def)

fun maxclients_values :: "bytes list \<Rightarrow> nat list" where
  \<comment> \<open>the numbers that follow a \<open>--maxclients\<close>; one that is no number of 64 bits is skipped\<close>
  "maxclients_values [] = []"
| "maxclients_values (a # rest) =
     (if takes_value a then
        (case rest of [] \<Rightarrow> []
         | v # rest' \<Rightarrow>
             (if a = str ''--maxclients'' then (case Option.bind (from_utf8 v) usize_from_str of None \<Rightarrow> [] | Some n \<Rightarrow> [n]) else [])
             @ maxclients_values rest')
      else maxclients_values rest)"

lemma set_option_maxclients:
  assumes "takes_value a"
  shows "cf_maxclients (set_option a v cfg) = last (cf_maxclients cfg #
    (if a = str ''--maxclients'' then (case Option.bind (from_utf8 v) usize_from_str of None \<Rightarrow> [] | Some n \<Rightarrow> [n]) else []))"
  using assms by (auto simp: takes_value_def set_option_def split: option.splits)

lemma last_Cons_append: "last (last (x # ys) # zs) = last (x # ys @ zs)"
  by simp

lemma parse_args_maxclients:
  "parse_args cfg args = Parsed cfg' \<Longrightarrow> cf_maxclients cfg' = last (cf_maxclients cfg # maxclients_values args)"
proof (induction cfg args rule: parse_args.induct)
  case (2 cfg a rest)
  have t: "is_text a" using "2.prems" by (auto split: if_splits)
  show ?case
  proof (cases "takes_value a")
    case False
    have "a \<noteq> str ''--help''" "a \<noteq> str ''-h''" "parse_args (set_flag a cfg) rest = Parsed cfg'"
      using "2.prems" t False by (auto split: if_splits)
    with "2.IH"(2) t False have "cf_maxclients cfg' = last (cf_maxclients (set_flag a cfg) # maxclients_values rest)" by blast
    moreover have "cf_maxclients (set_flag a cfg) = cf_maxclients cfg" by (simp add: set_flag_def del: str_Cons)
    ultimately show ?thesis using False by simp
  next
    case True
    show ?thesis
    proof (cases rest)
      case Nil
      then show ?thesis using "2.prems" True t by simp
    next
      case (Cons v rest')
      have v: "is_text v" "parse_args (set_option a v cfg) rest' = Parsed cfg'" using "2.prems" True t Cons by (auto split: if_splits)
      then have "cf_maxclients cfg' = last (cf_maxclients (set_option a v cfg) # maxclients_values rest')"
        using "2.IH"(1) [of v rest'] t True Cons by blast
      then show ?thesis
        unfolding set_option_maxclients [OF True] last_Cons_append using True Cons by simp
    qed
  qed
qed simp

lemma commit_mode_flags:
  "parse_args cfg args = Parsed cfg' \<Longrightarrow> (\<not> cf_aof_commit_wait cfg \<longrightarrow> cf_commit_mode cfg = Interval 100) \<Longrightarrow>
    \<not> cf_aof_commit_wait cfg' \<longrightarrow> cf_commit_mode cfg' = Interval 100"
proof (induction cfg args rule: parse_args.induct)
  case (2 cfg a rest)
  have "\<not> cf_aof_commit_wait (set_flag a cfg) \<longrightarrow> cf_commit_mode (set_flag a cfg) = Interval 100"
    "\<not> cf_aof_commit_wait (set_option a v cfg) \<longrightarrow> cf_commit_mode (set_option a v cfg) = Interval 100" for v
    using "2.prems"(2) by (auto simp: set_flag_def set_option_def split: option.splits)
  then show ?case using "2.IH" "2.prems" by (auto split: if_splits list.splits)
qed simp

lemma no_maxclients: "str ''--maxclients'' \<notin> set args \<Longrightarrow> maxclients_values args = []"
  by (induction args rule: maxclients_values.induct) (auto simp del: str_Cons split: list.splits)

text \<open>C32: What the command line makes of the configuration. Waiting for commits comes with the append-only file and a commit per
  write, any other configuration commits every 100 ms; the log accepts the settings, so that creating the shared state never
  panics on them. The client limit is the last number given with \<open>--maxclients\<close>, taken as it is, and the default otherwise: without
  the flag the clients and eight further threads fit the epoch table, with it nothing bounds the limit by the table.\<close>

theorem command_line_configuration:
  assumes "parse_args (config_default temp_dir) args = Parsed cfg"
  shows "(if cf_aof_commit_wait cfg then cf_aof cfg \<and> cf_commit_mode cfg = Always else cf_commit_mode cfg = Interval 100)
    \<and> shared_new (config.truncate cfg) log_file aof_file d outcomes now rounds \<noteq> None
    \<and> cf_maxclients cfg = last (DEFAULT_MAX_CLIENTS # maxclients_values args)
    \<and> (str ''--maxclients'' \<notin> set args \<longrightarrow> cf_maxclients cfg + 8 = MAX_THREADS)"
proof -
  have ok: "config_ok cfg" using parse_args_ok [OF assms config_default_ok] .
  obtain st where "store_new (cf_index_buckets cfg) (cf_page_bits cfg) (cf_memory_pages cfg) (cf_mutable_pages cfg)
      (if cf_persist cfg then log_file else []) = Some st" using config_store [OF ok] by blast
  then have n: "shared_new (config.truncate cfg) log_file aof_file d outcomes now rounds \<noteq> None"
    by (auto simp: shared_new_def config.truncate_def Let_def split: io_outcome.splits sum.splits prod.splits)
  have m: "cf_maxclients cfg = last (DEFAULT_MAX_CLIENTS # maxclients_values args)"
    using parse_args_maxclients [OF assms] by (simp add: config_default_simps)
  have "str ''--maxclients'' \<notin> set args \<longrightarrow> cf_maxclients cfg + 8 = MAX_THREADS"
    using m no_maxclients by (auto simp del: str_Cons simp: DEFAULT_MAX_CLIENTS_def MAX_THREADS_def)
  moreover have "\<not> cf_aof_commit_wait cfg \<longrightarrow> cf_commit_mode cfg = Interval 100"
    using commit_mode_flags [OF assms] by (simp add: config_default_simps)
  then have "if cf_aof_commit_wait cfg then cf_aof cfg \<and> cf_commit_mode cfg = Always else cf_commit_mode cfg = Interval 100"
    using ok by (simp add: config_ok_def)
  ultimately show ?thesis using n m by blast
qed

theorem command_line_configuration_witness:
  "\<exists>cfg. parse_args (config_default []) [str ''--port'', str ''6399'', str ''--aof-commit-wait'', str ''--maxclients'', str ''1000''] = Parsed cfg
     \<and> MAX_THREADS < cf_maxclients cfg \<and> cf_bind cfg = str ''127.0.0.1:6399'' \<and> cf_aof cfg \<and> cf_commit_mode cfg = Always"
proof -
  let ?args = "[str ''--port'', str ''6399'', str ''--aof-commit-wait'', str ''--maxclients'', str ''1000'']"
  let ?cfg = "(config_default [])\<lparr>cf_aof := True, cf_aof_commit_wait := True, cf_commit_mode := Always,
      cf_bind := str ''127.0.0.1:6399'', cf_maxclients := 1000\<rparr>"
  have e: "parse_args (config_default []) ?args = Parsed ?cfg"
    by (simp add: takes_value_def is_text_def set_option_def set_flag_def usize_from_str_def from_utf8.simps)
  have "maxclients_values ?args = [1000]"
    by (simp add: takes_value_def usize_from_str_def from_utf8.simps)
  then have "cf_aof ?cfg \<and> cf_commit_mode ?cfg = Always \<and> cf_maxclients ?cfg = 1000" using command_line_configuration [OF e] by simp
  with e show ?thesis by (intro exI [of _ ?cfg]) (simp add: MAX_THREADS_def)
qed

subsection \<open>Restart\<close>

lemma map_sum_Inr: "map_sum f g x = Inr y \<longleftrightarrow> (\<exists>z. x = Inr z \<and> y = g z)"
  by (cases x) auto

text \<open>C33: A server started with the append-only file but without persistence opens the file, which stays as it is, but recovers nothing
  from it: whatever the file holds, every key is absent.\<close>

theorem aof_without_persist_not_replayed:
  assumes c: "parse_args (config_default temp_dir) args = Parsed cfg" and f: "cf_aof cfg" "\<not> cf_persist cfg"
    and s: "main_start temp_dir args log_file aof_file d outcomes now rounds tid = Listening sh m"
  shows "store_inv (sh_store sh) Map.empty \<and> (\<forall>key. svalue (sh_store sh) Map.empty key = None)
    \<and> (\<exists>a. sh_aof sh = Some a \<and> a_file a = aof_file)"
proof -
  have ok: "config_ok cfg" using parse_args_ok [OF c config_default_ok] .
  let ?cfg = "config.truncate cfg"
  obtain sh0 where n: "shared_new ?cfg log_file aof_file d outcomes now rounds = Some (Inr sh0)" and r: "shared_recover sh0 tid = Some (Inr (), sh)"
    using s c by (auto simp: main_start_def split: option.splits sum.splits prod.splits)
  obtain st where st: "store_new (2 ^ 16) 20 64 58 [] = Some st" using store_new_defined [of 20 "2 ^ 16" 64 58 "[]"] by auto
  have g: "sh_config sh0 = ?cfg" "sh_store sh0 = st" "\<exists>a. aof_open aof_file (cf_commit_mode cfg) outcomes = Inr a \<and> sh_aof sh0 = Some a"
    using n f st ok by (auto simp: map_sum_Inr shared_new_def config.truncate_def config_ok_def Let_def split: io_outcome.splits sum.splits prod.splits if_splits)
  have "sh = sh0" using r f(2) g(1) by (simp add: shared_recover_def config.truncate_def)
  moreover have "\<exists>a. sh_aof sh0 = Some a \<and> a_file a = aof_file"
    using g(3) by (auto simp: aof_open_def os_call_def Let_def split: list.splits io_outcome.splits prod.splits)
  moreover have "can_run st (new_session st 1) Map.empty" "\<And>key. cur (st_index st) Map.empty key = None"
    using store_new_ok(1,3) [OF st, of 1] by simp_all
  ultimately show ?thesis using g(2) by (simp add: can_run_def svalue_def)
qed

theorem aof_without_persist_not_replayed_witness:
  "\<exists>sh m. main_start [] [str ''--aof''] [] (frame set_a) demo_dir [] 0 0 1 = Listening sh m
     \<and> svalue (sh_store sh) Map.empty (str ''a'') = None \<and> (\<exists>a. sh_aof sh = Some a \<and> a_file a = frame set_a)"
proof -
  let ?cfg = "(config_default [])\<lparr>cf_aof := True\<rparr>"
  have c: "parse_args (config_default []) [str ''--aof''] = Parsed ?cfg"
    by (simp add: takes_value_def is_text_def set_flag_def from_utf8.simps)
  have f: "cf_aof ?cfg" "\<not> cf_persist ?cfg" by (simp_all add: config_default_simps)
  obtain st where st: "store_new (2 ^ 16) 20 64 58 [] = Some st" using store_new_defined [of 20 "2 ^ 16" 64 58 "[]"] by auto
  obtain b where "aof_open (frame set_a) (Interval 100) [] = Inr b" using open_no_faults by blast
  then obtain sh where sh: "shared_new (config.truncate ?cfg) [] (frame set_a) demo_dir [] 0 0 = Some (Inr sh)" "sh_config sh = config.truncate ?cfg"
    using st by (simp add: shared_new_def config.truncate_def config_default_simps dir_call_def demo_dir_def)
  have "shared_recover sh 1 = Some (Inr (), sh)" using sh(2) by (simp add: shared_recover_def config.truncate_def config_default_simps)
  then have "main_start [] [str ''--aof''] [] (frame set_a) demo_dir [] 0 0 1 = Listening sh (cf_maxclients ?cfg)"
    using sh(1) c by (simp add: main_start_def)
  with aof_without_persist_not_replayed [OF c f this] show ?thesis by blast
qed

text \<open>A restart on the files a server leaves.\<close>

definition aof_bytes :: "shared \<Rightarrow> bytes" where
  "aof_bytes sh = (case sh_aof sh of None \<Rightarrow> [] | Some a \<Rightarrow> a_file a)"

lemma truncate_clean: "a_outcomes a = [] \<Longrightarrow> \<exists>a'. aof_truncate a = (Inr (), a') \<and> a_file a' = []"
  by (simp add: aof_truncate_def os_call_def)

lemma replay_empty:
  assumes "sh_aof sh = (if p then Some a else None)" and "aof_open [] mode [] = Inr a"
  shows "\<exists>sh'. replay_aof sh tid = Some (Inr (), sh') \<and> sh_store sh' = sh_store sh"
proof -
  have "fst (aof_replay a) = Inr (replay_loop [] 0 0)" using replay_opened [OF assms(2)] by simp
  moreover have "replay_loop [] 0 0 = []" by (subst replay_loop.simps) (simp add: HEADER_LEN_def)
  ultimately show ?thesis using assms(1) by (cases "aof_replay a") (auto simp: replay_aof_def collect_aof_def)
qed

text \<open>C10: SAVE and restart. When a server with persistence is saved with no other session at work and no I/O fault, a server of the
  same configuration started on the files it leaves (the log device, the metadata and the truncated append-only file) recovers
  without error and holds for every key the value and expiration the first one held.\<close>

theorem save_restart:
  assumes inv: "store_inv (sh_store sh) R" and v: "Suc (version (system_state (sh_store sh))) < 2 ^ 56" and i: "idle (sh_store sh)"
    and tl: "snd (unpack (tail (st_log (sh_store sh)))) < page_size (st_log (sh_store sh))"
      "true_tail (st_log (sh_store sh)) \<noteq> FIRST_VALID_ADDRESS" "true_tail (st_log (sh_store sh)) < 2 ^ 48"
    and ro: "read_only_address (st_log (sh_store sh)) < true_tail (st_log (sh_store sh))
      \<or> flushed_until_address (st_log (sh_store sh)) = true_tail (st_log (sh_store sh))"
    and cfg: "sh_config sh = cfg" "cf_persist cfg" "cf_aof cfg = (sh_aof sh \<noteq> None)" "cf_page_bits cfg = page_bits (st_log (sh_store sh))"
      "1 \<le> cf_mutable_pages cfg" "cf_index_buckets cfg \<le> 2 ^ 40"
      "length (buckets (index_new (cf_index_buckets cfg))) = length (buckets (st_index (sh_store sh)))"
      "card (entry_of (index_new (cf_index_buckets cfg)) R ` dom R) \<le> length (overflow (index_new (cf_index_buckets cfg)))"
    and io: "dir_outcomes (sh_dir sh) = []" "\<forall>a. sh_aof sh = Some a \<longrightarrow> a_outcomes a = [] \<and> aof_tail_address a < 2 ^ 64"
  shows "\<exists>sh' sh0 sh1. shared_checkpoint sh = Some (Inr (), sh')
    \<and> shared_new cfg (device (st_log (sh_store sh'))) (aof_bytes sh') (sh_dir sh') [] now rounds = Some (Inr sh0)
    \<and> shared_recover sh0 tid = Some (Inr (), sh1) \<and> store_inv (sh_store sh1) (reopened R)
    \<and> (\<forall>key. svalue (sh_store sh1) (reopened R) key = svalue (sh_store sh) R key)"
proof -
  let ?u = "case sh_aof sh of Some a \<Rightarrow> aof_tail_address a | None \<Rightarrow> 0"
  have u: "?u < 2 ^ 64" using io(2) by (cases "sh_aof sh") auto
  from checkpoint_recovers [OF inv v i tl ro u io(1) cfg(5,6,7,8), of "sh_rounds sh" "cf_memory_pages cfg"] obtain info st' d' st0 st1 where
    c: "take_checkpoint (sh_rounds sh) (sh_store sh) (sh_dir sh) ?u = Some (Inr info, st', d')" "read_from d' = Inr info"
    "store_new (cf_index_buckets cfg) (page_bits (st_log (sh_store sh))) (cf_memory_pages cfg) (cf_mutable_pages cfg) (device (st_log st')) = Some st0"
    "store_recover st0 info = Some (Inr (), st1)" "store_inv st1 (reopened R)"
    "\<forall>key. svalue st1 (reopened R) key = svalue (sh_store sh) R key" "dir_outcomes d' = []" by blast
  have meta: "meta_file d' \<noteq> None" using c(2) by (cases "meta_file d'") (simp_all add: read_from_def)
  obtain sh' where s': "shared_checkpoint sh = Some (Inr (), sh')" "sh_store sh' = st'" "sh_dir sh' = d'" "aof_bytes sh' = []"
  proof (cases "sh_aof sh")
    case None
    then show ?thesis using that c(1) cfg(1,2) io(1) by (simp add: shared_checkpoint_def dir_call_def aof_bytes_def Let_def)
  next
    case (Some a)
    obtain a' where "aof_truncate a = (Inr (), a')" "a_file a' = []" using truncate_clean io(2) Some by blast
    then show ?thesis using that c(1) cfg(1,2) io(1) Some by (simp add: shared_checkpoint_def dir_call_def aof_bytes_def Let_def)
  qed
  obtain b where b: "aof_open [] (cf_commit_mode cfg) [] = Inr b" using open_no_faults by blast
  define sh0 where "sh0 = \<lparr>sh_store = st0, sh_aof = if cf_aof cfg then Some b else None, sh_aof_commit_wait = cf_aof_commit_wait cfg,
      sh_watch = watch_new (2 ^ 14), sh_config = cfg, sh_last_save_ms = 0, sh_dir = d', sh_clock = now, sh_rounds = rounds\<rparr>"
  have n: "shared_new cfg (device (st_log (sh_store sh'))) (aof_bytes sh') (sh_dir sh') [] now rounds = Some (Inr sh0)"
    using c(3,7) s'(2-4) b cfg(2,4) by (cases "cf_aof cfg") (simp_all add: shared_new_def dir_call_def sh0_def)
  have f: "sh_store sh0 = st0" "sh_dir sh0 = d'" "sh_config sh0 = cfg" "sh_aof sh0 = (if cf_aof cfg then Some b else None)"
    by (simp_all add: sh0_def)
  have "sh_aof (sh0\<lparr>sh_store := st1\<rparr>) = (if cf_aof cfg then Some b else None)" using f(4) by simp
  from replay_empty [OF this b] obtain sh1 where r: "replay_aof (sh0\<lparr>sh_store := st1\<rparr>) tid = Some (Inr (), sh1)" "sh_store sh1 = st1" by auto
  have "shared_recover sh0 tid = Some (Inr (), sh1)" using f(1-3) c(2,4) cfg(2) meta r(1) by (auto simp: shared_recover_def)
  then show ?thesis using s'(1) n r(2) c(5,6) by blast
qed

definition demo_config :: config where
  "demo_config = \<lparr>cf_persist = True, cf_aof = False, cf_aof_commit_wait = False, cf_commit_mode = Interval 100,
     cf_index_buckets = 4, cf_page_bits = 9, cf_memory_pages = 2, cf_mutable_pages = 1\<rparr>"

theorem save_restart_witness:
  "\<exists>sh sh' sh0 sh1. svalue (sh_store sh) one_rec [107] = Some ([1, 2, 3], 0) \<and> shared_checkpoint sh = Some (Inr (), sh')
    \<and> shared_new demo_config (device (st_log (sh_store sh'))) (aof_bytes sh') (sh_dir sh') [] 0 0 = Some (Inr sh0)
    \<and> shared_recover sh0 1 = Some (Inr (), sh1) \<and> svalue (sh_store sh1) (reopened one_rec) [107] = Some ([1, 2, 3], 0)"
proof -
  obtain st where st: "store_inv st one_rec" "st_log st = one_log" "system_state st = \<lparr>phase = Rest, version = 1\<rparr>"
    "length (buckets (st_index st)) = 4" "svalue st one_rec [107] = Some ([1, 2, 3], 0)" by (rule one_store)
  let ?sh = "\<lparr>sh_store = st, sh_aof = None, sh_aof_commit_wait = False, sh_watch = watch_new 4, sh_config = demo_config,
      sh_last_save_ms = 0, sh_dir = demo_dir, sh_clock = 0, sh_rounds = 0\<rparr>"
  note l = one_log
  have "length (buckets (index_new 4)) = 4" by code_simp
  then have "\<exists>sh' sh0 sh1. shared_checkpoint ?sh = Some (Inr (), sh')
    \<and> shared_new demo_config (device (st_log (sh_store sh'))) (aof_bytes sh') (sh_dir sh') [] 0 0 = Some (Inr sh0)
    \<and> shared_recover sh0 1 = Some (Inr (), sh1) \<and> store_inv (sh_store sh1) (reopened one_rec)
    \<and> (\<forall>key. svalue (sh_store sh1) (reopened one_rec) key = svalue (sh_store ?sh) one_rec key)"
    by (intro save_restart)
      (use st l in \<open>simp_all add: idle_def FIRST_VALID_ADDRESS_def PAGE_HEADER_SIZE_def demo_dir_def demo_config_def one_rec_def index_new_def Let_def\<close>)
  then obtain sh' sh0 sh1 where "shared_checkpoint ?sh = Some (Inr (), sh')"
    "shared_new demo_config (device (st_log (sh_store sh'))) (aof_bytes sh') (sh_dir sh') [] 0 0 = Some (Inr sh0)"
    "shared_recover sh0 1 = Some (Inr (), sh1)" "svalue (sh_store sh1) (reopened one_rec) [107] = svalue (sh_store ?sh) one_rec [107]" by blast
  moreover have "svalue (sh_store ?sh) one_rec [107] = Some ([1, 2, 3], 0)" using st(5) by simp
  ultimately show ?thesis by metis
qed

end
