(* ===== verification/Spec2Isabelle.thy ===== *)
theory Spec2Isabelle
  imports EpochProtocol StoreTxn ServerMap WatchLaws Devices Startup
begin

text \<open>
  Verification of mini-garnet, a RESP key-value server in Rust. This theory holds no definitions: it collects the library and
  says what is in it.

  \<^bold>\<open>The program.\<close> Two crates. \<^verbatim>\<open>tsavorite\<close> is the storage engine: a hash index (\<^verbatim>\<open>index.rs\<close>) whose entries head chains
  of records (\<^verbatim>\<open>record.rs\<close>) in a hybrid log (\<^verbatim>\<open>log.rs\<close>) that lies partly in a circular buffer of pages and partly on a
  device (\<^verbatim>\<open>device.rs\<close>); epochs (\<^verbatim>\<open>epoch.rs\<close>) decide when pages may be flushed and reused; \<^verbatim>\<open>store.rs\<close> has the
  operations Read, Upsert, RMW and Delete, generic in callbacks, and the bucket locks of transactions; \<^verbatim>\<open>checkpoint.rs\<close> has
  the fold-over checkpoint and recovery. \<^verbatim>\<open>garnet\<close> is the server: the wire protocol (\<^verbatim>\<open>resp.rs\<close>), the string type as callbacks
  (\<^verbatim>\<open>functions.rs\<close>), one function per command with MULTI, EXEC and WATCH (\<^verbatim>\<open>commands.rs\<close>), the append-only file
  (\<^verbatim>\<open>aof.rs\<close>), the state connections share (\<^verbatim>\<open>shared.rs\<close>), the connection loop and the accept loop (\<^verbatim>\<open>server.rs\<close>),
  and the command line (\<^verbatim>\<open>main.rs\<close>).

  \<^bold>\<open>How it is modelled.\<close> A struct is a record, an enum a datatype, a call a function on the state it changes. A 64-bit word is
  \<^typ>\<open>64 word\<close> where its bits matter (header, entry and latch words, hashes, watch versions, the phase word) and a number
  with the bound as a hypothesis where it is an address. \<open>None\<close> is a panic or a call that does not return; \<open>Inl\<close> is an
  \<open>io::Error\<close>. Operations of the store are modelled as one thread runs them; what happens between threads is modelled
  where the code is about it, as step relations over atomic accesses: the epoch protocol (\<open>EpochProtocol\<close>), the bucket latch
  (\<open>IndexLatch\<close>), the accept loop with its connection threads (\<open>Admission\<close>).

  \<^bold>\<open>The theories.\<close>
  \<^item> \<open>Prelude\<close>: machine types, byte slices, little-endian codecs, signed arithmetic.
  \<^item> Engine, data: \<open>KeyHash\<close> (hash.rs), \<open>LogRecord\<close> (record.rs, in bytes and in fields), \<open>HashIndex\<close> and \<open>IndexLatch\<close>
    (index.rs), \<open>Epoch\<close> and \<open>EpochProtocol\<close> (epoch.rs), \<open>HybridLog\<close> (log.rs over the memory device), \<open>Devices\<close> (device.rs).
  \<^item> Engine, laws of the log: \<open>LogSafety\<close> (allocation, watermarks), \<open>LogFlush\<close> (device contents, page walk), \<open>LogHeap\<close> (the
    log as a heap of records: the invariant \<open>log_inv l R\<close>).
  \<^item> Engine, store: \<open>SessionFunctions\<close> (the callback trait), \<open>Store\<close> (store.rs); \<open>RecordChain\<close>, \<open>LatchedIndex\<close>,
    \<open>StoreInv\<close> (the invariant \<open>store_inv st R\<close> and the abstraction \<open>cur\<close>: the newest record of a key), \<open>StorePublish\<close>,
    \<open>StoreAttempt\<close>, \<open>StoreGuard\<close> (one attempt of an operation), \<open>StoreUpsert\<close>, \<open>StoreRead\<close>, \<open>StoreModify\<close> (the loops,
    against the contracts of the callbacks), \<open>StoreTxn\<close> (transaction locks).
  \<^item> Engine, persistence: \<open>Checkpoint\<close> (checkpoint.rs), \<open>CheckpointLaws\<close>, and recovery from the inside out: \<open>RecoverPage\<close> (the
    walk over a page), \<open>RecoverIndex\<close> (the index it builds), \<open>RecoverLoop\<close> (records, pages, device), \<open>RecoverLaws\<close>.
  \<^item> Server: \<open>Resp\<close>, \<open>StringFunctions\<close>, \<open>StringStore\<close> and \<open>StoreLaws\<close> (strings on the store), \<open>Aof\<close>, \<open>SharedState\<close>,
    \<open>CommandArgs\<close>, \<open>Glob\<close>, \<open>RespSession\<close>, \<open>Commands\<close>, \<open>CommandFrame\<close>, \<open>CommandLaws\<close>, \<open>Server\<close>, \<open>Recovery\<close> (replay
    and the connection loop on real sessions), \<open>Admission\<close>, \<open>Startup\<close>; \<open>ServerMap\<close> composes all of it for one client, \<open>WatchLaws\<close>
    lets several clients take turns on the shared state.

  \<^bold>\<open>What is shown.\<close>
  \<^item> The server refines a map (\<open>ServerMap\<close>): for any sequence of GET, EXISTS, SET, PSETEX and DEL requests of one client, encoded,
    parsed, dispatched and run on the store, the replies are byte for byte those of a map from keys to values with expiration
    times, and the store holds that map at the end.
  \<^item> The store implements a map. \<open>svalue st R key\<close> is value and expiration of the newest record. Upsert, read, delete and
    read-modify-write return, keep \<open>store_inv\<close> and every other key, and do to their own key what they mean, wherever the
    record lies: mutable region, read-only region, device (\<open>StoreLaws\<close>). In-place and copying callbacks agree on value, output and
    decision, PERSIST without an expiration excepted (\<open>StringFunctions\<close>).
    With no other thread inside the epoch they do not give up: every boundary that moved is acted upon or its action is registered
    (\<open>shifts_covered\<close>), so each retry of an operation brings the page it waits for nearer, and three are enough (\<open>waits_decrease\<close>).
  \<^item> The log never overwrites a page a reader may use, keeps its seven watermarks in order, and flushes exactly the bytes of the
    pages. The index keeps one entry per tag; latches exclude; deferred actions run only when no thread works under the old
    boundary; the accept loop keeps the number of threads within the epoch table.
  \<^item> Persistence: acknowledged entries of the append-only file survive a crash and replay in order; the metadata of a checkpoint is
    replaced as a whole; a checkpoint with no other session at work returns; a store recovered from it, and a server
    restarted after SAVE, hold the same values.
  \<^item> The server: the parser is stable under more input and inverts the encoder; the way the network cuts the stream does not
    matter; EXEC aborts exactly when a request of another client wrote a key with a watched slot (\<open>WatchLaws\<close>); glob matching
    decides its reference semantics; the configuration is what the command line says, with the client limit taken unchecked.
  \<^item> Defects the model exhibits are theorems of kind error, each tied to its lines.

  \<^bold>\<open>Interfaces.\<close> The callbacks of the store are the locales \<open>upsert_callbacks\<close> and \<open>rmw_callbacks\<close>, interpreted on the string type; the
  index as a table is the locale \<open>tag_index\<close>, interpreted on the hash index; a device is the locale \<open>log_device\<close>, interpreted on the memory
  device and on the file; a relation all data commands preserve is the locale \<open>command_effect\<close>, interpreted twice in \<open>CommandLaws\<close>.

  \<^bold>\<open>Bounds and fuel.\<close> The retry loops of the store are \<^theory_text>\<open>partial_function\<close>s with the source's own \<open>MAX_RETRIES\<close>; the theorems
  show that they return, and that three retries are enough when no other thread is inside the epoch. Waiting loops of checkpoint and flush take a number of rounds (\<open>sh_rounds\<close>); with no other
  thread inside the epoch none is needed, so every number is enough. A wait for a commit takes a schedule of what other threads do while
  it sleeps (\<open>wait_committed\<close>); a session that runs alone gets the empty one. EXEC inside EXEC is refused, so the dispatch is closed at
  depth two, which \<open>exec_command_recursive\<close> shows to be the recursive function. Addresses are assumed below \<open>2 ^ 48\<close>, the
  width of a header's previous address, and versions below \<open>2 ^ 56\<close>.

  \<^bold>\<open>Hypotheses on restart.\<close> The new store has the page size and the number of index buckets of the old one and an overflow bucket
  for every entry; the log is not empty and its last page not exactly full. Each is needed: the code does not check them.

  \<^bold>\<open>Not modelled.\<close> Interleavings inside an operation of the store other than the ones named above; memory orderings (each atomic
  access is a step); sockets, the text on standard error and the background thread that calls \<open>commit\<close>, whose effect is a commit
  at any time; floating point, where the number of mutable pages enters as a number; device errors during a flush, which the
  source prints and drops. Tests are not part of the model.
\<close>

end
